(* ===== verification/Go_Prelude.thy ===== *)
theory Go_Prelude
  imports Main "HOL-Library.Word" "HOL-Library.Multiset"
begin

text \<open>
  The vocabulary shared by every component: Go's run-time panics as values, indexing and
  slicing of Go slices with the bounds checks written out, the sequencing of computations
  that may panic, and the lemmas on these that the component proofs use.

  Go's \<^verbatim>\<open>int\<close> is modelled by \<^typ>\<open>int\<close>. The quantities of type \<^verbatim>\<open>int\<close> in this program
  are terms, log indices, server numbers, configuration numbers and slice lengths; each grows
  by one per election, log entry, server or configuration, so none comes near \<open>2 ^ 63\<close>.
  Where the source uses a narrower type (the \<^verbatim>\<open>uint32\<close> vote counter, the \<^verbatim>\<open>uint64\<close> words
  of a bit set) the model keeps the width.
\<close>

section \<open>Panics\<close>

datatype go_panic =
    IndexOutOfRange          \<comment> \<open>\<^verbatim>\<open>xs[i]\<close> with i outside [0, len)\<close>
  | SliceOutOfRange          \<comment> \<open>\<^verbatim>\<open>xs[a:b]\<close> with a bound outside the slice\<close>
  | NilDereference           \<comment> \<open>a field of a nil pointer\<close>
  | Panic string             \<comment> \<open>an explicit \<^verbatim>\<open>panic(...)\<close> or \<^verbatim>\<open>log.Fatalf\<close>\<close>

type_synonym 'a res = "go_panic + 'a"

definition rbind :: "'a res \<Rightarrow> ('a \<Rightarrow> 'b res) \<Rightarrow> 'b res" where
  "rbind m f = (case m of Inl e \<Rightarrow> Inl e | Inr x \<Rightarrow> f x)"

lemma rbind_simps [simp]:
  "rbind (Inl e) f = Inl e"
  "rbind (Inr x) f = f x"
  by (simp_all add: rbind_def)

lemma rbind_assoc: "rbind (rbind m f) g = rbind m (\<lambda>x. rbind (f x) g)"
  by (cases m) simp_all

lemma rbind_Inr_iff: "rbind m f = Inr y \<longleftrightarrow> (\<exists>x. m = Inr x \<and> f x = Inr y)"
  by (cases m) auto

lemma rbind_InrE:
  assumes "rbind m f = Inr y"
  obtains x where "m = Inr x" "f x = Inr y"
  using assms by (cases m) auto

lemma rbind_cong [fundef_cong]:
  assumes "m = m'" and "\<And>x. m' = Inr x \<Longrightarrow> f x = f' x"
  shows "rbind m f = rbind m' f'"
  using assms by (cases m') auto

section \<open>Slices\<close>

definition at :: "'a list \<Rightarrow> int \<Rightarrow> 'a res" where
  "at xs i = (if 0 \<le> i \<and> i < int (length xs) then Inr (xs ! nat i) else Inl IndexOutOfRange)"

definition put :: "'a list \<Rightarrow> int \<Rightarrow> 'a \<Rightarrow> 'a list res" where
  "put xs i v = (if 0 \<le> i \<and> i < int (length xs) then Inr (xs[nat i := v])
                 else Inl IndexOutOfRange)"

definition slice_from :: "'a list \<Rightarrow> int \<Rightarrow> 'a list res" where
  "slice_from xs k = (if 0 \<le> k \<and> k \<le> int (length xs) then Inr (drop (nat k) xs)
                      else Inl SliceOutOfRange)"

definition slice_to :: "'a list \<Rightarrow> int \<Rightarrow> 'a list res" where
  "slice_to xs k = (if 0 \<le> k \<and> k \<le> int (length xs) then Inr (take (nat k) xs)
                    else Inl SliceOutOfRange)"

text \<open>A computation over each element of a range, in order, stopping at the first panic.\<close>

fun mapR :: "('a \<Rightarrow> 'b res) \<Rightarrow> 'a list \<Rightarrow> 'b list res" where
  "mapR f [] = Inr []"
| "mapR f (x # xs) = rbind (f x) (\<lambda>y. rbind (mapR f xs) (\<lambda>ys. Inr (y # ys)))"

lemma at_Inr_iff: "at xs i = Inr x \<longleftrightarrow> 0 \<le> i \<and> i < int (length xs) \<and> x = xs ! nat i"
  by (auto simp: at_def)

lemma at_in_range: "0 \<le> i \<Longrightarrow> i < int (length xs) \<Longrightarrow> at xs i = Inr (xs ! nat i)"
  by (simp add: at_def)

lemma at_0_Cons [simp]: "at (x # xs) 0 = Inr x"
  by (simp add: at_def)

lemma at_Nil [simp]: "at [] i = Inl IndexOutOfRange"
  by (simp add: at_def)

lemma put_in_range [simp]: "0 \<le> i \<Longrightarrow> i < int (length xs) \<Longrightarrow> put xs i v = Inr (xs[nat i := v])"
  by (simp add: put_def)

lemma put_Inr_iff:
  "put xs i v = Inr ys \<longleftrightarrow> 0 \<le> i \<and> i < int (length xs) \<and> ys = xs[nat i := v]"
  by (auto simp: put_def)

lemma slice_from_Inr_iff:
  "slice_from xs k = Inr ys \<longleftrightarrow> 0 \<le> k \<and> k \<le> int (length xs) \<and> ys = drop (nat k) xs"
  by (auto simp: slice_from_def)

lemma slice_to_Inr_iff:
  "slice_to xs k = Inr ys \<longleftrightarrow> 0 \<le> k \<and> k \<le> int (length xs) \<and> ys = take (nat k) xs"
  by (auto simp: slice_to_def)

lemma mapR_total:
  assumes "\<And>x. x \<in> set xs \<Longrightarrow> f x = Inr (g x)"
  shows "mapR f xs = Inr (map g xs)"
  using assms by (induction xs) auto

lemma mapR_length: "mapR f xs = Inr ys \<Longrightarrow> length ys = length xs"
  by (induction xs arbitrary: ys) (auto elim!: rbind_InrE)

lemma mapR_nth: "mapR f xs = Inr ys \<Longrightarrow> k < length xs \<Longrightarrow> f (xs ! k) = Inr (ys ! k)"
proof (induction xs arbitrary: ys k)
  case (Cons x xs)
  then show ?case by (cases k) (auto elim!: rbind_InrE)
qed simp

section \<open>Loops\<close>

text \<open>A loop over a range whose body updates the state and may panic.\<close>

fun forR :: "('a \<Rightarrow> 'b \<Rightarrow> 'b res) \<Rightarrow> 'a list \<Rightarrow> 'b \<Rightarrow> 'b res" where
  "forR f [] s = Inr s"
| "forR f (x # xs) s = rbind (f x s) (forR f xs)"

lemma forR_append: "forR f (xs @ ys) s = rbind (forR f xs s) (forR f ys)"
  by (induction xs arbitrary: s) (simp_all add: rbind_assoc cong: rbind_cong)

lemma rbind_forR_Nil [simp]: "rbind m (forR f []) = m"
  by (cases m) simp_all

lemma forR_invariant:
  assumes "forR f xs s = Inr s'" "P s" "\<And>x s s'. x \<in> set xs \<Longrightarrow> P s \<Longrightarrow> f x s = Inr s' \<Longrightarrow> P s'"
  shows "P s'"
  using assms by (induction xs arbitrary: s) (auto simp: rbind_Inr_iff)

lemma forR_total: "(\<And>x s. x \<in> set xs \<Longrightarrow> \<exists>s'. f x s = Inr s') \<Longrightarrow> \<exists>s'. forR f xs s = Inr s'"
proof (induction xs arbitrary: s)
  case (Cons x xs)
  obtain s1 where "f x s = Inr s1" using Cons.prems [of x s] by auto
  with Cons.IH [of s1] Cons.prems show ?case by simp
qed simp

lemma forR_map: "forR (\<lambda>i. f (g i)) is s = forR f (map g is) s"
  by (induction "is" arbitrary: s) (simp_all cong: rbind_cong)

lemma forR_nth: "forR (\<lambda>i. f (xs ! i)) [0..<length xs] s = forR f xs s"
  using forR_map [of f "\<lambda>i. xs ! i" "[0..<length xs]" s] unfolding map_nth .

section \<open>Majorities\<close>

text \<open>Two sets of servers that are each more than half of \<open>n\<close> servers share a server.\<close>

locale quorum_system =
  fixes servers :: "int set" and quorum :: "int set \<Rightarrow> bool"
  assumes quorum_servers: "quorum Q \<Longrightarrow> Q \<subseteq> servers"
    and quorum_meet: "quorum Q \<Longrightarrow> quorum Q' \<Longrightarrow> Q \<inter> Q' \<noteq> {}"
begin

lemma quorum_common:
  assumes "quorum Q" and "quorum Q'"
  obtains v where "v \<in> Q" "v \<in> Q'" "v \<in> servers"
  using quorum_meet [OF assms] quorum_servers [OF assms(1)] by blast

lemma quorum_nonempty: "quorum Q \<Longrightarrow> Q \<noteq> {}"
  using quorum_meet by blast

end

lemma majority_sets_meet:
  assumes "Q \<subseteq> {0..<n}" and "Q' \<subseteq> {0..<n}" and "0 \<le> n"
    and "n div 2 + 1 \<le> int (card Q)" and "n div 2 + 1 \<le> int (card Q')"
  shows "Q \<inter> Q' \<noteq> {}"
proof
  assume disj: "Q \<inter> Q' = {}"
  have fin: "finite Q" "finite Q'"
    using assms(1,2) finite_subset by blast+
  have "card Q + card Q' = card (Q \<union> Q')"
    using card_Un_disjoint [OF fin disj] by simp
  also have "\<dots> \<le> card {0..<n}"
    using assms(1,2) by (intro card_mono) auto
  finally have "int (card Q) + int (card Q') \<le> int (card {0..<n})" by linarith
  moreover have "int (card {0..<n}) = max 0 n" by simp
  ultimately show False using assms(3,4,5) by linarith
qed

end
