(* ===== verification/Labgob.thy ===== *)
theory Labgob
  imports Go_Prelude
begin

text \<open>
  The encoder and decoder of \<^verbatim>\<open>util_files/labgob/labgob.go\<close> as the rest of the program
  uses them. A gob stream is a sequence of self-delimited messages: \<^verbatim>\<open>Encode\<close> appends
  the message of one value, \<^verbatim>\<open>Decode\<close> consumes the next message and fails at the end of
  the stream or when the message does not have the type of the variable it is decoded into.
  A \<^verbatim>\<open>[]byte\<close> written by an encoder is therefore modelled by the list of the values it
  holds; the empty list is the empty (or nil) byte slice. The number of bytes of a stream is
  a parameter of the definitions that compare it with a bound.
\<close>

datatype gob_error = EOF | TypeMismatch

type_synonym 'v gob = "'v list"

definition Encode :: "'v gob \<Rightarrow> 'v \<Rightarrow> 'v gob" where
  "Encode w e = w @ [e]"

definition Decode :: "('v \<Rightarrow> 'a option) \<Rightarrow> 'v gob \<Rightarrow> (gob_error + 'a) \<times> 'v gob" where
  "Decode typ r =
     (case r of
        [] \<Rightarrow> (Inl EOF, [])
      | v # vs \<Rightarrow> (case typ v of Some a \<Rightarrow> (Inr a, vs) | None \<Rightarrow> (Inl TypeMismatch, vs)))"

lemma Decode_Nil [simp]: "Decode typ [] = (Inl EOF, [])"
  by (simp add: Decode_def)

lemma Decode_Cons [simp]:
  "Decode typ (v # vs) = ((case typ v of Some a \<Rightarrow> Inr a | None \<Rightarrow> Inl TypeMismatch), vs)"
  by (simp add: Decode_def split: option.split)

lemma Decode_Encode:
  assumes "typ v = Some a"
  shows "Decode typ (foldl Encode [v] vs) = (Inr a, vs)"
proof -
  have "foldl Encode ws vs = ws @ vs" for ws
    by (induction vs arbitrary: ws) (simp_all add: Encode_def)
  with assms show ?thesis by simp
qed

end
