(* ===== verification/Persister.thy ===== *)
theory Persister
  imports Labgob
begin

text \<open>
  \<^verbatim>\<open>db_files/raft/persister.go\<close>: the stable storage of one server, which survives its
  crashes. It holds the encoded Raft state and the encoded snapshot of the service. The
  mutex makes each method atomic, so a method is one function on the record; \<^verbatim>\<open>clone\<close>
  copies a byte slice, which on values is the identity.
\<close>

record ('b, 's) Persister =
  ps_raftstate :: "'b gob"
  ps_snapshot :: "'s gob"

definition MakePersister :: "('b, 's) Persister" where
  "MakePersister = \<lparr>ps_raftstate = [], ps_snapshot = []\<rparr>"

definition clone :: "'a list \<Rightarrow> 'a list" where
  "clone orig = map (\<lambda>i. orig ! i) [0..<length orig]"

definition Copy :: "('b, 's) Persister \<Rightarrow> ('b, 's) Persister" where
  "Copy ps = MakePersister\<lparr>ps_raftstate := ps_raftstate ps, ps_snapshot := ps_snapshot ps\<rparr>"

definition SaveRaftState :: "('b, 's) Persister \<Rightarrow> 'b gob \<Rightarrow> ('b, 's) Persister" where
  "SaveRaftState ps state = ps\<lparr>ps_raftstate := clone state\<rparr>"

definition ReadRaftState :: "('b, 's) Persister \<Rightarrow> 'b gob" where
  "ReadRaftState ps = clone (ps_raftstate ps)"

definition RaftStateSize :: "('b gob \<Rightarrow> int) \<Rightarrow> ('b, 's) Persister \<Rightarrow> int" where
  "RaftStateSize bytelen ps = bytelen (ps_raftstate ps)"

definition SaveStateAndSnapshot ::
    "('b, 's) Persister \<Rightarrow> 'b gob \<Rightarrow> 's gob \<Rightarrow> ('b, 's) Persister" where
  "SaveStateAndSnapshot ps state snapshot =
     ps\<lparr>ps_raftstate := clone state, ps_snapshot := clone snapshot\<rparr>"

definition ReadSnapshot :: "('b, 's) Persister \<Rightarrow> 's gob" where
  "ReadSnapshot ps = clone (ps_snapshot ps)"

definition SnapshotSize :: "('s gob \<Rightarrow> int) \<Rightarrow> ('b, 's) Persister \<Rightarrow> int" where
  "SnapshotSize bytelen ps = bytelen (ps_snapshot ps)"

lemma clone_id [simp]: "clone xs = xs"
  by (simp add: clone_def map_nth)

lemmas persister_defs =
  MakePersister_def Copy_def SaveRaftState_def ReadRaftState_def
  SaveStateAndSnapshot_def ReadSnapshot_def

section \<open>The contract of stable storage\<close>

text \<open>
  What Raft relies on: a read returns what the last save wrote, saving the Raft state alone
  leaves the snapshot, and a copy (the storage handed to a restarted server) reads the same.
\<close>

locale stable_storage =
  fixes save :: "'p \<Rightarrow> 'b \<Rightarrow> 'p" and save_both :: "'p \<Rightarrow> 'b \<Rightarrow> 's \<Rightarrow> 'p"
    and read_state :: "'p \<Rightarrow> 'b" and read_snap :: "'p \<Rightarrow> 's" and copy :: "'p \<Rightarrow> 'p"
  assumes read_save: "read_state (save p b) = b"
    and snap_save: "read_snap (save p b) = read_snap p"
    and read_save_both: "read_state (save_both p b s) = b"
    and snap_save_both: "read_snap (save_both p b s) = s"
    and read_copy: "read_state (copy p) = read_state p"
    and snap_copy: "read_snap (copy p) = read_snap p"
begin

lemmas storage_simps =
  read_save snap_save read_save_both snap_save_both read_copy snap_copy

lemma last_save_wins: "read_state (copy (save (save_both p b s) b')) = b'"
  by (simp add: storage_simps)

lemma snapshot_survives: "read_snap (copy (save (save_both p b s) b')) = s"
  by (simp add: storage_simps)

end

interpretation ps: stable_storage
  SaveRaftState SaveStateAndSnapshot ReadRaftState ReadSnapshot Copy
  by unfold_locales (simp_all add: persister_defs)

end
