(* ===== verification/Raft.thy ===== *)
theory Raft
  imports Persister
begin

text \<open>
  One Raft server, \<^verbatim>\<open>db_files/raft/raft.go\<close>. Every method of the source that changes the
  state does so while it holds \<^verbatim>\<open>rf.mu\<close>, so a critical section is one function from the
  record of the server to its new value, in the sum type of \<open>Go_Prelude\<close> where the section
  can panic. A method with several critical sections (it unlocks, makes a remote call and
  locks again) is several functions, one for each; the interleaving of the sections is the
  subject of \<open>Raft_Cluster\<close>. Clock readings and random numbers are arguments. The
  \<^verbatim>\<open>Debug\<close> calls only print and are left out.
\<close>

section \<open>Data\<close>

datatype State = Follower | Candidate | Leader

record 'c LogEntry =
  eTerm :: int
  eIndex :: int
  eCommand :: "'c option"          \<comment> \<open>\<^verbatim>\<open>interface{}\<close>; \<^verbatim>\<open>nil\<close> is \<open>None\<close>\<close>

record ('c, 's) ApplyMsg =
  amCommandValid :: bool
  amCommand :: "'c option"
  amCommandIndex :: int
  amSnapshotValid :: bool
  amSnapshot :: "'s gob"
  amSnapshotTerm :: int
  amSnapshotIndex :: int

text \<open>The values \<^verbatim>\<open>serializeState\<close> writes, one message each.\<close>

datatype 'c raft_item = GInt int | GLog "'c LogEntry list"

fun asInt :: "'c raft_item \<Rightarrow> int option" where
  "asInt (GInt i) = Some i"
| "asInt (GLog l) = None"

fun asLog :: "'c raft_item \<Rightarrow> 'c LogEntry list option" where
  "asLog (GLog l) = Some l"
| "asLog (GInt i) = None"

record ('c, 's) Raft =
  rf_peers :: nat                  \<comment> \<open>\<^verbatim>\<open>len(rf.peers)\<close>; the ends themselves are the network's\<close>
  rf_persister :: "('c raft_item, 's) Persister"
  rf_me :: int
  rf_dead :: bool
  rf_state :: State
  rf_term :: int
  rf_votedFor :: int
  rf_log :: "'c LogEntry list"
  rf_lastHeartbeat :: int
  rf_electionTimeout :: int
  rf_commitIndex :: int
  rf_lastApplied :: int
  rf_nextIndex :: "int list"
  rf_matchIndex :: "int list"

record 'c AppendEntriesArgs =
  aeTerm :: int
  aeLeaderId :: int
  aePrevLogIndex :: int
  aePrevLogTerm :: int
  aeEntries :: "'c LogEntry list"
  aeLeaderCommit :: int

record AppendEntriesReply =
  aerTerm :: int
  aerSuccess :: bool
  aerConflictingTerm :: int
  aerConflictingIndex :: int

record RequestVoteArgs =
  rvTerm :: int
  rvCandidateId :: int
  rvLastLogIndex :: int
  rvLastLogTerm :: int

record RequestVoteReply =
  rvrTerm :: int
  rvrVoteGranted :: bool

record 's InstallSnapshotArgs =
  isTerm :: int
  isLeaderId :: int
  isLastIncludedIndex :: int
  isLastIncludedTerm :: int
  isData :: "'s gob"

record InstallSnapshotReply =
  isrTerm :: int

section \<open>Helpers\<close>

definition Majority :: "('c, 's) Raft \<Rightarrow> int" where
  "Majority rf = int (rf_peers rf) div 2 + 1"

definition IsMajority :: "('c, 's) Raft \<Rightarrow> int \<Rightarrow> bool" where
  "IsMajority rf vote \<longleftrightarrow> vote \<ge> Majority rf"

definition LogIndexToSubscript :: "'c LogEntry list \<Rightarrow> int \<Rightarrow> int res" where
  "LogIndexToSubscript l logIndex = rbind (at l 0) (\<lambda>e0. Inr (logIndex - eIndex e0))"

text \<open>\<^verbatim>\<open>GetLogAtIndex\<close>: a pointer into the log, \<open>None\<close> where it is \<^verbatim>\<open>nil\<close>.\<close>

definition GetLogAtIndex :: "'c LogEntry list \<Rightarrow> int \<Rightarrow> 'c LogEntry option res" where
  "GetLogAtIndex l logIndex =
     rbind (at l 0) (\<lambda>e0.
       if logIndex < eIndex e0 then Inr None
       else rbind (LogIndexToSubscript l logIndex) (\<lambda>subscript.
         if int (length l) > subscript then rbind (at l subscript) (\<lambda>e. Inr (Some e))
         else Inr None))"

definition LogTail :: "'c LogEntry list \<Rightarrow> 'c LogEntry res" where
  "LogTail xs = at xs (int (length xs) - 1)"

text \<open>A field of the entry a pointer points to.\<close>

definition deref :: "'a option \<Rightarrow> 'a res" where
  "deref p = (case p of None \<Rightarrow> Inl NilDereference | Some x \<Rightarrow> Inr x)"

definition MinInt :: "int \<Rightarrow> int \<Rightarrow> int" where
  "MinInt a b = (if a > b then b else a)"

definition MaxInt :: "int \<Rightarrow> int \<Rightarrow> int" where
  "MaxInt a b = (if a > b then a else b)"

definition serializeState :: "('c, 's) Raft \<Rightarrow> 'c raft_item gob" where
  "serializeState rf =
     Encode (Encode (Encode [] (GInt (rf_term rf))) (GInt (rf_votedFor rf))) (GLog (rf_log rf))"

definition persist :: "('c, 's) Raft \<Rightarrow> ('c, 's) Raft" where
  "persist rf = rf\<lparr>rf_persister := SaveRaftState (rf_persister rf) (serializeState rf)\<rparr>"

definition resetTerm :: "int \<Rightarrow> ('c, 's) Raft \<Rightarrow> ('c, 's) Raft" where
  "resetTerm t rf = persist (rf\<lparr>rf_term := t, rf_votedFor := -1\<rparr>)"

definition becomeFollower :: "('c, 's) Raft \<Rightarrow> ('c, 's) Raft" where
  "becomeFollower rf = rf\<lparr>rf_state := Follower\<rparr>"

definition becomeCandidate :: "('c, 's) Raft \<Rightarrow> ('c, 's) Raft" where
  "becomeCandidate rf = rf\<lparr>rf_state := Candidate\<rparr>"

definition becomeLeader :: "('c, 's) Raft \<Rightarrow> ('c, 's) Raft" where
  "becomeLeader rf = rf\<lparr>rf_state := Leader\<rparr>"

definition GetState :: "('c, 's) Raft \<Rightarrow> int \<times> bool" where
  "GetState rf = (rf_term rf, rf_state rf = Leader)"

definition GetStateSize :: "('c raft_item gob \<Rightarrow> int) \<Rightarrow> ('c, 's) Raft \<Rightarrow> int" where
  "GetStateSize bytelen rf = RaftStateSize bytelen (rf_persister rf)"

section \<open>Restart\<close>

definition readPersist :: "'c raft_item gob \<Rightarrow> ('c, 's) Raft \<Rightarrow> ('c, 's) Raft res" where
  "readPersist data rf =
     (if data = [] then Inr rf
      else case Decode asInt data of
        (Inl e, _) \<Rightarrow> Inl (Panic ''decode term'')
      | (Inr t, d1) \<Rightarrow>
          (case Decode asInt d1 of
             (Inl e, _) \<Rightarrow> Inl (Panic ''decode votedFor'')
           | (Inr vf, d2) \<Rightarrow>
               (case Decode asLog d2 of
                  (Inl e, _) \<Rightarrow> Inl (Panic ''decode log'')
                | (Inr l, _) \<Rightarrow>
                    rbind (at l 0) (\<lambda>e0.
                      Inr (rf\<lparr>rf_term := t, rf_votedFor := vf, rf_log := l,
                              rf_commitIndex := eIndex e0, rf_lastApplied := eIndex e0\<rparr>)))))"

definition ElectionTimeoutMax :: int where "ElectionTimeoutMax = 600000000"
definition ElectionTimeoutMin :: int where "ElectionTimeoutMin = 500000000"

text \<open>\<^verbatim>\<open>rand.Int63n(n)\<close> is a number below \<open>n\<close>: the remainder of the random number \<open>r\<close>.\<close>

definition NextElectionTimeout :: "nat \<Rightarrow> int" where
  "NextElectionTimeout r =
     int r mod (ElectionTimeoutMax - ElectionTimeoutMin) + ElectionTimeoutMin"

definition sentinel :: "'c LogEntry" where
  "sentinel = \<lparr>eTerm = 0, eIndex = 0, eCommand = None\<rparr>"

definition Make ::
    "nat \<Rightarrow> int \<Rightarrow> ('c raft_item, 's) Persister \<Rightarrow> nat \<Rightarrow> ('c, 's) Raft res" where
  "Make peers m persister r =
     (let rf = \<lparr>rf_peers = peers, rf_persister = persister, rf_me = m, rf_dead = False,
                rf_state = Follower, rf_term = 0, rf_votedFor = -1, rf_log = [sentinel],
                rf_lastHeartbeat = 0, rf_electionTimeout = NextElectionTimeout r,
                rf_commitIndex = 0, rf_lastApplied = 0,
                rf_nextIndex = replicate peers 1, rf_matchIndex = replicate peers 0\<rparr>
      in if length (rf_log rf) \<noteq> 1 then Inl (Panic ''len(rf.log) != 1'')
         else readPersist (ReadRaftState persister) rf)"

definition Kill :: "('c, 's) Raft \<Rightarrow> ('c, 's) Raft" where
  "Kill rf = rf\<lparr>rf_dead := True\<rparr>"

definition killed :: "('c, 's) Raft \<Rightarrow> bool" where
  "killed rf = rf_dead rf"

end
