(* ===== verification/Raft_Handlers.thy ===== *)
theory Raft_Handlers
  imports Raft
begin

text \<open>
  The operations of a Raft server (\<^verbatim>\<open>db_files/raft/raft.go\<close>): the three RPC handlers, the
  critical sections of the goroutines that run elections, replicate the log and apply
  committed entries, the calls of the service, and the code that runs when a reply arrives.
\<close>

section \<open>Snapshots\<close>

definition CondInstallSnapshot ::
    "int \<Rightarrow> int \<Rightarrow> 's gob \<Rightarrow> ('c, 's) Raft \<Rightarrow> (('c, 's) Raft \<times> bool) res" where
  "CondInstallSnapshot lastIncludedTerm lastIncludedIndex snapshot rf =
     (if lastIncludedIndex < rf_commitIndex rf then Inr (rf, False)
      else
        rbind (LogTail (rf_log rf)) (\<lambda>tail.
        rbind (if lastIncludedIndex \<ge> eIndex tail then slice_to (rf_log rf) 1
               else rbind (LogIndexToSubscript (rf_log rf) lastIncludedIndex)
                          (\<lambda>k. slice_from (rf_log rf) k)) (\<lambda>l.
        rbind (at l 0) (\<lambda>e0.
        rbind (put l 0 (e0\<lparr>eIndex := lastIncludedIndex, eTerm := lastIncludedTerm,
                            eCommand := None\<rparr>)) (\<lambda>l'.
          let rf1 = rf\<lparr>rf_log := l', rf_commitIndex := lastIncludedIndex,
                       rf_lastApplied := lastIncludedIndex\<rparr>
          in Inr (rf1\<lparr>rf_persister :=
                        SaveStateAndSnapshot (rf_persister rf1) (serializeState rf1) snapshot\<rparr>,
                  True))))))"

definition Snapshot :: "int \<Rightarrow> 's gob \<Rightarrow> ('c, 's) Raft \<Rightarrow> ('c, 's) Raft res" where
  "Snapshot index snapshot rf =
     (case find (\<lambda>entry. eIndex entry = index) (rf_log rf) of
        None \<Rightarrow> Inr rf
      | Some entry \<Rightarrow>
          rbind (LogIndexToSubscript (rf_log rf) (eIndex entry)) (\<lambda>k.
          rbind (slice_from (rf_log rf) k) (\<lambda>l.
          rbind (at l 0) (\<lambda>e0.
          rbind (put l 0 (e0\<lparr>eCommand := None\<rparr>)) (\<lambda>l'.
            let rf1 = rf\<lparr>rf_log := l'\<rparr>
            in Inr (rf1\<lparr>rf_persister :=
                      SaveStateAndSnapshot (rf_persister rf1) (serializeState rf1) snapshot\<rparr>))))))"

section \<open>AppendEntries\<close>

text \<open>
  The branch on the role and the term of the sender that \<^verbatim>\<open>AppendEntries\<close> and
  \<^verbatim>\<open>InstallSnapshot\<close> share.
\<close>

definition followSender :: "int \<Rightarrow> ('c, 's) Raft \<Rightarrow> ('c, 's) Raft" where
  "followSender t rf =
     (if rf_state rf = Candidate \<and> t \<ge> rf_term rf then resetTerm t (becomeFollower rf)
      else if rf_state rf = Follower \<and> t > rf_term rf then resetTerm t rf
      else if rf_state rf = Leader \<and> t > rf_term rf then resetTerm t (becomeFollower rf)
      else rf)"

text \<open>
  The loop over the received entries: the log after a truncation at the first conflict, and
  the number of received entries (\<^verbatim>\<open>appendLeft\<close>) that are not to be appended.
\<close>

fun mergeLoop :: "'c LogEntry list \<Rightarrow> int \<Rightarrow> int \<Rightarrow> 'c LogEntry list \<Rightarrow>
    ('c LogEntry list \<times> int) res" where
  "mergeLoop l i appendLeft [] = Inr (l, appendLeft)"
| "mergeLoop l i appendLeft (entry # es) =
     rbind (GetLogAtIndex l (eIndex entry)) (\<lambda>p.
       case p of
         None \<Rightarrow> mergeLoop l (i + 1) appendLeft es
       | Some local \<Rightarrow>
           if eIndex local \<noteq> eIndex entry then Inl (Panic ''LMP violated'')
           else if eTerm local \<noteq> eTerm entry then
             rbind (LogIndexToSubscript l (eIndex entry)) (\<lambda>k.
             rbind (slice_to l k) (\<lambda>l'. Inr (l', i)))
           else mergeLoop l (i + 1) (i + 1) es)"

definition mergeEntries :: "'c LogEntry list \<Rightarrow> 'c LogEntry list \<Rightarrow> 'c LogEntry list res" where
  "mergeEntries l entries =
     rbind (LogTail entries) (\<lambda>t.
     rbind (at l 0) (\<lambda>e0.
       if eIndex t \<ge> eIndex e0 then
         rbind (mergeLoop l 0 0 entries) (\<lambda>(l', appendLeft).
           Inr (l' @ drop (nat appendLeft) entries))
       else Inr l))"

text \<open>The log consistency check: \<open>Some\<close> is the failed check with the two conflict fields.\<close>

definition logMismatch ::
    "'c LogEntry list \<Rightarrow> 'c AppendEntriesArgs \<Rightarrow> (int \<times> int) option res" where
  "logMismatch l args =
     rbind (at l 0) (\<lambda>e0.
       if aePrevLogIndex args > 0 \<and> aePrevLogIndex args \<ge> eIndex e0 then
         rbind (GetLogAtIndex l (aePrevLogIndex args)) (\<lambda>p.
           case p of
             None \<Rightarrow> rbind (LogTail l) (\<lambda>tail. Inr (Some (0, eIndex tail)))
           | Some prev \<Rightarrow>
               if eTerm prev \<noteq> aePrevLogTerm args then
                 Inr (Some (eTerm prev,
                   (case find (\<lambda>entry. eTerm entry = eTerm prev) l of
                      None \<Rightarrow> 0 | Some entry \<Rightarrow> eIndex entry)))
               else Inr None)
       else Inr None)"

definition AppendEntries ::
    "int \<Rightarrow> 'c AppendEntriesArgs \<Rightarrow> ('c, 's) Raft \<Rightarrow>
     (('c, 's) Raft \<times> AppendEntriesReply) res" where
  "AppendEntries now args rf =
     (let reply = \<lparr>aerTerm = rf_term rf, aerSuccess = False,
                   aerConflictingTerm = 0, aerConflictingIndex = 0\<rparr>
      in if aeTerm args < rf_term rf then Inr (rf, reply)
         else
           let rf1 = followSender (aeTerm args) (rf\<lparr>rf_lastHeartbeat := now\<rparr>)
           in rbind (logMismatch (rf_log rf1) args) (\<lambda>mm.
             case mm of
               Some (ct, ci) \<Rightarrow>
                 Inr (rf1, reply\<lparr>aerConflictingTerm := ct, aerConflictingIndex := ci\<rparr>)
             | None \<Rightarrow>
                 rbind (if aeEntries args \<noteq> [] then
                          rbind (mergeEntries (rf_log rf1) (aeEntries args))
                                (\<lambda>l. Inr (persist (rf1\<lparr>rf_log := l\<rparr>)))
                        else Inr rf1) (\<lambda>rf2.
                 rbind (if aeLeaderCommit args > rf_commitIndex rf2 then
                          rbind (LogTail (rf_log rf2)) (\<lambda>tail.
                            Inr (rf2\<lparr>rf_commitIndex :=
                                       MinInt (aeLeaderCommit args) (eIndex tail)\<rparr>))
                        else Inr rf2) (\<lambda>rf3.
                   Inr (rf3, reply\<lparr>aerSuccess := True\<rparr>)))))"

section \<open>RequestVote\<close>

definition isAtLeastUpToDate :: "RequestVoteArgs \<Rightarrow> 'c LogEntry list \<Rightarrow> bool res" where
  "isAtLeastUpToDate args l =
     rbind (LogTail l) (\<lambda>tail.
       Inr (if rvLastLogTerm args = eTerm tail then rvLastLogIndex args \<ge> eIndex tail
            else rvLastLogTerm args \<ge> eTerm tail))"

definition RequestVote ::
    "int \<Rightarrow> RequestVoteArgs \<Rightarrow> ('c, 's) Raft \<Rightarrow> (('c, 's) Raft \<times> RequestVoteReply) res" where
  "RequestVote now args rf =
     (let reply = \<lparr>rvrTerm = rf_term rf, rvrVoteGranted = False\<rparr>
      in if rvTerm args < rf_term rf then Inr (rf, reply)
         else
           let rf1 = (if rvTerm args > rf_term rf then resetTerm (rvTerm args) (becomeFollower rf)
                      else rf)
           in rbind (if rf_votedFor rf1 = -1 \<or> rf_votedFor rf1 = rvCandidateId args
                     then isAtLeastUpToDate args (rf_log rf1) else Inr False) (\<lambda>grant.
             if grant then
               Inr ((persist (rf1\<lparr>rf_votedFor := rvCandidateId args\<rparr>))\<lparr>rf_lastHeartbeat := now\<rparr>,
                    reply\<lparr>rvrVoteGranted := True\<rparr>)
             else Inr (rf1, reply)))"

section \<open>InstallSnapshot\<close>

text \<open>The third component is the message the spawned goroutine sends on \<^verbatim>\<open>applyCh\<close>.\<close>

definition InstallSnapshot ::
    "int \<Rightarrow> 's InstallSnapshotArgs \<Rightarrow> ('c, 's) Raft \<Rightarrow>
     ('c, 's) Raft \<times> InstallSnapshotReply \<times> ('c, 's) ApplyMsg option" where
  "InstallSnapshot now args rf =
     (let reply = \<lparr>isrTerm = rf_term rf\<rparr>
      in if isTerm args < rf_term rf then (rf, reply, None)
         else (followSender (isTerm args) (rf\<lparr>rf_lastHeartbeat := now\<rparr>), reply,
               Some \<lparr>amCommandValid = False, amCommand = None, amCommandIndex = 0,
                     amSnapshotValid = True, amSnapshot = isData args,
                     amSnapshotTerm = isLastIncludedTerm args,
                     amSnapshotIndex = isLastIncludedIndex args\<rparr>))"

section \<open>Elections\<close>

text \<open>One round of the loop of \<^verbatim>\<open>DoElection\<close> after the sleep: \<open>Some\<close> arguments start an election.\<close>

definition DoElection ::
    "int \<Rightarrow> nat \<Rightarrow> ('c, 's) Raft \<Rightarrow> (('c, 's) Raft \<times> RequestVoteArgs option) res" where
  "DoElection now r rf =
     (if rf_state rf = Leader then Inr (rf, None)
      else if now - rf_lastHeartbeat rf \<ge> rf_electionTimeout rf then
        let rf1 = rf\<lparr>rf_electionTimeout := NextElectionTimeout r\<rparr>;
            rf2 = becomeCandidate (resetTerm (rf_term rf1 + 1) rf1);
            rf3 = persist (rf2\<lparr>rf_votedFor := rf_me rf2\<rparr>)
        in rbind (LogTail (rf_log rf3)) (\<lambda>tail.
             Inr (rf3, Some \<lparr>rvTerm = rf_term rf3, rvCandidateId = rf_me rf3,
                             rvLastLogIndex = eIndex tail, rvLastLogTerm = eTerm tail\<rparr>))
      else Inr (rf, None))"

text \<open>
  The goroutine that handles the reply to a \<^verbatim>\<open>RequestVote\<close> call. \<open>vote\<close> is the \<^verbatim>\<open>uint32\<close>
  variable that the goroutines of one election share.
\<close>

definition winElection :: "('c, 's) Raft \<Rightarrow> ('c, 's) Raft res" where
  "winElection rf =
     rbind (LogTail (rf_log rf)) (\<lambda>tail.
     rbind (put (replicate (rf_peers rf) 0) (rf_me rf) (eIndex tail)) (\<lambda>mi.
       Inr (becomeLeader (rf\<lparr>rf_nextIndex := replicate (rf_peers rf) (eIndex tail + 1),
                             rf_matchIndex := mi\<rparr>))))"

definition handleVoteReply ::
    "RequestVoteArgs \<Rightarrow> RequestVoteReply \<Rightarrow> ('c, 's) Raft \<Rightarrow> 32 word \<Rightarrow>
     (('c, 's) Raft \<times> 32 word) res" where
  "handleVoteReply args reply rf vote =
     (if rf_state rf \<noteq> Candidate \<or> rf_term rf \<noteq> rvTerm args then Inr (rf, vote)
      else if rvrTerm reply > rf_term rf then
        Inr (resetTerm (rvrTerm reply) (becomeFollower rf), vote)
      else if rvrVoteGranted reply then
        let vote' = vote + 1
        in if IsMajority rf (uint vote') then rbind (winElection rf) (\<lambda>rf'. Inr (rf', vote'))
           else Inr (rf, vote')
      else Inr (rf, vote))"

definition needHeartbeat :: "('c, 's) Raft \<Rightarrow> bool" where
  "needHeartbeat rf \<longleftrightarrow> rf_state rf = Leader"

section \<open>Applying committed entries\<close>

definition needApplyL :: "('c, 's) Raft \<Rightarrow> bool" where
  "needApplyL rf \<longleftrightarrow> rf_commitIndex rf > rf_lastApplied rf"

text \<open>One critical section of the loop of \<^verbatim>\<open>DoApply\<close> and the message it then sends.\<close>

definition DoApply ::
    "('c, 's) Raft \<Rightarrow> (('c, 's) Raft \<times> ('c, 's) ApplyMsg option) res" where
  "DoApply rf =
     (if \<not> needApplyL rf then Inr (rf, None)
      else
        let rf1 = rf\<lparr>rf_lastApplied := rf_lastApplied rf + 1\<rparr>
        in rbind (GetLogAtIndex (rf_log rf1) (rf_lastApplied rf1)) (\<lambda>p.
             case p of
               None \<Rightarrow> Inl (Panic ''entry == nil'')
             | Some toCommit \<Rightarrow>
                 Inr (rf1, Some \<lparr>amCommandValid = True, amCommand = eCommand toCommit,
                                 amCommandIndex = eIndex toCommit, amSnapshotValid = False,
                                 amSnapshot = [], amSnapshotTerm = 0, amSnapshotIndex = 0\<rparr>)))"

section \<open>Replication\<close>

definition needReplicate :: "int \<Rightarrow> ('c, 's) Raft \<Rightarrow> bool res" where
  "needReplicate peer rf =
     rbind (at (rf_nextIndex rf) peer) (\<lambda>nextIndex.
       if rf_state rf = Leader \<and> peer \<noteq> rf_me rf then
         rbind (GetLogAtIndex (rf_log rf) nextIndex) (\<lambda>p.
           if p \<noteq> None then rbind (LogTail (rf_log rf)) (\<lambda>tail. Inr (eIndex tail > nextIndex))
           else Inr False)
       else Inr False)"

datatype ('c, 's) replicateCall =
    CallInstallSnapshot "'s InstallSnapshotArgs"
  | CallAppendEntries "'c AppendEntriesArgs"

text \<open>The first critical section of \<^verbatim>\<open>Replicate\<close>: the call it then makes, if any.\<close>

definition Replicate :: "int \<Rightarrow> ('c, 's) Raft \<Rightarrow> ('c, 's) replicateCall option res" where
  "Replicate peer rf =
     (if rf_state rf \<noteq> Leader then Inr None
      else
        rbind (at (rf_nextIndex rf) peer) (\<lambda>nextIndex.
        rbind (at (rf_log rf) 0) (\<lambda>e0.
          if nextIndex \<le> eIndex e0 then
            Inr (Some (CallInstallSnapshot
              \<lparr>isTerm = rf_term rf, isLeaderId = rf_me rf, isLastIncludedIndex = eIndex e0,
               isLastIncludedTerm = eTerm e0, isData = ReadSnapshot (rf_persister rf)\<rparr>))
          else
            rbind (LogTail (rf_log rf)) (\<lambda>tail.
            rbind (mapR (\<lambda>j. rbind (GetLogAtIndex (rf_log rf) j) (\<lambda>p.
                          case p of None \<Rightarrow> Inl (Panic ''atIndex == nil'')
                                  | Some entry \<Rightarrow> Inr entry))
                        [nextIndex..eIndex tail]) (\<lambda>entries.
            rbind (GetLogAtIndex (rf_log rf) (nextIndex - 1)) (\<lambda>p.
            rbind (deref p) (\<lambda>prev.
              Inr (Some (CallAppendEntries
                \<lparr>aeTerm = rf_term rf, aeLeaderId = rf_me rf, aePrevLogIndex = eIndex prev,
                 aePrevLogTerm = eTerm prev, aeEntries = entries,
                 aeLeaderCommit = rf_commitIndex rf\<rparr>)))))))))"

text \<open>The second critical section of \<^verbatim>\<open>Replicate\<close>, after the snapshot call returned.\<close>

definition handleInstallReply ::
    "int \<Rightarrow> 's InstallSnapshotArgs \<Rightarrow> InstallSnapshotReply \<Rightarrow> ('c, 's) Raft \<Rightarrow>
     ('c, 's) Raft res" where
  "handleInstallReply peer args reply rf =
     (if rf_term rf \<noteq> isTerm args then Inr rf
      else if isrTerm reply > rf_term rf then Inr (resetTerm (isrTerm reply) (becomeFollower rf))
      else rbind (put (rf_nextIndex rf) peer (isLastIncludedIndex args + 1)) (\<lambda>ni.
             Inr (rf\<lparr>rf_nextIndex := ni\<rparr>)))"

text \<open>The number of peers known to hold index \<open>i\<close>: the inner loop of \<^verbatim>\<open>Sync\<close>.\<close>

definition countMatch :: "nat \<Rightarrow> int list \<Rightarrow> int \<Rightarrow> int res" where
  "countMatch peers matchIndex i =
     rbind (mapR (\<lambda>p. rbind (at matchIndex p) (\<lambda>m. Inr (m \<ge> i))) [0..int peers - 1]) (\<lambda>bs.
       Inr (int (length (filter id bs))))"

text \<open>The outer loop of \<^verbatim>\<open>Sync\<close>: the last index that a majority holds and whose term is current.\<close>

fun commitLoop :: "('c, 's) Raft \<Rightarrow> int list \<Rightarrow> int \<Rightarrow> int res" where
  "commitLoop rf [] preCommitIndex = Inr preCommitIndex"
| "commitLoop rf (i # is) preCommitIndex =
     rbind (countMatch (rf_peers rf) (rf_matchIndex rf) i) (\<lambda>count.
     rbind (if IsMajority rf count then
              rbind (GetLogAtIndex (rf_log rf) i) (\<lambda>p.
              rbind (deref p) (\<lambda>e. Inr (eTerm e = rf_term rf)))
            else Inr False) (\<lambda>b.
       commitLoop rf is (if b then i else preCommitIndex)))"

text \<open>Where to back up to after a failed consistency check: the search for the last own entry
  of the conflicting term, from the end of the log down to subscript 1.\<close>

definition backupIndex ::
    "'c LogEntry list \<Rightarrow> AppendEntriesReply \<Rightarrow> int \<Rightarrow> int" where
  "backupIndex l reply nextIndex =
     (case (if aerConflictingTerm reply > 0
            then find (\<lambda>e. eTerm e = aerConflictingTerm reply) (rev (tl l)) else None) of
        Some e \<Rightarrow> MinInt nextIndex (eIndex e + 1)
      | None \<Rightarrow> MaxInt (MinInt nextIndex (aerConflictingIndex reply)) 1)"

text \<open>The critical section of \<^verbatim>\<open>Sync\<close> after the \<^verbatim>\<open>AppendEntries\<close> call returned.\<close>

definition handleAppendReply ::
    "int \<Rightarrow> 'c AppendEntriesArgs \<Rightarrow> AppendEntriesReply \<Rightarrow> ('c, 's) Raft \<Rightarrow>
     ('c, 's) Raft res" where
  "handleAppendReply peer args reply rf =
     (if rf_term rf \<noteq> aeTerm args then Inr rf
      else if aerTerm reply > rf_term rf then Inr (resetTerm (aerTerm reply) (becomeFollower rf))
      else if aerSuccess reply then
        if aeEntries args = [] then Inr rf
        else
          rbind (LogTail (aeEntries args)) (\<lambda>t.
          rbind (put (rf_matchIndex rf) peer (eIndex t)) (\<lambda>mi.
          rbind (put (rf_nextIndex rf) peer (eIndex t + 1)) (\<lambda>ni.
            let rf1 = rf\<lparr>rf_matchIndex := mi, rf_nextIndex := ni\<rparr>
            in rbind (commitLoop rf1 [rf_commitIndex rf1..eIndex t] (rf_commitIndex rf1)) (\<lambda>ci.
                 Inr (rf1\<lparr>rf_commitIndex := ci\<rparr>)))))
      else if aerTerm reply < rf_term rf then Inr rf
      else
        rbind (at (rf_nextIndex rf) peer) (\<lambda>nextIndex.
        rbind (put (rf_matchIndex rf) peer 0) (\<lambda>mi.
        rbind (put (rf_nextIndex rf) peer (backupIndex (rf_log rf) reply nextIndex)) (\<lambda>ni.
          Inr (rf\<lparr>rf_matchIndex := mi, rf_nextIndex := ni\<rparr>)))))"

section \<open>Start\<close>

text \<open>
  \<^verbatim>\<open>Start\<close> up to the call of \<^verbatim>\<open>BroadcastHeartbeat\<close>: the index of the new entry if this
  server is the leader. \<^verbatim>\<open>BroadcastHeartbeat\<close> releases the lock and takes it again, so the
  term and the role that \<^verbatim>\<open>Start\<close> returns are read from a possibly later state.
\<close>

definition Start :: "'c \<Rightarrow> ('c, 's) Raft \<Rightarrow> (('c, 's) Raft \<times> int option) res" where
  "Start command rf =
     (if rf_state rf \<noteq> Leader then Inr (rf, None)
      else
        rbind (LogTail (rf_log rf)) (\<lambda>tail.
          let entry = \<lparr>eTerm = rf_term rf, eIndex = eIndex tail + 1, eCommand = Some command\<rparr>;
              rf1 = persist (rf\<lparr>rf_log := rf_log rf @ [entry]\<rparr>)
          in rbind (at (rf_matchIndex rf1) (rf_me rf1)) (\<lambda>m.
             rbind (put (rf_matchIndex rf1) (rf_me rf1) (m + 1)) (\<lambda>mi.
               Inr (rf1\<lparr>rf_matchIndex := mi\<rparr>, Some (eIndex entry))))))"

definition StartResult :: "int option \<Rightarrow> ('c, 's) Raft \<Rightarrow> int \<times> int \<times> bool" where
  "StartResult r rf =
     (case r of None \<Rightarrow> (-1, -1, False)
              | Some index \<Rightarrow> (index, rf_term rf, rf_state rf = Leader))"

end
