(* ===== verification/Raft_Log.thy ===== *)
theory Raft_Log
  imports Raft_Handlers
begin

text \<open>
  The log of a Raft server. A well-formed log is non-empty (its head is the entry the last
  snapshot replaced, or the initial sentinel) and its indices are consecutive. On such a log
  the subscript arithmetic of the source is exact, and the loop that merges received entries
  is the rule of the Raft paper: keep what agrees, cut at the first conflict, append the rest.
\<close>

section \<open>Well-formed logs\<close>

definition contig :: "int \<Rightarrow> 'c LogEntry list \<Rightarrow> bool" where
  "contig p es \<longleftrightarrow> (\<forall>k < length es. eIndex (es ! k) = p + int k)"

definition base :: "'c LogEntry list \<Rightarrow> int" where
  "base l = eIndex (hd l)"

definition tailIndex :: "'c LogEntry list \<Rightarrow> int" where
  "tailIndex l = base l + int (length l) - 1"

definition wf_log :: "'c LogEntry list \<Rightarrow> bool" where
  "wf_log l \<longleftrightarrow> l \<noteq> [] \<and> contig (base l) l"

lemma contig_Nil [simp]: "contig p []"
  by (simp add: contig_def)

lemma contig_Cons [simp]: "contig p (e # es) \<longleftrightarrow> eIndex e = p \<and> contig (p + 1) es"
proof
  assume c: "contig p (e # es)"
  have "eIndex (es ! k) = p + 1 + int k" if "k < length es" for k
    using c that by (auto simp: contig_def dest!: spec [where x = "Suc k"])
  with c show "eIndex e = p \<and> contig (p + 1) es"
    by (auto simp: contig_def)
next
  assume "eIndex e = p \<and> contig (p + 1) es"
  then show "contig p (e # es)"
    by (auto simp: contig_def nth_Cons split: nat.split)
qed

lemma contig_append:
  "contig p (xs @ ys) \<longleftrightarrow> contig p xs \<and> contig (p + int (length xs)) ys"
  by (induction xs arbitrary: p) (auto simp: algebra_simps)

lemma contig_drop: "contig p es \<Longrightarrow> contig (p + int k) (drop k es)"
  by (auto simp: contig_def algebra_simps)

lemma contig_take: "contig p es \<Longrightarrow> contig p (take k es)"
  by (auto simp: contig_def)

lemma contig_last:
  "contig p es \<Longrightarrow> es \<noteq> [] \<Longrightarrow> eIndex (last es) = p + int (length es) - 1"
  by (auto simp: contig_def last_conv_nth of_nat_diff Suc_leI)

lemma wf_logD [dest]: "wf_log l \<Longrightarrow> l \<noteq> []" "wf_log l \<Longrightarrow> contig (base l) l"
  by (auto simp: wf_log_def)

lemma wf_log_nth: "wf_log l \<Longrightarrow> k < length l \<Longrightarrow> eIndex (l ! k) = base l + int k"
  by (auto simp: wf_log_def contig_def)

lemma wf_log_last: "wf_log l \<Longrightarrow> eIndex (last l) = tailIndex l"
  by (simp add: wf_log_nth last_conv_nth tailIndex_def wf_logD of_nat_diff Suc_leI)

lemma base_le_tailIndex [simp]: "l \<noteq> [] \<Longrightarrow> base l \<le> tailIndex l"
  by (cases l) (auto simp: tailIndex_def)

lemma at_0_hd [simp]: "l \<noteq> [] \<Longrightarrow> at l 0 = Inr (hd l)"
  by (cases l) auto

lemma LogTail_last [simp]: "l \<noteq> [] \<Longrightarrow> LogTail l = Inr (last l)"
  by (simp add: LogTail_def last_conv_nth nat_diff_distrib' Suc_leI at_in_range)

lemma LogIndexToSubscript_base [simp]:
  "l \<noteq> [] \<Longrightarrow> LogIndexToSubscript l i = Inr (i - base l)"
  by (simp add: LogIndexToSubscript_def base_def)

lemma GetLogAtIndex_eq:
  "l \<noteq> [] \<Longrightarrow> GetLogAtIndex l i =
     Inr (if base l \<le> i \<and> i \<le> tailIndex l then Some (l ! nat (i - base l)) else None)"
  by (auto simp: GetLogAtIndex_def base_def [symmetric] tailIndex_def at_def hd_conv_nth [symmetric])

lemma GetLogAtIndex_in:
  "l \<noteq> [] \<Longrightarrow> base l \<le> i \<Longrightarrow> i \<le> tailIndex l \<Longrightarrow>
   GetLogAtIndex l i = Inr (Some (l ! nat (i - base l)))"
  by (simp add: GetLogAtIndex_eq)

lemma wf_log_single [simp]: "wf_log [e]"
  by (simp add: wf_log_def base_def)

lemma wf_log_Cons: "wf_log (e # l) \<longleftrightarrow> contig (eIndex e + 1) l"
  by (simp add: wf_log_def base_def)

lemma wf_log_append: "wf_log l \<Longrightarrow> contig (tailIndex l + 1) es \<Longrightarrow> wf_log (l @ es)"
  by (auto simp: wf_log_def contig_append base_def tailIndex_def)

lemma wf_log_take: "wf_log l \<Longrightarrow> 0 < k \<Longrightarrow> wf_log (take k l)"
  by (auto simp: wf_log_def base_def hd_take intro: contig_take)

lemma base_take [simp]: "0 < k \<Longrightarrow> base (take k l) = base l"
  by (simp add: base_def hd_take)

lemma base_append [simp]: "l \<noteq> [] \<Longrightarrow> base (l @ es) = base l"
  by (simp add: base_def)

section \<open>Merging received entries\<close>

text \<open>
  The rule of the Raft paper for the entries after the agreed prefix: an existing entry that
  conflicts with a received one (same index, different term) is deleted with all that follow
  it, and the received entries not already in the log are appended.
\<close>

fun mergeSpec :: "'c LogEntry list \<Rightarrow> 'c LogEntry list \<Rightarrow> 'c LogEntry list" where
  "mergeSpec old [] = old"
| "mergeSpec [] new = new"
| "mergeSpec (x # old) (y # new) =
     (if eTerm x = eTerm y then x # mergeSpec old new else y # new)"

lemma mergeSpec_Nil [simp]: "mergeSpec [] new = new"
  by (cases new) auto

lemma contig_mergeSpec: "contig p old \<Longrightarrow> contig p new \<Longrightarrow> contig p (mergeSpec old new)"
  by (induction old new arbitrary: p rule: mergeSpec.induct) auto

lemma mergeSpec_length: "length new \<le> length (mergeSpec old new)"
  by (induction old new rule: mergeSpec.induct) auto

lemma mergeSpec_terms:
  "k < length new \<Longrightarrow> eTerm (mergeSpec old new ! k) = eTerm (new ! k)"
proof (induction old new arbitrary: k rule: mergeSpec.induct)
  case (3 x old y new)
  then show ?case by (cases k) auto
qed auto

lemma mergeSpec_elements: "set (mergeSpec old new) \<subseteq> set old \<union> set new"
  by (induction old new rule: mergeSpec.induct) auto

lemma mergeSpec_idem: "mergeSpec (mergeSpec old new) new = mergeSpec old new"
proof (induction old new rule: mergeSpec.induct)
  case (2 y new)
  have "mergeSpec l l = l" for l :: "'a LogEntry list"
    by (induction l) auto
  then show ?case by simp
next
  case (3 x old y new)
  have "mergeSpec l l = l" for l :: "'a LogEntry list"
    by (induction l) auto
  with 3 show ?case by auto
qed auto

text \<open>A prefix of what the log already holds changes nothing: a delayed call never truncates.\<close>

lemma mergeSpec_stale:
  "map eTerm new = take (length new) (map eTerm old) \<Longrightarrow> mergeSpec old new = old"
  by (induction old new rule: mergeSpec.induct) auto

lemma mergeLoop_beyond:
  "wf_log l \<Longrightarrow> contig q es \<Longrightarrow> tailIndex l < q \<Longrightarrow> mergeLoop l i a es = Inr (l, a)"
  by (induction es arbitrary: q i) (auto simp: GetLogAtIndex_eq wf_logD)

lemma mergeLoop_before:
  "wf_log l \<Longrightarrow> contig q es \<Longrightarrow> q + int (length es) \<le> base l \<Longrightarrow>
   mergeLoop l i a (es @ fs) = mergeLoop l (i + int (length es)) a fs"
  by (induction es arbitrary: q i) (auto simp: GetLogAtIndex_eq wf_logD algebra_simps)

lemma mergeLoop_at:
  assumes "wf_log l" "k < length l" "eIndex e = base l + int k"
  shows "mergeLoop l i a (e # es) =
     (if eTerm (l ! k) \<noteq> eTerm e then Inr (take k l, i) else mergeLoop l (i + 1) (i + 1) es)"
  using assms
  by (auto simp: GetLogAtIndex_eq wf_logD tailIndex_def wf_log_nth slice_to_def)

lemma mergeLoop_merge:
  assumes "wf_log l" "contig (base l + int k) es" "k \<le> length l"
  shows "\<exists>l' a'. mergeLoop l i i es = Inr (l', a') \<and> i \<le> a' \<and>
     l' @ drop (nat (a' - i)) es = take k l @ mergeSpec (drop k l) es"
  using assms
proof (induction es arbitrary: k i)
  case Nil
  then show ?case by auto
next
  case (Cons e es)
  show ?case
  proof (cases "k < length l")
    case False
    with Cons.prems have "k = length l" by auto
    moreover from this have "mergeLoop l i i (e # es) = Inr (l, i)"
      using Cons.prems
      by (intro mergeLoop_beyond [where q = "base l + int k"]) (auto simp: tailIndex_def)
    ultimately show ?thesis by simp
  next
    case True
    have dropk: "drop k l = l ! k # drop (Suc k) l"
      using True by (simp add: Cons_nth_drop_Suc)
    note step = mergeLoop_at [OF Cons.prems(1) True, of e i i es]
    show ?thesis
    proof (cases "eTerm (l ! k) = eTerm e")
      case False
      with step Cons.prems show ?thesis by (simp add: dropk)
    next
      case same: True
      from Cons.prems have c: "contig (base l + int (Suc k)) es" by (simp add: algebra_simps)
      obtain l' a' where *: "mergeLoop l (i + 1) (i + 1) es = Inr (l', a')" "i + 1 \<le> a'"
        "l' @ drop (nat (a' - (i + 1))) es = take (Suc k) l @ mergeSpec (drop (Suc k) l) es"
        using Cons.IH [OF Cons.prems(1) c, of "i + 1"] True by auto
      have "nat (a' - i) = Suc (nat (a' - (i + 1)))" using *(2) by simp
      with * step same Cons.prems True show ?thesis
        by (auto simp: dropk take_Suc_conv_app_nth)
    qed
  qed
qed

text \<open>
  The merge of the source is the reference merge after the agreed prefix: entries that follow
  the entry at \<open>p\<close>, a position inside the log.
\<close>

lemma mergeEntries_spec:
  assumes "wf_log l" "contig (p + 1) es" "es \<noteq> []" "base l \<le> p" "p \<le> tailIndex l"
  shows "mergeEntries l es =
     Inr (take (nat (p + 1 - base l)) l @ mergeSpec (drop (nat (p + 1 - base l)) l) es)"
proof -
  define k where "k = nat (p + 1 - base l)"
  have k: "base l + int k = p + 1" "k \<le> length l" "0 < k"
    using assms by (auto simp: k_def tailIndex_def)
  from assms k obtain l' a where *: "mergeLoop l 0 0 es = Inr (l', a)" "0 \<le> a"
    "l' @ drop (nat a) es = take k l @ mergeSpec (drop k l) es"
    using mergeLoop_merge [of l k es 0] by auto
  have "eIndex (last es) = p + int (length es)"
    using contig_last [OF assms(2,3)] by simp
  then have "base l \<le> eIndex (last es)" using assms by (cases es) auto
  with * assms(1,3) show ?thesis
    by (simp add: mergeEntries_def base_def [symmetric] wf_logD k_def)
qed

text \<open>
  Entries that start before the snapshot: those the snapshot covers are skipped, and if the
  entry at the snapshot's index has the snapshot's term the rest is merged after it.
\<close>

lemma mergeEntries_overlap:
  assumes "wf_log l" "contig (p + 1) es" "p < base l" "base l \<le> p + int (length es)"
    and "eTerm (es ! nat (base l - p - 1)) = eTerm (hd l)"
  shows "mergeEntries l es = Inr (hd l # mergeSpec (tl l) (drop (nat (base l - p)) es))"
proof -
  define d where "d = nat (base l - p - 1)"
  have d: "d < length es" "p + 1 + int d = base l" using assms by (auto simp: d_def)
  have l: "take 1 l = [hd l]" "l ! 0 = hd l"
    using wf_logD(1) [OF assms(1)] by (simp add: take_Suc, simp add: hd_conv_nth)
  have es: "es = take d es @ es ! d # drop (Suc d) es"
    using d by (simp add: id_take_nth_drop)
  have e: "eIndex (es ! d) = base l" using assms(2) d by (auto simp: contig_def)
  have t: "eTerm (l ! 0) = eTerm (es ! d)" using assms(5) l(2) by (simp add: d_def)
  have len0: "0 < length l" using wf_logD(1) [OF assms(1)] by simp
  have "mergeLoop l 0 0 es = mergeLoop l (int d) 0 (es ! d # drop (Suc d) es)"
    using mergeLoop_before [of l "p + 1" "take d es" 0 0 "es ! d # drop (Suc d) es"] assms(1,2) d es
    by (auto simp: contig_take min_def)
  also have "\<dots> = mergeLoop l (int d + 1) (int d + 1) (drop (Suc d) es)"
    using len0 t e by (subst mergeLoop_at [OF assms(1), of 0]) auto
  finally have loop: "mergeLoop l 0 0 es = \<dots>" .
  have c: "contig (base l + int 1) (drop (Suc d) es)"
    using contig_drop [OF assms(2), of "Suc d"] d(2) [symmetric] by (simp add: algebra_simps)
  obtain l' a where *: "mergeLoop l 0 0 es = Inr (l', a)" "int d + 1 \<le> a"
    "l' @ drop (nat (a - (int d + 1))) (drop (Suc d) es)
       = take 1 l @ mergeSpec (drop 1 l) (drop (Suc d) es)"
    using mergeLoop_merge [OF assms(1) c, of "int d + 1"] loop len0 by auto
  have "nat (a - (int d + 1)) + Suc d = nat a" using *(2) by simp
  then have "drop (nat (a - (int d + 1))) (drop (Suc d) es) = drop (nat a) es"
    by (metis drop_drop)
  with *(3) have "l' @ drop (nat a) es = hd l # mergeSpec (tl l) (drop (Suc d) es)"
    by (simp add: l [simplified] drop_Suc)
  moreover have ne: "es \<noteq> []" using d by auto
  moreover have "base l \<le> eIndex (last es)"
    using contig_last [OF assms(2) ne] assms(4) by simp
  moreover have "Suc d = nat (base l - p)" using d by simp
  ultimately show ?thesis
    using * assms(1) by (simp add: mergeEntries_def base_def [symmetric] wf_logD)
qed

lemma mergeEntries_old:
  assumes "l \<noteq> []" "es \<noteq> []" "eIndex (last es) < base l"
  shows "mergeEntries l es = Inr l"
  using assms by (simp add: mergeEntries_def base_def)

end
