(* ===== verification/Raft_Node.thy ===== *)
theory Raft_Node
  imports Raft_Log
begin

text \<open>
  Facts about one Raft server that hold whatever the network does: every operation leaves on
  stable storage what a restart needs, no operation changes who the server is, and the effect
  of each operation on the role, the term and the vote.
\<close>

section \<open>Stable storage is up to date\<close>

text \<open>
  Either nothing was ever saved and the server is in its initial voting state, or the saved
  bytes are the encoding of the current term, vote and log.
\<close>

definition persisted :: "('c, 's) Raft \<Rightarrow> bool" where
  "persisted rf \<longleftrightarrow>
     ps_raftstate (rf_persister rf) = serializeState rf \<or>
     (ps_raftstate (rf_persister rf) = [] \<and> rf_term rf = 0 \<and> rf_votedFor rf = -1 \<and>
      rf_log rf = [sentinel])"

definition node_ok :: "nat \<Rightarrow> int \<Rightarrow> ('c, 's) Raft \<Rightarrow> bool" where
  "node_ok n i rf \<longleftrightarrow> rf_peers rf = n \<and> rf_me rf = i \<and> persisted rf \<and> rf_log rf \<noteq> [] \<and>
     length (rf_nextIndex rf) = n \<and> length (rf_matchIndex rf) = n"

named_theorems node_simps

lemma serializeState_eq [node_simps]:
  "serializeState rf = [GInt (rf_term rf), GInt (rf_votedFor rf), GLog (rf_log rf)]"
  by (simp add: serializeState_def Encode_def)

lemmas [node_simps] = persist_def resetTerm_def becomeFollower_def becomeCandidate_def
  becomeLeader_def SaveRaftState_def SaveStateAndSnapshot_def

lemma persisted_persist [simp]: "persisted (persist rf)"
  by (simp add: persisted_def node_simps)

lemma node_ok_resetTerm [simp]:
  "node_ok n i (resetTerm t rf) \<longleftrightarrow> rf_peers rf = n \<and> rf_me rf = i \<and> rf_log rf \<noteq> [] \<and>
     length (rf_nextIndex rf) = n \<and> length (rf_matchIndex rf) = n"
  by (auto simp: node_ok_def persisted_def node_simps)

lemma node_ok_becomeFollower [simp]: "node_ok n i (becomeFollower rf) = node_ok n i rf"
  by (simp add: node_ok_def persisted_def node_simps)

lemma node_okD:
  assumes "node_ok n i rf"
  shows "rf_peers rf = n" "rf_me rf = i" "persisted rf" "rf_log rf \<noteq> []"
    "length (rf_nextIndex rf) = n" "length (rf_matchIndex rf) = n"
  using assms by (auto simp: node_ok_def)

text \<open>The fields a server's identity, storage and log do not depend on.\<close>

lemma node_ok_frame [simp]:
  "node_ok n i (rf\<lparr>rf_lastHeartbeat := x\<rparr>) = node_ok n i rf"
  "node_ok n i (rf\<lparr>rf_commitIndex := c\<rparr>) = node_ok n i rf"
  "node_ok n i (rf\<lparr>rf_lastApplied := c\<rparr>) = node_ok n i rf"
  by (simp_all add: node_ok_def persisted_def serializeState_eq)

lemma followSender_node_ok [simp]: "node_ok n i rf \<Longrightarrow> node_ok n i (followSender t rf)"
  by (auto simp: followSender_def dest: node_okD) (auto simp: node_ok_def node_simps)

lemma mergeLoop_result:
  "mergeLoop l i a es = Inr (l', a') \<Longrightarrow> l' = l \<or> (i \<le> a' \<and> a' < i + int (length es))"
proof (induction es arbitrary: i a)
  case (Cons e es)
  from Cons.prems show ?case
    by (auto elim!: rbind_InrE split: option.splits if_splits dest!: Cons.IH)
qed simp

lemma mergeEntries_nonempty:
  assumes "mergeEntries l es = Inr l'" "l \<noteq> []"
  shows "l' \<noteq> []"
proof -
  from assms consider "l' = l" |
    l1 a where "mergeLoop l 0 0 es = Inr (l1, a)" "l' = l1 @ drop (nat a) es"
    by (auto simp: mergeEntries_def elim!: rbind_InrE split: if_splits)
  then show ?thesis
  proof cases
    case 2
    with mergeLoop_result [OF 2(1)] assms(2) show ?thesis by auto
  qed (use assms(2) in simp)
qed

lemma AppendEntries_node_ok:
  assumes "AppendEntries now args rf = Inr (rf', reply)" "node_ok n i rf"
  shows "node_ok n i rf'"
proof -
  let ?rf1 = "followSender (aeTerm args) (rf\<lparr>rf_lastHeartbeat := now\<rparr>)"
  have ok1: "node_ok n i ?rf1" using assms(2) by simp
  have merged: "node_ok n i (persist (?rf1\<lparr>rf_log := l\<rparr>))"
    if "mergeEntries (rf_log ?rf1) (aeEntries args) = Inr l" for l
    using ok1 mergeEntries_nonempty [OF that] by (auto simp: node_ok_def node_simps persisted_def)
  from assms ok1 merged show ?thesis
    by (auto simp: AppendEntries_def Let_def elim!: rbind_InrE split: if_splits option.splits)
qed

lemma RequestVote_node_ok:
  assumes "RequestVote now args rf = Inr (rf', reply)" "node_ok n i rf"
  shows "node_ok n i rf'"
  using assms
  by (auto simp: RequestVote_def Let_def elim!: rbind_InrE split: if_splits)
    (auto simp: node_ok_def node_simps persisted_def)

lemma InstallSnapshot_node_ok:
  "InstallSnapshot now args rf = (rf', reply, m) \<Longrightarrow> node_ok n i rf \<Longrightarrow> node_ok n i rf'"
  by (auto simp: InstallSnapshot_def Let_def split: if_splits)

lemma DoElection_node_ok:
  assumes "DoElection now r rf = Inr (rf', a)" "node_ok n i rf"
  shows "node_ok n i rf'"
  using assms
  by (auto simp: DoElection_def Let_def elim!: rbind_InrE split: if_splits)
    (auto simp: node_ok_def node_simps persisted_def)

lemma handleVoteReply_node_ok:
  assumes "handleVoteReply args reply rf vote = Inr (rf', vote')" "node_ok n i rf"
  shows "node_ok n i rf'"
  using assms
  by (auto simp: handleVoteReply_def winElection_def put_Inr_iff Let_def elim!: rbind_InrE split: if_splits)
    (auto simp: node_ok_def node_simps persisted_def)

lemma handleInstallReply_node_ok:
  assumes "handleInstallReply p args reply rf = Inr rf'" "node_ok n i rf"
  shows "node_ok n i rf'"
  using assms
  by (auto simp: handleInstallReply_def put_Inr_iff elim!: rbind_InrE split: if_splits)
    (auto simp: node_ok_def node_simps persisted_def)

lemma handleAppendReply_node_ok:
  assumes "handleAppendReply p args reply rf = Inr rf'" "node_ok n i rf"
  shows "node_ok n i rf'"
  using assms
  by (auto simp: handleAppendReply_def put_Inr_iff Let_def elim!: rbind_InrE split: if_splits)
    (auto simp: node_ok_def node_simps persisted_def)

lemma Start_node_ok:
  assumes "Start c rf = Inr (rf', x)" "node_ok n i rf"
  shows "node_ok n i rf'"
  using assms
  by (auto simp: Start_def put_Inr_iff Let_def elim!: rbind_InrE split: if_splits)
    (auto simp: node_ok_def node_simps persisted_def)

lemma DoApply_node_ok:
  "DoApply rf = Inr (rf', m) \<Longrightarrow> node_ok n i rf \<Longrightarrow> node_ok n i rf'"
  by (auto simp: DoApply_def Let_def elim!: rbind_InrE split: if_splits option.splits)

lemma Snapshot_node_ok:
  assumes "Snapshot k snap rf = Inr rf'" "node_ok n i rf"
  shows "node_ok n i rf'"
  using assms
  by (auto simp: Snapshot_def put_Inr_iff Let_def elim!: rbind_InrE split: option.splits)
    (auto simp: node_ok_def node_simps persisted_def)

lemma CondInstallSnapshot_node_ok:
  assumes "CondInstallSnapshot t k snap rf = Inr (rf', b)" "node_ok n i rf"
  shows "node_ok n i rf'"
  using assms
  by (auto simp: CondInstallSnapshot_def put_Inr_iff Let_def elim!: rbind_InrE split: if_splits)
    (auto simp: node_ok_def node_simps persisted_def)

section \<open>Restart\<close>

lemma Make_fresh:
  "Make n i MakePersister r = Inr
     \<lparr>rf_peers = n, rf_persister = MakePersister, rf_me = i, rf_dead = False,
      rf_state = Follower, rf_term = 0, rf_votedFor = -1, rf_log = [sentinel],
      rf_lastHeartbeat = 0, rf_electionTimeout = NextElectionTimeout r,
      rf_commitIndex = 0, rf_lastApplied = 0,
      rf_nextIndex = replicate n 1, rf_matchIndex = replicate n 0\<rparr>"
  by (simp add: Make_def readPersist_def persister_defs)

lemma Make_restart:
  assumes "node_ok n i rf"
  shows "\<exists>rf'. Make n i (Copy (rf_persister rf)) r = Inr rf' \<and> node_ok n i rf' \<and>
     rf_state rf' = Follower \<and> rf_term rf' = rf_term rf \<and> rf_votedFor rf' = rf_votedFor rf \<and>
     rf_log rf' = rf_log rf \<and> rf_commitIndex rf' = base (rf_log rf) \<and>
     rf_lastApplied rf' = base (rf_log rf) \<and> rf_persister rf' = rf_persister rf"
proof -
  have cp: "Copy p = p" for p :: "('a raft_item, 'b) Persister"
    by (simp add: Copy_def MakePersister_def)
  from assms have "persisted rf" "rf_log rf \<noteq> []" by (auto simp: node_ok_def)
  then show ?thesis
    by (auto simp: persisted_def Make_def readPersist_def ReadRaftState_def cp node_ok_def
        serializeState_eq base_def sentinel_def)
qed

section \<open>Role, term and vote\<close>

text \<open>
  The effect of an operation on the three fields that elections are about: none; the server
  moves to a later term as a follower with no vote; or, with a message of the leader of term
  \<open>t\<close>, a candidate of that same term becomes a follower and its vote is cleared.
\<close>

definition sameVote :: "('c, 's) Raft \<Rightarrow> ('c, 's) Raft \<Rightarrow> bool" where
  "sameVote rf rf' \<longleftrightarrow> rf_state rf' = rf_state rf \<and> rf_term rf' = rf_term rf \<and>
     rf_votedFor rf' = rf_votedFor rf"

definition laterTerm :: "('c, 's) Raft \<Rightarrow> ('c, 's) Raft \<Rightarrow> bool" where
  "laterTerm rf rf' \<longleftrightarrow> rf_state rf' = Follower \<and> rf_term rf < rf_term rf' \<and> rf_votedFor rf' = -1"

definition yields :: "int \<Rightarrow> ('c, 's) Raft \<Rightarrow> ('c, 's) Raft \<Rightarrow> bool" where
  "yields t rf rf' \<longleftrightarrow> rf_state rf = Candidate \<and> rf_term rf = t \<and> rf_state rf' = Follower \<and>
     rf_term rf' = t \<and> rf_votedFor rf' = -1"

lemmas vote_defs = sameVote_def laterTerm_def yields_def

lemma followSender_vote:
  assumes "rf_term rf \<le> t"
  shows "sameVote rf (followSender t rf) \<or> laterTerm rf (followSender t rf) \<or>
         yields t rf (followSender t rf)"
  using assms by (cases "rf_state rf") (auto simp: followSender_def vote_defs node_simps)

lemma AppendEntries_vote:
  assumes "AppendEntries now args rf = Inr (rf', reply)"
  shows "sameVote rf rf' \<or> laterTerm rf rf' \<or> yields (aeTerm args) rf rf'"
proof (cases "aeTerm args < rf_term rf")
  case True
  with assms show ?thesis by (simp add: AppendEntries_def Let_def sameVote_def)
next
  case False
  let ?rf1 = "followSender (aeTerm args) (rf\<lparr>rf_lastHeartbeat := now\<rparr>)"
  from assms False have "sameVote ?rf1 rf'"
    by (auto simp: AppendEntries_def Let_def sameVote_def persist_def elim!: rbind_InrE
        split: if_splits option.splits)
  with False followSender_vote [of "rf\<lparr>rf_lastHeartbeat := now\<rparr>" "aeTerm args"] show ?thesis
    by (auto simp: vote_defs)
qed

lemma InstallSnapshot_vote:
  assumes "InstallSnapshot now args rf = (rf', reply, m)"
  shows "sameVote rf rf' \<or> laterTerm rf rf' \<or> yields (isTerm args) rf rf'"
  using assms followSender_vote [of "rf\<lparr>rf_lastHeartbeat := now\<rparr>" "isTerm args"]
  by (auto simp: InstallSnapshot_def Let_def vote_defs split: if_splits)

lemma handleInstallReply_vote:
  "handleInstallReply p args reply rf = Inr rf' \<Longrightarrow> sameVote rf rf' \<or> laterTerm rf rf'"
  by (auto simp: handleInstallReply_def vote_defs node_simps elim!: rbind_InrE split: if_splits)

lemma handleAppendReply_vote:
  "handleAppendReply p args reply rf = Inr rf' \<Longrightarrow> sameVote rf rf' \<or> laterTerm rf rf'"
  by (auto simp: handleAppendReply_def vote_defs node_simps Let_def elim!: rbind_InrE
      split: if_splits)

lemma Start_vote: "Start c rf = Inr (rf', x) \<Longrightarrow> sameVote rf rf'"
  by (auto simp: Start_def vote_defs node_simps Let_def elim!: rbind_InrE split: if_splits)

lemma DoApply_vote: "DoApply rf = Inr (rf', m) \<Longrightarrow> sameVote rf rf'"
  by (auto simp: DoApply_def vote_defs Let_def elim!: rbind_InrE split: if_splits option.splits)

lemma Snapshot_vote: "Snapshot k snap rf = Inr rf' \<Longrightarrow> sameVote rf rf'"
  by (auto simp: Snapshot_def vote_defs Let_def elim!: rbind_InrE split: option.splits)

lemma CondInstallSnapshot_vote: "CondInstallSnapshot t k snap rf = Inr (rf', b) \<Longrightarrow> sameVote rf rf'"
  by (auto simp: CondInstallSnapshot_def vote_defs Let_def elim!: rbind_InrE split: if_splits)

lemma DoElection_vote:
  assumes "DoElection now r rf = Inr (rf', Some args)"
  shows "rf_state rf \<noteq> Leader" "rf_state rf' = Candidate" "rf_term rf' = rf_term rf + 1"
    "rf_votedFor rf' = rf_me rf" "rvTerm args = rf_term rf + 1" "rvCandidateId args = rf_me rf"
  using assms by (auto simp: DoElection_def node_simps Let_def elim!: rbind_InrE split: if_splits)

lemma RequestVote_vote:
  assumes "RequestVote now args rf = Inr (rf', reply)"
  obtains (refused) "\<not> rvrVoteGranted reply" "sameVote rf rf' \<or> laterTerm rf rf'"
  | (granted) "rvrVoteGranted reply" "rvTerm args = rf_term rf"
      "rf_votedFor rf = -1 \<or> rf_votedFor rf = rvCandidateId args"
      "rf_state rf' = rf_state rf" "rf_term rf' = rf_term rf" "rf_votedFor rf' = rvCandidateId args"
  | (new_term) "rvrVoteGranted reply" "rf_term rf < rvTerm args" "rf_state rf' = Follower"
      "rf_term rf' = rvTerm args" "rf_votedFor rf' = rvCandidateId args"
  using assms
  by (auto simp: RequestVote_def Let_def vote_defs node_simps elim!: rbind_InrE split: if_splits)

lemma handleVoteReply_vote:
  assumes "handleVoteReply args reply rf vote = Inr (rf', vote')"
  obtains (ignored) "vote' = vote" "sameVote rf rf' \<or> laterTerm rf rf'"
  | (counted) "rvrVoteGranted reply" "rf_state rf = Candidate" "rf_term rf = rvTerm args"
      "vote' = vote + 1" "rf_term rf' = rf_term rf" "rf_votedFor rf' = rf_votedFor rf"
      "rf_state rf' = (if Majority rf \<le> uint vote' then Leader else Candidate)"
  using assms
  by (auto simp: handleVoteReply_def winElection_def IsMajority_def Let_def vote_defs node_simps
      elim!: rbind_InrE split: if_splits)

lemma Replicate_leader: "Replicate p rf = Inr (Some call) \<Longrightarrow> rf_state rf = Leader"
  by (auto simp: Replicate_def split: if_splits)

lemma Replicate_term:
  "Replicate p rf = Inr (Some (CallAppendEntries args)) \<Longrightarrow> aeTerm args = rf_term rf"
  "Replicate p rf = Inr (Some (CallInstallSnapshot sargs)) \<Longrightarrow> isTerm sargs = rf_term rf"
  by (auto simp: Replicate_def elim!: rbind_InrE split: if_splits)

end
