(* ===== verification/Election.thy ===== *)
theory Election
  imports Raft_Handlers
begin

text \<open>
  The abstract election protocol: what the voting of \<^verbatim>\<open>raft.go\<close> amounts to when logs,
  clocks and replication are left out. A server has a role, a term and a vote; ballots and
  answers travel over a network that loses and reorders them. The protocol includes a step
  that the Raft paper does not have and the code does: a candidate that hears from the leader
  of its own term goes back to following \<^emph>\<open>and forgets its vote\<close> (\<^verbatim>\<open>resetTerm\<close> in
  \<^verbatim>\<open>AppendEntries\<close> and \<^verbatim>\<open>InstallSnapshot\<close>), so it may vote a second time in that term.
  Election safety holds nevertheless: such a server is outside the quorum that elected the
  leader it hears from.
\<close>

section \<open>The protocol\<close>

text \<open>Votes (term, voter, candidate) and elections won (term, winner, quorum).\<close>

type_synonym votes = "(int \<times> int \<times> int) set"
type_synonym wins = "(int \<times> int \<times> int set) set"

record elect =
  role :: "int \<Rightarrow> State"
  eterm :: "int \<Rightarrow> int"
  vfor :: "int \<Rightarrow> int"
  tally :: "int \<Rightarrow> int \<Rightarrow> 32 word"                \<comment> \<open>votes counted by a candidate in a term\<close>
  ballots :: "(int \<times> int \<times> int) multiset"        \<comment> \<open>requests under way: candidate, term, voter\<close>
  answers :: "(int \<times> int \<times> int \<times> bool) multiset" \<comment> \<open>replies under way, with the verdict\<close>
  announced :: "int set"                        \<comment> \<open>terms whose leader has sent something\<close>

text \<open>\<open>K\<close> is a register of votes: a vote that is cast has to be in it.\<close>

inductive estep :: "int set \<Rightarrow> int \<Rightarrow> votes \<Rightarrow> elect \<Rightarrow> elect \<Rightarrow> bool" for S need K where
  campaign: "i \<in> S \<Longrightarrow> role e i \<noteq> Leader \<Longrightarrow> t = eterm e i + 1 \<Longrightarrow> (t, i, i) \<in> K \<Longrightarrow>
     estep S need K e (e\<lparr>role := (role e)(i := Candidate), eterm := (eterm e)(i := t),
       vfor := (vfor e)(i := i), tally := (tally e)(i := (tally e i)(t := 1)),
       ballots := ballots e + mset_set ((\<lambda>v. (i, t, v)) ` (S - {i}))\<rparr>)"
| adopt: "i \<in> S \<Longrightarrow> eterm e i < t \<Longrightarrow>
     estep S need K e (e\<lparr>role := (role e)(i := Follower), eterm := (eterm e)(i := t),
       vfor := (vfor e)(i := -1)\<rparr>)"
| yield: "i \<in> S \<Longrightarrow> role e i = Candidate \<Longrightarrow> eterm e i \<in> announced e \<Longrightarrow>
     estep S need K e (e\<lparr>role := (role e)(i := Follower), vfor := (vfor e)(i := -1)\<rparr>)"
| grant: "(c, t, v) \<in># ballots e \<Longrightarrow> eterm e v = t \<Longrightarrow> vfor e v = -1 \<or> vfor e v = c \<Longrightarrow>
     (t, v, c) \<in> K \<Longrightarrow>
     estep S need K e (e\<lparr>vfor := (vfor e)(v := c), ballots := ballots e - {#(c, t, v)#},
       answers := answers e + {#(c, t, v, True)#}\<rparr>)"
| refuse: "(c, t, v) \<in># ballots e \<Longrightarrow>
     estep S need K e (e\<lparr>ballots := ballots e - {#(c, t, v)#},
       answers := answers e + {#(c, t, v, False)#}\<rparr>)"
| loseBallots: "B \<subseteq># ballots e \<Longrightarrow> estep S need K e (e\<lparr>ballots := B\<rparr>)"
| loseAnswers: "A \<subseteq># answers e \<Longrightarrow> estep S need K e (e\<lparr>answers := A\<rparr>)"
| count: "(c, t, v, True) \<in># answers e \<Longrightarrow> role e c = Candidate \<Longrightarrow> eterm e c = t \<Longrightarrow>
     w = tally e c t + 1 \<Longrightarrow>
     estep S need K e (e\<lparr>answers := answers e - {#(c, t, v, True)#},
       tally := (tally e)(c := (tally e c)(t := w)),
       role := (role e)(c := if need \<le> uint w then Leader else Candidate)\<rparr>)"
| announce: "i \<in> S \<Longrightarrow> role e i = Leader \<Longrightarrow>
     estep S need K e (e\<lparr>announced := insert (eterm e i) (announced e)\<rparr>)"
| restart: "i \<in> S \<Longrightarrow> estep S need K e (e\<lparr>role := (role e)(i := Follower)\<rparr>)"

section \<open>The invariant\<close>

text \<open>
  History: \<open>G\<close> holds the votes ever cast (term, voter, candidate), \<open>W\<close> the elections won
  (term, winner, quorum), \<open>C c t\<close> the voters that \<open>c\<close> counted in term \<open>t\<close>. A term with no
  winner is one in which every server voted at most once and still remembers it. In a term
  with a winner the members of its quorum still do; nothing is said of the others.
\<close>


definition won :: "wins \<Rightarrow> int \<Rightarrow> bool" where
  "won W t \<longleftrightarrow> (\<exists>l Q. (t, l, Q) \<in> W)"

text \<open>\<open>sole\<close>: the only vote of \<open>v\<close> in the term, and remembered. \<open>loyal\<close>: the same for a
  member of a winning quorum, which moreover is no candidate in that term any more.\<close>

definition sole :: "elect \<Rightarrow> votes \<Rightarrow> int \<Rightarrow> int \<Rightarrow> int \<Rightarrow> bool" where
  "sole e G t v c \<longleftrightarrow> (\<forall>c'. (t, v, c') \<in> G \<longrightarrow> c' = c) \<and> (eterm e v = t \<longrightarrow> vfor e v = c)"

definition loyal :: "elect \<Rightarrow> votes \<Rightarrow> int \<Rightarrow> int \<Rightarrow> int \<Rightarrow> bool" where
  "loyal e G t v l \<longleftrightarrow> (t, v, l) \<in> G \<and> sole e G t v l \<and> (eterm e v = t \<longrightarrow> role e v \<noteq> Candidate)"

definition votes_ok :: "int set \<Rightarrow> elect \<Rightarrow> votes \<Rightarrow> wins \<Rightarrow> bool" where
  "votes_ok S e G W \<longleftrightarrow>
     (\<forall>t v c. (t, v, c) \<in> G \<longrightarrow>
        v \<in> S \<and> c \<in> S \<and> t \<le> eterm e v \<and> (\<not> won W t \<longrightarrow> sole e G t v c)) \<and>
     (\<forall>v \<in> S. role e v = Candidate \<longrightarrow> (eterm e v, v, v) \<in> G)"

definition wins_ok :: "int set \<Rightarrow> (int set \<Rightarrow> bool) \<Rightarrow> elect \<Rightarrow> votes \<Rightarrow> wins \<Rightarrow> bool" where
  "wins_ok S quorum e G W \<longleftrightarrow>
     (\<forall>t l Q. (t, l, Q) \<in> W \<longrightarrow> quorum Q \<and> l \<in> Q \<and> (\<forall>v \<in> Q. loyal e G t v l)) \<and>
     (\<forall>v \<in> S. role e v = Leader \<longrightarrow> (\<exists>Q. (eterm e v, v, Q) \<in> W)) \<and>
     (\<forall>t \<in> announced e. won W t)"

text \<open>The traces of one request: under way, answered, or its vote counted.\<close>

definition traces :: "elect \<Rightarrow> (int \<Rightarrow> int \<Rightarrow> int set) \<Rightarrow> int \<Rightarrow> int \<Rightarrow> int \<Rightarrow> nat" where
  "traces e C c t v = count (ballots e) (c, t, v) + count (answers e) (c, t, v, True) +
     count (answers e) (c, t, v, False) + (if v \<in> C c t then 1 else 0)"

definition net_ok :: "int set \<Rightarrow> elect \<Rightarrow> votes \<Rightarrow> (int \<Rightarrow> int \<Rightarrow> int set) \<Rightarrow> bool" where
  "net_ok S e G C \<longleftrightarrow>
     (\<forall>c t v. (c, t, v) \<in># ballots e \<longrightarrow> c \<in> S \<and> v \<in> S \<and> t \<le> eterm e c) \<and>
     (\<forall>c t v b. (c, t, v, b) \<in># answers e \<longrightarrow>
        c \<in> S \<and> v \<in> S \<and> t \<le> eterm e c \<and> (b \<longrightarrow> (t, v, c) \<in> G)) \<and>
     (\<forall>c t v. traces e C c t v \<le> 1)"

definition tally_ok :: "int set \<Rightarrow> elect \<Rightarrow> votes \<Rightarrow> (int \<Rightarrow> int \<Rightarrow> int set) \<Rightarrow> bool" where
  "tally_ok S e G C \<longleftrightarrow>
     (\<forall>c t v. v \<in> C c t \<longrightarrow> (t, v, c) \<in> G \<and> t \<le> eterm e c) \<and>
     (\<forall>c \<in> S. role e c = Candidate \<longrightarrow> c \<in> C c (eterm e c) \<and>
        tally e c (eterm e c) = of_nat (card (C c (eterm e c))))"

text \<open>\<open>H\<close> holds elections known to have been won: no step forgets them.\<close>

definition recorded :: "(int \<times> int) set \<Rightarrow> wins \<Rightarrow> bool" where
  "recorded H W \<longleftrightarrow> (\<forall>(t, l) \<in> H. \<exists>Q. (t, l, Q) \<in> W)"

definition einv :: "int set \<Rightarrow> (int set \<Rightarrow> bool) \<Rightarrow> votes \<Rightarrow> (int \<times> int) set \<Rightarrow> elect \<Rightarrow> bool" where
  "einv S quorum K H e \<longleftrightarrow>
     (\<exists>G W C. G \<subseteq> K \<and> recorded H W \<and> votes_ok S e G W \<and> wins_ok S quorum e G W \<and> net_ok S e G C \<and> tally_ok S e G C)"

lemma einvI:
  "G \<subseteq> K \<Longrightarrow> recorded H W \<Longrightarrow> votes_ok S e G W \<Longrightarrow> wins_ok S quorum e G W \<Longrightarrow> net_ok S e G C \<Longrightarrow> tally_ok S e G C \<Longrightarrow>
   einv S quorum K H e"
  by (auto simp: einv_def)

lemma soleI:
  assumes "\<And>c'. (t, v, c') \<in> G \<Longrightarrow> c' = c" and "eterm e v = t \<Longrightarrow> vfor e v = c"
  shows "sole e G t v c"
  using assms unfolding sole_def by blast

lemma soleD:
  assumes "sole e G t v c"
  shows "(t, v, c') \<in> G \<Longrightarrow> c' = c" "eterm e v = t \<Longrightarrow> vfor e v = c"
  using assms unfolding sole_def by blast+

lemma sole_same:
  "sole (e\<lparr>answers := a, tally := w, role := r\<rparr>) G t v c \<longleftrightarrow> sole e G t v c"
  by (simp add: sole_def)

lemma votes_okI:
  assumes "\<And>t v c. (t, v, c) \<in> G \<Longrightarrow> v \<in> S \<and> c \<in> S \<and> t \<le> eterm e v"
    and "\<And>t v c. (t, v, c) \<in> G \<Longrightarrow> \<not> won W t \<Longrightarrow> sole e G t v c"
    and "\<And>v. v \<in> S \<Longrightarrow> role e v = Candidate \<Longrightarrow> (eterm e v, v, v) \<in> G"
  shows "votes_ok S e G W"
  using assms by (simp add: votes_ok_def)

lemma votes_okD:
  assumes "votes_ok S e G W"
  shows "(t, v, c) \<in> G \<Longrightarrow> v \<in> S" "(t, v, c) \<in> G \<Longrightarrow> c \<in> S" "(t, v, c) \<in> G \<Longrightarrow> t \<le> eterm e v"
    "(t, v, c) \<in> G \<Longrightarrow> \<not> won W t \<Longrightarrow> sole e G t v c"
    "v \<in> S \<Longrightarrow> role e v = Candidate \<Longrightarrow> (eterm e v, v, v) \<in> G"
  using assms by (auto simp: votes_ok_def)

lemma wins_okI:
  assumes "\<And>t l Q. (t, l, Q) \<in> W \<Longrightarrow> quorum Q \<and> l \<in> Q \<and> (\<forall>v \<in> Q. loyal e G t v l)"
    and "\<And>v. v \<in> S \<Longrightarrow> role e v = Leader \<Longrightarrow> \<exists>Q. (eterm e v, v, Q) \<in> W"
    and "\<And>t. t \<in> announced e \<Longrightarrow> won W t"
  shows "wins_ok S quorum e G W"
  using assms by (simp add: wins_ok_def)

text \<open>A step that wins nothing keeps \<open>wins_ok\<close> if it makes no loyal voter disloyal.\<close>

lemma wins_ok_step:
  assumes "wins_ok S quorum e G W"
    and "\<And>t v l. loyal e G t v l \<Longrightarrow> loyal e' G' t v l"
    and "\<And>v. role e' v = Leader \<Longrightarrow> role e v = Leader \<and> eterm e' v = eterm e v"
    and "announced e' = announced e"
  shows "wins_ok S quorum e' G' W"
  using assms unfolding wins_ok_def by metis

lemma wins_okD:
  assumes "wins_ok S quorum e G W"
  shows "(t, l, Q) \<in> W \<Longrightarrow> quorum Q" "(t, l, Q) \<in> W \<Longrightarrow> l \<in> Q"
    "(t, l, Q) \<in> W \<Longrightarrow> v \<in> Q \<Longrightarrow> loyal e G t v l"
    "v \<in> S \<Longrightarrow> role e v = Leader \<Longrightarrow> \<exists>Q. (eterm e v, v, Q) \<in> W"
    "t \<in> announced e \<Longrightarrow> won W t"
  using assms by (auto simp: wins_ok_def)

lemma net_okI:
  assumes "\<And>c t v. (c, t, v) \<in># ballots e \<Longrightarrow> c \<in> S \<and> v \<in> S \<and> t \<le> eterm e c"
    and "\<And>c t v b. (c, t, v, b) \<in># answers e \<Longrightarrow>
      c \<in> S \<and> v \<in> S \<and> t \<le> eterm e c \<and> (b \<longrightarrow> (t, v, c) \<in> G)"
    and "\<And>c t v. traces e C c t v \<le> 1"
  shows "net_ok S e G C"
  using assms by (simp add: net_ok_def)

lemma net_okD:
  assumes "net_ok S e G C"
  shows "(c, t, v) \<in># ballots e \<Longrightarrow> c \<in> S \<and> v \<in> S \<and> t \<le> eterm e c"
    "(c, t, v, b) \<in># answers e \<Longrightarrow> c \<in> S \<and> v \<in> S \<and> t \<le> eterm e c"
    "(c, t, v, True) \<in># answers e \<Longrightarrow> (t, v, c) \<in> G"
    "traces e C c t v \<le> 1"
  using assms by (auto simp: net_ok_def)

text \<open>Losing messages, and steps that touch neither the network nor what was counted.\<close>

lemma net_ok_shrink:
  assumes "net_ok S e G C" "ballots e' \<subseteq># ballots e" "answers e' \<subseteq># answers e" "G \<subseteq> G'"
    "\<And>c. eterm e c \<le> eterm e' c"
  shows "net_ok S e' G' C"
proof (rule net_okI)
  fix c t v assume "(c, t, v) \<in># ballots e'"
  then have "(c, t, v) \<in># ballots e" using assms(2) by (rule mset_subset_eqD [rotated])
  from net_okD(1) [OF assms(1) this] show "c \<in> S \<and> v \<in> S \<and> t \<le> eterm e' c"
    using assms(5) [of c] by auto
next
  fix c t v b assume "(c, t, v, b) \<in># answers e'"
  then have a: "(c, t, v, b) \<in># answers e" using assms(3) by (rule mset_subset_eqD [rotated])
  have "b \<longrightarrow> (t, v, c) \<in> G" using a net_okD(3) [OF assms(1), of c t v] by auto
  with net_okD(2) [OF assms(1) a] show "c \<in> S \<and> v \<in> S \<and> t \<le> eterm e' c \<and> (b \<longrightarrow> (t, v, c) \<in> G')"
    using assms(4) assms(5) [of c] by auto
next
  fix c t v
  have "traces e' C c t v \<le> traces e C c t v"
    unfolding traces_def using assms(2,3) by (intro add_mono mset_subset_eq_count) auto
  also have "\<dots> \<le> 1" by (rule net_okD(4) [OF assms(1)])
  finally show "traces e' C c t v \<le> 1" .
qed

lemma tally_okI:
  assumes "\<And>c t v. v \<in> C c t \<Longrightarrow> (t, v, c) \<in> G \<and> t \<le> eterm e c"
    and "\<And>c. c \<in> S \<Longrightarrow> role e c = Candidate \<Longrightarrow> c \<in> C c (eterm e c) \<and>
        tally e c (eterm e c) = of_nat (card (C c (eterm e c)))"
  shows "tally_ok S e G C"
  using assms by (simp add: tally_ok_def)

lemma tally_okD:
  assumes "tally_ok S e G C"
  shows "v \<in> C c t \<Longrightarrow> (t, v, c) \<in> G" "v \<in> C c t \<Longrightarrow> t \<le> eterm e c"
    "c \<in> S \<Longrightarrow> role e c = Candidate \<Longrightarrow> c \<in> C c (eterm e c)"
    "c \<in> S \<Longrightarrow> role e c = Candidate \<Longrightarrow>
       tally e c (eterm e c) = of_nat (card (C c (eterm e c)))"
  using assms by (auto simp: tally_ok_def)

lemma tally_ok_step:
  assumes "tally_ok S e G C" "G \<subseteq> G'" "\<And>c. eterm e c \<le> eterm e' c" "tally e' = tally e"
    "\<And>c. role e' c = Candidate \<Longrightarrow> role e c = Candidate \<and> eterm e' c = eterm e c"
  shows "tally_ok S e' G' C"
proof (rule tally_okI)
  fix c t v assume "v \<in> C c t"
  from tally_okD(1,2) [OF assms(1) this] show "(t, v, c) \<in> G' \<and> t \<le> eterm e' c"
    using assms(2) assms(3) [of c] by auto
qed (use tally_okD(3,4) [OF assms(1)] assms(4,5) in auto)

lemma uint_of_nat_le: "uint (of_nat k :: 'a::len word) \<le> int k"
  by (simp add: uint_word_of_int_eq take_bit_int_less_eq_self_iff unsigned_of_nat
      of_nat_take_bit)


section \<open>Election safety of the protocol\<close>

text \<open>
  The protocol over any quorum system in which enough counted voters are a quorum. No server
  has the number \<open>-1\<close>, which stands for "no vote".
\<close>

locale election = quorum_system S quorum for S :: "int set" and quorum +
  fixes need :: int
  assumes enough: "V \<subseteq> S \<Longrightarrow> need \<le> int (card V) \<Longrightarrow> quorum V"
    and finite_S: "finite S" and no_minus1: "-1 \<notin> S"
begin

lemma campaign_einv:
  assumes inv: "einv S quorum K H e" and i: "i \<in> S" and t: "t = eterm e i + 1" and k: "(t, i, i) \<in> K"
  shows "einv S quorum K H (e\<lparr>role := (role e)(i := Candidate), eterm := (eterm e)(i := t),
       vfor := (vfor e)(i := i), tally := (tally e)(i := (tally e i)(t := 1)),
       ballots := ballots e + mset_set ((\<lambda>v. (i, t, v)) ` (S - {i}))\<rparr>)" (is "einv S quorum K H ?e")
proof -
  from inv obtain G W C where gk: "G \<subseteq> K" and h: "recorded H W" and v: "votes_ok S e G W" and w: "wins_ok S quorum e G W"
    and n: "net_ok S e G C" and c: "tally_ok S e G C"
    by (auto simp: einv_def)
  let ?G = "insert (t, i, i) G" and ?C = "C(i := (C i)(t := {i}))"
  have fresh: "(t, i, x) \<notin> G" for x
    using v t by (force simp: votes_ok_def)
  have "votes_ok S ?e ?G W"
  proof (rule votes_okI)
    fix t' v' c assume "(t', v', c) \<in> ?G"
    then show "v' \<in> S \<and> c \<in> S \<and> t' \<le> eterm ?e v'"
      using votes_okD(1-3) [OF v] i t by fastforce
  next
    fix t' v' c assume "(t', v', c) \<in> ?G" "\<not> won W t'"
    then show "sole ?e ?G t' v' c"
      using votes_okD(4) [OF v] fresh by (auto simp: sole_def)
  qed (use votes_okD(5) [OF v] in auto)
  moreover have "wins_ok S quorum ?e ?G W"
    using w by (rule wins_ok_step) (use fresh in \<open>auto simp: loyal_def sole_def split: if_splits\<close>)
  moreover have "net_ok S ?e ?G ?C"
  proof (rule net_okI)
    have new: "count (mset_set ((\<lambda>v. (i, t, v)) ` (S - {i}))) (c, t', v) =
        (if c = i \<and> t' = t \<and> v \<in> S - {i} then 1 else 0)" for c t' v
      using finite_S by (auto simp: count_mset_set')
    have none: "count (ballots e) (i, t, x) = 0" "count (answers e) (i, t, x, b) = 0" for x b
      using net_okD(1) [OF n, of i t x] net_okD(2) [OF n, of i t x b] t
      by (auto simp: count_eq_zero_iff)
    fix c' t' v'
    show "traces ?e ?C c' t' v' \<le> 1"
      using net_okD(4) [OF n, of c' t' v'] none by (auto simp: traces_def new)
    show "c' \<in> S \<and> v' \<in> S \<and> t' \<le> eterm ?e c'" if "(c', t', v') \<in># ballots ?e"
      using that net_okD(1) [OF n, of c' t' v'] i t finite_S by auto
    show "c' \<in> S \<and> v' \<in> S \<and> t' \<le> eterm ?e c' \<and> (b \<longrightarrow> (t', v', c') \<in> ?G)"
      if "(c', t', v', b) \<in># answers ?e" for b
      using that net_okD(2,3) [OF n, of c' t' v'] t by (cases b) fastforce+
  qed
  moreover have "tally_ok S ?e ?G ?C"
    using tally_okD [OF c] t by (intro tally_okI) (fastforce split: if_splits)+
  ultimately show ?thesis by (intro einvI [OF _ h, where G = ?G]) (use gk k in auto)
qed

text \<open>Steps that cast no vote and win no election: the history stays as it is.\<close>

lemma quiet_einv:
  assumes inv: "einv S quorum K H e"
    and term_mono: "\<And>v. eterm e v \<le> eterm e' v"
    and cand: "\<And>v. role e' v = Candidate \<Longrightarrow> role e v = Candidate \<and> eterm e' v = eterm e v"
    and lead: "\<And>v. role e' v = Leader \<Longrightarrow> role e v = Leader \<and> eterm e' v = eterm e v"
    and forget: "\<And>v. eterm e' v = eterm e v \<Longrightarrow> vfor e' v \<noteq> vfor e v \<Longrightarrow>
        role e v = Candidate \<and> eterm e v \<in> announced e"
    and net: "ballots e' \<subseteq># ballots e" "answers e' \<subseteq># answers e" "tally e' = tally e"
    and ann: "announced e' = announced e"
  shows "einv S quorum K H e'"
proof -
  from inv obtain G W C where gk: "G \<subseteq> K" and h: "recorded H W" and v: "votes_ok S e G W" and w: "wins_ok S quorum e G W"
    and n: "net_ok S e G C" and c: "tally_ok S e G C"
    by (auto simp: einv_def)
  have keep: "vfor e' x = vfor e x"
    if "eterm e' x = t" "(t, x, l) \<in> G" "won W t \<Longrightarrow> role e x \<noteq> Candidate" for x t l
  proof (rule ccontr)
    assume "vfor e' x \<noteq> vfor e x"
    moreover have "eterm e' x = eterm e x"
      using that(1) term_mono [of x] votes_okD(3) [OF v that(2)] by simp
    ultimately have "role e x = Candidate" "won W t"
      using forget [of x] wins_okD(5) [OF w] that(1) by auto
    with that(3) show False by simp
  qed
  have "votes_ok S e' G W"
  proof (rule votes_okI)
    fix t v' c' assume g: "(t, v', c') \<in> G"
    show "v' \<in> S \<and> c' \<in> S \<and> t \<le> eterm e' v'"
      using votes_okD(1-3) [OF v g] term_mono [of v'] by auto
    assume "\<not> won W t"
    then show "sole e' G t v' c'"
      using votes_okD(4) [OF v g] keep [OF _ g] votes_okD(3) [OF v g] term_mono [of v']
      by (auto simp: sole_def)
  qed (use votes_okD(5) [OF v] cand in auto)
  moreover have "wins_ok S quorum e' G W"
    using w
  proof (rule wins_ok_step)
    fix t x l assume "loyal e G t x l"
    moreover from this have "eterm e x = t" if "eterm e' x = t"
      using that term_mono [of x] votes_okD(3) [OF v, of t x l] by (auto simp: loyal_def)
    ultimately show "loyal e' G t x l"
      using keep [of x t l] cand [of x] by (auto simp: loyal_def sole_def)
  qed (use lead ann in auto)
  moreover have "net_ok S e' G C"
    using n net(1,2) order_refl term_mono by (rule net_ok_shrink)
  moreover have "tally_ok S e' G C"
    using c order_refl term_mono net(3) cand by (rule tally_ok_step)
  ultimately show ?thesis by (rule einvI [OF gk h])
qed

lemma ballot_answered:
  assumes "net_ok S e G C" "(c, t, v) \<in># ballots e" "G \<subseteq> G'" "b \<Longrightarrow> (t, v, c) \<in> G'"
    "ballots e' = ballots e - {#(c, t, v)#}" "answers e' = answers e + {#(c, t, v, b)#}"
    "eterm e' = eterm e"
  shows "net_ok S e' G' C"
proof (rule net_okI)
  fix c' t' v' assume "(c', t', v') \<in># ballots e'"
  then show "c' \<in> S \<and> v' \<in> S \<and> t' \<le> eterm e' c'"
    using net_okD(1) [OF assms(1)] assms(5,7) by (auto dest: in_diffD)
next
  fix c' t' v' b' assume "(c', t', v', b') \<in># answers e'"
  then show "c' \<in> S \<and> v' \<in> S \<and> t' \<le> eterm e' c' \<and> (b' \<longrightarrow> (t', v', c') \<in> G')"
    using net_okD(1) [OF assms(1,2)] net_okD(2,3) [OF assms(1), of c' t' v'] assms(3,4,6,7)
    by (cases b') auto
next
  fix c' t' v'
  have "0 < count (ballots e) (c, t, v)" using assms(2) by simp
  then have "traces e' C c' t' v' = traces e C c' t' v'"
    using assms(5,6) by (cases b) (auto simp: traces_def)
  then show "traces e' C c' t' v' \<le> 1" using net_okD(4) [OF assms(1)] by simp
qed

lemma grant_einv:
  assumes inv: "einv S quorum K H e" and b: "(c, t, v) \<in># ballots e" and t: "eterm e v = t"
    and free: "vfor e v = -1 \<or> vfor e v = c" and k: "(t, v, c) \<in> K"
  shows "einv S quorum K H (e\<lparr>vfor := (vfor e)(v := c), ballots := ballots e - {#(c, t, v)#},
       answers := answers e + {#(c, t, v, True)#}\<rparr>)" (is "einv S quorum K H ?e")
proof -
  from inv obtain G W C where gk: "G \<subseteq> K" and h: "recorded H W" and vo: "votes_ok S e G W" and w: "wins_ok S quorum e G W"
    and n: "net_ok S e G C" and ta: "tally_ok S e G C"
    by (auto simp: einv_def)
  let ?G = "insert (t, v, c) G"
  from net_okD(1) [OF n b] have cv: "c \<in> S" "v \<in> S" by auto
  have same: "x = c" if "(t, v, x) \<in> G" "sole e G t v x" for x
  proof -
    have "vfor e v = x" using soleD(2) [OF that(2) t] .
    with free votes_okD(2) [OF vo that(1)] no_minus1 show "x = c" by auto
  qed
  have sole_keep: "sole ?e ?G t' v' c'" if g: "(t', v', c') \<in> G" "sole e G t' v' c'" for t' v' c'
  proof (cases "t' = t \<and> v' = v")
    case True
    with g have g': "(t, v, c') \<in> G" "sole e G t v c'" by simp_all
    then have "c' = c" by (rule same)
    with True soleD(1) [OF g'(2)] show ?thesis by (intro soleI) auto
  next
    case False
    with soleD [OF g(2)] t show ?thesis by (intro soleI) auto
  qed
  have "votes_ok S ?e ?G W"
  proof (rule votes_okI)
    fix t' v' c' assume g: "(t', v', c') \<in> ?G"
    then show "v' \<in> S \<and> c' \<in> S \<and> t' \<le> eterm ?e v'"
      using votes_okD(1-3) [OF vo, of t' v' c'] cv t by auto
    assume nw: "\<not> won W t'"
    show "sole ?e ?G t' v' c'"
    proof (cases "(t', v', c') \<in> G")
      case True
      then show ?thesis using sole_keep votes_okD(4) [OF vo _ nw] by auto
    next
      case False
      with g have [simp]: "t' = t" "v' = v" "c' = c" by auto
      show ?thesis
      proof (rule soleI)
        fix x assume "(t', v', x) \<in> ?G"
        then show "x = c'" using same [of x] votes_okD(4) [OF vo _ nw, of v x] by auto
      qed simp
    qed
  qed (use votes_okD(5) [OF vo] in auto)
  moreover have "wins_ok S quorum ?e ?G W"
    using w by (rule wins_ok_step) (use sole_keep in \<open>auto simp: loyal_def\<close>)
  moreover have "net_ok S ?e ?G C"
    using n b by (rule ballot_answered [where b = True]) auto
  moreover have "tally_ok S ?e ?G C"
    using ta by (rule tally_ok_step) auto
  ultimately show ?thesis by (intro einvI [OF _ h, where G = ?G]) (use gk k in auto)
qed

lemma refuse_einv:
  assumes inv: "einv S quorum K H e" and b: "(c, t, v) \<in># ballots e"
  shows "einv S quorum K H (e\<lparr>ballots := ballots e - {#(c, t, v)#},
       answers := answers e + {#(c, t, v, False)#}\<rparr>)" (is "einv S quorum K H ?e")
proof -
  from inv obtain G W C where gk: "G \<subseteq> K" and h: "recorded H W" and "votes_ok S e G W" "wins_ok S quorum e G W"
    and n: "net_ok S e G C" and ta: "tally_ok S e G C"
    by (auto simp: einv_def)
  then have "votes_ok S ?e G W" "wins_ok S quorum ?e G W"
    by (auto simp: votes_ok_def wins_ok_def sole_def loyal_def)
  moreover have "net_ok S ?e G C"
    using n b by (rule ballot_answered [where b = False]) auto
  moreover have "tally_ok S ?e G C"
    using ta by (rule tally_ok_step) auto
  ultimately show ?thesis by (rule einvI [OF gk h])
qed

text \<open>
  Counting a vote. When the count reaches the threshold the counted voters are a quorum; no
  other election of the term was won, since its quorum would share a voter with this one.
\<close>

lemma count_unwon:
  assumes v: "votes_ok S e G W" and w: "wins_ok S quorum e G W"
    and Q: "quorum Q" "\<And>x. x \<in> Q \<Longrightarrow> (eterm e c, x, c) \<in> G" and c: "role e c = Candidate"
  shows "\<not> won W (eterm e c)"
proof
  assume "won W (eterm e c)"
  then obtain l Q' where W: "(eterm e c, l, Q') \<in> W" by (auto simp: won_def)
  obtain x where "x \<in> Q" "x \<in> Q'" using Q(1) wins_okD(1) [OF w W] by (rule quorum_common)
  then have "c = l"
    using wins_okD(3) [OF w W] Q(2) soleD(1) unfolding loyal_def by blast
  then have "loyal e G (eterm e c) c c" using wins_okD(2,3) [OF w W] by blast
  with c show False by (simp add: loyal_def)
qed

lemma count_wins_ok:
  assumes vo: "votes_ok S e G W" and w: "wins_ok S quorum e G W" and cand: "role e c = Candidate" and t: "eterm e c = t"
    and QG: "\<And>x. x \<in> Q \<Longrightarrow> (t, x, c) \<in> G" and cQ: "c \<in> Q" and unwon: "b \<Longrightarrow> quorum Q" "b \<Longrightarrow> \<not> won W t"
  shows "wins_ok S quorum (e\<lparr>answers := An, tally := Ta, role := (role e)(c := if b then Leader else Candidate)\<rparr>) G
    (if b then insert (t, c, Q) W else W)" (is "wins_ok S quorum ?e G ?W")
proof (rule wins_okI)
  have keep: "loyal ?e G t' x l" if "loyal e G t' x l" for t' x l
    using that cand by (auto simp: loyal_def sole_same)
  have fresh: "loyal ?e G t x c" if "b" "x \<in> Q" for x
  proof -
    have s: "sole e G t x c" using votes_okD(4) [OF vo QG [OF that(2)]] unwon that(1) by simp
    have "x = c" if "eterm e x = t" "role e x = Candidate"
      using that votes_okD(1,5) [OF vo] QG [OF \<open>x \<in> Q\<close>] soleD(1) [OF s, of x] by auto
    with s that QG show ?thesis by (auto simp: loyal_def sole_same)
  qed
  fix t' l Q' assume "(t', l, Q') \<in> ?W"
  then show "quorum Q' \<and> l \<in> Q' \<and> (\<forall>x \<in> Q'. loyal ?e G t' x l)"
    using keep fresh wins_okD(1-3) [OF w, of t' l Q'] unwon(1) cQ by (auto split: if_splits)
next
  fix x assume "x \<in> S" "role ?e x = Leader"
  then show "\<exists>Q'. (eterm ?e x, x, Q') \<in> ?W"
    using wins_okD(4) [OF w, of x] t by (auto split: if_splits)
next
  fix t' assume "t' \<in> announced ?e"
  then have "won W t'" using wins_okD(5) [OF w] by simp
  then show "won ?W t'" by (auto simp: won_def)
qed

lemma count_net_ok:
  assumes n: "net_ok S e G C" and a: "(c, t, v, True) \<in># answers e" and new: "v \<notin> C c t"
  shows "net_ok S (e\<lparr>answers := answers e - {#(c, t, v, True)#}, tally := Ta, role := Ro\<rparr>) G (C(c := (C c)(t := insert v (C c t))))"
    (is "net_ok S ?e G ?C")
proof (rule net_okI)
  fix c' t' v'
  obtain k where "count (answers e) (c, t, v, True) = Suc k"
    using a by (metis count_eq_zero_iff not0_implies_Suc)
  then show "traces ?e ?C c' t' v' \<le> 1"
    using net_okD(4) [OF n, of c' t' v'] new by (auto simp: traces_def split: if_splits)
next
  fix c' t' v' b assume "(c', t', v', b) \<in># answers ?e"
  then have "(c', t', v', b) \<in># answers e" by (auto dest: in_diffD)
  then show "c' \<in> S \<and> v' \<in> S \<and> t' \<le> eterm ?e c' \<and> (b \<longrightarrow> (t', v', c') \<in> G)"
    using net_okD(2,3) [OF n, of c' t' v'] by (cases b) auto
qed (use net_okD(1) [OF n] in auto)

lemma count_einv:
  assumes inv: "einv S quorum K H e" and a: "(c, t, v, True) \<in># answers e"
    and cand: "role e c = Candidate" and t: "eterm e c = t" and wt: "w = tally e c t + 1"
  shows "einv S quorum K H (e\<lparr>answers := answers e - {#(c, t, v, True)#},
       tally := (tally e)(c := (tally e c)(t := w)),
       role := (role e)(c := if need \<le> uint w then Leader else Candidate)\<rparr>)"
    (is "einv S quorum K H ?e")
proof -
  from inv obtain G W C where gk: "G \<subseteq> K" and h: "recorded H W" and vo: "votes_ok S e G W" and w: "wins_ok S quorum e G W"
    and n: "net_ok S e G C" and ta: "tally_ok S e G C"
    by (auto simp: einv_def)
  from net_okD(2,3) [OF n a] have c: "c \<in> S" and g: "(t, v, c) \<in> G" by auto
  define Q where "Q = insert v (C c t)"
  let ?C = "C(c := (C c)(t := Q))" and ?W = "if need \<le> uint w then insert (t, c, Q) W else W"
  have QG: "(t, x, c) \<in> G" if "x \<in> Q" for x
    using that g tally_okD(1) [OF ta] by (auto simp: Q_def)
  then have QS: "Q \<subseteq> S" using votes_okD(1) [OF vo] by blast
  then have fin: "finite Q" using finite_S by (rule finite_subset)
  have new: "v \<notin> C c t"
    using a net_okD(4) [OF n, of c t v] by (auto simp: traces_def count_eq_zero_iff)
  have cQ: "c \<in> Q" using tally_okD(3) [OF ta c cand] t by (simp add: Q_def)
  have "finite (C c t)" using fin by (simp add: Q_def)
  then have w_card: "w = of_nat (card Q)"
    using tally_okD(4) [OF ta c cand] t new by (simp add: Q_def wt)
  have unwon: "quorum Q" "\<not> won W t" if "need \<le> uint w"
  proof -
    have "need \<le> int (card Q)"
      using that uint_of_nat_le [of "card Q", where 'a = 32] unfolding w_card by linarith
    with QS show "quorum Q" by (rule enough)
    then show "\<not> won W t" using count_unwon [OF vo w _ _ cand] QG t by blast
  qed
  have h': "recorded H ?W" using h by (fastforce simp: recorded_def)
  have "votes_ok S ?e G ?W"
    using votes_okD [OF vo] cand
    by (intro votes_okI) (auto simp: sole_same won_def split: if_splits)
  moreover have "wins_ok S quorum ?e G ?W"
    by (rule count_wins_ok [OF vo w cand t QG cQ unwon])
  moreover have "net_ok S ?e G ?C"
    using count_net_ok [OF n a new] by (simp add: Q_def)
  moreover have "tally_ok S ?e G ?C"
    using tally_okD [OF ta] QG t cQ w_card by (intro tally_okI) (auto split: if_splits)
  ultimately show ?thesis by (rule einvI [OF gk h'])
qed

lemma announce_einv:
  assumes inv: "einv S quorum K H e" and i: "i \<in> S" "role e i = Leader"
  shows "einv S quorum K H (e\<lparr>announced := insert (eterm e i) (announced e)\<rparr>)" (is "einv S quorum K H ?e")
proof -
  from inv obtain G W C where gk: "G \<subseteq> K" and h: "recorded H W" and vo: "votes_ok S e G W" and w: "wins_ok S quorum e G W"
    and n: "net_ok S e G C" and ta: "tally_ok S e G C"
    by (auto simp: einv_def)
  have "votes_ok S ?e G W" using vo by (simp add: votes_ok_def sole_def)
  moreover have "wins_ok S quorum ?e G W"
    using w wins_okD(4) [OF w i] by (auto simp: wins_ok_def won_def loyal_def sole_def)
  moreover have "net_ok S ?e G C" using n by (rule net_ok_shrink) auto
  moreover have "tally_ok S ?e G C" using ta by (rule tally_ok_step) auto
  ultimately show ?thesis by (rule einvI [OF gk h])
qed

lemma estep_einv: "estep S need K e e' \<Longrightarrow> einv S quorum K H e \<Longrightarrow> einv S quorum K H e'"
proof (induction rule: estep.induct)
  case (adopt i e t)
  from adopt.prems show ?case by (rule quiet_einv) (use adopt.hyps in \<open>auto split: if_splits\<close>)
next
  case (yield i e)
  from yield.prems show ?case by (rule quiet_einv) (use yield.hyps in \<open>auto split: if_splits\<close>)
next
  case (loseBallots B e)
  from loseBallots.prems show ?case by (rule quiet_einv) (use loseBallots.hyps in auto)
next
  case (loseAnswers A e)
  from loseAnswers.prems show ?case by (rule quiet_einv) (use loseAnswers.hyps in auto)
next
  case (restart i e)
  from restart.prems show ?case by (rule quiet_einv) (auto split: if_splits)
qed (blast intro: campaign_einv grant_einv refuse_einv count_einv announce_einv)+

lemma estep_star_einv: "(estep S need K)\<^sup>*\<^sup>* e e' \<Longrightarrow> einv S quorum K H e \<Longrightarrow> einv S quorum K H e'"
  by (induction rule: rtranclp_induct) (auto intro: estep_einv)

text \<open>A leader is a winner, to be remembered; a later leader of the same term is the same server.\<close>

lemma einv_record:
  assumes "einv S quorum K H e" "i \<in> S" "role e i = Leader"
  shows "einv S quorum K (insert (eterm e i, i) H) e"
proof -
  from assms(1) obtain G W C where gk: "G \<subseteq> K" and h: "recorded H W" and v: "votes_ok S e G W" and w: "wins_ok S quorum e G W"
    and n: "net_ok S e G C" "tally_ok S e G C"
    by (auto simp: einv_def)
  have "recorded (insert (eterm e i, i) H) W"
    using h wins_okD(4) [OF w assms(2,3)] by (auto simp: recorded_def)
  then show ?thesis using v w n by (rule einvI [OF gk])
qed

lemma einv_register: "einv S quorum K H e \<Longrightarrow> K \<subseteq> K' \<Longrightarrow> einv S quorum K' H e"
  unfolding einv_def by (meson order_trans)

text \<open>A leader has the votes of a quorum, all in the register; a candidate has not won.\<close>

lemma einv_quorum:
  assumes inv: "einv S quorum K H e" and i: "i \<in> S" "role e i = Leader"
  obtains Q where "quorum Q" "\<And>v. v \<in> Q \<Longrightarrow> (eterm e i, v, i) \<in> K \<and> eterm e i \<le> eterm e v"
proof -
  from inv obtain G W C where gk: "G \<subseteq> K" and v: "votes_ok S e G W" and w: "wins_ok S quorum e G W"
    by (auto simp: einv_def)
  obtain Q where Q: "(eterm e i, i, Q) \<in> W" using wins_okD(4) [OF w i] by blast
  have "(eterm e i, x, i) \<in> K \<and> eterm e i \<le> eterm e x" if "x \<in> Q" for x
    using wins_okD(3) [OF w Q that] gk votes_okD(3) [OF v] by (auto simp: loyal_def)
  with wins_okD(1) [OF w Q] show thesis by (rule that)
qed

lemma einv_candidate:
  assumes inv: "einv S quorum K H e" and c: "c \<in> S" "role e c = Candidate"
  shows "(eterm e c, c, c) \<in> K" "(eterm e c, c) \<notin> H"
proof -
  from inv obtain G W C where gk: "G \<subseteq> K" and h: "recorded H W" and v: "votes_ok S e G W"
    and w: "wins_ok S quorum e G W"
    by (auto simp: einv_def)
  show "(eterm e c, c, c) \<in> K" using votes_okD(5) [OF v c] gk by blast
  show "(eterm e c, c) \<notin> H"
  proof
    assume "(eterm e c, c) \<in> H"
    then obtain Q where Q: "(eterm e c, c, Q) \<in> W" using h by (auto simp: recorded_def)
    from wins_okD(3) [OF w Q wins_okD(2) [OF w Q]] c(2) show False by (simp add: loyal_def)
  qed
qed

theorem einv_safety:
  assumes inv: "einv S quorum K H e" and "(eterm e j, i) \<in> H" "j \<in> S" "role e j = Leader"
  shows "i = j"
proof -
  from inv obtain G W where w: "wins_ok S quorum e G W" and h: "recorded H W" by (auto simp: einv_def)
  obtain Q Q' where W: "(eterm e j, i, Q) \<in> W" "(eterm e j, j, Q') \<in> W"
    using wins_okD(4) [OF w] h assms by (fastforce simp: recorded_def)
  obtain x where x: "x \<in> Q" "x \<in> Q'"
    using wins_okD(1) [OF w W(1)] wins_okD(1) [OF w W(2)] by (rule quorum_common)
  have "loyal e G (eterm e j) x i" "loyal e G (eterm e j) x j"
    using wins_okD(3) [OF w] W x by blast+
  then show ?thesis unfolding loyal_def using soleD(1) by blast
qed

end

text \<open>The start: nobody has voted and nothing is under way.\<close>

definition elect_start :: "int set \<Rightarrow> elect \<Rightarrow> bool" where
  "elect_start S e \<longleftrightarrow> (\<forall>i \<in> S. role e i = Follower) \<and> ballots e = {#} \<and> answers e = {#} \<and> announced e = {}"

lemma elect_start_einv: "elect_start S e \<Longrightarrow> einv S quorum K {} e"
  by (rule einvI [where G = "{}" and W = "{}" and C = "\<lambda>_ _. {}"])
    (auto simp: elect_start_def recorded_def votes_ok_def wins_ok_def net_ok_def tally_ok_def traces_def)

section \<open>Majorities of numbered servers\<close>

text \<open>The quorum system of \<^verbatim>\<open>IsMajority\<close>: servers \<open>0\<close> to \<open>n - 1\<close>, at least \<open>n / 2 + 1\<close> of them.\<close>

definition majority :: "nat \<Rightarrow> int set \<Rightarrow> bool" where
  "majority n Q \<longleftrightarrow> Q \<subseteq> {0..<int n} \<and> int n div 2 + 1 \<le> int (card Q)"

interpretation maj: election "{0..<int n}" "majority n" "int n div 2 + 1" for n
proof
  fix Q Q' assume "majority n Q" "majority n Q'"
  then show "Q \<inter> Q' \<noteq> {}"
    using majority_sets_meet [of Q "int n" Q'] by (simp add: majority_def)
qed (auto simp: majority_def)

end
