(* ===== verification/Raft_Cluster.thy ===== *)
theory Raft_Cluster
  imports Raft_Node Election
begin

text \<open>
  A cluster of Raft servers, as a step relation: a step is one critical section of one server
  (\<open>Raft_Handlers\<close>), a loss in the network, or a crash followed by a restart from stable
  storage. The network (\<^verbatim>\<open>labrpc\<close>) delivers a call at most once, in any order, and may lose
  the call or its reply; replies reach only the instance that made the call. Goroutines that
  the source starts for a call are not tracked: the section they run checks the role itself,
  so it may run at any time. The service is represented by what it may do to Raft: submit a
  command, take a snapshot at the index of a message it received, and hand a received
  snapshot to \<^verbatim>\<open>CondInstallSnapshot\<close>. A step that would panic is no step.
\<close>

section \<open>Steps\<close>

datatype ('c, 's) rpc =
    VoteReq int int RequestVoteArgs                       \<comment> \<open>caller, callee, arguments\<close>
  | VoteRep int int RequestVoteArgs RequestVoteReply      \<comment> \<open>caller, callee, call and reply\<close>
  | AppReq int int "'c AppendEntriesArgs"
  | AppRep int int "'c AppendEntriesArgs" AppendEntriesReply
  | SnapReq int int "'s InstallSnapshotArgs"
  | SnapRep int int "'s InstallSnapshotArgs" InstallSnapshotReply

record ('c, 's) cluster =
  cl_node :: "int \<Rightarrow> ('c, 's) Raft"
  cl_net :: "('c, 's) rpc multiset"
  cl_vote :: "int \<Rightarrow> int \<Rightarrow> 32 word"      \<comment> \<open>the variable \<^verbatim>\<open>vote\<close> of the election of a server in a term\<close>
  cl_pend :: "int \<Rightarrow> ('c, 's) ApplyMsg multiset"  \<comment> \<open>snapshots waiting on \<^verbatim>\<open>applyCh\<close>\<close>
  cl_applied :: "int \<Rightarrow> ('c, 's) ApplyMsg list"   \<comment> \<open>commands received by the service\<close>

definition servers :: "nat \<Rightarrow> int set" where
  "servers n = {0..<int n}"

definition setNode :: "int \<Rightarrow> ('c, 's) Raft \<Rightarrow> ('c, 's) cluster \<Rightarrow> ('c, 's) cluster" where
  "setNode i rf cl = cl\<lparr>cl_node := (cl_node cl)(i := rf)\<rparr>"

definition setNet :: "('c, 's) rpc multiset \<Rightarrow> ('c, 's) cluster \<Rightarrow> ('c, 's) cluster" where
  "setNet net cl = cl\<lparr>cl_net := net\<rparr>"

fun replyTo :: "int \<Rightarrow> ('c, 's) rpc \<Rightarrow> bool" where
  "replyTo i (VoteRep j p a r) = (j = i)"
| "replyTo i (AppRep j p a' r') = (j = i)"
| "replyTo i (SnapRep j p a'' r'') = (j = i)"
| "replyTo i m = False"

inductive cstep :: "nat \<Rightarrow> ('c, 's) cluster \<Rightarrow> ('c, 's) cluster \<Rightarrow> bool" for n where
  elect: "i \<in> servers n \<Longrightarrow> DoElection now r (cl_node cl i) = Inr (rf, Some args) \<Longrightarrow>
     cstep n cl (setNode i rf (setNet
       (cl_net cl + mset_set ((\<lambda>v. VoteReq i v args) ` (servers n - {i})))
       (cl\<lparr>cl_vote := (cl_vote cl)(i := (cl_vote cl i)(rvTerm args := 1))\<rparr>)))"
| recvVote: "VoteReq c v args \<in># cl_net cl \<Longrightarrow>
     RequestVote now args (cl_node cl v) = Inr (rf, reply) \<Longrightarrow>
     cstep n cl (setNode v rf (setNet
       (cl_net cl - {#VoteReq c v args#} + {#VoteRep c v args reply#}) cl))"
| voteReply: "VoteRep c v args reply \<in># cl_net cl \<Longrightarrow>
     handleVoteReply args reply (cl_node cl c) (cl_vote cl c (rvTerm args)) = Inr (rf, w) \<Longrightarrow>
     cstep n cl (setNode c rf (setNet (cl_net cl - {#VoteRep c v args reply#})
       (cl\<lparr>cl_vote := (cl_vote cl)(c := (cl_vote cl c)(rvTerm args := w))\<rparr>)))"
| sendAppend: "i \<in> servers n \<Longrightarrow> p \<in> servers n \<Longrightarrow> p \<noteq> i \<Longrightarrow>
     Replicate p (cl_node cl i) = Inr (Some (CallAppendEntries aargs)) \<Longrightarrow>
     cstep n cl (setNet (cl_net cl + {#AppReq i p aargs#}) cl)"
| recvAppend: "AppReq i p aargs \<in># cl_net cl \<Longrightarrow>
     AppendEntries now aargs (cl_node cl p) = Inr (rf, areply) \<Longrightarrow>
     cstep n cl (setNode p rf (setNet
       (cl_net cl - {#AppReq i p aargs#} + {#AppRep i p aargs areply#}) cl))"
| appendReply: "AppRep i p aargs areply \<in># cl_net cl \<Longrightarrow>
     handleAppendReply p aargs areply (cl_node cl i) = Inr rf \<Longrightarrow>
     cstep n cl (setNode i rf (setNet (cl_net cl - {#AppRep i p aargs areply#}) cl))"
| sendSnap: "i \<in> servers n \<Longrightarrow> p \<in> servers n \<Longrightarrow> p \<noteq> i \<Longrightarrow>
     Replicate p (cl_node cl i) = Inr (Some (CallInstallSnapshot sargs)) \<Longrightarrow>
     cstep n cl (setNet (cl_net cl + {#SnapReq i p sargs#}) cl)"
| recvSnap: "SnapReq i p sargs \<in># cl_net cl \<Longrightarrow>
     InstallSnapshot now sargs (cl_node cl p) = (rf, sreply, msg) \<Longrightarrow>
     cstep n cl (setNode p rf (setNet
       (cl_net cl - {#SnapReq i p sargs#} + {#SnapRep i p sargs sreply#})
       (cl\<lparr>cl_pend := (cl_pend cl)(p := cl_pend cl p + mset_set (set_option msg))\<rparr>)))"
| snapReply: "SnapRep i p sargs sreply \<in># cl_net cl \<Longrightarrow>
     handleInstallReply p sargs sreply (cl_node cl i) = Inr rf \<Longrightarrow>
     cstep n cl (setNode i rf (setNet (cl_net cl - {#SnapRep i p sargs sreply#}) cl))"
| startCmd: "i \<in> servers n \<Longrightarrow> Start cmd (cl_node cl i) = Inr (rf, x) \<Longrightarrow> cstep n cl (setNode i rf cl)"
| applyEntry: "i \<in> servers n \<Longrightarrow> DoApply (cl_node cl i) = Inr (rf, Some m) \<Longrightarrow>
     cstep n cl (setNode i rf (cl\<lparr>cl_applied := (cl_applied cl)(i := cl_applied cl i @ [m])\<rparr>))"
| takeSnapshot: "i \<in> servers n \<Longrightarrow> m \<in> set (cl_applied cl i) \<Longrightarrow>
     Snapshot (amCommandIndex m) snap (cl_node cl i) = Inr rf \<Longrightarrow> cstep n cl (setNode i rf cl)"
| installSnapshot: "i \<in> servers n \<Longrightarrow> m \<in># cl_pend cl i \<Longrightarrow>
     CondInstallSnapshot (amSnapshotTerm m) (amSnapshotIndex m) (amSnapshot m) (cl_node cl i)
       = Inr (rf, b) \<Longrightarrow>
     cstep n cl (setNode i rf (cl\<lparr>cl_pend := (cl_pend cl)(i := cl_pend cl i - {#m#})\<rparr>))"
| loseMsgs: "net \<subseteq># cl_net cl \<Longrightarrow> cstep n cl (setNet net cl)"
| crash: "i \<in> servers n \<Longrightarrow> Make n i (Copy (rf_persister (cl_node cl i))) r = Inr rf \<Longrightarrow>
     cstep n cl (setNode i rf (setNet (filter_mset (\<lambda>m. \<not> replyTo i m) (cl_net cl))
       (cl\<lparr>cl_pend := (cl_pend cl)(i := {#}), cl_applied := (cl_applied cl)(i := [])\<rparr>)))"

definition cluster_init :: "nat \<Rightarrow> ('c, 's) cluster \<Rightarrow> bool" where
  "cluster_init n cl \<longleftrightarrow>
     (\<forall>i \<in> servers n. \<exists>r. Make n i MakePersister r = Inr (cl_node cl i)) \<and>
     cl_net cl = {#} \<and> (\<forall>i. cl_pend cl i = {#}) \<and> (\<forall>i. cl_applied cl i = [])"

inductive reachable :: "nat \<Rightarrow> ('c, 's) cluster \<Rightarrow> bool" for n where
  init: "cluster_init n cl \<Longrightarrow> reachable n cl"
| step: "reachable n cl \<Longrightarrow> cstep n cl cl' \<Longrightarrow> reachable n cl'"

section \<open>The cluster implements the election protocol\<close>

text \<open>The abstraction: roles, terms and votes of the servers, and the votes in the network.\<close>

fun ballotOf :: "('c, 's) rpc \<Rightarrow> (int \<times> int \<times> int) multiset" where
  "ballotOf (VoteReq c v args) = {#(c, rvTerm args, v)#}"
| "ballotOf m = {#}"

fun answerOf :: "('c, 's) rpc \<Rightarrow> (int \<times> int \<times> int \<times> bool) multiset" where
  "answerOf (VoteRep c v args reply) = {#(c, rvTerm args, v, rvrVoteGranted reply)#}"
| "answerOf m = {#}"

definition elect_of :: "('c, 's) cluster \<Rightarrow> int set \<Rightarrow> elect" where
  "elect_of cl A =
     \<lparr>role = (\<lambda>i. rf_state (cl_node cl i)), eterm = (\<lambda>i. rf_term (cl_node cl i)),
      vfor = (\<lambda>i. rf_votedFor (cl_node cl i)), tally = cl_vote cl,
      ballots = \<Sum>\<^sub># (image_mset ballotOf (cl_net cl)),
      answers = \<Sum>\<^sub># (image_mset answerOf (cl_net cl)), announced = A\<rparr>"

text \<open>The votes the servers remember.\<close>

definition votesOf :: "nat \<Rightarrow> ('c, 's) cluster \<Rightarrow> votes" where
  "votesOf n cl = {(rf_term (cl_node cl v), v, rf_votedFor (cl_node cl v)) | v.
     v \<in> servers n \<and> rf_votedFor (cl_node cl v) \<in> servers n}"

lemma votesOf_mem: "v \<in> servers n \<Longrightarrow> c \<in> servers n \<Longrightarrow> t = rf_term (cl_node cl v) \<Longrightarrow> c = rf_votedFor (cl_node cl v) \<Longrightarrow>
    (t, v, c) \<in> votesOf n cl"
  by (auto simp: votesOf_def)

text \<open>Calls name existing servers, and whoever sent a leader's call had announced its term.\<close>

fun rpc_ok :: "nat \<Rightarrow> int set \<Rightarrow> ('c, 's) rpc \<Rightarrow> bool" where
  "rpc_ok n A (VoteReq c v args) = (c \<in> servers n \<and> v \<in> servers n \<and> rvCandidateId args = c)"
| "rpc_ok n A (VoteRep c v args reply) = (c \<in> servers n \<and> v \<in> servers n)"
| "rpc_ok n A (AppReq i p aargs) = (i \<in> servers n \<and> p \<in> servers n \<and> aeTerm aargs \<in> A)"
| "rpc_ok n A (AppRep i p aargs areply) = (i \<in> servers n \<and> p \<in> servers n)"
| "rpc_ok n A (SnapReq i p sargs) = (i \<in> servers n \<and> p \<in> servers n \<and> isTerm sargs \<in> A)"
| "rpc_ok n A (SnapRep i p sargs sreply) = (i \<in> servers n \<and> p \<in> servers n)"

definition cluster_ok :: "nat \<Rightarrow> int set \<Rightarrow> ('c, 's) cluster \<Rightarrow> bool" where
  "cluster_ok n A cl \<longleftrightarrow>
     (\<forall>i \<in> servers n. node_ok n i (cl_node cl i)) \<and> (\<forall>m \<in># cl_net cl. rpc_ok n A m)"

lemma finite_servers [simp]: "finite (servers n)"
  by (simp add: servers_def)

lemma cluster_okD:
  assumes "cluster_ok n A cl"
  shows "i \<in> servers n \<Longrightarrow> node_ok n i (cl_node cl i)" "m \<in># cl_net cl \<Longrightarrow> rpc_ok n A m"
  using assms by (auto simp: cluster_ok_def)

lemma rpc_ok_mono: "rpc_ok n A m \<Longrightarrow> A \<subseteq> A' \<Longrightarrow> rpc_ok n A' m"
  by (cases m) auto

lemma cluster_ok_step:
  assumes "cluster_ok n A cl" "A \<subseteq> A'"
    and "\<And>j. j \<in> servers n \<Longrightarrow> cl_node cl' j = cl_node cl j \<or> node_ok n j (cl_node cl' j)"
    and "\<And>m. m \<in># cl_net cl' \<Longrightarrow> m \<in># cl_net cl \<or> rpc_ok n A' m"
  shows "cluster_ok n A' cl'"
  using assms unfolding cluster_ok_def by (metis rpc_ok_mono)

text \<open>How the abstraction sees a change of one server and of the network.\<close>

lemma elect_of_setNode:
  "elect_of (setNode i rf cl) A = (elect_of cl A)\<lparr>
     role := (role (elect_of cl A))(i := rf_state rf),
     eterm := (eterm (elect_of cl A))(i := rf_term rf),
     vfor := (vfor (elect_of cl A))(i := rf_votedFor rf)\<rparr>"
  by (auto simp: elect_of_def setNode_def fun_eq_iff)

lemma elect_of_simps [simp]:
  "role (elect_of cl A) i = rf_state (cl_node cl i)"
  "eterm (elect_of cl A) i = rf_term (cl_node cl i)"
  "vfor (elect_of cl A) i = rf_votedFor (cl_node cl i)"
  "tally (elect_of cl A) = cl_vote cl"
  "announced (elect_of cl A) = A"
  "elect_of (cl\<lparr>cl_pend := x\<rparr>) A = elect_of cl A"
  "elect_of (cl\<lparr>cl_applied := y\<rparr>) A = elect_of cl A"
  by (simp_all add: elect_of_def)

lemma elect_of_sameVote:
  assumes "sameVote (cl_node cl i) rf"
  shows "elect_of (setNode i rf cl) A = elect_of cl A"
  using assms by (auto simp: elect_of_def setNode_def sameVote_def fun_eq_iff)

text \<open>The three effects of \<open>Raft_Node\<close> are steps of the protocol.\<close>

abbreviation psteps :: "nat \<Rightarrow> votes \<Rightarrow> elect \<Rightarrow> elect \<Rightarrow> bool" where
  "psteps n K \<equiv> (estep (servers n) (int n div 2 + 1) K)\<^sup>*\<^sup>*"

lemma psteps_effect:
  assumes "sameVote (cl_node cl i) rf \<or> laterTerm (cl_node cl i) rf \<or>
      (yields t (cl_node cl i) rf \<and> t \<in> A)" and "i \<in> servers n"
  shows "psteps n K (elect_of cl A) (elect_of (setNode i rf cl) A)"
  using assms(1)
proof (elim disjE conjE)
  assume "sameVote (cl_node cl i) rf"
  then show ?thesis by (simp add: elect_of_sameVote)
next
  assume "laterTerm (cl_node cl i) rf"
  then have "estep (servers n) (int n div 2 + 1) K (elect_of cl A) (elect_of (setNode i rf cl) A)"
    using estep.adopt [OF assms(2), of "elect_of cl A" "rf_term rf"]
    by (auto simp: elect_of_setNode laterTerm_def)
  then show ?thesis ..
next
  assume y: "yields t (cl_node cl i) rf" and "t \<in> A"
  then have "(eterm (elect_of cl A))(i := t) = eterm (elect_of cl A)"
    by (auto simp: yields_def)
  with y \<open>t \<in> A\<close>
  have "estep (servers n) (int n div 2 + 1) K (elect_of cl A) (elect_of (setNode i rf cl) A)"
    using estep.yield [OF assms(2), of "elect_of cl A"]
    by (auto simp: elect_of_setNode yields_def)
  then show ?thesis ..
qed

lemma elect_of_setNet:
  "elect_of (setNet net cl) A = (elect_of cl A)\<lparr>
     ballots := \<Sum>\<^sub># (image_mset ballotOf net), answers := \<Sum>\<^sub># (image_mset answerOf net)\<rparr>"
  by (simp add: elect_of_def setNet_def)

lemma cl_node_setNet [simp]: "cl_node (setNet net cl) = cl_node cl"
  and cl_net_setNet [simp]: "cl_net (setNet net cl) = net"
  and cl_net_setNode [simp]: "cl_net (setNode i rf cl) = cl_net cl"
  and cl_node_setNode [simp]: "cl_node (setNode i rf cl) = (cl_node cl)(i := rf)"
  by (simp_all add: setNet_def setNode_def)

lemma elect_of_setVote: "elect_of (cl\<lparr>cl_vote := w\<rparr>) A = (elect_of cl A)\<lparr>tally := w\<rparr>"
  by (simp add: elect_of_def)

lemma elect_of_net:
  "ballots (elect_of cl A) = \<Sum>\<^sub># (image_mset ballotOf (cl_net cl))"
  "answers (elect_of cl A) = \<Sum>\<^sub># (image_mset answerOf (cl_net cl))"
  "(elect_of cl A)\<lparr>answers := \<Sum>\<^sub># (image_mset answerOf (cl_net cl))\<rparr> = elect_of cl A"
  by (simp_all add: elect_of_def)

lemma psteps_lose:
  assumes "net \<subseteq># cl_net cl"
  shows "psteps n K (elect_of cl A) (elect_of (setNet net cl) A)"
proof -
  let ?e = "elect_of cl A" and ?B = "\<Sum>\<^sub># (image_mset ballotOf net)"
    and ?A = "\<Sum>\<^sub># (image_mset answerOf net)"
  obtain X where X: "cl_net cl = net + X" using assms by (auto simp: subset_mset.le_iff_add)
  have "?B \<subseteq># ballots ?e" "?A \<subseteq># answers ?e" by (simp_all add: elect_of_def X)
  then have "estep (servers n) (int n div 2 + 1) K ?e (?e\<lparr>ballots := ?B\<rparr>)"
    "estep (servers n) (int n div 2 + 1) K (?e\<lparr>ballots := ?B\<rparr>) (?e\<lparr>ballots := ?B, answers := ?A\<rparr>)"
    using estep.loseAnswers [of ?A "?e\<lparr>ballots := ?B\<rparr>"] by (auto intro: estep.loseBallots)
  then show ?thesis unfolding elect_of_setNet by (rule converse_rtranclp_into_rtranclp [OF _ r_into_rtranclp])
qed

lemma elect_of_quiet_net:
  assumes "m \<in># cl_net cl" "ballotOf m = {#}" "answerOf m = {#}" "ballotOf m' = {#}" "answerOf m' = {#}"
  shows "elect_of (setNet (cl_net cl - {#m#} + {#m'#}) cl) A = elect_of cl A"
proof -
  from assms(1) obtain X where "cl_net cl = add_mset m X" by (metis insert_DiffM)
  then show ?thesis using assms by (simp add: elect_of_def setNet_def)
qed

lemma elect_simulates:
  assumes i: "i \<in> servers n" and el: "DoElection now r (cl_node cl i) = Inr (rf, Some args)"
    and ok: "cluster_ok n A cl" and k: "(rf_term rf, i, rf_votedFor rf) \<in> K"
  shows "psteps n K (elect_of cl A) (elect_of (setNode i rf (setNet
       (cl_net cl + mset_set ((\<lambda>v. VoteReq i v args) ` (servers n - {i})))
       (cl\<lparr>cl_vote := (cl_vote cl)(i := (cl_vote cl i)(rvTerm args := 1))\<rparr>))) A)"
proof -
  let ?N = "mset_set ((\<lambda>v. VoteReq i v args) ` (servers n - {i}))"
  let ?t = "rf_term (cl_node cl i) + 1"
  note v = DoElection_vote [OF el]
  have me: "rf_me (cl_node cl i) = i" using node_okD(2) [OF cluster_okD(1) [OF ok i]] .
  have N: "?N = image_mset (\<lambda>v. VoteReq i v args) (mset_set (servers n - {i}))"
    by (rule image_mset_mset_set [symmetric]) (auto simp: inj_on_def)
  have "\<Sum>\<^sub># (image_mset ballotOf ?N) = image_mset (\<lambda>v. (i, ?t, v)) (mset_set (servers n - {i}))"
    by (simp add: N v(5) multiset.map_comp comp_def)
  also have "\<dots> = mset_set ((\<lambda>v. (i, ?t, v)) ` (servers n - {i}))"
    by (rule image_mset_mset_set) (auto simp: inj_on_def)
  finally have B: "\<Sum>\<^sub># (image_mset ballotOf ?N) = \<dots>" .
  have An: "\<Sum>\<^sub># (image_mset answerOf ?N) = {#}"
    by (simp add: N multiset.map_comp comp_def)
  note see = elect_of_setNode elect_of_setNet elect_of_setVote elect_of_net
  have "elect_of (setNode i rf (setNet
       (cl_net cl + ?N) (cl\<lparr>cl_vote := (cl_vote cl)(i := (cl_vote cl i)(rvTerm args := 1))\<rparr>))) A =
    (elect_of cl A)\<lparr>role := (role (elect_of cl A))(i := Candidate),
       eterm := (eterm (elect_of cl A))(i := ?t), vfor := (vfor (elect_of cl A))(i := i),
       tally := (tally (elect_of cl A))(i := (tally (elect_of cl A) i)(?t := 1)),
       ballots := ballots (elect_of cl A) + mset_set ((\<lambda>v. (i, ?t, v)) ` (servers n - {i}))\<rparr>"
    by (rule elect.equality) (simp_all add: see B An v me)
  then show ?thesis
    using estep.campaign [OF i, of "elect_of cl A" ?t K "int n div 2 + 1"] v k me by auto
qed

text \<open>A vote request: the voter may first move to the term of the request.\<close>

lemma recvVote_simulates:
  assumes m: "VoteReq c v args \<in># cl_net cl"
    and rv: "RequestVote now args (cl_node cl v) = Inr (rf, reply)" and ok: "cluster_ok n A cl"
    and k: "rvrVoteGranted reply \<Longrightarrow> (rf_term rf, v, rf_votedFor rf) \<in> K"
  shows "psteps n K (elect_of cl A) (elect_of (setNode v rf (setNet
       (cl_net cl - {#VoteReq c v args#} + {#VoteRep c v args reply#}) cl)) A)"
    (is "psteps n K _ (elect_of (setNode v rf ?cl) A)")
proof -
  let ?t = "rvTerm args" and ?E = "estep (servers n) (int n div 2 + 1) K"
  from cluster_okD(2) [OF ok m] have cv: "c \<in> servers n" "v \<in> servers n" "rvCandidateId args = c"
    by simp_all
  obtain X where X: "cl_net cl = add_mset (VoteReq c v args) X" using m by (metis insert_DiffM)
  note see = elect_of_setNode elect_of_setNet elect_of_net X
  from rv show ?thesis
  proof (cases rule: RequestVote_vote)
    case refused
    have "psteps n K (elect_of cl A) (elect_of (setNode v rf cl) A)"
      using refused(2) cv(2) by (intro psteps_effect [where t = 0]) auto
    moreover have "?E (elect_of (setNode v rf cl) A) (elect_of (setNode v rf ?cl) A)"
    proof -
      have "elect_of (setNode v rf ?cl) A = (elect_of (setNode v rf cl) A)\<lparr>
         ballots := ballots (elect_of (setNode v rf cl) A) - {#(c, ?t, v)#},
         answers := answers (elect_of (setNode v rf cl) A) + {#(c, ?t, v, False)#}\<rparr>"
        by (rule elect.equality) (simp_all add: see refused(1))
      then show ?thesis by (simp only:) (rule estep.refuse, simp add: see)
    qed
    ultimately show ?thesis by (rule rtranclp.rtrancl_into_rtrancl)
  next
    case granted
    have eq: "elect_of (setNode v rf ?cl) A = (elect_of cl A)\<lparr>vfor := (vfor (elect_of cl A))(v := c),
         ballots := ballots (elect_of cl A) - {#(c, ?t, v)#},
         answers := answers (elect_of cl A) + {#(c, ?t, v, True)#}\<rparr>"
      by (rule elect.equality) (use granted cv in \<open>simp_all add: see fun_upd_idem\<close>)
    show ?thesis unfolding eq
      by (rule r_into_rtranclp, rule estep.grant) (use granted cv k in \<open>simp_all add: see\<close>)
  next
    case new_term
    let ?rf = "(cl_node cl v)\<lparr>rf_state := Follower, rf_term := ?t, rf_votedFor := -1\<rparr>"
    have "psteps n K (elect_of cl A) (elect_of (setNode v ?rf cl) A)"
      using new_term(2) cv(2) by (intro psteps_effect [where t = 0]) (auto simp: laterTerm_def)
    moreover have eq: "elect_of (setNode v rf ?cl) A = (elect_of (setNode v ?rf cl) A)\<lparr>
         vfor := (vfor (elect_of (setNode v ?rf cl) A))(v := c),
         ballots := ballots (elect_of (setNode v ?rf cl) A) - {#(c, ?t, v)#},
         answers := answers (elect_of (setNode v ?rf cl) A) + {#(c, ?t, v, True)#}\<rparr>"
      by (rule elect.equality) (use new_term cv in \<open>simp_all add: see\<close>)
    have "?E (elect_of (setNode v ?rf cl) A) (elect_of (setNode v rf ?cl) A)"
      unfolding eq by (rule estep.grant) (use new_term cv k in \<open>simp_all add: see\<close>)
    ultimately show ?thesis by (rule rtranclp.rtrancl_into_rtrancl)
  qed
qed

text \<open>A reply: counted if the election is still on, otherwise as good as lost.\<close>

lemma voteReply_simulates:
  assumes m: "VoteRep c v args reply \<in># cl_net cl"
    and hv: "handleVoteReply args reply (cl_node cl c) (cl_vote cl c (rvTerm args)) = Inr (rf, w)"
    and ok: "cluster_ok n A cl"
  shows "psteps n K (elect_of cl A) (elect_of (setNode c rf (setNet (cl_net cl - {#VoteRep c v args reply#})
       (cl\<lparr>cl_vote := (cl_vote cl)(c := (cl_vote cl c)(rvTerm args := w))\<rparr>))) A)"
    (is "psteps n K _ (elect_of (setNode c rf (setNet ?net ?clv)) A)")
proof -
  let ?t = "rvTerm args"
  from cluster_okD(2) [OF ok m] have c: "c \<in> servers n" by simp
  obtain X where X: "cl_net cl = add_mset (VoteRep c v args reply) X" using m by (metis insert_DiffM)
  note see = elect_of_setNode elect_of_setNet elect_of_setVote elect_of_net X
  from hv show ?thesis
  proof (cases rule: handleVoteReply_vote)
    case ignored
    have "psteps n K (elect_of cl A) (elect_of (setNet ?net cl) A)"
      by (rule psteps_lose) simp
    also have "psteps n K (elect_of (setNet ?net cl) A) (elect_of (setNode c rf (setNet ?net cl)) A)"
      using ignored(2) c by (intro psteps_effect [where t = 0]) auto
    also have "setNode c rf (setNet ?net cl) = setNode c rf (setNet ?net ?clv)"
      using ignored(1) by (simp add: setNode_def setNet_def)
    finally show ?thesis .
  next
    case counted
    have "Majority (cl_node cl c) = int n div 2 + 1"
      using node_okD(1) [OF cluster_okD(1) [OF ok c]] by (simp add: Majority_def)
    then have eq: "elect_of (setNode c rf (setNet ?net ?clv)) A =
      (elect_of cl A)\<lparr>answers := answers (elect_of cl A) - {#(c, ?t, v, True)#},
        tally := (tally (elect_of cl A))(c := (tally (elect_of cl A) c)(?t := w)),
        role := (role (elect_of cl A))(c := if int n div 2 + 1 \<le> uint w then Leader else Candidate)\<rparr>"
      by (intro elect.equality) (use counted in \<open>simp_all add: see fun_upd_idem\<close>)
    show ?thesis unfolding eq
      by (rule r_into_rtranclp, rule estep.count) (use counted in \<open>simp_all add: see\<close>)
  qed
qed

text \<open>A call or reply that carries no vote, handled by a server with one of the three effects.\<close>

lemma quiet_simulates:
  assumes "m \<in># cl_net cl" "ballotOf m = {#}" "answerOf m = {#}" "ballotOf m' = {#}" "answerOf m' = {#}"
    and "sameVote (cl_node cl i) rf \<or> laterTerm (cl_node cl i) rf \<or>
      (yields t (cl_node cl i) rf \<and> t \<in> A)" and "i \<in> servers n"
  shows "psteps n K (elect_of cl A) (elect_of (setNode i rf (setNet (cl_net cl - {#m#} + {#m'#}) cl)) A)"
proof -
  let ?cl = "setNet (cl_net cl - {#m#} + {#m'#}) cl"
  have "psteps n K (elect_of ?cl A) (elect_of (setNode i rf ?cl) A)"
    using assms(6,7) by (intro psteps_effect [where t = t]) auto
  then show ?thesis unfolding elect_of_quiet_net [OF assms(1-5)] .
qed

lemma quiet_lost_simulates:
  assumes "sameVote (cl_node cl i) rf \<or> laterTerm (cl_node cl i) rf" and "i \<in> servers n"
    and "net \<subseteq># cl_net cl"
  shows "psteps n K (elect_of cl A) (elect_of (setNode i rf (setNet net cl)) A)"
proof -
  have "psteps n K (elect_of cl A) (elect_of (setNet net cl) A)"
    using assms(3) by (rule psteps_lose)
  also have "psteps n K (elect_of (setNet net cl) A) (elect_of (setNode i rf (setNet net cl)) A)"
    using assms(1,2) by (intro psteps_effect [where t = 0]) auto
  finally show ?thesis .
qed

lemma crash_simulates:
  assumes i: "i \<in> servers n" and mk: "Make n i (Copy (rf_persister (cl_node cl i))) r = Inr rf"
    and ok: "cluster_ok n A cl" and net: "net \<subseteq># cl_net cl"
  shows "psteps n K (elect_of cl A) (elect_of (setNode i rf (setNet net cl)) A)" "node_ok n i rf"
proof -
  from Make_restart [OF cluster_okD(1) [OF ok i], of r] mk
  have rf: "rf_state rf = Follower" "rf_term rf = rf_term (cl_node cl i)"
    "rf_votedFor rf = rf_votedFor (cl_node cl i)" and "node_ok n i rf" by auto
  then show "node_ok n i rf" by simp
  have "psteps n K (elect_of cl A) (elect_of (setNet net cl) A)"
    using net by (rule psteps_lose)
  moreover have eq: "elect_of (setNode i rf (setNet net cl)) A =
      (elect_of (setNet net cl) A)\<lparr>role := (role (elect_of (setNet net cl) A))(i := Follower)\<rparr>"
    by (rule elect.equality) (simp_all add: elect_of_setNode rf fun_upd_idem)
  have "estep (servers n) (int n div 2 + 1) K (elect_of (setNet net cl) A)
      (elect_of (setNode i rf (setNet net cl)) A)"
    unfolding eq using i by (rule estep.restart)
  ultimately show "psteps n K (elect_of cl A) (elect_of (setNode i rf (setNet net cl)) A)"
    by (rule rtranclp.rtrancl_into_rtrancl)
qed

text \<open>A leader that sends a call announces its term.\<close>

lemma send_simulates:
  assumes i: "i \<in> servers n" and lead: "rf_state (cl_node cl i) = Leader"
    and "ballotOf m = {#}" "answerOf m = {#}"
  shows "psteps n K (elect_of cl A) (elect_of (setNet (cl_net cl + {#m#}) cl)
     (insert (rf_term (cl_node cl i)) A))"
proof -
  have eq: "elect_of (setNet (cl_net cl + {#m#}) cl) (insert (rf_term (cl_node cl i)) A) =
      (elect_of cl A)\<lparr>announced := insert (eterm (elect_of cl A) i) (announced (elect_of cl A))\<rparr>"
    using assms(3,4) by (simp add: elect_of_def setNet_def)
  show ?thesis unfolding eq by (rule r_into_rtranclp, rule estep.announce) (simp_all add: i lead)
qed

text \<open>One lemma for each rule: the next state is related to a state the protocol can reach.\<close>

definition simulated :: "nat \<Rightarrow> votes \<Rightarrow> int set \<Rightarrow> ('c, 's) cluster \<Rightarrow> ('c, 's) cluster \<Rightarrow> bool" where
  "simulated n K A cl cl' \<longleftrightarrow>
     (\<exists>A'. cluster_ok n A' cl' \<and> psteps n K (elect_of cl A) (elect_of cl' A'))"

lemma simulatedI:
  assumes "cluster_ok n A cl" "A \<subseteq> A'" "cl_node cl' = (cl_node cl)(i := rf)" "node_ok n i rf"
    and "\<And>m. m \<in># cl_net cl' \<Longrightarrow> m \<in># cl_net cl \<or> rpc_ok n A' m"
    and "psteps n K (elect_of cl A) (elect_of cl' A')"
  shows "simulated n K A cl cl'"
proof -
  have "cluster_ok n A' cl'"
    using assms(1,2) by (rule cluster_ok_step) (use assms(3-5) in auto)
  with assms(6) show ?thesis by (auto simp: simulated_def)
qed

lemma sim_elect:
  assumes ok: "cluster_ok n A cl" and i: "i \<in> servers n"
    and el: "DoElection now r (cl_node cl i) = Inr (rf, Some args)" and k: "(rf_term rf, i, rf_votedFor rf) \<in> K"
  shows "simulated n K A cl (setNode i rf (setNet
       (cl_net cl + mset_set ((\<lambda>v. VoteReq i v args) ` (servers n - {i})))
       (cl\<lparr>cl_vote := (cl_vote cl)(i := (cl_vote cl i)(rvTerm args := 1))\<rparr>)))"
proof -
  note node = cluster_okD(1) [OF ok i]
  have "rvCandidateId args = i" using DoElection_vote(6) [OF el] node_okD(2) [OF node] by simp
  then show ?thesis
    using DoElection_node_ok [OF el node] elect_simulates [OF i el ok k] i
    by (intro simulatedI [OF ok order_refl, where i = i and rf = rf]) auto
qed

lemma sim_recvVote:
  assumes ok: "cluster_ok n A cl" and m: "VoteReq c v args \<in># cl_net cl"
    and rv: "RequestVote now args (cl_node cl v) = Inr (rf, reply)" and k: "rvrVoteGranted reply \<Longrightarrow> (rf_term rf, v, rf_votedFor rf) \<in> K"
  shows "simulated n K A cl (setNode v rf (setNet
       (cl_net cl - {#VoteReq c v args#} + {#VoteRep c v args reply#}) cl))"
proof -
  from cluster_okD(2) [OF ok m] have cv: "c \<in> servers n" "v \<in> servers n" by auto
  show ?thesis
    using RequestVote_node_ok [OF rv cluster_okD(1) [OF ok cv(2)]] recvVote_simulates [OF m rv ok k] cv
    by (intro simulatedI [OF ok order_refl, where i = v and rf = rf]) (auto dest: in_diffD)
qed

lemma sim_voteReply:
  assumes ok: "cluster_ok n A cl" and m: "VoteRep c v args reply \<in># cl_net cl"
    and hv: "handleVoteReply args reply (cl_node cl c) (cl_vote cl c (rvTerm args)) = Inr (rf, w)"
  shows "simulated n K A cl (setNode c rf (setNet (cl_net cl - {#VoteRep c v args reply#})
       (cl\<lparr>cl_vote := (cl_vote cl)(c := (cl_vote cl c)(rvTerm args := w))\<rparr>)))"
proof -
  from cluster_okD(2) [OF ok m] have c: "c \<in> servers n" by auto
  show ?thesis
    using handleVoteReply_node_ok [OF hv cluster_okD(1) [OF ok c]] voteReply_simulates [OF m hv ok]
    by (intro simulatedI [OF ok order_refl, where i = c and rf = rf]) (auto dest: in_diffD)
qed

lemma sim_send:
  assumes ok: "cluster_ok n A cl" and i: "i \<in> servers n"
    and rep: "Replicate p (cl_node cl i) = Inr (Some call)"
    and m: "ballotOf m = {#}" "answerOf m = {#}" "rpc_ok n (insert (rf_term (cl_node cl i)) A) m"
  shows "simulated n K A cl (setNet (cl_net cl + {#m#}) cl)"
  using send_simulates [OF i Replicate_leader [OF rep] m(1,2)] cluster_okD(1) [OF ok i] m(3)
  by (intro simulatedI [OF ok subset_insertI, where i = i and rf = "cl_node cl i"]) auto

lemma sim_receive:
  assumes ok: "cluster_ok n A cl" and m: "m \<in># cl_net cl" "rpc_ok n A m'"
    and quiet: "ballotOf m = {#}" "answerOf m = {#}" "ballotOf m' = {#}" "answerOf m' = {#}"
    and p: "p \<in> servers n" "node_ok n p rf"
    and eff: "sameVote (cl_node cl p) rf \<or> laterTerm (cl_node cl p) rf \<or>
      (yields t (cl_node cl p) rf \<and> t \<in> A)"
  shows "simulated n K A cl (setNode p rf (setNet (cl_net cl - {#m#} + {#m'#}) cl))"
  using quiet_simulates [OF m(1) quiet eff p(1)] p m(2)
  by (intro simulatedI [OF ok order_refl, where i = p and rf = rf]) (auto dest: in_diffD)

lemma sim_reply:
  assumes ok: "cluster_ok n A cl" and i: "i \<in> servers n" "node_ok n i rf"
    and eff: "sameVote (cl_node cl i) rf \<or> laterTerm (cl_node cl i) rf" and net: "net \<subseteq># cl_net cl"
  shows "simulated n K A cl (setNode i rf (setNet net cl))"
  using quiet_lost_simulates [OF eff i(1) net] i net
  by (intro simulatedI [OF ok order_refl, where i = i and rf = rf]) (auto dest: mset_subset_eqD)

lemma sim_local:
  assumes ok: "cluster_ok n A cl" and i: "i \<in> servers n" "node_ok n i rf"
    and same: "sameVote (cl_node cl i) rf"
  shows "simulated n K A cl (setNode i rf cl)"
  using elect_of_sameVote [OF same] i
  by (intro simulatedI [OF ok order_refl, where i = i and rf = rf]) auto

lemma sim_crash:
  assumes ok: "cluster_ok n A cl" and i: "i \<in> servers n"
    and mk: "Make n i (Copy (rf_persister (cl_node cl i))) r = Inr rf" and net: "net \<subseteq># cl_net cl"
  shows "simulated n K A cl (setNode i rf (setNet net cl))"
  using crash_simulates [OF i mk ok net] i net
  by (intro simulatedI [OF ok order_refl, where i = i and rf = rf]) (auto dest: mset_subset_eqD)

text \<open>The queues between Raft and its service do not matter to elections.\<close>

lemma simulated_queues:
  assumes "simulated n K A cl cl'" "cl_node cl'' = cl_node cl'" "cl_net cl'' = cl_net cl'"
    "cl_vote cl'' = cl_vote cl'"
  shows "simulated n K A cl cl''"
  using assms by (simp add: simulated_def elect_of_def cluster_ok_def)

lemma cstep_simulates:
  assumes "cstep n cl cl'" "cluster_ok n A cl" "votesOf n cl' \<subseteq> K"
  shows "simulated n K A cl cl'"
  using assms
proof (induction rule: cstep.induct)
  case (sendAppend i p cl aargs)
  then show ?case using Replicate_term(1) by (intro sim_send) auto
next
  case (recvAppend i p aargs cl now rf areply)
  from cluster_okD(2) [OF recvAppend.prems(1) recvAppend.hyps(1)]
  have p: "i \<in> servers n" "p \<in> servers n" "aeTerm aargs \<in> A" by simp_all
  with recvAppend AppendEntries_vote [OF recvAppend.hyps(2)] show ?case
    by (intro sim_receive [where t = "aeTerm aargs"]
        AppendEntries_node_ok [OF recvAppend.hyps(2)] cluster_okD(1)) auto
next
  case (appendReply i p aargs areply cl rf)
  moreover from this have "i \<in> servers n" using cluster_okD(2) by force
  ultimately show ?case
    by (intro sim_reply handleAppendReply_node_ok [OF appendReply.hyps(2)] cluster_okD(1)
        handleAppendReply_vote [OF appendReply.hyps(2)]) auto
next
  case (sendSnap i p cl sargs)
  then show ?case using Replicate_term(2) by (intro sim_send) auto
next
  case (recvSnap i p sargs cl now rf sreply msg)
  from cluster_okD(2) [OF recvSnap.prems(1) recvSnap.hyps(1)]
  have p: "i \<in> servers n" "p \<in> servers n" "isTerm sargs \<in> A" by simp_all
  with recvSnap InstallSnapshot_vote [OF recvSnap.hyps(2)]
  have "simulated n K A cl (setNode p rf (setNet
      (cl_net cl - {#SnapReq i p sargs#} + {#SnapRep i p sargs sreply#}) cl))"
    by (intro sim_receive [where t = "isTerm sargs"]
        InstallSnapshot_node_ok [OF recvSnap.hyps(2)] cluster_okD(1)) auto
  then show ?case by (rule simulated_queues) (simp_all add: setNode_def setNet_def)
next
  case (snapReply i p sargs sreply cl rf)
  moreover from this have "i \<in> servers n" using cluster_okD(2) by force
  ultimately show ?case
    by (intro sim_reply handleInstallReply_node_ok [OF snapReply.hyps(2)] cluster_okD(1)
        handleInstallReply_vote [OF snapReply.hyps(2)]) auto
next
  case (applyEntry i cl rf m)
  then have "simulated n K A cl (setNode i rf cl)"
    by (intro sim_local DoApply_node_ok [OF applyEntry.hyps(2)] cluster_okD(1) DoApply_vote)
  then show ?case by (rule simulated_queues) (simp_all add: setNode_def)
next
  case (installSnapshot i m cl rf b)
  then have "simulated n K A cl (setNode i rf cl)"
    by (intro sim_local CondInstallSnapshot_node_ok [OF installSnapshot.hyps(3)] cluster_okD(1)
        CondInstallSnapshot_vote)
  then show ?case by (rule simulated_queues) (simp_all add: setNode_def)
next
  case (loseMsgs net cl)
  then have "cluster_ok n A (setNet net cl)"
    by (intro cluster_ok_step [OF loseMsgs.prems(1) order_refl]) (auto dest: mset_subset_eqD)
  with psteps_lose [OF loseMsgs.hyps] show ?case by (auto simp: simulated_def)
next
  case (crash i cl r rf)
  then have "simulated n K A cl (setNode i rf (setNet (filter_mset (\<lambda>m. \<not> replyTo i m) (cl_net cl)) cl))"
    by (intro sim_crash) auto
  then show ?case by (rule simulated_queues) (simp_all add: setNode_def setNet_def)
next
  case (startCmd i cmd cl rf x)
  then show ?case by (intro sim_local Start_node_ok [OF startCmd.hyps(2)] cluster_okD(1) Start_vote)
next
  case (takeSnapshot i m cl snap rf)
  then show ?case
    by (intro sim_local Snapshot_node_ok [OF takeSnapshot.hyps(3)] cluster_okD(1) Snapshot_vote)
next
  case (elect i now r cl rf args)
  have "rf_votedFor rf = i"
    using DoElection_vote(4) [OF elect.hyps(2)] node_okD(2) [OF cluster_okD(1) [OF elect.prems(1) elect.hyps(1)]] by simp
  with elect show ?case by (intro sim_elect) (auto intro!: votesOf_mem)
next
  case (recvVote c v args cl now rf reply)
  have m: "c \<in> servers n" "v \<in> servers n" "rvCandidateId args = c"
    using cluster_okD(2) [OF recvVote.prems(1) recvVote.hyps(1)] by auto
  have "rf_votedFor rf = c" if "rvrVoteGranted reply"
    by (rule RequestVote_vote [OF recvVote.hyps(2)]) (use that m in auto)
  then have "(rf_term rf, v, rf_votedFor rf) \<in> K" if "rvrVoteGranted reply"
    using that m by (intro subsetD [OF recvVote.prems(2)] votesOf_mem) auto
  then show ?case using recvVote.hyps recvVote.prems(1) by (intro sim_recvVote)
qed (blast intro: sim_voteReply)

section \<open>Reachable clusters\<close>

lemma init_node:
  assumes "cluster_init n cl" "i \<in> servers n"
  shows "node_ok n i (cl_node cl i)" "rf_state (cl_node cl i) = Follower"
proof -
  from assms obtain r where mk: "Make n i MakePersister r = Inr (cl_node cl i)"
    by (auto simp: cluster_init_def)
  note rf = sym [OF trans [OF mk [symmetric] Make_fresh, THEN Inr_inject]]
  show "node_ok n i (cl_node cl i)" "rf_state (cl_node cl i) = Follower"
    unfolding rf [symmetric] by (simp_all add: node_ok_def persisted_def MakePersister_def)
qed

lemma init_ok: "cluster_init n cl \<Longrightarrow> cluster_ok n {} cl"
  by (simp add: cluster_ok_def init_node(1)) (simp add: cluster_init_def)

lemma init_elect_start: "cluster_init n cl \<Longrightarrow> elect_start (servers n) (elect_of cl {})"
  by (simp add: elect_start_def init_node(2)) (simp add: elect_of_def cluster_init_def)

definition cinv :: "nat \<Rightarrow> votes \<Rightarrow> (int \<times> int) set \<Rightarrow> ('c, 's) cluster \<Rightarrow> bool" where
  "cinv n K H cl \<longleftrightarrow> (\<exists>A. cluster_ok n A cl \<and> einv (servers n) (majority n) K H (elect_of cl A))"

lemma cstep_cinv:
  assumes "cstep n cl cl'" "cinv n K H cl" "votesOf n cl' \<subseteq> K"
  shows "cinv n K H cl'"
proof -
  obtain A where A: "cluster_ok n A cl" "einv (servers n) (majority n) K H (elect_of cl A)"
    using assms(2) by (auto simp: cinv_def)
  then obtain A' where "cluster_ok n A' cl'" "psteps n K (elect_of cl A) (elect_of cl' A')"
    using cstep_simulates [OF assms(1) _ assms(3)] by (auto simp: simulated_def)
  with A(2) maj.estep_star_einv show ?thesis unfolding servers_def cinv_def by blast
qed

lemma cinv_register: "cinv n K H cl \<Longrightarrow> K \<subseteq> K' \<Longrightarrow> cinv n K' H cl"
  unfolding cinv_def servers_def using maj.einv_register by blast

text \<open>
  A leader has the votes of a majority, is not the second leader of its term, and may be
  remembered; a candidate has not won the election of its term.
\<close>

lemma cinv_leader:
  assumes "cinv n K H cl" "i \<in> servers n" "rf_state (cl_node cl i) = Leader"
  shows "\<exists>Q. majority n Q \<and> (\<forall>v \<in> Q. (rf_term (cl_node cl i), v, i) \<in> K)"
    "(rf_term (cl_node cl i), j) \<in> H \<Longrightarrow> j = i" "cinv n K (insert (rf_term (cl_node cl i), i) H) cl"
proof -
  obtain A where A: "cluster_ok n A cl" "einv {0..<int n} (majority n) K H (elect_of cl A)"
    using assms(1) by (auto simp: cinv_def servers_def)
  have i: "i \<in> {0..<int n}" "role (elect_of cl A) i = Leader" using assms(2,3) by (auto simp: servers_def)
  show "\<exists>Q. majority n Q \<and> (\<forall>v \<in> Q. (rf_term (cl_node cl i), v, i) \<in> K)"
    using maj.einv_quorum [OF A(2) i] by (metis elect_of_simps(2))
  show "j = i" if "(rf_term (cl_node cl i), j) \<in> H"
    using maj.einv_safety [OF A(2) _ i] that by simp
  show "cinv n K (insert (rf_term (cl_node cl i), i) H) cl"
    using maj.einv_record [OF A(2) i] A(1) unfolding cinv_def servers_def by auto
qed

lemma cinv_candidate:
  assumes "cinv n K H cl" "i \<in> servers n" "rf_state (cl_node cl i) = Candidate"
  shows "(rf_term (cl_node cl i), i, i) \<in> K" "(rf_term (cl_node cl i), i) \<notin> H"
proof -
  obtain A where A: "einv {0..<int n} (majority n) K H (elect_of cl A)"
    using assms(1) by (auto simp: cinv_def servers_def)
  show "(rf_term (cl_node cl i), i, i) \<in> K" "(rf_term (cl_node cl i), i) \<notin> H"
    using maj.einv_candidate [OF A, of i] assms(2,3) by (auto simp: servers_def)
qed

lemma csteps_cinv: "(cstep n)\<^sup>*\<^sup>* cl cl' \<Longrightarrow> cinv n UNIV H cl \<Longrightarrow> cinv n UNIV H cl'"
  by (induction rule: rtranclp_induct) (auto intro: cstep_cinv)

lemma reachable_inv: "reachable n cl \<Longrightarrow> cinv n UNIV {} cl"
proof (induction rule: reachable.induct)
  case (init cl)
  then show ?case unfolding cinv_def using init_ok init_elect_start elect_start_einv by blast
qed (auto intro: cstep_cinv)

lemma reachable_node_ok: "reachable n cl \<Longrightarrow> i \<in> servers n \<Longrightarrow> node_ok n i (cl_node cl i)"
  using reachable_inv cluster_okD(1) unfolding cinv_def by blast

text \<open>A leader of a term, now or later, is the same server.\<close>

lemma reachable_election_safety:
  assumes "reachable n cl" "(cstep n)\<^sup>*\<^sup>* cl cl'" "i \<in> servers n" "j \<in> servers n"
    "rf_state (cl_node cl i) = Leader" "rf_state (cl_node cl' j) = Leader"
    "rf_term (cl_node cl i) = rf_term (cl_node cl' j)"
  shows "i = j"
proof -
  have "cinv n UNIV {(rf_term (cl_node cl i), i)} cl"
    using cinv_leader(3) [OF reachable_inv [OF assms(1)] assms(3,5)] .
  then have "cinv n UNIV {(rf_term (cl_node cl i), i)} cl'" by (rule csteps_cinv [OF assms(2)])
  from cinv_leader(2) [OF this assms(4,6)] assms(7) show ?thesis by simp
qed

end
