(* ===== verification/Raft_Run.thy ===== *)
theory Raft_Run
  imports Raft_Cluster
begin

text \<open>
  A run of three servers, evaluated step by step: server 0 times out, server 1 grants its vote,
  server 0 becomes leader of term 1 and accepts a command \<open>c\<close>. The run shows that the hypotheses of
  the cluster properties hold in states the program really reaches.
\<close>

definition run0 :: "('c, 's) cluster" where
  "run0 = \<lparr>cl_node = (\<lambda>i. projr (Make 3 i MakePersister 0)), cl_net = {#},
           cl_vote = (\<lambda>_ _. 0), cl_pend = (\<lambda>_. {#}), cl_applied = (\<lambda>_. [])\<rparr>"

definition runVote :: RequestVoteArgs where
  "runVote = \<lparr>rvTerm = 1, rvCandidateId = 0, rvLastLogIndex = 0, rvLastLogTerm = 0\<rparr>"

definition runReply :: RequestVoteReply where
  "runReply = \<lparr>rvrTerm = 0, rvrVoteGranted = True\<rparr>"

definition run1 :: "('c, 's) cluster" where
  "run1 = setNode 0 (fst (projr (DoElection 600000000 0 (cl_node run0 0))))
     (setNet (cl_net run0 + mset_set ((\<lambda>v. VoteReq 0 v runVote) ` (servers 3 - {0})))
       (run0\<lparr>cl_vote := (cl_vote (run0 :: ('c, 's) cluster))(0 := (cl_vote (run0 :: ('c, 's) cluster) 0)(rvTerm runVote := 1))\<rparr>))"

definition run2 :: "('c, 's) cluster" where
  "run2 = setNode 1 (fst (projr (RequestVote 600000000 runVote (cl_node run1 1))))
     (setNet (cl_net run1 - {#VoteReq 0 1 runVote#} + {#VoteRep 0 1 runVote runReply#}) run1)"

definition run3 :: "('c, 's) cluster" where
  "run3 = setNode 0 (fst (projr (handleVoteReply runVote runReply (cl_node run2 0)
       (cl_vote (run2 :: ('c, 's) cluster) 0 1))))
     (setNet (cl_net run2 - {#VoteRep 0 1 runVote runReply#})
       (run2\<lparr>cl_vote := (cl_vote (run2 :: ('c, 's) cluster))(0 := (cl_vote (run2 :: ('c, 's) cluster) 0)(rvTerm runVote := 2))\<rparr>))"

definition run4 :: "'c \<Rightarrow> ('c, 's) cluster" where
  "run4 c = setNode 0 (fst (projr (Start c (cl_node run3 0)))) run3"

lemmas run_nodes =
  DoElection_def RequestVote_def handleVoteReply_def winElection_def isAtLeastUpToDate_def
  IsMajority_def Majority_def Start_def NextElectionTimeout_def ElectionTimeoutMax_def
  ElectionTimeoutMin_def node_simps LogTail_def at_def put_def Make_fresh
  sentinel_def runVote_def runReply_def Let_def

lemma servers3: "servers 3 = {0, 1, 2}"
  by (auto simp: servers_def)

lemma run0_node: "Make 3 i MakePersister 0 = Inr (cl_node run0 i)"
  by (simp add: run0_def Make_fresh)

lemma reachable_run0: "reachable 3 run0"
proof -
  have "cluster_init 3 run0"
    using run0_node by (auto simp: cluster_init_def) (simp_all add: run0_def)
  then show ?thesis by (rule reachable.init)
qed

lemma cstep_run1: "cstep 3 run0 run1"
proof -
  have "DoElection 600000000 0 (cl_node run0 0) =
      Inr (fst (projr (DoElection 600000000 0 (cl_node run0 0))), Some runVote)"
    by (simp add: run0_def run_nodes)
  then show ?thesis unfolding run1_def
    by (intro cstep.elect) (auto simp: servers3)
qed

lemma reachable_run1: "reachable 3 run1"
  using reachable_run0 cstep_run1 by (rule reachable.step)

lemma cstep_run2: "cstep 3 run1 run2"
proof -
  have "RequestVote 600000000 runVote (cl_node run1 1) =
      Inr (fst (projr (RequestVote 600000000 runVote (cl_node run1 1))), runReply)"
    by (simp add: run0_def run1_def run_nodes)
  moreover have "VoteReq 0 1 runVote \<in># cl_net run1"
    by (simp add: run1_def servers3)
  ultimately show ?thesis unfolding run2_def by (intro cstep.recvVote)
qed

lemma reachable_run2: "reachable 3 run2"
  using reachable_run1 cstep_run2 by (rule reachable.step)

lemma cstep_run3: "cstep 3 (run2 :: ('c, 's) cluster) run3"
proof -
  have v: "cl_vote (run2 :: ('c, 's) cluster) 0 (rvTerm runVote) = 1"
    by (simp add: run2_def run1_def setNode_def setNet_def)
  have "handleVoteReply runVote runReply (cl_node (run2 :: ('c, 's) cluster) 0) (cl_vote (run2 :: ('c, 's) cluster) 0 (rvTerm runVote)) =
      Inr (fst (projr (handleVoteReply runVote runReply (cl_node (run2 :: ('c, 's) cluster) 0)
        (cl_vote (run2 :: ('c, 's) cluster) 0 (rvTerm runVote)))), 2)"
    unfolding v by (simp add: run0_def run1_def run2_def run_nodes)
  moreover have "VoteRep 0 1 runVote runReply \<in># cl_net (run2 :: ('c, 's) cluster)" by (simp add: run2_def)
  moreover have "cl_vote (run2 :: ('c, 's) cluster) 0 1 = cl_vote (run2 :: ('c, 's) cluster) 0 (rvTerm runVote)" by (simp add: runVote_def)
  ultimately show ?thesis unfolding run3_def by (simp only:) (rule cstep.voteReply)
qed

lemma reachable_run3: "reachable 3 run3"
  using reachable_run2 cstep_run3 by (rule reachable.step)

lemma run3_leader: "rf_state (cl_node run2 0) = Candidate" "rf_state (cl_node run3 0) = Leader"
  "rf_term (cl_node run3 0) = 1" "rf_votedFor (cl_node run3 0) = 0"
  by (simp_all add: run0_def run1_def run2_def run3_def run_nodes setNode_def setNet_def)

lemma cstep_run4: "cstep 3 run3 (run4 c)"
proof -
  have "\<exists>x. Start c (cl_node run3 0) = Inr (fst (projr (Start c (cl_node run3 0))), x)"
    by (simp add: run0_def run1_def run2_def run3_def run_nodes setNode_def setNet_def)
  then show ?thesis unfolding run4_def
    by (elim exE) (rule cstep.startCmd, auto simp: servers3)
qed

lemma reachable_run4: "reachable 3 (run4 c)"
  using reachable_run3 cstep_run4 by (rule reachable.step)

lemma run4_leader: "rf_state (cl_node (run4 c) 0) = Leader"
  by (simp add: run0_def run1_def run2_def run3_def run4_def run_nodes setNode_def setNet_def)

lemma run4_log:
  "rf_log (cl_node (run4 c) 0) = [sentinel, \<lparr>eTerm = 1, eIndex = 1, eCommand = Some c\<rparr>]"
  "rf_term (cl_node (run4 c) 0) = 1" "rf_votedFor (cl_node (run4 c) 0) = 0"
  by (simp_all add: run0_def run1_def run2_def run3_def run4_def run_nodes setNode_def setNet_def)

text \<open>The runs with a string as the command.\<close>

abbreviation demo1 :: "(string, nat) cluster" where
  "demo1 \<equiv> run1"

abbreviation demo2 :: "(string, nat) cluster" where
  "demo2 \<equiv> run2"

abbreviation demo3 :: "(string, nat) cluster" where
  "demo3 \<equiv> run3"

abbreviation demo4 :: "(string, nat) cluster" where
  "demo4 \<equiv> run4 ''x''"

lemma demo_reachable:
  "reachable 3 demo1" "reachable 3 demo2" "cstep 3 demo2 demo3" "reachable 3 demo4"
  by (rule reachable_run1 reachable_run2 cstep_run3 reachable_run4)+

lemma demo_leader: "rf_state (cl_node demo2 0) = Candidate" "rf_state (cl_node demo3 0) = Leader"
  "rf_term (cl_node demo3 0) = 1" "rf_state (cl_node demo4 0) = Leader"
  by (rule run3_leader run4_leader)+

lemma demo_log: "rf_log (cl_node demo4 0) = [sentinel, \<lparr>eTerm = 1, eIndex = 1, eCommand = Some ''x''\<rparr>]"
  "rf_term (cl_node demo4 0) = 1" "rf_votedFor (cl_node demo4 0) = 0"
  by (rule run4_log)+

end
