(* ===== verification/Raft_Replication.thy ===== *)
theory Raft_Replication
  imports Raft_Node
begin

text \<open>
  What the replication of the log does on well-formed logs: the receiver of
  \<^verbatim>\<open>AppendEntries\<close> ends with the reference merge of its log and the received entries, the
  leader sends the exact suffix of its log, commits only what a majority holds in the current
  term and backs up after a failed consistency check; committed entries are applied in order
  and once; snapshots replace a prefix of the log and nothing else.
\<close>

section \<open>Receiving entries\<close>

lemma followSender_log [simp]:
  "rf_log (followSender t rf) = rf_log rf" "rf_commitIndex (followSender t rf) = rf_commitIndex rf"
  "rf_lastApplied (followSender t rf) = rf_lastApplied rf"
  by (auto simp: followSender_def node_simps)

lemma followSender_term: "rf_term rf \<le> t \<Longrightarrow> rf_term (followSender t rf) = t"
  by (cases "rf_state rf") (auto simp: followSender_def node_simps)

lemma logMismatch_eq:
  assumes "l \<noteq> []"
  shows "logMismatch l args = Inr (
     let p = aePrevLogIndex args in
     if p \<le> 0 \<or> p < base l then None
     else if tailIndex l < p then Some (0, eIndex (last l))
     else let t = eTerm (l ! nat (p - base l)) in
       if t \<noteq> aePrevLogTerm args then
         Some (t, case find (\<lambda>e. eTerm e = t) l of None \<Rightarrow> 0 | Some e \<Rightarrow> eIndex e)
       else None)"
  using assms
  by (auto simp: logMismatch_def GetLogAtIndex_eq base_def [symmetric] Let_def)

text \<open>The commit index after a call of a leader that has committed up to \<open>lc\<close>.\<close>

definition newCommit :: "int \<Rightarrow> int \<Rightarrow> int \<Rightarrow> int" where
  "newCommit c lc tailIx = (if c < lc then min lc tailIx else c)"

lemma AppendEntries_accepts:
  assumes "rf_term rf \<le> aeTerm args" "rf_log rf \<noteq> []"
    and "logMismatch (rf_log rf) args = Inr None"
    and "l = rf_log rf \<and> aeEntries args = [] \<or>
         aeEntries args \<noteq> [] \<and> mergeEntries (rf_log rf) (aeEntries args) = Inr l" and "l \<noteq> []"
  shows "\<exists>rf' reply. AppendEntries now args rf = Inr (rf', reply) \<and> aerSuccess reply \<and>
     aerTerm reply = rf_term rf \<and> rf_log rf' = l \<and> rf_term rf' = aeTerm args \<and>
     rf_commitIndex rf' = newCommit (rf_commitIndex rf) (aeLeaderCommit args) (eIndex (last l))"
proof -
  let ?rf1 = "followSender (aeTerm args) (rf\<lparr>rf_lastHeartbeat := now\<rparr>)"
  have "rf_term ?rf1 = aeTerm args" using assms(1) by (intro followSender_term) simp
  with assms show ?thesis
    by (auto simp: AppendEntries_def Let_def persist_def newCommit_def MinInt_def min_def)
qed

lemma AppendEntries_refuses:
  assumes "rf_term rf \<le> aeTerm args"
    and "logMismatch (rf_log rf) args = Inr (Some (ct, ci))"
  shows "AppendEntries now args rf = Inr (followSender (aeTerm args) (rf\<lparr>rf_lastHeartbeat := now\<rparr>),
     \<lparr>aerTerm = rf_term rf, aerSuccess = False, aerConflictingTerm = ct, aerConflictingIndex = ci\<rparr>)"
  using assms by (simp add: AppendEntries_def Let_def)

text \<open>Whatever contiguous entries arrive, the merge neither panics nor breaks the log.\<close>

lemma mergeEntries_head_conflict:
  assumes "wf_log l" "contig (p + 1) es" "p < base l" "base l \<le> p + int (length es)"
    and "eTerm (es ! nat (base l - p - 1)) \<noteq> eTerm (hd l)"
  shows "mergeEntries l es = Inr (drop (nat (base l - p - 1)) es)"
proof -
  define d where "d = nat (base l - p - 1)"
  have d: "d < length es" "p + 1 + int d = base l" using assms by (auto simp: d_def)
  have es: "es = take d es @ es ! d # drop (Suc d) es" using d by (simp add: id_take_nth_drop)
  have e: "eIndex (es ! d) = base l" using assms(2) d by (auto simp: contig_def)
  have l0: "0 < length l" "l ! 0 = hd l" using wf_logD(1) [OF assms(1)] by (simp_all add: hd_conv_nth)
  have "mergeLoop l 0 0 es = mergeLoop l (int d) 0 (es ! d # drop (Suc d) es)"
    using mergeLoop_before [of l "p + 1" "take d es" 0 0 "es ! d # drop (Suc d) es"] assms(1,2) d es
    by (auto simp: contig_take min_def)
  also have "\<dots> = Inr ([], int d)"
    using l0 e assms(5) by (subst mergeLoop_at [OF assms(1), of 0]) (auto simp: d_def [symmetric])
  finally have loop: "mergeLoop l 0 0 es = Inr ([], int d)" .
  moreover have ne: "es \<noteq> []" using d by auto
  moreover have "base l \<le> eIndex (last es)" using contig_last [OF assms(2) ne] assms(4) by simp
  ultimately show ?thesis
    using assms(1) by (simp add: mergeEntries_def base_def [symmetric] wf_logD d_def)
qed

lemma wf_log_drop: "contig q es \<Longrightarrow> k < length es \<Longrightarrow> wf_log (drop k es) \<and> base (drop k es) = q + int k"
  by (auto simp: wf_log_def base_def hd_drop_conv_nth contig_def algebra_simps)

lemma wf_log_Cons_merge: "wf_log l \<Longrightarrow> contig (base l + 1) es \<Longrightarrow> wf_log (hd l # mergeSpec (tl l) es)"
  by (cases l) (auto simp: wf_log_Cons base_def intro: contig_mergeSpec)

lemma wf_log_take_merge:
  assumes "wf_log l" "contig (p + 1) es" "base l \<le> p" "p \<le> tailIndex l"
  shows "wf_log (take (nat (p + 1 - base l)) l @ mergeSpec (drop (nat (p + 1 - base l)) l) es)"
    and "base (take (nat (p + 1 - base l)) l @ mergeSpec (drop (nat (p + 1 - base l)) l) es) = base l"
proof -
  define k where "k = nat (p + 1 - base l)"
  have k: "base l + int k = p + 1" "k \<le> length l" "0 < k" using assms by (auto simp: k_def tailIndex_def)
  have ne: "take k l \<noteq> []" using k wf_logD(1) [OF assms(1)] by auto
  have "contig (base l + int k) (drop k l)" using contig_drop wf_logD(2) [OF assms(1)] by blast
  then have "contig (base l + int k) (mergeSpec (drop k l) es)"
    using assms(2) k(1) by (intro contig_mergeSpec) simp_all
  moreover have "tailIndex (take k l) + 1 = base l + int k"
    using k by (simp add: tailIndex_def)
  ultimately show "wf_log (take (nat (p + 1 - base l)) l @ mergeSpec (drop (nat (p + 1 - base l)) l) es)"
    unfolding k_def [symmetric] using k(3) assms(1) by (intro wf_log_append wf_log_take) simp_all
  show "base (take (nat (p + 1 - base l)) l @ mergeSpec (drop (nat (p + 1 - base l)) l) es) = base l"
    unfolding k_def [symmetric] using ne k(3) by simp
qed

lemma mergeEntries_wf:
  assumes "wf_log l" "contig (p + 1) es" "es \<noteq> []" "p \<le> tailIndex l"
  obtains l' where "mergeEntries l es = Inr l'" "wf_log l'" "base l' = base l"
proof -
  consider (inside) "base l \<le> p" | (old) "p + int (length es) < base l"
    | (overlap) "p < base l" "base l \<le> p + int (length es)" by linarith
  then show thesis
  proof cases
    case inside
    with that mergeEntries_spec [OF assms(1-3) inside assms(4)] wf_log_take_merge [OF assms(1,2) inside assms(4)]
    show thesis by blast
  next
    case old
    then show thesis
      using that mergeEntries_old [of l es] contig_last [OF assms(2,3)] assms(1,3) by auto
  next
    case overlap
    show thesis
    proof (cases "eTerm (es ! nat (base l - p - 1)) = eTerm (hd l)")
      case True
      have "contig (base l + 1) (drop (nat (base l - p)) es)"
        using contig_drop [OF assms(2), of "nat (base l - p)"] overlap by (simp add: algebra_simps)
      then show thesis
        using that mergeEntries_overlap [OF assms(1,2) overlap True] wf_log_Cons_merge [OF assms(1)]
        by (simp add: base_def)
    next
      case False
      then show thesis
        using that mergeEntries_head_conflict [OF assms(1,2) overlap False]
          wf_log_drop [OF assms(2), of "nat (base l - p - 1)"] overlap by auto
    qed
  qed
qed


text \<open>The consistency check at an index inside the log.\<close>

definition agreesAt :: "'c LogEntry list \<Rightarrow> int \<Rightarrow> int \<Rightarrow> bool" where
  "agreesAt l p t \<longleftrightarrow> base l \<le> p \<and> p \<le> tailIndex l \<and> eTerm (l ! nat (p - base l)) = t"

lemma agreesAt_check: "l \<noteq> [] \<Longrightarrow> agreesAt l (aePrevLogIndex args) (aePrevLogTerm args) \<Longrightarrow>
    logMismatch l args = Inr None"
  by (auto simp: logMismatch_eq agreesAt_def Let_def)

abbreviation mergeAfter :: "'c LogEntry list \<Rightarrow> int \<Rightarrow> 'c LogEntry list \<Rightarrow> 'c LogEntry list" where
  "mergeAfter l p es \<equiv> take (nat (p + 1 - base l)) l @ mergeSpec (drop (nat (p + 1 - base l)) l) es"

lemma mergeAfter_Nil: "mergeAfter l p [] = l"
  by simp

text \<open>A one-entry log and a call with two entries, for the concrete instances below.\<close>

definition sampleNode :: "(string, nat) Raft" where
  "sampleNode = \<lparr>rf_peers = 3, rf_persister = MakePersister, rf_me = 1, rf_dead = False,
     rf_state = Follower, rf_term = 1, rf_votedFor = -1,
     rf_log = [sentinel, \<lparr>eTerm = 1, eIndex = 1, eCommand = Some ''a''\<rparr>,
               \<lparr>eTerm = 1, eIndex = 2, eCommand = Some ''b''\<rparr>],
     rf_lastHeartbeat = 0, rf_electionTimeout = 500000000, rf_commitIndex = 0,
     rf_lastApplied = 0, rf_nextIndex = [1, 1, 1], rf_matchIndex = [0, 0, 0]\<rparr>"

definition sampleArgs :: "string AppendEntriesArgs" where
  "sampleArgs = \<lparr>aeTerm = 2, aeLeaderId = 0, aePrevLogIndex = 1, aePrevLogTerm = 1,
     aeEntries = [\<lparr>eTerm = 2, eIndex = 2, eCommand = Some ''c''\<rparr>,
                  \<lparr>eTerm = 2, eIndex = 3, eCommand = Some ''d''\<rparr>],
     aeLeaderCommit = 2\<rparr>"

lemma sample_wf: "wf_log (rf_log sampleNode)" "base (rf_log sampleNode) = 0"
  "tailIndex (rf_log sampleNode) = 2" "contig 2 (aeEntries sampleArgs)"
  "agreesAt (rf_log sampleNode) 1 1"
  by (simp_all add: sampleNode_def sampleArgs_def wf_log_def base_def tailIndex_def sentinel_def
      agreesAt_def)

lemma AppendEntries_merge_aux:
  assumes "wf_log (rf_log rf)" "contig (aePrevLogIndex args + 1) (aeEntries args)"
    and "rf_term rf \<le> aeTerm args"
    and "agreesAt (rf_log rf) (aePrevLogIndex args) (aePrevLogTerm args)"
  shows "\<exists>rf' reply. AppendEntries now args rf = Inr (rf', reply) \<and> aerSuccess reply \<and>
     rf_log rf' = mergeAfter (rf_log rf) (aePrevLogIndex args) (aeEntries args) \<and>
     rf_term rf' = aeTerm args \<and>
     rf_commitIndex rf' = newCommit (rf_commitIndex rf) (aeLeaderCommit args) (tailIndex (rf_log rf'))"
proof -
  let ?l = "mergeAfter (rf_log rf) (aePrevLogIndex args) (aeEntries args)"
  have p: "base (rf_log rf) \<le> aePrevLogIndex args" "aePrevLogIndex args \<le> tailIndex (rf_log rf)"
    using assms(4) by (auto simp: agreesAt_def)
  note wf = wf_log_take_merge [OF assms(1,2) p]
  have "\<exists>rf' reply. AppendEntries now args rf = Inr (rf', reply) \<and> aerSuccess reply \<and>
     aerTerm reply = rf_term rf \<and> rf_log rf' = ?l \<and> rf_term rf' = aeTerm args \<and>
     rf_commitIndex rf' = newCommit (rf_commitIndex rf) (aeLeaderCommit args) (eIndex (last ?l))"
    by (rule AppendEntries_accepts [OF assms(3) wf_logD(1) [OF assms(1)]
          agreesAt_check [OF wf_logD(1) [OF assms(1)] assms(4)] _ wf_logD(1) [OF wf(1)]])
      (use mergeEntries_spec [OF assms(1,2) _ p] in \<open>cases "aeEntries args"; simp\<close>)
  then show ?thesis using wf_log_last [OF wf(1)] by auto
qed

text \<open>
  C7. Receiving entries: when the receiver's log agrees with the call at the previous entry, the
  handler succeeds, adopts the term, and its new log is the old log up to that entry followed
  by the reference merge of the rest with the received entries (keep what agrees, cut at the
  first conflict, append what is missing). The commit index moves to the leader's, at most to
  the end of the log.
\<close>

theorem append_entries_merge:
  assumes "wf_log (rf_log rf)" "contig (aePrevLogIndex args + 1) (aeEntries args)"
    and "rf_term rf \<le> aeTerm args"
    and "agreesAt (rf_log rf) (aePrevLogIndex args) (aePrevLogTerm args)"
  shows "\<exists>rf' reply. AppendEntries now args rf = Inr (rf', reply) \<and> aerSuccess reply \<and>
     rf_log rf' = take (nat (aePrevLogIndex args + 1 - base (rf_log rf))) (rf_log rf) @
        mergeSpec (drop (nat (aePrevLogIndex args + 1 - base (rf_log rf))) (rf_log rf)) (aeEntries args) \<and>
     rf_term rf' = aeTerm args \<and>
     rf_commitIndex rf' =
       (if rf_commitIndex rf < aeLeaderCommit args
        then min (aeLeaderCommit args) (tailIndex (rf_log rf')) else rf_commitIndex rf)"
  using AppendEntries_merge_aux [OF assms, of now] by (simp add: newCommit_def)

lemma append_entries_merge_witness:
  "\<exists>rf' reply. AppendEntries 5 sampleArgs sampleNode = Inr (rf', reply) \<and> aerSuccess reply \<and>
     map eCommand (rf_log rf') = [None, Some ''a'', Some ''c'', Some ''d''] \<and>
     rf_term rf' = 2 \<and> rf_commitIndex rf' = 2"
proof -
  have a: "rf_term sampleNode \<le> aeTerm sampleArgs"
    "contig (aePrevLogIndex sampleArgs + 1) (aeEntries sampleArgs)"
    "agreesAt (rf_log sampleNode) (aePrevLogIndex sampleArgs) (aePrevLogTerm sampleArgs)"
    using sample_wf by (simp_all add: sampleNode_def sampleArgs_def)
  from append_entries_merge [OF sample_wf(1) a(2,1,3), of 5] sample_wf(2) show ?thesis
    by (auto simp: sampleNode_def sampleArgs_def sentinel_def base_def tailIndex_def)
qed

lemma AppendEntries_total:
  assumes "wf_log (rf_log rf)" "contig (aePrevLogIndex args + 1) (aeEntries args)"
    and "0 \<le> base (rf_log rf)" "0 \<le> aePrevLogIndex args"
  shows "\<exists>rf' reply. AppendEntries now args rf = Inr (rf', reply) \<and>
     wf_log (rf_log rf') \<and> base (rf_log rf') = base (rf_log rf)"
proof (cases "aeTerm args < rf_term rf")
  case True
  with assms(1) show ?thesis by (simp add: AppendEntries_def Let_def)
next
  case False
  have ne: "rf_log rf \<noteq> []" using assms(1) by auto
  show ?thesis
  proof (cases "logMismatch (rf_log rf) args = Inr None")
    case no: False
    then obtain ct ci where "logMismatch (rf_log rf) args = Inr (Some (ct, ci))"
      using logMismatch_eq [OF ne, of args] by (auto simp: Let_def split: if_splits)
    from AppendEntries_refuses [OF _ this] False assms(1) show ?thesis by simp
  next
    case ok: True
    have p: "aePrevLogIndex args \<le> tailIndex (rf_log rf)"
      using ok assms(3) base_le_tailIndex [OF ne] logMismatch_eq [OF ne, of args]
      by (force simp: Let_def split: if_splits)
    obtain l where l: "wf_log l" "base l = base (rf_log rf)"
      "l = rf_log rf \<and> aeEntries args = [] \<or>
       aeEntries args \<noteq> [] \<and> mergeEntries (rf_log rf) (aeEntries args) = Inr l"
      using mergeEntries_wf [OF assms(1,2) _ p] assms(1) by metis
    from AppendEntries_accepts [OF _ ne ok l(3) wf_logD(1) [OF l(1)], of now] False l(1,2)
    show ?thesis by fastforce
  qed
qed

text \<open>
  No panic and no gap: on a well-formed log a call with consecutive entries after a
  non-negative index always returns, whatever its term, its previous entry and its overlap with
  the receiver's snapshot, and leaves a well-formed log with the same first index.
\<close>

lemma append_entries_total:
  assumes "wf_log (rf_log rf)" "contig (aePrevLogIndex args + 1) (aeEntries args)"
    and "0 \<le> base (rf_log rf)" "0 \<le> aePrevLogIndex args"
  shows "\<exists>rf' reply. AppendEntries now args rf = Inr (rf', reply) \<and>
     wf_log (rf_log rf') \<and> base (rf_log rf') = base (rf_log rf)"
  using assms by (rule AppendEntries_total)

lemma append_entries_total_witness:
  "\<exists>rf' reply. AppendEntries 5 sampleArgs sampleNode = Inr (rf', reply) \<and>
     wf_log (rf_log rf') \<and> base (rf_log rf') = 0"
  using append_entries_total [OF sample_wf(1), of sampleArgs 5] sample_wf(2,4)
  by (simp add: sampleArgs_def)


text \<open>
  Refusal: a call of an older term changes nothing, and a call whose previous entry the log
  does not hold leaves the log and the commit index; the reply then names the conflict, either
  the end of a log that is too short or the first index of the term found at that entry.
\<close>

lemma append_entries_refusal:
  assumes "wf_log (rf_log rf)" "0 \<le> base (rf_log rf)" "aePrevLogIndex args \<ge> base (rf_log rf)"
    and "aePrevLogIndex args > 0"
    and "aeTerm args < rf_term rf \<or>
         \<not> agreesAt (rf_log rf) (aePrevLogIndex args) (aePrevLogTerm args)"
  shows "\<exists>rf' reply. AppendEntries now args rf = Inr (rf', reply) \<and> \<not> aerSuccess reply \<and>
     rf_log rf' = rf_log rf \<and> rf_commitIndex rf' = rf_commitIndex rf \<and>
     (aeTerm args < rf_term rf \<longrightarrow> rf' = rf) \<and>
     (rf_term rf \<le> aeTerm args \<and> tailIndex (rf_log rf) < aePrevLogIndex args \<longrightarrow>
        aerConflictingTerm reply = 0 \<and> aerConflictingIndex reply = tailIndex (rf_log rf)) \<and>
     (rf_term rf \<le> aeTerm args \<and> aePrevLogIndex args \<le> tailIndex (rf_log rf) \<longrightarrow>
        aerConflictingTerm reply =
          eTerm (rf_log rf ! nat (aePrevLogIndex args - base (rf_log rf))) \<and>
        aerConflictingTerm reply \<noteq> aePrevLogTerm args \<and>
        (\<exists>k < length (rf_log rf). aerConflictingIndex reply = base (rf_log rf) + int k \<and>
           eTerm (rf_log rf ! k) = aerConflictingTerm reply \<and>
           (\<forall>j < k. eTerm (rf_log rf ! j) \<noteq> aerConflictingTerm reply)))"
proof (cases "aeTerm args < rf_term rf")
  case True
  then show ?thesis by (simp add: AppendEntries_def Let_def)
next
  case False
  let ?l = "rf_log rf" and ?p = "aePrevLogIndex args"
  have ne: "?l \<noteq> []" using assms(1) by auto
  note no = assms(5) [unfolded agreesAt_def]
  show ?thesis
  proof (cases "tailIndex ?l < ?p")
    case True
    then have "logMismatch ?l args = Inr (Some (0, tailIndex ?l))"
      using logMismatch_eq [OF ne, of args] assms(3,4) wf_log_last [OF assms(1)] by (simp add: Let_def)
    from AppendEntries_refuses [OF _ this] False True show ?thesis by simp
  next
    case inside: False
    let ?t = "eTerm (?l ! nat (?p - base ?l))"
    have len: "nat (?p - base ?l) < length ?l" using inside assms(3) by (auto simp: tailIndex_def)
    have t: "?t \<noteq> aePrevLogTerm args" using no False inside assms(3) by auto
    obtain e where e: "find (\<lambda>e. eTerm e = ?t) ?l = Some e"
      using nth_mem [OF len] by (cases "find (\<lambda>e. eTerm e = ?t) ?l") (auto simp: find_None_iff)
    then obtain k where k: "k < length ?l" "eTerm (?l ! k) = ?t" "e = ?l ! k"
      "\<forall>j < k. eTerm (?l ! j) \<noteq> ?t" by (auto simp: find_Some_iff)
    have "logMismatch ?l args = Inr (Some (?t, eIndex e))"
      using logMismatch_eq [OF ne, of args] assms(3,4) inside t e by (simp add: Let_def)
    from AppendEntries_refuses [OF _ this] False inside t k wf_log_nth [OF assms(1) k(1)]
    show ?thesis by (auto intro!: exI [of _ k])
  qed
qed

lemma append_entries_refusal_witness:
  "\<exists>rf' reply. AppendEntries 5 (sampleArgs\<lparr>aePrevLogIndex := 2, aePrevLogTerm := 2\<rparr>) sampleNode
       = Inr (rf', reply) \<and> \<not> aerSuccess reply \<and> rf_log rf' = rf_log sampleNode \<and>
     aerConflictingTerm reply = 1 \<and> aerConflictingIndex reply = 1"
proof -
  have no: "\<not> agreesAt (rf_log sampleNode) 2 2"
    by (simp add: agreesAt_def sampleNode_def base_def sentinel_def)
  have term1: "eTerm (rf_log sampleNode ! 2) = 1" by (simp add: sampleNode_def)
  have k1: "k = 1" if "k < length (rf_log sampleNode)" "eTerm (rf_log sampleNode ! k) = 1"
    "\<forall>j < k. eTerm (rf_log sampleNode ! j) \<noteq> 1" for k
  proof -
    have "k \<noteq> 0" using that(2) by (cases k) (simp_all add: sampleNode_def sentinel_def)
    moreover have "\<not> 1 < k" using that(3) by (auto simp: sampleNode_def dest: spec [where x = 1])
    ultimately show ?thesis by simp
  qed
  have t: "rf_term sampleNode \<le> 2" by (simp add: sampleNode_def)
  show ?thesis
    using append_entries_refusal [OF sample_wf(1), of "sampleArgs\<lparr>aePrevLogIndex := 2, aePrevLogTerm := 2\<rparr>" 5]
      sample_wf(2,3) no term1 k1 t
    by (fastforce simp: sampleArgs_def)
qed

text \<open>
  Repeated and delayed calls: handling the same call a second time leaves the log that the
  first handling produced, and a call whose entries the log already holds (with further entries
  after them) leaves the log as it is: nothing acknowledged is cut off by a late copy.
\<close>

lemma append_entries_repeat:
  assumes "wf_log (rf_log rf)" "contig (aePrevLogIndex args + 1) (aeEntries args)"
    and "rf_term rf \<le> aeTerm args"
    and "agreesAt (rf_log rf) (aePrevLogIndex args) (aePrevLogTerm args)"
  shows "\<exists>rf1 r1 rf2 r2. AppendEntries now args rf = Inr (rf1, r1) \<and>
     AppendEntries later args rf1 = Inr (rf2, r2) \<and> aerSuccess r2 \<and> rf_log rf2 = rf_log rf1 \<and>
     (map eTerm (aeEntries args) = take (length (aeEntries args))
        (map eTerm (drop (nat (aePrevLogIndex args + 1 - base (rf_log rf))) (rf_log rf))) \<longrightarrow>
      rf_log rf1 = rf_log rf)"
proof -
  let ?p = "aePrevLogIndex args" and ?l = "rf_log rf" and ?es = "aeEntries args"
  have p: "base ?l \<le> ?p" "?p \<le> tailIndex ?l" using assms(4) by (auto simp: agreesAt_def)
  define k where "k = nat (?p + 1 - base ?l)"
  have k: "0 < k" "k \<le> length ?l" using p by (auto simp: k_def tailIndex_def)
  obtain rf1 r1 where 1: "AppendEntries now args rf = Inr (rf1, r1)" "rf_log rf1 = mergeAfter ?l ?p ?es"
    "rf_term rf1 = aeTerm args"
    using AppendEntries_merge_aux [OF assms, of now] by auto
  note wf1 = wf_log_take_merge [OF assms(1,2) p, folded 1(2)]
  have pos: "nat (?p - base ?l) < k" using k by (auto simp: k_def)
  have ag: "agreesAt (rf_log rf1) ?p (aePrevLogTerm args)"
    using assms(4) pos k wf1(2) unfolding agreesAt_def
    by (simp add: 1(2) k_def [symmetric] nth_append tailIndex_def)
  obtain rf2 r2 where 2: "AppendEntries later args rf1 = Inr (rf2, r2)" "aerSuccess r2"
    "rf_log rf2 = mergeAfter (rf_log rf1) ?p ?es"
    using AppendEntries_merge_aux [OF wf1(1) assms(2) _ ag, of later] 1(3) by auto
  have "rf_log rf2 = rf_log rf1"
    unfolding 2(3) wf1(2) using 1(2) k by (simp add: k_def [symmetric] mergeSpec_idem)
  moreover have "rf_log rf1 = ?l"
    if "map eTerm ?es = take (length ?es) (map eTerm (drop k ?l))"
    using mergeSpec_stale [OF that] 1(2) by (simp add: k_def [symmetric])
  ultimately show ?thesis using 1 2 k_def by blast
qed

lemma append_entries_repeat_witness:
  "\<exists>rf1 r1 rf2 r2. AppendEntries 5 sampleArgs sampleNode = Inr (rf1, r1) \<and>
     AppendEntries 6 sampleArgs rf1 = Inr (rf2, r2) \<and> aerSuccess r2 \<and> rf_log rf2 = rf_log rf1"
proof -
  have a: "contig (aePrevLogIndex sampleArgs + 1) (aeEntries sampleArgs)"
    "rf_term sampleNode \<le> aeTerm sampleArgs"
    "agreesAt (rf_log sampleNode) (aePrevLogIndex sampleArgs) (aePrevLogTerm sampleArgs)"
    using sample_wf by (simp_all add: sampleNode_def sampleArgs_def)
  show ?thesis using append_entries_repeat [OF sample_wf(1) a, of 5 6] by blast
qed

end
