(* ===== verification/Raft_Leader.thy ===== *)
theory Raft_Leader
  imports Raft_Replication
begin

text \<open>
  The leader's side of replication: what \<^verbatim>\<open>Replicate\<close> sends, how \<^verbatim>\<open>Sync\<close> advances the
  commit index and backs up, what \<^verbatim>\<open>Start\<close> appends.
\<close>

section \<open>Sending the log\<close>

text \<open>The entry of a well-formed log at an index.\<close>

lemma GetLogAtIndex_wf:
  "wf_log l \<Longrightarrow> base l \<le> i \<Longrightarrow> i \<le> tailIndex l \<Longrightarrow>
   \<exists>e. GetLogAtIndex l i = Inr (Some e) \<and> e = l ! nat (i - base l) \<and> eIndex e = i"
  by (auto simp: GetLogAtIndex_in wf_logD wf_log_nth tailIndex_def)

lemma mapR_suffix:
  assumes "wf_log l" "base l \<le> i" "i \<le> tailIndex l + 1"
  shows "mapR (\<lambda>j. rbind (GetLogAtIndex l j) (\<lambda>p.
            case p of None \<Rightarrow> Inl (Panic ''atIndex == nil'') | Some entry \<Rightarrow> Inr entry))
          [i..tailIndex l] = Inr (drop (nat (i - base l)) l)"
proof -
  have ne: "l \<noteq> []" using assms(1) by auto
  have "map (\<lambda>j. l ! nat (j - base l)) [i..tailIndex l] = drop (nat (i - base l)) l"
    by (rule nth_equalityI)
      (use assms in \<open>auto simp: tailIndex_def nat_add_distrib algebra_simps intro!: arg_cong [of _ _ "(!) l"]\<close>)
  moreover have "mapR (\<lambda>j. rbind (GetLogAtIndex l j) (\<lambda>p.
            case p of None \<Rightarrow> Inl (Panic ''atIndex == nil'') | Some entry \<Rightarrow> Inr entry))
          [i..tailIndex l] = Inr (map (\<lambda>j. l ! nat (j - base l)) [i..tailIndex l])"
    using assms by (intro mapR_total) (simp add: GetLogAtIndex_in ne)
  ultimately show ?thesis by simp
qed

lemma Replicate_append:
  assumes "wf_log (rf_log rf)" "rf_state rf = Leader"
    and "0 \<le> p" "p < int (length (rf_nextIndex rf))"
    and ni: "ni = rf_nextIndex rf ! nat p" "base (rf_log rf) < ni" "ni \<le> tailIndex (rf_log rf) + 1"
  shows "Replicate p rf = Inr (Some (CallAppendEntries
     \<lparr>aeTerm = rf_term rf, aeLeaderId = rf_me rf, aePrevLogIndex = ni - 1,
      aePrevLogTerm = eTerm (rf_log rf ! nat (ni - 1 - base (rf_log rf))),
      aeEntries = drop (nat (ni - base (rf_log rf))) (rf_log rf),
      aeLeaderCommit = rf_commitIndex rf\<rparr>))"
proof -
  have ne: "rf_log rf \<noteq> []" using assms(1) by auto
  obtain e where e: "GetLogAtIndex (rf_log rf) (ni - 1) = Inr (Some e)"
    "e = rf_log rf ! nat (ni - 1 - base (rf_log rf))" "eIndex e = ni - 1"
    using GetLogAtIndex_wf [OF assms(1), of "ni - 1"] ni(2,3) by auto
  show ?thesis
    using assms(2-4) ni e mapR_suffix [OF assms(1), of ni] wf_log_last [OF assms(1)]
    by (simp add: Replicate_def at_in_range [of p] base_def [symmetric] ne deref_def)
qed

lemma Replicate_snapshot:
  assumes "rf_log rf \<noteq> []" "rf_state rf = Leader" "0 \<le> p" "p < int (length (rf_nextIndex rf))"
    and "rf_nextIndex rf ! nat p \<le> base (rf_log rf)"
  shows "Replicate p rf = Inr (Some (CallInstallSnapshot
     \<lparr>isTerm = rf_term rf, isLeaderId = rf_me rf, isLastIncludedIndex = base (rf_log rf),
      isLastIncludedTerm = eTerm (hd (rf_log rf)), isData = ReadSnapshot (rf_persister rf)\<rparr>))"
  using assms by (simp add: Replicate_def at_in_range [of p] base_def [symmetric])

lemma contig_suffix: "wf_log l \<Longrightarrow> base l \<le> i \<Longrightarrow> contig i (drop (nat (i - base l)) l)"
  using contig_drop [of "base l" l "nat (i - base l)"] by auto

section \<open>Committing\<close>

text \<open>The number of peers whose match index reaches \<open>i\<close>.\<close>

definition holders :: "int list \<Rightarrow> int \<Rightarrow> nat" where
  "holders mi i = length (filter (\<lambda>m. i \<le> m) mi)"

lemma countMatch_eq: "countMatch (length mi) mi i = Inr (int (holders mi i))"
proof -
  have "mapR (\<lambda>p. rbind (at mi p) (\<lambda>m. Inr (m \<ge> i))) [0..int (length mi) - 1] =
      Inr (map (\<lambda>p. mi ! nat p \<ge> i) [0..int (length mi) - 1])"
    by (intro mapR_total) (simp add: at_in_range)
  moreover have "map (\<lambda>p. mi ! nat p \<ge> i) [0..int (length mi) - 1] = map (\<lambda>m. i \<le> m) mi"
    by (rule nth_equalityI) auto
  moreover have "length (filter id (map (\<lambda>m. i \<le> m) mi)) = holders mi i"
    by (simp add: holders_def filter_map comp_def)
  ultimately show ?thesis by (simp add: countMatch_def)
qed

text \<open>An index the leader may commit: a majority holds it and its entry is of the current term.\<close>

definition committable :: "('c, 's) Raft \<Rightarrow> int \<Rightarrow> bool" where
  "committable rf i \<longleftrightarrow> int (rf_peers rf) div 2 + 1 \<le> int (holders (rf_matchIndex rf) i) \<and>
     eTerm (rf_log rf ! nat (i - base (rf_log rf))) = rf_term rf"

lemma commitLoop_eq:
  assumes "rf_log rf \<noteq> []" "length (rf_matchIndex rf) = rf_peers rf"
    and "\<And>i. i \<in> set is \<Longrightarrow> base (rf_log rf) \<le> i \<and> i \<le> tailIndex (rf_log rf)"
  shows "commitLoop rf is c = Inr (foldl (\<lambda>c i. if committable rf i then i else c) c is)"
  using assms(3)
proof (induction "is" arbitrary: c)
  case (Cons i "is")
  have "GetLogAtIndex (rf_log rf) i = Inr (Some (rf_log rf ! nat (i - base (rf_log rf))))"
    using Cons.prems assms(1) by (intro GetLogAtIndex_in) auto
  moreover have "countMatch (rf_peers rf) (rf_matchIndex rf) i = Inr (int (holders (rf_matchIndex rf) i))"
    using countMatch_eq [of "rf_matchIndex rf" i] assms(2) by simp
  ultimately show ?case
    using Cons by (simp add: IsMajority_def Majority_def committable_def deref_def)
qed simp

lemma foldl_last:
  fixes P :: "int \<Rightarrow> bool"
  shows "\<exists>c'. foldl (\<lambda>c i. if P i then i else c) c [a..b] = c' \<and>
     (c' = c \<and> (\<forall>i\<in>{a..b}. \<not> P i) \<or> P c' \<and> c' \<in> {a..b} \<and> (\<forall>i\<in>{a..b}. P i \<longrightarrow> i \<le> c'))"
proof (induction "nat (b - a + 1)" arbitrary: b)
  case 0
  then show ?case by (simp add: upto.simps)
next
  case (Suc k)
  then have ab: "a \<le> b" by simp
  have split: "[a..b] = [a..b - 1] @ [b]" using ab by (rule upto_rec2)
  have dom: "{a..b} = insert b {a..b - 1}" using ab by auto
  have "k = nat ((b - 1) - a + 1)" using Suc.hyps(2) by simp
  from Suc.hyps(1) [OF this] show ?case unfolding split dom by auto
qed

lemma handleAppendReply_success:
  assumes "wf_log (rf_log rf)" "length (rf_matchIndex rf) = rf_peers rf"
    "length (rf_nextIndex rf) = rf_peers rf" "0 \<le> p" "p < int (rf_peers rf)"
    and "rf_term rf = aeTerm args" "aerTerm reply \<le> rf_term rf" "aerSuccess reply"
    and "aeEntries args \<noteq> []" "eIndex (last (aeEntries args)) = m" "m \<le> tailIndex (rf_log rf)"
    and "base (rf_log rf) \<le> rf_commitIndex rf"
  shows "\<exists>rf'. handleAppendReply p args reply rf = Inr rf' \<and>
     rf' = rf\<lparr>rf_matchIndex := (rf_matchIndex rf)[nat p := m],
              rf_nextIndex := (rf_nextIndex rf)[nat p := m + 1], rf_commitIndex := rf_commitIndex rf'\<rparr> \<and>
     rf_commitIndex rf' = foldl (\<lambda>c i. if committable rf' i then i else c)
        (rf_commitIndex rf) [rf_commitIndex rf..m]"
proof -
  let ?rf1 = "rf\<lparr>rf_matchIndex := (rf_matchIndex rf)[nat p := m],
              rf_nextIndex := (rf_nextIndex rf)[nat p := m + 1]\<rparr>"
  let ?c = "foldl (\<lambda>c i. if committable ?rf1 i then i else c) (rf_commitIndex rf) [rf_commitIndex rf..m]"
  have "commitLoop ?rf1 [rf_commitIndex rf..m] (rf_commitIndex rf) = Inr ?c"
    using assms by (intro commitLoop_eq) auto
  then have "handleAppendReply p args reply rf = Inr (?rf1\<lparr>rf_commitIndex := ?c\<rparr>)"
    using assms by (simp add: handleAppendReply_def Let_def)
  moreover have "committable (?rf1\<lparr>rf_commitIndex := ?c\<rparr>) = committable ?rf1"
    by (simp add: committable_def fun_eq_iff)
  ultimately show ?thesis by (intro exI [of _ "?rf1\<lparr>rf_commitIndex := ?c\<rparr>"]) simp
qed


section \<open>Properties\<close>

text \<open>Two logs agree on entries: the same index and term means the same entry.\<close>

definition sameEntries :: "'c LogEntry list \<Rightarrow> 'c LogEntry list \<Rightarrow> bool" where
  "sameEntries l g \<longleftrightarrow>
     (\<forall>e\<in>set l. \<forall>e'\<in>set g. eIndex e = eIndex e' \<and> eTerm e = eTerm e' \<longrightarrow> e = e')"

lemma mergeSpec_takes_new:
  assumes "contig q old" "contig q new" "sameEntries new old"
  shows "take (length new) (mergeSpec old new) = new"
  using assms by (induction old new arbitrary: q rule: mergeSpec.induct) (auto simp: sameEntries_def)

lemma mergeSpec_takes_terms: "map eTerm (take (length new) (mergeSpec old new)) = map eTerm new"
  using mergeSpec_length [of new old] by (intro nth_equalityI) (auto simp: mergeSpec_terms)

lemma sameEntries_subset: "sameEntries l g \<Longrightarrow> set l' \<subseteq> set l \<Longrightarrow> set g' \<subseteq> set g \<Longrightarrow> sameEntries l' g'"
  by (auto simp: sameEntries_def)


definition sampleLeader :: "(string, nat) Raft" where
  "sampleLeader = sampleNode\<lparr>rf_me := 0, rf_state := Leader, rf_term := 2, rf_votedFor := 0,
     rf_log := [sentinel, \<lparr>eTerm = 1, eIndex = 1, eCommand = Some ''a''\<rparr>,
                \<lparr>eTerm = 2, eIndex = 2, eCommand = Some ''c''\<rparr>],
     rf_nextIndex := [3, 2, 3], rf_matchIndex := [2, 0, 0]\<rparr>"

lemma sampleLeader_wf: "wf_log (rf_log sampleLeader)" "base (rf_log sampleLeader) = 0"
  "tailIndex (rf_log sampleLeader) = 2"
  by (simp_all add: sampleLeader_def wf_log_def base_def tailIndex_def sentinel_def)


text \<open>
  C6. The commit rule: after a successful reply the leader's commit index never moves back; if
  it moves, the new index was acknowledged by a majority of the servers and its entry is of the
  leader's own term; and it is the largest such index up to the acknowledged one.
\<close>

theorem commit_rule:
  assumes "wf_log (rf_log rf)" "length (rf_matchIndex rf) = rf_peers rf"
    "length (rf_nextIndex rf) = rf_peers rf" "0 \<le> p" "p < int (rf_peers rf)"
    and "rf_term rf = aeTerm args" "aerTerm reply \<le> rf_term rf" "aerSuccess reply"
    and "aeEntries args \<noteq> []" "eIndex (last (aeEntries args)) = m" "m \<le> tailIndex (rf_log rf)"
    and "base (rf_log rf) \<le> rf_commitIndex rf"
  shows "\<exists>rf'. handleAppendReply p args reply rf = Inr rf' \<and>
     rf_matchIndex rf' = (rf_matchIndex rf)[nat p := m] \<and> rf_log rf' = rf_log rf \<and>
     rf_commitIndex rf \<le> rf_commitIndex rf' \<and>
     (rf_commitIndex rf' \<noteq> rf_commitIndex rf \<longrightarrow>
        2 * holders (rf_matchIndex rf') (rf_commitIndex rf') > rf_peers rf \<and>
        eTerm (rf_log rf ! nat (rf_commitIndex rf' - base (rf_log rf))) = rf_term rf) \<and>
     (\<forall>i. rf_commitIndex rf < i \<and> i \<le> m \<and> 2 * holders (rf_matchIndex rf') i > rf_peers rf \<and>
        eTerm (rf_log rf ! nat (i - base (rf_log rf))) = rf_term rf \<longrightarrow> i \<le> rf_commitIndex rf')"
proof -
  obtain rf' where rf': "handleAppendReply p args reply rf = Inr rf'"
    "rf' = rf\<lparr>rf_matchIndex := (rf_matchIndex rf)[nat p := m],
              rf_nextIndex := (rf_nextIndex rf)[nat p := m + 1], rf_commitIndex := rf_commitIndex rf'\<rparr>"
    "rf_commitIndex rf' = foldl (\<lambda>c i. if committable rf' i then i else c)
        (rf_commitIndex rf) [rf_commitIndex rf..m]"
    using handleAppendReply_success [OF assms] by blast
  have same: "rf_peers rf' = rf_peers rf" "rf_log rf' = rf_log rf" "rf_term rf' = rf_term rf"
    "rf_matchIndex rf' = (rf_matchIndex rf)[nat p := m]"
    by (subst rf'(2), simp)+
  have maj: "2 * h > n \<longleftrightarrow> int n div 2 + 1 \<le> int h" for h n :: nat by linarith
  have com: "committable rf' i \<longleftrightarrow> 2 * holders (rf_matchIndex rf') i > rf_peers rf \<and>
     eTerm (rf_log rf ! nat (i - base (rf_log rf))) = rf_term rf" for i
    unfolding committable_def same(1-3) maj ..
  obtain c' where "c' = rf_commitIndex rf'"
    "c' = rf_commitIndex rf \<and> (\<forall>i\<in>{rf_commitIndex rf..m}. \<not> committable rf' i) \<or>
     committable rf' c' \<and> c' \<in> {rf_commitIndex rf..m} \<and>
       (\<forall>i\<in>{rf_commitIndex rf..m}. committable rf' i \<longrightarrow> i \<le> c')"
    using foldl_last [of "committable rf'" "rf_commitIndex rf" "rf_commitIndex rf" m] rf'(3) by auto
  then have "rf_commitIndex rf \<le> rf_commitIndex rf'"
    "rf_commitIndex rf' \<noteq> rf_commitIndex rf \<longrightarrow> committable rf' (rf_commitIndex rf')"
    "\<forall>i. rf_commitIndex rf < i \<and> i \<le> m \<and> committable rf' i \<longrightarrow> i \<le> rf_commitIndex rf'"
    by auto
  with rf'(1) same(2,4) show ?thesis unfolding com by blast
qed

lemma commit_rule_witness:
  "\<exists>rf'. handleAppendReply 1 (sampleArgs\<lparr>aeEntries := [\<lparr>eTerm = 2, eIndex = 2, eCommand = Some ''c''\<rparr>]\<rparr>)
       \<lparr>aerTerm = 2, aerSuccess = True, aerConflictingTerm = 0, aerConflictingIndex = 0\<rparr> sampleLeader
       = Inr rf' \<and> rf_matchIndex rf' = [2, 2, 0] \<and> 2 \<le> rf_commitIndex rf'"
    (is "\<exists>rf'. handleAppendReply 1 ?args ?reply sampleLeader = Inr rf' \<and> _ rf'")
proof -
  have "holders [2, 2, 0] 2 = 2" "rf_peers sampleLeader = 3" "rf_commitIndex sampleLeader = 0"
    "(rf_matchIndex sampleLeader)[nat 1 := 2] = [2, 2, 0]" "rf_term sampleLeader = 2"
    "eTerm (rf_log sampleLeader ! 2) = 2" "aeTerm ?args = 2"
    "length (rf_matchIndex sampleLeader) = 3" "length (rf_nextIndex sampleLeader) = 3"
    by (simp_all add: sampleLeader_def sampleNode_def sampleArgs_def holders_def)
  with commit_rule [OF sampleLeader_wf(1), of 1 ?args ?reply 2] sampleLeader_wf(2,3) show ?thesis
    by (auto dest: spec [where x = 2])
qed


text \<open>The next index a leader falls back to after the failed check of a peer.\<close>

lemma handleAppendReply_failed:
  assumes "rf_term rf = aeTerm args" "aerTerm reply = rf_term rf" "\<not> aerSuccess reply"
    and "0 \<le> p" "p < int (rf_peers rf)" "length (rf_matchIndex rf) = rf_peers rf"
    and "length (rf_nextIndex rf) = rf_peers rf"
  shows "handleAppendReply p args reply rf = Inr (rf
     \<lparr>rf_matchIndex := (rf_matchIndex rf)[nat p := 0],
      rf_nextIndex := (rf_nextIndex rf)[nat p :=
        backupIndex (rf_log rf) reply (rf_nextIndex rf ! nat p)]\<rparr>)"
  using assms by (simp add: handleAppendReply_def at_in_range)

lemma backupIndex_bounds:
  assumes "\<And>e. e \<in> set (tl l) \<Longrightarrow> eTerm e = aerConflictingTerm reply \<Longrightarrow>
      0 \<le> eIndex e \<and> eIndex e < ni - 1"
    and "aerConflictingIndex reply < ni" "1 < ni"
  shows "1 \<le> backupIndex l reply ni \<and> backupIndex l reply ni < ni"
proof (cases "if aerConflictingTerm reply > 0
    then find (\<lambda>e. eTerm e = aerConflictingTerm reply) (rev (tl l)) else None")
  case None
  then show ?thesis using assms(2,3) by (auto simp: backupIndex_def MinInt_def MaxInt_def)
next
  case (Some e)
  then have "find (\<lambda>e. eTerm e = aerConflictingTerm reply) (rev (tl l)) = Some e"
    by (simp split: if_splits)
  then have "e \<in> set (rev (tl l))" "eTerm e = aerConflictingTerm reply"
    unfolding find_Some_iff by (blast intro: nth_mem, blast)
  then have "0 \<le> eIndex e" "eIndex e < ni - 1" using assms(1) by auto
  with Some show ?thesis by (simp add: backupIndex_def MinInt_def)
qed

lemma AppendEntries_refused_reply:
  assumes "wf_log (rf_log g)" "rf_term g = aeTerm args"
    and "AppendEntries now args g = Inr (g', reply)" "\<not> aerSuccess reply"
  shows "aerTerm reply = rf_term g" "base (rf_log g) \<le> aePrevLogIndex args"
    "aerConflictingIndex reply \<le> aePrevLogIndex args" "0 < aePrevLogIndex args"
    "aerConflictingTerm reply = 0 \<or>
     aePrevLogIndex args \<le> tailIndex (rf_log g) \<and> aerConflictingTerm reply =
       eTerm (rf_log g ! nat (aePrevLogIndex args - base (rf_log g)))"
proof -
  let ?l = "rf_log g" and ?p = "aePrevLogIndex args"
  have ne: "?l \<noteq> []" using assms(1) by auto
  have "logMismatch ?l args \<noteq> Inr None"
    using assms(2-4) by (auto simp: AppendEntries_def Let_def elim!: rbind_InrE split: if_splits)
  then obtain ct ci where mm: "logMismatch ?l args = Inr (Some (ct, ci))"
    using logMismatch_eq [OF ne, of args] by (auto simp: Let_def split: if_splits)
  have reply: "reply = \<lparr>aerTerm = rf_term g, aerSuccess = False,
      aerConflictingTerm = ct, aerConflictingIndex = ci\<rparr>"
    using AppendEntries_refuses [OF _ mm, of now] assms(2,3) by simp
  have p: "0 < ?p" "base ?l \<le> ?p"
    using mm logMismatch_eq [OF ne, of args] by (auto simp: Let_def split: if_splits)
  have "ci \<le> ?p \<and> (ct = 0 \<or> ?p \<le> tailIndex ?l \<and> ct = eTerm (?l ! nat (?p - base ?l)))"
  proof (cases "tailIndex ?l < ?p")
    case True
    then show ?thesis
      using mm p logMismatch_eq [OF ne, of args] wf_log_last [OF assms(1)] by (auto simp: Let_def)
  next
    case False
    let ?t = "eTerm (?l ! nat (?p - base ?l))"
    have len: "nat (?p - base ?l) < length ?l" using False p by (auto simp: tailIndex_def)
    have cc: "ct = ?t" "ci = (case find (\<lambda>e. eTerm e = ?t) ?l of None \<Rightarrow> 0 | Some e \<Rightarrow> eIndex e)"
      using mm p False logMismatch_eq [OF ne, of args] by (auto simp: Let_def split: if_splits)
    obtain e where e: "find (\<lambda>e. eTerm e = ?t) ?l = Some e"
      using nth_mem [OF len] by (cases "find (\<lambda>e. eTerm e = ?t) ?l") (auto simp: find_None_iff)
    then obtain k where k: "k < length ?l" "e = ?l ! k" "\<forall>j < k. eTerm (?l ! j) \<noteq> ?t"
      by (auto simp: find_Some_iff)
    then have "k \<le> nat (?p - base ?l)" by (auto intro: leI)
    with wf_log_nth [OF assms(1) k(1)] k(2) p have "eIndex e \<le> ?p" by simp
    with cc e False show ?thesis by simp
  qed
  with reply p show "aerTerm reply = rf_term g" "base ?l \<le> ?p" "aerConflictingIndex reply \<le> ?p"
    "0 < ?p" "aerConflictingTerm reply = 0 \<or>
     ?p \<le> tailIndex ?l \<and> aerConflictingTerm reply = eTerm (?l ! nat (?p - base ?l))"
    by simp_all
qed



text \<open>
  Accepted commands are durable: when a leader accepts a command, the returned index is the
  one after the end of its log, the entry there holds the command under the leader's term, and
  a crash right after the call restarts with that entry in the log.
\<close>

lemma start_durable:
  assumes "node_ok n i rf" "wf_log (rf_log rf)" "rf_state rf = Leader" "0 \<le> i" "i < int n"
  shows "\<exists>rf' rf''. Start cmd rf = Inr (rf', Some (tailIndex (rf_log rf) + 1)) \<and>
     rf_log rf' = rf_log rf @
       [\<lparr>eTerm = rf_term rf, eIndex = tailIndex (rf_log rf) + 1, eCommand = Some cmd\<rparr>] \<and>
     wf_log (rf_log rf') \<and> rf_matchIndex rf' ! nat i = rf_matchIndex rf ! nat i + 1 \<and>
     Make n i (Copy (rf_persister rf')) r = Inr rf'' \<and> rf_log rf'' = rf_log rf' \<and>
     rf_term rf'' = rf_term rf"
proof -
  note ok = node_okD [OF assms(1)]
  let ?e = "\<lparr>eTerm = rf_term rf, eIndex = tailIndex (rf_log rf) + 1, eCommand = Some cmd\<rparr>"
  obtain rf' where rf': "Start cmd rf = Inr (rf', Some (tailIndex (rf_log rf) + 1))"
    "rf_log rf' = rf_log rf @ [?e]" "rf_term rf' = rf_term rf"
    "rf_matchIndex rf' = (rf_matchIndex rf)[nat i := rf_matchIndex rf ! nat i + 1]"
    using assms(3-5) ok wf_log_last [OF assms(2)]
    by (simp add: Start_def Let_def persist_def at_in_range put_def)
  have "wf_log (rf_log rf')" unfolding rf'(2) using assms(2) by (intro wf_log_append) simp_all
  with rf' Make_restart [OF Start_node_ok [OF rf'(1) assms(1)], of r] assms(4,5) ok(6) show ?thesis
    by (auto simp: nat_less_iff)
qed

lemma start_durable_witness:
  "\<exists>rf' rf''. Start ''e'' (persist sampleLeader) = Inr (rf', Some 3) \<and>
     map eCommand (rf_log rf') = [None, Some ''a'', Some ''c'', Some ''e''] \<and>
     Make 3 0 (Copy (rf_persister rf')) 4 = Inr rf'' \<and> rf_log rf'' = rf_log rf'"
proof -
  have ok: "node_ok 3 0 (persist sampleLeader)" "wf_log (rf_log (persist sampleLeader))"
    "rf_state (persist sampleLeader) = Leader" "tailIndex (rf_log (persist sampleLeader)) = 2"
    using sampleLeader_wf
    by (simp_all add: node_ok_def) (simp_all add: persist_def sampleLeader_def sampleNode_def)
  have cs: "map eCommand (rf_log (persist sampleLeader)) = [None, Some ''a'', Some ''c'']"
    by (simp add: persist_def sampleLeader_def sentinel_def)
  show ?thesis using start_durable [OF ok(1-3), of "''e''" 4] ok(4) cs by auto
qed

end
