(* ===== verification/Raft_Apply.thy ===== *)
theory Raft_Apply
  imports Raft_Replication
begin

text \<open>
  The interface of Raft to the service: the loop of \<^verbatim>\<open>DoApply\<close> delivers the committed
  commands in order and without gaps, \<^verbatim>\<open>Snapshot\<close> and \<^verbatim>\<open>CondInstallSnapshot\<close> replace a
  prefix of the log, and \<^verbatim>\<open>RequestVote\<close> grants a vote only to an up-to-date candidate.
\<close>

section \<open>Applying\<close>

text \<open>
  The loop of \<^verbatim>\<open>DoApply\<close> with at most \<open>k\<close> rounds, run while nothing else changes the server:
  the messages it sends, in order.
\<close>

fun DoApplyLoop :: "nat \<Rightarrow> ('c, 's) Raft \<Rightarrow> (('c, 's) Raft \<times> ('c, 's) ApplyMsg list) res" where
  "DoApplyLoop 0 rf = Inr (rf, [])"
| "DoApplyLoop (Suc k) rf =
     rbind (DoApply rf) (\<lambda>(rf', m).
       case m of
         None \<Rightarrow> Inr (rf', [])
       | Some msg \<Rightarrow> rbind (DoApplyLoop k rf') (\<lambda>(rf'', msgs). Inr (rf'', msg # msgs)))"

definition commandMsg :: "'c LogEntry \<Rightarrow> ('c, 's) ApplyMsg" where
  "commandMsg e = \<lparr>amCommandValid = True, amCommand = eCommand e, amCommandIndex = eIndex e,
     amSnapshotValid = False, amSnapshot = [], amSnapshotTerm = 0, amSnapshotIndex = 0\<rparr>"

text \<open>The entries at the indices after \<open>a\<close> up to \<open>b\<close>.\<close>

definition entriesBetween :: "'c LogEntry list \<Rightarrow> int \<Rightarrow> int \<Rightarrow> 'c LogEntry list" where
  "entriesBetween l a b = map (\<lambda>i. l ! nat (i - base l)) [a + 1..b]"

lemma DoApply_next:
  assumes "wf_log (rf_log rf)" "base (rf_log rf) \<le> rf_lastApplied rf"
    and "rf_lastApplied rf < rf_commitIndex rf" "rf_commitIndex rf \<le> tailIndex (rf_log rf)"
  shows "DoApply rf = Inr (rf\<lparr>rf_lastApplied := rf_lastApplied rf + 1\<rparr>,
     Some (commandMsg (rf_log rf ! nat (rf_lastApplied rf + 1 - base (rf_log rf)))))"
  using assms by (simp add: DoApply_def needApplyL_def Let_def GetLogAtIndex_eq wf_logD commandMsg_def)

lemma DoApply_idle: "rf_commitIndex rf \<le> rf_lastApplied rf \<Longrightarrow> DoApply rf = Inr (rf, None)"
  by (simp add: DoApply_def needApplyL_def)

lemma DoApplyLoop_eq:
  assumes "wf_log (rf_log rf)" "base (rf_log rf) \<le> rf_lastApplied rf"
    and "rf_lastApplied rf \<le> rf_commitIndex rf" "rf_commitIndex rf \<le> tailIndex (rf_log rf)"
    and "nat (rf_commitIndex rf - rf_lastApplied rf) \<le> k"
  shows "DoApplyLoop k rf = Inr (rf\<lparr>rf_lastApplied := rf_commitIndex rf\<rparr>,
     map commandMsg (entriesBetween (rf_log rf) (rf_lastApplied rf) (rf_commitIndex rf)))"
  using assms
proof (induction k arbitrary: rf)
  case 0
  then show ?case by (simp add: entriesBetween_def)
next
  case (Suc k)
  show ?case
  proof (cases "rf_lastApplied rf < rf_commitIndex rf")
    case False
    then have "rf_commitIndex rf = rf_lastApplied rf" using Suc.prems(3) by simp
    then show ?thesis by (simp add: DoApply_idle entriesBetween_def)
  next
    case True
    let ?rf1 = "rf\<lparr>rf_lastApplied := rf_lastApplied rf + 1\<rparr>"
    have "DoApplyLoop k ?rf1 = Inr (?rf1\<lparr>rf_lastApplied := rf_commitIndex rf\<rparr>,
       map commandMsg (entriesBetween (rf_log rf) (rf_lastApplied rf + 1) (rf_commitIndex rf)))"
      using Suc.IH [of ?rf1] Suc.prems True by simp
    with DoApply_next [OF Suc.prems(1,2) True Suc.prems(4)] True show ?thesis
      by (simp add: entriesBetween_def upto_rec1)
  qed
qed

lemma entriesBetween_index:
  assumes "wf_log l" "base l \<le> a" "b \<le> tailIndex l"
  shows "map eIndex (entriesBetween l a b) = [a + 1..b]"
  using assms by (auto simp: entriesBetween_def tailIndex_def wf_log_nth intro!: map_idI)

text \<open>
  C31. In-order delivery: while entries up to the commit index are in the log, the applier never
  panics, sends exactly the entries after the last applied index up to the commit index, in
  the order of their indices, each once, with the command the log holds, and then waits.
\<close>

theorem apply_in_order:
  assumes "wf_log (rf_log rf)" "base (rf_log rf) \<le> rf_lastApplied rf"
    and "rf_lastApplied rf \<le> rf_commitIndex rf" "rf_commitIndex rf \<le> tailIndex (rf_log rf)"
    and "nat (rf_commitIndex rf - rf_lastApplied rf) \<le> k"
  shows "\<exists>rf' msgs. DoApplyLoop k rf = Inr (rf', msgs) \<and> rf_lastApplied rf' = rf_commitIndex rf \<and>
     map amCommandIndex msgs = [rf_lastApplied rf + 1..rf_commitIndex rf] \<and>
     (\<forall>m \<in> set msgs. amCommandValid m \<and>
        amCommand m = eCommand (rf_log rf ! nat (amCommandIndex m - base (rf_log rf)))) \<and>
     \<not> needApplyL rf'"
proof -
  have ix: "map eIndex (entriesBetween (rf_log rf) (rf_lastApplied rf) (rf_commitIndex rf)) =
      [rf_lastApplied rf + 1..rf_commitIndex rf]"
    by (rule entriesBetween_index [OF assms(1,2,4)])
  have "eIndex (rf_log rf ! nat (i - base (rf_log rf))) = i"
    if "rf_lastApplied rf + 1 \<le> i" "i \<le> rf_commitIndex rf" for i
    using that assms(2,4) wf_log_nth [OF assms(1), of "nat (i - base (rf_log rf))"]
    by (simp add: tailIndex_def)
  then show ?thesis
    using DoApplyLoop_eq [OF assms] ix
    by (auto simp: commandMsg_def entriesBetween_def needApplyL_def comp_def)
qed

lemma apply_in_order_witness:
  "\<exists>rf' msgs. DoApplyLoop 5 (sampleNode\<lparr>rf_commitIndex := 2\<rparr>) = Inr (rf', msgs) \<and>
     rf_lastApplied rf' = 2 \<and> map amCommandIndex msgs = [1, 2] \<and> \<not> needApplyL rf'"
proof -
  let ?rf = "sampleNode\<lparr>rf_commitIndex := 2\<rparr>"
  have a: "wf_log (rf_log ?rf)" "base (rf_log ?rf) = 0" "tailIndex (rf_log ?rf) = 2"
    "rf_lastApplied ?rf = 0"
    using sample_wf(1-3) by (simp_all add: sampleNode_def)
  have up: "[1..2::int] = [1, 2]" by (simp add: upto_rec1)
  show ?thesis using apply_in_order [OF a(1), of 5] a(2-4) up by auto
qed

section \<open>Snapshots\<close>

text \<open>The entries of a log after an index, by index.\<close>

definition lookup :: "'c LogEntry list \<Rightarrow> int \<Rightarrow> 'c LogEntry option" where
  "lookup l i = (if base l \<le> i \<and> i \<le> tailIndex l then Some (l ! nat (i - base l)) else None)"

lemma GetLogAtIndex_lookup: "l \<noteq> [] \<Longrightarrow> GetLogAtIndex l i = Inr (lookup l i)"
  by (simp add: GetLogAtIndex_eq lookup_def)

lemma find_index:
  assumes "wf_log l" "base l \<le> i" "i \<le> tailIndex l"
  shows "find (\<lambda>e. eIndex e = i) l = Some (l ! nat (i - base l))"
proof -
  let ?k = "nat (i - base l)"
  have k: "?k < length l" "eIndex (l ! ?k) = i"
    using assms by (auto simp: tailIndex_def wf_log_nth)
  moreover have "eIndex (l ! j) \<noteq> i" if "j < ?k" for j
    using that k wf_log_nth [OF assms(1), of j] by auto
  ultimately show ?thesis unfolding find_Some_iff by blast
qed

lemma find_index_none:
  assumes "wf_log l" "i < base l \<or> tailIndex l < i"
  shows "find (\<lambda>e. eIndex e = i) l = None"
  using assms wf_log_nth [OF assms(1)] by (auto simp: find_None_iff in_set_conv_nth tailIndex_def)

text \<open>A log whose head is replaced by the entry a snapshot covers up to.\<close>

lemma compacted:
  assumes "wf_log l" "base l \<le> k" "k \<le> tailIndex l" "eIndex h = k"
  shows "wf_log (h # drop (nat (k - base l) + 1) l)"
    and "base (h # drop (nat (k - base l) + 1) l) = k"
    and "tailIndex (h # drop (nat (k - base l) + 1) l) = tailIndex l"
    and "k < i \<Longrightarrow> lookup (h # drop (nat (k - base l) + 1) l) i = lookup l i"
proof -
  let ?l' = "h # drop (nat (k - base l) + 1) l"
  have len: "nat (k - base l) + 1 \<le> length l" using assms(2,3) by (auto simp: tailIndex_def)
  show wf: "wf_log ?l'"
    using contig_drop [OF wf_logD(2) [OF assms(1)], of "nat (k - base l) + 1"] assms(2,4)
    by (simp add: wf_log_Cons algebra_simps)
  show b: "base ?l' = k" using assms(4) by (simp add: base_def)
  show t: "tailIndex ?l' = tailIndex l" using len assms(2) b by (simp add: tailIndex_def of_nat_diff)
  show "lookup ?l' i = lookup l i" if "k < i"
  proof (cases "i \<le> tailIndex l")
    case True
    have n: "nat (i - k) = Suc (nat (i - k - 1))" using that by simp
    have "nat (k - base l) + 1 + nat (i - k - 1) = nat (i - base l)" using that assms(2) by simp
    then have "?l' ! nat (i - k) = l ! nat (i - base l)"
      using n len by (simp add: nth_append)
    with that True assms(2) b t show ?thesis by (simp add: lookup_def)
  qed (use b t that in \<open>simp add: lookup_def\<close>)
qed


lemma drop_cons: "k < length l \<Longrightarrow> drop k l = l ! k # drop (k + 1) l"
  by (simp add: Cons_nth_drop_Suc)

lemma Snapshot_inside:
  assumes "wf_log (rf_log rf)" "base (rf_log rf) \<le> k" "k \<le> tailIndex (rf_log rf)"
  shows "Snapshot k snap rf = Inr (let l = (rf_log rf ! nat (k - base (rf_log rf)))\<lparr>eCommand := None\<rparr>
            # drop (nat (k - base (rf_log rf)) + 1) (rf_log rf)
     in rf\<lparr>rf_log := l, rf_persister :=
        SaveStateAndSnapshot (rf_persister rf) (serializeState (rf\<lparr>rf_log := l\<rparr>)) snap\<rparr>)"
proof -
  let ?l = "rf_log rf" and ?j = "nat (k - base (rf_log rf))"
  have j: "?j < length ?l" using assms(2,3) by (auto simp: tailIndex_def)
  have "eIndex (?l ! ?j) - base ?l = k - base ?l" using wf_log_nth [OF assms(1) j] assms(2) by simp
  moreover have "slice_from ?l (k - base ?l) = Inr (?l ! ?j # drop (?j + 1) ?l)"
    using assms(2,3) drop_cons [OF j] by (simp add: slice_from_def tailIndex_def)
  ultimately show ?thesis
    using assms(1) by (simp add: Snapshot_def find_index [OF assms] wf_logD Let_def)
qed

lemma Snapshot_total:
  assumes "wf_log (rf_log rf)"
  obtains rf' where "Snapshot k snap rf = Inr rf'" "wf_log (rf_log rf')" "rf_state rf' = rf_state rf"
proof (cases "base (rf_log rf) \<le> k \<and> k \<le> tailIndex (rf_log rf)")
  case True
  let ?h = "(rf_log rf ! nat (k - base (rf_log rf)))\<lparr>eCommand := None\<rparr>"
  have "eIndex ?h = k" using wf_log_nth [OF assms, of "nat (k - base (rf_log rf))"] True
    by (auto simp: tailIndex_def)
  from compacted(1) [OF assms _ _ this] Snapshot_inside [OF assms, of k snap] True that show thesis
    by (simp add: Let_def)
next
  case False
  then have "find (\<lambda>e. eIndex e = k) (rf_log rf) = None" using find_index_none [OF assms, of k] by auto
  with assms that show thesis by (simp add: Snapshot_def)
qed

text \<open>
  Taking a snapshot: at an index of the log, the log is cut to start there (the entry keeps
  its term and loses its command), every later entry stays where it is, and the snapshot and the
  shortened log reach stable storage in one write. At an index outside the log nothing changes.
\<close>

lemma snapshot_compacts:
  assumes "wf_log (rf_log rf)"
  shows "\<exists>rf'. Snapshot k snap rf = Inr rf' \<and>
     (if base (rf_log rf) \<le> k \<and> k \<le> tailIndex (rf_log rf)
      then wf_log (rf_log rf') \<and> base (rf_log rf') = k \<and>
        tailIndex (rf_log rf') = tailIndex (rf_log rf) \<and>
        eTerm (hd (rf_log rf')) = eTerm (rf_log rf ! nat (k - base (rf_log rf))) \<and>
        eCommand (hd (rf_log rf')) = None \<and>
        (\<forall>i > k. GetLogAtIndex (rf_log rf') i = GetLogAtIndex (rf_log rf) i) \<and>
        ReadSnapshot (rf_persister rf') = snap \<and>
        ReadRaftState (rf_persister rf') = serializeState rf' \<and>
        rf_commitIndex rf' = rf_commitIndex rf \<and> rf_lastApplied rf' = rf_lastApplied rf
      else rf' = rf)"
proof (cases "base (rf_log rf) \<le> k \<and> k \<le> tailIndex (rf_log rf)")
  case True
  let ?h = "(rf_log rf ! nat (k - base (rf_log rf)))\<lparr>eCommand := None\<rparr>"
  have "eIndex ?h = k" using wf_log_nth [OF assms, of "nat (k - base (rf_log rf))"] True
    by (auto simp: tailIndex_def)
  note c = compacted [OF assms conjunct1 [OF True] conjunct2 [OF True] this]
  have ne: "rf_log rf \<noteq> []" using assms by auto
  show ?thesis
    using True Snapshot_inside [OF assms, of k snap] c
    by (simp add: Let_def GetLogAtIndex_lookup ne ps.storage_simps serializeState_def)
next
  case False
  then show ?thesis using find_index_none [OF assms, of k] by (auto simp: Snapshot_def not_le)
qed

lemma snapshot_compacts_witness:
  "\<exists>rf'. Snapshot 1 [7] sampleNode = Inr rf' \<and> base (rf_log rf') = 1 \<and>
     GetLogAtIndex (rf_log rf') 2 = GetLogAtIndex (rf_log sampleNode) 2 \<and>
     ReadSnapshot (rf_persister rf') = [7]"
  using snapshot_compacts [OF sample_wf(1), of 1 "[7]"] sample_wf(2,3) by auto

lemma CondInstallSnapshot_installs:
  assumes "wf_log (rf_log rf)" "base (rf_log rf) \<le> rf_commitIndex rf" "rf_commitIndex rf \<le> k"
  shows "CondInstallSnapshot t k snap rf = Inr (
     let h = \<lparr>eTerm = t, eIndex = k, eCommand = None\<rparr>;
         rf1 = rf\<lparr>rf_log := h # drop (nat (k - base (rf_log rf)) + 1) (rf_log rf),
                  rf_commitIndex := k, rf_lastApplied := k\<rparr>
     in (rf1\<lparr>rf_persister := SaveStateAndSnapshot (rf_persister rf1) (serializeState rf1) snap\<rparr>, True))"
proof -
  let ?l = "rf_log rf" and ?j = "nat (k - base (rf_log rf))"
  have ne: "?l \<noteq> []" and tail: "eIndex (last ?l) = tailIndex ?l"
    using assms(1) wf_log_last by auto
  have whole: "e\<lparr>eIndex := k, eTerm := t, eCommand := None\<rparr> = \<lparr>eTerm = t, eIndex = k, eCommand = None\<rparr>"
    for e :: "'a LogEntry" by simp
  show ?thesis
  proof (cases "tailIndex ?l \<le> k")
    case True
    then have "drop (?j + 1) ?l = []" by (simp add: tailIndex_def)
    moreover have "slice_to ?l 1 = Inr [hd ?l]" using ne by (cases ?l) (simp_all add: slice_to_def)
    ultimately show ?thesis
      using True assms(3) ne tail by (simp add: CondInstallSnapshot_def Let_def whole)
  next
    case False
    have j: "?j < length ?l" using assms(2,3) False by (auto simp: tailIndex_def)
    have "slice_from ?l (k - base ?l) = Inr (?l ! ?j # drop (?j + 1) ?l)"
      using assms(2,3) False drop_cons [OF j] by (simp add: slice_from_def tailIndex_def)
    with False show ?thesis
      using assms(3) ne tail by (simp add: CondInstallSnapshot_def Let_def whole)
  qed
qed

lemma beyond_tail:
  assumes "wf_log l" "tailIndex l \<le> k" "eIndex h = k"
  shows "drop (nat (k - base l) + 1) l = []"
  using assms base_le_tailIndex [of l] by (auto simp: tailIndex_def wf_logD)

text \<open>
  Installing a leader's snapshot: a snapshot older than the commit index is refused and
  changes nothing; any other replaces the log up to its index, keeps the entries after it,
  moves the commit index and the last applied index to it, and reaches stable storage together
  with the log.
\<close>

lemma install_snapshot:
  assumes "wf_log (rf_log rf)" "base (rf_log rf) \<le> rf_commitIndex rf"
  shows "\<exists>rf'. CondInstallSnapshot t k snap rf = Inr (rf', rf_commitIndex rf \<le> k) \<and>
     (k < rf_commitIndex rf \<longrightarrow> rf' = rf) \<and>
     (rf_commitIndex rf \<le> k \<longrightarrow> wf_log (rf_log rf') \<and> base (rf_log rf') = k \<and>
        tailIndex (rf_log rf') = max k (tailIndex (rf_log rf)) \<and> eTerm (hd (rf_log rf')) = t \<and>
        (\<forall>i > k. GetLogAtIndex (rf_log rf') i = GetLogAtIndex (rf_log rf) i) \<and>
        rf_commitIndex rf' = k \<and> rf_lastApplied rf' = k \<and>
        ReadSnapshot (rf_persister rf') = snap \<and>
        ReadRaftState (rf_persister rf') = serializeState rf')"
proof (cases "rf_commitIndex rf \<le> k")
  case False
  then show ?thesis by (simp add: CondInstallSnapshot_def)
next
  case True
  let ?l = "rf_log rf" and ?h = "\<lparr>eTerm = t, eIndex = k, eCommand = None\<rparr>"
  let ?l' = "?h # drop (nat (k - base ?l) + 1) ?l"
  have ne: "?l \<noteq> []" using assms(1) by auto
  have "wf_log ?l' \<and> base ?l' = k \<and> tailIndex ?l' = max k (tailIndex ?l) \<and>
      (\<forall>i > k. lookup ?l' i = lookup ?l i)"
  proof (cases "tailIndex ?l \<le> k")
    case t: True
    have "drop (nat (k - base ?l) + 1) ?l = []" by (rule beyond_tail [OF assms(1) t, of ?h]) simp
    then show ?thesis using t by (simp add: base_def tailIndex_def lookup_def)
  next
    case t: False
    then show ?thesis using compacted [OF assms(1), of k ?h] assms(2) True by auto
  qed
  with True CondInstallSnapshot_installs [OF assms True, of t snap] ne show ?thesis
    by (simp add: Let_def GetLogAtIndex_lookup ps.storage_simps serializeState_def)
qed

lemma install_snapshot_witness:
  "\<exists>rf'. CondInstallSnapshot 1 1 [7] sampleNode = Inr (rf', True) \<and> base (rf_log rf') = 1 \<and>
     tailIndex (rf_log rf') = 2 \<and> rf_lastApplied rf' = 1 \<and> ReadSnapshot (rf_persister rf') = [7]"
proof -
  have "rf_commitIndex sampleNode = 0" by (simp add: sampleNode_def)
  then show ?thesis
    using install_snapshot [OF sample_wf(1), of 1 1 "[7]"] sample_wf(2,3) by auto
qed

section \<open>Votes\<close>

text \<open>
  C28. Granting a vote: the handler answers every request, and grants exactly those of a term not
  older than its own, when it has not given this term's vote to another candidate, and the
  candidate's last entry is at least as recent (by term, then by index) as its own. A granted
  vote is on stable storage before the reply.
\<close>

theorem vote_granted_iff:
  assumes "rf_log rf \<noteq> []"
  shows "\<exists>rf' reply. RequestVote now args rf = Inr (rf', reply) \<and>
     rf_term rf' = max (rf_term rf) (rvTerm args) \<and> rvrTerm reply = rf_term rf \<and>
     rf_log rf' = rf_log rf \<and>
     (rvrVoteGranted reply \<longleftrightarrow> rf_term rf \<le> rvTerm args \<and>
        (rf_term rf < rvTerm args \<or> rf_votedFor rf \<in> {-1, rvCandidateId args}) \<and>
        (eTerm (last (rf_log rf)) < rvLastLogTerm args \<or>
         eTerm (last (rf_log rf)) = rvLastLogTerm args \<and>
         eIndex (last (rf_log rf)) \<le> rvLastLogIndex args)) \<and>
     (rvrVoteGranted reply \<longrightarrow> rf_votedFor rf' = rvCandidateId args \<and>
        ReadRaftState (rf_persister rf') = serializeState rf')"
proof -
  let ?ok = "if rvLastLogTerm args = eTerm (last (rf_log rf))
    then rvLastLogIndex args \<ge> eIndex (last (rf_log rf)) else rvLastLogTerm args \<ge> eTerm (last (rf_log rf))"
  have up: "isAtLeastUpToDate args (rf_log rf) = Inr ?ok"
    using assms by (simp add: isAtLeastUpToDate_def)
  have ok: "?ok \<longleftrightarrow> eTerm (last (rf_log rf)) < rvLastLogTerm args \<or>
         eTerm (last (rf_log rf)) = rvLastLogTerm args \<and> eIndex (last (rf_log rf)) \<le> rvLastLogIndex args"
    by auto
  consider "rvTerm args < rf_term rf" | "rvTerm args = rf_term rf" | "rf_term rf < rvTerm args"
    by linarith
  then show ?thesis
    by cases (auto simp: RequestVote_def Let_def up node_simps ReadRaftState_def not_less)
qed

lemma vote_granted_iff_witness:
  "\<exists>rf' reply. RequestVote 3 \<lparr>rvTerm = 2, rvCandidateId = 0, rvLastLogIndex = 2, rvLastLogTerm = 1\<rparr>
       sampleNode = Inr (rf', reply) \<and> rvrVoteGranted reply \<and> rf_votedFor rf' = 0 \<and> rf_term rf' = 2"
proof -
  have "rf_log sampleNode \<noteq> []" "rf_term sampleNode = 1" "eTerm (last (rf_log sampleNode)) = 1"
    "eIndex (last (rf_log sampleNode)) = 2" by (simp_all add: sampleNode_def)
  then show ?thesis
    using vote_granted_iff [of sampleNode 3
        "\<lparr>rvTerm = 2, rvCandidateId = 0, rvLastLogIndex = 2, rvLastLogTerm = 1\<rparr>"] by auto
qed

end
