(* ===== verification/Raft_Cluster_Log.thy ===== *)
theory Raft_Cluster_Log
  imports Raft_Run Raft_Leader Raft_Apply
begin

text \<open>
  The logs of a cluster: in every reachable state each log is non-empty and has consecutive
  indices, no entry is of a later term than its server, and every call under way carries
  consecutive entries. So a server that receives a call never panics on it. Terms never go back.
\<close>

section \<open>The invariant\<close>

text \<open>A server's log, and what a call or a queued snapshot may bring into one.\<close>

definition log_ok :: "('c, 's) Raft \<Rightarrow> bool" where
  "log_ok rf \<longleftrightarrow> wf_log (rf_log rf) \<and> 0 \<le> base (rf_log rf) \<and> (\<forall>e \<in> set (rf_log rf). eTerm e \<le> rf_term rf)"

fun call_ok :: "('c, 's) rpc \<Rightarrow> bool" where
  "call_ok (AppReq i p args) = (contig (aePrevLogIndex args + 1) (aeEntries args) \<and>
     0 \<le> aePrevLogIndex args \<and> (\<forall>e \<in> set (aeEntries args). eTerm e \<le> aeTerm args))"
| "call_ok (SnapReq i p args') = (0 \<le> isLastIncludedIndex args' \<and> isLastIncludedTerm args' \<le> isTerm args')"
| "call_ok m = True"

definition pend_ok :: "('c, 's) Raft \<Rightarrow> ('c, 's) ApplyMsg \<Rightarrow> bool" where
  "pend_ok rf m \<longleftrightarrow> 0 \<le> amSnapshotIndex m \<and> amSnapshotTerm m \<le> rf_term rf"

definition logs_ok :: "nat \<Rightarrow> ('c, 's) cluster \<Rightarrow> bool" where
  "logs_ok n cl \<longleftrightarrow> (\<forall>i \<in> servers n. log_ok (cl_node cl i)) \<and> (\<forall>m \<in># cl_net cl. call_ok m) \<and>
     (\<forall>i \<in> servers n. \<forall>m \<in># cl_pend cl i. pend_ok (cl_node cl i) m)"

lemma log_okI: "wf_log l \<Longrightarrow> 0 \<le> base l \<Longrightarrow> (\<And>e. e \<in> set l \<Longrightarrow> eTerm e \<le> rf_term rf) \<Longrightarrow>
    rf_log rf = l \<Longrightarrow> log_ok rf"
  by (auto simp: log_ok_def)

lemma log_okD:
  assumes "log_ok rf"
  shows "wf_log (rf_log rf)" "0 \<le> base (rf_log rf)" "e \<in> set (rf_log rf) \<Longrightarrow> eTerm e \<le> rf_term rf"
  using assms by (auto simp: log_ok_def)

lemma log_ok_same: "log_ok rf \<Longrightarrow> rf_log rf' = rf_log rf \<Longrightarrow> rf_term rf \<le> rf_term rf' \<Longrightarrow> log_ok rf'"
  by (force simp: log_ok_def)

text \<open>Terms only grow under every operation.\<close>

lemma effect_term:
  "sameVote rf rf' \<or> laterTerm rf rf' \<or> yields t rf rf' \<Longrightarrow> rf_term rf \<le> rf_term rf'"
  by (auto simp: vote_defs)

lemma RequestVote_term: "RequestVote now args rf = Inr (rf', reply) \<Longrightarrow> rf_term rf \<le> rf_term rf'"
  by (erule RequestVote_vote) (auto simp: vote_defs)

lemma handleVoteReply_term: "handleVoteReply args reply rf w = Inr (rf', w') \<Longrightarrow> rf_term rf \<le> rf_term rf'"
  by (erule handleVoteReply_vote) (auto simp: vote_defs)

text \<open>Operations that leave the log alone.\<close>

lemma log_unchanged:
  "DoElection now r rf = Inr (rf', x) \<Longrightarrow> rf_log rf' = rf_log rf"
  "RequestVote now rargs rf = Inr (rf', y) \<Longrightarrow> rf_log rf' = rf_log rf"
  "handleVoteReply rargs rreply rf w = Inr (rf', w') \<Longrightarrow> rf_log rf' = rf_log rf"
  "handleAppendReply p aargs areply rf = Inr rf' \<Longrightarrow> rf_log rf' = rf_log rf"
  "handleInstallReply p sargs sreply rf = Inr rf' \<Longrightarrow> rf_log rf' = rf_log rf"
  "InstallSnapshot now sargs rf = (rf', z) \<Longrightarrow> rf_log rf' = rf_log rf"
  "DoApply rf = Inr (rf', v) \<Longrightarrow> rf_log rf' = rf_log rf"
proof -
  show "DoElection now r rf = Inr (rf', x) \<Longrightarrow> rf_log rf' = rf_log rf"
    by (auto simp: DoElection_def node_simps Let_def elim!: rbind_InrE split: if_splits)
  show "RequestVote now rargs rf = Inr (rf', y) \<Longrightarrow> rf_log rf' = rf_log rf"
    by (auto simp: RequestVote_def node_simps Let_def elim!: rbind_InrE split: if_splits)
  show "handleVoteReply rargs rreply rf w = Inr (rf', w') \<Longrightarrow> rf_log rf' = rf_log rf"
    by (auto simp: handleVoteReply_def winElection_def node_simps Let_def elim!: rbind_InrE split: if_splits)
  show "handleAppendReply p aargs areply rf = Inr rf' \<Longrightarrow> rf_log rf' = rf_log rf"
    by (auto simp: handleAppendReply_def node_simps Let_def elim!: rbind_InrE split: if_splits)
  show "handleInstallReply p sargs sreply rf = Inr rf' \<Longrightarrow> rf_log rf' = rf_log rf"
    by (auto simp: handleInstallReply_def node_simps elim!: rbind_InrE split: if_splits)
  show "InstallSnapshot now sargs rf = (rf', z) \<Longrightarrow> rf_log rf' = rf_log rf"
    by (auto simp: InstallSnapshot_def Let_def split: if_splits)
  show "DoApply rf = Inr (rf', v) \<Longrightarrow> rf_log rf' = rf_log rf"
    by (auto simp: DoApply_def Let_def elim!: rbind_InrE split: if_splits option.splits)
qed

text \<open>Operations that change it.\<close>

lemma mergeLoop_subset: "mergeLoop l i a es = Inr (l', a') \<Longrightarrow> x \<in> set l' \<Longrightarrow> x \<in> set l"
proof (induction es arbitrary: i a)
  case (Cons e es)
  then show ?case
    by (auto simp: slice_to_Inr_iff elim!: rbind_InrE split: option.splits if_splits)
      (meson in_set_takeD)
qed auto

lemma mergeEntries_subset:
  "mergeEntries l es = Inr l' \<Longrightarrow> x \<in> set l' \<Longrightarrow> x \<in> set l \<or> x \<in> set es"
  by (auto simp: mergeEntries_def elim!: rbind_InrE split: if_splits)
    (meson mergeLoop_subset in_set_dropD)+

lemma AppendEntries_entries:
  assumes "AppendEntries now args rf = Inr (rf', reply)"
  shows "rf_log rf' = rf_log rf \<or>
    rf_term rf' = aeTerm args \<and> rf_term rf \<le> aeTerm args \<and> set (rf_log rf') \<subseteq> set (rf_log rf) \<union> set (aeEntries args)"
proof (cases "aeTerm args < rf_term rf")
  case True
  with assms show ?thesis by (simp add: AppendEntries_def Let_def)
next
  case False
  let ?rf1 = "followSender (aeTerm args) (rf\<lparr>rf_lastHeartbeat := now\<rparr>)"
  have "rf_term ?rf1 = aeTerm args" using False by (intro followSender_term) simp
  with assms False show ?thesis
    by (auto simp: AppendEntries_def Let_def persist_def elim!: rbind_InrE
        split: if_splits option.splits) (meson mergeEntries_subset)+
qed

lemma AppendEntries_log_ok:
  assumes "AppendEntries now args rf = Inr (rf', reply)" "log_ok rf" "call_ok (AppReq i p args)"
  shows "log_ok rf'"
proof -
  have c: "contig (aePrevLogIndex args + 1) (aeEntries args)" "0 \<le> aePrevLogIndex args"
    "e \<in> set (aeEntries args) \<Longrightarrow> eTerm e \<le> aeTerm args" for e
    using assms(3) by auto
  have wf: "wf_log (rf_log rf')" "base (rf_log rf') = base (rf_log rf)"
    using AppendEntries_total [OF log_okD(1) [OF assms(2)] c(1) log_okD(2) [OF assms(2)] c(2), of now]
      assms(1) by auto
  have "rf_term rf \<le> rf_term rf'" using effect_term [OF AppendEntries_vote [OF assms(1)]] .
  then have "eTerm e \<le> rf_term rf'" if "e \<in> set (rf_log rf')" for e
    using AppendEntries_entries [OF assms(1)] that c(3) [of e] log_okD(3) [OF assms(2), of e] by auto
  with wf log_okD(2) [OF assms(2)] show ?thesis by (auto simp: log_ok_def)
qed

lemma Start_log_ok: "Start cmd rf = Inr (rf', x) \<Longrightarrow> log_ok rf \<Longrightarrow> log_ok rf'"
proof (cases "rf_state rf = Leader")
  case True
  assume s: "Start cmd rf = Inr (rf', x)" and ok: "log_ok rf"
  note wf = log_okD(1) [OF ok]
  let ?e = "\<lparr>eTerm = rf_term rf, eIndex = tailIndex (rf_log rf) + 1, eCommand = Some cmd\<rparr>"
  have "rf_log rf' = rf_log rf @ [?e]" "rf_term rf' = rf_term rf"
    using s True wf wf_log_last [OF wf]
    by (auto simp: Start_def Let_def persist_def wf_logD elim!: rbind_InrE)
  moreover have "wf_log (rf_log rf @ [?e])" using wf by (intro wf_log_append) simp_all
  ultimately show ?thesis using log_okD [OF ok] wf by (auto simp: log_ok_def wf_logD)
qed (simp add: Start_def)

lemma Snapshot_log_ok: "Snapshot k snap rf = Inr rf' \<Longrightarrow> log_ok rf \<Longrightarrow> log_ok rf'"
proof (cases "base (rf_log rf) \<le> k \<and> k \<le> tailIndex (rf_log rf)")
  case True
  assume s: "Snapshot k snap rf = Inr rf'" and ok: "log_ok rf"
  let ?j = "nat (k - base (rf_log rf))"
  let ?h = "(rf_log rf ! ?j)\<lparr>eCommand := None\<rparr>"
  have j: "?j < length (rf_log rf)" using True by (auto simp: tailIndex_def)
  have h: "eIndex ?h = k" using wf_log_nth [OF log_okD(1) [OF ok] j] True by simp
  have rf': "rf_log rf' = ?h # drop (?j + 1) (rf_log rf)" "rf_term rf' = rf_term rf"
    using s Snapshot_inside [OF log_okD(1) [OF ok], of k snap] True by (auto simp: Let_def)
  have "eTerm e \<le> rf_term rf" if "e \<in> set (rf_log rf')" for e
    using that log_okD(3) [OF ok] nth_mem [OF j] by (auto simp: rf'(1) dest: in_set_dropD)
  moreover have "0 \<le> k" using True log_okD(2) [OF ok] by simp
  ultimately show ?thesis
    using compacted(1,2) [OF log_okD(1) [OF ok] _ _ h] True rf' by (simp add: log_ok_def)
next
  case False
  assume "Snapshot k snap rf = Inr rf'" and ok: "log_ok rf"
  then show ?thesis using find_index_none [OF log_okD(1) [OF ok], of k] False
    by (auto simp: Snapshot_def not_le)
qed

lemma CondInstallSnapshot_log:
  assumes "CondInstallSnapshot t k snap rf = Inr (rf', b)" "wf_log (rf_log rf)"
  shows "rf' = rf \<or> rf_term rf' = rf_term rf \<and> wf_log (rf_log rf') \<and> base (rf_log rf') = k \<and>
    (\<forall>e \<in> set (rf_log rf'). eTerm e = t \<or> e \<in> set (rf_log rf))"
proof (cases "k < rf_commitIndex rf")
  case True
  with assms(1) show ?thesis by (simp add: CondInstallSnapshot_def)
next
  case False
  let ?l = "rf_log rf"
  obtain l where l: "(if k \<ge> tailIndex ?l then slice_to ?l 1 else slice_from ?l (k - base ?l)) = Inr l"
    "l \<noteq> []" "rf_log rf' = (hd l)\<lparr>eIndex := k, eTerm := t, eCommand := None\<rparr> # tl l"
    "rf_term rf' = rf_term rf"
    using assms False wf_log_last [OF assms(2)] wf_logD(1) [OF assms(2)]
    by (auto simp: CondInstallSnapshot_def Let_def put_Inr_iff at_Inr_iff hd_conv_nth neq_Nil_conv
        elim!: rbind_InrE split: if_splits)
  have "contig (k + 1) (tl l)" "set (tl l) \<subseteq> set ?l"
  proof -
    have "tl l = [] \<or> base ?l \<le> k \<and> tl l = drop (nat (k - base ?l) + 1) ?l"
      using l(1) by (auto simp: slice_to_Inr_iff slice_from_Inr_iff tl_drop drop_Suc split: if_splits)
        (cases ?l; simp)+
    then show "contig (k + 1) (tl l)" "set (tl l) \<subseteq> set ?l"
      using contig_drop [OF wf_logD(2) [OF assms(2)], of "nat (k - base ?l) + 1"]
      by (auto simp: algebra_simps dest: in_set_dropD)
  qed
  then show ?thesis using l(3,4) by (auto simp: wf_log_Cons base_def)
qed

lemma CondInstallSnapshot_log_ok:
  assumes "CondInstallSnapshot t k snap rf = Inr (rf', b)" "log_ok rf" "0 \<le> k" "t \<le> rf_term rf"
  shows "log_ok rf'"
  using CondInstallSnapshot_log [OF assms(1) log_okD(1) [OF assms(2)]] assms(2-4)
  by (force simp: log_ok_def)

lemma Make_restart_log:
  assumes "Make n i (Copy (rf_persister rf)) r = Inr rf'" "node_ok n i rf"
  shows "rf_log rf' = rf_log rf" "rf_term rf' = rf_term rf"
  using Make_restart [OF assms(2), of r] assms(1) by auto

section \<open>What a leader sends\<close>

lemma wf_base_nth: "wf_log l \<Longrightarrow> e \<in> set l \<Longrightarrow> base l \<le> eIndex e"
  by (auto simp: in_set_conv_nth wf_log_nth)

lemma mapR_set: "mapR f xs = Inr ys \<Longrightarrow> y \<in> set ys \<Longrightarrow> \<exists>x \<in> set xs. f x = Inr y"
  by (induction xs arbitrary: ys) (auto elim!: rbind_InrE)

lemma Replicate_call_ok:
  assumes "Replicate p rf = Inr (Some (CallAppendEntries args))" "log_ok rf"
  shows "call_ok (AppReq i p args)"
proof -
  let ?l = "rf_log rf"
  note wf = log_okD(1) [OF assms(2)]
  have ne: "?l \<noteq> []" using wf by auto
  obtain ni prev where ni: "base ?l < ni" "lookup ?l (ni - 1) = Some prev"
    and es: "mapR (\<lambda>j. rbind (Inr (lookup ?l j)) (\<lambda>p.
            case p of None \<Rightarrow> Inl (Panic ''atIndex == nil'') | Some entry \<Rightarrow> Inr entry))
          [ni..tailIndex ?l] = Inr (aeEntries args)"
    and args: "aePrevLogIndex args = eIndex prev" "aeTerm args = rf_term rf"
    using assms(1) ne wf_log_last [OF wf]
    by (auto simp: Replicate_def base_def [symmetric] GetLogAtIndex_lookup deref_def not_le
        elim!: rbind_InrE split: if_splits option.splits)
  have prev: "eIndex prev = ni - 1" "ni - 1 \<le> tailIndex ?l"
    using ni wf_log_nth [OF wf] by (auto simp: lookup_def tailIndex_def split: if_splits)
  have "aeEntries args = drop (nat (ni - base ?l)) ?l"
    using mapR_suffix [OF wf, of ni] es ni(1) prev(2) by (simp add: GetLogAtIndex_lookup ne)
  then show ?thesis
    using args prev(1) contig_suffix [OF wf, of ni] ni(1) log_okD(2,3) [OF assms(2)]
    by (auto dest: in_set_dropD)
qed

lemma Replicate_snap_ok:
  assumes "Replicate p rf = Inr (Some (CallInstallSnapshot args))" "log_ok rf"
  shows "call_ok (SnapReq i p args)"
proof -
  have ne: "rf_log rf \<noteq> []" using log_okD(1) [OF assms(2)] by auto
  then have "isLastIncludedIndex args = base (rf_log rf)" "isLastIncludedTerm args = eTerm (hd (rf_log rf))"
    "isTerm args = rf_term rf"
    using assms(1) by (auto simp: Replicate_def base_def elim!: rbind_InrE split: if_splits)
  then show ?thesis using log_okD(2,3) [OF assms(2)] ne by simp
qed

section \<open>Every step keeps the invariant\<close>

lemma logs_okD:
  assumes "logs_ok n cl"
  shows "i \<in> servers n \<Longrightarrow> log_ok (cl_node cl i)" "m \<in># cl_net cl \<Longrightarrow> call_ok m"
    "i \<in> servers n \<Longrightarrow> x \<in># cl_pend cl i \<Longrightarrow> pend_ok (cl_node cl i) x"
  using assms by (auto simp: logs_ok_def)

lemma logs_ok_step:
  assumes "logs_ok n cl"
    and "\<And>j. j \<in> servers n \<Longrightarrow> cl_node cl' j = cl_node cl j \<or>
        log_ok (cl_node cl' j) \<and> rf_term (cl_node cl j) \<le> rf_term (cl_node cl' j)"
    and "\<And>m. m \<in># cl_net cl' \<Longrightarrow> m \<in># cl_net cl \<or> call_ok m"
    and "\<And>j m. j \<in> servers n \<Longrightarrow> m \<in># cl_pend cl' j \<Longrightarrow> m \<in># cl_pend cl j \<or> pend_ok (cl_node cl' j) m"
  shows "logs_ok n cl'"
proof -
  have "pend_ok (cl_node cl' j) m" if "j \<in> servers n" "pend_ok (cl_node cl j) m" for j m
    using assms(2) [OF that(1)] that(2) by (auto simp: pend_ok_def)
  with assms show ?thesis unfolding logs_ok_def by metis
qed

lemma logs_ok_node:
  assumes "logs_ok n cl" "log_ok rf" "rf_term (cl_node cl i) \<le> rf_term rf"
    and "\<And>m. m \<in># net \<Longrightarrow> m \<in># cl_net cl \<or> call_ok m"
    and "cl_node cl' = (cl_node cl)(i := rf)" "cl_net cl' = net"
    and "\<And>j m. m \<in># cl_pend cl' j \<Longrightarrow> m \<in># cl_pend cl j"
  shows "logs_ok n cl'"
  using assms(1) by (rule logs_ok_step) (use assms(2-7) in auto)

lemma logs_ok_same_log:
  assumes "logs_ok n cl" "i \<in> servers n" "rf_log rf = rf_log (cl_node cl i)"
    and "rf_term (cl_node cl i) \<le> rf_term rf"
    and "\<And>m. m \<in># net \<Longrightarrow> m \<in># cl_net cl \<or> call_ok m"
    and "cl_node cl' = (cl_node cl)(i := rf)" "cl_net cl' = net"
    and "\<And>j m. m \<in># cl_pend cl' j \<Longrightarrow> m \<in># cl_pend cl j"
  shows "logs_ok n cl'"
  using assms(1) log_ok_same [OF logs_okD(1) [OF assms(1,2)] assms(3,4)] assms(4-8)
  by (rule logs_ok_node)

lemma setters [simp]:
  "cl_pend (setNode i rf cl) = cl_pend cl" "cl_pend (setNet net cl) = cl_pend cl"
  "cl_applied (setNode i rf cl) = cl_applied cl" "cl_applied (setNet net cl) = cl_applied cl"
  by (simp_all add: setNode_def setNet_def)

lemma in_replaced: "m \<in># M - {#x#} + {#y#} \<Longrightarrow> m \<in># M \<or> m = y"
  by (auto dest: in_diffD)

lemma cstep_logs_ok:
  assumes "cstep n cl cl'" "logs_ok n cl" "cluster_ok n A cl"
  shows "logs_ok n cl'"
  using assms
proof (induction rule: cstep.induct)
  case (elect i now r cl rf args)
  show ?case
    by (rule logs_ok_same_log [OF elect.prems(1) elect.hyps(1) log_unchanged(1) [OF elect.hyps(2)]])
      (use DoElection_vote(3) [OF elect.hyps(2)] in auto)
next
  case (recvVote c v args cl now rf reply)
  have v: "v \<in> servers n" using cluster_okD(2) [OF recvVote.prems(2) recvVote.hyps(1)] by simp
  show ?case
    by (rule logs_ok_same_log [OF recvVote.prems(1) v log_unchanged(2) [OF recvVote.hyps(2)]
          RequestVote_term [OF recvVote.hyps(2)]]) (auto dest: in_diffD)
next
  case (voteReply c v args reply cl rf w)
  have c: "c \<in> servers n" using cluster_okD(2) [OF voteReply.prems(2) voteReply.hyps(1)] by simp
  show ?case
    by (rule logs_ok_same_log [OF voteReply.prems(1) c log_unchanged(3) [OF voteReply.hyps(2)]
          handleVoteReply_term [OF voteReply.hyps(2)]]) (auto dest: in_diffD)
next
  case (sendAppend i p cl aargs)
  have "call_ok (AppReq i p aargs)"
    by (rule Replicate_call_ok [OF sendAppend.hyps(4) logs_okD(1) [OF sendAppend.prems(1) sendAppend.hyps(1)]])
  then show ?case by (intro logs_ok_step [OF sendAppend.prems(1)]) auto
next
  case (recvAppend i p aargs cl now rf areply)
  have p: "p \<in> servers n" using cluster_okD(2) [OF recvAppend.prems(2) recvAppend.hyps(1)] by simp
  show ?case
    by (rule logs_ok_node [OF recvAppend.prems(1) AppendEntries_log_ok [OF recvAppend.hyps(2)
            logs_okD(1) [OF recvAppend.prems(1) p] logs_okD(2) [OF recvAppend.prems(1) recvAppend.hyps(1)]]
          effect_term [OF AppendEntries_vote [OF recvAppend.hyps(2)]]]) (auto dest: in_diffD)
next
  case (appendReply i p aargs areply cl rf)
  have i: "i \<in> servers n" using cluster_okD(2) [OF appendReply.prems(2) appendReply.hyps(1)] by simp
  have t: "rf_term (cl_node cl i) \<le> rf_term rf"
    using handleAppendReply_vote [OF appendReply.hyps(2)] by (auto simp: vote_defs)
  show ?case
    by (rule logs_ok_same_log [OF appendReply.prems(1) i log_unchanged(4) [OF appendReply.hyps(2)] t])
      (auto dest: in_diffD)
next
  case (sendSnap i p cl sargs)
  have "call_ok (SnapReq i p sargs)"
    by (rule Replicate_snap_ok [OF sendSnap.hyps(4) logs_okD(1) [OF sendSnap.prems(1) sendSnap.hyps(1)]])
  then show ?case by (intro logs_ok_step [OF sendSnap.prems(1)]) auto
next
  case (recvSnap i p sargs cl now rf sreply msg)
  have p: "p \<in> servers n" using cluster_okD(2) [OF recvSnap.prems(2) recvSnap.hyps(1)] by simp
  have t: "rf_term (cl_node cl p) \<le> rf_term rf"
    using effect_term [OF InstallSnapshot_vote [OF recvSnap.hyps(2)]] .
  have ok: "log_ok rf"
    using log_ok_same [OF logs_okD(1) [OF recvSnap.prems(1) p] log_unchanged(6) [OF recvSnap.hyps(2)] t] .
  have m: "pend_ok rf x" if "msg = Some x" for x
    using that recvSnap.hyps(2) logs_okD(2) [OF recvSnap.prems(1) recvSnap.hyps(1)]
      followSender_term [of "(cl_node cl p)\<lparr>rf_lastHeartbeat := now\<rparr>" "isTerm sargs"]
    by (auto simp: InstallSnapshot_def Let_def pend_ok_def split: if_splits)
  show ?case
    by (rule logs_ok_step [OF recvSnap.prems(1)]) (use ok t m in \<open>auto dest: in_diffD\<close>)
next
  case (snapReply i p sargs sreply cl rf)
  have i: "i \<in> servers n" using cluster_okD(2) [OF snapReply.prems(2) snapReply.hyps(1)] by simp
  have t: "rf_term (cl_node cl i) \<le> rf_term rf"
    using handleInstallReply_vote [OF snapReply.hyps(2)] by (auto simp: vote_defs)
  show ?case
    by (rule logs_ok_same_log [OF snapReply.prems(1) i log_unchanged(5) [OF snapReply.hyps(2)] t])
      (auto dest: in_diffD)
next
  case (startCmd i cmd cl rf x)
  have "rf_term (cl_node cl i) \<le> rf_term rf" using Start_vote [OF startCmd.hyps(2)] by (simp add: sameVote_def)
  then show ?case
    by (intro logs_ok_node [OF startCmd.prems(1) Start_log_ok [OF startCmd.hyps(2)
            logs_okD(1) [OF startCmd.prems(1) startCmd.hyps(1)]]]) auto
next
  case (applyEntry i cl rf m)
  have t: "rf_term (cl_node cl i) \<le> rf_term rf" using DoApply_vote [OF applyEntry.hyps(2)] by (simp add: sameVote_def)
  show ?case
    by (rule logs_ok_same_log [OF applyEntry.prems(1) applyEntry.hyps(1) log_unchanged(7) [OF applyEntry.hyps(2)] t]) auto
next
  case (takeSnapshot i m cl snap rf)
  have "rf_term (cl_node cl i) \<le> rf_term rf" using Snapshot_vote [OF takeSnapshot.hyps(3)] by (simp add: sameVote_def)
  then show ?case
    by (intro logs_ok_node [OF takeSnapshot.prems(1) Snapshot_log_ok [OF takeSnapshot.hyps(3)
            logs_okD(1) [OF takeSnapshot.prems(1) takeSnapshot.hyps(1)]]]) auto
next
  case (installSnapshot i m cl rf b)
  have t: "rf_term (cl_node cl i) \<le> rf_term rf"
    using CondInstallSnapshot_vote [OF installSnapshot.hyps(3)] by (simp add: sameVote_def)
  have "pend_ok (cl_node cl i) m" using logs_okD(3) [OF installSnapshot.prems(1) installSnapshot.hyps(1,2)] .
  then have "log_ok rf"
    using CondInstallSnapshot_log_ok [OF installSnapshot.hyps(3)
        logs_okD(1) [OF installSnapshot.prems(1) installSnapshot.hyps(1)]] by (simp add: pend_ok_def)
  then show ?case using t
    by (intro logs_ok_node [OF installSnapshot.prems(1)]) (auto dest: in_diffD split: if_splits)
next
  case (loseMsgs net cl)
  then show ?case by (intro logs_ok_step [OF loseMsgs.prems(1)]) (auto dest: mset_subset_eqD)
next
  case (crash i cl r rf)
  note same = Make_restart_log [OF crash.hyps(2) cluster_okD(1) [OF crash.prems(2) crash.hyps(1)]]
  show ?case
    by (rule logs_ok_same_log [OF crash.prems(1) crash.hyps(1) same(1)])
      (use same(2) in \<open>auto split: if_splits\<close>)
qed

lemma reachable_logs_ok: "reachable n cl \<Longrightarrow> logs_ok n cl"
proof (induction rule: reachable.induct)
  case (init cl)
  have "log_ok (cl_node cl i)" if i: "i \<in> servers n" for i
  proof -
    obtain r where "Make n i MakePersister r = Inr (cl_node cl i)" using init i by (auto simp: cluster_init_def)
    note rf = sym [OF trans [OF this [symmetric] Make_fresh, THEN Inr_inject]]
    show ?thesis unfolding rf [symmetric] by (simp add: log_ok_def base_def sentinel_def)
  qed
  with init show ?case by (auto simp: logs_ok_def cluster_init_def)
next
  case (step cl cl')
  then show ?case using reachable_inv [of n cl] cstep_logs_ok unfolding cinv_def by blast
qed

section \<open>Properties\<close>

text \<open>
  C26. Logs of reachable clusters: whatever was sent, lost, truncated, compacted or installed,
  the log of every server is non-empty, starts at an index that is not negative, has
  consecutive indices, and holds no entry of a term later than the server's own.
\<close>

theorem cluster_logs:
  assumes "reachable n cl" "i \<in> servers n"
  shows "rf_log (cl_node cl i) \<noteq> [] \<and> 0 \<le> eIndex (hd (rf_log (cl_node cl i))) \<and>
     (\<forall>k < length (rf_log (cl_node cl i)).
        eIndex (rf_log (cl_node cl i) ! k) = eIndex (hd (rf_log (cl_node cl i))) + int k \<and>
        eTerm (rf_log (cl_node cl i) ! k) \<le> rf_term (cl_node cl i))"
proof -
  have ok: "log_ok (cl_node cl i)" using logs_okD(1) [OF reachable_logs_ok [OF assms(1)] assms(2)] .
  with log_okD [OF ok] wf_log_nth [OF log_okD(1) [OF ok]] show ?thesis by (auto simp: base_def)
qed

lemma cluster_logs_witness:
  "rf_log (cl_node demo4 0) \<noteq> [] \<and> 0 \<le> eIndex (hd (rf_log (cl_node demo4 0))) \<and>
   eTerm (rf_log (cl_node demo4 0) ! 1) \<le> 1"
  using cluster_logs [OF demo_reachable(4), of 0] by (auto simp: servers3 demo_log)

lemma RequestVote_total: "rf_log rf \<noteq> [] \<Longrightarrow> \<exists>rf' reply. RequestVote now args rf = Inr (rf', reply)"
  by (auto simp: RequestVote_def Let_def isAtLeastUpToDate_def node_simps)

lemma handleVoteReply_total:
  "node_ok n c rf \<Longrightarrow> 0 \<le> c \<Longrightarrow> c < int n \<Longrightarrow> \<exists>rf' w'. handleVoteReply args reply rf w = Inr (rf', w')"
  by (auto simp: handleVoteReply_def winElection_def Let_def node_ok_def)

text \<open>Calls and votes under way are handled without a panic, at whatever time they arrive.\<close>

lemma calls_never_panic:
  assumes "reachable n cl"
  shows "(\<forall>i p args. AppReq i p args \<in># cl_net cl \<longrightarrow>
        (\<exists>rf reply. AppendEntries now args (cl_node cl p) = Inr (rf, reply))) \<and>
     (\<forall>c v vargs. VoteReq c v vargs \<in># cl_net cl \<longrightarrow>
        (\<exists>rf reply. RequestVote now vargs (cl_node cl v) = Inr (rf, reply))) \<and>
     (\<forall>c v vargs vreply. VoteRep c v vargs vreply \<in># cl_net cl \<longrightarrow>
        (\<exists>rf w. handleVoteReply vargs vreply (cl_node cl c) (cl_vote cl c (rvTerm vargs)) = Inr (rf, w)))"
proof -
  obtain A where A: "cluster_ok n A cl" using reachable_inv [OF assms] unfolding cinv_def by blast
  note L = reachable_logs_ok [OF assms]
  have "\<exists>rf reply. AppendEntries now args (cl_node cl p) = Inr (rf, reply)"
    if m: "AppReq i p args \<in># cl_net cl" for i p args
  proof -
    have p: "p \<in> servers n" using cluster_okD(2) [OF A m] by simp
    have "contig (aePrevLogIndex args + 1) (aeEntries args)" "0 \<le> aePrevLogIndex args"
      using logs_okD(2) [OF L m] by auto
    with AppendEntries_total log_okD(1,2) [OF logs_okD(1) [OF L p]] show ?thesis by blast
  qed
  moreover have "\<exists>rf reply. RequestVote now vargs (cl_node cl v) = Inr (rf, reply)"
    if m: "VoteReq c v vargs \<in># cl_net cl" for c v vargs
    using cluster_okD(2) [OF A m] node_okD(4) [OF cluster_okD(1) [OF A]] by (auto intro: RequestVote_total)
  moreover have "\<exists>rf w. handleVoteReply vargs vreply (cl_node cl c) (cl_vote cl c (rvTerm vargs)) = Inr (rf, w)"
    if m: "VoteRep c v vargs vreply \<in># cl_net cl" for c v vargs vreply
  proof -
    have c: "c \<in> servers n" using cluster_okD(2) [OF A m] by simp
    show ?thesis using handleVoteReply_total [OF cluster_okD(1) [OF A c]] c by (auto simp: servers_def)
  qed
  ultimately show ?thesis by blast
qed

lemma step_terms:
  assumes "reachable n cl" "cstep n cl cl'"
  shows "rf_term (cl_node cl i) \<le> rf_term (cl_node cl' i)"
proof -
  obtain A where A: "cluster_ok n A cl" using reachable_inv [OF assms(1)] unfolding cinv_def by blast
  then obtain A' where "psteps n UNIV (elect_of cl A) (elect_of cl' A')"
    using cstep_simulates [OF assms(2) _ subset_UNIV] by (auto simp: simulated_def)
  moreover have "eterm e i \<le> eterm e' i" if "psteps n UNIV e e'" for e e'
    using that by (induction rule: rtranclp_induct) (auto elim!: estep.cases split: if_splits)
  ultimately show ?thesis by (metis elect_of_simps(2))
qed

lemma reachable_terms: "reachable n cl \<Longrightarrow> i \<in> servers n \<Longrightarrow> 0 \<le> rf_term (cl_node cl i)"
proof (induction rule: reachable.induct)
  case (init cl)
  then obtain r where "Make n i MakePersister r = Inr (cl_node cl i)" by (auto simp: cluster_init_def)
  then have "rf_term (cl_node cl i) = 0" by (simp add: Make_fresh) (drule sym, simp)
  then show ?case by simp
next
  case (step cl cl')
  then show ?case using step_terms [OF step.hyps(1,2), of i] by simp
qed

text \<open>
  Terms never go back: no step of a reachable cluster, a crash and restart included, lowers
  the term of a server.
\<close>

lemma terms_never_decrease:
  assumes "reachable n cl" "cstep n cl cl'" "i \<in> servers n"
  shows "rf_term (cl_node cl i) \<le> rf_term (cl_node cl' i)"
  by (rule step_terms [OF assms(1,2)])

lemma terms_never_decrease_witness: "rf_term (cl_node demo2 0) \<le> 1"
  using terms_never_decrease [OF demo_reachable(2) demo_reachable(3), of 0] demo_leader(3) by (simp add: servers3)

text \<open>
  A cluster of one server never has a leader: votes are only counted when the reply of
  another server arrives, so the server's own vote, a majority of one, elects nobody.
\<close>

lemma lone_server_never_leads:
  assumes "reachable 1 cl"
  shows "rf_state (cl_node cl 0) \<noteq> Leader"
proof -
  have "rf_state (cl_node cl 0) \<noteq> Leader \<and> cl_net cl = {#}" using assms
  proof (induction rule: reachable.induct)
    case (init cl)
    then show ?case using init_node(2) [OF init, of 0] by (simp add: cluster_init_def servers_def)
  next
    case (step cl cl')
    have one: "i \<in> servers 1 \<Longrightarrow> i = 0" for i by (simp add: servers_def)
    from step.hyps(2) step.IH show ?case
    proof (cases rule: cstep.cases)
      case (elect i now r rf args)
      have i: "i = 0" using one elect(2) .
      have none: "(\<lambda>v. VoteReq i v args) ` (servers 1 - {i}) = {}" using i by (auto simp: servers_def)
      show ?thesis
        using i elect(1) [unfolded none] step.IH DoElection_vote(2) [OF elect(3)] by simp
    next
      case (crash i r rf)
      have ok: "node_ok 1 i (cl_node cl i)" using reachable_node_ok [OF step.hyps(1) crash(2)] .
      from Make_restart [OF ok, of r] crash(3) have "rf_state rf = Follower" by auto
      with crash one step.IH show ?thesis by auto
    next
      case (startCmd i cmd rf x)
      with one step.IH Start_vote [OF startCmd(3)] show ?thesis by (auto simp: sameVote_def)
    next
      case (applyEntry i rf m)
      with one step.IH DoApply_vote [OF applyEntry(3)] show ?thesis by (auto simp: sameVote_def)
    next
      case (takeSnapshot i m snap rf)
      with one step.IH Snapshot_vote [OF takeSnapshot(4)] show ?thesis by (auto simp: sameVote_def)
    next
      case (installSnapshot i m rf b)
      with one step.IH CondInstallSnapshot_vote [OF installSnapshot(4)] show ?thesis by (auto simp: sameVote_def)
    qed (use one in auto)
  qed
  then show ?thesis ..
qed

definition lone0 :: "(string, nat) cluster" where
  "lone0 = \<lparr>cl_node = (\<lambda>i. projr (Make 1 i MakePersister 0)), cl_net = {#},
           cl_vote = (\<lambda>_ _. 0), cl_pend = (\<lambda>_. {#}), cl_applied = (\<lambda>_. [])\<rparr>"

definition lone1 :: "(string, nat) cluster" where
  "lone1 = setNode 0 (fst (projr (DoElection 600000000 0 (cl_node lone0 0))))
     (setNet (cl_net lone0 + mset_set ((\<lambda>v. VoteReq 0 v runVote) ` (servers 1 - {0})))
       (lone0\<lparr>cl_vote := (cl_vote lone0)(0 := (cl_vote lone0 0)(rvTerm runVote := 1))\<rparr>))"

lemma reachable_lone1: "reachable 1 lone1"
proof -
  have "Make 1 i MakePersister 0 = Inr (cl_node lone0 i)" for i by (simp add: lone0_def Make_fresh)
  then have "cluster_init 1 lone0" by (auto simp: cluster_init_def) (simp_all add: lone0_def)
  moreover have "DoElection 600000000 0 (cl_node lone0 0) =
      Inr (fst (projr (DoElection 600000000 0 (cl_node lone0 0))), Some runVote)"
    by (simp add: lone0_def run_nodes)
  then have "cstep 1 lone0 lone1" unfolding lone1_def by (intro cstep.elect) (auto simp: servers_def)
  ultimately show ?thesis by (blast intro: reachable.intros)
qed

end
