(* ===== verification/Agreement.thy ===== *)
theory Agreement
  imports Election
begin

text \<open>
  The abstract protocol of log replication: what \<^verbatim>\<open>raft.go\<close> does to logs, with clocks, messages
  and the snapshots' contents left out. A server has a term, a log and a commit index; the rest of the
  state is history: who led a term and with which log, which prefix of it a server acknowledged,
  the log a candidate stood for election with, the votes.

  The protocol is Raft with one difference. \<^verbatim>\<open>CondInstallSnapshot\<close> replaces a prefix of the log by
  the snapshot and keeps what follows without comparing terms, so a log may be a committed prefix
  with entries of another log after it, with terms that go down. Agreement holds nevertheless: such
  a log either is a log of the usual form or cannot win an election.
\<close>

section \<open>State\<close>

type_synonym 'c log = "'c LogEntry list"

record 'c rep =
  tm :: "int \<Rightarrow> int"                 \<comment> \<open>term of a server\<close>
  lg :: "int \<Rightarrow> 'c log"              \<comment> \<open>its log, snapshot included\<close>
  cm :: "int \<Rightarrow> nat"                 \<comment> \<open>its commit index\<close>
  led :: "int \<Rightarrow> int option"         \<comment> \<open>leader of a term\<close>
  ll :: "int \<Rightarrow> 'c log"              \<comment> \<open>the leader's log in its term\<close>
  n0 :: "int \<Rightarrow> nat"                 \<comment> \<open>its length at the election\<close>
  ack :: "int \<Rightarrow> int \<Rightarrow> nat"         \<comment> \<open>term, server: length of the prefix it acknowledged\<close>
  clog :: "int \<Rightarrow> int \<Rightarrow> 'c log"     \<comment> \<open>term, candidate: the log it stood with\<close>
  cast :: votes

definition ruled :: "'c rep \<Rightarrow> int \<Rightarrow> bool" where
  "ruled r T \<longleftrightarrow> led r T \<noteq> None"

definition lastT :: "'c log \<Rightarrow> int" where
  "lastT l = (if l = [] then 0 else eTerm (last l))"

definition sortedT :: "'c log \<Rightarrow> bool" where
  "sortedT l \<longleftrightarrow> sorted (map eTerm l)"

text \<open>A log of the usual form: every entry is where the leader of its term put it.\<close>

definition proper :: "'c rep \<Rightarrow> 'c log \<Rightarrow> bool" where
  "proper r l \<longleftrightarrow> (\<forall>k < length l. let T = eTerm (l ! k) in
     ruled r T \<and> n0 r T \<le> k \<and> take (Suc k) l = take (Suc k) (ll r T))"

text \<open>
  \<open>com\<close>: the first \<open>k\<close> entries of the leader of term \<open>T\<close> are committed, because a quorum
  acknowledged a prefix of its log that ends with an entry of \<open>T\<close>. \<open>blocked\<close>: no such quorum
  can ever arise for \<open>m\<close> entries. \<open>comm\<close>: the first \<open>k\<close> entries of \<open>P\<close> are committed, by term \<open>T\<close>.
\<close>

definition com :: "(int set \<Rightarrow> bool) \<Rightarrow> 'c rep \<Rightarrow> nat \<Rightarrow> int \<Rightarrow> bool" where
  "com quorum r k T \<longleftrightarrow> ruled r T \<and>
     (\<exists>m Q. k \<le> m \<and> n0 r T < m \<and> quorum Q \<and> (\<forall>v \<in> Q. m \<le> ack r T v))"

definition blocked :: "(int set \<Rightarrow> bool) \<Rightarrow> 'c rep \<Rightarrow> int \<Rightarrow> nat \<Rightarrow> bool" where
  "blocked quorum r T m \<longleftrightarrow> (\<exists>Q. quorum Q \<and> (\<forall>v \<in> Q. T < tm r v \<and> ack r T v < m))"

definition comm :: "(int set \<Rightarrow> bool) \<Rightarrow> 'c rep \<Rightarrow> nat \<Rightarrow> 'c log \<Rightarrow> int \<Rightarrow> bool" where
  "comm quorum r k P T \<longleftrightarrow> k = 0 \<or> (\<exists>T' \<le> T. com quorum r k T' \<and> take k P = take k (ll r T'))"

text \<open>What a leader may count: the server acknowledged the prefix, or it was committed anyway.\<close>

definition acked :: "(int set \<Rightarrow> bool) \<Rightarrow> 'c rep \<Rightarrow> int \<Rightarrow> int \<Rightarrow> nat \<Rightarrow> bool" where
  "acked quorum r T v m \<longleftrightarrow> m \<le> n0 r T \<or> m \<le> ack r T v \<or> (\<exists>U \<le> T. com quorum r m U)"

text \<open>A log as snapshots leave it, and the comparison of \<^verbatim>\<open>isAtLeastUpToDate\<close>.\<close>

definition patched :: "(int set \<Rightarrow> bool) \<Rightarrow> 'c rep \<Rightarrow> 'c log \<Rightarrow> int \<Rightarrow> bool" where
  "patched quorum r l T \<longleftrightarrow>
     (\<exists>s P b. l = take s P @ drop s b \<and> comm quorum r s P T \<and> proper r b \<and> sortedT b)"

definition dominates :: "'c log \<Rightarrow> int \<Rightarrow> nat \<Rightarrow> bool" where
  "dominates l T m \<longleftrightarrow> T < lastT l \<or> T = lastT l \<and> m \<le> length l"

definition upToDate :: "'c log \<Rightarrow> 'c log \<Rightarrow> bool" where
  "upToDate c l \<longleftrightarrow> dominates c (lastT l) (length l)"

section \<open>The invariant\<close>

definition lead_ok :: "int set \<Rightarrow> (int set \<Rightarrow> bool) \<Rightarrow> 'c rep \<Rightarrow> int \<Rightarrow> int \<Rightarrow> bool" where
  "lead_ok S quorum r T l \<longleftrightarrow> l \<in> S \<and> 0 < T \<and> T \<le> tm r l \<and> (tm r l = T \<longrightarrow> lg r l = ll r T) \<and>
     n0 r T \<le> length (ll r T) \<and> proper r (ll r T) \<and> sortedT (ll r T) \<and>
     (\<forall>k < length (ll r T). eTerm (ll r T ! k) \<le> T \<and> (n0 r T \<le> k \<longrightarrow> eTerm (ll r T ! k) = T)) \<and>
     (\<exists>Q. quorum Q \<and> (\<forall>v \<in> Q. T \<le> tm r v))"

definition slog_ok :: "(int set \<Rightarrow> bool) \<Rightarrow> 'c rep \<Rightarrow> int \<Rightarrow> bool" where
  "slog_ok quorum r v \<longleftrightarrow> 0 \<le> tm r v \<and> patched quorum r (lg r v) (tm r v) \<and> (\<forall>e \<in> set (lg r v). eTerm e \<le> tm r v) \<and>
     comm quorum r (cm r v) (lg r v) (tm r v)"

text \<open>What a server acknowledged it still has, unless that can no longer matter.\<close>

definition held :: "'c rep \<Rightarrow> int \<Rightarrow> nat \<Rightarrow> int \<Rightarrow> bool" where
  "held r T m v \<longleftrightarrow> take m (lg r v) = take m (ll r T) \<and> T \<le> lastT (lg r v)"

definition ack_ok :: "(int set \<Rightarrow> bool) \<Rightarrow> 'c rep \<Rightarrow> int \<Rightarrow> int \<Rightarrow> bool" where
  "ack_ok quorum r T v \<longleftrightarrow> (0 < ack r T v \<longrightarrow> ruled r T \<and> T \<le> tm r v \<and> ack r T v \<le> length (ll r T)) \<and>
     (\<forall>m. n0 r T < m \<longrightarrow> m \<le> ack r T v \<longrightarrow> blocked quorum r T m \<or> held r T m v)"

text \<open>A later leader starts with whatever may have been committed before.\<close>

definition safe_ok :: "(int set \<Rightarrow> bool) \<Rightarrow> 'c rep \<Rightarrow> int \<Rightarrow> int \<Rightarrow> nat \<Rightarrow> bool" where
  "safe_ok quorum r T U m \<longleftrightarrow> blocked quorum r T m \<or> m \<le> n0 r U \<and> take m (ll r U) = take m (ll r T)"

text \<open>A vote: the candidate's log covers what the voter acknowledged in earlier terms.\<close>

definition vote_ok :: "int set \<Rightarrow> (int set \<Rightarrow> bool) \<Rightarrow> 'c rep \<Rightarrow> int \<Rightarrow> int \<Rightarrow> int \<Rightarrow> bool" where
  "vote_ok S quorum r U v c \<longleftrightarrow> c \<in> S \<and> U \<le> tm r v \<and> U \<le> tm r c \<and> (U, c, c) \<in> cast r \<and>
     (\<forall>T m. T < U \<longrightarrow> n0 r T < m \<longrightarrow> m \<le> ack r T v \<longrightarrow>
        blocked quorum r T m \<or> dominates (clog r U c) T m)"

lemma vote_okI:
  assumes "c \<in> S" "U \<le> tm r v" "U \<le> tm r c" "(U, c, c) \<in> cast r"
    "\<And>T m. n0 r T < m \<Longrightarrow> m \<le> ack r T v \<Longrightarrow> blocked quorum r T m \<or> dominates (clog r U c) T m"
  shows "vote_ok S quorum r U v c"
  using assms by (simp add: vote_ok_def)

text \<open>A candidate still has the log it stood with, or that log contradicts a committed entry.\<close>

definition stand_ok :: "(int set \<Rightarrow> bool) \<Rightarrow> 'c rep \<Rightarrow> int \<Rightarrow> int \<Rightarrow> bool" where
  "stand_ok quorum r U c \<longleftrightarrow> 0 < U \<and> patched quorum r (clog r U c) (U - 1) \<and>
     (tm r c = U \<longrightarrow> led r U = None \<longrightarrow> lg r c = clog r U c \<or>
        (\<exists>s P. comm quorum r s P (U - 1) \<and> take s (clog r U c) \<noteq> take s P))"

definition rinv :: "int set \<Rightarrow> (int set \<Rightarrow> bool) \<Rightarrow> 'c rep \<Rightarrow> bool" where
  "rinv S quorum r \<longleftrightarrow> (\<forall>T l. led r T = Some l \<longrightarrow> lead_ok S quorum r T l) \<and>
     (\<forall>v \<in> S. slog_ok quorum r v) \<and> (\<forall>T v. ack_ok quorum r T v) \<and>
     (\<forall>T U m. T < U \<longrightarrow> ruled r T \<longrightarrow> ruled r U \<longrightarrow> n0 r T < m \<longrightarrow> m \<le> length (ll r T) \<longrightarrow>
        safe_ok quorum r T U m) \<and>
     (\<forall>U v c. (U, v, c) \<in> cast r \<longrightarrow> vote_ok S quorum r U v c) \<and>
     (\<forall>U c. (U, c, c) \<in> cast r \<longrightarrow> stand_ok quorum r U c)"

lemma rinvI:
  assumes "\<And>T l. led r T = Some l \<Longrightarrow> lead_ok S quorum r T l" "\<And>v. v \<in> S \<Longrightarrow> slog_ok quorum r v"
    "\<And>T v. ack_ok quorum r T v"
    "\<And>T U m. T < U \<Longrightarrow> ruled r T \<Longrightarrow> ruled r U \<Longrightarrow> n0 r T < m \<Longrightarrow> m \<le> length (ll r T) \<Longrightarrow>
       safe_ok quorum r T U m"
    "\<And>U v c. (U, v, c) \<in> cast r \<Longrightarrow> vote_ok S quorum r U v c"
    "\<And>U c. (U, c, c) \<in> cast r \<Longrightarrow> stand_ok quorum r U c"
  shows "rinv S quorum r"
  using assms by (simp add: rinv_def)

lemma rinvD:
  assumes "rinv S quorum r"
  shows "led r T = Some l \<Longrightarrow> lead_ok S quorum r T l" "v \<in> S \<Longrightarrow> slog_ok quorum r v"
    "ack_ok quorum r T v"
    "T < U \<Longrightarrow> ruled r T \<Longrightarrow> ruled r U \<Longrightarrow> n0 r T < m \<Longrightarrow> m \<le> length (ll r T) \<Longrightarrow> safe_ok quorum r T U m"
    "(U, v, c) \<in> cast r \<Longrightarrow> vote_ok S quorum r U v c"
    "(U, c, c) \<in> cast r \<Longrightarrow> stand_ok quorum r U c"
  using assms by (auto simp: rinv_def)

lemma take_take_le: "take k xs = take k ys \<Longrightarrow> j \<le> k \<Longrightarrow> take j xs = take j ys"
  by (metis min.absorb2 take_take min.commute)

lemma take_eq_length: "take m xs = take m ys \<Longrightarrow> m \<le> length ys \<Longrightarrow> m \<le> length xs"
  by (metis length_take min.absorb2 min.cobounded1)

section \<open>History only grows\<close>

definition grows :: "'c rep \<Rightarrow> 'c rep \<Rightarrow> bool" where
  "grows r r' \<longleftrightarrow> (\<forall>v. tm r v \<le> tm r' v) \<and>
     (\<forall>T. ruled r T \<longrightarrow> led r' T = led r T \<and> n0 r' T = n0 r T \<and> take (length (ll r T)) (ll r' T) = ll r T) \<and>
     (\<forall>T v. ack r T v \<le> ack r' T v \<and> (T < tm r v \<longrightarrow> ack r' T v = ack r T v)) \<and>
     cast r \<subseteq> cast r' \<and> (\<forall>U c. (U, c, c) \<in> cast r \<longrightarrow> clog r' U c = clog r U c)"

lemma growsD:
  assumes "grows r r'"
  shows "tm r v \<le> tm r' v" "ruled r T \<Longrightarrow> led r' T = led r T" "ruled r T \<Longrightarrow> n0 r' T = n0 r T"
    "ruled r T \<Longrightarrow> take (length (ll r T)) (ll r' T) = ll r T" "ack r T v \<le> ack r' T v"
    "T < tm r v \<Longrightarrow> ack r' T v = ack r T v" "cast r \<subseteq> cast r'"
    "(U, c, c) \<in> cast r \<Longrightarrow> clog r' U c = clog r U c"
  using assms by (simp_all add: grows_def)

lemma grows_refl: "grows r r"
  by (simp add: grows_def)

lemma grows_ruled: "grows r r' \<Longrightarrow> ruled r T \<Longrightarrow> ruled r' T"
  using growsD(2) by (fastforce simp: ruled_def)

lemma grows_take:
  assumes "grows r r'" "ruled r T" "m \<le> length (ll r T)"
  shows "take m (ll r' T) = take m (ll r T)"
  by (subst growsD(4) [OF assms(1,2), symmetric]) (use assms(3) in simp)

lemma grows_length: "grows r r' \<Longrightarrow> ruled r T \<Longrightarrow> length (ll r T) \<le> length (ll r' T)"
  using arg_cong [OF growsD(4), of r r' T length] by simp

lemma grows_trans: "grows r r' \<Longrightarrow> grows r' r'' \<Longrightarrow> grows r r''"
proof -
  assume g: "grows r r'" "grows r' r''"
  have t: "take (length (ll r T)) (ll r'' T) = ll r T" if "ruled r T" for T
    using grows_take [OF g(2) grows_ruled [OF g(1) that] grows_length [OF g(1) that]]
      growsD(4) [OF g(1) that] by simp
  have a: "ack r T v \<le> ack r'' T v" for T v using growsD(5) [OF g(1), of T v] growsD(5) [OF g(2), of T v] by simp
  have f: "ack r'' T v = ack r T v" if "T < tm r v" for T v
    using growsD(6) [OF g(1) that] growsD(6) [OF g(2), of T v] growsD(1) [OF g(1), of v] that by simp
  have m: "tm r v \<le> tm r'' v" for v using growsD(1) [OF g(1), of v] growsD(1) [OF g(2), of v] by simp
  have c: "clog r'' U c = clog r U c" "(U, c, c) \<in> cast r''" if "(U, c, c) \<in> cast r" for U c
    using growsD(7,8) [OF g(1)] growsD(7,8) [OF g(2)] that by auto
  show ?thesis
    unfolding grows_def
    using t a f m c growsD(2,3) [OF g(1)] growsD(2,3) [OF g(2)] grows_ruled [OF g(1)]
      growsD(7) [OF g(1)] growsD(7) [OF g(2)] by auto
qed

lemma proper_grows:
  assumes "proper r l" "grows r r'"
  shows "proper r' l"
  unfolding proper_def Let_def
proof (intro allI impI)
  fix k assume k: "k < length l"
  let ?T = "eTerm (l ! k)"
  have p: "ruled r ?T" "n0 r ?T \<le> k" "take (Suc k) l = take (Suc k) (ll r ?T)"
    using assms(1) k by (auto simp: proper_def Let_def)
  have "Suc k \<le> length (ll r ?T)" using arg_cong [OF p(3), of length] k by simp
  then show "ruled r' ?T \<and> n0 r' ?T \<le> k \<and> take (Suc k) l = take (Suc k) (ll r' ?T)"
    using p grows_ruled [OF assms(2) p(1)] growsD(3) [OF assms(2) p(1)] grows_take [OF assms(2) p(1)]
    by simp
qed

lemma properD:
  assumes "proper r l" "k < length l"
  shows "ruled r (eTerm (l ! k))" "n0 r (eTerm (l ! k)) \<le> k"
    "take (Suc k) l = take (Suc k) (ll r (eTerm (l ! k)))"
  using assms by (auto simp: proper_def Let_def)

lemma proper_take: "proper r l \<Longrightarrow> proper r (take k l)"
  by (auto simp: proper_def Let_def min_def)

lemma sortedT_take: "sortedT l \<Longrightarrow> sortedT (take k l)"
  unfolding sortedT_def take_map [symmetric] by (rule sorted_wrt_take)

lemma com_grows: "com quorum r k T \<Longrightarrow> grows r r' \<Longrightarrow> com quorum r' k T"
proof -
  assume c: "com quorum r k T" and g: "grows r r'"
  then obtain m Q where m: "ruled r T" "k \<le> m" "n0 r T < m" "quorum Q" "\<And>v. v \<in> Q \<Longrightarrow> m \<le> ack r T v"
    by (auto simp: com_def)
  have "m \<le> ack r' T v" if "v \<in> Q" for v using m(5) [OF that] growsD(5) [OF g, of T v] by simp
  then show ?thesis
    unfolding com_def using m(2-4) growsD(3) [OF g m(1)] grows_ruled [OF g m(1)] by auto
qed

lemma com_less: "com quorum r k T \<Longrightarrow> j \<le> k \<Longrightarrow> com quorum r j T"
  unfolding com_def by (meson order_trans)

lemma comm_less: "comm quorum r k P T \<Longrightarrow> j \<le> k \<Longrightarrow> comm quorum r j P T"
proof -
  assume c: "comm quorum r k P T" and j: "j \<le> k"
  have "take j P = take j L" if "take k P = take k L" for L
    using arg_cong [OF that, of "take j"] j by simp
  then show ?thesis using c j com_less unfolding comm_def by blast
qed

lemma comm_later: "comm quorum r k P T \<Longrightarrow> T \<le> T' \<Longrightarrow> comm quorum r k P T'"
  unfolding comm_def by (meson order_trans)

lemma comm_same: "comm quorum r k P T \<Longrightarrow> take k P = take k P' \<Longrightarrow> comm quorum r k P' T"
  by (auto simp: comm_def)

lemma blocked_grows: "blocked quorum r T m \<Longrightarrow> grows r r' \<Longrightarrow> blocked quorum r' T m"
proof -
  assume b: "blocked quorum r T m" and g: "grows r r'"
  then obtain Q where Q: "quorum Q" "\<And>v. v \<in> Q \<Longrightarrow> T < tm r v \<and> ack r T v < m" by (auto simp: blocked_def)
  have "T < tm r' v \<and> ack r' T v < m" if "v \<in> Q" for v
    using Q(2) [OF that] growsD(1) [OF g, of v] growsD(6) [OF g, of T v] by simp
  with Q(1) show ?thesis by (auto simp: blocked_def)
qed

section \<open>Steps\<close>

text \<open>The events, as changes of the state.\<close>

definition atTerm :: "int \<Rightarrow> int \<Rightarrow> 'c rep \<Rightarrow> 'c rep" where
  "atTerm v t r = r\<lparr>tm := (tm r)(v := t)\<rparr>"

definition standing :: "int \<Rightarrow> 'c rep \<Rightarrow> 'c rep" where
  "standing v r = (let t = tm r v + 1 in r\<lparr>tm := (tm r)(v := t),
     clog := (clog r)(t := (clog r t)(v := lg r v)), cast := insert (t, v, v) (cast r)\<rparr>)"

definition voted :: "int \<Rightarrow> int \<Rightarrow> 'c rep \<Rightarrow> 'c rep" where
  "voted v c r = r\<lparr>cast := insert (tm r v, v, c) (cast r)\<rparr>"

definition elected :: "int \<Rightarrow> 'c rep \<Rightarrow> 'c rep" where
  "elected c r = (let t = tm r c in r\<lparr>led := (led r)(t := Some c), ll := (ll r)(t := lg r c),
     n0 := (n0 r)(t := length (lg r c)), ack := (ack r)(t := (ack r t)(c := length (lg r c)))\<rparr>)"

definition appended :: "int \<Rightarrow> 'c LogEntry \<Rightarrow> 'c rep \<Rightarrow> 'c rep" where
  "appended c e r = (let t = tm r c in r\<lparr>ll := (ll r)(t := ll r t @ [e]), lg := (lg r)(c := ll r t @ [e]),
     ack := (ack r)(t := (ack r t)(c := Suc (length (ll r t))))\<rparr>)"

definition acceptLog :: "'c rep \<Rightarrow> int \<Rightarrow> int \<Rightarrow> nat \<Rightarrow> 'c log" where
  "acceptLog r v T q = (if take q (lg r v) = take q (ll r T) then lg r v else take q (ll r T))"

definition followed :: "int \<Rightarrow> int \<Rightarrow> nat \<Rightarrow> 'c rep \<Rightarrow> 'c rep" where
  "followed v T q r = (let l = acceptLog r v T q in
     r\<lparr>tm := (tm r)(v := T), lg := (lg r)(v := l), ack := (ack r)(T := (ack r T)
       (v := if T \<le> lastT l then max (ack r T v) q else ack r T v))\<rparr>)"

definition installed :: "int \<Rightarrow> nat \<Rightarrow> 'c log \<Rightarrow> 'c rep \<Rightarrow> 'c rep" where
  "installed v s P r = r\<lparr>lg := (lg r)(v := take s P @ drop s (lg r v))\<rparr>"

definition committed :: "int \<Rightarrow> nat \<Rightarrow> 'c rep \<Rightarrow> 'c rep" where
  "committed v k r = r\<lparr>cm := (cm r)(v := k)\<rparr>"

lemma atTerm_simps [simp]:
  "tm (atTerm v t r) = (tm r)(v := t)" "lg (atTerm v t r) = lg r" "cm (atTerm v t r) = cm r"
  "led (atTerm v t r) = led r" "ll (atTerm v t r) = ll r" "n0 (atTerm v t r) = n0 r"
  "ack (atTerm v t r) = ack r" "clog (atTerm v t r) = clog r" "cast (atTerm v t r) = cast r"
  by (simp_all add: atTerm_def)

lemma standing_simps [simp]:
  "tm (standing v r) = (tm r)(v := tm r v + 1)" "lg (standing v r) = lg r" "cm (standing v r) = cm r"
  "led (standing v r) = led r" "ll (standing v r) = ll r" "n0 (standing v r) = n0 r"
  "ack (standing v r) = ack r" "cast (standing v r) = insert (tm r v + 1, v, v) (cast r)"
  "clog (standing v r) = (clog r)(tm r v + 1 := (clog r (tm r v + 1))(v := lg r v))"
  by (simp_all add: standing_def Let_def)

lemma voted_simps [simp]:
  "tm (voted v c r) = tm r" "lg (voted v c r) = lg r" "cm (voted v c r) = cm r" "led (voted v c r) = led r"
  "ll (voted v c r) = ll r" "n0 (voted v c r) = n0 r" "ack (voted v c r) = ack r" "clog (voted v c r) = clog r"
  "cast (voted v c r) = insert (tm r v, v, c) (cast r)"
  by (simp_all add: voted_def)

lemma elected_simps [simp]:
  "tm (elected c r) = tm r" "lg (elected c r) = lg r" "cm (elected c r) = cm r" "cast (elected c r) = cast r"
  "clog (elected c r) = clog r" "led (elected c r) = (led r)(tm r c := Some c)" "ll (elected c r) = (ll r)(tm r c := lg r c)"
  "n0 (elected c r) = (n0 r)(tm r c := length (lg r c))"
  "ack (elected c r) = (ack r)(tm r c := (ack r (tm r c))(c := length (lg r c)))"
  by (simp_all add: elected_def Let_def)

lemma appended_simps [simp]:
  "tm (appended c e r) = tm r" "cm (appended c e r) = cm r" "led (appended c e r) = led r"
  "lg (appended c e r) = (lg r)(c := ll r (tm r c) @ [e])" "cast (appended c e r) = cast r"
  "clog (appended c e r) = clog r" "ll (appended c e r) = (ll r)(tm r c := ll r (tm r c) @ [e])" "n0 (appended c e r) = n0 r"
  "ack (appended c e r) = (ack r)(tm r c := (ack r (tm r c))(c := Suc (length (ll r (tm r c)))))"
  by (simp_all add: appended_def Let_def)

lemma followed_simps [simp]:
  "tm (followed v T q r) = (tm r)(v := T)" "lg (followed v T q r) = (lg r)(v := acceptLog r v T q)"
  "cm (followed v T q r) = cm r" "led (followed v T q r) = led r" "ll (followed v T q r) = ll r"
  "n0 (followed v T q r) = n0 r" "clog (followed v T q r) = clog r" "cast (followed v T q r) = cast r"
  "ack (followed v T q r) = (ack r)(T := (ack r T)(v :=
     if T \<le> lastT (acceptLog r v T q) then max (ack r T v) q else ack r T v))"
  by (simp_all add: followed_def Let_def)

lemma installed_simps [simp]:
  "tm (installed v s P r) = tm r" "cm (installed v s P r) = cm r" "led (installed v s P r) = led r"
  "ll (installed v s P r) = ll r" "n0 (installed v s P r) = n0 r" "ack (installed v s P r) = ack r"
  "lg (installed v s P r) = (lg r)(v := take s P @ drop s (lg r v))" "cast (installed v s P r) = cast r"
  "clog (installed v s P r) = clog r"
  by (simp_all add: installed_def)

lemma committed_simps [simp]:
  "tm (committed v k r) = tm r" "lg (committed v k r) = lg r" "cm (committed v k r) = (cm r)(v := k)"
  "led (committed v k r) = led r" "ll (committed v k r) = ll r" "n0 (committed v k r) = n0 r"
  "ack (committed v k r) = ack r" "cast (committed v k r) = cast r" "clog (committed v k r) = clog r"
  by (simp_all add: committed_def)

text \<open>
  \<open>adopt\<close>: a later term is seen. \<open>stand\<close>: an election starts. \<open>vote\<close>: a candidate whose log is at
  least as recent gets the vote. \<open>win\<close>: a quorum voted. \<open>lead\<close>: a leader appends a command.
  \<open>accept\<close>: a server takes over the first \<open>q\<close> entries of a leader's log, dropping what conflicts,
  and acknowledges them. \<open>install\<close>: a committed prefix replaces that of the log. \<open>commit\<close>: the
  commit index moves to the end of some committed prefix.
\<close>

inductive rstep :: "int set \<Rightarrow> (int set \<Rightarrow> bool) \<Rightarrow> 'c rep \<Rightarrow> 'c rep \<Rightarrow> bool" for S quorum where
  adopt: "tm r v \<le> t \<Longrightarrow> rstep S quorum r (atTerm v t r)"
| stand: "v \<in> S \<Longrightarrow> rstep S quorum r (standing v r)"
| vote: "(tm r v, c, c) \<in> cast r \<Longrightarrow> upToDate (clog r (tm r v) c) (lg r v) \<Longrightarrow> rstep S quorum r (voted v c r)"
| win: "led r (tm r c) = None \<Longrightarrow> (tm r c, c, c) \<in> cast r \<Longrightarrow> quorum Q \<Longrightarrow>
     (\<And>v. v \<in> Q \<Longrightarrow> (tm r c, v, c) \<in> cast r) \<Longrightarrow> rstep S quorum r (elected c r)"
| lead: "led r (tm r c) = Some c \<Longrightarrow> eTerm e = tm r c \<Longrightarrow> rstep S quorum r (appended c e r)"
| accept: "v \<in> S \<Longrightarrow> tm r v \<le> T \<Longrightarrow> ruled r T \<Longrightarrow> led r T \<noteq> Some v \<Longrightarrow> n0 r T \<le> q \<Longrightarrow>
     q \<le> length (ll r T) \<Longrightarrow> rstep S quorum r (followed v T q r)"
| install: "v \<in> S \<Longrightarrow> comm quorum r s P (tm r v) \<Longrightarrow> rstep S quorum r (installed v s P r)"
| commit: "comm quorum r k (lg r v) (tm r v) \<Longrightarrow> rstep S quorum r (committed v k r)"

section \<open>Agreement\<close>

locale replication = quorum_system S quorum for S :: "int set" and quorum
begin

text \<open>A committed prefix is part of the leader's log, and is not blocked.\<close>

lemma com_quorum:
  assumes "rinv S quorum r" "com quorum r k T"
  obtains m Q where "k \<le> m" "n0 r T < m" "quorum Q" "\<And>v. v \<in> Q \<Longrightarrow> m \<le> ack r T v"
    "ruled r T" "m \<le> length (ll r T)" "\<not> blocked quorum r T m"
proof -
  from assms(2) obtain m Q where m: "ruled r T" "k \<le> m" "n0 r T < m" "quorum Q"
    "\<And>v. v \<in> Q \<Longrightarrow> m \<le> ack r T v"
    by (auto simp: com_def)
  obtain v where v: "v \<in> Q" using quorum_nonempty [OF m(4)] by auto
  have "m \<le> length (ll r T)"
    using rinvD(3) [OF assms(1), of T v] m(5) [OF v] m(3) by (auto simp: ack_ok_def)
  moreover have "\<not> blocked quorum r T m"
  proof
    assume "blocked quorum r T m"
    then obtain Q' where Q': "quorum Q'" "\<And>v. v \<in> Q' \<Longrightarrow> ack r T v < m" by (auto simp: blocked_def)
    obtain x where "x \<in> Q" "x \<in> Q'" using quorum_common [OF m(4) Q'(1)] by blast
    with m(5) [of x] Q'(2) [of x] show False by simp
  qed
  ultimately show thesis using that m by blast
qed

lemma com_len: "rinv S quorum r \<Longrightarrow> com quorum r k T \<Longrightarrow> k \<le> length (ll r T) \<and> ruled r T"
  by (erule (1) com_quorum) simp

lemma comm_len: "rinv S quorum r \<Longrightarrow> comm quorum r k P T \<Longrightarrow> k \<le> length P"
  unfolding comm_def by (metis com_len le0 length_take min.absorb2 min.cobounded1)

text \<open>Leader completeness.\<close>

lemma completeness:
  assumes inv: "rinv S quorum r" and c: "com quorum r k T" and U: "ruled r U" "T \<le> U"
  shows "take k (ll r U) = take k (ll r T)" "T < U \<Longrightarrow> k \<le> n0 r U"
proof -
  obtain m where m: "k \<le> m" "n0 r T < m" "ruled r T" "m \<le> length (ll r T)" "\<not> blocked quorum r T m"
    using com_quorum [OF inv c] by metis
  have s: "m \<le> n0 r U \<and> take m (ll r U) = take m (ll r T)" if "T < U"
    using rinvD(4) [OF inv that m(3) U(1) m(2,4)] m(5) by (simp add: safe_ok_def)
  show "T < U \<Longrightarrow> k \<le> n0 r U" using s m(1) by simp
  show "take k (ll r U) = take k (ll r T)"
    using s take_take_le [OF _ m(1)] U(2) by (cases "T = U") auto
qed

lemma comm_ruled:
  assumes "rinv S quorum r" "comm quorum r k P T" "ruled r U" "T \<le> U"
  shows "take k (ll r U) = take k P"
  using assms completeness(1) [OF assms(1)] by (fastforce simp: comm_def)

lemma comm_agree:
  assumes inv: "rinv S quorum r" and "comm quorum r k P T" "comm quorum r k' P' T'" "j \<le> k" "j \<le> k'"
  shows "take j P = take j P'"
proof (cases "j = 0")
  case False
  then obtain U U' where U: "com quorum r k U" "take k P = take k (ll r U)"
    "com quorum r k' U'" "take k' P' = take k' (ll r U')"
    using assms by (auto simp: comm_def)
  have "take j (ll r U) = take j (ll r U')"
  proof (cases "U \<le> U'")
    case True
    then show ?thesis
      using take_take_le [OF completeness(1) [OF inv U(1) conjunct2 [OF com_len [OF inv U(3)]]] assms(4)] by simp
  next
    case False
    then show ?thesis
      using take_take_le [OF completeness(1) [OF inv U(3) conjunct2 [OF com_len [OF inv U(1)]]] assms(5)] by simp
  qed
  then show ?thesis using take_take_le [OF U(2) assms(4)] take_take_le [OF U(4) assms(5)] by simp
qed simp

lemma comm_grows:
  assumes "rinv S quorum r" "comm quorum r k P T" "grows r r'"
  shows "comm quorum r' k P T"
proof (cases "k = 0")
  case False
  with assms(2) obtain T' where T': "T' \<le> T" "com quorum r k T'" "take k P = take k (ll r T')"
    by (auto simp: comm_def)
  have "take k (ll r' T') = take k (ll r T')"
    using com_len [OF assms(1) T'(2)] grows_take [OF assms(3)] by blast
  then show ?thesis using T' com_grows [OF T'(2) assms(3)] by (auto simp: comm_def)
qed (simp add: comm_def)

lemma patched_grows:
  assumes "rinv S quorum r" "patched quorum r l T" "grows r r'" "T \<le> T'"
  shows "patched quorum r' l T'"
  using assms comm_grows [OF assms(1) _ assms(3)] proper_grows [OF _ assms(3)] comm_later
  unfolding patched_def by blast

lemma patched_proper: "proper r l \<Longrightarrow> sortedT l \<Longrightarrow> patched quorum r l T"
  unfolding patched_def by (intro exI [of _ 0] exI [of _ l]) (simp add: comm_def)

text \<open>The last entry of a log of the usual form fixes the whole log.\<close>

lemma proper_last:
  assumes "proper r l" "l \<noteq> []"
  shows "ruled r (lastT l)" "n0 r (lastT l) < length l" "take (length l) (ll r (lastT l)) = l"
proof -
  have k: "length l - 1 < length l" "Suc (length l - 1) = length l" "lastT l = eTerm (l ! (length l - 1))"
    using assms(2) by (auto simp: lastT_def last_conv_nth)
  show "ruled r (lastT l)" "n0 r (lastT l) < length l" "take (length l) (ll r (lastT l)) = l"
    using properD [OF assms(1) k(1)] k by auto
qed

lemma covers:
  assumes inv: "rinv S quorum r" and l: "proper r l" and d: "dominates l T m"
    and T: "ruled r T" "n0 r T < m" "m \<le> length (ll r T)"
  shows "blocked quorum r T m \<or> m \<le> length l \<and> take m l = take m (ll r T)"
proof -
  obtain ld where "led r T = Some ld" using T(1) by (auto simp: ruled_def)
  then have "0 < T" using rinvD(1) [OF inv] by (auto simp: lead_ok_def)
  with d T(2) have ne: "l \<noteq> []" by (auto simp: dominates_def lastT_def)
  note last = proper_last [OF l ne]
  show ?thesis
  proof (cases "T = lastT l")
    case True
    with d have "m \<le> length l" by (auto simp: dominates_def)
    with last(3) True show ?thesis by (metis min.absorb1 take_take)
  next
    case False
    with d have "T < lastT l" by (auto simp: dominates_def)
    from rinvD(4) [OF inv this T(1) last(1) T(2,3)] show ?thesis
      using last(2,3) by (auto simp: safe_ok_def) (metis min.absorb1 order_less_imp_le order_trans take_take)
  qed
qed

text \<open>
  The log a candidate stood with, if a quorum voted for it: it is of the usual form, and has
  everything that may have been committed before.
\<close>

lemma voters_dominated:
  assumes inv: "rinv S quorum r" and Q: "quorum Q" "\<And>v. v \<in> Q \<Longrightarrow> (U, v, c) \<in> cast r"
    and T: "T < U" "n0 r T < m"
  shows "blocked quorum r T m \<or> dominates (clog r U c) T m"
proof (cases "\<exists>v \<in> Q. m \<le> ack r T v")
  case True
  then obtain v where "v \<in> Q" "m \<le> ack r T v" by blast
  with rinvD(5) [OF inv Q(2)] T show ?thesis by (auto simp: vote_ok_def)
next
  case False
  have "T < tm r v \<and> ack r T v < m" if "v \<in> Q" for v
    using rinvD(5) [OF inv Q(2) [OF that]] T(1) False that by (auto simp: vote_ok_def not_le)
  with Q(1) have "blocked quorum r T m" unfolding blocked_def by blast
  then show ?thesis ..
qed

lemma candidate_proper:
  assumes inv: "rinv S quorum r" and Q: "quorum Q" "\<And>v. v \<in> Q \<Longrightarrow> (U, v, c) \<in> cast r"
    and c: "(U, c, c) \<in> cast r"
  shows "proper r (clog r U c) \<and> sortedT (clog r U c)"
proof -
  let ?L = "clog r U c"
  from rinvD(6) [OF inv c] obtain s P b where L: "?L = take s P @ drop s b" "comm quorum r s P (U - 1)"
    "proper r b" "sortedT b"
    unfolding stand_ok_def patched_def by blast
  show ?thesis
  proof (cases "s = 0")
    case False
    then obtain T where T: "T < U" "com quorum r s T" "take s P = take s (ll r T)"
      using L(2) by (auto simp: comm_def)
    obtain m where m: "s \<le> m" "n0 r T < m" "ruled r T" "m \<le> length (ll r T)" "\<not> blocked quorum r T m"
      using com_quorum [OF inv T(2)] by metis
    obtain ld where "led r T = Some ld" using m(3) by (auto simp: ruled_def)
    then have lead: "proper r (ll r T)" "sortedT (ll r T)" using rinvD(1) [OF inv] by (auto simp: lead_ok_def)
    have dom: "T \<le> lastT ?L" using voters_dominated [OF inv Q T(1) m(2)] m(5) by (auto simp: dominates_def)
    show ?thesis
    proof (cases "length b \<le> s")
      case True
      then have "?L = take s (ll r T)" using L(1) T(3) by simp
      with lead show ?thesis by (simp add: proper_take sortedT_take)
    next
      case long: False
      then have "b \<noteq> []" "lastT ?L = lastT b" using L(1) by (auto simp: lastT_def)
      note last = proper_last [OF L(3) this(1)] and eq = this(2)
      have "take s b = take s (ll r (lastT b))"
        using last(3) long by (metis min.absorb1 nat_le_linear take_take)
      also have "\<dots> = take s (ll r T)" using completeness(1) [OF inv T(2) last(1)] dom eq by simp
      finally have "?L = take s b @ drop s b" using L(1) T(3) by simp
      then show ?thesis using L(3,4) by simp
    qed
  qed (use L in simp)
qed

lemma candidate_covers:
  assumes inv: "rinv S quorum r" and Q: "quorum Q" "\<And>v. v \<in> Q \<Longrightarrow> (U, v, c) \<in> cast r"
    and c: "(U, c, c) \<in> cast r"
    and T: "T < U" "ruled r T" "n0 r T < m" "m \<le> length (ll r T)"
  shows "blocked quorum r T m \<or> m \<le> length (clog r U c) \<and> take m (clog r U c) = take m (ll r T)"
  using voters_dominated [OF inv Q T(1,3)] covers [OF inv conjunct1 [OF candidate_proper [OF inv Q c]] _ T(2-4)]
  by blast

lemma candidate_log:
  assumes inv: "rinv S quorum r" and Q: "quorum Q" "\<And>v. v \<in> Q \<Longrightarrow> (U, v, c) \<in> cast r"
    and c: "(U, c, c) \<in> cast r" "tm r c = U" "led r U = None"
  shows "lg r c = clog r U c"
proof (rule ccontr)
  assume "lg r c \<noteq> clog r U c"
  then obtain s P where s: "comm quorum r s P (U - 1)" "take s (clog r U c) \<noteq> take s P"
    using rinvD(6) [OF inv c(1)] c(2,3) unfolding stand_ok_def by blast
  then obtain T where T: "T < U" "com quorum r s T" "take s P = take s (ll r T)"
    by (auto simp: comm_def)
  obtain m where m: "s \<le> m" "n0 r T < m" "ruled r T" "m \<le> length (ll r T)" "\<not> blocked quorum r T m"
    using com_quorum [OF inv T(2)] by metis
  from candidate_covers [OF inv Q c(1) T(1) m(3,2,4)] m(5)
  have "take m (clog r U c) = take m (ll r T)" by simp
  from take_take_le [OF this m(1)] T(3) s(2) show False by simp
qed

text \<open>
  Log matching, against the log of a leader whose term is not earlier: the same term at the same
  position means that everything up to there is the same.
\<close>

lemma matching:
  assumes inv: "rinv S quorum r" and v: "v \<in> S" and T: "ruled r T" "tm r v \<le> T"
    and k: "k < length (lg r v)" "k < length (ll r T)" "eTerm (lg r v ! k) = eTerm (ll r T ! k)"
  shows "take (Suc k) (lg r v) = take (Suc k) (ll r T)"
proof -
  obtain s P b where b: "lg r v = take s P @ drop s b" "comm quorum r s P (tm r v)" "proper r b"
    using rinvD(2) [OF inv v] unfolding slog_ok_def patched_def by blast
  have len: "s \<le> length P" using comm_len [OF inv b(2)] .
  have s: "take s (ll r T) = take s P" using comm_ruled [OF inv b(2) T] .
  show ?thesis
  proof (cases "k < s")
    case True
    then show ?thesis using take_take_le [OF s, of "Suc k"] b(1) len by simp
  next
    case False
    have kb: "lg r v ! k = b ! k" "k < length b" using False b(1) k(1) len by (auto simp: nth_append)
    obtain x where "lead_ok S quorum r T x" using T(1) rinvD(1) [OF inv] by (auto simp: ruled_def)
    then have "proper r (ll r T)" by (simp add: lead_ok_def)
    then have eq: "take (Suc k) b = take (Suc k) (ll r T)"
      using properD(3) [OF b(3) kb(2)] properD(3) [OF _ k(2)] k(3) kb(1) by simp
    have "take s b = take s (ll r T)" using take_take_le [OF eq, of s] False by simp
    then have "lg r v = b" using b(1) s by (metis append_take_drop_id)
    with eq show ?thesis by simp
  qed
qed

end

text \<open>The start: nothing has happened.\<close>

definition rep_start :: "'c rep" where
  "rep_start = \<lparr>tm = (\<lambda>_. 0), lg = (\<lambda>_. []), cm = (\<lambda>_. 0), led = (\<lambda>_. None), ll = (\<lambda>_. []),
     n0 = (\<lambda>_. 0), ack = (\<lambda>_ _. 0), clog = (\<lambda>_ _. []), cast = {}\<rparr>"

lemma rep_start_inv: "rinv S quorum rep_start"
proof -
  have "patched quorum rep_start [] 0"
    unfolding patched_def by (intro exI [of _ 0] exI [of _ "[]"]) (simp add: comm_def proper_def sortedT_def)
  then show ?thesis by (auto simp: rep_start_def rinv_def slog_ok_def ack_ok_def ruled_def comm_def)
qed

end
