(* ===== verification/Agreement_Steps.thy ===== *)
theory Agreement_Steps
  imports Agreement
begin

text \<open>
  Every step of the replication protocol keeps its invariant, and what it needs to know of the
  past: the proof that \<open>rinv\<close> is inductive. At the end, what a leader learns from acknowledgements.
\<close>

context replication
begin

text \<open>What a step leaves alone stays in order.\<close>

lemma slog_grows:
  assumes inv: "rinv S quorum r" and g: "grows r r'" and v: "v \<in> S" "lg r' v = lg r v"
    and c: "cm r' v = cm r v \<or> comm quorum r' (cm r' v) (lg r' v) (tm r' v)"
  shows "slog_ok quorum r' v"
proof -
  have o: "slog_ok quorum r v" using rinvD(2) [OF inv v(1)] .
  have t: "tm r v \<le> tm r' v" using growsD(1) [OF g] .
  have "comm quorum r' (cm r v) (lg r v) (tm r' v)"
    using comm_later [OF comm_grows [OF inv _ g] t] o by (simp add: slog_ok_def)
  moreover have "patched quorum r' (lg r v) (tm r' v)"
    using patched_grows [OF inv _ g t] o by (simp add: slog_ok_def)
  ultimately show ?thesis using o t c v(2) by (force simp: slog_ok_def)
qed

lemma lead_grows:
  assumes inv: "rinv S quorum r" and g: "grows r r'" and l: "led r T = Some l" "ll r' T = ll r T"
    and same: "tm r' l = T \<Longrightarrow> lg r' l = lg r l"
  shows "lead_ok S quorum r' T l"
proof -
  have o: "lead_ok S quorum r T l" using rinvD(1) [OF inv l(1)] .
  have T: "ruled r T" using l(1) by (simp add: ruled_def)
  have "lg r' l = ll r' T" if "tm r' l = T"
    using that same o growsD(1) [OF g, of l] l(2) by (auto simp: lead_ok_def)
  moreover have "\<exists>Q. quorum Q \<and> (\<forall>v \<in> Q. T \<le> tm r' v)"
    using o growsD(1) [OF g] unfolding lead_ok_def by (meson order_trans)
  moreover have "T \<le> tm r' l" using o growsD(1) [OF g, of l] by (simp add: lead_ok_def)
  ultimately show ?thesis
    using o growsD(3) [OF g T] l(2) proper_grows [OF _ g] by (simp add: lead_ok_def)
qed

lemma ack_grows:
  assumes inv: "rinv S quorum r" and g: "grows r r'" and a: "ack r' T v = ack r T v"
    and h: "\<And>m. n0 r T < m \<Longrightarrow> m \<le> ack r T v \<Longrightarrow> ruled r T \<Longrightarrow> m \<le> length (ll r T) \<Longrightarrow> T \<le> tm r v \<Longrightarrow>
      held r T m v \<Longrightarrow> blocked quorum r' T m \<or> take m (lg r' v) = take m (ll r T) \<and> T \<le> lastT (lg r' v)"
  shows "ack_ok quorum r' T v"
proof (cases "ack r T v = 0")
  case False
  have o: "ruled r T" "T \<le> tm r v" "ack r T v \<le> length (ll r T)"
    "\<And>m. n0 r T < m \<Longrightarrow> m \<le> ack r T v \<Longrightarrow> blocked quorum r T m \<or> held r T m v"
    using rinvD(3) [OF inv, of T v] False by (auto simp: ack_ok_def)
  have "blocked quorum r' T m \<or> held r' T m v" if m: "n0 r' T < m" "m \<le> ack r T v" for m
  proof -
    have m': "n0 r T < m" "m \<le> length (ll r T)" using m growsD(3) [OF g o(1)] o(3) by auto
    from o(4) [OF m'(1) m(2)] show ?thesis
    proof
      assume "held r T m v"
      with h [OF m'(1) m(2) o(1) m'(2) o(2)] show ?thesis
        using grows_take [OF g o(1) m'(2)] by (auto simp: held_def)
    qed (use blocked_grows [OF _ g] in blast)
  qed
  with o a show ?thesis
    using grows_ruled [OF g] growsD(1) [OF g, of v] grows_length [OF g o(1)] by (auto simp: ack_ok_def)
qed (use a in \<open>simp add: ack_ok_def\<close>)

lemma ack_same:
  assumes "rinv S quorum r" "grows r r'" "ack r' T v = ack r T v" "lg r' v = lg r v"
  shows "ack_ok quorum r' T v"
  using assms by (intro ack_grows) (auto simp: held_def)

lemma safe_grows:
  assumes inv: "rinv S quorum r" and g: "grows r r'"
    and T: "T < U" "ruled r T" "ruled r U" "n0 r T < m" "m \<le> length (ll r T)"
  shows "safe_ok quorum r' T U m"
proof -
  obtain l where "led r U = Some l" using T(3) by (auto simp: ruled_def)
  then have U: "n0 r U \<le> length (ll r U)" using rinvD(1) [OF inv] by (auto simp: lead_ok_def)
  from rinvD(4) [OF inv T] show ?thesis
    using blocked_grows [OF _ g] grows_take [OF g T(2,5)] grows_take [OF g T(3), of m] growsD(3) [OF g T(3)] U
    by (auto simp: safe_ok_def)
qed

lemma vote_grows:
  assumes inv: "rinv S quorum r" and g: "grows r r'" and v: "(U, v, c) \<in> cast r"
  shows "vote_ok S quorum r' U v c"
proof -
  have o: "vote_ok S quorum r U v c" using rinvD(5) [OF inv v] .
  then have U: "U \<le> tm r v" "U \<le> tm r c" and c: "(U, c, c) \<in> cast r" by (auto simp: vote_ok_def)
  have "blocked quorum r' T m \<or> dominates (clog r' U c) T m"
    if T: "T < U" "n0 r' T < m" "m \<le> ack r' T v" for T m
  proof -
    have a: "ack r' T v = ack r T v" using growsD(6) [OF g, of T v] T(1) U(1) by simp
    then have "ruled r T" using rinvD(3) [OF inv, of T v] T by (auto simp: ack_ok_def)
    then have "n0 r T < m" using growsD(3) [OF g] T(2) by simp
    then have "blocked quorum r T m \<or> dominates (clog r U c) T m"
      using o T a by (simp add: vote_ok_def)
    then show ?thesis using blocked_grows [OF _ g] growsD(8) [OF g c] by auto
  qed
  then show ?thesis
    using o growsD(1) [OF g, of v] growsD(1) [OF g, of c] growsD(7) [OF g] by (auto simp: vote_ok_def)
qed

lemma stand_grows:
  assumes inv: "rinv S quorum r" and g: "grows r r'" and c: "(U, c, c) \<in> cast r"
    and same: "tm r' c = U \<Longrightarrow> tm r c = U \<Longrightarrow> led r' U = None \<Longrightarrow> led r U = None \<Longrightarrow> lg r' c = lg r c \<or>
      (\<exists>s P. comm quorum r s P (U - 1) \<and> take s (lg r c) \<noteq> take s P)"
  shows "stand_ok quorum r' U c"
proof -
  have o: "stand_ok quorum r U c" using rinvD(6) [OF inv c] .
  have "lg r' c = clog r' U c \<or> (\<exists>s P. comm quorum r' s P (U - 1) \<and> take s (clog r' U c) \<noteq> take s P)"
    if U: "tm r' c = U" "led r' U = None"
  proof -
    have "U \<le> tm r c" using rinvD(5) [OF inv c] by (simp add: vote_ok_def)
    then have t: "tm r c = U" using growsD(1) [OF g, of c] U(1) by simp
    have l: "led r U = None" using U(2) grows_ruled [OF g, of U] by (cases "led r U") (auto simp: ruled_def)
    from o t l consider "lg r c = clog r U c"
      | s P where "comm quorum r s P (U - 1)" "take s (clog r U c) \<noteq> take s P"
      unfolding stand_ok_def by blast
    then show ?thesis
      using same [OF U(1) t U(2) l] comm_grows [OF inv _ g] growsD(8) [OF g c] by cases (metis, metis)
  qed
  moreover have "patched quorum r' (clog r' U c) (U - 1)" "0 < U"
    using o patched_grows [OF inv _ g order_refl] growsD(8) [OF g c] by (auto simp: stand_ok_def)
  ultimately show ?thesis by (simp add: stand_ok_def)
qed

text \<open>So a step has to be examined only where it changes something.\<close>

lemma rinv_step:
  assumes inv: "rinv S quorum r" and g: "grows r r'"
    and lead: "\<And>T l. led r' T = Some l \<Longrightarrow> (led r T = Some l \<and> ll r' T = ll r T \<and>
      (tm r' l = T \<longrightarrow> lg r' l = lg r l)) \<or> lead_ok S quorum r' T l"
    and slog: "\<And>v. v \<in> S \<Longrightarrow> (lg r' v = lg r v \<and> cm r' v = cm r v) \<or> slog_ok quorum r' v"
    and ack: "\<And>T v. (ack r' T v = ack r T v \<and> lg r' v = lg r v) \<or> ack_ok quorum r' T v"
    and safe: "\<And>T U m. T < U \<Longrightarrow> ruled r' T \<Longrightarrow> ruled r' U \<Longrightarrow> n0 r' T < m \<Longrightarrow> m \<le> length (ll r' T) \<Longrightarrow>
      (ruled r T \<and> ruled r U \<and> m \<le> length (ll r T)) \<or> safe_ok quorum r' T U m"
    and vote: "\<And>U v c. (U, v, c) \<in> cast r' \<Longrightarrow> (U, v, c) \<in> cast r \<or> vote_ok S quorum r' U v c"
    and stand: "\<And>U c. (U, c, c) \<in> cast r' \<Longrightarrow>
      ((U, c, c) \<in> cast r \<and> (lg r' c = lg r c \<or> ruled r' U)) \<or> stand_ok quorum r' U c"
  shows "rinv S quorum r'"
proof (rule rinvI)
  show "lead_ok S quorum r' T l" if "led r' T = Some l" for T l
    using lead [OF that] lead_grows [OF inv g] by blast
  show "slog_ok quorum r' v" if "v \<in> S" for v
    using slog [OF that] slog_grows [OF inv g that] by blast
  show "ack_ok quorum r' T v" for T v
    using ack [of T v] ack_same [OF inv g] by blast
  show "safe_ok quorum r' T U m"
    if T: "T < U" "ruled r' T" "ruled r' U" "n0 r' T < m" "m \<le> length (ll r' T)" for T U m
    using safe [OF T]
  proof
    assume "ruled r T \<and> ruled r U \<and> m \<le> length (ll r T)"
    then show ?thesis using T(1,4) growsD(3) [OF g, of T] by (intro safe_grows [OF inv g]) auto
  qed
  show "vote_ok S quorum r' U v c" if "(U, v, c) \<in> cast r'" for U v c
    using vote [OF that] vote_grows [OF inv g] by blast
  show "stand_ok quorum r' U c" if "(U, c, c) \<in> cast r'" for U c
    using stand [OF that] stand_grows [OF inv g, of U c] by (auto simp: ruled_def)
qed

text \<open>The same for a step that changes the log of one server only and elects nobody.\<close>

lemma rinv_at:
  assumes inv: "rinv S quorum r" and g: "grows r r'"
    and same: "led r' = led r" "cast r' = cast r" "\<And>x. x \<noteq> v \<Longrightarrow> lg r' x = lg r x \<and> cm r' x = cm r x"
      "\<And>T x. x \<noteq> v \<Longrightarrow> ack r' T x = ack r T x"
    and lead: "\<And>T l. led r T = Some l \<Longrightarrow>
      ll r' T = ll r T \<and> (l = v \<longrightarrow> tm r' v = T \<longrightarrow> lg r' v = lg r v) \<or> lead_ok S quorum r' T l"
    and slog: "slog_ok quorum r' v" and ack: "\<And>T. ack_ok quorum r' T v"
    and safe: "\<And>T U m. T < U \<Longrightarrow> ruled r T \<Longrightarrow> ruled r U \<Longrightarrow> m \<le> length (ll r' T) \<Longrightarrow>
      m \<le> length (ll r T) \<or> safe_ok quorum r' T U m"
    and stand: "\<And>U. (U, v, v) \<in> cast r \<Longrightarrow> stand_ok quorum r' U v"
  shows "rinv S quorum r'"
proof (rule rinv_step [OF inv g])
  show "(led r T = Some l \<and> ll r' T = ll r T \<and> (tm r' l = T \<longrightarrow> lg r' l = lg r l)) \<or> lead_ok S quorum r' T l"
    if "led r' T = Some l" for T l
    using that same(1,3) lead [of T l] by (cases "l = v") auto
  show "(lg r' x = lg r x \<and> cm r' x = cm r x) \<or> slog_ok quorum r' x" for x
    using same(3) slog by (cases "x = v") auto
  show "(ack r' T x = ack r T x \<and> lg r' x = lg r x) \<or> ack_ok quorum r' T x" for T x
    using same(3,4) ack by (cases "x = v") auto
  show "((U, c, c) \<in> cast r \<and> (lg r' c = lg r c \<or> ruled r' U)) \<or> stand_ok quorum r' U c" if "(U, c, c) \<in> cast r'" for U c
    using that same(2,3) stand [of U] by (cases "c = v") auto
qed (use same safe in \<open>auto simp: ruled_def\<close>)

section \<open>Terms, votes, elections\<close>

lemma adopt_ok:
  assumes "rinv S quorum r" "tm r v \<le> t"
  shows "grows r (atTerm v t r) \<and> rinv S quorum (atTerm v t r)"
proof
  show g: "grows r (atTerm v t r)" using assms(2) by (simp add: grows_def)
  show "rinv S quorum (atTerm v t r)" by (rule rinv_step [OF assms(1) g]) (auto simp: ruled_def)
qed

lemma commit_ok:
  assumes "rinv S quorum r" "comm quorum r k (lg r v) (tm r v)"
  shows "grows r (committed v k r) \<and> rinv S quorum (committed v k r)"
proof
  show g: "grows r (committed v k r)" by (simp add: grows_def)
  show "rinv S quorum (committed v k r)"
    by (rule rinv_step [OF assms(1) g])
      (use slog_grows [OF assms(1) g] comm_grows [OF assms g] in \<open>auto simp: ruled_def\<close>)
qed

lemma acked_dominates:
  assumes inv: "rinv S quorum r" and m: "n0 r T < m" "m \<le> ack r T v"
  shows "blocked quorum r T m \<or> dominates (lg r v) T m"
proof -
  have a: "m \<le> length (ll r T)" "blocked quorum r T m \<or> held r T m v"
    using rinvD(3) [OF inv, of T v] m by (auto simp: ack_ok_def)
  then show ?thesis using take_eq_length [OF _ a(1)] by (auto simp: held_def dominates_def)
qed

lemma stand_step_ok:
  assumes inv: "rinv S quorum r" and v: "v \<in> S"
  shows "grows r (standing v r) \<and> rinv S quorum (standing v r)"
proof
  let ?r = "standing v r" and ?t = "tm r v + 1"
  have new: "(?t, v, c) \<notin> cast r" for c using rinvD(5) [OF inv, of ?t v c] by (auto simp: vote_ok_def)
  show g: "grows r ?r" using new by (auto simp: grows_def)
  have o: "slog_ok quorum r v" "0 \<le> tm r v" using rinvD(2) [OF inv v] by (auto simp: slog_ok_def)
  have "vote_ok S quorum ?r ?t v v"
  proof (rule vote_okI)
    show "blocked quorum ?r T m \<or> dominates (clog ?r ?t v) T m" if "n0 ?r T < m" "m \<le> ack ?r T v" for T m
      using acked_dominates [OF inv, of T m v] blocked_grows [OF _ g, of quorum T m] that by auto
  qed (use v in auto)
  moreover have "stand_ok quorum ?r ?t v"
    using o patched_grows [OF inv _ g order_refl] by (auto simp: stand_ok_def slog_ok_def)
  ultimately show "rinv S quorum ?r" by (intro rinv_step [OF inv g]) (auto simp: ruled_def)
qed

lemma voted_ok:
  assumes inv: "rinv S quorum r" and c: "(tm r v, c, c) \<in> cast r" and up: "upToDate (clog r (tm r v) c) (lg r v)"
  shows "grows r (voted v c r) \<and> rinv S quorum (voted v c r)"
proof
  let ?r = "voted v c r" and ?t = "tm r v"
  show g: "grows r ?r" by (auto simp: grows_def)
  have "vote_ok S quorum ?r ?t v c"
  proof (rule vote_okI)
    fix T m assume "n0 ?r T < m" "m \<le> ack ?r T v"
    then have "blocked quorum r T m \<or> dominates (clog r ?t c) T m"
      using acked_dominates [OF inv, of T m v] up by (auto simp: dominates_def upToDate_def)
    then show "blocked quorum ?r T m \<or> dominates (clog ?r ?t c) T m"
      using blocked_grows [OF _ g, of quorum T m] by auto
  qed (use rinvD(5) [OF inv c] c in \<open>auto simp: vote_ok_def\<close>)
  moreover have "v \<noteq> c" if "(?t, v, c) \<notin> cast r" using c that by auto
  ultimately show "rinv S quorum ?r" by (intro rinv_step [OF inv g]) (auto simp: ruled_def)
qed

text \<open>An election won: the log the leader has is the one it stood with.\<close>

lemma win_ok:
  assumes inv: "rinv S quorum r" and none: "led r (tm r c) = None" and c: "(tm r c, c, c) \<in> cast r"
    and Q: "quorum Q" "\<And>v. v \<in> Q \<Longrightarrow> (tm r c, v, c) \<in> cast r"
  shows "grows r (elected c r) \<and> rinv S quorum (elected c r)"
proof
  let ?r = "elected c r" and ?t = "tm r c"
  have log: "lg r c = clog r ?t c" by (rule candidate_log [OF inv Q c refl none])
  have zero: "ack r ?t v = 0" for v using rinvD(3) [OF inv, of ?t v] none by (auto simp: ack_ok_def ruled_def)
  have cS: "c \<in> S" "0 < ?t" using rinvD(5,6) [OF inv c] by (auto simp: vote_ok_def stand_ok_def)
  show g: "grows r ?r" using none zero by (auto simp: grows_def ruled_def)
  have lead: "lead_ok S quorum ?r ?t c"
  proof -
    have "proper ?r (lg r c)" "sortedT (lg r c)"
      using proper_grows [OF _ g] candidate_proper [OF inv Q c] log by auto
    moreover have "eTerm e \<le> ?t" if "e \<in> set (lg r c)" for e
      using rinvD(2) [OF inv cS(1)] that by (auto simp: slog_ok_def)
    moreover have "\<exists>Q. quorum Q \<and> (\<forall>v \<in> Q. ?t \<le> tm r v)"
      using Q(1) rinvD(5) [OF inv Q(2)] unfolding vote_ok_def by blast
    ultimately show ?thesis using cS by (auto simp: lead_ok_def)
  qed
  have ack: "ack_ok quorum ?r ?t v" for v using zero [of v] by (auto simp: ack_ok_def ruled_def)
  have safe: "safe_ok quorum ?r T ?t m" if T: "T < ?t" "ruled r T" "n0 r T < m" "m \<le> length (ll r T)" for T m
    using candidate_covers [OF inv Q c T] blocked_grows [OF _ g] T(1) unfolding log [symmetric] by (auto simp: safe_ok_def)
  show "rinv S quorum ?r"
  proof (rule rinv_step [OF inv g])
    fix T v show "(ack ?r T v = ack r T v \<and> lg ?r v = lg r v) \<or> ack_ok quorum ?r T v"
      using ack by (cases "T = ?t") auto
  next
    fix T U m assume T: "T < U" "ruled ?r T" "ruled ?r U" "n0 ?r T < m" "m \<le> length (ll ?r T)"
    then show "(ruled r T \<and> ruled r U \<and> m \<le> length (ll r T)) \<or> safe_ok quorum ?r T U m"
      using safe [of T m] by (auto simp: ruled_def split: if_splits)
  qed (use lead in \<open>auto split: if_splits\<close>)
qed

section \<open>A leader's new entry\<close>

lemma proper_append:
  assumes "proper r l" "ruled r (eTerm e)" "n0 r (eTerm e) \<le> length l"
    "ll r (eTerm e) = l @ [e]"
  shows "proper r (l @ [e])"
  using assms properD [OF assms(1)] by (auto simp: proper_def Let_def nth_append less_Suc_eq)

lemma sortedT_append: "sortedT l \<Longrightarrow> (\<And>x. x \<in> set l \<Longrightarrow> eTerm x \<le> eTerm e) \<Longrightarrow> sortedT (l @ [e])"
  by (auto simp: sortedT_def sorted_append)

lemma lastT_append [simp]: "lastT (l @ [e]) = eTerm e"
  by (simp add: lastT_def)

lemma lead_terms: "lead_ok S quorum r T l \<Longrightarrow> x \<in> set (ll r T) \<Longrightarrow> eTerm x \<le> T"
  by (auto simp: lead_ok_def in_set_conv_nth)

lemma lead_facts:
  assumes inv: "rinv S quorum r" and led: "led r (tm r c) = Some c"
  shows "lead_ok S quorum r (tm r c) c" "lg r c = ll r (tm r c)" "c \<in> S" "ruled r (tm r c)"
    "ack r (tm r c) v \<le> length (ll r (tm r c))"
  using rinvD(1) [OF inv led] rinvD(3) [OF inv, of "tm r c" v] led
  by (auto simp: lead_ok_def ruled_def ack_ok_def)

lemma appended_grows:
  assumes "rinv S quorum r" "led r (tm r c) = Some c"
  shows "grows r (appended c e r)"
  using lead_facts(5) [OF assms, of c] by (auto simp: grows_def)

lemma appended_log:
  assumes inv: "rinv S quorum r" and led: "led r (tm r c) = Some c" and e: "eTerm e = tm r c"
  shows "proper (appended c e r) (ll r (tm r c) @ [e])" "sortedT (ll r (tm r c) @ [e])"
proof -
  note f = lead_facts [OF inv led]
  show "proper (appended c e r) (ll r (tm r c) @ [e])"
    by (rule proper_append) (use f proper_grows [OF _ appended_grows [OF inv led]] e in
        \<open>auto simp: lead_ok_def ruled_def\<close>)
  show "sortedT (ll r (tm r c) @ [e])"
    using f(1) lead_terms [OF f(1)] e by (intro sortedT_append) (auto simp: lead_ok_def)
qed

lemma appended_slog:
  assumes inv: "rinv S quorum r" and led: "led r (tm r c) = Some c" and e: "eTerm e = tm r c"
  shows "slog_ok quorum (appended c e r) c"
proof -
  note f = lead_facts [OF inv led] and l = appended_log [OF inv led e]
  have ok: "slog_ok quorum r c" using rinvD(2) [OF inv f(3)] .
  then have cm: "comm quorum r (cm r c) (ll r (tm r c)) (tm r c)" using f(2) by (simp add: slog_ok_def)
  have "comm quorum (appended c e r) (cm r c) (ll r (tm r c) @ [e]) (tm r c)"
    using comm_same [OF comm_grows [OF inv cm appended_grows [OF inv led]]] comm_len [OF inv cm] by simp
  then show ?thesis using ok patched_proper [OF l] lead_terms [OF f(1)] e by (auto simp: slog_ok_def)
qed

lemma appended_ack:
  assumes inv: "rinv S quorum r" and led: "led r (tm r c) = Some c" and e: "eTerm e = tm r c"
  shows "ack_ok quorum (appended c e r) T c"
proof (cases "T = tm r c")
  case True
  then show ?thesis using lead_facts(4) [OF inv led] e by (auto simp: ack_ok_def ruled_def held_def)
next
  case False
  then show ?thesis
    using take_eq_length [of _ "lg r c" "ll r T"] e lead_facts(2) [OF inv led]
    by (intro ack_grows [OF inv appended_grows [OF inv led]]) (auto simp: held_def)
qed

text \<open>An entry added after a later election can no longer be committed in its term.\<close>

lemma appended_safe:
  assumes inv: "rinv S quorum r" and led: "led r (tm r c) = Some c" and U: "tm r c < U" "ruled r U"
  shows "safe_ok quorum (appended c e r) (tm r c) U (Suc (length (ll r (tm r c))))"
proof -
  let ?m = "Suc (length (ll r (tm r c)))"
  obtain Q where Q: "quorum Q" "\<And>v. v \<in> Q \<Longrightarrow> U \<le> tm r v"
    using U(2) rinvD(1) [OF inv] unfolding ruled_def lead_ok_def by blast
  have "tm r c < tm (appended c e r) v \<and> ack (appended c e r) (tm r c) v < ?m" if "v \<in> Q" for v
    using Q(2) [OF that] U(1) lead_facts(5) [OF inv led, of v] by (auto simp: less_Suc_eq_le)
  with Q(1) have "blocked quorum (appended c e r) (tm r c) ?m" unfolding blocked_def by blast
  then show ?thesis by (simp add: safe_ok_def)
qed

lemma lead_step_ok:
  assumes inv: "rinv S quorum r" and led: "led r (tm r c) = Some c" and e: "eTerm e = tm r c"
  shows "grows r (appended c e r) \<and> rinv S quorum (appended c e r)"
proof
  let ?r = "appended c e r" and ?t = "tm r c"
  note f = lead_facts [OF inv led] and l = appended_log [OF inv led e]
  show g: "grows r ?r" by (rule appended_grows [OF inv led])
  have lead: "lead_ok S quorum ?r ?t c" using f(1) l e by (auto simp: lead_ok_def nth_append)
  show "rinv S quorum ?r"
  proof (rule rinv_at [OF inv g, where v = c])
    fix T U m assume "T < U" "ruled r T" "ruled r U" "m \<le> length (ll ?r T)"
    then show "m \<le> length (ll r T) \<or> safe_ok quorum ?r T U m"
      using appended_safe [OF inv led, of U e] by (auto simp: le_Suc_eq split: if_splits)
  next
    fix T x assume "led r T = Some x"
    then show "ll ?r T = ll r T \<and> (x = c \<longrightarrow> tm ?r c = T \<longrightarrow> lg ?r c = lg r c) \<or> lead_ok S quorum ?r T x"
      using lead led by (cases "T = ?t") auto
  next
    show "stand_ok quorum ?r U c" if "(U, c, c) \<in> cast r" for U
      using that led by (intro stand_grows [OF inv g]) auto
  qed (use appended_slog [OF inv led e] appended_ack [OF inv led e] in auto)
qed

section \<open>Taking over a leader's entries\<close>

text \<open>A prefix of a leader's log that ends in its term.\<close>

lemma held_last:
  assumes "sortedT l" "take m l = take m (ll r T)" "lead_ok S quorum r T x" "n0 r T < m" "m \<le> length (ll r T)"
  shows "T \<le> lastT l"
proof -
  have m: "m \<le> length l" using take_eq_length [OF assms(2,5)] .
  then have ne: "l \<noteq> []" "m - 1 < length l" using assms(4) by auto
  have "l ! (m - 1) = ll r T ! (m - 1)"
    using assms(2,4,5) m by (metis diff_less less_nat_zero_code less_one neq0_conv nth_take)
  moreover have "eTerm (ll r T ! (m - 1)) = T" using assms(3-5) by (auto simp: lead_ok_def)
  moreover have "eTerm (l ! (m - 1)) \<le> eTerm (l ! (length l - 1))"
    using assms(1) ne m unfolding sortedT_def
    by (metis (no_types, lifting) diff_le_mono diff_less length_greater_0_conv length_map less_one nth_map
        sorted_nth_mono)
  ultimately show ?thesis using ne by (simp add: lastT_def last_conv_nth)
qed

text \<open>Taking over a leader's entries: nothing that was acknowledged and still matters is lost.\<close>

lemma accept_held:
  assumes inv: "rinv S quorum r" and T: "led r T = Some x" "n0 r T \<le> q" "q \<le> length (ll r T)"
    and v: "tm r v \<le> T" and U: "U \<le> tm r v" "ruled r U" "n0 r U < m" "m \<le> length (ll r U)" "held r U m v"
  shows "blocked quorum r U m \<or>
    take m (acceptLog r v T q) = take m (ll r U) \<and> U \<le> lastT (acceptLog r v T q)"
proof (cases "take q (lg r v) = take q (ll r T)")
  case True
  then show ?thesis using U(5) by (simp add: acceptLog_def held_def)
next
  case False
  let ?l = "take q (ll r T)"
  have o: "lead_ok S quorum r T x" using rinvD(1) [OF inv T(1)] .
  have so: "sortedT ?l" using o sortedT_take by (auto simp: lead_ok_def)
  have ruT: "ruled r T" using T(1) by (simp add: ruled_def)
  obtain y where y: "lead_ok S quorum r U y" using U(2) rinvD(1) [OF inv] by (auto simp: ruled_def)
  have "blocked quorum r U m \<or> m \<le> q \<and> take m (ll r T) = take m (ll r U)"
  proof (cases "U = T")
    case True
    then have "m < q" using False take_take_le [of m "lg r v" "ll r T" q] U(5) by (force simp: held_def)
    with True show ?thesis by simp
  next
    case False
    then have "U < T" using U(1) v by simp
    from rinvD(4) [OF inv this U(2) ruT U(3,4)] T(2) show ?thesis by (auto simp: safe_ok_def)
  qed
  then show ?thesis
  proof
    assume m: "m \<le> q \<and> take m (ll r T) = take m (ll r U)"
    then have "take m ?l = take m (ll r U)" by (simp add: min_def)
    with held_last [OF so this y U(3,4)] show ?thesis using False by (simp add: acceptLog_def)
  qed simp
qed

lemma accept_log:
  assumes inv: "rinv S quorum r" and T: "led r T = Some x" "n0 r T \<le> q" "q \<le> length (ll r T)"
    and v: "v \<in> S" "tm r v \<le> T"
  shows "take q (acceptLog r v T q) = take q (ll r T)" "patched quorum r (acceptLog r v T q) T"
    "e \<in> set (acceptLog r v T q) \<Longrightarrow> eTerm e \<le> T" "comm quorum r (cm r v) (acceptLog r v T q) T"
proof -
  have o: "lead_ok S quorum r T x" "slog_ok quorum r v" using rinvD(1) [OF inv T(1)] rinvD(2) [OF inv v(1)] .
  show "take q (acceptLog r v T q) = take q (ll r T)" by (simp add: acceptLog_def)
  show "patched quorum r (acceptLog r v T q) T"
    using o patched_grows [OF inv _ grows_refl v(2)] patched_proper [OF proper_take sortedT_take]
    by (auto simp: acceptLog_def slog_ok_def lead_ok_def)
  show "e \<in> set (acceptLog r v T q) \<Longrightarrow> eTerm e \<le> T"
    using o(2) lead_terms [OF o(1), of e] v(2)
    by (force simp: acceptLog_def slog_ok_def split: if_splits dest: in_set_takeD)
  have cm: "comm quorum r (cm r v) (lg r v) T"
    using o(2) unfolding slog_ok_def by (elim conjE) (rule comm_later [OF _ v(2)])
  have "take (cm r v) (ll r T) = take (cm r v) (lg r v)"
    using comm_ruled [OF inv cm] T(1) by (simp add: ruled_def)
  moreover from this have "cm r v < q" if "take q (lg r v) \<noteq> take q (ll r T)"
    using that take_take_le [of "cm r v" "ll r T" "lg r v" q] by force
  ultimately show "comm quorum r (cm r v) (acceptLog r v T q) T"
    using comm_same [OF cm] by (auto simp: acceptLog_def min_def)
qed

lemma followed_ack:
  assumes inv: "rinv S quorum r" and g: "grows r (followed v T q r)" and v: "tm r v \<le> T"
    and T: "led r T = Some x" "n0 r T \<le> q" "q \<le> length (ll r T)"
  shows "ack_ok quorum (followed v T q r) U v"
proof -
  let ?r = "followed v T q r" and ?l = "acceptLog r v T q"
  have old: "blocked quorum ?r U m \<or> held ?r U m v" if m: "n0 r U < m" "m \<le> ack r U v" for m
  proof -
    have a: "ruled r U" "U \<le> tm r v" "m \<le> length (ll r U)" "blocked quorum r U m \<or> held r U m v"
      using rinvD(3) [OF inv, of U v] m by (auto simp: ack_ok_def)
    then have "blocked quorum r U m \<or> take m ?l = take m (ll r U) \<and> U \<le> lastT ?l"
      using accept_held [OF inv T v a(2,1) m(1) a(3)] by blast
    then show ?thesis using blocked_grows [OF _ g] by (auto simp: held_def)
  qed
  have "held ?r T m v" if "m \<le> q" "T \<le> lastT ?l" for m
    using that take_take_le [of q ?l "ll r T" m] by (simp add: held_def acceptLog_def)
  moreover have "m \<le> ack r U v \<or> U = T \<and> m \<le> q \<and> T \<le> lastT ?l" if "m \<le> ack ?r U v" for m
    using that by (auto simp: max_def split: if_splits)
  ultimately have "blocked quorum ?r U m \<or> held ?r U m v" if "n0 r U < m" "m \<le> ack ?r U v" for m
    using that old [of m] by blast
  moreover have "ack r U v = 0 \<or> ruled r U \<and> U \<le> T \<and> ack r U v \<le> length (ll r U)"
    using rinvD(3) [OF inv, of U v] v by (auto simp: ack_ok_def)
  then have "0 < ack ?r U v \<longrightarrow> ruled ?r U \<and> U \<le> tm ?r v \<and> ack ?r U v \<le> length (ll ?r U)"
    using T by (auto simp: ruled_def max_def split: if_splits)
  ultimately show ?thesis unfolding ack_ok_def by simp
qed

lemma accept_ok:
  assumes inv: "rinv S quorum r" and v: "v \<in> S" "tm r v \<le> T"
    and T: "ruled r T" "led r T \<noteq> Some v" "n0 r T \<le> q" "q \<le> length (ll r T)"
  shows "grows r (followed v T q r) \<and> rinv S quorum (followed v T q r)"
proof
  let ?r = "followed v T q r"
  obtain x where x: "led r T = Some x" "x \<noteq> v" using T(1,2) by (auto simp: ruled_def)
  note al = accept_log [OF inv x(1) T(3,4) v]
  show g: "grows r ?r" using v(2) by (auto simp: grows_def)
  have slog: "slog_ok quorum ?r v"
    using al patched_grows [OF inv _ g order_refl] comm_grows [OF inv _ g] rinvD(2) [OF inv v(1)] v(2)
    by (auto simp: slog_ok_def)
  have stand: "stand_ok quorum ?r U v" if "(U, v, v) \<in> cast r" for U
    using that x by (intro stand_grows [OF inv g]) auto
  show "rinv S quorum ?r"
    by (rule rinv_at [OF inv g, where v = v])
      (use x slog stand followed_ack [OF inv g v(2) x(1) T(3,4)] in auto)
qed

section \<open>Installing a snapshot\<close>

text \<open>The log changes only where it contradicted a committed entry.\<close>

lemma install_same:
  assumes "take s l = take s P" "s \<le> length P"
  shows "take s P @ drop s l = l"
  using assms by (metis append_take_drop_id)

lemma install_held:
  assumes inv: "rinv S quorum r" and s: "comm quorum r s P (tm r v)"
    and T: "ruled r T" "n0 r T < m" "m \<le> length (ll r T)" "held r T m v"
    and l: "l = take s P @ drop s (lg r v)"
  shows "blocked quorum r T m \<or> take m l = take m (ll r T) \<and> T \<le> lastT l"
proof (cases "s = 0 \<or> blocked quorum r T m \<or> take s (lg r v) = take s P")
  case True
  then have "blocked quorum r T m \<or> l = lg r v" using install_same [OF _ comm_len [OF inv s], of "lg r v", folded l] by (auto simp: l)
  then show ?thesis using T(4) by (auto simp: held_def)
next
  case False
  then obtain U where U: "com quorum r s U" "take s P = take s (ll r U)" using s by (auto simp: comm_def)
  obtain x where x: "lead_ok S quorum r T x" using T(1) rinvD(1) [OF inv] by (auto simp: ruled_def)
  have ru: "ruled r U" "s \<le> length (ll r U)" using com_len [OF inv U(1)] by auto
  then obtain y where y: "lead_ok S quorum r U y" using rinvD(1) [OF inv] by (auto simp: ruled_def)
  have h: "take m (lg r v) = take m (ll r T)" "T \<le> lastT (lg r v)" using T(4) by (auto simp: held_def)
  have TU: "T \<le> U"
  proof (rule ccontr)
    assume "\<not> T \<le> U"
    then have "s \<le> n0 r T" "take s (ll r T) = take s (ll r U)"
      using completeness [OF inv U(1) T(1)] by auto
    with take_take_le [OF h(1), of s] T(2) U(2) False show False by simp
  qed
  have m: "take m (ll r U) = take m (ll r T)"
    using rinvD(4) [OF inv _ T(1) ru(1) T(2,3)] False TU by (cases "T = U") (auto simp: safe_ok_def)
  have "m < s"
    using False take_take_le [OF h(1), of s] take_take_le [OF m, of s] U(2) by force
  then have tk: "take m l = take m (ll r T)" using m U(2) ru(2) by (simp add: l min_def)
  have "T \<le> lastT l"
  proof (cases "length (lg r v) \<le> s")
    case True
    then have "l = take s (ll r U)" using U(2) by (simp add: l)
    with held_last [OF sortedT_take _ x T(2,3), of "ll r U" s] y tk show ?thesis by (simp add: lead_ok_def)
  next
    case False
    then have "lastT l = lastT (lg r v)" by (auto simp: lastT_def l)
    with h(2) show ?thesis by simp
  qed
  with tk show ?thesis by simp
qed

lemma install_patched:
  assumes inv: "rinv S quorum r" and s: "comm quorum r s P t" and l: "patched quorum r l t"
  shows "patched quorum r (take s P @ drop s l) t"
proof -
  obtain s' P' b where b: "l = take s' P' @ drop s' b" "comm quorum r s' P' t" "proper r b" "sortedT b"
    using l unfolding patched_def by blast
  have len: "s \<le> length P" "s' \<le> length P'" using comm_len [OF inv s] comm_len [OF inv b(2)] .
  show ?thesis
  proof (cases "s \<le> s'")
    case True
    then have "take s l = take s P" using comm_agree [OF inv s b(2) order_refl True] b(1) len(2) by simp
    then show ?thesis using install_same [OF _ len(1)] l by simp
  next
    case False
    then have "take s P @ drop s l = take s P @ drop s b" using b(1) len(2) by simp
    then show ?thesis using s b(3,4) unfolding patched_def by blast
  qed
qed

lemma install_slog:
  assumes inv: "rinv S quorum r" and v: "v \<in> S" and s: "comm quorum r s P (tm r v)"
    and l: "l = take s P @ drop s (lg r v)"
  shows "take (cm r v) (lg r v) = take (cm r v) l" "e \<in> set l \<Longrightarrow> eTerm e \<le> tm r v"
proof -
  note len = comm_len [OF inv s] and o = rinvD(2) [OF inv v]
  have cm: "comm quorum r (cm r v) (lg r v) (tm r v)" using o by (simp add: slog_ok_def)
  show "take (cm r v) (lg r v) = take (cm r v) l"
  proof (cases "cm r v \<le> s")
    case True
    then show ?thesis using comm_agree [OF inv cm s order_refl True] len by (simp add: l min_def)
  next
    case False
    then have "take s (lg r v) = take s P" using comm_agree [OF inv cm s _ order_refl] by simp
    then show ?thesis using install_same [OF _ len] by (simp add: l)
  qed
  assume e: "e \<in> set l"
  show "eTerm e \<le> tm r v"
  proof (cases "s = 0 \<or> e \<in> set (drop s (lg r v))")
    case True
    then show ?thesis using e o by (auto simp: l slog_ok_def dest: in_set_dropD)
  next
    case False
    then obtain U where U: "U \<le> tm r v" "com quorum r s U" "take s P = take s (ll r U)"
      using s by (auto simp: comm_def)
    obtain x where "led r U = Some x" using com_len [OF inv U(2)] by (auto simp: ruled_def)
    then show ?thesis
      using lead_terms [OF rinvD(1) [OF inv], of U x e] False e U by (auto simp: l dest: in_set_takeD)
  qed
qed

lemma install_stand:
  assumes inv: "rinv S quorum r" and s: "comm quorum r s P U" and none: "led r U = None"
  shows "take s P @ drop s l = l \<or> (\<exists>s P. comm quorum r s P (U - 1) \<and> take s l \<noteq> take s P)"
proof (cases "s = 0 \<or> take s l = take s P")
  case True
  then show ?thesis using install_same [OF _ comm_len [OF inv s], of l] by auto
next
  case False
  then obtain T where T: "T \<le> U" "com quorum r s T" "take s P = take s (ll r T)" using s by (auto simp: comm_def)
  then have "T \<noteq> U" using com_len [OF inv T(2)] none by (auto simp: ruled_def)
  then have "comm quorum r s P (U - 1)" using T unfolding comm_def by (intro disjI2 exI [of _ T]) auto
  with False show ?thesis by blast
qed

lemma install_ok:
  assumes inv: "rinv S quorum r" and v: "v \<in> S" and s: "comm quorum r s P (tm r v)"
  shows "grows r (installed v s P r) \<and> rinv S quorum (installed v s P r)"
proof
  let ?r = "installed v s P r"
  define l where "l = take s P @ drop s (lg r v)"
  show g: "grows r ?r" by (simp add: grows_def)
  have lv: "lg ?r v = l" by (simp add: l_def)
  have slog: "slog_ok quorum ?r v"
    using rinvD(2) [OF inv v] install_patched [OF inv s, of "lg r v", folded l_def]
      patched_grows [OF inv _ g order_refl] comm_same [OF comm_grows [OF inv _ g] install_slog(1) [OF inv v s l_def]]
      install_slog(2) [OF inv v s l_def] unfolding slog_ok_def lv by auto
  have ack: "ack_ok quorum ?r T v" for T
    by (rule ack_grows [OF inv g])
      (use install_held [OF inv s _ _ _ _ l_def, of T] blocked_grows [OF _ g] lv in auto)
  have lead: "l = lg r v" if x: "led r (tm r v) = Some v"
    using lead_facts(2,4) [OF inv x] comm_ruled [OF inv s _ order_refl]
      install_same [OF _ comm_len [OF inv s], of "lg r v"] by (simp add: l_def)
  have stand: "stand_ok quorum ?r U v" if U: "(U, v, v) \<in> cast r" for U
    using install_stand [OF inv s, of "lg r v", folded l_def] lv by (intro stand_grows [OF inv g U]) auto
  show "rinv S quorum ?r"
    by (rule rinv_at [OF inv g, where v = v]) (use slog ack lead stand lv in auto)
qed

section \<open>The invariant is inductive\<close>

lemma rstep_ok: "rstep S quorum r r' \<Longrightarrow> rinv S quorum r \<Longrightarrow> grows r r' \<and> rinv S quorum r'"
proof (induction rule: rstep.induct)
  case (win r c Q)
  then show ?case using win_ok [OF win.prems win.hyps(1-3)] win.hyps(4) by blast
next
  case (accept v r T q)
  then show ?case using accept_ok [OF accept.prems accept.hyps] by blast
next
  case (vote r v c)
  then show ?case using voted_ok by blast
next
  case (lead r c e)
  then show ?case using lead_step_ok by blast
next
  case (install v r s P)
  then show ?case using install_ok by blast
next
  case (commit r k v)
  then show ?case using commit_ok by blast
next
  case (adopt r v t)
  then show ?case using adopt_ok by blast
next
  case (stand v r)
  then show ?case using stand_step_ok by blast
qed

lemma rsteps_ok: "(rstep S quorum)\<^sup>*\<^sup>* r r' \<Longrightarrow> rinv S quorum r \<Longrightarrow> grows r r' \<and> rinv S quorum r'"
  by (induction rule: rtranclp_induct) (blast intro: grows_refl grows_trans dest: rstep_ok)+

section \<open>Acknowledgements\<close>

lemma acked_grows:
  assumes "acked quorum r T v m" "grows r r'" "ruled r T"
  shows "acked quorum r' T v m"
  using assms growsD(3) [OF assms(2,3)] growsD(5) [OF assms(2), of T v] com_grows [OF _ assms(2)]
  unfolding acked_def by (metis order_trans)

lemma accept_acked:
  assumes inv: "rinv S quorum r" and v: "v \<in> S" "tm r v \<le> T"
    and T: "ruled r T" "n0 r T < q" "q \<le> length (ll r T)" and l: "lastT (acceptLog r v T q) < T"
  shows "\<exists>U \<le> T. com quorum r q U"
proof -
  obtain x where x: "lead_ok S quorum r T x" using T(1) rinvD(1) [OF inv] by (auto simp: ruled_def)
  have "take q (lg r v) = take q (ll r T)"
  proof (rule ccontr)
    assume "take q (lg r v) \<noteq> take q (ll r T)"
    then have "acceptLog r v T q = take q (ll r T)" by (simp add: acceptLog_def)
    with held_last [OF sortedT_take _ x T(2,3), of "ll r T" q] x l show False by (simp add: lead_ok_def)
  qed
  then have q: "take q (lg r v) = take q (ll r T)" "lastT (lg r v) < T" using l by (auto simp: acceptLog_def)
  have ql: "q \<le> length (lg r v)" using take_eq_length [OF q(1) T(3)] .
  obtain s P b where b: "lg r v = take s P @ drop s b" "comm quorum r s P (tm r v)" "sortedT b"
    using rinvD(2) [OF inv v(1)] unfolding slog_ok_def patched_def by blast
  have len: "s \<le> length P" using comm_len [OF inv b(2)] .
  have "q \<le> s"
  proof (rule ccontr)
    assume "\<not> q \<le> s"
    then have long: "s < length b" "lg r v ! (q - 1) = b ! (q - 1)" "q \<le> length b"
      using b(1) ql len by (auto simp: nth_append)
    have "lg r v ! (q - 1) = ll r T ! (q - 1)"
      using q(1) T(2,3) ql by (metis diff_less less_nat_zero_code less_one neq0_conv nth_take)
    moreover have "eTerm (ll r T ! (q - 1)) = T" using x T(2,3) by (auto simp: lead_ok_def)
    ultimately have "eTerm (b ! (q - 1)) = T" using long(2) by simp
    moreover have "eTerm (b ! (q - 1)) \<le> eTerm (b ! (length b - 1))"
      using b(3) long T(2) unfolding sortedT_def by (auto simp: sorted_iff_nth_mono)
    moreover have "lastT (lg r v) = eTerm (b ! (length b - 1))"
    proof -
      have "lastT (lg r v) = eTerm (last b)" using b(1) long(1) by (simp add: lastT_def)
      moreover have "b \<noteq> []" using long(1) by auto
      ultimately show ?thesis by (simp add: last_conv_nth)
    qed
    ultimately show False using q(2) by simp
  qed
  then obtain U where "U \<le> tm r v" "com quorum r s U" using b(2) T(2) by (auto simp: comm_def)
  then show ?thesis using com_less [OF _ \<open>q \<le> s\<close>] v(2) by (intro exI [of _ U]) auto
qed

text \<open>What a quorum acknowledged to a leader, up to an entry of its term, is committed.\<close>

lemma leader_commits:
  assumes inv: "rinv S quorum r" and T: "ruled r T" "n0 r T < k" and Q: "quorum Q"
    and a: "\<And>v. v \<in> Q \<Longrightarrow> \<exists>m \<ge> k. acked quorum r T v m"
  shows "com quorum r k T"
proof (cases "\<exists>U \<le> T. com quorum r k U")
  case True
  then obtain U where U: "U \<le> T" "com quorum r k U" by blast
  have "U = T" using completeness(2) [OF inv U(2) T(1) U(1)] T(2) U(1) by force
  with U show ?thesis by simp
next
  case False
  have "k \<le> ack r T v" if v: "v \<in> Q" for v
  proof -
    obtain m where m: "k \<le> m" "acked quorum r T v m" using a [OF v] by blast
    with False T(2) com_less [OF _ m(1)] show ?thesis by (auto simp: acked_def)
  qed
  then show ?thesis using T Q unfolding com_def by blast
qed

lemma lead_server: "rinv S quorum r \<Longrightarrow> led r T = Some l \<Longrightarrow> l \<in> S"
  unfolding rinv_def lead_ok_def by blast

lemma lead_comm: "com quorum r k T \<Longrightarrow> comm quorum r k (ll r T) T"
  unfolding comm_def by blast

end

end
