(* ===== verification/Raft_Agreement.thy ===== *)
theory Raft_Agreement
  imports Raft_Cluster_Log Agreement_Steps
begin

text \<open>
  The servers of a cluster run the protocol of \<open>Agreement\<close>. This theory relates one server and the
  messages it sends to the abstract state, and shows what each handler is in the protocol.
\<close>

interpretation repl: replication "servers n" "majority n" for n
  by unfold_locales (use maj.quorum_servers maj.quorum_meet in \<open>auto simp: servers_def\<close>)

section \<open>The log in memory\<close>

text \<open>The log in memory is the abstract log after the snapshot, with an entry that stands for it.\<close>

definition repLog :: "'c LogEntry list \<Rightarrow> 'c log \<Rightarrow> bool" where
  "repLog l L \<longleftrightarrow> l \<noteq> [] \<and> 0 \<le> base l \<and> nat (base l) \<le> length L \<and> tl l = drop (nat (base l)) L \<and>
     eTerm (hd l) = lastT (take (nat (base l)) L)"

lemma repLogD:
  assumes "repLog l L"
  shows "l \<noteq> []" "0 \<le> base l" "nat (base l) \<le> length L" "tl l = drop (nat (base l)) L"
    "eTerm (hd l) = lastT (take (nat (base l)) L)" "base l \<le> int (length L)"
  using assms by (auto simp: repLog_def)

lemma repLog_tail: "repLog l L \<Longrightarrow> tailIndex l = int (length L)"
proof -
  assume r: "repLog l L"
  have "length l = Suc (length (tl l))" using repLogD(1) [OF r] by (cases l) auto
  then show ?thesis using repLogD(2-4) [OF r] by (simp add: tailIndex_def)
qed

lemma lastT_take_Suc: "k < length L \<Longrightarrow> lastT (take (Suc k) L) = eTerm (L ! k)"
  by (simp add: lastT_def take_Suc_conv_app_nth)

lemma repLog_drop: "repLog l L \<Longrightarrow> base l < j \<Longrightarrow> drop (nat (j - base l)) l = drop (nat (j - 1)) L"
proof -
  assume r: "repLog l L" and j: "base l < j"
  have "nat (j - base l) = Suc (nat (j - base l - 1))" using j by simp
  then have "drop (nat (j - base l)) l = drop (nat (j - base l - 1)) (tl l)" by (simp add: drop_Suc)
  also have "\<dots> = drop (nat (j - 1)) L"
    using repLogD(2,4) [OF r] j by (simp add: nat_diff_distrib [symmetric]) (auto intro!: arg_cong2 [of _ _ _ _ drop])
  finally show ?thesis .
qed

lemma repLog_nth: "repLog l L \<Longrightarrow> base l < j \<Longrightarrow> j \<le> tailIndex l \<Longrightarrow> l ! nat (j - base l) = L ! nat (j - 1)"
proof -
  assume r: "repLog l L" and j: "base l < j" "j \<le> tailIndex l"
  have "nat (j - base l) < length l" using j by (auto simp: tailIndex_def)
  then have "l ! nat (j - base l) = hd (drop (nat (j - base l)) l)" by (simp add: hd_drop_conv_nth)
  also have "\<dots> = L ! nat (j - 1)"
    using repLog_drop [OF r j(1)] repLog_tail [OF r] j repLogD(2) [OF r] by (simp add: hd_drop_conv_nth)
  finally show ?thesis .
qed

lemma repLog_term:
  "repLog l L \<Longrightarrow> base l \<le> j \<Longrightarrow> j \<le> tailIndex l \<Longrightarrow> eTerm (l ! nat (j - base l)) = lastT (take (nat j) L)"
proof (cases "j = base l")
  case False
  assume r: "repLog l L" and j: "base l \<le> j" "j \<le> tailIndex l"
  then have "nat j = Suc (nat (j - 1))" "nat (j - 1) < length L"
    using False repLogD(2) [OF r] repLog_tail [OF r] by auto
  then show ?thesis using repLog_nth [OF r _ j(2)] j False by (simp add: lastT_take_Suc)
qed (auto simp: repLog_def hd_conv_nth)

lemma repLog_last: "repLog l L \<Longrightarrow> eTerm (last l) = lastT L"
proof -
  assume r: "repLog l L"
  have "last l = l ! nat (tailIndex l - base l)"
    using repLogD(1) [OF r] by (cases l) (auto simp: last_conv_nth tailIndex_def)
  then show ?thesis using repLog_term [OF r _ order_refl] repLog_tail [OF r] base_le_tailIndex [OF repLogD(1) [OF r]] by simp
qed

lemma repLogI:
  assumes "base l = int b" "b \<le> length L" "l = h # drop b L" "eTerm h = lastT (take b L)"
  shows "repLog l L"
  using assms by (simp add: repLog_def)

lemma repLog_Cons: "repLog l L \<Longrightarrow> l = hd l # drop (nat (base l)) L"
  using repLogD(1,4) by (metis list.collapse)

section \<open>Merging\<close>

text \<open>Where logs match at equal terms, the merge keeps the log or takes the other one.\<close>

lemma mergeSpec_matching:
  assumes M: "\<And>k. k < length L \<Longrightarrow> k < length N \<Longrightarrow> eTerm (L ! k) = eTerm (N ! k) \<Longrightarrow>
      take (Suc k) L = take (Suc k) N"
    and "take j L = take j N" "j \<le> length N" "j \<le> length L"
  shows "mergeSpec (drop j L) (drop j N) = drop j (if take (length N) L = N then L else N)"
  using assms(2-4)
proof (induction "length N - j" arbitrary: j)
  case 0
  then show ?case by simp
next
  case (Suc d)
  then have j: "j < length N" by simp
  show ?case
  proof (cases "j < length L")
    case False
    then have "length (take (length N) L) < length N" using j Suc.prems(3) by simp
    then have "take (length N) L \<noteq> N" by auto
    then show ?thesis using False by simp
  next
    case L: True
    have dr: "drop j L = L ! j # drop (Suc j) L" "drop j N = N ! j # drop (Suc j) N"
      using L j by (simp_all add: Cons_nth_drop_Suc)
    let ?X = "if take (length N) L = N then L else N"
    show ?thesis
    proof (cases "eTerm (L ! j) = eTerm (N ! j)")
      case True
      have tk: "take (Suc j) L = take (Suc j) N" using M [OF L j True] .
      then have Lj: "L ! j = N ! j" using L j by (metis lessI nth_take)
      have "mergeSpec (drop (Suc j) L) (drop (Suc j) N) = drop (Suc j) ?X"
        using Suc tk L j by (intro Suc.hyps(1)) auto
      moreover have "drop j ?X = L ! j # drop (Suc j) ?X" using dr Lj by auto
      ultimately show ?thesis using True by (simp add: dr)
    next
      case False
      then have "take (length N) L \<noteq> N" using j L by (metis nth_take)
      then show ?thesis using False dr by simp
    qed
  qed
qed

section \<open>One server and the protocol\<close>

text \<open>An entry of \<^verbatim>\<open>matchIndex\<close> of the leader of term \<open>T\<close>.\<close>

definition matched :: "nat \<Rightarrow> 'c rep \<Rightarrow> int \<Rightarrow> int \<Rightarrow> int \<Rightarrow> bool" where
  "matched n r T p m \<longleftrightarrow> 0 \<le> m \<and> nat m \<le> length (ll r T) \<and> acked (majority n) r T p (nat m)"

definition nodeRel :: "nat \<Rightarrow> 'c rep \<Rightarrow> int \<Rightarrow> ('c, 's) Raft \<Rightarrow> bool" where
  "nodeRel n r i rf \<longleftrightarrow> rf_term rf = tm r i \<and> repLog (rf_log rf) (lg r i) \<and>
     rf_commitIndex rf = int (cm r i) \<and> base (rf_log rf) \<le> rf_lastApplied rf \<and>
     rf_lastApplied rf \<le> rf_commitIndex rf \<and> (rf_state rf = Leader \<longrightarrow> led r (tm r i) = Some i) \<and>
     (led r (tm r i) = Some i \<longrightarrow> (\<forall>p < n. matched n r (tm r i) (int p) (rf_matchIndex rf ! p)))"

text \<open>What a call of \<^verbatim>\<open>AppendEntries\<close> carries: the leader's log from \<open>prev\<close> to what was its end \<open>q\<close>.\<close>

definition appRel :: "nat \<Rightarrow> 'c rep \<Rightarrow> 'c AppendEntriesArgs \<Rightarrow> nat \<Rightarrow> nat \<Rightarrow> bool" where
  "appRel n r args prev q \<longleftrightarrow> (let T = aeTerm args in
     n0 r T \<le> q \<and> q \<le> length (ll r T) \<and> prev \<le> q \<and> aePrevLogIndex args = int prev \<and>
     aePrevLogTerm args = lastT (take prev (ll r T)) \<and> aeEntries args = drop prev (take q (ll r T)) \<and>
     (aeEntries args \<noteq> [] \<longrightarrow> eIndex (last (aeEntries args)) = int q) \<and>
     0 \<le> aeLeaderCommit args \<and> nat (aeLeaderCommit args) \<le> q \<and>
     comm (majority n) r (nat (aeLeaderCommit args)) (ll r T) T)"

text \<open>A snapshot up to an index, with the term of its last entry, known to be committed by term \<open>T\<close>.\<close>

definition snapRel :: "nat \<Rightarrow> 'c rep \<Rightarrow> int \<Rightarrow> int \<Rightarrow> int \<Rightarrow> bool" where
  "snapRel n r T k t \<longleftrightarrow> 0 \<le> k \<and> (\<exists>P. comm (majority n) r (nat k) P T \<and> t = lastT (take (nat k) P))"

text \<open>A command handed to the service.\<close>

definition applyRel :: "nat \<Rightarrow> 'c rep \<Rightarrow> int \<Rightarrow> ('c, 's) ApplyMsg \<Rightarrow> bool" where
  "applyRel n r T m \<longleftrightarrow> 0 < amCommandIndex m \<and> (\<exists>P. comm (majority n) r (nat (amCommandIndex m)) P T \<and>
     amCommand m = eCommand (P ! nat (amCommandIndex m - 1)))"

fun msgRel :: "nat \<Rightarrow> 'c rep \<Rightarrow> ('c, 's) rpc \<Rightarrow> bool" where
  "msgRel n r (VoteReq c v args) \<longleftrightarrow> (rvTerm args, c, c) \<in> cast r \<and>
     rvLastLogIndex args = int (length (clog r (rvTerm args) c)) \<and>
     rvLastLogTerm args = lastT (clog r (rvTerm args) c)"
| "msgRel n r (VoteRep c v args reply) \<longleftrightarrow> True"
| "msgRel n r (AppReq i p args') \<longleftrightarrow> led r (aeTerm args') = Some i \<and> p \<noteq> i \<and> (\<exists>prev q. appRel n r args' prev q)"
| "msgRel n r (AppRep i p args' reply') \<longleftrightarrow> led r (aeTerm args') = Some i \<and>
     (aerSuccess reply' \<longrightarrow> (\<exists>prev q. appRel n r args' prev q \<and> acked (majority n) r (aeTerm args') p q))"
| "msgRel n r (SnapReq i p sargs) \<longleftrightarrow> snapRel n r (isTerm sargs) (isLastIncludedIndex sargs) (isLastIncludedTerm sargs)"
| "msgRel n r (SnapRep i p sargs sreply) \<longleftrightarrow> True"

lemma nodeRelD:
  assumes "nodeRel n r i rf"
  shows "rf_term rf = tm r i" "repLog (rf_log rf) (lg r i)" "rf_commitIndex rf = int (cm r i)"
    "base (rf_log rf) \<le> rf_lastApplied rf" "rf_lastApplied rf \<le> rf_commitIndex rf"
    "rf_state rf = Leader \<Longrightarrow> led r (tm r i) = Some i"
    "led r (tm r i) = Some i \<Longrightarrow> p < n \<Longrightarrow> matched n r (tm r i) (int p) (rf_matchIndex rf ! p)"
  using assms by (auto simp: nodeRel_def)

text \<open>History that grows keeps all of this.\<close>

abbreviation rinvs :: "nat \<Rightarrow> 'c rep \<Rightarrow> bool" where
  "rinvs n \<equiv> rinv (servers n) (majority n)"

lemma matched_grows: "matched n r T p m \<Longrightarrow> grows r r' \<Longrightarrow> ruled r T \<Longrightarrow> matched n r' T p m"
  using repl.acked_grows grows_length by (fastforce simp: matched_def)

lemma nodeRel_grows:
  assumes "nodeRel n r i rf" "grows r r'" "tm r' i = tm r i" "lg r' i = lg r i" "cm r' i = cm r i"
    and "led r' (tm r i) = Some i \<Longrightarrow> led r (tm r i) = Some i"
  shows "nodeRel n r' i rf"
proof -
  have "led r' (tm r i) = Some i" if "led r (tm r i) = Some i"
    using that growsD(2) [OF assms(2), of "tm r i"] by (simp add: ruled_def)
  then show ?thesis using assms matched_grows [OF _ assms(2)] by (auto simp: nodeRel_def ruled_def)
qed

lemma appRel_grows:
  assumes "appRel n r args prev q" "grows r r'" "rinvs n r" "ruled r (aeTerm args)"
  shows "appRel n r' args prev q"
proof -
  let ?T = "aeTerm args"
  have q: "q \<le> length (ll r ?T)" "prev \<le> q" "nat (aeLeaderCommit args) \<le> q"
    and c: "comm (majority n) r (nat (aeLeaderCommit args)) (ll r ?T) ?T"
    using assms(1) by (auto simp: appRel_def Let_def)
  have tk: "take k (ll r' ?T) = take k (ll r ?T)" if "k \<le> q" for k
    using grows_take [OF assms(2,4), of k] that q(1) by simp
  have "comm (majority n) r' (nat (aeLeaderCommit args)) (ll r' ?T) ?T"
    using comm_same [OF repl.comm_grows [OF assms(3) c assms(2)]] tk [OF q(3)] by simp
  then show ?thesis
    using assms(1) tk [OF q(2)] tk [OF order_refl] growsD(3) [OF assms(2,4)] grows_length [OF assms(2,4)]
    by (auto simp: appRel_def Let_def)
qed

lemma snapRel_grows: "snapRel n r T k t \<Longrightarrow> grows r r' \<Longrightarrow> rinvs n r \<Longrightarrow> T \<le> T' \<Longrightarrow> snapRel n r' T' k t"
  unfolding snapRel_def using repl.comm_grows comm_later by blast

lemma applyRel_grows: "applyRel n r T m \<Longrightarrow> grows r r' \<Longrightarrow> rinvs n r \<Longrightarrow> T \<le> T' \<Longrightarrow> applyRel n r' T' m"
  unfolding applyRel_def using repl.comm_grows comm_later by blast

lemma msgRel_grows:
  assumes "msgRel n r m" "grows r r'" "rinvs n r"
  shows "msgRel n r' m"
proof -
  have led: "led r' T = Some l" "ruled r T" if "led r T = Some l" for T l
    using that growsD(2) [OF assms(2), of T] by (auto simp: ruled_def)
  show ?thesis
  proof (cases m)
    case (VoteReq c v args)
    then show ?thesis using assms(1) growsD(7,8) [OF assms(2)] by auto
  next
    case (AppReq i p args)
    then show ?thesis using assms(1) appRel_grows [OF _ assms(2,3) led(2)] led(1) by fastforce
  next
    case (AppRep i p args reply)
    then show ?thesis
      using assms(1) appRel_grows [OF _ assms(2,3) led(2)] led(1) repl.acked_grows [OF _ assms(2) led(2)]
      by fastforce
  next
    case (SnapReq i p args)
    then show ?thesis using assms(1) snapRel_grows [OF _ assms(2,3) order_refl] by simp
  qed auto
qed

section \<open>Handlers that leave the log alone\<close>

definition sameLog :: "('c, 's) Raft \<Rightarrow> ('c, 's) Raft \<Rightarrow> bool" where
  "sameLog rf rf' \<longleftrightarrow> rf_log rf' = rf_log rf \<and> rf_commitIndex rf' = rf_commitIndex rf \<and>
     rf_lastApplied rf' = rf_lastApplied rf \<and> rf_matchIndex rf' = rf_matchIndex rf"

lemma followSender_sameLog: "sameLog rf (followSender t (rf\<lparr>rf_lastHeartbeat := now\<rparr>))"
  by (auto simp: sameLog_def followSender_def node_simps)

lemma DoElection_sameLog: "DoElection now r rf = Inr (rf', x) \<Longrightarrow> sameLog rf rf'"
  by (auto simp: sameLog_def DoElection_def node_simps Let_def elim!: rbind_InrE split: if_splits)

lemma RequestVote_sameLog: "RequestVote now args rf = Inr (rf', reply) \<Longrightarrow> sameLog rf rf'"
  by (auto simp: sameLog_def RequestVote_def node_simps Let_def elim!: rbind_InrE split: if_splits)

lemma handleVoteReply_sameLog:
  "handleVoteReply args reply rf w = Inr (rf', w') \<Longrightarrow> rf_state rf' = Leader \<Longrightarrow> rf_state rf = Candidate \<or> sameLog rf rf'"
  "handleVoteReply args reply rf w = Inr (rf', w') \<Longrightarrow> rf_state rf' \<noteq> Leader \<Longrightarrow> sameLog rf rf'"
  by (auto simp: sameLog_def handleVoteReply_def winElection_def node_simps Let_def
      elim!: rbind_InrE split: if_splits)

lemma InstallSnapshot_sameLog: "InstallSnapshot now args rf = (rf', x) \<Longrightarrow> sameLog rf rf'"
  using followSender_sameLog [of rf "isTerm args" now]
  by (auto simp: sameLog_def InstallSnapshot_def Let_def split: if_splits)

lemma handleInstallReply_sameLog: "handleInstallReply p args reply rf = Inr rf' \<Longrightarrow> sameLog rf rf'"
  by (auto simp: sameLog_def handleInstallReply_def node_simps elim!: rbind_InrE split: if_splits)

text \<open>Such a handler is at most the adoption of a later term.\<close>

lemma atTerm_step: "tm r i \<le> t \<Longrightarrow> rstep S quorum r (atTerm i t r)"
  by (rule rstep.adopt)

lemma led_term: "rinvs n r \<Longrightarrow> led r T = Some i \<Longrightarrow> T \<le> tm r i"
  using rinvD(1) by (fastforce simp: lead_ok_def)

lemma matched_later: "matched n (atTerm i t r) T p m = matched n r T p m"
  by (simp add: matched_def acked_def com_def ruled_def)

lemma quiet_nodeRel:
  assumes inv: "rinvs n r" and rel: "nodeRel n r i rf" and same: "sameLog rf rf'"
    and eff: "sameVote rf rf' \<or> laterTerm rf rf' \<or> yields t rf rf'"
  shows "nodeRel n (atTerm i (rf_term rf') r) i rf'" "tm r i \<le> rf_term rf'"
proof -
  have t: "tm r i \<le> rf_term rf'" using effect_term [OF eff] nodeRelD(1) [OF rel] by simp
  then show "tm r i \<le> rf_term rf'" .
  have same_t: "rf_term rf' = tm r i" if "led r (rf_term rf') = Some i"
    using led_term [OF inv that] t by simp
  have lead: "led r (tm r i) = Some i \<and> rf_term rf' = tm r i" if "rf_state rf' = Leader"
    using that eff nodeRelD(1,6) [OF rel] by (auto simp: vote_defs)
  have "matched n r (rf_term rf') (int p) (rf_matchIndex rf' ! p)" if "led r (rf_term rf') = Some i" "p < n" for p
    using nodeRelD(7) [OF rel _ that(2)] same_t [OF that(1)] that(1) same by (simp add: sameLog_def)
  then show "nodeRel n (atTerm i (rf_term rf') r) i rf'"
    using nodeRelD(1-5) [OF rel] same lead unfolding nodeRel_def sameLog_def atTerm_simps matched_later by simp
qed

section \<open>AppendEntries\<close>

text \<open>A log in memory with its tail replaced beyond a point where the abstract logs agree.\<close>

lemma repLog_replace:
  assumes r: "repLog l L" and b: "nat (base l) \<le> j" "j \<le> length X" "take j X = take j L"
  shows "repLog (hd l # drop (nat (base l)) X) X" "base (hd l # drop (nat (base l)) X) = base l"
    "j \<le> length L \<Longrightarrow> hd l # drop (nat (base l)) X = take (nat (int j + 1 - base l)) l @ drop j X"
proof -
  show bs: "base (hd l # drop (nat (base l)) X) = base l" by (simp add: base_def)
  have "take (nat (base l)) X = take (nat (base l)) L" using take_take_le [OF b(3,1)] .
  then show "repLog (hd l # drop (nat (base l)) X) X"
    using repLogD(2,5) [OF r] b by (simp add: repLog_def bs)
  assume jL: "j \<le> length L"
  have n: "nat (int j + 1 - base l) = Suc (j - nat (base l))" using b(1) repLogD(2) [OF r] by simp
  have "take (Suc (j - nat (base l))) l = hd l # take (j - nat (base l)) (drop (nat (base l)) L)"
    by (subst repLog_Cons [OF r]) simp
  also have "take (j - nat (base l)) (drop (nat (base l)) L) = take (j - nat (base l)) (drop (nat (base l)) X)"
    using b by (simp add: take_drop)
  finally have "take (nat (int j + 1 - base l)) l @ drop j X =
      hd l # take (j - nat (base l)) (drop (nat (base l)) X) @ drop (j - nat (base l)) (drop (nat (base l)) X)"
    using n b(1) by simp
  then show "hd l # drop (nat (base l)) X = take (nat (int j + 1 - base l)) l @ drop j X"
    by (simp only: append_take_drop_id)
qed

text \<open>Logs that match wherever their terms are equal, and the longer or the newer of them.\<close>

definition matchesAt :: "'c log \<Rightarrow> 'c log \<Rightarrow> bool" where
  "matchesAt L N \<longleftrightarrow> (\<forall>k. k < length L \<longrightarrow> k < length N \<longrightarrow> eTerm (L ! k) = eTerm (N ! k) \<longrightarrow>
     take (Suc k) L = take (Suc k) N)"

definition takeOver :: "'c log \<Rightarrow> 'c log \<Rightarrow> 'c log" where
  "takeOver L N = (if take (length N) L = N then L else N)"

lemma takeOver_merge:
  assumes "matchesAt L N" "take j L = take j N" "j \<le> length N" "j \<le> length L"
  shows "mergeSpec (drop j L) (drop j N) = drop j (takeOver L N)" "take j (takeOver L N) = take j L"
    "j \<le> length (takeOver L N)"
  using mergeSpec_matching [of L N j] assms by (auto simp: matchesAt_def takeOver_def)

lemma merge_inside:
  assumes rL: "repLog l L" and wf: "wf_log l" and M: "matchesAt L N"
    and j: "base l \<le> int j" "take j L = take j N" "j \<le> length N" "j \<le> length L"
    and con: "contig (int j + 1) (drop j N)"
  shows "drop j N \<noteq> [] \<Longrightarrow> mergeEntries l (drop j N) = Inr (hd l # drop (nat (base l)) (takeOver L N))"
    "drop j N = [] \<Longrightarrow> takeOver L N = L"
proof -
  note m = takeOver_merge [OF M j(2-4)]
  have b: "nat (base l) \<le> j" using j(1) by simp
  assume "drop j N \<noteq> []"
  then have "mergeEntries l (drop j N) =
      Inr (take (nat (int j + 1 - base l)) l @ mergeSpec (drop (nat (int j + 1 - base l)) l) (drop j N))"
    using j(1,4) repLog_tail [OF rL] by (intro mergeEntries_spec [OF wf con]) auto
  also have "drop (nat (int j + 1 - base l)) l = drop j L" using repLog_drop [OF rL, of "int j + 1"] j(1) by simp
  also have "mergeSpec (drop j L) (drop j N) = drop j (takeOver L N)" by (rule m(1))
  finally show "mergeEntries l (drop j N) = Inr (hd l # drop (nat (base l)) (takeOver L N))"
    using repLog_replace(3) [OF rL b m(3,2) j(4)] by simp
qed (use j(2,3) in \<open>simp add: takeOver_def\<close>)

lemma merge_overlap:
  assumes rL: "repLog l L" and wf: "wf_log l" and M: "matchesAt L N"
    and b: "take (nat (base l)) L = take (nat (base l)) N" "nat (base l) \<le> length N" "int j < base l"
    and con: "contig (int j + 1) (drop j N)"
  shows "mergeEntries l (drop j N) = Inr (hd l # drop (nat (base l)) (takeOver L N))"
proof -
  let ?b = "nat (base l)"
  have j: "0 < ?b" "j < ?b" "nat (base l - int j - 1) = ?b - 1 - j" "nat (base l - int j) = ?b - j"
    using b(3) by auto
  have "eTerm (drop j N ! nat (base l - int j - 1)) = eTerm (N ! (?b - 1))" using j b(2) by simp
  also have "\<dots> = eTerm (hd l)"
    using repLogD(5) [OF rL] b(1,2) j(1) lastT_take_Suc [of "?b - 1" N] by simp
  finally have "mergeEntries l (drop j N) = Inr (hd l # mergeSpec (tl l) (drop (nat (base l - int j)) (drop j N)))"
    using b(2) j by (intro mergeEntries_overlap [OF wf con b(3)]) (auto simp: nat_le_iff)
  also have "drop (nat (base l - int j)) (drop j N) = drop ?b N" using j by simp
  also have "mergeSpec (tl l) (drop ?b N) = drop ?b (takeOver L N)"
    using takeOver_merge(1) [OF M b(1,2)] repLogD(3,4) [OF rL] by simp
  finally show ?thesis .
qed

text \<open>The log that the handler keeps: merged, where there is something to merge.\<close>

definition merged :: "'c LogEntry list \<Rightarrow> 'c LogEntry list \<Rightarrow> 'c LogEntry list \<Rightarrow> bool" where
  "merged l es l' \<longleftrightarrow> l' = l \<and> es = [] \<or> es \<noteq> [] \<and> mergeEntries l es = Inr l'"

lemma merged_takeOver:
  assumes rL: "repLog l L" and wf: "wf_log l" and M: "matchesAt L N" and j: "j \<le> length N"
    and con: "contig (int j + 1) (drop j N)"
    and ix: "drop j N \<noteq> [] \<Longrightarrow> eIndex (last (drop j N)) = int (length N)"
    and b: "take (nat (base l)) L = take (nat (base l)) P" "N = take (length N) P"
    and inside: "base l \<le> int j \<Longrightarrow> j \<le> length L \<and> take j L = take j N"
  obtains l' where "merged l (drop j N) l'" "repLog l' (takeOver L N)" "base l' = base l"
proof -
  let ?b = "nat (base l)" and ?X = "takeOver L N"
  consider (within) "base l \<le> int j" | (old) "int j < base l" "length N < ?b" | (overlap) "int j < base l" "?b \<le> length N"
    by linarith
  then show thesis
  proof cases
    case within
    note i = inside [OF within] and mg = merge_inside [OF rL wf M within _ j _ con]
    note to = takeOver_merge [OF M conjunct2 [OF i] j conjunct1 [OF i]]
    have bj: "?b \<le> j" using within by simp
    show thesis
      using that [of l] that [of "hd l # drop ?b ?X"] repLog_replace(1,2) [OF rL bj to(3,2)] mg i rL
      by (cases "drop j N = []") (simp_all add: merged_def)
  next
    case old
    have "take (length N) L = N" using take_take_le [OF b(1), of "length N"] old(2) b(2) by simp
    then have "?X = L" by (simp add: takeOver_def)
    moreover have "mergeEntries l (drop j N) = Inr l" if "drop j N \<noteq> []"
      using mergeEntries_old [OF repLogD(1) [OF rL] that] ix [OF that] old(2) by simp
    ultimately show thesis using that [of l] rL by (cases "drop j N = []") (simp_all add: merged_def)
  next
    case overlap
    have "take ?b N = take ?b P" using arg_cong [OF b(2), of "take ?b"] overlap(2) by simp
    then have tk: "take ?b L = take ?b N" using b(1) by simp
    have "drop j N \<noteq> []" using overlap by simp
    then show thesis
      using that [of "hd l # drop ?b ?X"] merge_overlap [OF rL wf M tk overlap(2,1) con]
        takeOver_merge(2,3) [OF M tk overlap(2) repLogD(3) [OF rL]] repLog_replace(1,2) [OF rL order_refl]
      by (simp add: merged_def)
  qed
qed

lemma accept_merge:
  fixes r :: "'c rep" and rf :: "('c, 's) Raft"
  assumes inv: "rinvs n r" and rel: "nodeRel n r p rf" and wf: "wf_log (rf_log rf)" and p: "p \<in> servers n"
    and app: "appRel n r args prev q" and T: "T = aeTerm args" "ruled r T" "rf_term rf \<le> T"
    and con: "contig (aePrevLogIndex args + 1) (aeEntries args)"
    and ok: "logMismatch (rf_log rf) args = Inr None"
  obtains l where "merged (rf_log rf) (aeEntries args) l" "repLog l (acceptLog r p T q)" "base l = base (rf_log rf)"
proof -
  define L l N where "L = lg r p" and "l = rf_log rf" and "N = take q (ll r T)"
  have q: "q \<le> length (ll r T)" "prev \<le> q" "aePrevLogIndex args = int prev"
    "aePrevLogTerm args = lastT (take prev (ll r T))" and es: "aeEntries args = drop prev N"
    using app T(1) by (auto simp: appRel_def Let_def N_def)
  have ix: "drop prev N \<noteq> [] \<Longrightarrow> eIndex (last (drop prev N)) = int q"
    using app unfolding appRel_def Let_def es by blast
  have lN: "length N = q" using q(1) by (simp add: N_def)
  have X: "acceptLog r p T q = takeOver L N" using lN by (simp add: acceptLog_def takeOver_def L_def N_def)
  have rL: "repLog l L" using nodeRelD(2) [OF rel] by (simp add: L_def l_def)
  have tmT: "tm r p \<le> T" using T(3) nodeRelD(1) [OF rel] by simp
  have M: "matchesAt L N"
    using repl.matching [OF inv p T(2) tmT] lN q(1) by (simp add: matchesAt_def L_def N_def)
  have "nat (base l) \<le> cm r p" using nodeRelD(3-5) [OF rel] by (simp add: l_def)
  then have "comm (majority n) r (nat (base l)) L (tm r p)"
    using comm_less rinvD(2) [OF inv p] unfolding slog_ok_def L_def by blast
  then have b: "take (nat (base l)) L = take (nat (base l)) (ll r T)" using repl.comm_ruled [OF inv _ T(2) tmT] by simp
  have inside: "prev \<le> length L \<and> take prev L = take prev N" if i: "base l \<le> int prev"
  proof
    have m: "int prev \<le> tailIndex l \<and> (0 < prev \<longrightarrow> eTerm (l ! nat (int prev - base l)) = lastT (take prev (ll r T)))"
      using ok i q(3,4) repLogD(1,6) [OF rL] repLog_tail [OF rL] logMismatch_eq [of l args]
      by (auto simp: l_def Let_def split: if_splits)
    then show pL: "prev \<le> length L" using repLog_tail [OF rL] by simp
    show "take prev L = take prev N"
    proof (cases prev)
      case (Suc k)
      have "lastT (take prev L) = lastT (take prev (ll r T))"
        using m repLog_term [OF rL i] Suc by (simp del: of_nat_Suc)
      then have "eTerm (L ! k) = eTerm (N ! k)" using Suc pL q(1,2) by (simp add: lastT_take_Suc N_def)
      then show ?thesis using M Suc pL q(2) lN by (simp add: matchesAt_def)
    qed simp
  qed
  have NP: "N = take (length N) (ll r T)" unfolding lN by (simp add: N_def)
  obtain l' where "merged l (drop prev N) l'" "repLog l' (takeOver L N)" "base l' = base l"
    using merged_takeOver [OF rL wf [folded l_def] M _ _ _ b NP inside] con q(2,3) es lN ix by auto
  then show thesis using that es X by (simp add: l_def)
qed

text \<open>
  The handler: it ignores the call, or adopts the term and refuses, or takes over the leader's
  entries, acknowledges them and moves its commit index to the leader's.
\<close>

lemma followed_step:
  assumes "v \<in> S" "tm r v \<le> T" "ruled r T" "led r T \<noteq> Some v" "n0 r T \<le> q" "q \<le> length (ll r T)"
  shows "rstep S quorum r (followed v T q r)"
  by (rule rstep.accept [OF assms])

lemma committed_step: "comm quorum r k (lg r v) (tm r v) \<Longrightarrow> rstep S quorum r (committed v k r)"
  by (rule rstep.commit)

lemma acked_committed [simp]: "acked quorum (committed v k r) = acked quorum r"
  by (simp add: acked_def com_def ruled_def fun_eq_iff)

lemma matched_committed [simp]: "matched n (committed v k r) = matched n r"
  by (simp add: matched_def fun_eq_iff)

lemma AppendEntries_lastApplied:
  "AppendEntries now args rf = Inr (rf', reply) \<Longrightarrow> rf_lastApplied rf' = rf_lastApplied rf"
  by (auto simp: AppendEntries_def Let_def persist_def elim!: rbind_InrE split: if_splits option.splits)

lemma AppendEntries_merged:
  assumes rel: "nodeRel n r p rf" and wf: "wf_log (rf_log rf)" and l: "merged (rf_log rf) (aeEntries args) l" "repLog l X"
    and con: "contig (aePrevLogIndex args + 1) (aeEntries args)" "0 \<le> aePrevLogIndex args"
    and ok: "rf_term rf \<le> aeTerm args" "logMismatch (rf_log rf) args = Inr None"
    and h: "AppendEntries now args rf = Inr (rf', reply)"
  shows "rf_log rf' = l" "rf_term rf' = aeTerm args" "rf_lastApplied rf' = rf_lastApplied rf"
    "rf_commitIndex rf' = newCommit (rf_commitIndex rf) (aeLeaderCommit args) (int (length X))"
proof -
  have ne: "rf_log rf \<noteq> []" "l \<noteq> []" using repLogD(1) l(2) nodeRelD(2) [OF rel] by blast+
  have rf': "rf_log rf' = l" "rf_term rf' = aeTerm args"
    "rf_commitIndex rf' = newCommit (rf_commitIndex rf) (aeLeaderCommit args) (eIndex (last l))"
    using AppendEntries_accepts [OF _ ne(1) ok(2) l(1) [unfolded merged_def] ne(2), of now] ok(1) h by auto
  then show "rf_log rf' = l" "rf_term rf' = aeTerm args" by auto
  have "wf_log l"
    using AppendEntries_total [OF wf con(1), of now] repLogD(2) [OF nodeRelD(2) [OF rel]] con(2) h rf'(1) by auto
  from wf_log_last [OF this] have "eIndex (last l) = int (length X)" using repLog_tail [OF l(2)] by simp
  with rf'(3) show "rf_commitIndex rf' = newCommit (rf_commitIndex rf) (aeLeaderCommit args) (int (length X))" by simp
  show "rf_lastApplied rf' = rf_lastApplied rf" using AppendEntries_lastApplied [OF h] .
qed

text \<open>The step of the protocol, and the commit index that follows the leader's.\<close>

lemma appRel_followed:
  assumes inv: "rinvs n r" and p: "p \<in> servers n" "tm r p \<le> T"
    and app: "appRel n r args prev q" and T: "T = aeTerm args" "led r T = Some i" "p \<noteq> i"
  defines "k \<equiv> if int (cm r p) < aeLeaderCommit args then nat (aeLeaderCommit args) else cm r p"
  shows "(rstep (servers n) (majority n))\<^sup>*\<^sup>* r (committed p k (followed p T q r))"
    "acked (majority n) (followed p T q r) T p q" "nat (aeLeaderCommit args) \<le> length (acceptLog r p T q)"
proof -
  have ru: "ruled r T" using T(2) by (simp add: ruled_def)
  have q: "n0 r T \<le> q" "q \<le> length (ll r T)" "nat (aeLeaderCommit args) \<le> q"
    "comm (majority n) r (nat (aeLeaderCommit args)) (ll r T) T"
    using app T(1) by (auto simp: appRel_def Let_def)
  let ?r1 = "followed p T q r" and ?X = "acceptLog r p T q" and ?lc = "nat (aeLeaderCommit args)"
  have s1: "rstep (servers n) (majority n) r ?r1" using followed_step [OF p ru _ q(1,2)] T(2,3) by auto
  have r1: "grows r ?r1" "rinvs n ?r1" using repl.rstep_ok [OF s1 inv] by auto
  have tkq: "take q ?X = take q (ll r T)" by (rule repl.accept_log(1) [OF inv T(2) q(1,2) p])
  show "?lc \<le> length ?X" using take_eq_length [OF tkq q(2)] q(3) by simp
  have "comm (majority n) ?r1 ?lc ?X T"
    using comm_same [OF repl.comm_grows [OF inv q(4) r1(1)] take_take_le [OF tkq [symmetric] q(3)]] .
  moreover have "comm (majority n) ?r1 (cm r p) ?X T" using rinvD(2) [OF r1(2) p(1)] by (simp add: slog_ok_def)
  ultimately have "comm (majority n) ?r1 k ?X T" by (simp add: k_def)
  then have "rstep (servers n) (majority n) ?r1 (committed p k ?r1)" by (intro committed_step) simp
  with s1 show "(rstep (servers n) (majority n))\<^sup>*\<^sup>* r (committed p k ?r1)"
    by (meson converse_rtranclp_into_rtranclp r_into_rtranclp)
  show "acked (majority n) ?r1 T p q"
  proof (cases "n0 r T < q \<and> lastT ?X < T")
    case True
    then show ?thesis
      using repl.accept_acked [OF inv p ru _ q(2)] com_grows [OF _ r1(1)] by (auto simp: acked_def)
  qed (auto simp: acked_def)
qed

lemma AppendEntries_followed:
  assumes inv: "rinvs n r" and rel: "nodeRel n r p rf" and wf: "wf_log (rf_log rf)" and p: "p \<in> servers n"
    and app: "appRel n r args prev q" and T: "T = aeTerm args" "led r T = Some i" "p \<noteq> i" "rf_term rf \<le> T"
    and con: "contig (aePrevLogIndex args + 1) (aeEntries args)"
    and ok: "logMismatch (rf_log rf) args = Inr None"
    and h: "AppendEntries now args rf = Inr (rf', reply)"
  obtains k where "(rstep (servers n) (majority n))\<^sup>*\<^sup>* r (committed p k (followed p T q r))"
    "nodeRel n (committed p k (followed p T q r)) p rf'" "acked (majority n) (followed p T q r) T p q"
    "rf_lastApplied rf' = rf_lastApplied rf"
proof -
  have ru: "ruled r T" using T(2) by (simp add: ruled_def)
  have tmT: "tm r p \<le> T" using T(4) nodeRelD(1) [OF rel] by simp
  have q: "0 \<le> aePrevLogIndex args" "0 \<le> aeLeaderCommit args" using app by (auto simp: appRel_def Let_def)
  let ?k = "if int (cm r p) < aeLeaderCommit args then nat (aeLeaderCommit args) else cm r p"
  note a = appRel_followed [OF inv p tmT app T(1-3)]
  obtain l where l: "merged (rf_log rf) (aeEntries args) l"
    and rl: "repLog l (acceptLog r p T q)" "base l = base (rf_log rf)"
    using accept_merge [OF inv rel wf p app T(1) ru T(4) con ok] by blast
  note rf' = AppendEntries_merged [OF rel wf l rl(1) con q(1) T(4) [unfolded T(1)] ok h]
  have ci: "rf_commitIndex rf' = int ?k"
    using rf'(4) q(2) a(3) nodeRelD(3) [OF rel] by (auto simp: newCommit_def)
  have "rf_state rf' \<noteq> Leader"
    using AppendEntries_vote [OF h] nodeRelD(1,6) [OF rel] T(1-3) rf'(2) by (auto simp: vote_defs)
  moreover have "rf_lastApplied rf \<le> int ?k" using nodeRelD(3,5) [OF rel] q(2) by auto
  ultimately have "nodeRel n (committed p ?k (followed p T q r)) p rf'"
    using rf'(1-3) rl ci nodeRelD(4) [OF rel] T(1-3) by (auto simp: nodeRel_def)
  with a rf'(3) show thesis using that by blast
qed

section \<open>The leader\<close>

text \<open>What \<^verbatim>\<open>Replicate\<close> sends.\<close>

lemma Replicate_append_inv:
  assumes "Replicate p rf = Inr (Some (CallAppendEntries args))" "wf_log (rf_log rf)"
  obtains ni where "base (rf_log rf) < ni" "ni \<le> tailIndex (rf_log rf) + 1"
    "args = \<lparr>aeTerm = rf_term rf, aeLeaderId = rf_me rf, aePrevLogIndex = ni - 1,
      aePrevLogTerm = eTerm (rf_log rf ! nat (ni - 1 - base (rf_log rf))),
      aeEntries = drop (nat (ni - base (rf_log rf))) (rf_log rf), aeLeaderCommit = rf_commitIndex rf\<rparr>"
proof -
  let ?l = "rf_log rf"
  have ne: "?l \<noteq> []" using assms(2) by auto
  obtain ni e where ni: "at (rf_nextIndex rf) p = Inr ni" "base ?l < ni" "lookup ?l (ni - 1) = Some e"
    using assms(1) ne
    by (auto simp: Replicate_def base_def [symmetric] GetLogAtIndex_lookup deref_def not_le
        elim!: rbind_InrE split: if_splits option.splits)
  have b: "ni \<le> tailIndex ?l + 1" using ni(3) by (auto simp: lookup_def split: if_splits)
  have p: "0 \<le> p" "p < int (length (rf_nextIndex rf))" "ni = rf_nextIndex rf ! nat p"
    using ni(1) by (auto simp: at_Inr_iff)
  from Replicate_append [OF assms(2) Replicate_leader [OF assms(1)] p(1,2,3) ni(2) b] assms(1) that [OF ni(2) b]
  show thesis by simp
qed

lemma Replicate_appRel:
  assumes inv: "rinvs n r" and rel: "nodeRel n r i rf" and wf: "wf_log (rf_log rf)" and i: "i \<in> servers n"
    and h: "Replicate p rf = Inr (Some (CallAppendEntries args))"
  shows "led r (aeTerm args) = Some i \<and> (\<exists>prev q. appRel n r args prev q)"
proof -
  let ?T = "tm r i" and ?l = "rf_log rf"
  have led: "led r ?T = Some i" using nodeRelD(6) [OF rel Replicate_leader [OF h]] .
  have lo: "lead_ok (servers n) (majority n) r ?T i" using rinvD(1) [OF inv led] .
  then have log: "lg r i = ll r ?T" by (simp add: lead_ok_def)
  have rL: "repLog ?l (ll r ?T)" using nodeRelD(2) [OF rel] log by simp
  obtain ni where ni: "base ?l < ni" "ni \<le> tailIndex ?l + 1" and
    a: "args = \<lparr>aeTerm = rf_term rf, aeLeaderId = rf_me rf, aePrevLogIndex = ni - 1,
      aePrevLogTerm = eTerm (?l ! nat (ni - 1 - base ?l)),
      aeEntries = drop (nat (ni - base ?l)) ?l, aeLeaderCommit = rf_commitIndex rf\<rparr>"
    using Replicate_append_inv [OF h wf] by blast
  have b: "0 \<le> base ?l" "tailIndex ?l = int (length (ll r ?T))" using repLogD(2) [OF rL] repLog_tail [OF rL] .
  have cm: "comm (majority n) r (cm r i) (ll r ?T) ?T" using rinvD(2) [OF inv i] log by (simp add: slog_ok_def)
  have "eIndex (last (aeEntries args)) = int (length (ll r ?T))" if "aeEntries args \<noteq> []"
    using that contig_last [OF contig_suffix [OF wf, of ni]] ni a b(2) by (auto simp: tailIndex_def)
  then have "appRel n r args (nat (ni - 1)) (length (ll r ?T))"
    using a nodeRelD(1,3) [OF rel] ni b lo cm repl.comm_len [OF inv cm] repLog_drop [OF rL ni(1)]
      repLog_term [OF rL, of "ni - 1"]
    by (auto simp: appRel_def Let_def lead_ok_def)
  then show ?thesis using led a nodeRelD(1) [OF rel] by auto
qed

lemma Replicate_snapRel:
  assumes inv: "rinvs n r" and rel: "nodeRel n r i rf" and i: "i \<in> servers n"
    and h: "Replicate p rf = Inr (Some (CallInstallSnapshot args))"
  shows "snapRel n r (isTerm args) (isLastIncludedIndex args) (isLastIncludedTerm args)"
proof -
  let ?l = "rf_log rf"
  note rL = nodeRelD(2) [OF rel]
  have a: "isTerm args = rf_term rf" "isLastIncludedIndex args = base ?l" "isLastIncludedTerm args = eTerm (hd ?l)"
    using h repLogD(1) [OF rL] by (auto simp: Replicate_def base_def elim!: rbind_InrE split: if_splits)
  have "nat (base ?l) \<le> cm r i" using nodeRelD(3-5) [OF rel] by simp
  then have "comm (majority n) r (nat (base ?l)) (lg r i) (tm r i)"
    using comm_less rinvD(2) [OF inv i] unfolding slog_ok_def by blast
  then show ?thesis using a nodeRelD(1) [OF rel] repLogD(2,5) [OF rL] by (auto simp: snapRel_def)
qed

text \<open>Counting: the servers whose match index reaches \<open>k\<close> are a quorum.\<close>

lemma holders_majority:
  assumes "length mi = n" "int n div 2 + 1 \<le> int (holders mi k)"
  shows "majority n {p \<in> servers n. k \<le> mi ! nat p}"
proof -
  have "holders mi k = card {j. j < length mi \<and> k \<le> mi ! j}"
    unfolding holders_def by (rule length_filter_conv_card)
  also have "\<dots> = card (int ` {j. j < length mi \<and> k \<le> mi ! j})" by (simp add: card_image)
  also have "int ` {j. j < length mi \<and> k \<le> mi ! j} = {p \<in> servers n. k \<le> mi ! nat p}"
    using assms(1) by (auto simp: servers_def image_iff) (metis nat_less_iff zero_le_imp_eq_int nat_int)
  finally show ?thesis using assms(2) by (auto simp: majority_def servers_def)
qed

lemma committable_comm:
  assumes inv: "rinvs n r" and rL: "repLog (rf_log rf) (ll r T)" and T: "ruled r T" "rf_term rf = T"
    and mi: "length (rf_matchIndex rf) = n" "rf_peers rf = n"
      "\<And>p. p < n \<Longrightarrow> matched n r T (int p) (rf_matchIndex rf ! p)"
    and k: "committable rf k" "base (rf_log rf) \<le> k" "k \<le> tailIndex (rf_log rf)"
  shows "comm (majority n) r (nat k) (ll r T) T"
proof (cases "k = 0")
  case False
  let ?Q = "{p \<in> servers n. k \<le> rf_matchIndex rf ! nat p}"
  have k0: "0 < k" using False k(2) repLogD(2) [OF rL] by simp
  then have nk: "nat k = Suc (nat (k - 1))" "nat (k - 1) < length (ll r T)" using k(3) repLog_tail [OF rL] by auto
  obtain x where "lead_ok (servers n) (majority n) r T x" using T(1) rinvD(1) [OF inv] by (auto simp: ruled_def)
  then have pr: "proper r (ll r T)" by (simp add: lead_ok_def)
  have "eTerm (ll r T ! nat (k - 1)) = T"
    using k(1) T(2) repLog_term [OF rL k(2,3)] nk by (simp add: committable_def lastT_take_Suc)
  then have "n0 r T < nat k" using properD(2) [OF pr nk(2)] nk(1) by simp
  moreover have "majority n ?Q" using holders_majority [OF mi(1)] k(1) mi(2) by (simp add: committable_def)
  moreover have "\<exists>m \<ge> nat k. acked (majority n) r T v m" if "v \<in> ?Q" for v
    using that mi(3) [of "nat v"] by (auto simp: servers_def matched_def intro!: exI [of _ "nat (rf_matchIndex rf ! nat v)"])
  ultimately have "com (majority n) r (nat k) T" by (rule repl.leader_commits [OF inv T(1)])
  then show ?thesis by (rule repl.lead_comm)
qed (simp add: comm_def)

lemma handleAppendReply_acked:
  assumes inv: "rinvs n r" and rel: "nodeRel n r i rf" and wf: "wf_log (rf_log rf)" and ok: "node_ok n i rf"
    and p: "p \<in> servers n" and app: "appRel n r args prev q" "acked (majority n) r (aeTerm args) p q"
    and led: "led r (aeTerm args) = Some i" "rf_term rf = aeTerm args"
    and reply: "aerTerm reply \<le> rf_term rf" "aerSuccess reply" "aeEntries args \<noteq> []"
    and h: "handleAppendReply p args reply rf = Inr rf'"
  obtains k where "comm (majority n) r k (lg r i) (tm r i)" "nodeRel n (committed i k r) i rf'"
    "sameVote rf rf'" "rf_lastApplied rf' = rf_lastApplied rf"
proof -
  let ?T = "aeTerm args" and ?l = "rf_log rf"
  have T: "tm r i = ?T" "ruled r ?T" using led nodeRelD(1) [OF rel] by (auto simp: ruled_def)
  have log: "lg r i = ll r ?T" using rinvD(1) [OF inv led(1)] T(1) by (simp add: lead_ok_def)
  have rL: "repLog ?l (ll r ?T)" using nodeRelD(2) [OF rel] log by simp
  have q: "q \<le> length (ll r ?T)" "eIndex (last (aeEntries args)) = int q"
    using app(1) reply(3) unfolding appRel_def Let_def by blast+
  have bc: "base ?l \<le> rf_commitIndex rf" using nodeRelD(4,5) [OF rel] by simp
  have sz: "rf_peers rf = n" "length (rf_matchIndex rf) = n" "length (rf_nextIndex rf) = n"
    using node_okD [OF ok] by auto
  have pn: "0 \<le> p" "p < int n" using p by (auto simp: servers_def)
  obtain c where rf': "rf' = rf\<lparr>rf_matchIndex := (rf_matchIndex rf)[nat p := int q],
      rf_nextIndex := (rf_nextIndex rf)[nat p := int q + 1], rf_commitIndex := c\<rparr>"
    and c: "c = foldl (\<lambda>c i. if committable rf' i then i else c) (rf_commitIndex rf) [rf_commitIndex rf..int q]"
    using handleAppendReply_success [OF wf, of p args reply "int q"] sz pn led(2) reply q repLog_tail [OF rL] bc h
    by auto
  have mi: "matched n r ?T (int x) (rf_matchIndex rf' ! x)" if "x < n" for x
    using nodeRelD(7) [OF rel _ that] T led(1) that q(1) app(2) pn sz
    by (cases "x = nat p") (auto simp: rf' matched_def)
  have cm: "comm (majority n) r (cm r i) (ll r ?T) ?T"
    using rinvD(2) [OF inv repl.lead_server [OF inv led(1)]] log T(1) by (simp add: slog_ok_def)
  have "comm (majority n) r (nat c) (ll r ?T) ?T \<and> rf_commitIndex rf \<le> c"
  proof -
    from foldl_last [of "committable rf'" "rf_commitIndex rf" "rf_commitIndex rf" "int q", folded c]
    consider "c = rf_commitIndex rf" | "committable rf' c" "rf_commitIndex rf \<le> c" "c \<le> int q" by auto
    then show ?thesis
    proof cases
      case 2
      then show ?thesis
        using committable_comm [OF inv, of rf' ?T c] rL T(2) led(2) mi sz bc q(1) repLog_tail [OF rL]
        by (auto simp: rf')
    qed (use cm nodeRelD(3) [OF rel] in auto)
  qed
  moreover from this have "nodeRel n (committed i (nat c) r) i rf'"
    using nodeRelD [OF rel] mi T(1) by (auto simp: nodeRel_def rf')
  ultimately show thesis using that [of "nat c"] log T(1) by (auto simp: rf' sameVote_def)
qed

text \<open>The other replies: at most a later term, or a match index set back to 0.\<close>

lemma matched_0 [simp]: "matched n r T p 0"
  by (simp add: matched_def acked_def)

lemma handleAppendReply_other:
  assumes h: "handleAppendReply p args reply rf = Inr rf'"
    and other: "\<not> (rf_term rf = aeTerm args \<and> aerTerm reply \<le> rf_term rf \<and> aerSuccess reply \<and> aeEntries args \<noteq> [])"
  obtains (quiet) "sameLog rf rf'" "sameVote rf rf' \<or> laterTerm rf rf'"
    | (failed) m ni where "rf' = rf\<lparr>rf_matchIndex := (rf_matchIndex rf)[m := 0], rf_nextIndex := ni\<rparr>"
proof -
  consider (no) "rf_term rf \<noteq> aeTerm args \<or> aerTerm reply \<le> rf_term rf \<and> (aerSuccess reply \<or> aerTerm reply < rf_term rf)"
    | (later) "rf_term rf = aeTerm args" "rf_term rf < aerTerm reply"
    | (back_up) "rf_term rf = aeTerm args" "aerTerm reply = rf_term rf" "\<not> aerSuccess reply" by fastforce
  then show thesis
  proof cases
    case no
    then have "rf' = rf" using h other by (auto simp: handleAppendReply_def split: if_splits)
    then show thesis using quiet by (simp add: sameLog_def sameVote_def)
  next
    case later
    then have "rf' = resetTerm (aerTerm reply) (becomeFollower rf)" using h by (auto simp: handleAppendReply_def)
    then show thesis using quiet later by (simp add: sameLog_def laterTerm_def node_simps)
  next
    case back_up
    then obtain ni where "rf' = rf\<lparr>rf_matchIndex := (rf_matchIndex rf)[nat p := 0], rf_nextIndex := ni\<rparr>"
      using h by (auto simp: handleAppendReply_def put_Inr_iff elim!: rbind_InrE)
    then show thesis by (rule failed)
  qed
qed

lemma failed_nodeRel:
  assumes rel: "nodeRel n r i rf" and rf': "rf' = rf\<lparr>rf_matchIndex := (rf_matchIndex rf)[m := 0], rf_nextIndex := ni\<rparr>"
  shows "nodeRel n r i rf'"
proof -
  have "matched n r (tm r i) (int x) ((rf_matchIndex rf)[m := 0] ! x)" if "led r (tm r i) = Some i" "x < n" for x
    using nodeRelD(7) [OF rel that] by (cases "m < length (rf_matchIndex rf)"; cases "m = x") (auto simp: list_update_beyond)
  then show ?thesis using nodeRelD(1-6) [OF rel] unfolding nodeRel_def rf' by simp
qed

text \<open>A new command, and a new leader.\<close>

lemma repLog_append:
  assumes "repLog l L"
  shows "repLog (l @ [e]) (L @ [e])"
  using repLogD [OF assms] by (simp add: repLog_def)

lemma Start_append:
  assumes inv: "rinvs n r" and rel: "nodeRel n r i rf" and ok: "node_ok n i rf" and i: "i \<in> servers n"
    and lead: "rf_state rf = Leader" and h: "Start cmd rf = Inr (rf', x)"
  obtains e where "rstep (servers n) (majority n) r (appended i e r)" "nodeRel n (appended i e r) i rf'"
    "sameVote rf rf'" "rf_lastApplied rf' = rf_lastApplied rf"
proof -
  let ?T = "tm r i"
  define e where "e = \<lparr>eTerm = rf_term rf, eIndex = eIndex (last (rf_log rf)) + 1, eCommand = Some cmd\<rparr>"
  have led: "led r ?T = Some i" using nodeRelD(6) [OF rel lead] .
  have log: "lg r i = ll r ?T" using rinvD(1) [OF inv led] by (simp add: lead_ok_def)
  have st: "rstep (servers n) (majority n) r (appended i e r)"
    using led nodeRelD(1) [OF rel] by (intro rstep.lead) (auto simp: e_def)
  have g: "grows r (appended i e r)" using repl.rstep_ok [OF st inv] by simp
  have me: "rf_me rf = i" "length (rf_matchIndex rf) = n" using node_okD [OF ok] by auto
  have nx: "nat i < n" "0 \<le> i" using i by (auto simp: servers_def)
  obtain m where m: "m = rf_matchIndex rf ! nat i" and
    rf': "rf_log rf' = rf_log rf @ [e]" "rf_matchIndex rf' = (rf_matchIndex rf)[nat i := m + 1]"
      "rf_commitIndex rf' = rf_commitIndex rf" "rf_lastApplied rf' = rf_lastApplied rf"
    using h lead repLogD(1) [OF nodeRelD(2) [OF rel]] me
    by (auto simp: Start_def Let_def persist_def e_def at_Inr_iff put_Inr_iff elim!: rbind_InrE)
  have v: "sameVote rf rf'" using Start_vote [OF h] .
  have "matched n (appended i e r) ?T (int p) (rf_matchIndex rf' ! p)" if "p < n" for p
  proof (cases "p = nat i")
    case True
    have "0 \<le> m \<and> nat m \<le> length (ll r ?T)" using nodeRelD(7) [OF rel led nx(1)] by (simp add: matched_def m)
    then show ?thesis
      using True rf'(2) me(2) that nx(2) by (auto simp: matched_def acked_def nat_add_distrib)
  next
    case False
    then show ?thesis
      using matched_grows [OF nodeRelD(7) [OF rel led that] g] led rf'(2) by (simp add: ruled_def)
  qed
  moreover have "base (rf_log rf @ [e]) = base (rf_log rf)"
    using repLogD(1) [OF nodeRelD(2) [OF rel]] by simp
  ultimately have "nodeRel n (appended i e r) i rf'"
    using nodeRelD [OF rel] rf' v led log repLog_append [OF nodeRelD(2) [OF rel], of e]
    by (auto simp: nodeRel_def sameVote_def)
  then show thesis using that st v rf'(4) by blast
qed

lemma win_nodeRel:
  assumes rel: "nodeRel n r c rf" and ok: "node_ok n c rf" and wf: "wf_log (rf_log rf)"
    and h: "handleVoteReply args reply rf w = Inr (rf', w')" and c: "rf_state rf = Candidate" "rf_state rf' = Leader"
  shows "nodeRel n (elected c r) c rf'" "rf_lastApplied rf' = rf_lastApplied rf"
    "rf_term rf' = rf_term rf" "rf_votedFor rf' = rf_votedFor rf"
proof -
  have me: "rf_me rf = c" "rf_peers rf = n" using node_okD [OF ok] by auto
  have ne: "rf_log rf \<noteq> []" using wf by auto
  have tl: "eIndex (last (rf_log rf)) = int (length (lg r c))"
    using wf_log_last [OF wf] repLog_tail [OF nodeRelD(2) [OF rel]] by simp
  have rf': "rf_log rf' = rf_log rf" "rf_commitIndex rf' = rf_commitIndex rf" "rf_lastApplied rf' = rf_lastApplied rf"
    "rf_term rf' = rf_term rf" "rf_votedFor rf' = rf_votedFor rf"
    "rf_matchIndex rf' = (replicate n 0)[nat c := int (length (lg r c))]"
    using h c ne me tl
    by (auto simp: handleVoteReply_def winElection_def Let_def node_simps put_Inr_iff elim!: rbind_InrE split: if_splits)
  then show "rf_lastApplied rf' = rf_lastApplied rf" "rf_term rf' = rf_term rf" "rf_votedFor rf' = rf_votedFor rf"
    by auto
  have "matched n (elected c r) (tm r c) (int p) (rf_matchIndex rf' ! p)" if "p < n" for p
    using that by (cases "p = nat c") (auto simp: rf'(6) matched_def acked_def)
  then show "nodeRel n (elected c r) c rf'"
    using nodeRelD [OF rel] rf' by (auto simp: nodeRel_def)
qed

section \<open>Applying, snapshots, restart\<close>

lemma DoApply_applyRel:
  assumes inv: "rinvs n r" and rel: "nodeRel n r i rf" and wf: "wf_log (rf_log rf)" and i: "i \<in> servers n"
    and h: "DoApply rf = Inr (rf', Some m)"
  shows "nodeRel n r i rf'" "applyRel n r (tm r i) m" "amCommandIndex m = rf_lastApplied rf + 1"
    "rf_lastApplied rf' = rf_lastApplied rf + 1" "sameVote rf rf'"
proof -
  let ?l = "rf_log rf" and ?k = "rf_lastApplied rf + 1"
  note rL = nodeRelD(2) [OF rel]
  have need: "rf_lastApplied rf < rf_commitIndex rf"
    using h by (auto simp: DoApply_def needApplyL_def split: if_splits)
  have cm: "comm (majority n) r (cm r i) (lg r i) (tm r i)" using rinvD(2) [OF inv i] by (simp add: slog_ok_def)
  have tail: "rf_commitIndex rf \<le> tailIndex ?l"
    using repl.comm_len [OF inv cm] nodeRelD(3) [OF rel] repLog_tail [OF rL] by simp
  have h': "rf' = rf\<lparr>rf_lastApplied := ?k\<rparr>" "m = commandMsg (?l ! nat (?k - base ?l))"
    using DoApply_next [OF wf nodeRelD(4) [OF rel] need tail] h by auto
  have k: "base ?l < ?k" "?k \<le> tailIndex ?l" "0 < ?k" using nodeRelD(4) [OF rel] need tail repLogD(2) [OF rL] by auto
  have e: "?l ! nat (?k - base ?l) = lg r i ! nat (?k - 1)" using repLog_nth [OF rL k(1,2)] .
  have "nat (?k - base ?l) < length ?l" using k by (auto simp: tailIndex_def)
  then have ix: "eIndex (?l ! nat (?k - base ?l)) = ?k" using wf_log_nth [OF wf] k(1) by simp
  have "nat ?k \<le> cm r i" using need nodeRelD(3) [OF rel] k(3) by simp
  then have "comm (majority n) r (nat ?k) (lg r i) (tm r i)" using comm_less [OF cm] by blast
  then show "applyRel n r (tm r i) m"
    using k(3) ix e unfolding applyRel_def h'(2) commandMsg_def by (auto intro!: exI [of _ "lg r i"])
  show "amCommandIndex m = ?k" using ix by (simp add: h'(2) commandMsg_def)
  show "nodeRel n r i rf'" using nodeRelD [OF rel] need by (auto simp: nodeRel_def h'(1))
  show "rf_lastApplied rf' = ?k" "sameVote rf rf'" by (simp_all add: h'(1) sameVote_def)
qed

text \<open>A snapshot taken by the service changes only what is kept in memory.\<close>

lemma Snapshot_nodeRel:
  assumes rel: "nodeRel n r i rf" and wf: "wf_log (rf_log rf)" and k: "k \<le> rf_lastApplied rf"
    and h: "Snapshot k snap rf = Inr rf'"
  shows "nodeRel n r i rf'" "rf_lastApplied rf' = rf_lastApplied rf" "sameVote rf rf'"
proof -
  let ?l = "rf_log rf"
  note rL = nodeRelD(2) [OF rel]
  have "nodeRel n r i rf' \<and> rf_lastApplied rf' = rf_lastApplied rf"
  proof (cases "base ?l \<le> k \<and> k \<le> tailIndex ?l")
    case True
    define l where "l = (?l ! nat (k - base ?l))\<lparr>eCommand := None\<rparr> # drop (nat (k - base ?l) + 1) ?l"
    have rf': "rf_log rf' = l" "rf_term rf' = rf_term rf" "rf_commitIndex rf' = rf_commitIndex rf"
      "rf_lastApplied rf' = rf_lastApplied rf" "rf_state rf' = rf_state rf" "rf_matchIndex rf' = rf_matchIndex rf"
      using Snapshot_inside [OF wf, of k snap] True h by (auto simp: Let_def l_def)
    have k0: "0 \<le> k" "nat k \<le> length (lg r i)" using True repLogD(2) [OF rL] repLog_tail [OF rL] by auto
    have "nat (k - base ?l) < length ?l" using True by (auto simp: tailIndex_def)
    then have b: "base l = k" using wf_log_nth [OF wf] True by (simp add: l_def base_def)
    have "nat (k - base ?l) + 1 = nat (k + 1 - base ?l)" using True by (simp add: Suc_nat_eq_nat_zadd1)
    then have "drop (nat (k - base ?l) + 1) ?l = drop (nat k) (lg r i)"
      using repLog_drop [OF rL, of "k + 1"] True by simp
    then have "repLog l (lg r i)"
      using b k0 repLog_term [OF rL, of k] True by (simp add: repLog_def l_def)
    then show ?thesis using nodeRelD [OF rel] rf' b k by (auto simp: nodeRel_def)
  next
    case False
    then have "rf' = rf" using h find_index_none [OF wf, of k] by (auto simp: Snapshot_def not_le)
    then show ?thesis using rel by simp
  qed
  then show "nodeRel n r i rf'" "rf_lastApplied rf' = rf_lastApplied rf" by auto
  show "sameVote rf rf'" using Snapshot_vote [OF h] .
qed

text \<open>A leader's snapshot replaces a prefix of the log.\<close>

lemma installed_step: "v \<in> S \<Longrightarrow> comm quorum r s P (tm r v) \<Longrightarrow> rstep S quorum r (installed v s P r)"
  by (rule rstep.install)

lemma matched_installed [simp]: "matched n (installed v s P r) = matched n r"
  by (simp add: matched_def acked_def com_def ruled_def fun_eq_iff)

lemma CondInstallSnapshot_installed:
  assumes inv: "rinvs n r" and rel: "nodeRel n r i rf" and wf: "wf_log (rf_log rf)" and i: "i \<in> servers n"
    and s: "0 \<le> k" "comm (majority n) r (nat k) P (tm r i)" "t = lastT (take (nat k) P)"
    and k: "rf_commitIndex rf \<le> k" and h: "CondInstallSnapshot t k snap rf = Inr (rf', b)"
  shows "(rstep (servers n) (majority n))\<^sup>*\<^sup>* r (committed i (nat k) (installed i (nat k) P r))"
    "nodeRel n (committed i (nat k) (installed i (nat k) P r)) i rf'" "rf_lastApplied rf \<le> rf_lastApplied rf'"
proof -
  let ?l = "rf_log rf" and ?L = "take (nat k) P @ drop (nat k) (lg r i)" and ?r1 = "installed i (nat k) P r"
  note rL = nodeRelD(2) [OF rel] and len = repl.comm_len [OF inv s(2)]
  have s1: "rstep (servers n) (majority n) r ?r1" by (rule installed_step [OF i s(2)])
  have "comm (majority n) ?r1 (nat k) ?L (tm r i)"
    using comm_same [OF repl.comm_grows [OF inv s(2)], of ?r1 ?L] repl.rstep_ok [OF s1 inv] len by simp
  then have "rstep (servers n) (majority n) ?r1 (committed i (nat k) ?r1)" by (intro committed_step) simp
  with s1 show "(rstep (servers n) (majority n))\<^sup>*\<^sup>* r (committed i (nat k) ?r1)"
    by (meson converse_rtranclp_into_rtranclp r_into_rtranclp)
  have bc: "base ?l \<le> rf_commitIndex rf" using nodeRelD(4,5) [OF rel] by simp
  define l where "l = \<lparr>eTerm = t, eIndex = k, eCommand = None\<rparr> # drop (nat (k - base ?l) + 1) ?l"
  have rf': "rf_log rf' = l" "rf_term rf' = rf_term rf" "rf_commitIndex rf' = k"
    "rf_lastApplied rf' = k" "rf_state rf' = rf_state rf" "rf_matchIndex rf' = rf_matchIndex rf"
    using CondInstallSnapshot_installs [OF wf bc k, of t snap] h by (auto simp: Let_def l_def)
  have "nat (k - base ?l) + 1 = nat (k + 1 - base ?l)" using bc k by simp
  then have d: "drop (nat (k - base ?l) + 1) ?l = drop (nat k) (lg r i)"
    using repLog_drop [OF rL, of "k + 1"] bc k by simp
  have b: "base l = k" by (simp add: l_def base_def)
  have "repLog l ?L" using b s len d by (simp add: repLog_def l_def)
  then show "nodeRel n (committed i (nat k) ?r1) i rf'"
    using nodeRelD [OF rel] rf' b s(1) by (auto simp: nodeRel_def)
  show "rf_lastApplied rf \<le> rf_lastApplied rf'" using rf'(4) nodeRelD(5) [OF rel] k by simp
qed

text \<open>A restart: everything up to the snapshot counts as committed again.\<close>

lemma Make_matchIndex: "Make n i ps r = Inr rf \<Longrightarrow> rf_matchIndex rf = replicate n 0"
  by (auto simp: Make_def readPersist_def Let_def elim!: rbind_InrE split: if_splits option.splits prod.splits sum.splits)

lemma restart_nodeRel:
  assumes inv: "rinvs n r" and rel: "nodeRel n r i rf" and ok: "node_ok n i rf" and i: "i \<in> servers n"
    and h: "Make n i (Copy (rf_persister rf)) x = Inr rf'"
  shows "rstep (servers n) (majority n) r (committed i (nat (base (rf_log rf))) r)"
    "nodeRel n (committed i (nat (base (rf_log rf))) r) i rf'"
    "rf_votedFor rf' = rf_votedFor rf" "rf_term rf' = rf_term rf"
proof -
  have rf': "rf_log rf' = rf_log rf" "rf_term rf' = rf_term rf" "rf_state rf' = Follower"
    "rf_commitIndex rf' = base (rf_log rf)" "rf_lastApplied rf' = base (rf_log rf)" "rf_votedFor rf' = rf_votedFor rf"
    using Make_restart [OF ok, of x] h by auto
  then show "rf_votedFor rf' = rf_votedFor rf" "rf_term rf' = rf_term rf" by auto
  have "nat (base (rf_log rf)) \<le> cm r i" using nodeRelD(3-5) [OF rel] by simp
  then have "comm (majority n) r (nat (base (rf_log rf))) (lg r i) (tm r i)"
    using comm_less rinvD(2) [OF inv i] unfolding slog_ok_def by blast
  then show "rstep (servers n) (majority n) r (committed i (nat (base (rf_log rf))) r)" by (rule committed_step)
  show "nodeRel n (committed i (nat (base (rf_log rf))) r) i rf'"
    using nodeRelD(1,2) [OF rel] rf' repLogD(2) [OF nodeRelD(2) [OF rel]] Make_matchIndex [OF h]
    by (auto simp: nodeRel_def)
qed

end
