(* ===== verification/Raft_Run_Commit.thy ===== *)
theory Raft_Run_Commit
  imports Raft_Run
begin

text \<open>
  The run of \<open>Raft_Run\<close>, continued: the leader sends its entry to server 1, commits it when the
  answer arrives, applies it, and tells server 1, which applies it too.
\<close>

definition runEntry :: "'c \<Rightarrow> 'c LogEntry" where
  "runEntry c = \<lparr>eTerm = 1, eIndex = 1, eCommand = Some c\<rparr>"

definition candidate1 :: "('c, 's) Raft" where
  "candidate1 = \<lparr>rf_peers = 3, rf_persister = MakePersister\<lparr>ps_raftstate := [GInt 1, GInt 0, GLog [sentinel]]\<rparr>,
     rf_me = 0, rf_dead = False, rf_state = Candidate, rf_term = 1, rf_votedFor = 0, rf_log = [sentinel],
     rf_lastHeartbeat = 0, rf_electionTimeout = 500000000, rf_commitIndex = 0, rf_lastApplied = 0,
     rf_nextIndex = [1, 1, 1], rf_matchIndex = [0, 0, 0]\<rparr>"

definition leader4 :: "'c \<Rightarrow> ('c, 's) Raft" where
  "leader4 c = candidate1\<lparr>rf_persister := MakePersister\<lparr>ps_raftstate := [GInt 1, GInt 0, GLog [sentinel, runEntry c]]\<rparr>,
     rf_state := Leader, rf_log := [sentinel, runEntry c], rf_matchIndex := [1, 0, 0]\<rparr>"

definition voter4 :: "('c, 's) Raft" where
  "voter4 = \<lparr>rf_peers = 3, rf_persister = MakePersister\<lparr>ps_raftstate := [GInt 1, GInt 0, GLog [sentinel]]\<rparr>,
     rf_me = 1, rf_dead = False, rf_state = Follower, rf_term = 1, rf_votedFor = 0, rf_log = [sentinel],
     rf_lastHeartbeat = 600000000, rf_electionTimeout = 500000000, rf_commitIndex = 0, rf_lastApplied = 0,
     rf_nextIndex = [1, 1, 1], rf_matchIndex = [0, 0, 0]\<rparr>"

lemma rep3: "replicate 3 x = [x, x, x]"
  by (simp add: numeral_3_eq_3)

lemma run1_node: "cl_node run1 0 = candidate1"
  by (simp add: candidate1_def leader4_def run1_def run0_def run_nodes rep3)

lemma run1_voter: "cl_node run1 1 = cl_node run0 1"
  by (simp add: run1_def)

lemma run2_nodes: "cl_node run2 0 = candidate1" "cl_node run2 1 = voter4"
  by (simp add: run2_def run1_node)
    (simp add: run1_voter voter4_def run2_def run0_def run_nodes rep3)

lemma run2_vote: "cl_vote run2 0 1 = 1"
  by (simp add: run2_def run1_def setNode_def setNet_def runVote_def)

lemma run3_node: "cl_node run3 0 = candidate1\<lparr>rf_state := Leader\<rparr>"
  by (simp add: run3_def run2_vote run2_nodes candidate1_def run_nodes rep3)

lemma run4_nodes: "cl_node (run4 c) 0 = leader4 c" "cl_node (run4 c) 1 = voter4"
proof -
  show "cl_node (run4 c) 0 = leader4 c"
    by (simp add: run4_def run3_node candidate1_def leader4_def run_nodes runEntry_def)
  have "cl_node (run4 c) 1 = cl_node run2 1" by (simp add: run4_def run3_def)
  then show "cl_node (run4 c) 1 = voter4" by (simp add: run2_nodes)
qed

text \<open>The entry on its way to server 1 and the answer.\<close>

definition runAppend :: "'c \<Rightarrow> 'c AppendEntriesArgs" where
  "runAppend c = \<lparr>aeTerm = 1, aeLeaderId = 0, aePrevLogIndex = 0, aePrevLogTerm = 0, aeEntries = [runEntry c],
     aeLeaderCommit = 0\<rparr>"

definition runBeat :: "'c AppendEntriesArgs" where
  "runBeat = \<lparr>aeTerm = 1, aeLeaderId = 0, aePrevLogIndex = 1, aePrevLogTerm = 1, aeEntries = [], aeLeaderCommit = 1\<rparr>"

definition runOk :: AppendEntriesReply where
  "runOk = \<lparr>aerTerm = 1, aerSuccess = True, aerConflictingTerm = 0, aerConflictingIndex = 0\<rparr>"

definition runMsg :: "'c \<Rightarrow> ('c, 's) ApplyMsg" where
  "runMsg c = \<lparr>amCommandValid = True, amCommand = Some c, amCommandIndex = 1, amSnapshotValid = False,
     amSnapshot = [], amSnapshotTerm = 0, amSnapshotIndex = 0\<rparr>"

definition voter6 :: "'c \<Rightarrow> ('c, 's) Raft" where
  "voter6 c = voter4\<lparr>rf_lastHeartbeat := 600000000, rf_log := [sentinel, runEntry c],
     rf_persister := MakePersister\<lparr>ps_raftstate := [GInt 1, GInt 0, GLog [sentinel, runEntry c]]\<rparr>\<rparr>"

definition leader7 :: "'c \<Rightarrow> ('c, 's) Raft" where
  "leader7 c = (leader4 c)\<lparr>rf_matchIndex := [1, 1, 0], rf_nextIndex := [1, 2, 1], rf_commitIndex := 1\<rparr>"

lemmas run_log_defs = GetLogAtIndex_def LogIndexToSubscript_def LogTail_def at_def put_def slice_to_def sentinel_def
  runEntry_def runAppend_def runBeat_def runOk_def Let_def

lemma run_replicate: "Replicate 1 (leader4 c) = Inr (Some (CallAppendEntries (runAppend c)))"
  by (simp add: Replicate_def leader4_def candidate1_def run_log_defs upto.simps deref_def)

lemma run_append: "AppendEntries 600000000 (runAppend c) voter4 = Inr ((voter6 c), runOk)"
  by (simp add: AppendEntries_def voter6_def voter4_def followSender_def logMismatch_def mergeEntries_def
      run_log_defs node_simps)

lemma run_reply: "handleAppendReply 1 (runAppend c) runOk (leader4 c) = Inr (leader7 c)"
  by (simp add: handleAppendReply_def leader7_def leader4_def candidate1_def run_log_defs upto.simps countMatch_def IsMajority_def
      Majority_def deref_def)

lemma run_beat: "Replicate 1 ((leader7 c)\<lparr>rf_lastApplied := 1\<rparr>) = Inr (Some (CallAppendEntries runBeat))"
  by (simp add: Replicate_def leader7_def leader4_def candidate1_def run_log_defs upto.simps deref_def)

lemma run_apply: "DoApply (leader7 c) = Inr ((leader7 c)\<lparr>rf_lastApplied := 1\<rparr>, Some (runMsg c))"
  by (simp add: DoApply_def needApplyL_def leader7_def leader4_def candidate1_def run_log_defs runMsg_def)

lemma run_follow: "AppendEntries 700000000 runBeat (voter6 c) =
    Inr ((voter6 c)\<lparr>rf_lastHeartbeat := 700000000, rf_commitIndex := 1\<rparr>, runOk)"
  by (simp add: AppendEntries_def voter6_def voter4_def followSender_def logMismatch_def run_log_defs MinInt_def)

lemma run_apply1: "DoApply ((voter6 c)\<lparr>rf_lastHeartbeat := 700000000, rf_commitIndex := 1\<rparr>) =
    Inr ((voter6 c)\<lparr>rf_lastHeartbeat := 700000000, rf_commitIndex := 1, rf_lastApplied := 1\<rparr>, Some (runMsg c))"
  by (simp add: DoApply_def needApplyL_def voter6_def voter4_def run_log_defs runMsg_def)

text \<open>The states.\<close>

definition run5 :: "'c \<Rightarrow> ('c, 's) cluster" where
  "run5 c = setNet (cl_net (run4 c) + {#AppReq 0 1 (runAppend c)#}) (run4 c)"

definition run6 :: "'c \<Rightarrow> ('c, 's) cluster" where
  "run6 c = setNode 1 (voter6 c) (setNet (cl_net (run5 c) - {#AppReq 0 1 (runAppend c)#} + {#AppRep 0 1 (runAppend c) runOk#}) (run5 c))"

definition run7 :: "'c \<Rightarrow> ('c, 's) cluster" where
  "run7 c = setNode 0 (leader7 c) (setNet (cl_net (run6 c) - {#AppRep 0 1 (runAppend c) runOk#}) (run6 c))"

definition run8 :: "'c \<Rightarrow> ('c, 's) cluster" where
  "run8 c = setNode 0 ((leader7 c)\<lparr>rf_lastApplied := 1\<rparr>)
     ((run7 c)\<lparr>cl_applied := (cl_applied (run7 c))(0 := cl_applied (run7 c) 0 @ [(runMsg c)])\<rparr>)"

definition run9 :: "'c \<Rightarrow> ('c, 's) cluster" where
  "run9 c = setNet (cl_net (run8 c) + {#AppReq 0 1 runBeat#}) (run8 c)"

definition run10 :: "'c \<Rightarrow> ('c, 's) cluster" where
  "run10 c = setNode 1 ((voter6 c)\<lparr>rf_lastHeartbeat := 700000000, rf_commitIndex := 1\<rparr>)
     (setNet (cl_net (run9 c) - {#AppReq 0 1 runBeat#} + {#AppRep 0 1 runBeat runOk#}) (run9 c))"

definition run11 :: "'c \<Rightarrow> ('c, 's) cluster" where
  "run11 c = setNode 1 ((voter6 c)\<lparr>rf_lastHeartbeat := 700000000, rf_commitIndex := 1, rf_lastApplied := 1\<rparr>)
     ((run10 c)\<lparr>cl_applied := (cl_applied (run10 c))(1 := cl_applied (run10 c) 1 @ [(runMsg c)])\<rparr>)"

lemma run_more_nodes:
  "cl_node (run5 c) 1 = voter4" "cl_node (run6 c) 0 = leader4 c" "cl_node (run7 c) 0 = leader7 c"
  "cl_node (run8 c) 0 = (leader7 c)\<lparr>rf_lastApplied := 1\<rparr>" "cl_node (run9 c) 1 = voter6 c"
  "cl_node (run10 c) 1 = (voter6 c)\<lparr>rf_lastHeartbeat := 700000000, rf_commitIndex := 1\<rparr>"
  "cl_node (run11 c) 0 = (leader7 c)\<lparr>rf_lastApplied := 1\<rparr>"
  by (simp_all add: run5_def run6_def run7_def run8_def run9_def run10_def run11_def run4_nodes)

lemma csteps_run8: "cstep 3 (run4 c) (run5 c)" "cstep 3 (run5 c) (run6 c)" "cstep 3 (run6 c) (run7 c)"
  "cstep 3 (run7 c) (run8 c)"
proof -
  show "cstep 3 (run4 c) (run5 c)" unfolding run5_def
    by (rule cstep.sendAppend) (simp_all add: servers3 run4_nodes run_replicate)
  show "cstep 3 (run5 c) (run6 c)" unfolding run6_def
    by (rule cstep.recvAppend [where now = 600000000]) (simp_all add: run_more_nodes run_append, simp add: run5_def)
  show "cstep 3 (run6 c) (run7 c)" unfolding run7_def
    by (rule cstep.appendReply) (simp_all add: run_more_nodes run_reply, simp add: run6_def)
  show "cstep 3 (run7 c) (run8 c)" unfolding run8_def
    by (rule cstep.applyEntry) (simp_all add: servers3 run_more_nodes run_apply)
qed

lemma reachable_run6: "reachable 3 (run6 c)"
  using csteps_run8(1,2) reachable_run4 by (meson reachable.step)

lemma reachable_run8: "reachable 3 (run8 c)"
  using csteps_run8(3,4) reachable_run6 by (meson reachable.step)

lemma csteps_run11: "(cstep 3)\<^sup>*\<^sup>* (run8 c) (run11 c)"
proof -
  have "cstep 3 (run8 c) (run9 c)" unfolding run9_def
    by (rule cstep.sendAppend) (simp_all add: servers3 run_more_nodes run_beat)
  moreover have "cstep 3 (run9 c) (run10 c)" unfolding run10_def
    by (rule cstep.recvAppend [where now = 700000000]) (simp_all add: run_more_nodes run_follow, simp add: run9_def)
  moreover have "cstep 3 (run10 c) (run11 c)" unfolding run11_def
    by (rule cstep.applyEntry) (simp_all add: servers3 run_more_nodes run_apply1)
  ultimately show ?thesis by (meson converse_rtranclp_into_rtranclp rtranclp.rtrancl_refl)
qed

lemma cl_applied_set [simp]: "cl_applied (setNode i rf cl) = cl_applied cl" "cl_applied (setNet net cl) = cl_applied cl"
  by (simp_all add: setNode_def setNet_def)

lemma run3_applied: "cl_applied run3 = (\<lambda>_. [])"
  by (simp add: run3_def run2_def run1_def) (simp add: run0_def)

lemma run7_applied: "cl_applied (run7 c) = (\<lambda>_. [])"
  by (simp add: run7_def run6_def run5_def run4_def run3_applied)

lemma run_applied: "cl_applied (run8 c) 0 = [runMsg c]" "cl_applied (run11 c) 1 = [runMsg c]"
  by (simp_all add: run11_def run10_def run9_def run8_def run7_applied)

text \<open>The runs with a string as the command.\<close>

abbreviation demo6 :: "(string, nat) cluster" where
  "demo6 \<equiv> run6 ''x''"

abbreviation demo8 :: "(string, nat) cluster" where
  "demo8 \<equiv> run8 ''x''"

abbreviation demo11 :: "(string, nat) cluster" where
  "demo11 \<equiv> run11 ''x''"

lemma demo_commits: "reachable 3 demo6" "reachable 3 demo8" "(cstep 3)\<^sup>*\<^sup>* demo8 demo11"
  by (rule reachable_run6 reachable_run8 csteps_run11)+

end
