(* ===== verification/Raft_Safety.thy ===== *)
theory Raft_Safety
  imports Raft_Agreement Raft_Run_Commit
begin

text \<open>
  A cluster of servers runs the protocol of \<open>Agreement\<close>: every step of the cluster is a sequence of
  steps of the protocol. So what the servers apply is what was committed, and they never
  disagree about it.
\<close>

section \<open>The relation\<close>

definition winners :: "'c rep \<Rightarrow> (int \<times> int) set" where
  "winners r = {(T, l). led r T = Some l}"

definition crel :: "nat \<Rightarrow> 'c rep \<Rightarrow> ('c, 's) cluster \<Rightarrow> bool" where
  "crel n r cl \<longleftrightarrow> rinvs n r \<and> cinv n (cast r) (winners r) cl \<and> votesOf n cl \<subseteq> cast r \<and>
     (\<forall>i \<in> servers n. nodeRel n r i (cl_node cl i)) \<and> (\<forall>m \<in># cl_net cl. msgRel n r m) \<and>
     (\<forall>i \<in> servers n. \<forall>m \<in># cl_pend cl i. snapRel n r (tm r i) (amSnapshotIndex m) (amSnapshotTerm m)) \<and>
     (\<forall>i \<in> servers n. \<forall>m \<in> set (cl_applied cl i). applyRel n r (tm r i) m \<and>
        amCommandIndex m \<le> rf_lastApplied (cl_node cl i))"

lemma crelD:
  assumes "crel n r cl"
  shows "rinvs n r" "cinv n (cast r) (winners r) cl" "votesOf n cl \<subseteq> cast r"
    "i \<in> servers n \<Longrightarrow> nodeRel n r i (cl_node cl i)" "m \<in># cl_net cl \<Longrightarrow> msgRel n r m"
    "i \<in> servers n \<Longrightarrow> x \<in># cl_pend cl i \<Longrightarrow> snapRel n r (tm r i) (amSnapshotIndex x) (amSnapshotTerm x)"
    "i \<in> servers n \<Longrightarrow> x \<in> set (cl_applied cl i) \<Longrightarrow> applyRel n r (tm r i) x"
    "i \<in> servers n \<Longrightarrow> x \<in> set (cl_applied cl i) \<Longrightarrow> amCommandIndex x \<le> rf_lastApplied (cl_node cl i)"
  using assms by (auto simp: crel_def)

abbreviation rsteps :: "nat \<Rightarrow> 'c rep \<Rightarrow> 'c rep \<Rightarrow> bool" where
  "rsteps n \<equiv> (rstep (servers n) (majority n))\<^sup>*\<^sup>*"

text \<open>Only server \<open>i\<close> and its history changed.\<close>

definition onlyAt :: "int \<Rightarrow> 'c rep \<Rightarrow> 'c rep \<Rightarrow> bool" where
  "onlyAt i r r' \<longleftrightarrow> (\<forall>j. j \<noteq> i \<longrightarrow> tm r' j = tm r j \<and> lg r' j = lg r j \<and> cm r' j = cm r j) \<and>
     (\<forall>T j. j \<noteq> i \<longrightarrow> led r' T = Some j \<longrightarrow> led r T = Some j)"

lemma votes_frame:
  assumes rel: "crel n r cl" and g: "grows r r'"
    and nodes: "\<And>j. j \<noteq> i \<Longrightarrow> cl_node cl' j = cl_node cl j"
    and vote: "rf_votedFor (cl_node cl' i) \<in> servers n \<Longrightarrow>
      (rf_term (cl_node cl' i), i, rf_votedFor (cl_node cl' i)) \<in> cast r'"
  shows "votesOf n cl' \<subseteq> cast r'"
proof
  fix x assume "x \<in> votesOf n cl'"
  then obtain j where j: "j \<in> servers n" "rf_votedFor (cl_node cl' j) \<in> servers n"
    "x = (rf_term (cl_node cl' j), j, rf_votedFor (cl_node cl' j))" by (auto simp: votesOf_def)
  show "x \<in> cast r'"
  proof (cases "j = i")
    case False
    then have "x \<in> votesOf n cl" using j nodes [OF False] by (auto simp: votesOf_def)
    then show ?thesis using crelD(3) [OF rel] growsD(7) [OF g] by blast
  qed (use j vote in simp)
qed

lemma crel_frame:
  assumes rel: "crel n r cl" and st: "rsteps n r r'" and i: "i \<in> servers n" and only: "onlyAt i r r'"
    and ci: "cinv n (cast r') (winners r') cl'"
    and nodes: "\<And>j. j \<noteq> i \<Longrightarrow> cl_node cl' j = cl_node cl j" and node: "nodeRel n r' i (cl_node cl' i)"
    and vote: "rf_votedFor (cl_node cl' i) \<in> servers n \<Longrightarrow>
      (rf_term (cl_node cl' i), i, rf_votedFor (cl_node cl' i)) \<in> cast r'"
    and net: "\<And>m. m \<in># cl_net cl' \<Longrightarrow> m \<in># cl_net cl \<or> msgRel n r' m"
    and pend: "\<And>j m. m \<in># cl_pend cl' j \<Longrightarrow> m \<in># cl_pend cl j \<or>
      j = i \<and> snapRel n r' (tm r' i) (amSnapshotIndex m) (amSnapshotTerm m)"
    and app: "\<And>j m. m \<in> set (cl_applied cl' j) \<Longrightarrow>
      m \<in> set (cl_applied cl j) \<and> (j = i \<longrightarrow> amCommandIndex m \<le> rf_lastApplied (cl_node cl' i)) \<or>
      j = i \<and> applyRel n r' (tm r' i) m \<and> amCommandIndex m \<le> rf_lastApplied (cl_node cl' i)"
  shows "crel n r' cl'"
proof -
  note inv = crelD(1) [OF rel]
  have g: "grows r r'" "rinvs n r'" using repl.rsteps_ok [OF st inv] by auto
  have tm: "tm r j \<le> tm r' j" for j using growsD(1) [OF g(1)] .
  have "nodeRel n r' j (cl_node cl' j)" if j: "j \<in> servers n" for j
  proof (cases "j = i")
    case False
    then show ?thesis
      using nodes only by (simp add: onlyAt_def) (rule nodeRel_grows [OF crelD(4) [OF rel j] g(1)], auto)
  qed (use node in simp)
  moreover have "votesOf n cl' \<subseteq> cast r'" by (rule votes_frame [OF rel g(1) nodes vote])
  moreover have "msgRel n r' m" if "m \<in># cl_net cl'" for m
    using net [OF that] msgRel_grows [OF crelD(5) [OF rel] g(1) inv] by blast
  moreover have "snapRel n r' (tm r' j) (amSnapshotIndex m) (amSnapshotTerm m)"
    if "j \<in> servers n" "m \<in># cl_pend cl' j" for j m
    using pend [OF that(2)] snapRel_grows [OF crelD(6) [OF rel that(1)] g(1) inv tm] by blast
  moreover have "applyRel n r' (tm r' j) m \<and> amCommandIndex m \<le> rf_lastApplied (cl_node cl' j)"
    if j: "j \<in> servers n" "m \<in> set (cl_applied cl' j)" for j m
    using app [OF j(2)] applyRel_grows [OF crelD(7) [OF rel j(1)] g(1) inv tm] crelD(8) [OF rel j(1), of m] nodes [of j]
    by (cases "j = i") auto
  ultimately show ?thesis using g(2) ci by (simp add: crel_def)
qed

text \<open>A step that elects nobody.\<close>

lemma crel_step:
  assumes rel: "crel n r cl" and step: "cstep n cl cl'" and st: "rsteps n r r'" and i: "i \<in> servers n"
    and only: "onlyAt i r r'" "led r' = led r"
    and nodes: "\<And>j. j \<noteq> i \<Longrightarrow> cl_node cl' j = cl_node cl j" and node: "nodeRel n r' i (cl_node cl' i)"
    and vote: "rf_votedFor (cl_node cl' i) \<in> servers n \<Longrightarrow>
      (rf_term (cl_node cl' i), i, rf_votedFor (cl_node cl' i)) \<in> cast r'"
    and net: "\<And>m. m \<in># cl_net cl' \<Longrightarrow> m \<in># cl_net cl \<or> msgRel n r' m"
    and pend: "\<And>j m. m \<in># cl_pend cl' j \<Longrightarrow> m \<in># cl_pend cl j \<or>
      j = i \<and> snapRel n r' (tm r' i) (amSnapshotIndex m) (amSnapshotTerm m)"
    and app: "\<And>j m. m \<in> set (cl_applied cl' j) \<Longrightarrow>
      m \<in> set (cl_applied cl j) \<and> (j = i \<longrightarrow> amCommandIndex m \<le> rf_lastApplied (cl_node cl' i)) \<or>
      j = i \<and> applyRel n r' (tm r' i) m \<and> amCommandIndex m \<le> rf_lastApplied (cl_node cl' i)"
  shows "\<exists>r'. rsteps n r r' \<and> crel n r' cl'"
proof -
  have g: "grows r r'" using repl.rsteps_ok [OF st crelD(1) [OF rel]] by auto
  have "cinv n (cast r') (winners r) cl" using cinv_register [OF crelD(2) [OF rel] growsD(7) [OF g]] .
  moreover have "votesOf n cl' \<subseteq> cast r'" by (rule votes_frame [OF rel g nodes vote])
  ultimately have "cinv n (cast r') (winners r) cl'" using cstep_cinv [OF step] by blast
  then have "crel n r' cl'"
    using crel_frame [OF rel st i only(1) _ nodes node vote net pend app] only(2) by (simp add: winners_def)
  with st show ?thesis by blast
qed

section \<open>The steps of the cluster\<close>

lemma vote_remembered:
  assumes rel: "crel n r cl" and i: "i \<in> servers n" and g: "grows r r'"
    and eff: "sameVote (cl_node cl i) rf \<or> laterTerm (cl_node cl i) rf \<or> yields t (cl_node cl i) rf"
    and v: "rf_votedFor rf \<in> servers n"
  shows "(rf_term rf, i, rf_votedFor rf) \<in> cast r'"
proof -
  have "sameVote (cl_node cl i) rf" using eff v by (auto simp: vote_defs servers_def)
  then have "(rf_term rf, i, rf_votedFor rf) \<in> votesOf n cl"
    using i v by (intro votesOf_mem) (auto simp: sameVote_def)
  then show ?thesis using crelD(3) [OF rel] growsD(7) [OF g] by blast
qed

lemma onlyAt_simps [simp]:
  "onlyAt i r r" "onlyAt i r (atTerm i t r)" "onlyAt i r (followed i t q r)" "onlyAt i r (appended i e r)"
  "onlyAt i r (elected i r)" "onlyAt i r (installed i s P r)"
  "onlyAt i r (committed i k r') = onlyAt i r r'" "onlyAt i r (voted v c r') = onlyAt i r r'" "onlyAt i r (standing i r)"
  by (auto simp: onlyAt_def split: if_splits)

text \<open>A step that changes one server, in the way the protocol's \<open>r'\<close> says, and sends no news.\<close>

lemma crel_vote:
  assumes rel: "crel n r cl" and step: "cstep n cl cl'" and st: "rsteps n r r'" and i: "i \<in> servers n"
    and only: "onlyAt i r r'" "led r' = led r" and node: "nodeRel n r' i rf"
    and vote: "rf_votedFor rf \<in> servers n \<Longrightarrow> (rf_term rf, i, rf_votedFor rf) \<in> cast r'"
    and la: "rf_lastApplied (cl_node cl i) \<le> rf_lastApplied rf"
    and cl': "cl_node cl' = (cl_node cl)(i := rf)" "\<And>j. cl_pend cl' j \<subseteq># cl_pend cl j" "cl_applied cl' = cl_applied cl"
    and net: "\<And>m. m \<in># cl_net cl' \<Longrightarrow> m \<in># cl_net cl \<or> msgRel n r' m"
  shows "\<exists>r'. rsteps n r r' \<and> crel n r' cl'"
proof (rule crel_step [OF rel step st i only])
  show "m \<in> set (cl_applied cl j) \<and> (j = i \<longrightarrow> amCommandIndex m \<le> rf_lastApplied (cl_node cl' i)) \<or>
      j = i \<and> applyRel n r' (tm r' i) m \<and> amCommandIndex m \<le> rf_lastApplied (cl_node cl' i)"
    if "m \<in> set (cl_applied cl' j)" for j m
    using that cl'(1,3) la crelD(8) [OF rel i, of m] by auto
qed (use cl' node net vote in \<open>auto dest: mset_subset_eqD\<close>)

lemma crel_local:
  assumes rel: "crel n r cl" and step: "cstep n cl cl'" and st: "rsteps n r r'" and i: "i \<in> servers n"
    and only: "onlyAt i r r'" "led r' = led r" and node: "nodeRel n r' i rf"
    and eff: "sameVote (cl_node cl i) rf \<or> laterTerm (cl_node cl i) rf \<or> yields t (cl_node cl i) rf"
    and la: "rf_lastApplied (cl_node cl i) \<le> rf_lastApplied rf"
    and cl': "cl_node cl' = (cl_node cl)(i := rf)" "\<And>j. cl_pend cl' j \<subseteq># cl_pend cl j" "cl_applied cl' = cl_applied cl"
    and net: "\<And>m. m \<in># cl_net cl' \<Longrightarrow> m \<in># cl_net cl \<or> msgRel n r' m"
  shows "\<exists>r'. rsteps n r r' \<and> crel n r' cl'"
proof -
  have g: "grows r r'" using repl.rsteps_ok [OF st crelD(1) [OF rel]] by auto
  show ?thesis by (rule crel_vote [OF rel step st i only node vote_remembered [OF rel i g eff] la cl' net])
qed

text \<open>Handlers that leave the log alone.\<close>

lemma crel_quiet:
  assumes rel: "crel n r cl" and step: "cstep n cl cl'" and i: "i \<in> servers n"
    and same: "sameLog (cl_node cl i) rf"
    and eff: "sameVote (cl_node cl i) rf \<or> laterTerm (cl_node cl i) rf \<or> yields t (cl_node cl i) rf"
    and cl': "cl_node cl' = (cl_node cl)(i := rf)" "\<And>j. cl_pend cl' j \<subseteq># cl_pend cl j" "cl_applied cl' = cl_applied cl"
    and net: "\<And>m. m \<in># cl_net cl' \<Longrightarrow> m \<in># cl_net cl \<or> msgRel n (atTerm i (rf_term rf) r) m"
  shows "\<exists>r'. rsteps n r r' \<and> crel n r' cl'"
proof -
  note q = quiet_nodeRel [OF crelD(1) [OF rel] crelD(4) [OF rel i] same eff]
  have "rsteps n r (atTerm i (rf_term rf) r)" using atTerm_step [OF q(2)] by (rule r_into_rtranclp)
  then show ?thesis
    using same by (intro crel_local [OF rel step _ i _ _ q(1) eff _ cl' net]) (auto simp: sameLog_def)
qed

lemma safe_sendAppend:
  assumes rel: "crel n r cl" and re: "reachable n cl" and i: "i \<in> servers n" and p: "p \<in> servers n" "p \<noteq> i"
    and h: "Replicate p (cl_node cl i) = Inr (Some (CallAppendEntries args))"
  shows "\<exists>r'. rsteps n r r' \<and> crel n r' (setNet (cl_net cl + {#AppReq i p args#}) cl)"
proof -
  have wf: "wf_log (rf_log (cl_node cl i))" using log_okD(1) [OF logs_okD(1) [OF reachable_logs_ok [OF re] i]] .
  have "msgRel n r (AppReq i p args)"
    using Replicate_appRel [OF crelD(1) [OF rel] crelD(4) [OF rel i] wf i h] p(2) by simp
  then show ?thesis
    using crelD(4) [OF rel i]
    by (intro crel_local [OF rel cstep.sendAppend [OF i p h] rtranclp.rtrancl_refl i, where rf = "cl_node cl i"])
      (auto simp: sameVote_def setNet_def)
qed

lemma safe_sendSnap:
  assumes rel: "crel n r cl" and i: "i \<in> servers n" and p: "p \<in> servers n" "p \<noteq> i"
    and h: "Replicate p (cl_node cl i) = Inr (Some (CallInstallSnapshot args))"
  shows "\<exists>r'. rsteps n r r' \<and> crel n r' (setNet (cl_net cl + {#SnapReq i p args#}) cl)"
proof -
  have "msgRel n r (SnapReq i p args)"
    using Replicate_snapRel [OF crelD(1) [OF rel] crelD(4) [OF rel i] i h] by simp
  then show ?thesis
    using crelD(4) [OF rel i]
    by (intro crel_local [OF rel cstep.sendSnap [OF i p h] rtranclp.rtrancl_refl i, where rf = "cl_node cl i"])
      (auto simp: sameVote_def setNet_def)
qed

lemma safe_elect:
  assumes rel: "crel n r cl" and i: "i \<in> servers n" and re: "reachable n cl"
    and h: "DoElection now x (cl_node cl i) = Inr (rf, Some args)"
  shows "\<exists>r'. rsteps n r r' \<and> crel n r' (setNode i rf (setNet
       (cl_net cl + mset_set ((\<lambda>v. VoteReq i v args) ` (servers n - {i})))
       (cl\<lparr>cl_vote := (cl_vote cl)(i := (cl_vote cl i)(rvTerm args := 1))\<rparr>)))"
proof -
  note inv = crelD(1) [OF rel] and nr = crelD(4) [OF rel i] and v = DoElection_vote [OF h]
  let ?t = "tm r i + 1"
  let ?r = "standing i r"
  have me: "rf_me (cl_node cl i) = i" using node_okD(2) [OF reachable_node_ok [OF re i]] .
  have same: "sameLog (cl_node cl i) rf" using DoElection_sameLog [OF h] .
  have notled: "led r ?t \<noteq> Some i" using led_term [OF inv, of ?t i] by auto
  have node: "nodeRel n ?r i rf"
    using nodeRelD [OF nr] same v notled by (auto simp: nodeRel_def sameLog_def)
  have wf: "wf_log (rf_log (cl_node cl i))" using log_okD(1) [OF logs_okD(1) [OF reachable_logs_ok [OF re] i]] .
  have a: "rvTerm args = ?t" "rvLastLogIndex args = int (length (lg r i))" "rvLastLogTerm args = lastT (lg r i)"
    using h wf_log_last [OF wf] repLog_tail [OF nodeRelD(2) [OF nr]] repLog_last [OF nodeRelD(2) [OF nr]]
      nodeRelD(1) [OF nr] repLogD(1) [OF nodeRelD(2) [OF nr]]
    by (auto simp: DoElection_def Let_def node_simps split: if_splits)
  have "rsteps n r ?r" using rstep.stand [OF i] by (rule r_into_rtranclp)
  then show ?thesis
    by (rule crel_step [OF rel cstep.elect [OF i h] _ i])
      (use node v me nodeRelD(1) [OF nr] a crelD(8) [OF rel i] same in
        \<open>auto simp: sameLog_def setNode_def setNet_def\<close>)
qed

lemma RequestVote_upToDate:
  assumes "RequestVote now args rf = Inr (rf', reply)" "rvrVoteGranted reply"
  shows "isAtLeastUpToDate args (rf_log rf) = Inr True" "rf_term rf \<le> rvTerm args" "rf_term rf' = rvTerm args"
    "rf_votedFor rf' = rvCandidateId args" "rf_state rf' = Leader \<Longrightarrow> rf_state rf = Leader \<and> rf_term rf = rvTerm args"
  using assms by (auto simp: RequestVote_def Let_def node_simps elim!: rbind_InrE split: if_splits)

lemma repLog_upToDate:
  assumes "isAtLeastUpToDate args l = Inr True" "repLog l L" "wf_log l"
    and "rvLastLogIndex args = int (length C)" "rvLastLogTerm args = lastT C"
  shows "upToDate C L"
proof -
  have "eIndex (last l) = int (length L)" using wf_log_last [OF assms(3)] repLog_tail [OF assms(2)] by simp
  then show ?thesis
    using assms(1,4,5) repLogD(1) [OF assms(2)] repLog_last [OF assms(2)]
    by (auto simp: isAtLeastUpToDate_def upToDate_def dominates_def split: if_splits)
qed

lemma nodeRel_voted [simp]: "nodeRel n (voted v c r) = nodeRel n r"
  by (simp add: nodeRel_def matched_def acked_def com_def ruled_def fun_eq_iff)

lemma RequestVote_nodeRel:
  assumes inv: "rinvs n r" and nr: "nodeRel n r v rf" and h: "RequestVote now args rf = Inr (rf', reply)"
    and g: "rvrVoteGranted reply"
  shows "nodeRel n (atTerm v (rvTerm args) r) v rf'"
proof -
  have frame: "nodeRel n r' v rf'" if "nodeRel n r' v (rf'\<lparr>rf_votedFor := x\<rparr>)" for r' x
    using that by (simp add: nodeRel_def)
  have same: "sameLog rf (rf'\<lparr>rf_votedFor := x\<rparr>)" for x
    using RequestVote_sameLog [OF h] by (simp add: sameLog_def)
  have t: "rf_term rf' = rvTerm args" using RequestVote_upToDate(3) [OF h g] .
  show ?thesis
  proof (rule RequestVote_vote [OF h])
    assume "rf_state rf' = rf_state rf" "rf_term rf' = rf_term rf"
    then have "sameVote rf (rf'\<lparr>rf_votedFor := rf_votedFor rf\<rparr>)" by (simp add: sameVote_def)
    from quiet_nodeRel(1) [OF inv nr same disjI1 [OF this]] t show ?thesis by (intro frame) simp
  next
    assume "rf_term rf < rvTerm args" "rf_state rf' = Follower" "rf_term rf' = rvTerm args"
    then have "laterTerm rf (rf'\<lparr>rf_votedFor := -1\<rparr>)" by (simp add: laterTerm_def)
    from quiet_nodeRel(1) [OF inv nr same disjI2 [OF disjI1 [OF this]]] t show ?thesis by (intro frame) simp
  qed (use g in simp)
qed

lemma safe_recvVote:
  assumes rel: "crel n r cl" and re: "reachable n cl" and ok: "cluster_ok n A cl"
    and m: "VoteReq c v args \<in># cl_net cl" and h: "RequestVote now args (cl_node cl v) = Inr (rf, reply)"
    and cl': "cl' = setNode v rf (setNet (cl_net cl - {#VoteReq c v args#} + {#VoteRep c v args reply#}) cl)"
  shows "\<exists>r'. rsteps n r r' \<and> crel n r' cl'"
proof -
  have cv: "c \<in> servers n" "v \<in> servers n" "rvCandidateId args = c" using cluster_okD(2) [OF ok m] by auto
  note inv = crelD(1) [OF rel] and nr = crelD(4) [OF rel cv(2)]
  have step: "cstep n cl cl'" unfolding cl' by (rule cstep.recvVote [OF m h])
  have same: "sameLog (cl_node cl v) rf" using RequestVote_sameLog [OF h] .
  have net: "x \<in># cl_net cl' \<Longrightarrow> x \<in># cl_net cl \<or> msgRel n r' x" for x and r' :: "'a rep"
    by (auto simp: cl' dest: in_diffD)
  have cl'_simps: "cl_node cl' = (cl_node cl)(v := rf)" "cl_pend cl' = cl_pend cl" "cl_applied cl' = cl_applied cl"
    by (simp_all add: cl' setNode_def setNet_def)
  show ?thesis
  proof (cases "rvrVoteGranted reply")
    case False
    have "sameVote (cl_node cl v) rf \<or> laterTerm (cl_node cl v) rf \<or> yields 0 (cl_node cl v) rf"
      by (rule RequestVote_vote [OF h]) (use False in auto)
    then show ?thesis by (intro crel_quiet [OF rel step cv(2) same _ cl'_simps(1) _ cl'_simps(3) net]) (simp_all add: cl'_simps)
  next
    case True
    note g = RequestVote_upToDate [OF h True]
    let ?t = "rvTerm args" and ?r = "voted v c (atTerm v (rvTerm args) r)"
    have t: "tm r v \<le> ?t" using g(2) nodeRelD(1) [OF nr] by simp
    have wf: "wf_log (rf_log (cl_node cl v))" using log_okD(1) [OF logs_okD(1) [OF reachable_logs_ok [OF re] cv(2)]] .
    have mr: "(?t, c, c) \<in> cast r" "rvLastLogIndex args = int (length (clog r ?t c))" "rvLastLogTerm args = lastT (clog r ?t c)"
      using crelD(5) [OF rel m] by auto
    have "rstep (servers n) (majority n) (atTerm v ?t r) ?r"
      using mr(1) repLog_upToDate [OF g(1) nodeRelD(2) [OF nr] wf mr(2,3)] by (intro rstep.vote) simp_all
    with atTerm_step [OF t] have st: "rsteps n r ?r" by (meson converse_rtranclp_into_rtranclp r_into_rtranclp)
    have node: "nodeRel n ?r v rf" using RequestVote_nodeRel [OF inv nr h True] by simp
    show ?thesis
      by (rule crel_vote [OF rel step st cv(2) _ _ node _ _ cl'_simps(1) _ cl'_simps(3) net])
        (use g(3,4) cv(3) same in \<open>simp_all add: cl'_simps sameLog_def\<close>)
  qed
qed

lemma reachable_wf: "reachable n cl \<Longrightarrow> i \<in> servers n \<Longrightarrow> wf_log (rf_log (cl_node cl i))"
  using log_okD(1) logs_okD(1) reachable_logs_ok by blast

lemma safe_win:
  assumes rel: "crel n r cl" and re: "reachable n cl" and c: "c \<in> servers n" and step: "cstep n cl cl'"
    and h: "handleVoteReply args reply (cl_node cl c) (cl_vote cl c (rvTerm args)) = Inr (rf, w)"
    and win: "rf_state (cl_node cl c) = Candidate" "rf_state rf = Leader"
    and cl': "cl_node cl' = (cl_node cl)(c := rf)" "cl_pend cl' = cl_pend cl" "cl_applied cl' = cl_applied cl"
      "\<And>x. x \<in># cl_net cl' \<Longrightarrow> x \<in># cl_net cl"
  shows "rsteps n r (elected c r)" "crel n (elected c r) cl'"
proof -
  note nr = crelD(4) [OF rel c]
  let ?t = "tm r c"
  note w = win_nodeRel [OF nr reachable_node_ok [OF re c] reachable_wf [OF re c] h win]
  have "votesOf n cl' = votesOf n cl" using w(3,4) by (auto simp: votesOf_def cl')
  then have ci: "cinv n (cast r) (winners r) cl'"
    using cstep_cinv [OF step crelD(2) [OF rel]] crelD(3) [OF rel] by simp
  have t: "rf_term (cl_node cl' c) = ?t" "rf_state (cl_node cl' c) = Leader"
    using w(3) nodeRelD(1) [OF nr] win by (simp_all add: cl')
  obtain Q where Q: "majority n Q" "\<And>x. x \<in> Q \<Longrightarrow> (?t, x, c) \<in> cast r"
    using cinv_leader(1) [OF ci c t(2)] t(1) by auto
  have cand: "(?t, c, c) \<in> cast r" "(?t, c) \<notin> winners r"
    using cinv_candidate [OF crelD(2) [OF rel] c] win nodeRelD(1) [OF nr] by auto
  have none: "led r ?t = None"
    using cinv_leader(2) [OF ci c t(2)] t(1) cand(2) by (cases "led r ?t") (auto simp: winners_def)
  then show st: "rsteps n r (elected c r)" using cand(1) Q by (intro r_into_rtranclp rstep.win) auto
  have "winners (elected c r) = insert (?t, c) (winners r)"
    using none by (auto simp: winners_def split: if_splits)
  then have "cinv n (cast (elected c r)) (winners (elected c r)) cl'"
    using cinv_leader(3) [OF ci c t(2)] t(1) by simp
  then show "crel n (elected c r) cl'"
  proof (rule crel_frame [OF rel st c onlyAt_simps(5)])
    show "(rf_term (cl_node cl' c), c, rf_votedFor (cl_node cl' c)) \<in> cast (elected c r)"
      if "rf_votedFor (cl_node cl' c) \<in> servers n"
      using that w(3,4) crelD(3) [OF rel] votesOf_mem [OF c] by (force simp: cl')
  qed (use w crelD(8) [OF rel c] in \<open>auto simp: cl'(1-3) dest: cl'(4)\<close>)
qed

lemma safe_voteReply:
  assumes rel: "crel n r cl" and re: "reachable n cl" and ok: "cluster_ok n A cl"
    and m: "VoteRep c v args reply \<in># cl_net cl"
    and h: "handleVoteReply args reply (cl_node cl c) (cl_vote cl c (rvTerm args)) = Inr (rf, w)"
    and cl': "cl' = setNode c rf (setNet (cl_net cl - {#VoteRep c v args reply#})
       (cl\<lparr>cl_vote := (cl_vote cl)(c := (cl_vote cl c)(rvTerm args := w))\<rparr>))"
  shows "\<exists>r'. rsteps n r r' \<and> crel n r' cl'"
proof -
  have c: "c \<in> servers n" using cluster_okD(2) [OF ok m] by auto
  note inv = crelD(1) [OF rel] and nr = crelD(4) [OF rel c]
  have step: "cstep n cl cl'" unfolding cl' by (rule cstep.voteReply [OF m h])
  have sub: "x \<in># cl_net cl' \<Longrightarrow> x \<in># cl_net cl" for x by (auto simp: cl' dest: in_diffD)
  have cl'_simps: "cl_node cl' = (cl_node cl)(c := rf)" "cl_pend cl' = cl_pend cl" "cl_applied cl' = cl_applied cl"
    by (simp_all add: cl' setNode_def setNet_def)
  have k: "sameVote (cl_node cl c) rf \<or> laterTerm (cl_node cl c) rf \<or>
      rf_state (cl_node cl c) = Candidate \<and> rf_state rf = Leader"
    by (rule handleVoteReply_vote [OF h]) (auto simp: sameVote_def)
  show ?thesis
  proof (cases "rf_state (cl_node cl c) = Candidate \<and> rf_state rf = Leader")
    case False
    then have "sameVote (cl_node cl c) rf \<or> laterTerm (cl_node cl c) rf" "sameLog (cl_node cl c) rf"
      using k handleVoteReply_sameLog [OF h] by auto
    then show ?thesis
      using sub by (intro crel_quiet [OF rel step c, where t = 0]) (auto simp: cl'_simps)
  next
    case True
    then show ?thesis using safe_win [OF rel re c step h _ _ cl'_simps sub] by blast
  qed
qed

lemma safe_recvAppend:
  assumes rel: "crel n r cl" and re: "reachable n cl" and ok: "cluster_ok n A cl"
    and m: "AppReq i p args \<in># cl_net cl" and h: "AppendEntries now args (cl_node cl p) = Inr (rf, reply)"
    and cl': "cl' = setNode p rf (setNet (cl_net cl - {#AppReq i p args#} + {#AppRep i p args reply#}) cl)"
  shows "\<exists>r'. rsteps n r r' \<and> crel n r' cl'"
proof -
  have p: "p \<in> servers n" using cluster_okD(2) [OF ok m] by auto
  note inv = crelD(1) [OF rel] and nr = crelD(4) [OF rel p] and wf = reachable_wf [OF re p]
  let ?T = "aeTerm args" and ?rf = "cl_node cl p"
  have step: "cstep n cl cl'" unfolding cl' by (rule cstep.recvAppend [OF m h])
  obtain prev q where led: "led r ?T = Some i" "p \<noteq> i" and app: "appRel n r args prev q"
    using crelD(5) [OF rel m] by auto
  have con: "contig (aePrevLogIndex args + 1) (aeEntries args)" using logs_okD(2) [OF reachable_logs_ok [OF re] m] by simp
  have net: "x \<in># cl_net cl \<or> msgRel n r' x" if "x \<in># cl_net cl'" "msgRel n r' (AppRep i p args reply)" for x r'
    using that by (auto simp: cl' dest: in_diffD)
  have cl'_simps: "cl_node cl' = (cl_node cl)(p := rf)" "cl_pend cl' = cl_pend cl" "cl_applied cl' = cl_applied cl"
    by (simp_all add: cl' setNode_def setNet_def)
  note eff = AppendEntries_vote [OF h]
  show ?thesis
  proof (cases "rf_term ?rf \<le> ?T \<and> logMismatch (rf_log ?rf) args = Inr None")
    case False
    have q: "sameLog ?rf rf \<and> \<not> aerSuccess reply"
    proof (cases "?T < rf_term ?rf")
      case True
      then show ?thesis using h by (auto simp: AppendEntries_def Let_def sameLog_def)
    next
      case no: False
      have ne: "rf_log ?rf \<noteq> []" using wf by auto
      obtain ct ci where "logMismatch (rf_log ?rf) args = Inr (Some (ct, ci))"
        using False no logMismatch_eq [OF ne, of args] by (auto simp: Let_def split: if_splits)
      from AppendEntries_refuses [OF _ this, of now] no h followSender_sameLog show ?thesis by auto
    qed
    show ?thesis
      by (rule crel_quiet [OF rel step p _ eff cl'_simps(1) _ cl'_simps(3) net]) (use q led(1) in \<open>simp_all add: cl'_simps\<close>)
  next
    case True
    obtain k where st: "rsteps n r (committed p k (followed p ?T q r))"
      and node: "nodeRel n (committed p k (followed p ?T q r)) p rf"
      and ack: "acked (majority n) (followed p ?T q r) ?T p q" and la: "rf_lastApplied rf = rf_lastApplied ?rf"
      using AppendEntries_followed [OF inv nr wf p app refl led conjunct1 [OF True] con conjunct2 [OF True] h] by blast
    have "grows r (committed p k (followed p ?T q r))" using repl.rsteps_ok [OF st inv] by auto
    from appRel_grows [OF app this inv] led(1)
    have "msgRel n (committed p k (followed p ?T q r)) (AppRep i p args reply)"
      using ack by (auto simp: ruled_def)
    then show ?thesis
      by (intro crel_local [OF rel step st p _ _ node eff _ cl'_simps(1) _ cl'_simps(3) net])
        (simp_all add: la cl'_simps)
  qed
qed

lemma safe_appendReply:
  assumes rel: "crel n r cl" and re: "reachable n cl" and ok: "cluster_ok n A cl"
    and m: "AppRep i p args reply \<in># cl_net cl" and h: "handleAppendReply p args reply (cl_node cl i) = Inr rf"
    and cl': "cl' = setNode i rf (setNet (cl_net cl - {#AppRep i p args reply#}) cl)"
  shows "\<exists>r'. rsteps n r r' \<and> crel n r' cl'"
proof -
  have ip: "i \<in> servers n" "p \<in> servers n" using cluster_okD(2) [OF ok m] by auto
  note inv = crelD(1) [OF rel] and nr = crelD(4) [OF rel ip(1)]
  let ?T = "aeTerm args" and ?rf = "cl_node cl i"
  have step: "cstep n cl cl'" unfolding cl' by (rule cstep.appendReply [OF m h])
  have net: "x \<in># cl_net cl' \<Longrightarrow> x \<in># cl_net cl \<or> msgRel n r' x" for x and r' :: "'a rep"
    by (auto simp: cl' dest: in_diffD)
  have cl'_simps: "cl_node cl' = (cl_node cl)(i := rf)" "cl_pend cl' = cl_pend cl" "cl_applied cl' = cl_applied cl"
    by (simp_all add: cl' setNode_def setNet_def)
  show ?thesis
  proof (cases "rf_term ?rf = ?T \<and> aerTerm reply \<le> rf_term ?rf \<and> aerSuccess reply \<and> aeEntries args \<noteq> []")
    case True
    obtain prev q where led: "led r ?T = Some i" and app: "appRel n r args prev q" "acked (majority n) r ?T p q"
      using crelD(5) [OF rel m] True by auto
    obtain k where k: "comm (majority n) r k (lg r i) (tm r i)" "nodeRel n (committed i k r) i rf"
      "sameVote ?rf rf" "rf_lastApplied rf = rf_lastApplied ?rf"
      using handleAppendReply_acked [OF inv nr reachable_wf [OF re ip(1)] reachable_node_ok [OF re ip(1)] ip(2) app led
          _ _ _ _ h] True by blast
    have st: "rsteps n r (committed i k r)" using committed_step [OF k(1)] by (rule r_into_rtranclp)
    show ?thesis
      by (rule crel_local [OF rel step st ip(1) _ _ k(2) disjI1 [OF k(3)] _ cl'_simps(1) _ cl'_simps(3) net])
        (simp_all add: k(4) cl'_simps)
  next
    case False
    from h False show ?thesis
    proof (cases rule: handleAppendReply_other)
      case quiet
      then have "sameVote ?rf rf \<or> laterTerm ?rf rf \<or> yields 0 ?rf rf" by blast
      then show ?thesis
        by (rule crel_quiet [OF rel step ip(1) quiet(1) _ cl'_simps(1) _ cl'_simps(3) net]) (simp_all add: cl'_simps)
    next
      case (failed k ni)
      have "sameVote ?rf rf" by (simp add: failed sameVote_def)
      then show ?thesis
        by (intro crel_local [OF rel step rtranclp.rtrancl_refl ip(1) _ _ failed_nodeRel [OF nr failed] disjI1 _
              cl'_simps(1) _ cl'_simps(3) net])
          (simp_all add: failed cl'_simps)
    qed
  qed
qed

lemma safe_recvSnap:
  assumes rel: "crel n r cl" and ok: "cluster_ok n A cl"
    and m: "SnapReq i p args \<in># cl_net cl" and h: "InstallSnapshot now args (cl_node cl p) = (rf, reply, msg)"
    and cl': "cl' = setNode p rf (setNet (cl_net cl - {#SnapReq i p args#} + {#SnapRep i p args reply#})
       (cl\<lparr>cl_pend := (cl_pend cl)(p := cl_pend cl p + mset_set (set_option msg))\<rparr>))"
  shows "\<exists>r'. rsteps n r r' \<and> crel n r' cl'"
proof -
  have p: "p \<in> servers n" using cluster_okD(2) [OF ok m] by auto
  note inv = crelD(1) [OF rel] and nr = crelD(4) [OF rel p]
  have step: "cstep n cl cl'" unfolding cl' by (rule cstep.recvSnap [OF m h])
  have same: "sameLog (cl_node cl p) rf" using InstallSnapshot_sameLog [OF h] .
  note eff = InstallSnapshot_vote [OF h] and q = quiet_nodeRel [OF inv nr same InstallSnapshot_vote [OF h]]
  let ?r = "atTerm p (rf_term rf) r"
  have st: "rsteps n r ?r" using atTerm_step [OF q(2)] by (rule r_into_rtranclp)
  then have g: "grows r ?r" using repl.rsteps_ok [OF st inv] by auto
  have sn: "snapRel n ?r (tm ?r p) (amSnapshotIndex x) (amSnapshotTerm x)" if "msg = Some x" for x
  proof -
    have "isTerm args \<le> rf_term rf" "amSnapshotIndex x = isLastIncludedIndex args" "amSnapshotTerm x = isLastIncludedTerm args"
      using h that followSender_term [of "(cl_node cl p)\<lparr>rf_lastHeartbeat := now\<rparr>" "isTerm args"]
      by (auto simp: InstallSnapshot_def Let_def split: if_splits)
    then show ?thesis using crelD(5) [OF rel m] snapRel_grows [OF _ g inv, of "isTerm args"] by simp
  qed
  show ?thesis
  proof (rule crel_step [OF rel step st p])
    show "x \<in># cl_pend cl j \<or> j = p \<and> snapRel n ?r (tm ?r p) (amSnapshotIndex x) (amSnapshotTerm x)"
      if "x \<in># cl_pend cl' j" for j x
      using that sn by (cases msg; cases "j = p") (auto simp: cl' setNode_def setNet_def)
    show "(rf_term (cl_node cl' p), p, rf_votedFor (cl_node cl' p)) \<in> cast ?r" if "rf_votedFor (cl_node cl' p) \<in> servers n"
      using vote_remembered [OF rel p g eff] that by (simp add: cl')
  qed (use q crelD(8) [OF rel p] same in \<open>auto simp: cl' setNode_def setNet_def sameLog_def dest: in_diffD\<close>)
qed

lemma safe_snapReply:
  assumes rel: "crel n r cl" and ok: "cluster_ok n A cl"
    and m: "SnapRep i p args reply \<in># cl_net cl" and h: "handleInstallReply p args reply (cl_node cl i) = Inr rf"
  shows "\<exists>r'. rsteps n r r' \<and> crel n r' (setNode i rf (setNet (cl_net cl - {#SnapRep i p args reply#}) cl))"
proof -
  have i: "i \<in> servers n" using cluster_okD(2) [OF ok m] by auto
  have "sameVote (cl_node cl i) rf \<or> laterTerm (cl_node cl i) rf \<or> yields 0 (cl_node cl i) rf"
    using handleInstallReply_vote [OF h] by blast
  then show ?thesis
    by (rule crel_quiet [OF rel cstep.snapReply [OF m h] i handleInstallReply_sameLog [OF h]])
      (auto simp: setNode_def setNet_def dest: in_diffD)
qed

lemma safe_startCmd:
  assumes rel: "crel n r cl" and re: "reachable n cl" and i: "i \<in> servers n"
    and h: "Start cmd (cl_node cl i) = Inr (rf, x)"
  shows "\<exists>r'. rsteps n r r' \<and> crel n r' (setNode i rf cl)"
proof (cases "rf_state (cl_node cl i) = Leader")
  case True
  obtain e where e: "rstep (servers n) (majority n) r (appended i e r)" "nodeRel n (appended i e r) i rf"
    "sameVote (cl_node cl i) rf" "rf_lastApplied rf = rf_lastApplied (cl_node cl i)"
    using Start_append [OF crelD(1) [OF rel] crelD(4) [OF rel i] reachable_node_ok [OF re i] i True h] by blast
  have st: "rsteps n r (appended i e r)" using e(1) by (rule r_into_rtranclp)
  show ?thesis
    by (rule crel_local [OF rel cstep.startCmd [OF i h] st i _ _ e(2) disjI1 [OF e(3)]])
      (simp_all add: e(4) setNode_def)
next
  case False
  then have "rf = cl_node cl i" using h by (simp add: Start_def)
  then show ?thesis
    using crelD(4) [OF rel i]
    by (intro crel_local [OF rel cstep.startCmd [OF i h] rtranclp.rtrancl_refl i, where rf = rf and t = 0])
      (auto simp: setNode_def sameVote_def)
qed

lemma safe_applyEntry:
  assumes rel: "crel n r cl" and re: "reachable n cl" and i: "i \<in> servers n"
    and h: "DoApply (cl_node cl i) = Inr (rf, Some m)"
    and cl': "cl' = setNode i rf (cl\<lparr>cl_applied := (cl_applied cl)(i := cl_applied cl i @ [m])\<rparr>)"
  shows "\<exists>r'. rsteps n r r' \<and> crel n r' cl'"
proof -
  note a = DoApply_applyRel [OF crelD(1) [OF rel] crelD(4) [OF rel i] reachable_wf [OF re i] i h]
  have step: "cstep n cl cl'" unfolding cl' by (rule cstep.applyEntry [OF i h])
  show ?thesis
  proof (rule crel_step [OF rel step rtranclp.rtrancl_refl i])
    show "(rf_term (cl_node cl' i), i, rf_votedFor (cl_node cl' i)) \<in> cast r" if "rf_votedFor (cl_node cl' i) \<in> servers n"
      using vote_remembered [OF rel i grows_refl disjI1 [OF a(5)]] that by (simp add: cl')
    show "x \<in> set (cl_applied cl j) \<and> (j = i \<longrightarrow> amCommandIndex x \<le> rf_lastApplied (cl_node cl' i)) \<or>
        j = i \<and> applyRel n r (tm r i) x \<and> amCommandIndex x \<le> rf_lastApplied (cl_node cl' i)"
      if "x \<in> set (cl_applied cl' j)" for j x
      using that a(2-4) crelD(8) [OF rel i, of x] by (cases "j = i") (auto simp: cl' setNode_def)
  qed (use a(1) in \<open>auto simp: cl' setNode_def\<close>)
qed

lemma safe_takeSnapshot:
  assumes rel: "crel n r cl" and re: "reachable n cl" and i: "i \<in> servers n" and m: "m \<in> set (cl_applied cl i)"
    and h: "Snapshot (amCommandIndex m) snap (cl_node cl i) = Inr rf"
  shows "\<exists>r'. rsteps n r r' \<and> crel n r' (setNode i rf cl)"
proof -
  note s = Snapshot_nodeRel [OF crelD(4) [OF rel i] reachable_wf [OF re i] crelD(8) [OF rel i m] h]
  show ?thesis
    by (rule crel_local [OF rel cstep.takeSnapshot [OF i m h] rtranclp.rtrancl_refl i _ _ s(1) disjI1 [OF s(3)]])
      (simp_all add: s(2) setNode_def)
qed

lemma safe_installSnapshot:
  assumes rel: "crel n r cl" and re: "reachable n cl" and i: "i \<in> servers n" and m: "m \<in># cl_pend cl i"
    and h: "CondInstallSnapshot (amSnapshotTerm m) (amSnapshotIndex m) (amSnapshot m) (cl_node cl i) = Inr (rf, b)"
    and cl': "cl' = setNode i rf (cl\<lparr>cl_pend := (cl_pend cl)(i := cl_pend cl i - {#m#})\<rparr>)"
  shows "\<exists>r'. rsteps n r r' \<and> crel n r' cl'"
proof -
  note inv = crelD(1) [OF rel] and nr = crelD(4) [OF rel i]
  let ?k = "amSnapshotIndex m"
  have step: "cstep n cl cl'" unfolding cl' by (rule cstep.installSnapshot [OF i m h])
  have cl'_simps: "cl_node cl' = (cl_node cl)(i := rf)" "cl_applied cl' = cl_applied cl" "cl_net cl' = cl_net cl"
    "cl_pend cl' j \<subseteq># cl_pend cl j" for j by (auto simp: cl' setNode_def)
  have v: "sameVote (cl_node cl i) rf" using CondInstallSnapshot_vote [OF h] .
  show ?thesis
  proof (cases "?k < rf_commitIndex (cl_node cl i)")
    case True
    then have "rf = cl_node cl i" using h by (simp add: CondInstallSnapshot_def)
    then show ?thesis
      using nr by (intro crel_local [OF rel step rtranclp.rtrancl_refl i _ _ _ disjI1 [OF v] _ cl'_simps(1,4,2)])
        (auto simp: cl'_simps)
  next
    case False
    then have k: "rf_commitIndex (cl_node cl i) \<le> ?k" by simp
    obtain P where P: "0 \<le> ?k" "comm (majority n) r (nat ?k) P (tm r i)" "amSnapshotTerm m = lastT (take (nat ?k) P)"
      using crelD(6) [OF rel i m] by (auto simp: snapRel_def)
    note c = CondInstallSnapshot_installed [OF inv nr reachable_wf [OF re i] i P k h]
    show ?thesis
      by (rule crel_local [OF rel step c(1) i _ _ c(2) disjI1 [OF v] c(3) cl'_simps(1,4,2)]) (simp_all add: cl'_simps)
  qed
qed

lemma safe_crash:
  assumes rel: "crel n r cl" and re: "reachable n cl" and i: "i \<in> servers n"
    and h: "Make n i (Copy (rf_persister (cl_node cl i))) x = Inr rf"
    and cl': "cl' = setNode i rf (setNet (filter_mset (\<lambda>m. \<not> replyTo i m) (cl_net cl))
       (cl\<lparr>cl_pend := (cl_pend cl)(i := {#}), cl_applied := (cl_applied cl)(i := [])\<rparr>))"
  shows "\<exists>r'. rsteps n r r' \<and> crel n r' cl'"
proof -
  note inv = crelD(1) [OF rel] and nr = crelD(4) [OF rel i]
  note c = restart_nodeRel [OF inv nr reachable_node_ok [OF re i] i h]
  let ?r = "committed i (nat (base (rf_log (cl_node cl i)))) r"
  have step: "cstep n cl cl'" unfolding cl' by (rule cstep.crash [OF i h])
  have st: "rsteps n r ?r" using c(1) by (rule r_into_rtranclp)
  show ?thesis
  proof (rule crel_step [OF rel step st i])
    show "(rf_term (cl_node cl' i), i, rf_votedFor (cl_node cl' i)) \<in> cast ?r" if "rf_votedFor (cl_node cl' i) \<in> servers n"
      using that c(3,4) crelD(3) [OF rel] votesOf_mem [OF i] by (force simp: cl')
  qed (use c(2) in \<open>auto simp: cl' setNode_def setNet_def split: if_splits\<close>)
qed

lemma safe_loseMsgs:
  assumes rel: "crel n r cl" and net: "net \<subseteq># cl_net cl"
  shows "\<exists>r'. rsteps n r r' \<and> crel n r' (setNet net cl)"
proof -
  have "cinv n (cast r) (winners r) (setNet net cl)"
    using cstep_cinv [OF cstep.loseMsgs [OF net] crelD(2) [OF rel]] crelD(3) [OF rel] by (simp add: votesOf_def)
  then have "crel n r (setNet net cl)"
    using rel net by (auto simp: crel_def votesOf_def setNet_def dest: mset_subset_eqD)
  then show ?thesis by blast
qed

section \<open>The cluster implements the protocol\<close>

lemma cstep_safe:
  assumes "cstep n cl cl'" "reachable n cl" "crel n r cl"
  shows "\<exists>r'. rsteps n r r' \<and> crel n r' cl'"
proof -
  obtain A where A: "cluster_ok n A cl" using reachable_inv [OF assms(2)] unfolding cinv_def by blast
  from assms(1) show ?thesis
  proof (cases rule: cstep.cases)
    case (elect i now x rf args)
    then show ?thesis using safe_elect [OF assms(3) _ assms(2)] by simp
  next
    case (recvVote c v args now rf reply)
    then show ?thesis using safe_recvVote [OF assms(3,2) A] by blast
  next
    case (voteReply c v args reply rf w)
    then show ?thesis using safe_voteReply [OF assms(3,2) A] by blast
  next
    case (sendAppend i p aargs)
    then show ?thesis using safe_sendAppend [OF assms(3,2)] by simp
  next
    case (recvAppend i p aargs now rf areply)
    then show ?thesis using safe_recvAppend [OF assms(3,2) A] by blast
  next
    case (appendReply i p aargs areply rf)
    then show ?thesis using safe_appendReply [OF assms(3,2) A] by blast
  next
    case (sendSnap i p sargs)
    then show ?thesis using safe_sendSnap [OF assms(3)] by simp
  next
    case (recvSnap i p sargs now rf sreply msg)
    then show ?thesis using safe_recvSnap [OF assms(3) A] by blast
  next
    case (snapReply i p sargs sreply rf)
    then show ?thesis using safe_snapReply [OF assms(3) A] by simp
  next
    case (startCmd i cmd rf x)
    then show ?thesis using safe_startCmd [OF assms(3,2)] by simp
  next
    case (applyEntry i rf m)
    then show ?thesis using safe_applyEntry [OF assms(3,2)] by blast
  next
    case (takeSnapshot i m snap rf)
    then show ?thesis using safe_takeSnapshot [OF assms(3,2)] by simp
  next
    case (installSnapshot i m rf b)
    then show ?thesis using safe_installSnapshot [OF assms(3,2)] by blast
  next
    case (loseMsgs net)
    then show ?thesis using safe_loseMsgs [OF assms(3)] by simp
  next
    case (crash i x rf)
    then show ?thesis using safe_crash [OF assms(3,2)] by blast
  qed
qed

lemma init_crel:
  assumes "cluster_init n cl"
  shows "crel n rep_start cl"
proof -
  have node: "nodeRel n rep_start i (cl_node cl i) \<and> rf_votedFor (cl_node cl i) = -1" if i: "i \<in> servers n" for i
  proof -
    obtain x where "Make n i MakePersister x = Inr (cl_node cl i)" using assms i by (auto simp: cluster_init_def)
    note rf = sym [OF trans [OF this [symmetric] Make_fresh, THEN Inr_inject]]
    show ?thesis unfolding rf [symmetric]
      by (simp add: nodeRel_def rep_start_def repLog_def base_def sentinel_def lastT_def)
  qed
  then have "votesOf n cl = {}" by (auto simp: votesOf_def servers_def)
  moreover have "cinv n {} {} cl"
    unfolding cinv_def using init_ok [OF assms] elect_start_einv [OF init_elect_start [OF assms]] by blast
  ultimately show ?thesis
    using node rep_start_inv assms by (auto simp: crel_def winners_def cluster_init_def rep_start_def)
qed

lemma reachable_crel: "reachable n cl \<Longrightarrow> \<exists>r. crel n r cl"
proof (induction rule: reachable.induct)
  case (init cl)
  then show ?case using init_crel by blast
next
  case (step cl cl')
  then show ?case using cstep_safe by blast
qed

lemma csteps_safe:
  assumes "(cstep n)\<^sup>*\<^sup>* cl cl'" "reachable n cl" "crel n r cl"
  shows "\<exists>r'. rsteps n r r' \<and> crel n r' cl'"
  using assms(1)
proof (induction rule: rtranclp_induct)
  case (step y z)
  have "reachable n y" using step.hyps(1) by (induction rule: rtranclp_induct) (auto intro: assms(2) reachable.step)
  with step cstep_safe show ?case by (meson rtranclp_trans)
qed (use assms(3) in blast)

text \<open>Applied commands, at any two servers and at any two times.\<close>

lemma applied_agree:
  assumes inv: "rinvs n r" and a: "applyRel n r T m" "applyRel n r T' m'"
    and same: "amCommandIndex m = amCommandIndex m'"
  shows "amCommand m = amCommand m'"
proof -
  let ?k = "amCommandIndex m"
  obtain P P' where P: "0 < ?k" "comm (majority n) r (nat ?k) P T" "amCommand m = eCommand (P ! nat (?k - 1))"
    "comm (majority n) r (nat ?k) P' T'" "amCommand m' = eCommand (P' ! nat (?k - 1))"
    using a same by (auto simp: applyRel_def)
  have "take (nat ?k) P = take (nat ?k) P'" using repl.comm_agree [OF inv P(2,4)] by simp
  then have "P ! nat (?k - 1) = P' ! nat (?k - 1)" using P(1) by (metis diff_less_eq nat_mono_iff nth_take zless_add1_eq)
  with P(3,5) show ?thesis by simp
qed

section \<open>Properties\<close>

text \<open>
  C2. State machine safety: whatever the network loses, delays or reorders, whichever
  servers crash and restart, and whenever they take and install snapshots, two servers of a cluster
  never apply different commands at the same index: a command applied by a server and one applied
  by any server at the same index, at that time or at any later time, are the same command.
\<close>

theorem state_machine_safety:
  assumes "reachable n cl" "(cstep n)\<^sup>*\<^sup>* cl cl'" "i \<in> servers n" "j \<in> servers n"
    and "m \<in> set (cl_applied cl i)" "m' \<in> set (cl_applied cl' j)" "amCommandIndex m = amCommandIndex m'"
  shows "amCommand m = amCommand m'"
proof -
  obtain r where r: "crel n r cl" using reachable_crel [OF assms(1)] by blast
  obtain r' where r': "rsteps n r r'" "crel n r' cl'" using csteps_safe [OF assms(2,1) r] by blast
  have g: "grows r r'" using repl.rsteps_ok [OF r'(1) crelD(1) [OF r]] by auto
  have "applyRel n r' (tm r i) m" using applyRel_grows [OF crelD(7) [OF r assms(3,5)] g crelD(1) [OF r] order_refl] .
  then show ?thesis
    using applied_agree [OF crelD(1) [OF r'(2)] _ crelD(7) [OF r'(2) assms(4,6)] assms(7)] by blast
qed

lemma state_machine_safety_witness:
  "amCommandIndex (hd (cl_applied demo8 0)) = 1 \<and> amCommandIndex (hd (cl_applied demo11 1)) = 1 \<and>
   amCommand (hd (cl_applied demo8 0)) = amCommand (hd (cl_applied demo11 1))"
proof -
  have "amCommandIndex (hd (cl_applied demo8 0)) = 1" "amCommandIndex (hd (cl_applied demo11 1)) = 1"
    by (simp_all add: run_applied runMsg_def)
  then show ?thesis
    using state_machine_safety [OF demo_commits(2) demo_commits(3), of 0 1 "hd (cl_applied demo8 0)" "hd (cl_applied demo11 1)"]
    by (simp add: servers3 run_applied)
qed

text \<open>
  C3. Leader completeness: what some server has applied is in the log of every leader of that or a
  later term, now and at any later time: the leader's log reaches the index, and unless its
  snapshot covers it, the entry at the index holds the same command.
\<close>

theorem leader_completeness:
  assumes "reachable n cl" "(cstep n)\<^sup>*\<^sup>* cl cl'" "i \<in> servers n" "j \<in> servers n"
    and "m \<in> set (cl_applied cl i)" "rf_state (cl_node cl' j) = Leader"
    and "rf_term (cl_node cl i) \<le> rf_term (cl_node cl' j)"
  shows "amCommandIndex m \<le> tailIndex (rf_log (cl_node cl' j)) \<and>
    (amCommandIndex m \<le> base (rf_log (cl_node cl' j)) \<or>
     (\<exists>e. GetLogAtIndex (rf_log (cl_node cl' j)) (amCommandIndex m) = Inr (Some e) \<and> eCommand e = amCommand m))"
proof -
  let ?k = "amCommandIndex m" and ?l = "rf_log (cl_node cl' j)"
  obtain r where r: "crel n r cl" using reachable_crel [OF assms(1)] by blast
  obtain r' where r': "rsteps n r r'" "crel n r' cl'" using csteps_safe [OF assms(2,1) r] by blast
  note inv = crelD(1) [OF r'(2)] and nr = crelD(4) [OF r'(2) assms(4)]
  have g: "grows r r'" using repl.rsteps_ok [OF r'(1) crelD(1) [OF r]] by auto
  have le: "tm r i \<le> tm r' j" using assms(7) nodeRelD(1) [OF crelD(4) [OF r assms(3)]] nodeRelD(1) [OF nr] by simp
  obtain P where P: "0 < ?k" "comm (majority n) r' (nat ?k) P (tm r' j)" "amCommand m = eCommand (P ! nat (?k - 1))"
    using applyRel_grows [OF crelD(7) [OF r assms(3,5)] g crelD(1) [OF r] le] by (auto simp: applyRel_def)
  have led: "led r' (tm r' j) = Some j" using nodeRelD(6) [OF nr assms(6)] .
  have L: "lg r' j = ll r' (tm r' j)" using rinvD(1) [OF inv led] by (simp add: lead_ok_def)
  have tk: "take (nat ?k) (lg r' j) = take (nat ?k) P"
    using repl.comm_ruled [OF inv P(2) _ order_refl] led L by (simp add: ruled_def)
  note rL = nodeRelD(2) [OF nr]
  have len: "nat ?k \<le> length (lg r' j)" using take_eq_length [OF tk repl.comm_len [OF inv P(2)]] .
  have "lg r' j ! nat (?k - 1) = P ! nat (?k - 1)"
    using tk P(1) by (metis diff_less_eq nat_mono_iff nth_take zless_add1_eq)
  moreover have k: "?k \<le> tailIndex ?l" using len P(1) repLog_tail [OF rL] by simp
  ultimately have "eCommand (?l ! nat (?k - base ?l)) = amCommand m" if "base ?l < ?k"
    using repLog_nth [OF rL that k] P(3) by simp
  then show ?thesis
    using k GetLogAtIndex_in [OF repLogD(1) [OF rL], of ?k] by (cases "base ?l < ?k") auto
qed

lemma leader_completeness_witness:
  "\<exists>e. GetLogAtIndex (rf_log (cl_node demo11 0)) 1 = Inr (Some e) \<and> eCommand e = Some ''x''"
proof -
  have l: "rf_state (cl_node demo11 0) = Leader" "rf_term (cl_node demo8 0) \<le> rf_term (cl_node demo11 0)"
    "base (rf_log (cl_node demo11 0)) = 0"
    by (simp_all add: run_more_nodes leader7_def leader4_def base_def sentinel_def)
  then show ?thesis
    using leader_completeness [OF demo_commits(2) demo_commits(3), of 0 0 "runMsg ''x''"]
    by (simp add: servers3 run_applied) (simp add: runMsg_def)
qed

text \<open>
  C24. Refinement: a cluster at its start corresponds to the start of the abstract replication
  protocol of \<open>Agreement\<close>, and every step of a reachable cluster that corresponds to a state of the
  protocol, seen through its terms, logs, commit indices and messages, is a sequence of steps of the
  protocol to a corresponding state.
\<close>

theorem cluster_refines_replication:
  shows "(cluster_init n cl \<longrightarrow> crel n rep_start cl) \<and>
    (reachable n cl \<and> crel n r cl \<and> cstep n cl cl' \<longrightarrow>
      (\<exists>r'. (rstep (servers n) (majority n))\<^sup>*\<^sup>* r r' \<and> crel n r' cl'))"
  using init_crel cstep_safe by blast

lemma cluster_refines_replication_witness:
  "\<exists>r r'. crel 3 r demo2 \<and> (rstep (servers 3) (majority 3))\<^sup>*\<^sup>* r r' \<and> crel 3 r' demo3"
proof -
  obtain r where "crel 3 r demo2" using reachable_crel [OF demo_reachable(2)] by blast
  then show ?thesis
    using cluster_refines_replication [of 3 demo2 r demo3] demo_reachable(2) demo_reachable(3) by blast
qed

lemma handleAppendReply_total:
  assumes inv: "rinvs n r" and rel: "nodeRel n r i rf" and wf: "wf_log (rf_log rf)" and ok: "node_ok n i rf"
    and p: "p \<in> servers n" and m: "msgRel n r (AppRep i p args reply)"
  shows "\<exists>rf'. handleAppendReply p args reply rf = Inr rf'"
proof (cases "rf_term rf = aeTerm args \<and> aerTerm reply \<le> rf_term rf \<and> aerSuccess reply \<and> aeEntries args \<noteq> []")
  case True
  let ?T = "aeTerm args"
  obtain prev q where led: "led r ?T = Some i" and app: "appRel n r args prev q" using m True by auto
  have q: "q \<le> length (ll r ?T)" "eIndex (last (aeEntries args)) = int q"
    using app True unfolding appRel_def Let_def by blast+
  have "lg r i = ll r ?T" using rinvD(1) [OF inv led] True nodeRelD(1) [OF rel] by (simp add: lead_ok_def)
  then have "tailIndex (rf_log rf) = int (length (ll r ?T))" using repLog_tail [OF nodeRelD(2) [OF rel]] by simp
  then show ?thesis
    using handleAppendReply_success [OF wf, of p args reply "int q"] True q node_okD [OF ok] p nodeRelD(4,5) [OF rel]
    by (auto simp: servers_def)
next
  case False
  then show ?thesis
    using p node_okD [OF ok] by (auto simp: handleAppendReply_def servers_def at_def put_def)
qed

text \<open>
  C27. No panic: in a reachable cluster every call of \<^verbatim>\<open>AppendEntries\<close> or \<^verbatim>\<open>RequestVote\<close> under way
  and every reply that comes back is handled without a panic by the server it is addressed to, at
  whatever time it arrives, and the loop that applies committed entries always finds them.
\<close>

theorem messages_never_panic:
  assumes "reachable n cl"
  shows "(\<forall>i p args. AppReq i p args \<in># cl_net cl \<longrightarrow>
        (\<exists>rf reply. AppendEntries now args (cl_node cl p) = Inr (rf, reply))) \<and>
     (\<forall>c v vargs. VoteReq c v vargs \<in># cl_net cl \<longrightarrow>
        (\<exists>rf reply. RequestVote now vargs (cl_node cl v) = Inr (rf, reply))) \<and>
     (\<forall>c v vargs vreply. VoteRep c v vargs vreply \<in># cl_net cl \<longrightarrow>
        (\<exists>rf w. handleVoteReply vargs vreply (cl_node cl c) (cl_vote cl c (rvTerm vargs)) = Inr (rf, w))) \<and>
     (\<forall>i p args areply. AppRep i p args areply \<in># cl_net cl \<longrightarrow>
        (\<exists>rf. handleAppendReply p args areply (cl_node cl i) = Inr rf)) \<and>
     (\<forall>i p sargs sreply. SnapRep i p sargs sreply \<in># cl_net cl \<longrightarrow>
        (\<exists>rf. handleInstallReply p sargs sreply (cl_node cl i) = Inr rf)) \<and>
     (\<forall>i \<in> servers n. \<exists>rf msg. DoApply (cl_node cl i) = Inr (rf, msg))"
proof -
  obtain r where r: "crel n r cl" using reachable_crel [OF assms] by blast
  obtain A where A: "cluster_ok n A cl" using reachable_inv [OF assms] unfolding cinv_def by blast
  have app: "\<exists>rf. handleAppendReply p args areply (cl_node cl i) = Inr rf"
    if m: "AppRep i p args areply \<in># cl_net cl" for i p args areply
  proof -
    have ip: "i \<in> servers n" "p \<in> servers n" using cluster_okD(2) [OF A m] by auto
    show ?thesis
      using handleAppendReply_total [OF crelD(1) [OF r] crelD(4) [OF r ip(1)] reachable_wf [OF assms ip(1)]
          reachable_node_ok [OF assms ip(1)] ip(2) crelD(5) [OF r m]] .
  qed
  have snap: "\<exists>rf. handleInstallReply p sargs sreply (cl_node cl i) = Inr rf"
    if m: "SnapRep i p sargs sreply \<in># cl_net cl" for i p sargs sreply
  proof -
    have "i \<in> servers n" "p \<in> servers n" using cluster_okD(2) [OF A m] by auto
    then show ?thesis
      using node_okD(5) [OF reachable_node_ok [OF assms]] by (auto simp: handleInstallReply_def servers_def put_def)
  qed
  have appl: "\<exists>rf msg. DoApply (cl_node cl i) = Inr (rf, msg)" if i: "i \<in> servers n" for i
  proof -
    note nr = crelD(4) [OF r i]
    have "comm (majority n) r (cm r i) (lg r i) (tm r i)" using rinvD(2) [OF crelD(1) [OF r] i] by (simp add: slog_ok_def)
    then have "rf_commitIndex (cl_node cl i) \<le> tailIndex (rf_log (cl_node cl i))"
      using repl.comm_len [OF crelD(1) [OF r]] nodeRelD(3) [OF nr] repLog_tail [OF nodeRelD(2) [OF nr]] by simp
    then show ?thesis
      using DoApply_next [OF reachable_wf [OF assms i] nodeRelD(4) [OF nr]] DoApply_idle [of "cl_node cl i"]
      by (cases "rf_lastApplied (cl_node cl i) < rf_commitIndex (cl_node cl i)") auto
  qed
  show ?thesis
    using calls_never_panic [OF assms, of now] by (elim conjE, intro conjI) (assumption | use app snap appl in auto)+
qed

lemma messages_never_panic_witness:
  "(\<exists>rf reply. RequestVote 3 runVote (cl_node demo1 2) = Inr (rf, reply)) \<and>
   (\<exists>rf. handleAppendReply 1 (runAppend ''x'') runOk (cl_node demo6 0) = Inr rf)"
proof
  have "VoteReq 0 2 runVote \<in># cl_net demo1" by (simp add: run1_def servers3)
  then show "\<exists>rf reply. RequestVote 3 runVote (cl_node demo1 2) = Inr (rf, reply)"
    using messages_never_panic [OF demo_reachable(1), of 3] by blast
  have "AppRep 0 1 (runAppend ''x'') runOk \<in># cl_net demo6" by (simp add: run6_def)
  then show "\<exists>rf. handleAppendReply 1 (runAppend ''x'') runOk (cl_node demo6 0) = Inr rf"
    using messages_never_panic [OF demo_commits(1), of 3] by blast
qed

end
