(* ===== verification/Raft_Service.thy ===== *)
theory Raft_Service
  imports Raft_Safety
begin

text \<open>
  Raft as its service sees it. A step of a cluster either is Raft's own, and then it leaves alone
  what the service relies on (how far commands were handed out, where the log starts and the
  snapshot in stable storage), or it is one of the four dealings of a service with its server:
  a command is handed out, a snapshot is taken, a received snapshot is installed, the server is
  restarted. The data of a snapshot call always is the snapshot of some server at the index where
  its log starts.
\<close>

section \<open>What the service relies on\<close>

definition keeps :: "('c, 's) Raft \<Rightarrow> ('c, 's) Raft \<Rightarrow> bool" where
  "keeps rf rf' \<longleftrightarrow> rf_lastApplied rf' = rf_lastApplied rf \<and> base (rf_log rf') = base (rf_log rf) \<and>
     ReadSnapshot (rf_persister rf') = ReadSnapshot (rf_persister rf)"

definition quietStep :: "nat \<Rightarrow> ('c, 's) cluster \<Rightarrow> ('c, 's) cluster \<Rightarrow> bool" where
  "quietStep n cl cl' \<longleftrightarrow> cstep n cl cl' \<and> cl_applied cl' = cl_applied cl \<and>
     (\<forall>i \<in> servers n. keeps (cl_node cl i) (cl_node cl' i))"

lemma keepsD:
  assumes "keeps rf rf'"
  shows "rf_lastApplied rf' = rf_lastApplied rf" "base (rf_log rf') = base (rf_log rf)"
    "ReadSnapshot (rf_persister rf') = ReadSnapshot (rf_persister rf)"
  using assms by (simp_all add: keeps_def)

lemma keeps_refl [simp]: "keeps rf rf"
  by (simp add: keeps_def)

lemmas keeps_simps = keeps_def persist_def resetTerm_def becomeFollower_def becomeCandidate_def becomeLeader_def
  ps.storage_simps Let_def

lemma DoElection_keeps: "DoElection now r rf = Inr (rf', x) \<Longrightarrow> keeps rf rf'"
  by (auto simp: DoElection_def keeps_simps elim!: rbind_InrE split: if_splits)

lemma RequestVote_keeps: "RequestVote now args rf = Inr (rf', reply) \<Longrightarrow> keeps rf rf'"
  by (auto simp: RequestVote_def keeps_simps elim!: rbind_InrE split: if_splits)

lemma handleVoteReply_keeps: "handleVoteReply args reply rf w = Inr (rf', w') \<Longrightarrow> keeps rf rf'"
  by (auto simp: handleVoteReply_def winElection_def keeps_simps elim!: rbind_InrE split: if_splits)

lemma InstallSnapshot_keeps: "InstallSnapshot now args rf = (rf', x) \<Longrightarrow> keeps rf rf'"
  by (auto simp: InstallSnapshot_def followSender_def keeps_simps split: if_splits)

lemma handleInstallReply_keeps: "handleInstallReply p args reply rf = Inr rf' \<Longrightarrow> keeps rf rf'"
  by (auto simp: handleInstallReply_def keeps_simps elim!: rbind_InrE split: if_splits)

lemma handleAppendReply_keeps: "handleAppendReply p args reply rf = Inr rf' \<Longrightarrow> keeps rf rf'"
  by (auto simp: handleAppendReply_def keeps_simps elim!: rbind_InrE split: if_splits)

lemma Start_keeps: "Start cmd rf = Inr (rf', x) \<Longrightarrow> rf_log rf \<noteq> [] \<Longrightarrow> keeps rf rf'"
  by (auto simp: Start_def keeps_simps base_def elim!: rbind_InrE split: if_splits)

lemma AppendEntries_snapshot:
  "AppendEntries now args rf = Inr (rf', reply) \<Longrightarrow>
   ReadSnapshot (rf_persister rf') = ReadSnapshot (rf_persister rf)"
  by (auto simp: AppendEntries_def followSender_def keeps_simps elim!: rbind_InrE split: if_splits option.splits)

lemma AppendEntries_keeps:
  assumes "AppendEntries now args rf = Inr (rf', reply)" "log_ok rf" "call_ok (AppReq i p args)"
  shows "keeps rf rf'"
proof -
  have "base (rf_log rf') = base (rf_log rf)"
    using AppendEntries_total [of rf args now] assms log_okD [OF assms(2)] by auto
  then show ?thesis
    using AppendEntries_lastApplied [OF assms(1)] AppendEntries_snapshot [OF assms(1)] by (simp add: keeps_def)
qed

lemma Replicate_sends_snapshot:
  "Replicate p rf = Inr (Some (CallInstallSnapshot args)) \<Longrightarrow>
   isLastIncludedIndex args = base (rf_log rf) \<and> isData args = ReadSnapshot (rf_persister rf)"
  by (auto simp: Replicate_def base_def at_Inr_iff hd_conv_nth elim!: rbind_InrE split: if_splits)

section \<open>The steps of a cluster, seen from its services\<close>

lemma quietI:
  assumes "cstep n cl cl'" "cl_applied cl' = cl_applied cl" "keeps (cl_node cl i) rf"
    and "cl_node cl' = (cl_node cl)(i := rf)"
  shows "quietStep n cl cl'"
  using assms by (simp add: quietStep_def)

lemma quiet_same:
  assumes "cstep n cl cl'" "cl_applied cl' = cl_applied cl" "cl_node cl' = cl_node cl"
  shows "quietStep n cl cl'"
  using assms by (simp add: quietStep_def)

lemma cstep_kinds:
  assumes "cstep n cl cl'" "reachable n cl"
  shows "quietStep n cl cl' \<or>
    (\<exists>i \<in> servers n. \<exists>rf m. DoApply (cl_node cl i) = Inr (rf, Some m) \<and>
       cl' = setNode i rf (cl\<lparr>cl_applied := (cl_applied cl)(i := cl_applied cl i @ [m])\<rparr>)) \<or>
    (\<exists>i \<in> servers n. \<exists>rf snap. \<exists>m \<in> set (cl_applied cl i).
       Snapshot (amCommandIndex m) snap (cl_node cl i) = Inr rf \<and> cl' = setNode i rf cl) \<or>
    (\<exists>i \<in> servers n. \<exists>rf b. \<exists>m \<in># cl_pend cl i.
       CondInstallSnapshot (amSnapshotTerm m) (amSnapshotIndex m) (amSnapshot m) (cl_node cl i) = Inr (rf, b) \<and>
       cl' = setNode i rf (cl\<lparr>cl_pend := (cl_pend cl)(i := cl_pend cl i - {#m#})\<rparr>)) \<or>
    (\<exists>i \<in> servers n. \<exists>rf r. Make n i (Copy (rf_persister (cl_node cl i))) r = Inr rf \<and>
       cl' = setNode i rf (setNet (filter_mset (\<lambda>m. \<not> replyTo i m) (cl_net cl))
         (cl\<lparr>cl_pend := (cl_pend cl)(i := {#}), cl_applied := (cl_applied cl)(i := [])\<rparr>)))"
proof -
  obtain A where A: "cluster_ok n A cl" using reachable_inv [OF assms(2)] unfolding cinv_def by blast
  note logs = reachable_logs_ok [OF assms(2)]
  from assms(1) show ?thesis
  proof (cases rule: cstep.cases)
    case (elect i now x rf args)
    then show ?thesis by (intro disjI1 quietI [OF assms(1), of i rf]) (auto dest: DoElection_keeps)
  next
    case (recvVote c v args now rf reply)
    then show ?thesis by (intro disjI1 quietI [OF assms(1), of v rf]) (auto dest: RequestVote_keeps)
  next
    case (voteReply c v args reply rf w)
    then show ?thesis by (intro disjI1 quietI [OF assms(1), of c rf]) (auto dest: handleVoteReply_keeps)
  next
    case (sendAppend i p aargs)
    then show ?thesis by (intro disjI1 quiet_same [OF assms(1)]) auto
  next
    case (recvAppend i p aargs now rf areply)
    have "p \<in> servers n" using cluster_okD(2) [OF A recvAppend(2)] by simp
    then have "keeps (cl_node cl p) rf"
      using AppendEntries_keeps [OF recvAppend(3) logs_okD(1) [OF logs] logs_okD(2) [OF logs recvAppend(2)]] by blast
    then show ?thesis using recvAppend by (intro disjI1 quietI [OF assms(1), of p rf]) auto
  next
    case (appendReply i p aargs areply rf)
    then show ?thesis by (intro disjI1 quietI [OF assms(1), of i rf]) (auto dest: handleAppendReply_keeps)
  next
    case (sendSnap i p sargs)
    then show ?thesis by (intro disjI1 quiet_same [OF assms(1)]) auto
  next
    case (recvSnap i p sargs now rf sreply msg)
    then show ?thesis by (intro disjI1 quietI [OF assms(1), of p rf]) (auto dest: InstallSnapshot_keeps)
  next
    case (snapReply i p sargs sreply rf)
    then show ?thesis by (intro disjI1 quietI [OF assms(1), of i rf]) (auto dest: handleInstallReply_keeps)
  next
    case (startCmd i cmd rf x)
    then show ?thesis using reachable_wf [OF assms(2), of i]
      by (intro disjI1 quietI [OF assms(1), of i rf]) (auto dest: Start_keeps)
  next
    case (loseMsgs net)
    then show ?thesis by (intro disjI1 quiet_same [OF assms(1)]) auto
  qed blast+
qed

text \<open>Where snapshots come from.\<close>

lemma snapshot_calls:
  assumes "cstep n cl cl'" "SnapReq i p args \<in># cl_net cl'"
  shows "SnapReq i p args \<in># cl_net cl \<or> i \<in> servers n \<and>
    isLastIncludedIndex args = base (rf_log (cl_node cl i)) \<and>
    isData args = ReadSnapshot (rf_persister (cl_node cl i))"
  using assms
  by (cases rule: cstep.cases)
    (auto dest!: in_diffD dest: Replicate_sends_snapshot mset_subset_eqD split: if_splits)

lemma snapshot_messages:
  assumes "cstep n cl cl'" "m \<in># cl_pend cl' p"
  shows "m \<in># cl_pend cl p \<or> (\<exists>i args. SnapReq i p args \<in># cl_net cl \<and> \<not> amCommandValid m \<and>
    amSnapshotIndex m = isLastIncludedIndex args \<and> amSnapshot m = isData args)"
  using assms
  by (cases rule: cstep.cases)
    ((auto simp: InstallSnapshot_def Let_def dest!: in_diffD split: if_splits)[1], blast?)+

end
