(* ===== verification/Service.thy ===== *)
theory Service
  imports Raft_Handlers
begin

text \<open>
  What the two services built on Raft (the key/value store and the shard controller) share: a
  state machine fed with the commands of the log, a snapshot of its state, and the table of the
  last request of each client by which repeated commands are recognised.
\<close>

section \<open>Requests and their copies\<close>

text \<open>
  \<open>client op\<close> is the client of a command that changes the state, \<open>None\<close> for a read; \<open>same\<close> says
  that two commands are copies of one request. A list of commands is serial if no client's
  request comes between two copies of another request of that client: clients wait for the
  answer to a request before they make the next. \<open>firsts\<close> keeps the first copy of each request.
\<close>

definition isCopy :: "('op \<Rightarrow> 'cid option) \<Rightarrow> ('op \<Rightarrow> 'op \<Rightarrow> bool) \<Rightarrow> 'op \<Rightarrow> 'op \<Rightarrow> bool" where
  "isCopy client same p q \<longleftrightarrow> client p \<noteq> None \<and> client p = client q \<and> same p q"

fun serial :: "('op \<Rightarrow> 'cid option) \<Rightarrow> ('op \<Rightarrow> 'op \<Rightarrow> bool) \<Rightarrow> 'op list \<Rightarrow> bool" where
  "serial client same [] = True"
| "serial client same (p # ops) =
     ((client p = None \<or>
       list_all (\<lambda>q. \<not> same p q) (dropWhile (same p) (filter (\<lambda>q. client q = client p) ops))) \<and>
      serial client same ops)"

fun firsts :: "('op \<Rightarrow> 'cid option) \<Rightarrow> ('op \<Rightarrow> 'op \<Rightarrow> bool) \<Rightarrow> 'op list \<Rightarrow> 'op list \<Rightarrow> 'op list" where
  "firsts client same seen [] = []"
| "firsts client same seen (p # ops) =
     (if list_ex (\<lambda>q. isCopy client same q p) seen then [] else [p]) @
     firsts client same (p # seen) ops"

definition lastOf :: "('op \<Rightarrow> 'cid option) \<Rightarrow> 'cid \<Rightarrow> 'op list \<Rightarrow> 'op option" where
  "lastOf client c ops =
     (case filter (\<lambda>q. client q = Some c) ops of [] \<Rightarrow> None | qs \<Rightarrow> Some (last qs))"

lemma firsts_snoc:
  "firsts client same seen (ops @ [q]) = firsts client same seen ops @
     (if \<exists>p \<in> set seen \<union> set ops. isCopy client same p q then [] else [q])"
  by (induction ops arbitrary: seen) (auto simp: list_ex_iff)

lemma serial_snocD: "serial client same (ops @ [q]) \<Longrightarrow> serial client same ops"
proof (induction ops)
  case (Cons p ops)
  have "list_all P (dropWhile Q (xs @ [x])) \<Longrightarrow> list_all P (dropWhile Q xs)" for P Q and xs :: "'a list" and x
    by (induction xs) auto
  with Cons show ?case by (auto split: if_splits)
qed simp

lemma lastOf_snoc:
  "lastOf client c (ops @ [q]) = (if client q = Some c then Some q else lastOf client c ops)"
  by (cases "filter (\<lambda>q. client q = Some c) ops") (auto simp: lastOf_def)

lemma lastOf_client: "lastOf client c ops = Some r \<Longrightarrow> client r = Some c \<and> r \<in> set ops"
  using last_in_set [of "filter (\<lambda>q. client q = Some c) ops"]
  by (auto simp: lastOf_def split: list.splits)

lemma lastOf_Cons:
  "lastOf client c (p # ops) =
     (case lastOf client c ops of None \<Rightarrow> if client p = Some c then Some p else None | Some r \<Rightarrow> Some r)"
  by (auto simp: lastOf_def split: list.split)

text \<open>The messages Raft sends for a list of commands, the first at index \<open>i\<close>.\<close>

definition commandMsgs :: "'c list \<Rightarrow> int \<Rightarrow> ('c, 's) ApplyMsg list" where
  "commandMsgs ops i = map (\<lambda>(k, op).
     \<lparr>amCommandValid = True, amCommand = Some op, amCommandIndex = i + int k, amSnapshotValid = False,
      amSnapshot = [], amSnapshotTerm = 0, amSnapshotIndex = 0\<rparr>) (enumerate 0 ops)"

lemma commandMsgs_Cons:
  "commandMsgs (op # ops) i = \<lparr>amCommandValid = True, amCommand = Some op, amCommandIndex = i,
     amSnapshotValid = False, amSnapshot = [], amSnapshotTerm = 0, amSnapshotIndex = 0\<rparr>
   # commandMsgs ops (i + 1)"
  by (simp add: commandMsgs_def enumerate_Suc_eq case_prod_beta comp_def algebra_simps)

lemma commandMsgs_Nil [simp]: "commandMsgs [] i = []"
  by (simp add: commandMsgs_def)

section \<open>Snapshots\<close>

locale snapshot_service =
  fixes step :: "'op \<Rightarrow> 's \<Rightarrow> 's" and save :: "'s \<Rightarrow> 'g" and load :: "'g \<Rightarrow> 's"
  assumes load_save: "load (save s) = s"
begin

lemma resume: "fold step (xs @ ys) s = fold step ys (load (save (fold step xs s)))"
  by (simp add: load_save)

lemma replicas_agree:
  assumes "s1 = load (save (fold step xs s))" "s2 = fold step xs s"
  shows "fold step ys s1 = fold step ys s2"
  using assms by (simp add: load_save)

end

section \<open>Exactly once\<close>

text \<open>
  The contract of a service with a table of last requests: a read changes neither the state
  nor the table, a copy of the client's last request changes nothing, any other request is
  executed and recorded. \<open>stuck\<close> states are those after which the service does nothing more;
  the contract is for \<open>valid\<close> commands.
\<close>

locale dedup_service =
  fixes step :: "'op \<Rightarrow> 'st \<Rightarrow> 'st" and app :: "'st \<Rightarrow> 's" and lastReq :: "'st \<Rightarrow> 'cid \<Rightarrow> 'op option"
    and exec :: "'op \<Rightarrow> 's \<Rightarrow> 's" and client :: "'op \<Rightarrow> 'cid option" and same :: "'op \<Rightarrow> 'op \<Rightarrow> bool"
    and stuck :: "'s \<Rightarrow> bool" and valid :: "'op \<Rightarrow> bool"
  assumes same_refl: "client p \<noteq> None \<Longrightarrow> same p p"
    and same_sym: "same p q \<Longrightarrow> same q p"
    and same_trans: "same p q \<Longrightarrow> same q r \<Longrightarrow> same p r"
    and stuck_step: "stuck (app st) \<Longrightarrow> app (step op st) = app st"
    and stuck_exec: "stuck s \<Longrightarrow> exec op s = s"
    and read_exec: "client op = None \<Longrightarrow> exec op s = s"
    and read_step: "client op = None \<Longrightarrow> valid op \<Longrightarrow> \<not> stuck (app st) \<Longrightarrow>
      app (step op st) = app st \<and> lastReq (step op st) = lastReq st"
    and copy_step: "client op = Some c \<Longrightarrow> valid op \<Longrightarrow> \<not> stuck (app st) \<Longrightarrow> lastReq st c = Some p \<Longrightarrow>
      same p op \<Longrightarrow> app (step op st) = app st \<and> lastReq (step op st) = lastReq st"
    and new_step: "client op = Some c \<Longrightarrow> valid op \<Longrightarrow> \<not> stuck (app st) \<Longrightarrow>
      (\<And>p. lastReq st c = Some p \<Longrightarrow> \<not> same p op) \<Longrightarrow>
      app (step op st) = exec op (app st) \<and>
      (\<not> stuck (app (step op st)) \<longrightarrow> lastReq (step op st) = (lastReq st)(c \<mapsto> op))"
begin

lemma stuck_run: "stuck (app st) \<Longrightarrow> app (fold step ops st) = app st"
  by (induction ops arbitrary: st) (simp_all add: stuck_step)

lemma stuck_exec_run: "stuck s \<Longrightarrow> fold exec ops s = s"
  by (induction ops) (simp_all add: stuck_exec)

text \<open>A copy of an earlier request is a copy of the client's last one, in a serial run.\<close>

lemma serial_copy_last:
  assumes "serial client same (ops @ [q])" "x \<in> set ops" "isCopy client same x q" "client q = Some c"
  shows "\<exists>r. lastOf client c ops = Some r \<and> same r q"
  using assms
proof (induction ops)
  case (Cons p ops)
  show ?case
  proof (cases "x \<in> set ops")
    case True
    then obtain r where "lastOf client c ops = Some r \<and> same r q" using Cons by auto
    then show ?thesis by (simp add: lastOf_Cons)
  next
    case False
    then have p: "client p = Some c" "same p q" using Cons.prems(2-4) by (auto simp: isCopy_def)
    let ?qs = "filter (\<lambda>q. client q = Some c) ops"
    have d: "list_all (\<lambda>q. \<not> same p q) (dropWhile (same p) (?qs @ [q]))"
      using Cons.prems(1,4) p(1) by simp
    have all: "\<forall>r \<in> set ?qs. same p r"
    proof (rule ccontr)
      assume "\<not> (\<forall>r \<in> set ?qs. same p r)"
      then have "dropWhile (same p) (?qs @ [q]) = dropWhile (same p) ?qs @ [q]" by auto
      with d p(2) show False by simp
    qed
    show ?thesis
    proof (cases "lastOf client c ops")
      case None
      then show ?thesis using p by (simp add: lastOf_Cons)
    next
      case (Some r)
      then have "same p r" using all lastOf_client [OF Some] by auto
      then have "same r q" using p(2) same_sym same_trans by blast
      then show ?thesis using Some by (simp add: lastOf_Cons)
    qed
  qed
qed simp

text \<open>The table holds, for every client, a copy of its last request.\<close>

definition tracks :: "'op list \<Rightarrow> 'st \<Rightarrow> bool" where
  "tracks ops st \<longleftrightarrow> (\<forall>c. rel_option (\<lambda>p r. client p = Some c \<and> same p r) (lastReq st c) (lastOf client c ops))"

lemma tracks_step:
  assumes "tracks ops st" "\<not> stuck (app st)" "serial client same (ops @ [q])" "valid q"
  shows "app (step q st) =
      (if \<exists>p \<in> set ops. isCopy client same p q then app st else exec q (app st)) \<and>
    (\<not> stuck (app (step q st)) \<longrightarrow> tracks (ops @ [q]) (step q st))"
proof (cases "client q")
  case None
  then have "\<not> isCopy client same p q" for p by (auto simp: isCopy_def)
  with None read_step [OF None assms(4,2)] assms(1) show ?thesis
    by (simp add: read_exec tracks_def lastOf_snoc)
next
  case (Some c)
  have rel: "rel_option (\<lambda>p r. client p = Some c \<and> same p r) (lastReq st c) (lastOf client c ops)"
    using assms(1) by (simp add: tracks_def)
  show ?thesis
  proof (cases "\<exists>p \<in> set ops. isCopy client same p q")
    case True
    then obtain r where r: "lastOf client c ops = Some r" "same r q"
      using serial_copy_last [OF assms(3) _ _ Some] by blast
    with rel obtain p where p: "lastReq st c = Some p" "client p = Some c" "same p r"
      by (auto simp: option_rel_Some2)
    then have pq: "same p q" using same_trans r(2) by blast
    from copy_step [OF Some assms(4,2) p(1) pq] assms(1) p(1,2) pq Some True show ?thesis
      by (auto simp: tracks_def lastOf_snoc)
  next
    case False
    have "\<not> same p q" if "lastReq st c = Some p" for p
    proof
      assume "same p q"
      from that rel obtain r where r: "lastOf client c ops = Some r" "same p r"
        by (auto simp: option_rel_Some1)
      then have "same r q" using \<open>same p q\<close> same_sym same_trans by blast
      with False lastOf_client [OF r(1)] Some show False by (auto simp: isCopy_def)
    qed
    from new_step [OF Some assms(4,2) this] assms(1) False Some same_refl [of q] show ?thesis
      by (auto simp: tracks_def lastOf_snoc)
  qed
qed

theorem exactly_once_run:
  assumes "\<And>c. lastReq st c = None" "serial client same ops" "list_all valid ops"
  shows "app (fold step ops st) = fold exec (firsts client same [] ops) (app st) \<and>
    (\<not> stuck (app (fold step ops st)) \<longrightarrow> tracks ops (fold step ops st))"
  using assms(2,3)
proof (induction ops rule: rev_induct)
  case Nil
  then show ?case using assms(1) by (simp add: tracks_def lastOf_def)
next
  case (snoc q ops)
  have v: "list_all valid ops" "valid q" using snoc.prems(2) by auto
  note IH = snoc.IH [OF serial_snocD [OF snoc.prems(1)] v(1)]
  show ?case
  proof (cases "stuck (app (fold step ops st))")
    case True
    then show ?thesis using IH by (simp add: stuck_step stuck_exec firsts_snoc)
  next
    case False
    then show ?thesis using tracks_step [OF _ False snoc.prems(1) v(2)] IH by (simp add: firsts_snoc)
  qed
qed

end

end
