(* ===== verification/KV_Server.thy ===== *)
theory KV_Server
  imports Service Raft_Apply
begin

text \<open>
  The replicated key/value server, \<^verbatim>\<open>db_files/raft-db/common.go\<close> and \<^verbatim>\<open>server.go\<close>. The
  goroutine \<^verbatim>\<open>DoApply\<close> is the only one that touches the store, the table of last requests and
  \<^verbatim>\<open>lastApplied\<close>; it handles one message at a time, so one round of its loop is one function on
  the server's record. The handlers \<^verbatim>\<open>Get\<close> and \<^verbatim>\<open>PutAppend\<close> are split where they wait. A
  channel made by a handler is a number; what was sent on it is a list of the record.
\<close>

section \<open>Data\<close>

type_synonym Err = string

definition OK :: Err where "OK = ''OK''"
definition ErrNoKey :: Err where "ErrNoKey = ''ErrNoKey''"
definition ErrWrongLeader :: Err where "ErrWrongLeader = ''ErrWrongLeader''"
definition ErrTimeout :: Err where "ErrTimeout = ''ErrTimeout''"

datatype PutOrAppend = PutOp | AppendOp

record PutAppendArgs =
  paType :: PutOrAppend
  paKey :: string
  paValue :: string
  paClientId :: "32 word"
  paRequestId :: "64 word"

record PutAppendReply =
  parErr :: Err

record GetArgs =
  gaKey :: string

record GetReply =
  grErr :: Err
  grValue :: string

text \<open>The commands the server hands to Raft, and the values of a snapshot.\<close>

datatype kv_op = OpGet GetArgs | OpPutAppend PutAppendArgs

datatype kv_item = GDedup "32 word \<rightharpoonup> kv_op" | GKv "string \<rightharpoonup> string"

fun asDedup :: "kv_item \<Rightarrow> (32 word \<rightharpoonup> kv_op) option" where
  "asDedup (GDedup d) = Some d"
| "asDedup (GKv m) = None"

fun asKv :: "kv_item \<Rightarrow> (string \<rightharpoonup> string) option" where
  "asKv (GKv m) = Some m"
| "asKv (GDedup d) = None"

type_synonym kv_msg = "(kv_op, kv_item) ApplyMsg"

record KVServer =
  kv_mu :: bool                               \<comment> \<open>\<^verbatim>\<open>kv.mu\<close> is held and never released\<close>
  kv_me :: int
  kv_rf :: "(kv_op, kv_item) Raft"
  kv_dead :: bool
  kv_maxraftstate :: int
  kv_serversLen :: nat
  kv_kv :: "string \<rightharpoonup> string"
  kv_dedup :: "32 word \<rightharpoonup> kv_op"
  kv_get :: "int \<rightharpoonup> nat"
  kv_done :: "int \<rightharpoonup> nat"
  kv_lastApplied :: int
  kv_chans :: nat                             \<comment> \<open>channels made so far\<close>
  kv_sent :: "(nat \<times> string) list"           \<comment> \<open>channel and value of every send\<close>

section \<open>Snapshots\<close>

definition readSnapshot :: "kv_item gob \<Rightarrow> KVServer \<Rightarrow> KVServer" where
  "readSnapshot snapshot kv =
     (let (r1, d1) = Decode asDedup snapshot;
          dedup = (case r1 of Inl e \<Rightarrow> Map.empty | Inr d \<Rightarrow> d);
          (r2, d2) = Decode asKv d1;
          kvmap = (case r2 of Inl e \<Rightarrow> Map.empty | Inr m \<Rightarrow> m)
      in kv\<lparr>kv_dedup := dedup, kv_kv := kvmap\<rparr>)"

definition encodeSnapshot :: "KVServer \<Rightarrow> kv_item gob" where
  "encodeSnapshot kv = Encode (Encode [] (GDedup (kv_dedup kv))) (GKv (kv_kv kv))"

section \<open>Applying a command\<close>

text \<open>A missing key reads as the empty string.\<close>

definition valueAt :: "(string \<rightharpoonup> string) \<Rightarrow> string \<Rightarrow> string" where
  "valueAt m k = (case m k of None \<Rightarrow> '''' | Some s \<Rightarrow> s)"

definition isDuplicate :: "(32 word \<rightharpoonup> kv_op) \<Rightarrow> PutAppendArgs \<Rightarrow> bool" where
  "isDuplicate dedup args =
     (case dedup (paClientId args) of
        Some (OpPutAppend putDup) \<Rightarrow> paRequestId putDup = paRequestId args
      | _ \<Rightarrow> False)"

text \<open>The switch of \<^verbatim>\<open>apply\<close> on the type of the command.\<close>

definition applyCommand :: "int \<Rightarrow> kv_op option \<Rightarrow> KVServer \<Rightarrow> KVServer" where
  "applyCommand index command kv =
     (case command of
        Some (OpGet args) \<Rightarrow> kv\<lparr>kv_lastApplied := index\<rparr>
      | Some (OpPutAppend args) \<Rightarrow>
          if isDuplicate (kv_dedup kv) args then kv
          else
            let value = (case paType args of
                           PutOp \<Rightarrow> paValue args
                         | AppendOp \<Rightarrow> valueAt (kv_kv kv) (paKey args) @ paValue args)
            in kv\<lparr>kv_kv := (kv_kv kv)(paKey args \<mapsto> value),
                  kv_dedup := (kv_dedup kv)(paClientId args \<mapsto> OpPutAppend args),
                  kv_lastApplied := index\<rparr>
      | None \<Rightarrow> kv)"

text \<open>\<open>bytelen\<close> is the length in bytes of an encoded Raft state.\<close>

definition kvApply :: "(kv_op raft_item gob \<Rightarrow> int) \<Rightarrow> kv_msg \<Rightarrow> KVServer \<Rightarrow> KVServer res" where
  "kvApply bytelen v kv =
     (if amCommandIndex v \<le> kv_lastApplied kv then Inr kv
      else
        let kv1 = applyCommand (amCommandIndex v) (amCommand v) kv
        in if GetStateSize bytelen (kv_rf kv1) \<ge> kv_maxraftstate kv1 \<and> kv_maxraftstate kv1 \<noteq> -1 then
             rbind (Snapshot (amCommandIndex v) (encodeSnapshot kv1) (kv_rf kv1)) (\<lambda>rf'.
               Inr (kv1\<lparr>kv_rf := rf'\<rparr>))
           else Inr kv1)"

text \<open>A send on the channel found in a map; on the nil channel of a missing entry the sending
  goroutine blocks forever.\<close>

definition kvSend :: "nat option \<Rightarrow> string \<Rightarrow> KVServer \<Rightarrow> KVServer" where
  "kvSend ch v kv = (case ch of None \<Rightarrow> kv | Some c \<Rightarrow> kv\<lparr>kv_sent := kv_sent kv @ [(c, v)]\<rparr>)"

text \<open>
  One round of the loop of \<^verbatim>\<open>DoApply\<close>. A command of neither type leaves \<^verbatim>\<open>kv.mu\<close> locked on
  a leader.
\<close>

definition kvDoApply :: "(kv_op raft_item gob \<Rightarrow> int) \<Rightarrow> kv_msg \<Rightarrow> KVServer \<Rightarrow> KVServer res" where
  "kvDoApply bytelen v kv =
     (if kv_dead kv then Inr kv
      else if amCommandValid v then
        rbind (kvApply bytelen v kv) (\<lambda>kv1.
          if \<not> snd (GetState (kv_rf kv1)) then Inr kv1
          else Inr (case amCommand v of
                 Some (OpGet args) \<Rightarrow>
                   kvSend (kv_get kv1 (amCommandIndex v)) (valueAt (kv_kv kv1) (gaKey args)) kv1
               | Some (OpPutAppend args) \<Rightarrow> kvSend (kv_done kv1 (amCommandIndex v)) '''' kv1
               | None \<Rightarrow> kv1\<lparr>kv_mu := True\<rparr>))
      else
        rbind (CondInstallSnapshot (amSnapshotTerm v) (amSnapshotIndex v) (amSnapshot v) (kv_rf kv))
          (\<lambda>(rf', b).
            let kv1 = kv\<lparr>kv_rf := rf'\<rparr>
            in Inr (if b then readSnapshot (amSnapshot v) (kv1\<lparr>kv_lastApplied := amSnapshotIndex v\<rparr>)
                    else kv1)))"

text \<open>The loop of \<^verbatim>\<open>DoApply\<close> over the messages that arrive.\<close>

fun kvDoApplyLoop :: "(kv_op raft_item gob \<Rightarrow> int) \<Rightarrow> kv_msg list \<Rightarrow> KVServer \<Rightarrow> KVServer res" where
  "kvDoApplyLoop bytelen [] kv = Inr kv"
| "kvDoApplyLoop bytelen (v # vs) kv =
     (if kv_dead kv then Inr kv
      else rbind (kvDoApply bytelen v kv) (kvDoApplyLoop bytelen vs))"

section \<open>Handlers\<close>

text \<open>
  The first part of \<^verbatim>\<open>Get\<close> and \<^verbatim>\<open>PutAppend\<close>: the check of the role and \<^verbatim>\<open>Start\<close> up to its
  broadcast. \<open>None\<close> is the reply \<^verbatim>\<open>ErrWrongLeader\<close>.
\<close>

definition kvStart :: "kv_op \<Rightarrow> KVServer \<Rightarrow> (KVServer \<times> int option) res" where
  "kvStart op kv =
     (if \<not> snd (GetState (kv_rf kv)) then Inr (kv, None)
      else rbind (Start op (kv_rf kv)) (\<lambda>(rf', r). Inr (kv\<lparr>kv_rf := rf'\<rparr>, r)))"

text \<open>The results \<^verbatim>\<open>Start\<close> then returns: whether the handler goes on to wait, and where.\<close>

definition kvStarted :: "int option \<Rightarrow> KVServer \<Rightarrow> int option" where
  "kvStarted r kv =
     (let (i, t, isLeader) = StartResult r (kv_rf kv) in if isLeader then Some i else None)"

text \<open>The registration of a fresh channel, and the two ends of the wait.\<close>

definition registerGet :: "int \<Rightarrow> KVServer \<Rightarrow> KVServer \<times> nat" where
  "registerGet i kv =
     (kv\<lparr>kv_get := (kv_get kv)(i \<mapsto> kv_chans kv), kv_chans := kv_chans kv + 1\<rparr>, kv_chans kv)"

definition registerPut :: "int \<Rightarrow> KVServer \<Rightarrow> KVServer \<times> nat" where
  "registerPut i kv =
     (kv\<lparr>kv_done := (kv_done kv)(i \<mapsto> kv_chans kv), kv_chans := kv_chans kv + 1\<rparr>, kv_chans kv)"

definition kvReceived :: "nat \<Rightarrow> KVServer \<Rightarrow> string option" where
  "kvReceived ch kv = map_of (kv_sent kv) ch"

definition getReply :: "string option \<Rightarrow> GetReply" where
  "getReply r = (case r of Some v \<Rightarrow> \<lparr>grErr = OK, grValue = v\<rparr>
                         | None \<Rightarrow> \<lparr>grErr = ErrTimeout, grValue = ''''\<rparr>)"

definition putReply :: "string option \<Rightarrow> PutAppendReply" where
  "putReply r = (case r of Some v \<Rightarrow> \<lparr>parErr = OK\<rparr> | None \<Rightarrow> \<lparr>parErr = ErrTimeout\<rparr>)"

definition kvKill :: "KVServer \<Rightarrow> KVServer" where
  "kvKill kv = kv\<lparr>kv_dead := True, kv_rf := Kill (kv_rf kv)\<rparr>"

definition StartKVServer ::
    "nat \<Rightarrow> int \<Rightarrow> (kv_op raft_item, kv_item) Persister \<Rightarrow> int \<Rightarrow> nat \<Rightarrow> KVServer res" where
  "StartKVServer servers m persister maxraftstate r =
     rbind (Make servers m persister r) (\<lambda>rf.
       Inr (readSnapshot (ReadSnapshot persister)
         \<lparr>kv_mu = False, kv_me = m, kv_rf = rf, kv_dead = False, kv_maxraftstate = maxraftstate,
          kv_serversLen = servers, kv_kv = Map.empty, kv_dedup = Map.empty,
          kv_get = Map.empty, kv_done = Map.empty, kv_lastApplied = 0,
          kv_chans = 0, kv_sent = []\<rparr>))"

end
