(* ===== verification/KV_Store.thy ===== *)
theory KV_Store
  imports KV_Server
begin

text \<open>
  The key/value server is correct: it refines a store with a table of last requests, executes
  every request exactly once although Raft may deliver copies of it, and resumes from a snapshot
  with the state it had.
\<close>

section \<open>The abstract store\<close>

type_synonym store = "string \<rightharpoonup> string"

definition exec :: "kv_op \<Rightarrow> store \<Rightarrow> store" where
  "exec op m =
     (case op of
        OpGet a \<Rightarrow> m
      | OpPutAppend a \<Rightarrow> m(paKey a \<mapsto> (case paType a of PutOp \<Rightarrow> paValue a
                                           | AppendOp \<Rightarrow> valueAt m (paKey a) @ paValue a)))"

text \<open>The state a replica computes from the log: the store and the last request of each client.\<close>

definition kvSpec :: "kv_op \<Rightarrow> store \<times> (32 word \<rightharpoonup> kv_op) \<Rightarrow> store \<times> (32 word \<rightharpoonup> kv_op)" where
  "kvSpec op s =
     (case op of
        OpGet a \<Rightarrow> s
      | OpPutAppend a \<Rightarrow> if isDuplicate (snd s) a then s
                         else (exec op (fst s), (snd s)(paClientId a \<mapsto> op)))"

definition kvAbs :: "KVServer \<Rightarrow> store \<times> (32 word \<rightharpoonup> kv_op)" where
  "kvAbs kv = (kv_kv kv, kv_dedup kv)"

definition clientOf :: "kv_op \<Rightarrow> 32 word option" where
  "clientOf op = (case op of OpGet a \<Rightarrow> None | OpPutAppend a \<Rightarrow> Some (paClientId a))"

definition sameRequest :: "kv_op \<Rightarrow> kv_op \<Rightarrow> bool" where
  "sameRequest p q = (case (p, q) of
     (OpPutAppend a, OpPutAppend b) \<Rightarrow> paRequestId a = paRequestId b | _ \<Rightarrow> False)"

lemma sameRequest_simps [simp]:
  "sameRequest (OpPutAppend a) (OpPutAppend b) \<longleftrightarrow> paRequestId a = paRequestId b"
  "\<not> sameRequest (OpGet x) q" "\<not> sameRequest p (OpGet x)"
  by (auto simp: sameRequest_def split: kv_op.split)

lemma clientOf_simps [simp]:
  "clientOf (OpGet g) = None" "clientOf (OpPutAppend a) = Some (paClientId a)"
  by (simp_all add: clientOf_def)

lemma isDuplicate_iff:
  "isDuplicate d a \<longleftrightarrow> (\<exists>p. d (paClientId a) = Some p \<and> sameRequest p (OpPutAppend a))"
  by (auto simp: isDuplicate_def split: option.split kv_op.split)

text \<open>The table of last requests gives the contract of \<open>Service\<close>.\<close>

interpretation kvd: dedup_service kvSpec fst snd exec clientOf sameRequest "\<lambda>_. False" "\<lambda>_. True"
proof
  fix op c st p
  show "clientOf op = Some c \<Longrightarrow> snd st c = Some p \<Longrightarrow> sameRequest p op \<Longrightarrow>
      fst (kvSpec op st) = fst st \<and> snd (kvSpec op st) = snd st"
    by (cases op) (auto simp: kvSpec_def isDuplicate_iff)
  show "fst (kvSpec op st) = exec op (fst st) \<and> (\<not> False \<longrightarrow> snd (kvSpec op st) = (snd st)(c \<mapsto> op))"
    if "clientOf op = Some c" "\<And>p. snd st c = Some p \<Longrightarrow> \<not> sameRequest p op"
    using that by (cases op) (auto simp: kvSpec_def isDuplicate_iff)
qed (auto simp: kvSpec_def exec_def sameRequest_def clientOf_def split: kv_op.splits)

definition saveState :: "store \<times> (32 word \<rightharpoonup> kv_op) \<Rightarrow> kv_item gob" where
  "saveState s = Encode (Encode [] (GDedup (snd s))) (GKv (fst s))"

definition loadState :: "kv_item gob \<Rightarrow> store \<times> (32 word \<rightharpoonup> kv_op)" where
  "loadState g = (let (r1, d1) = Decode asDedup g; (r2, d2) = Decode asKv d1
     in (case r2 of Inl e \<Rightarrow> Map.empty | Inr m \<Rightarrow> m, case r1 of Inl e \<Rightarrow> Map.empty | Inr d \<Rightarrow> d))"

interpretation kvs: snapshot_service kvSpec saveState loadState
  by unfold_locales (simp add: saveState_def loadState_def Encode_def)

lemma encodeSnapshot_save: "encodeSnapshot kv = saveState (kvAbs kv)"
  by (simp add: encodeSnapshot_def saveState_def kvAbs_def)

lemma readSnapshot_load: "kvAbs (readSnapshot g kv) = loadState g"
  by (simp add: readSnapshot_def loadState_def kvAbs_def split: prod.split)

lemma readSnapshot_other [simp]:
  "kv_rf (readSnapshot g kv) = kv_rf kv" "kv_lastApplied (readSnapshot g kv) = kv_lastApplied kv"
  by (simp_all add: readSnapshot_def split: prod.split)

section \<open>Applying refines the specification\<close>

lemma applyCommand_abs: "kvAbs (applyCommand i (Some op) kv) = kvSpec op (kvAbs kv)"
  by (cases op) (auto simp: applyCommand_def kvSpec_def kvAbs_def exec_def Let_def split: PutOrAppend.split)

lemma applyCommand_other [simp]:
  "kv_rf (applyCommand i c kv) = kv_rf kv" "kv_maxraftstate (applyCommand i c kv) = kv_maxraftstate kv"
  "kv_get (applyCommand i c kv) = kv_get kv" "kv_done (applyCommand i c kv) = kv_done kv"
  "kv_sent (applyCommand i c kv) = kv_sent kv" "kv_dead (applyCommand i c kv) = kv_dead kv"
  "kv_mu (applyCommand i c kv) = kv_mu kv"
  by (auto simp: applyCommand_def Let_def split: option.split kv_op.split)

lemma applyCommand_index:
  "kv_lastApplied kv \<le> i \<Longrightarrow> kv_lastApplied (applyCommand i c kv) \<le> i"
  by (auto simp: applyCommand_def Let_def split: option.split kv_op.split)

text \<open>One application: it returns, and its effect on the abstract state.\<close>

lemma kvApply_refines:
  assumes "wf_log (rf_log (kv_rf kv))" "amCommand v = Some op"
  obtains kv' where "kvApply bytelen v kv = Inr kv'" "wf_log (rf_log (kv_rf kv'))"
    "kvAbs kv' = (if amCommandIndex v \<le> kv_lastApplied kv then kvAbs kv else kvSpec op (kvAbs kv))"
    "kv_lastApplied kv' \<le> max (kv_lastApplied kv) (amCommandIndex v)"
    "rf_state (kv_rf kv') = rf_state (kv_rf kv)" "kv_get kv' = kv_get kv" "kv_done kv' = kv_done kv"
    "kv_sent kv' = kv_sent kv" "kv_dead kv' = kv_dead kv" "kv_mu kv' = kv_mu kv"
proof (cases "amCommandIndex v \<le> kv_lastApplied kv")
  case True
  then show thesis using that assms(1) by (simp add: kvApply_def)
next
  case False
  let ?kv1 = "applyCommand (amCommandIndex v) (amCommand v) kv"
  obtain rf' where rf': "Snapshot (amCommandIndex v) (encodeSnapshot ?kv1) (kv_rf kv) = Inr rf'"
    "wf_log (rf_log rf')" "rf_state rf' = rf_state (kv_rf kv)"
    using Snapshot_total [OF assms(1)] by blast
  have la: "kv_lastApplied ?kv1 \<le> amCommandIndex v" using False by (intro applyCommand_index) simp
  have abs: "kvAbs ?kv1 = kvSpec op (kvAbs kv)" using assms(2) applyCommand_abs by simp
  have abs': "kvAbs (?kv1\<lparr>kv_rf := rf'\<rparr>) = kvSpec op (kvAbs kv)" using abs by (simp add: kvAbs_def)
  show thesis
  proof (cases "GetStateSize bytelen (kv_rf kv) \<ge> kv_maxraftstate kv \<and> kv_maxraftstate kv \<noteq> -1")
    case True
    then show thesis
      by (intro that [of "?kv1\<lparr>kv_rf := rf'\<rparr>"]) (use False rf' abs' la in \<open>simp_all add: kvApply_def Let_def\<close>)
  next
    case no: False
    then show thesis
      by (intro that [of ?kv1]) (use False assms(1) abs la in \<open>auto simp: kvApply_def Let_def\<close>)
  qed
qed

lemma kvSend_other [simp]:
  "kvAbs (kvSend ch x kv) = kvAbs kv" "kv_rf (kvSend ch x kv) = kv_rf kv"
  "kv_lastApplied (kvSend ch x kv) = kv_lastApplied kv" "kv_dead (kvSend ch x kv) = kv_dead kv"
  by (simp_all add: kvSend_def kvAbs_def split: option.split)

lemma kvDoApply_refines:
  assumes "wf_log (rf_log (kv_rf kv))" "amCommand v = Some op" "amCommandValid v" "\<not> kv_dead kv"
  obtains kv' where "kvDoApply bytelen v kv = Inr kv'" "wf_log (rf_log (kv_rf kv'))"
    "kvAbs kv' = (if amCommandIndex v \<le> kv_lastApplied kv then kvAbs kv else kvSpec op (kvAbs kv))"
    "kv_lastApplied kv' \<le> max (kv_lastApplied kv) (amCommandIndex v)" "\<not> kv_dead kv'"
proof -
  obtain kv1 where kv1: "kvApply bytelen v kv = Inr kv1" "wf_log (rf_log (kv_rf kv1))"
    "kvAbs kv1 = (if amCommandIndex v \<le> kv_lastApplied kv then kvAbs kv else kvSpec op (kvAbs kv))"
    "kv_lastApplied kv1 \<le> max (kv_lastApplied kv) (amCommandIndex v)" "kv_dead kv1 = kv_dead kv"
    using kvApply_refines [OF assms(1,2)] by metis
  show thesis
    by (rule that [of "if \<not> snd (GetState (kv_rf kv1)) then kv1 else (case op of
           OpGet args \<Rightarrow> kvSend (kv_get kv1 (amCommandIndex v)) (valueAt (kv_kv kv1) (gaKey args)) kv1
         | OpPutAppend args \<Rightarrow> kvSend (kv_done kv1 (amCommandIndex v)) '''' kv1)"])
      (use kv1 assms(2-4) in \<open>simp_all add: kvDoApply_def split: kv_op.split\<close>)
qed

lemma kvDoApplyLoop_refines:
  assumes "wf_log (rf_log (kv_rf kv))" "kv_lastApplied kv < i" "\<not> kv_dead kv"
  shows "\<exists>kv'. kvDoApplyLoop bytelen (commandMsgs ops i) kv = Inr kv' \<and> wf_log (rf_log (kv_rf kv')) \<and>
     kvAbs kv' = fold kvSpec ops (kvAbs kv)"
  using assms
proof (induction ops arbitrary: kv i)
  case (Cons op ops)
  let ?v = "\<lparr>amCommandValid = True, amCommand = Some op, amCommandIndex = i,
     amSnapshotValid = False, amSnapshot = [], amSnapshotTerm = 0, amSnapshotIndex = 0\<rparr> :: kv_msg"
  obtain kv1 where "kvDoApply bytelen ?v kv = Inr kv1" "wf_log (rf_log (kv_rf kv1))"
    "kvAbs kv1 = kvSpec op (kvAbs kv)" "kv_lastApplied kv1 \<le> i" "\<not> kv_dead kv1"
    using kvDoApply_refines [OF Cons.prems(1), of ?v op bytelen] Cons.prems(2,3) by auto
  with Cons.IH [of kv1 "i + 1"] Cons.prems(3) show ?case by (simp add: commandMsgs_Cons)
qed simp

section \<open>Properties\<close>

text \<open>A freshly started server of three, with no size bound, for the concrete instances.\<close>

definition freshKV :: KVServer where
  "freshKV = projr (StartKVServer 3 0 MakePersister (-1) 0)"

lemma freshKV: "StartKVServer 3 0 MakePersister (-1) 0 = Inr freshKV"
  "wf_log (rf_log (kv_rf freshKV))" "kv_lastApplied freshKV = 0" "\<not> kv_dead freshKV"
  "kvAbs freshKV = (Map.empty, Map.empty)" "kv_maxraftstate freshKV = -1"
  by (simp_all add: freshKV_def StartKVServer_def Make_fresh readSnapshot_def kvAbs_def ReadSnapshot_def)
    (simp_all add: MakePersister_def)


definition sampleAppend :: "64 word \<Rightarrow> string \<Rightarrow> kv_op" where
  "sampleAppend r v = OpPutAppend \<lparr>paType = AppendOp, paKey = ''k'', paValue = v,
     paClientId = 5, paRequestId = r\<rparr>"


text \<open>
  Applying refines the store: on a well-formed log one application always returns; a message
  at or below the last applied index changes neither the store nor the table, any other has
  exactly the effect of the specification, whether or not it triggers a snapshot.
\<close>

lemma kv_apply_refines:
  assumes "wf_log (rf_log (kv_rf kv))" "amCommand v = Some op"
  shows "\<exists>kv'. kvApply bytelen v kv = Inr kv' \<and> wf_log (rf_log (kv_rf kv')) \<and>
     kvAbs kv' = (if amCommandIndex v \<le> kv_lastApplied kv then kvAbs kv else kvSpec op (kvAbs kv))"
  using kvApply_refines [OF assms] by metis

lemma kv_apply_refines_witness:
  "\<exists>kv'. kvApply (\<lambda>_. 0) (hd (commandMsgs [sampleAppend 1 ''a''] 1)) freshKV = Inr kv' \<and>
     kvAbs kv' = kvSpec (sampleAppend 1 ''a'') (Map.empty, Map.empty)"
  using kv_apply_refines [OF freshKV(2), of "hd (commandMsgs [sampleAppend 1 ''a''] 1)"
      "sampleAppend 1 ''a''" "\<lambda>_. 0"] freshKV(3,5)
  by (auto simp: commandMsgs_Cons)

lemma kvApply_snapshots:
  assumes "wf_log (rf_log (kv_rf kv))" "amCommand v = Some op" "kv_lastApplied kv < amCommandIndex v"
    and "base (rf_log (kv_rf kv)) \<le> amCommandIndex v" "amCommandIndex v \<le> tailIndex (rf_log (kv_rf kv))"
    and "kv_maxraftstate kv \<noteq> -1" "kv_maxraftstate kv \<le> GetStateSize bytelen (kv_rf kv)"
  obtains kv' where "kvApply bytelen v kv = Inr kv'" "kvAbs kv' = kvSpec op (kvAbs kv)"
    "Snapshot (amCommandIndex v) (saveState (kvAbs kv')) (kv_rf kv) = Inr (kv_rf kv')"
    "ReadSnapshot (rf_persister (kv_rf kv')) = saveState (kvAbs kv')"
    "base (rf_log (kv_rf kv')) = amCommandIndex v"
proof -
  let ?kv1 = "applyCommand (amCommandIndex v) (amCommand v) kv"
  let ?rf = "kv_rf kv" and ?k = "amCommandIndex v"
  have abs: "kvAbs ?kv1 = kvSpec op (kvAbs kv)" using assms(2) applyCommand_abs by simp
  have "eIndex ((rf_log ?rf ! nat (?k - base (rf_log ?rf)))\<lparr>eCommand := None\<rparr>) = ?k"
    using wf_log_nth [OF assms(1), of "nat (?k - base (rf_log ?rf))"] assms(4,5) by (auto simp: tailIndex_def)
  note c = compacted(2) [OF assms(1,4,5) this]
  obtain rf' where rf': "Snapshot ?k (encodeSnapshot ?kv1) ?rf = Inr rf'"
    "ReadSnapshot (rf_persister rf') = encodeSnapshot ?kv1" "base (rf_log rf') = ?k"
    using Snapshot_inside [OF assms(1,4,5), of "encodeSnapshot ?kv1"] c
    by (auto simp: Let_def ps.storage_simps)
  show thesis
    by (rule that [of "?kv1\<lparr>kv_rf := rf'\<rparr>"])
      (use assms(3,6,7) rf' abs in \<open>simp_all add: kvApply_def Let_def encodeSnapshot_save kvAbs_def\<close>)
qed

text \<open>
  C34. Snapshot and restart: when applying a command makes the server take a snapshot, a crash
  and restart right after it gives a server with the same store and the same table, whose Raft
  continues after that command.
\<close>

theorem kv_snapshot_restart:
  assumes "node_ok n i (kv_rf kv)" "wf_log (rf_log (kv_rf kv))" "amCommand v = Some op"
    and "kv_lastApplied kv < amCommandIndex v"
    and "base (rf_log (kv_rf kv)) \<le> amCommandIndex v" "amCommandIndex v \<le> tailIndex (rf_log (kv_rf kv))"
    and "kv_maxraftstate kv \<noteq> -1" "kv_maxraftstate kv \<le> GetStateSize bytelen (kv_rf kv)"
  shows "\<exists>kv' kv''. kvApply bytelen v kv = Inr kv' \<and> kvAbs kv' = kvSpec op (kvAbs kv) \<and>
     StartKVServer n i (Copy (rf_persister (kv_rf kv'))) maxstate r = Inr kv'' \<and>
     kvAbs kv'' = kvAbs kv' \<and> rf_lastApplied (kv_rf kv'') = amCommandIndex v"
proof -
  obtain kv' where kv': "kvApply bytelen v kv = Inr kv'" "kvAbs kv' = kvSpec op (kvAbs kv)"
    "Snapshot (amCommandIndex v) (saveState (kvAbs kv')) (kv_rf kv) = Inr (kv_rf kv')"
    "ReadSnapshot (rf_persister (kv_rf kv')) = saveState (kvAbs kv')"
    "base (rf_log (kv_rf kv')) = amCommandIndex v"
    using kvApply_snapshots [OF assms(2-8)] by metis
  have "node_ok n i (kv_rf kv')" using Snapshot_node_ok [OF kv'(3) assms(1)] .
  from Make_restart [OF this, of r] kv'(5) obtain rf' where
    "Make n i (Copy (rf_persister (kv_rf kv'))) r = Inr rf'" "rf_lastApplied rf' = amCommandIndex v"
    by auto
  with kv' show ?thesis
    by (auto simp: StartKVServer_def readSnapshot_load ps.storage_simps kvs.load_save)
qed

definition busyKV :: KVServer where
  "busyKV = freshKV\<lparr>kv_maxraftstate := 100, kv_rf := (kv_rf freshKV)\<lparr>
     rf_log := [sentinel, \<lparr>eTerm = 1, eIndex = 1, eCommand = Some (sampleAppend 1 ''a'')\<rparr>]\<rparr>\<rparr>"

lemma busyKV: "wf_log (rf_log (kv_rf busyKV))" "base (rf_log (kv_rf busyKV)) = 0"
  "tailIndex (rf_log (kv_rf busyKV)) = 1" "kv_lastApplied busyKV = 0" "kv_maxraftstate busyKV = 100"
  "kvAbs busyKV = (Map.empty, Map.empty)"
  using freshKV(3,5)
  by (simp_all add: busyKV_def wf_log_def base_def tailIndex_def sentinel_def kvAbs_def)

lemma busyKV_node: "node_ok 3 0 (persist (kv_rf busyKV))"
  by (simp add: node_ok_def)
    (simp add: persist_def busyKV_def freshKV_def StartKVServer_def Make_fresh)

lemma kv_snapshot_restart_witness:
  "\<exists>kv' kv''. kvApply (\<lambda>_. 500) (hd (commandMsgs [sampleAppend 1 ''a''] 1))
       (busyKV\<lparr>kv_rf := persist (kv_rf busyKV)\<rparr>) = Inr kv' \<and>
     StartKVServer 3 0 (Copy (rf_persister (kv_rf kv'))) 100 9 = Inr kv'' \<and> kvAbs kv'' = kvAbs kv' \<and>
     rf_lastApplied (kv_rf kv'') = 1"
proof -
  let ?kv = "busyKV\<lparr>kv_rf := persist (kv_rf busyKV)\<rparr>" and ?v = "hd (commandMsgs [sampleAppend 1 ''a''] 1) :: kv_msg"
  have k: "node_ok 3 0 (kv_rf ?kv)" "rf_log (kv_rf ?kv) = rf_log (kv_rf busyKV)" "amCommandIndex ?v = 1"
    "amCommand ?v = Some (sampleAppend 1 ''a'')" "GetStateSize (\<lambda>_. 500) (kv_rf ?kv) = 500"
    using busyKV_node by (simp_all add: commandMsgs_Cons GetStateSize_def RaftStateSize_def persist_def)
  show ?thesis
    using kv_snapshot_restart [OF k(1) _ k(4), of "\<lambda>_. 500" 100 9] k(2,3,5) busyKV by auto
qed

text \<open>
  Snapshot transfer: a server that receives the snapshot of another server, at an index not
  below its own commit index, ends with exactly the other server's store and table, and then
  ignores commands the snapshot already covers; an older snapshot leaves its store alone.
\<close>

lemma kv_snapshot_transfer:
  assumes "wf_log (rf_log (kv_rf kv))" "base (rf_log (kv_rf kv)) \<le> rf_commitIndex (kv_rf kv)"
    and "\<not> kv_dead kv" "\<not> amCommandValid v" "amSnapshot v = encodeSnapshot other"
  shows "\<exists>kv'. kvDoApply bytelen v kv = Inr kv' \<and>
     kvAbs kv' = (if rf_commitIndex (kv_rf kv) \<le> amSnapshotIndex v then kvAbs other else kvAbs kv) \<and>
     kv_lastApplied kv' =
       (if rf_commitIndex (kv_rf kv) \<le> amSnapshotIndex v then amSnapshotIndex v else kv_lastApplied kv)"
proof (cases "rf_commitIndex (kv_rf kv) \<le> amSnapshotIndex v")
  case True
  from CondInstallSnapshot_installs [OF assms(1,2) this, of "amSnapshotTerm v" "amSnapshot v"]
    assms(3-5) True show ?thesis
    by (simp add: kvDoApply_def Let_def readSnapshot_load encodeSnapshot_save kvs.load_save)
next
  case False
  then show ?thesis using assms(3,4) by (simp add: kvDoApply_def CondInstallSnapshot_def kvAbs_def)
qed

lemma kv_snapshot_transfer_witness:
  "\<exists>kv'. kvDoApply (\<lambda>_. 0) \<lparr>amCommandValid = False, amCommand = None, amCommandIndex = 0,
       amSnapshotValid = True, amSnapshot = encodeSnapshot busyKV, amSnapshotTerm = 1, amSnapshotIndex = 7\<rparr>
       freshKV = Inr kv' \<and> kvAbs kv' = kvAbs busyKV \<and> kv_lastApplied kv' = 7"
proof -
  have "rf_commitIndex (kv_rf freshKV) = 0" "base (rf_log (kv_rf freshKV)) = 0"
    by (simp_all add: freshKV_def StartKVServer_def Make_fresh base_def sentinel_def)
  then show ?thesis
    using kv_snapshot_transfer [OF freshKV(2), of "\<lparr>amCommandValid = False, amCommand = None,
       amCommandIndex = 0, amSnapshotValid = True, amSnapshot = encodeSnapshot busyKV, amSnapshotTerm = 1,
       amSnapshotIndex = 7\<rparr>" busyKV "\<lambda>_. 0"] freshKV(4) by auto
qed

text \<open>
  Reads: a leader that applies a \<^verbatim>\<open>Get\<close> whose handler waits on a channel sends on it the
  value of the key in the store that all earlier commands of the log produced; a missing key
  reads as the empty string and the reply is \<^verbatim>\<open>OK\<close>.
\<close>

lemma kv_get_reads:
  assumes "wf_log (rf_log (kv_rf kv))" "\<not> kv_dead kv" "rf_state (kv_rf kv) = Leader"
    and "amCommandValid v" "amCommand v = Some (OpGet args)" "kv_get kv (amCommandIndex v) = Some ch"
    and "kvReceived ch kv = None"
  shows "\<exists>kv'. kvDoApply bytelen v kv = Inr kv' \<and> kvAbs kv' = kvAbs kv \<and>
     getReply (kvReceived ch kv') =
       \<lparr>grErr = OK, grValue = (case kv_kv kv (gaKey args) of None \<Rightarrow> '''' | Some s \<Rightarrow> s)\<rparr>"
proof -
  obtain kv1 where kv1: "kvApply bytelen v kv = Inr kv1"
    "kvAbs kv1 = (if amCommandIndex v \<le> kv_lastApplied kv then kvAbs kv else kvSpec (OpGet args) (kvAbs kv))"
    "rf_state (kv_rf kv1) = rf_state (kv_rf kv)" "kv_get kv1 = kv_get kv" "kv_sent kv1 = kv_sent kv"
    using kvApply_refines [OF assms(1,5)] by metis
  have same: "kvAbs kv1 = kvAbs kv" using kv1(2) by (simp add: kvSpec_def)
  let ?kv' = "kvSend (kv_get kv1 (amCommandIndex v)) (valueAt (kv_kv kv1) (gaKey args)) kv1"
  have "kvDoApply bytelen v kv = Inr ?kv'"
    using assms(2-5) kv1(1,3) by (simp add: kvDoApply_def GetState_def)
  moreover have "kvReceived ch ?kv' = Some (valueAt (kv_kv kv) (gaKey args))"
    using assms(6,7) kv1(4,5) same
    by (simp add: kvReceived_def kvSend_def kvAbs_def map_add_def split: option.split)
  ultimately show ?thesis using same by (auto simp: getReply_def valueAt_def)
qed

lemma kv_get_reads_witness:
  "\<exists>kv'. kvDoApply (\<lambda>_. 0) (hd (commandMsgs [OpGet \<lparr>gaKey = ''k''\<rparr>] 1))
       (fst (registerGet 1 (freshKV\<lparr>kv_rf := (kv_rf freshKV)\<lparr>rf_state := Leader\<rparr>\<rparr>))) = Inr kv' \<and>
     getReply (kvReceived 0 kv') = \<lparr>grErr = OK, grValue = ''''\<rparr>"
proof -
  let ?kv = "fst (registerGet 1 (freshKV\<lparr>kv_rf := (kv_rf freshKV)\<lparr>rf_state := Leader\<rparr>\<rparr>))"
    and ?v = "hd (commandMsgs [OpGet \<lparr>gaKey = ''k''\<rparr>] 1) :: kv_msg"
  have "wf_log (rf_log (kv_rf ?kv))" "\<not> kv_dead ?kv" "rf_state (kv_rf ?kv) = Leader"
    "amCommandValid ?v" "amCommand ?v = Some (OpGet \<lparr>gaKey = ''k''\<rparr>)" "amCommandIndex ?v = 1"
    "kv_kv ?kv = Map.empty"
    using freshKV(2,4,5) by (simp_all add: registerGet_def commandMsgs_Cons kvAbs_def)
  moreover have "kv_get ?kv 1 = Some 0" "kvReceived 0 ?kv = None"
    by (simp_all add: registerGet_def kvReceived_def freshKV_def StartKVServer_def Make_fresh
        readSnapshot_def ReadSnapshot_def) (simp_all add: MakePersister_def)
  ultimately show ?thesis using kv_get_reads [of ?kv ?v "\<lparr>gaKey = ''k''\<rparr>" 0 "\<lambda>_. 0"] by auto
qed

text \<open>
  C40. Replies are matched by log index alone: a handler that waits for its \<^verbatim>\<open>PutAppend\<close> at an
  index is answered \<^verbatim>\<open>OK\<close> as soon as a leader applies \<^emph>\<open>any\<close> \<^verbatim>\<open>PutAppend\<close> at that index, also
  one of another client, and the waiting request then is in neither the store nor the table.
\<close>

theorem kv_reply_by_index:
  assumes "wf_log (rf_log (kv_rf kv))" "\<not> kv_dead kv" "rf_state (kv_rf kv) = Leader"
    and "kv_done kv (amCommandIndex v) = Some ch" "kvReceived ch kv = None"
    and "amCommandValid v" "amCommand v = Some (OpPutAppend other)"
    and "kv_lastApplied kv < amCommandIndex v" "\<not> isDuplicate (kv_dedup kv) other"
    and "paKey mine \<noteq> paKey other" "paClientId mine \<noteq> paClientId other"
  shows "\<exists>kv'. kvDoApply bytelen v kv = Inr kv' \<and> putReply (kvReceived ch kv') = \<lparr>parErr = OK\<rparr> \<and>
     kv_kv kv' (paKey mine) = kv_kv kv (paKey mine) \<and>
     kv_dedup kv' (paClientId mine) = kv_dedup kv (paClientId mine)"
proof -
  obtain kv1 where kv1: "kvApply bytelen v kv = Inr kv1"
    "kvAbs kv1 = (if amCommandIndex v \<le> kv_lastApplied kv then kvAbs kv else kvSpec (OpPutAppend other) (kvAbs kv))"
    "rf_state (kv_rf kv1) = rf_state (kv_rf kv)" "kv_done kv1 = kv_done kv" "kv_sent kv1 = kv_sent kv"
    using kvApply_refines [OF assms(1,7)] by metis
  let ?kv' = "kvSend (kv_done kv1 (amCommandIndex v)) '''' kv1"
  have "kvDoApply bytelen v kv = Inr ?kv'"
    using assms(2,3,6,7) kv1(1,3) by (simp add: kvDoApply_def GetState_def)
  moreover have "kvReceived ch ?kv' = Some ''''"
    using assms(4,5) kv1(4,5) by (simp add: kvReceived_def kvSend_def map_add_def split: option.split)
  moreover have "kvAbs ?kv' = kvSpec (OpPutAppend other) (kvAbs kv)" using assms(8) kv1(2) by simp
  ultimately show ?thesis
    using assms(9-11) by (auto simp: putReply_def kvAbs_def kvSpec_def exec_def split: PutOrAppend.splits)
qed

lemma kv_reply_by_index_witness:
  "\<exists>kv'. kvDoApply (\<lambda>_. 0) (hd (commandMsgs [sampleAppend 1 ''a''] 1))
       (fst (registerPut 1 (freshKV\<lparr>kv_rf := (kv_rf freshKV)\<lparr>rf_state := Leader\<rparr>\<rparr>))) = Inr kv' \<and>
     putReply (kvReceived 0 kv') = \<lparr>parErr = OK\<rparr> \<and> kv_kv kv' ''mine'' = None"
proof -
  let ?kv = "fst (registerPut 1 (freshKV\<lparr>kv_rf := (kv_rf freshKV)\<lparr>rf_state := Leader\<rparr>\<rparr>))"
    and ?v = "hd (commandMsgs [sampleAppend 1 ''a''] 1) :: kv_msg"
    and ?o = "\<lparr>paType = AppendOp, paKey = ''k'', paValue = ''a'', paClientId = 5, paRequestId = 1\<rparr>"
    and ?m = "\<lparr>paType = PutOp, paKey = ''mine'', paValue = ''x'', paClientId = 6, paRequestId = 2\<rparr>"
  have "wf_log (rf_log (kv_rf ?kv))" "\<not> kv_dead ?kv" "rf_state (kv_rf ?kv) = Leader"
    "amCommandValid ?v" "amCommand ?v = Some (OpPutAppend ?o)" "amCommandIndex ?v = 1"
    "kv_kv ?kv = Map.empty" "kv_dedup ?kv = Map.empty" "kv_lastApplied ?kv = 0"
    using freshKV(2-5) by (simp_all add: registerPut_def commandMsgs_Cons kvAbs_def sampleAppend_def)
  moreover have "kv_done ?kv 1 = Some 0" "kvReceived 0 ?kv = None"
    by (simp_all add: registerPut_def kvReceived_def freshKV_def StartKVServer_def Make_fresh
        readSnapshot_def ReadSnapshot_def) (simp_all add: MakePersister_def)
  moreover have "\<not> isDuplicate Map.empty ?o" by (simp add: isDuplicate_def)
  ultimately show ?thesis using kv_reply_by_index [of ?kv ?v 0 ?o ?m "\<lambda>_. 0"] by auto
qed

end
