(* ===== verification/KV_Cluster.thy ===== *)
theory KV_Cluster
  imports Raft_Service KV_Store
begin

text \<open>
  A cluster of key/value servers (\<^verbatim>\<open>db_files/raft-db/server.go\<close>) on a cluster of Raft servers: each
  server is the record of \<open>KV_Server\<close> with a server of \<open>Raft_Cluster\<close> inside. Raft hands commands
  over in the order of the log, through a channel that one goroutine fills and one empties; snapshots
  that other servers sent arrive on it at any time. A crash loses the server and everything on
  its channel, and it starts again from stable storage. Handlers add commands at a leader (the
  step \<open>startCmd\<close> of Raft) and wait on channels they register.
\<close>

section \<open>Steps\<close>

record kvCluster =
  ks_raft :: "(kv_op, kv_item) cluster"
  ks_kv :: "int \<Rightarrow> KVServer"                \<comment> \<open>its \<open>kv_rf\<close> is the server of \<open>ks_raft\<close>\<close>
  ks_queue :: "int \<Rightarrow> kv_msg list"          \<comment> \<open>commands on \<^verbatim>\<open>applyCh\<close>\<close>
  ks_done :: "int \<Rightarrow> int"                    \<comment> \<open>the index a server's state has reached\<close>

definition kvAt :: "kvCluster \<Rightarrow> int \<Rightarrow> KVServer" where
  "kvAt S i = (ks_kv S i)\<lparr>kv_rf := cl_node (ks_raft S) i\<rparr>"

definition setKV :: "int \<Rightarrow> KVServer \<Rightarrow> (kv_op, kv_item) cluster \<Rightarrow> int \<Rightarrow> kvCluster \<Rightarrow> kvCluster" where
  "setKV i kv cl d S = S\<lparr>ks_raft := setNode i (kv_rf kv) cl, ks_kv := (ks_kv S)(i := kv), ks_done := (ks_done S)(i := d)\<rparr>"

inductive kstep :: "nat \<Rightarrow> (kv_op raft_item gob \<Rightarrow> int) \<Rightarrow> kvCluster \<Rightarrow> kvCluster \<Rightarrow> bool" for n bytelen where
  raft: "quietStep n (ks_raft S) cl \<Longrightarrow> kstep n bytelen S (S\<lparr>ks_raft := cl\<rparr>)"
| handOut: "i \<in> servers n \<Longrightarrow> DoApply (cl_node (ks_raft S) i) = Inr (rf, Some m) \<Longrightarrow>
     kstep n bytelen S (S\<lparr>ks_raft := setNode i rf ((ks_raft S)\<lparr>cl_applied :=
         (cl_applied (ks_raft S))(i := cl_applied (ks_raft S) i @ [m])\<rparr>),
       ks_queue := (ks_queue S)(i := ks_queue S i @ [m])\<rparr>)"
| applyCmd: "i \<in> servers n \<Longrightarrow> ks_queue S i = m # q \<Longrightarrow> kvDoApply bytelen m (kvAt S i) = Inr kv \<Longrightarrow>
     kstep n bytelen S (setKV i kv (ks_raft S) (max (ks_done S i) (amCommandIndex m))
       (S\<lparr>ks_queue := (ks_queue S)(i := q)\<rparr>))"
| applySnap: "i \<in> servers n \<Longrightarrow> m \<in># cl_pend (ks_raft S) i \<Longrightarrow> kvDoApply bytelen m (kvAt S i) = Inr kv \<Longrightarrow>
     kstep n bytelen S (setKV i kv
       ((ks_raft S)\<lparr>cl_pend := (cl_pend (ks_raft S))(i := cl_pend (ks_raft S) i - {#m#})\<rparr>)
       (if rf_commitIndex (cl_node (ks_raft S) i) \<le> amSnapshotIndex m then amSnapshotIndex m else ks_done S i) S)"
| waitGet: "i \<in> servers n \<Longrightarrow> kstep n bytelen S (S\<lparr>ks_kv := (ks_kv S)(i := fst (registerGet k (kvAt S i)))\<rparr>)"
| waitPut: "i \<in> servers n \<Longrightarrow> kstep n bytelen S (S\<lparr>ks_kv := (ks_kv S)(i := fst (registerPut k (kvAt S i)))\<rparr>)"
| restart: "i \<in> servers n \<Longrightarrow>
     StartKVServer n i (Copy (rf_persister (cl_node (ks_raft S) i))) maxraftstate r = Inr kv \<Longrightarrow>
     kstep n bytelen S (setKV i kv (setNet (filter_mset (\<lambda>m. \<not> replyTo i m) (cl_net (ks_raft S)))
         ((ks_raft S)\<lparr>cl_pend := (cl_pend (ks_raft S))(i := {#}), cl_applied := (cl_applied (ks_raft S))(i := [])\<rparr>))
       (rf_lastApplied (kv_rf kv)) (S\<lparr>ks_queue := (ks_queue S)(i := [])\<rparr>))"

definition kv_init :: "nat \<Rightarrow> kvCluster \<Rightarrow> bool" where
  "kv_init n S \<longleftrightarrow> cluster_init n (ks_raft S) \<and>
     (\<forall>i \<in> servers n. (\<exists>maxraftstate r. StartKVServer n i MakePersister maxraftstate r = Inr (kvAt S i)) \<and>
        ks_queue S i = [] \<and> ks_done S i = 0)"

inductive kreachable :: "nat \<Rightarrow> (kv_op raft_item gob \<Rightarrow> int) \<Rightarrow> kvCluster \<Rightarrow> bool" for n bytelen where
  init: "kv_init n S \<Longrightarrow> kreachable n bytelen S"
| step: "kreachable n bytelen S \<Longrightarrow> kstep n bytelen S S' \<Longrightarrow> kreachable n bytelen S'"

section \<open>The state the log determines\<close>

type_synonym kv_state = "store \<times> (32 word \<rightharpoonup> kv_op)"

definition runCommand :: "kv_op option \<Rightarrow> kv_state \<Rightarrow> kv_state" where
  "runCommand c s = (case c of None \<Rightarrow> s | Some op \<Rightarrow> kvSpec op s)"

definition kvRun :: "kv_op option list \<Rightarrow> kv_state" where
  "kvRun cs = fold runCommand cs (Map.empty, Map.empty)"

lemma kvRun_snoc: "kvRun (cs @ [c]) = runCommand c (kvRun cs)"
  by (simp add: kvRun_def)

text \<open>The state after the first \<open>k\<close> committed commands.\<close>

definition stateAt :: "nat \<Rightarrow> kv_op rep \<Rightarrow> int \<Rightarrow> kv_state \<Rightarrow> bool" where
  "stateAt n r k s \<longleftrightarrow> 0 \<le> k \<and> (\<exists>P T. comm (majority n) r (nat k) P T \<and> s = kvRun (map eCommand (take (nat k) P)))"

lemma stateAt_grows: "stateAt n r k s \<Longrightarrow> grows r r' \<Longrightarrow> rinvs n r \<Longrightarrow> stateAt n r' k s"
  unfolding stateAt_def using repl.comm_grows by blast

lemma stateAt_0: "stateAt n r 0 (Map.empty, Map.empty)"
  by (simp add: stateAt_def comm_def kvRun_def)

lemma stateAt_next:
  assumes inv: "rinvs n r" and s: "stateAt n r k s" and m: "applyRel n r T m" "amCommandIndex m = k + 1"
  shows "stateAt n r (k + 1) (runCommand (amCommand m) s)"
proof -
  obtain P U where P: "0 \<le> k" "comm (majority n) r (nat k) P U" "s = kvRun (map eCommand (take (nat k) P))"
    using s by (auto simp: stateAt_def)
  obtain Q where Q: "comm (majority n) r (nat (k + 1)) Q T" "amCommand m = eCommand (Q ! nat k)"
    using m by (auto simp: applyRel_def)
  have nk: "nat (k + 1) = Suc (nat k)" using P(1) by simp
  have "take (nat k) P = take (nat k) Q" using repl.comm_agree [OF inv P(2) Q(1)] nk by simp
  moreover have "nat k < length Q" using repl.comm_len [OF inv Q(1)] nk by simp
  ultimately have "kvRun (map eCommand (take (nat (k + 1)) Q)) = (runCommand (amCommand m) s)"
    using P(3) Q(2) by (simp add: nk take_Suc_conv_app_nth kvRun_snoc)
  then show ?thesis using Q(1) P(1) unfolding stateAt_def by (metis add_nonneg_nonneg zero_le_one)
qed

section \<open>One server applies a message\<close>

lemma applyCommand_run: "kvAbs (applyCommand i c kv) = runCommand c (kvAbs kv)"
  by (cases c) (simp add: applyCommand_def runCommand_def, simp add: applyCommand_abs runCommand_def)

lemma applyCommand_grows: "kv_lastApplied kv \<le> i \<Longrightarrow> kv_lastApplied kv \<le> kv_lastApplied (applyCommand i c kv)"
  by (auto simp: applyCommand_def Let_def split: option.split kv_op.split)

lemma kvApply_effect:
  assumes "kvApply bytelen m kv = Inr kv'" "kv_lastApplied kv < amCommandIndex m"
  shows "kvAbs kv' = runCommand (amCommand m) (kvAbs kv)" "kv_dead kv' = kv_dead kv"
    "kv_lastApplied kv \<le> kv_lastApplied kv'" "kv_lastApplied kv' \<le> amCommandIndex m"
    "kv_rf kv' = kv_rf kv \<or> Snapshot (amCommandIndex m) (saveState (kvAbs kv')) (kv_rf kv) = Inr (kv_rf kv')"
proof -
  let ?kv1 = "applyCommand (amCommandIndex m) (amCommand m) kv"
  have same: "?kv1\<lparr>kv_rf := kv_rf kv\<rparr> = ?kv1"
    using KVServer.cases [of ?kv1] applyCommand_other(1) [of "amCommandIndex m" "amCommand m" kv] by fastforce
  obtain rf where rf: "kv' = ?kv1\<lparr>kv_rf := rf\<rparr>"
    "rf = kv_rf kv \<or> Snapshot (amCommandIndex m) (encodeSnapshot ?kv1) (kv_rf kv) = Inr rf"
    using assms that [of "kv_rf kv"] same
    by (auto simp: kvApply_def Let_def elim!: rbind_InrE split: if_splits)
  have abs: "kvAbs kv' = kvAbs ?kv1" by (simp add: rf(1) kvAbs_def)
  then show "kvAbs kv' = runCommand (amCommand m) (kvAbs kv)" by (simp add: applyCommand_run)
  show "kv_rf kv' = kv_rf kv \<or> Snapshot (amCommandIndex m) (saveState (kvAbs kv')) (kv_rf kv) = Inr (kv_rf kv')"
    unfolding abs using rf by (simp add: encodeSnapshot_save)
  show "kv_dead kv' = kv_dead kv" by (simp add: rf(1))
  show "kv_lastApplied kv \<le> kv_lastApplied kv'" "kv_lastApplied kv' \<le> amCommandIndex m"
    using assms(2) by (simp_all add: rf(1) applyCommand_grows applyCommand_index)
qed

text \<open>The round of the loop adds only the answer to a waiting handler.\<close>

lemma kvDoApply_applies:
  assumes "kvDoApply bytelen m kv = Inr kv'" "amCommandValid m" "\<not> kv_dead kv"
  obtains kv1 where "kvApply bytelen m kv = Inr kv1" "kvAbs kv' = kvAbs kv1" "kv_rf kv' = kv_rf kv1"
    "kv_lastApplied kv' = kv_lastApplied kv1" "kv_dead kv' = kv_dead kv1"
proof -
  from assms obtain kv1 where kv1: "kvApply bytelen m kv = Inr kv1"
    by (auto simp: kvDoApply_def elim!: rbind_InrE)
  have "kvAbs kv' = kvAbs kv1 \<and> kv_rf kv' = kv_rf kv1 \<and> kv_lastApplied kv' = kv_lastApplied kv1 \<and> kv_dead kv' = kv_dead kv1"
    using assms kv1
    by (auto simp: kvDoApply_def kvAbs_def kvSend_def split: if_splits option.splits kv_op.splits)
  then show thesis using kv1 that by blast
qed

lemma kvDoApply_command:
  assumes h: "kvDoApply bytelen m kv = Inr kv'" and m: "amCommandValid m" and a: "\<not> kv_dead kv"
  shows "\<not> kv_dead kv'"
    "amCommandIndex m \<le> kv_lastApplied kv \<Longrightarrow>
      kvAbs kv' = kvAbs kv \<and> kv_lastApplied kv' = kv_lastApplied kv \<and> kv_rf kv' = kv_rf kv"
    "kv_lastApplied kv < amCommandIndex m \<Longrightarrow>
      kvAbs kv' = runCommand (amCommand m) (kvAbs kv) \<and>
      kv_lastApplied kv \<le> kv_lastApplied kv' \<and> kv_lastApplied kv' \<le> amCommandIndex m \<and>
      (kv_rf kv' = kv_rf kv \<or> Snapshot (amCommandIndex m) (saveState (kvAbs kv')) (kv_rf kv) = Inr (kv_rf kv'))"
proof -
  from h m a obtain kv1 where kv1: "kvApply bytelen m kv = Inr kv1" "kvAbs kv' = kvAbs kv1" "kv_rf kv' = kv_rf kv1"
    "kv_lastApplied kv' = kv_lastApplied kv1" "kv_dead kv' = kv_dead kv1"
    by (rule kvDoApply_applies)
  note e = kvApply_effect [OF kv1(1)]
  have old: "amCommandIndex m \<le> kv_lastApplied kv \<Longrightarrow> kv1 = kv" using kv1(1) by (simp add: kvApply_def)
  then show "amCommandIndex m \<le> kv_lastApplied kv \<Longrightarrow>
      kvAbs kv' = kvAbs kv \<and> kv_lastApplied kv' = kv_lastApplied kv \<and> kv_rf kv' = kv_rf kv"
    using kv1 by simp
  show "\<not> kv_dead kv'" using old e(2) a kv1(5) by fastforce
  show "kvAbs kv' = runCommand (amCommand m) (kvAbs kv) \<and>
      kv_lastApplied kv \<le> kv_lastApplied kv' \<and> kv_lastApplied kv' \<le> amCommandIndex m \<and>
      (kv_rf kv' = kv_rf kv \<or> Snapshot (amCommandIndex m) (saveState (kvAbs kv')) (kv_rf kv) = Inr (kv_rf kv'))"
    if "kv_lastApplied kv < amCommandIndex m"
    using e [OF that] kv1 by simp
qed

lemma kvDoApply_snapshot:
  assumes h: "kvDoApply bytelen m kv = Inr kv'" and m: "\<not> amCommandValid m" and a: "\<not> kv_dead kv"
    and wf: "wf_log (rf_log (kv_rf kv))" "base (rf_log (kv_rf kv)) \<le> rf_commitIndex (kv_rf kv)"
  shows "\<not> kv_dead kv'"
    "\<exists>b. CondInstallSnapshot (amSnapshotTerm m) (amSnapshotIndex m) (amSnapshot m) (kv_rf kv) = Inr (kv_rf kv', b)"
    "amSnapshotIndex m < rf_commitIndex (kv_rf kv) \<Longrightarrow>
       kvAbs kv' = kvAbs kv \<and> kv_lastApplied kv' = kv_lastApplied kv \<and> kv_rf kv' = kv_rf kv"
    "rf_commitIndex (kv_rf kv) \<le> amSnapshotIndex m \<Longrightarrow> kvAbs kv' = loadState (amSnapshot m) \<and>
       kv_lastApplied kv' = amSnapshotIndex m \<and> base (rf_log (kv_rf kv')) = amSnapshotIndex m \<and>
       rf_lastApplied (kv_rf kv') = amSnapshotIndex m \<and> ReadSnapshot (rf_persister (kv_rf kv')) = amSnapshot m"
proof -
  obtain rf b where rf: "CondInstallSnapshot (amSnapshotTerm m) (amSnapshotIndex m) (amSnapshot m) (kv_rf kv) = Inr (rf, b)"
    and kv': "kv' = (if b then readSnapshot (amSnapshot m) (kv\<lparr>kv_rf := rf, kv_lastApplied := amSnapshotIndex m\<rparr>)
      else kv\<lparr>kv_rf := rf\<rparr>)"
    using h m a by (auto simp: kvDoApply_def Let_def elim!: rbind_InrE)
  have d: "kv_dead (readSnapshot g x) = kv_dead x" for g x by (simp add: readSnapshot_def split: prod.split)
  show "\<not> kv_dead kv'" using a by (simp add: kv' d)
  show "\<exists>b. CondInstallSnapshot (amSnapshotTerm m) (amSnapshotIndex m) (amSnapshot m) (kv_rf kv) = Inr (kv_rf kv', b)"
    using rf by (simp add: kv')
  show "kvAbs kv' = kvAbs kv \<and> kv_lastApplied kv' = kv_lastApplied kv \<and> kv_rf kv' = kv_rf kv"
    if "amSnapshotIndex m < rf_commitIndex (kv_rf kv)"
    using rf that by (auto simp: kv' CondInstallSnapshot_def kvAbs_def)
  assume k: "rf_commitIndex (kv_rf kv) \<le> amSnapshotIndex m"
  have "b" "base (rf_log rf) = amSnapshotIndex m" "rf_lastApplied rf = amSnapshotIndex m"
    "ReadSnapshot (rf_persister rf) = amSnapshot m"
    using CondInstallSnapshot_installs [OF wf k, of "amSnapshotTerm m" "amSnapshot m"] rf
    by (auto simp: Let_def base_def ps.storage_simps)
  then show "kvAbs kv' = loadState (amSnapshot m) \<and>
       kv_lastApplied kv' = amSnapshotIndex m \<and> base (rf_log (kv_rf kv')) = amSnapshotIndex m \<and>
       rf_lastApplied (kv_rf kv') = amSnapshotIndex m \<and> ReadSnapshot (rf_persister (kv_rf kv')) = amSnapshot m"
    by (simp add: kv' readSnapshot_load)
qed

section \<open>The invariant\<close>

lemma kvAt_simps [simp]:
  "kv_rf (kvAt S i) = cl_node (ks_raft S) i" "kvAbs (kvAt S i) = kvAbs (ks_kv S i)"
  "kv_lastApplied (kvAt S i) = kv_lastApplied (ks_kv S i)" "kv_dead (kvAt S i) = kv_dead (ks_kv S i)"
  by (simp_all add: kvAt_def kvAbs_def)

lemma setKV_simps [simp]:
  "ks_raft (setKV i kv cl d S) = setNode i (kv_rf kv) cl" "ks_kv (setKV i kv cl d S) = (ks_kv S)(i := kv)"
  "ks_done (setKV i kv cl d S) = (ks_done S)(i := d)" "ks_queue (setKV i kv cl d S) = ks_queue S"
  by (simp_all add: setKV_def)

text \<open>
  The commands on a server's channel: first those that a snapshot it loaded covers, then, without
  a gap, the ones from the index its state has reached up to the last one handed out.
\<close>

definition queueOk :: "int \<Rightarrow> int \<Rightarrow> int \<Rightarrow> kv_msg list \<Rightarrow> bool" where
  "queueOk la d e q \<longleftrightarrow> (\<exists>stale. map amCommandIndex q = stale @ [d + 1..e] \<and> (\<forall>k \<in> set stale. k \<le> la))"

definition serverInv :: "nat \<Rightarrow> kv_op rep \<Rightarrow> kvCluster \<Rightarrow> int \<Rightarrow> bool" where
  "serverInv n r S i \<longleftrightarrow> (let rf = cl_node (ks_raft S) i; kv = ks_kv S i; d = ks_done S i; q = ks_queue S i in
     stateAt n r d (kvAbs kv) \<and> stateAt n r (base (rf_log rf)) (loadState (ReadSnapshot (rf_persister rf))) \<and>
     base (rf_log rf) \<le> d \<and> d \<le> rf_lastApplied rf \<and> kv_lastApplied kv \<le> d \<and> \<not> kv_dead kv \<and>
     queueOk (kv_lastApplied kv) d (rf_lastApplied rf) q \<and>
     (\<forall>m \<in> set q. amCommandValid m \<and> m \<in> set (cl_applied (ks_raft S) i)))"

definition kinv :: "nat \<Rightarrow> kv_op rep \<Rightarrow> kvCluster \<Rightarrow> bool" where
  "kinv n r S \<longleftrightarrow> reachable n (ks_raft S) \<and> crel n r (ks_raft S) \<and> (\<forall>i \<in> servers n. serverInv n r S i) \<and>
     (\<forall>i p args. SnapReq i p args \<in># cl_net (ks_raft S) \<longrightarrow>
        stateAt n r (isLastIncludedIndex args) (loadState (isData args))) \<and>
     (\<forall>i. \<forall>m \<in># cl_pend (ks_raft S) i. \<not> amCommandValid m \<and>
        stateAt n r (amSnapshotIndex m) (loadState (amSnapshot m)))"

lemma serverInvD:
  assumes "serverInv n r S i"
  shows "stateAt n r (ks_done S i) (kvAbs (ks_kv S i))"
    "stateAt n r (base (rf_log (cl_node (ks_raft S) i))) (loadState (ReadSnapshot (rf_persister (cl_node (ks_raft S) i))))"
    "base (rf_log (cl_node (ks_raft S) i)) \<le> ks_done S i" "ks_done S i \<le> rf_lastApplied (cl_node (ks_raft S) i)"
    "kv_lastApplied (ks_kv S i) \<le> ks_done S i" "\<not> kv_dead (ks_kv S i)"
    "queueOk (kv_lastApplied (ks_kv S i)) (ks_done S i) (rf_lastApplied (cl_node (ks_raft S) i)) (ks_queue S i)"
    "m \<in> set (ks_queue S i) \<Longrightarrow> amCommandValid m" "m \<in> set (ks_queue S i) \<Longrightarrow> m \<in> set (cl_applied (ks_raft S) i)"
  using assms by (auto simp: serverInv_def Let_def)

lemma kinvD:
  assumes "kinv n r S"
  shows "reachable n (ks_raft S)" "crel n r (ks_raft S)" "i \<in> servers n \<Longrightarrow> serverInv n r S i"
    "SnapReq j p args \<in># cl_net (ks_raft S) \<Longrightarrow> stateAt n r (isLastIncludedIndex args) (loadState (isData args))"
    "m \<in># cl_pend (ks_raft S) p \<Longrightarrow> \<not> amCommandValid m"
    "m \<in># cl_pend (ks_raft S) p \<Longrightarrow> stateAt n r (amSnapshotIndex m) (loadState (amSnapshot m))"
  using assms by (auto simp: kinv_def)

text \<open>A server that a step leaves alone, or whose Raft took a step of its own.\<close>

lemma serverInv_frame:
  assumes inv: "serverInv n r S i" and g: "grows r r'" "rinvs n r"
    and rf: "keeps (cl_node (ks_raft S) i) (cl_node (ks_raft S') i)"
    and app: "set (cl_applied (ks_raft S) i) \<subseteq> set (cl_applied (ks_raft S') i)"
    and kv: "kvAbs (ks_kv S' i) = kvAbs (ks_kv S i)" "kv_lastApplied (ks_kv S' i) = kv_lastApplied (ks_kv S i)"
      "kv_dead (ks_kv S' i) = kv_dead (ks_kv S i)" "ks_done S' i = ks_done S i" "ks_queue S' i = ks_queue S i"
  shows "serverInv n r' S' i"
  using serverInvD [OF inv] keepsD [OF rf] kv app stateAt_grows [OF _ g]
  by (auto simp: serverInv_def Let_def)

text \<open>A step: Raft stays or takes a step, and the servers keep their part of the invariant.\<close>

lemma kinv_step:
  assumes inv: "kinv n r S" and step: "ks_raft S' = ks_raft S \<or> cstep n (ks_raft S) (ks_raft S')"
    and servers: "\<And>r' i. grows r r' \<Longrightarrow> rinvs n r' \<Longrightarrow> i \<in> servers n \<Longrightarrow> serverInv n r' S' i"
  shows "\<exists>r'. kinv n r' S'"
proof -
  note c = kinvD(2) [OF inv]
  obtain r' where r': "crel n r' (ks_raft S')" "grows r r'" and re: "reachable n (ks_raft S')"
  proof (cases "ks_raft S' = ks_raft S")
    case True
    then show thesis using that [of r] inv grows_refl [of r] by (simp add: kinv_def)
  next
    case False
    then have st: "cstep n (ks_raft S) (ks_raft S')" using step by blast
    then obtain r' where "rsteps n r r'" "crel n r' (ks_raft S')" using cstep_safe [OF _ kinvD(1) [OF inv] c] by blast
    then show thesis
      using that repl.rsteps_ok crelD(1) [OF c] reachable.step [OF kinvD(1) [OF inv] st] by blast
  qed
  have later: "stateAt n r k s \<Longrightarrow> stateAt n r' k s" for k s using stateAt_grows [OF _ r'(2) crelD(1) [OF c]] .
  have "stateAt n r (isLastIncludedIndex args) (loadState (isData args))"
    if "SnapReq j p args \<in># cl_net (ks_raft S')" for j p args
    using step that snapshot_calls [of n "ks_raft S" "ks_raft S'" j p args] kinvD(4) [OF inv]
      serverInvD(2) [OF kinvD(3) [OF inv]] by metis
  moreover have "\<not> amCommandValid m \<and> stateAt n r (amSnapshotIndex m) (loadState (amSnapshot m))"
    if "m \<in># cl_pend (ks_raft S') p" for m p
    using step that snapshot_messages [of n "ks_raft S" "ks_raft S'" m p] kinvD(4-6) [OF inv] by metis
  ultimately show ?thesis
    using r' re later servers [OF r'(2) crelD(1) [OF r'(1)]] unfolding kinv_def by blast
qed

section \<open>The steps keep the invariant\<close>

text \<open>A step of one server: the others are left alone.\<close>

lemma kinv_server:
  assumes inv: "kinv n r S" and step: "ks_raft S' = ks_raft S \<or> cstep n (ks_raft S) (ks_raft S')"
    and others: "\<And>j. j \<noteq> i \<Longrightarrow> cl_node (ks_raft S') j = cl_node (ks_raft S) j \<and>
      cl_applied (ks_raft S') j = cl_applied (ks_raft S) j \<and> ks_kv S' j = ks_kv S j \<and>
      ks_done S' j = ks_done S j \<and> ks_queue S' j = ks_queue S j"
    and server: "i \<in> servers n \<Longrightarrow> serverInv n r S' i"
  shows "\<exists>r'. kinv n r' S'"
proof (rule kinv_step [OF inv step])
  fix r' j
  assume g: "grows r r'" "rinvs n r'" and j: "j \<in> servers n"
  note rinv = crelD(1) [OF kinvD(2) [OF inv]]
  show "serverInv n r' S' j"
  proof (cases "j = i")
    case True
    then show ?thesis using serverInv_frame [OF server g(1) rinv] j by simp
  next
    case False
    then show ?thesis using serverInv_frame [OF kinvD(3) [OF inv j] g(1) rinv] others [OF False] by simp
  qed
qed

lemma kinv_raft:
  assumes "kinv n r S" "quietStep n (ks_raft S) cl"
  shows "\<exists>r'. kinv n r' (S\<lparr>ks_raft := cl\<rparr>)"
proof (rule kinv_step [OF assms(1)])
  show "ks_raft (S\<lparr>ks_raft := cl\<rparr>) = ks_raft S \<or> cstep n (ks_raft S) (ks_raft (S\<lparr>ks_raft := cl\<rparr>))"
    using assms(2) by (simp add: quietStep_def)
  show "serverInv n r' (S\<lparr>ks_raft := cl\<rparr>) i" if "grows r r'" "i \<in> servers n" for r' i
    using serverInv_frame [OF kinvD(3) [OF assms(1) that(2)] that(1) crelD(1) [OF kinvD(2) [OF assms(1)]],
        of "S\<lparr>ks_raft := cl\<rparr>"] assms(2) that(2) by (simp add: quietStep_def)
qed

lemma DoApply_effect:
  "DoApply rf = Inr (rf', Some m) \<Longrightarrow> rf' = rf\<lparr>rf_lastApplied := rf_lastApplied rf + 1\<rparr> \<and> amCommandValid m"
  by (auto simp: DoApply_def Let_def elim!: rbind_InrE split: if_splits option.splits)

lemma kinv_handOut:
  assumes inv: "kinv n r S" and i: "i \<in> servers n" and h: "DoApply (cl_node (ks_raft S) i) = Inr (rf, Some m)"
    and S': "S' = S\<lparr>ks_raft := setNode i rf ((ks_raft S)\<lparr>cl_applied :=
         (cl_applied (ks_raft S))(i := cl_applied (ks_raft S) i @ [m])\<rparr>),
       ks_queue := (ks_queue S)(i := ks_queue S i @ [m])\<rparr>"
  shows "\<exists>r'. kinv n r' S'"
proof (rule kinv_server [OF inv, where i = i])
  let ?cl = "ks_raft S"
  show "ks_raft S' = ?cl \<or> cstep n ?cl (ks_raft S')" using cstep.applyEntry [OF i h] by (simp add: S')
  note v = serverInvD [OF kinvD(3) [OF inv i]] and e = DoApply_effect [OF h]
  have ix: "amCommandIndex m = rf_lastApplied (cl_node ?cl i) + 1"
    using DoApply_applyRel(3) [OF crelD(1) [OF kinvD(2) [OF inv]] crelD(4) [OF kinvD(2) [OF inv] i]
        reachable_wf [OF kinvD(1) [OF inv] i] i h] .
  have "queueOk (kv_lastApplied (ks_kv S i)) (ks_done S i) (rf_lastApplied (cl_node ?cl i) + 1) (ks_queue S i @ [m])"
    using v(4,7) ix upto_rec2 [of "ks_done S i + 1" "rf_lastApplied (cl_node ?cl i) + 1"] by (auto simp: queueOk_def)
  then show "serverInv n r S' i" using v e by (auto simp: serverInv_def Let_def S')
qed (simp add: S')

lemma Snapshot_effect:
  assumes "Snapshot k snap rf = Inr rf'" "wf_log (rf_log rf)" "base (rf_log rf) \<le> k" "k \<le> tailIndex (rf_log rf)"
  shows "base (rf_log rf') = k" "ReadSnapshot (rf_persister rf') = snap" "rf_lastApplied rf' = rf_lastApplied rf"
proof -
  have "nat (k - base (rf_log rf)) < length (rf_log rf)" using assms(3,4) by (auto simp: tailIndex_def)
  then have "eIndex (rf_log rf ! nat (k - base (rf_log rf))) = k" using wf_log_nth [OF assms(2)] assms(3) by simp
  then show "base (rf_log rf') = k" "ReadSnapshot (rf_persister rf') = snap" "rf_lastApplied rf' = rf_lastApplied rf"
    using Snapshot_inside [OF assms(2-4), of snap] assms(1) by (auto simp: Let_def base_def ps.storage_simps)
qed

text \<open>What a server has applied is inside its log.\<close>

lemma applied_inside:
  assumes "crel n r cl" "i \<in> servers n"
  shows "rf_lastApplied (cl_node cl i) \<le> tailIndex (rf_log (cl_node cl i))"
    "rf_lastApplied (cl_node cl i) \<le> rf_commitIndex (cl_node cl i)"
    "base (rf_log (cl_node cl i)) \<le> rf_commitIndex (cl_node cl i)"
proof -
  note nr = crelD(4) [OF assms]
  have "comm (majority n) r (cm r i) (lg r i) (tm r i)" using rinvD(2) [OF crelD(1) [OF assms(1)] assms(2)] by (simp add: slog_ok_def)
  then show "rf_lastApplied (cl_node cl i) \<le> tailIndex (rf_log (cl_node cl i))"
    using repl.comm_len [OF crelD(1) [OF assms(1)]] nodeRelD(3,5) [OF nr] repLog_tail [OF nodeRelD(2) [OF nr]] by fastforce
qed (use nodeRelD(4,5) [OF crelD(4) [OF assms]] in auto)

lemma queueOk_Cons:
  assumes "queueOk la d e (m # q)" "la \<le> d"
  shows "amCommandIndex m \<le> la \<and> queueOk la d e q \<or>
    amCommandIndex m = d + 1 \<and> d < e \<and> (\<forall>la'. queueOk la' (d + 1) e q)"
proof -
  obtain stale where st: "amCommandIndex m # map amCommandIndex q = stale @ [d + 1..e]" "\<forall>k \<in> set stale. k \<le> la"
    using assms(1) by (auto simp: queueOk_def)
  show ?thesis
  proof (cases stale)
    case Nil
    then have u: "[d + 1..e] = amCommandIndex m # map amCommandIndex q" using st(1) by simp
    then have "d + 1 \<le> e" by (metis list.discI upto_empty linorder_not_le)
    then have "amCommandIndex m = d + 1" "map amCommandIndex q = [d + 1 + 1..e]" using u upto_rec1 [of "d + 1" e] by (metis list.inject)+
    then show ?thesis using \<open>d + 1 \<le> e\<close> by (auto simp: queueOk_def)
  next
    case (Cons k ks)
    then show ?thesis using st by (auto simp: queueOk_def)
  qed
qed

lemma kinv_applyCmd:
  assumes inv: "kinv n r S" and i: "i \<in> servers n" and q: "ks_queue S i = m # q"
    and h: "kvDoApply bytelen m (kvAt S i) = Inr kv"
    and S': "S' = setKV i kv (ks_raft S) (max (ks_done S i) (amCommandIndex m)) (S\<lparr>ks_queue := (ks_queue S)(i := q)\<rparr>)"
  shows "\<exists>r'. kinv n r' S'"
proof -
  let ?cl = "ks_raft S" and ?k = "amCommandIndex m"
  let ?rf = "cl_node ?cl i"
  note v = serverInvD [OF kinvD(3) [OF inv i]] and c = kinvD(2) [OF inv]
  have m: "amCommandValid m" "m \<in> set (cl_applied ?cl i)" using v(8,9) q by auto
  note e = kvDoApply_command [OF h m(1), simplified, OF v(6)]
  have idem: "setNode i ?rf ?cl = ?cl" by (simp add: setNode_def)
  have others: "cl_node (ks_raft S') j = cl_node ?cl j \<and> cl_applied (ks_raft S') j = cl_applied ?cl j \<and>
      ks_kv S' j = ks_kv S j \<and> ks_done S' j = ks_done S j \<and> ks_queue S' j = ks_queue S j" if "j \<noteq> i" for j
    using that by (simp add: S')
  from queueOk_Cons [OF v(7) [unfolded q] v(5)] show ?thesis
  proof (elim disjE conjE)
    assume old: "?k \<le> kv_lastApplied (ks_kv S i)" and qo: "queueOk (kv_lastApplied (ks_kv S i)) (ks_done S i) (rf_lastApplied ?rf) q"
    have "serverInv n r S' i" using v e(1) e(2) [OF old] old qo q by (auto simp: serverInv_def Let_def S')
    moreover have "ks_raft S' = ?cl" using e(2) [OF old] idem by (simp add: S')
    ultimately show ?thesis using kinv_server [OF inv, where i = i] others by blast
  next
    assume new: "?k = ks_done S i + 1" and le: "ks_done S i < rf_lastApplied ?rf"
      and qo: "\<forall>la'. queueOk la' (ks_done S i + 1) (rf_lastApplied ?rf) q"
    have la: "kv_lastApplied (ks_kv S i) < ?k" using v(5) new by simp
    note e3 = e(3) [OF la]
    have st: "stateAt n r ?k (kvAbs kv)"
      using stateAt_next [OF crelD(1) [OF c] v(1) crelD(7) [OF c i m(2)] new] e3 new by simp
    have rf: "base (rf_log (kv_rf kv)) \<le> ?k \<and> rf_lastApplied (kv_rf kv) = rf_lastApplied ?rf \<and>
        stateAt n r (base (rf_log (kv_rf kv))) (loadState (ReadSnapshot (rf_persister (kv_rf kv)))) \<and>
        (setNode i (kv_rf kv) ?cl = ?cl \<or> cstep n ?cl (setNode i (kv_rf kv) ?cl))"
    proof (cases "kv_rf kv = ?rf")
      case True
      then show ?thesis using v(2,3) new idem by simp
    next
      case False
      then have s: "Snapshot ?k (saveState (kvAbs kv)) ?rf = Inr (kv_rf kv)" using e3 by blast
      have "?k \<le> tailIndex (rf_log ?rf)" "base (rf_log ?rf) \<le> ?k" using applied_inside(1) [OF c i] le v(3) new by auto
      with Snapshot_effect [OF s reachable_wf [OF kinvD(1) [OF inv] i]] cstep.takeSnapshot [OF i m(2) s] st
      show ?thesis by (simp add: kvs.load_save)
    qed
    then have "serverInv n r S' i"
      using v e(1) e3 new le qo st q by (auto simp: serverInv_def Let_def S' max_def)
    then show ?thesis using rf kinv_server [OF inv, where i = i and S' = S'] others by (simp add: S')
  qed
qed

text \<open>A snapshot that another server sent: either it is old, or it covers all of the channel.\<close>

lemma queueOk_covered:
  assumes "queueOk la d e q" "la \<le> d" "d \<le> e" "e \<le> k"
  shows "queueOk k k k q"
proof -
  obtain stale where "map amCommandIndex q = stale @ [d + 1..e]" "\<forall>x \<in> set stale. x \<le> la"
    using assms(1) by (auto simp: queueOk_def)
  then have "map amCommandIndex q = map amCommandIndex q @ [k + 1..k]" "\<forall>x \<in> set (map amCommandIndex q). x \<le> k"
    using assms(2-4) by auto
  then show ?thesis unfolding queueOk_def by blast
qed

lemma kinv_applySnap:
  assumes inv: "kinv n r S" and i: "i \<in> servers n" and m: "m \<in># cl_pend (ks_raft S) i"
    and h: "kvDoApply bytelen m (kvAt S i) = Inr kv"
    and S': "S' = setKV i kv ((ks_raft S)\<lparr>cl_pend := (cl_pend (ks_raft S))(i := cl_pend (ks_raft S) i - {#m#})\<rparr>)
       (if rf_commitIndex (cl_node (ks_raft S) i) \<le> amSnapshotIndex m then amSnapshotIndex m else ks_done S i) S"
  shows "\<exists>r'. kinv n r' S'"
proof (rule kinv_server [OF inv, where i = i])
  let ?cl = "ks_raft S"
  let ?rf = "cl_node ?cl i" and ?k = "amSnapshotIndex m"
  note v = serverInvD [OF kinvD(3) [OF inv i]] and in_log = applied_inside [OF kinvD(2) [OF inv] i]
  note e = kvDoApply_snapshot [OF h kinvD(5) [OF inv m], simplified, OF v(6) reachable_wf [OF kinvD(1) [OF inv] i] in_log(3)]
  show "ks_raft S' = ?cl \<or> cstep n ?cl (ks_raft S')" using e(2) cstep.installSnapshot [OF i m] by (auto simp: S')
  show "serverInv n r S' i"
  proof (cases "rf_commitIndex ?rf \<le> ?k")
    case True
    have "queueOk ?k ?k ?k (ks_queue S i)" using queueOk_covered [OF v(7,5,4)] in_log(2) True by simp
    then show ?thesis
      using v(8,9) e(1) e(4) [OF True] True kinvD(6) [OF inv m] by (auto simp: serverInv_def Let_def S')
  next
    case False
    then show ?thesis using v e(1,3) by (auto simp: serverInv_def Let_def S')
  qed
qed (simp add: S')

lemma StartKVServer_starts:
  assumes "StartKVServer n i ps maxraftstate x = Inr kv"
  shows "Make n i ps x = Inr (kv_rf kv)" "kvAbs kv = loadState (ReadSnapshot ps)" "kv_lastApplied kv = 0" "\<not> kv_dead kv"
proof -
  have dead: "kv_dead (readSnapshot g kv) = kv_dead kv" for g kv by (simp add: readSnapshot_def split: prod.split)
  show "Make n i ps x = Inr (kv_rf kv)" "kvAbs kv = loadState (ReadSnapshot ps)" "kv_lastApplied kv = 0" "\<not> kv_dead kv"
    using assms by (auto simp: StartKVServer_def readSnapshot_load dead elim!: rbind_InrE)
qed

lemma kinv_restart:
  assumes inv: "kinv n r S" and i: "i \<in> servers n"
    and h: "StartKVServer n i (Copy (rf_persister (cl_node (ks_raft S) i))) maxraftstate x = Inr kv"
    and S': "S' = setKV i kv (setNet (filter_mset (\<lambda>m. \<not> replyTo i m) (cl_net (ks_raft S)))
         ((ks_raft S)\<lparr>cl_pend := (cl_pend (ks_raft S))(i := {#}), cl_applied := (cl_applied (ks_raft S))(i := [])\<rparr>))
       (rf_lastApplied (kv_rf kv)) (S\<lparr>ks_queue := (ks_queue S)(i := [])\<rparr>)"
  shows "\<exists>r'. kinv n r' S'"
proof (rule kinv_server [OF inv, where i = i])
  let ?cl = "ks_raft S"
  let ?rf = "cl_node ?cl i"
  note v = serverInvD [OF kinvD(3) [OF inv i]]
  note kv = StartKVServer_starts [OF h, unfolded ps.storage_simps]
  show "ks_raft S' = ?cl \<or> cstep n ?cl (ks_raft S')" using cstep.crash [OF i kv(1)] by (simp add: S')
  have rf: "rf_log (kv_rf kv) = rf_log ?rf" "rf_lastApplied (kv_rf kv) = base (rf_log ?rf)"
    "rf_persister (kv_rf kv) = rf_persister ?rf"
    using Make_restart [OF reachable_node_ok [OF kinvD(1) [OF inv] i], of x] kv(1) by auto
  have "queueOk 0 b b []" for b by (simp add: queueOk_def)
  moreover have "0 \<le> base (rf_log ?rf)" using v(2) by (simp add: stateAt_def)
  ultimately show "serverInv n r S' i" using v(2) kv rf by (simp add: serverInv_def Let_def S')
qed (simp add: S')

lemma kinv_wait:
  assumes "kinv n r S" "kvAbs kv = kvAbs (ks_kv S i)" "kv_lastApplied kv = kv_lastApplied (ks_kv S i)"
    and "kv_dead kv = kv_dead (ks_kv S i)"
  shows "\<exists>r'. kinv n r' (S\<lparr>ks_kv := (ks_kv S)(i := kv)\<rparr>)"
  using assms kinvD(3) [OF assms(1), of i]
  by (intro kinv_server [OF assms(1), where i = i]) (auto simp: serverInv_def Let_def)

lemma kstep_kinv: "kstep n bytelen S S' \<Longrightarrow> kinv n r S \<Longrightarrow> \<exists>r'. kinv n r' S'"
proof (induction rule: kstep.induct)
  case (raft S cl)
  then show ?case by (blast intro: kinv_raft)
next
  case (handOut i S rf m)
  then show ?case by (blast intro: kinv_handOut)
next
  case (applyCmd i S m q kv)
  then show ?case by (blast intro: kinv_applyCmd)
next
  case (applySnap i m S kv)
  then show ?case by (blast intro: kinv_applySnap)
next
  case (waitGet i S k)
  then show ?case by (intro kinv_wait) (auto simp: registerGet_def kvAt_def kvAbs_def)
next
  case (waitPut i S k)
  then show ?case by (intro kinv_wait) (auto simp: registerPut_def kvAt_def kvAbs_def)
next
  case (restart i S maxraftstate x kv)
  then show ?case by (blast intro: kinv_restart)
qed

lemma init_kinv:
  assumes "kv_init n S"
  shows "kinv n rep_start S"
proof -
  have c: "cluster_init n (ks_raft S)" using assms by (simp add: kv_init_def)
  have "serverInv n rep_start S i" if i: "i \<in> servers n" for i
  proof -
    from assms i obtain mx x where h: "StartKVServer n i MakePersister mx x = Inr (kvAt S i)"
      and q: "ks_queue S i = []" "ks_done S i = 0" by (auto simp: kv_init_def)
    note kv = StartKVServer_starts [OF h, simplified]
    have load: "loadState [] = (Map.empty, Map.empty)" by (simp add: loadState_def)
    have ps: "ReadSnapshot MakePersister = []" by (simp add: persister_defs)
    have rf: "rf_log (cl_node (ks_raft S) i) = [sentinel]" "rf_lastApplied (cl_node (ks_raft S) i) = 0"
      "rf_persister (cl_node (ks_raft S) i) = MakePersister"
      using kv(1) [unfolded Make_fresh, THEN Inr_inject, symmetric] by simp_all
    show ?thesis
      using kv(2-4) rf q stateAt_0 by (simp add: serverInv_def Let_def base_def sentinel_def ps load queueOk_def)
  qed
  then show ?thesis
    using c init_crel [OF c] reachable.init [OF c] by (simp add: kinv_def cluster_init_def)
qed

lemma kreachable_kinv: "kreachable n bytelen S \<Longrightarrow> \<exists>r. kinv n r S"
  by (induction rule: kreachable.induct) (blast intro: init_kinv, blast dest: kstep_kinv)

section \<open>One log for all servers\<close>

lemma kinv_one_log:
  assumes inv: "kinv n r S" and i: "i \<in> servers n" and cs: "cs = map eCommand (take K L)"
    and L: "comm (majority n) r K L T" "cm r i \<le> K"
  shows "let rf = cl_node (ks_raft S) i in
     0 \<le> ks_done S i \<and> ks_done S i \<le> rf_commitIndex rf \<and> rf_commitIndex rf \<le> int (length cs) \<and>
     kvAbs (ks_kv S i) = kvRun (take (nat (ks_done S i)) cs) \<and>
     (\<forall>k. base (rf_log rf) < k \<and> k \<le> rf_commitIndex rf \<longrightarrow>
        (\<exists>e. GetLogAtIndex (rf_log rf) k = Inr (Some e) \<and> eCommand e = cs ! nat (k - 1)))"
proof -
  let ?rf = "cl_node (ks_raft S) i" and ?d = "ks_done S i"
  note c = kinvD(2) [OF inv] and v = serverInvD [OF kinvD(3) [OF inv i]]
  note rinv = crelD(1) [OF c] and nr = crelD(4) [OF c i]
  have ci: "comm (majority n) r (cm r i) (lg r i) (tm r i)" using rinvD(2) [OF rinv i] by (simp add: slog_ok_def)
  have len: "length cs = K" "K \<le> length L" using repl.comm_len [OF rinv L(1)] by (auto simp: cs)
  have com: "rf_commitIndex ?rf = int (cm r i)" using nodeRelD(3) [OF nr] .
  have d: "0 \<le> ?d" "?d \<le> rf_commitIndex ?rf" using v(1,4) applied_inside(2) [OF c i] by (auto simp: stateAt_def)
  obtain P U where P: "comm (majority n) r (nat ?d) P U" "kvAbs (ks_kv S i) = kvRun (map eCommand (take (nat ?d) P))"
    using v(1) by (auto simp: stateAt_def)
  have dK: "nat ?d \<le> K" using d com L(2) by simp
  have "take (nat ?d) P = take (nat ?d) L" using repl.comm_agree [OF rinv P(1) L(1) order_refl dK] .
  then have "kvAbs (ks_kv S i) = kvRun (take (nat ?d) cs)" using P(2) dK by (simp add: cs take_map min_absorb1)
  moreover have "\<exists>e. GetLogAtIndex (rf_log ?rf) k = Inr (Some e) \<and> eCommand e = cs ! nat (k - 1)"
    if k: "base (rf_log ?rf) < k" "k \<le> rf_commitIndex ?rf" for k
  proof -
    note rL = nodeRelD(2) [OF nr]
    have k1: "nat (k - 1) < cm r i" using k com repLogD(2) [OF rL] by auto
    have t: "k \<le> tailIndex (rf_log ?rf)" using k(2) com repl.comm_len [OF rinv ci] repLog_tail [OF rL] by simp
    have "take (cm r i) (lg r i) = take (cm r i) L" using repl.comm_agree [OF rinv ci L(1) order_refl L(2)] .
    then have "lg r i ! nat (k - 1) = L ! nat (k - 1)" using k1 by (metis nth_take)
    then have "eCommand (rf_log ?rf ! nat (k - base (rf_log ?rf))) = cs ! nat (k - 1)"
      using repLog_nth [OF rL k(1) t] k1 L(2) len by (simp add: cs)
    then show ?thesis using GetLogAtIndex_in [OF repLogD(1) [OF rL] _ t] k(1) by simp
  qed
  ultimately show ?thesis using d com L(2) len by (simp add: Let_def)
qed

end
