(* ===== verification/KV_Replicas.thy ===== *)
theory KV_Replicas
  imports KV_Cluster
begin

text \<open>
  The replicas of the key/value store agree: what \<open>KV_Cluster\<close> shows of its steps, as one statement
  about a cluster, and a run in which it says something: the run of \<open>Raft_Run_Commit\<close> with
  key/value servers, where server 0 becomes leader, commits a request with server 1, receives it
  from Raft and applies it.
\<close>

section \<open>A run\<close>

definition kvStart0 :: "int \<Rightarrow> KVServer" where
  "kvStart0 i = projr (StartKVServer 3 i MakePersister (- 1) 0)"

definition kvDemo :: "(kv_op, kv_item) cluster \<Rightarrow> kvCluster" where
  "kvDemo cl = \<lparr>ks_raft = cl, ks_kv = kvStart0, ks_queue = (\<lambda>_. []), ks_done = (\<lambda>_. 0)\<rparr>"

abbreviation kvOp :: kv_op where
  "kvOp \<equiv> sampleAppend 1 ''a''"

definition kvDemo8 :: kvCluster where
  "kvDemo8 = (kvDemo (run8 kvOp))\<lparr>ks_queue := (\<lambda>_. [])(0 := [runMsg kvOp])\<rparr>"

definition kvDemo9 :: kvCluster where
  "kvDemo9 = setKV 0 (projr (kvDoApply (\<lambda>_. 0) (runMsg kvOp) (kvAt kvDemo8 0))) (ks_raft kvDemo8) 1
     (kvDemo8\<lparr>ks_queue := (ks_queue kvDemo8)(0 := [])\<rparr>)"

text \<open>Raft's part of the run, up to the commit, is its own.\<close>

definition freshNode :: "('c, 's) Raft \<Rightarrow> bool" where
  "freshNode rf \<longleftrightarrow> base (rf_log rf) = 0 \<and> rf_lastApplied rf = 0 \<and> ps_snapshot (rf_persister rf) = []"

lemma fresh_keeps: "freshNode rf \<Longrightarrow> freshNode rf' \<Longrightarrow> keeps rf rf'"
  by (simp add: freshNode_def keeps_def ReadSnapshot_def)

lemma fresh_nodes:
  "freshNode (cl_node run0 i)" "freshNode candidate1" "freshNode voter4" "freshNode (leader4 c)"
  "freshNode (voter6 c)" "freshNode (leader7 c)"
  by (simp add: run0_def Make_fresh freshNode_def base_def sentinel_def, simp add: MakePersister_def)
    (simp_all add: freshNode_def base_def sentinel_def MakePersister_def candidate1_def voter4_def voter6_def
      leader4_def leader7_def)

lemma fresh_run1: "freshNode (cl_node run1 i)"
  by (cases "i = 0") (simp add: run1_node fresh_nodes, simp add: run1_def fresh_nodes)

lemma fresh_run2: "freshNode (cl_node run2 i)"
  by (cases "i = 1") (simp add: run2_nodes fresh_nodes, simp add: run2_def fresh_run1)

lemma fresh_run3: "freshNode (cl_node run3 i)"
  by (cases "i = 0") (simp add: run3_node candidate1_def freshNode_def base_def sentinel_def MakePersister_def,
      simp add: run3_def fresh_run2)

lemma fresh_run4: "freshNode (cl_node (run4 c) i)"
  by (cases "i = 0") (simp add: run4_nodes fresh_nodes, simp add: run4_def fresh_run3)

lemma fresh_run5: "freshNode (cl_node (run5 c) i)"
  by (simp add: run5_def fresh_run4)

lemma fresh_run6: "freshNode (cl_node (run6 c) i)"
  by (simp add: run6_def fresh_run5 fresh_nodes)

lemma fresh_run7: "freshNode (cl_node (run7 c) i)"
  by (simp add: run7_def fresh_run6 fresh_nodes)

lemma quiet_fresh:
  assumes "cstep n cl cl'" "cl_applied cl' = cl_applied cl" "\<And>i. freshNode (cl_node cl i)" "\<And>i. freshNode (cl_node cl' i)"
  shows "quietStep n cl cl'"
  using assms fresh_keeps by (auto simp: quietStep_def)

lemma quiet_runs:
  "quietStep 3 run0 run1" "quietStep 3 run1 run2" "quietStep 3 run2 run3" "quietStep 3 run3 (run4 c)"
  "quietStep 3 (run4 c) (run5 c)" "quietStep 3 (run5 c) (run6 c)" "quietStep 3 (run6 c) (run7 c)"
  by (rule quiet_fresh [OF cstep_run1 _ fresh_nodes(1) fresh_run1], simp add: run1_def)
    (rule quiet_fresh [OF cstep_run2 _ fresh_run1 fresh_run2], simp add: run2_def,
     rule quiet_fresh [OF cstep_run3 _ fresh_run2 fresh_run3], simp add: run3_def,
     rule quiet_fresh [OF cstep_run4 _ fresh_run3 fresh_run4], simp add: run4_def,
     rule quiet_fresh [OF csteps_run8(1) _ fresh_run4 fresh_run5], simp add: run5_def,
     rule quiet_fresh [OF csteps_run8(2) _ fresh_run5 fresh_run6], simp add: run6_def,
     rule quiet_fresh [OF csteps_run8(3) _ fresh_run6 fresh_run7], simp add: run7_def)

lemma kvDemo_raft: "kreachable 3 bytelen (kvDemo cl) \<Longrightarrow> quietStep 3 cl cl' \<Longrightarrow> kreachable 3 bytelen (kvDemo cl')"
  using kreachable.step [OF _ kstep.raft, of 3 bytelen "kvDemo cl" cl'] by (simp add: kvDemo_def)

lemma kvDemo_init: "kv_init 3 (kvDemo run0)"
proof -
  have "cluster_init 3 run0" using run0_node by (auto simp: cluster_init_def) (simp_all add: run0_def)
  moreover have "StartKVServer 3 i MakePersister (- 1) 0 = Inr (kvAt (kvDemo run0) i)" for i
    by (simp add: kvAt_def kvDemo_def kvStart0_def StartKVServer_def run0_def Make_fresh readSnapshot_def split: prod.split)
  ultimately show ?thesis by (auto simp: kv_init_def kvDemo_def)
qed

lemma kvDemo7: "kreachable 3 bytelen (kvDemo (run7 c))"
  by (intro kvDemo_raft [OF _ quiet_runs(7)] kvDemo_raft [OF _ quiet_runs(6)] kvDemo_raft [OF _ quiet_runs(5)]
      kvDemo_raft [OF _ quiet_runs(4)] kvDemo_raft [OF _ quiet_runs(3)] kvDemo_raft [OF _ quiet_runs(2)]
      kvDemo_raft [OF _ quiet_runs(1)] kreachable.init kvDemo_init)

lemma kvDemo8: "kreachable 3 bytelen kvDemo8"
proof -
  have d: "DoApply (cl_node (ks_raft (kvDemo (run7 kvOp))) 0) = Inr ((leader7 kvOp)\<lparr>rf_lastApplied := 1\<rparr>, Some (runMsg kvOp))"
    by (simp add: kvDemo_def run_more_nodes run_apply)
  show ?thesis
    using kreachable.step [OF kvDemo7 kstep.handOut [OF _ d]]
    by (simp add: kvDemo8_def kvDemo_def run8_def servers3)
qed

lemma kvStart0: "kvAbs (kvStart0 i) = (Map.empty, Map.empty)" "kv_lastApplied (kvStart0 i) = 0"
  "\<not> kv_dead (kvStart0 i)" "kv_maxraftstate (kvStart0 i) = - 1" "kv_get (kvStart0 i) = Map.empty"
  "kv_done (kvStart0 i) = Map.empty"
  by (simp_all add: kvStart0_def StartKVServer_def Make_fresh readSnapshot_def kvAbs_def ReadSnapshot_def)
    (simp_all add: MakePersister_def)

lemma kvDoApply_no_snapshot:
  assumes "kvDoApply bytelen m kv = Inr kv'" "amCommandValid m" "\<not> kv_dead kv" "kv_maxraftstate kv = - 1"
  shows "kv_rf kv' = kv_rf kv"
proof -
  from assms(1-3) obtain kv1 where "kvApply bytelen m kv = Inr kv1" "kv_rf kv' = kv_rf kv1" by (rule kvDoApply_applies)
  then show ?thesis using assms(4) by (auto simp: kvApply_def Let_def split: if_splits)
qed

lemma kvDemo9_step: "kvDoApply (\<lambda>_. 0) (runMsg kvOp) (kvAt kvDemo8 0) =
    Inr (projr (kvDoApply (\<lambda>_. 0) (runMsg kvOp) (kvAt kvDemo8 0)))"
proof -
  have "wf_log (rf_log (kv_rf (kvAt kvDemo8 0)))"
    using reachable_wf [OF reachable_run8, of 0 kvOp] by (simp add: servers3 kvDemo8_def kvDemo_def)
  moreover have "\<not> kv_dead (kvAt kvDemo8 0)" by (simp add: kvDemo8_def kvDemo_def kvStart0)
  ultimately obtain kv where "kvDoApply (\<lambda>_. 0) (runMsg kvOp) (kvAt kvDemo8 0) = Inr kv"
    using kvDoApply_refines [of "kvAt kvDemo8 0" "runMsg kvOp" kvOp "\<lambda>_. 0"] by (auto simp: runMsg_def)
  then show ?thesis by simp
qed

lemma kvDemo9: "kreachable 3 (\<lambda>_. 0) kvDemo9"
proof -
  have q: "ks_queue kvDemo8 0 = [runMsg kvOp]" "ks_done kvDemo8 0 = 0" by (simp_all add: kvDemo8_def kvDemo_def)
  from kreachable.step [OF kvDemo8 kstep.applyCmd [OF _ q(1) kvDemo9_step]] show ?thesis
    using q(2) by (simp add: kvDemo9_def servers3) (simp add: runMsg_def)
qed

lemma kvDemo9_raft: "cl_node (ks_raft kvDemo9) 0 = (leader7 kvOp)\<lparr>rf_lastApplied := 1\<rparr>"
proof -
  have "kv_rf (projr (kvDoApply (\<lambda>_. 0) (runMsg kvOp) (kvAt kvDemo8 0))) = kv_rf (kvAt kvDemo8 0)"
    by (rule kvDoApply_no_snapshot [OF kvDemo9_step])
      (simp add: runMsg_def, simp_all add: kvAt_def kvDemo8_def kvDemo_def kvStart0)
  then show ?thesis by (simp add: kvDemo9_def) (simp add: kvDemo8_def kvDemo_def run_more_nodes)
qed

section \<open>Replicas agree\<close>

text \<open>
  C4. One log for all: whatever the network does, whichever servers crash, and whenever they take,
  send and load snapshots, there is one sequence of commands such that each server's store and table
  of last requests are those that its first commands produce, up to the index the server has reached;
  that index is never beyond the server's commit index, and every entry that a server's log holds up
  to its commit index is the command of the sequence at that index.
\<close>

theorem kv_replicas_agree:
  assumes "kreachable n bytelen S"
  shows "\<exists>cs. \<forall>i \<in> servers n. let rf = cl_node (ks_raft S) i in
     0 \<le> ks_done S i \<and> ks_done S i \<le> rf_commitIndex rf \<and> rf_commitIndex rf \<le> int (length cs) \<and>
     kvAbs (ks_kv S i) = kvRun (take (nat (ks_done S i)) cs) \<and>
     (\<forall>k. base (rf_log rf) < k \<and> k \<le> rf_commitIndex rf \<longrightarrow>
        (\<exists>e. GetLogAtIndex (rf_log rf) k = Inr (Some e) \<and> eCommand e = cs ! nat (k - 1)))"
proof (cases "servers n = {}")
  case False
  obtain r where inv: "kinv n r S" using kreachable_kinv [OF assms] by blast
  have "Max (cm r ` servers n) \<in> cm r ` servers n" using False by (intro Max_in) auto
  then obtain top where top: "top \<in> servers n" "cm r top = Max (cm r ` servers n)" by auto
  have "comm (majority n) r (cm r top) (lg r top) (tm r top)"
    using rinvD(2) [OF crelD(1) [OF kinvD(2) [OF inv]] top(1)] by (simp add: slog_ok_def)
  moreover have "cm r i \<le> cm r top" if "i \<in> servers n" for i using that top(2) by simp
  ultimately show ?thesis using kinv_one_log [OF inv _ refl] by blast
qed simp

lemma kv_replicas_agree_witness:
  "ks_done kvDemo9 0 = 1 \<and> ks_done kvDemo9 1 = 0 \<and>
   (\<exists>cs. kvAbs (ks_kv kvDemo9 0) = kvRun (take 1 cs) \<and> kvAbs (ks_kv kvDemo9 1) = kvRun [] \<and>
      cs ! 0 = Some (sampleAppend 1 ''a''))"
proof -
  have d: "ks_done kvDemo9 0 = 1" "ks_done kvDemo9 1 = 0" by (simp_all add: kvDemo9_def kvDemo8_def kvDemo_def)
  have rf: "base (rf_log (cl_node (ks_raft kvDemo9) 0)) = 0" "rf_commitIndex (cl_node (ks_raft kvDemo9) 0) = 1"
    "GetLogAtIndex (rf_log (cl_node (ks_raft kvDemo9) 0)) 1 = Inr (Some (runEntry kvOp))"
    by (simp_all add: kvDemo9_raft leader7_def leader4_def candidate1_def run_log_defs base_def)
  from kv_replicas_agree [OF kvDemo9] obtain cs where cs:
    "kvAbs (ks_kv kvDemo9 0) = kvRun (take (nat (ks_done kvDemo9 0)) cs)"
    "kvAbs (ks_kv kvDemo9 1) = kvRun (take (nat (ks_done kvDemo9 1)) cs)"
    "\<exists>e. GetLogAtIndex (rf_log (cl_node (ks_raft kvDemo9) 0)) 1 = Inr (Some e) \<and> eCommand e = cs ! nat (1 - 1)"
    unfolding Let_def servers3 using rf(1,2) by auto
  then show ?thesis using d rf(3) by (auto simp: runEntry_def intro!: exI [of _ cs])
qed

end
