(* ===== verification/KV_Clerk.thy ===== *)
theory KV_Clerk
  imports KV_Server
begin

text \<open>
  The client of the key/value service, \<^verbatim>\<open>db_files/raft-db/client.go\<close>. Its loops end only when a
  server answers \<^verbatim>\<open>OK\<close>, so they take fuel, the number of calls allowed; \<open>Inr None\<close> means that
  the fuel ran out before an answer. What the calls return is an argument: \<open>call k s\<close> is the
  outcome of the \<open>k\<close>-th call when it goes to server \<open>s\<close>, \<open>None\<close> when \<^verbatim>\<open>Call\<close> returns false.
  Random numbers are arguments.
\<close>

record Clerk =
  ck_servers :: nat                 \<comment> \<open>\<^verbatim>\<open>len(ck.servers)\<close>\<close>
  ck_cid :: "32 word"
  ck_leader :: int

definition MakeClerk :: "nat \<Rightarrow> 32 word \<Rightarrow> Clerk" where
  "MakeClerk servers rnd = \<lparr>ck_servers = servers, ck_cid = take_bit 31 rnd, ck_leader = 0\<rparr>"

definition nrand :: "nat \<Rightarrow> 64 word" where
  "nrand x = of_nat (x mod 2 ^ 62)"

definition clerkArgs :: "Clerk \<Rightarrow> nat \<Rightarrow> 32 word \<times> 64 word" where
  "clerkArgs ck rnd = (ck_cid ck, nrand rnd)"

definition nextLeader :: "int \<Rightarrow> Clerk \<Rightarrow> Clerk \<times> int" where
  "nextLeader current ck =
     (let nxt = (current + 1) mod int (ck_servers ck) in (ck\<lparr>ck_leader := nxt\<rparr>, nxt))"

fun clerkGetLoop ::
    "(nat \<Rightarrow> int \<Rightarrow> GetReply option) \<Rightarrow> nat \<Rightarrow> nat \<Rightarrow> int \<Rightarrow> Clerk \<Rightarrow> (Clerk \<times> string) option res" where
  "clerkGetLoop call 0 k leader ck = Inr None"
| "clerkGetLoop call (Suc fuel) k leader ck =
     (if \<not> (0 \<le> leader \<and> leader < int (ck_servers ck)) then Inl IndexOutOfRange
      else
        let next = (\<lambda>_. let (ck', l') = nextLeader leader ck in clerkGetLoop call fuel (k + 1) l' ck')
        in case call k leader of
             None \<Rightarrow> next ()
           | Some reply \<Rightarrow>
               if grErr reply = OK then Inr (Some (ck, grValue reply))
               else if grErr reply = ErrTimeout then clerkGetLoop call fuel (k + 1) leader ck
               else next ())"

definition clerkGet ::
    "(GetArgs \<Rightarrow> nat \<Rightarrow> int \<Rightarrow> GetReply option) \<Rightarrow> nat \<Rightarrow> string \<Rightarrow> Clerk \<Rightarrow> (Clerk \<times> string) option res" where
  "clerkGet call fuel key ck = clerkGetLoop (call \<lparr>gaKey = key\<rparr>) fuel 0 (ck_leader ck) ck"

fun clerkPutLoop ::
    "(nat \<Rightarrow> int \<Rightarrow> PutAppendReply option) \<Rightarrow> nat \<Rightarrow> nat \<Rightarrow> int \<Rightarrow> Clerk \<Rightarrow> Clerk option res" where
  "clerkPutLoop call 0 k leader ck = Inr None"
| "clerkPutLoop call (Suc fuel) k leader ck =
     (if \<not> (0 \<le> leader \<and> leader < int (ck_servers ck)) then Inl IndexOutOfRange
      else
        let next = (\<lambda>_. let (ck', l') = nextLeader leader ck in clerkPutLoop call fuel (k + 1) l' ck')
        in case call k leader of
             None \<Rightarrow> next ()
           | Some reply \<Rightarrow>
               if parErr reply = OK then Inr (Some ck)
               else if parErr reply = ErrTimeout then clerkPutLoop call fuel (k + 1) leader ck
               else next ())"

definition clerkPutAppend ::
    "(PutAppendArgs \<Rightarrow> nat \<Rightarrow> int \<Rightarrow> PutAppendReply option) \<Rightarrow> nat \<Rightarrow> nat \<Rightarrow> string \<Rightarrow> string \<Rightarrow> string \<Rightarrow>
     Clerk \<Rightarrow> Clerk option res" where
  "clerkPutAppend call fuel rnd key value op ck =
     (let (cid, rid) = clerkArgs ck rnd;
          args = \<lparr>paType = (if op = ''Put'' then PutOp else AppendOp), paKey = key, paValue = value,
                  paClientId = cid, paRequestId = rid\<rparr>
      in clerkPutLoop (call args) fuel 0 (ck_leader ck) ck)"

definition clerkPut where
  "clerkPut call fuel rnd key value ck = clerkPutAppend call fuel rnd key value ''Put'' ck"

definition clerkAppend where
  "clerkAppend call fuel rnd key value ck = clerkPutAppend call fuel rnd key value ''Append'' ck"

section \<open>The round over the servers\<close>

lemma nextLeader_simps [simp]:
  "nextLeader c ck = (ck\<lparr>ck_leader := (c + 1) mod int (ck_servers ck)\<rparr>, (c + 1) mod int (ck_servers ck))"
  by (simp add: nextLeader_def Let_def)

text \<open>The number of steps from one server to another, going round.\<close>

definition hops :: "nat \<Rightarrow> int \<Rightarrow> int \<Rightarrow> nat" where
  "hops n from to = nat ((to - from) mod int n)"

lemma hops_less: "0 < n \<Longrightarrow> hops n a b < n"
  by (simp add: hops_def nat_less_iff)

lemma hops_next:
  assumes "0 \<le> a" "a < int n" "0 \<le> b" "b < int n" "a \<noteq> b"
  shows "hops n a b = Suc (hops n ((a + 1) mod int n) b)"
proof -
  have n: "0 < int n" using assms by linarith
  have "(b - (a + 1) mod int n) mod int n = (b - a - 1) mod int n"
    by (simp add: mod_diff_right_eq diff_diff_eq)
  also have "\<dots> = (b - a) mod int n - 1"
  proof -
    have "0 < (b - a) mod int n"
    proof (rule ccontr)
      assume "\<not> 0 < (b - a) mod int n"
      then have "int n dvd b - a" using pos_mod_sign [OF n, of "b - a"] by (simp add: mod_eq_0_iff_dvd)
      then show False using assms zdvd_imp_le [of "int n" "b - a"] zdvd_imp_le [of "int n" "a - b"]
        by (cases "a < b") (auto simp: dvd_diff_commute)
    qed
    then have r: "0 \<le> (b - a) mod int n - 1" "(b - a) mod int n - 1 < int n"
      using pos_mod_bound [OF n, of "b - a"] by simp_all
    have "(b - a - 1) mod int n = ((b - a) mod int n - 1) mod int n" by (simp add: mod_diff_left_eq)
    with r show ?thesis by simp
  qed
  finally have "(b - (a + 1) mod int n) mod int n = (b - a) mod int n - 1" .
  moreover have "0 < (b - a) mod int n"
    using calculation pos_mod_sign [OF n, of "b - (a + 1) mod int n"] by simp
  ultimately show ?thesis unfolding hops_def by simp
qed

lemma clerkGetLoop_finds:
  assumes "0 \<le> leader" "leader < int (ck_servers ck)" "0 \<le> s" "s < int (ck_servers ck)"
    and "\<And>j. \<exists>v. call j s = Some \<lparr>grErr = OK, grValue = v\<rparr>"
    and "\<And>j s' r. call j s' = Some r \<Longrightarrow> grErr r \<noteq> ErrTimeout"
    and "hops (ck_servers ck) leader s < fuel"
  shows "\<exists>ck' v j s'. clerkGetLoop call fuel k leader ck = Inr (Some (ck', v)) \<and>
     call j s' = Some \<lparr>grErr = OK, grValue = v\<rparr>"
  using assms(1,2,4,7)
proof (induction fuel arbitrary: k leader ck)
  case (Suc fuel)
  let ?n = "int (ck_servers ck)"
  let ?l = "(leader + 1) mod ?n" and ?ck = "ck\<lparr>ck_leader := (leader + 1) mod ?n\<rparr>"
  have onward: "\<exists>ck' v j s'. clerkGetLoop call fuel (k + 1) ?l ?ck = Inr (Some (ck', v)) \<and>
      call j s' = Some \<lparr>grErr = OK, grValue = v\<rparr>" if "leader \<noteq> s"
    using Suc.IH [of ?l ?ck "k + 1"] hops_next [OF Suc.prems(1,2) assms(3) Suc.prems(3) that] Suc.prems by simp
  show ?case
  proof (cases "call k leader")
    case None
    then have "leader \<noteq> s" using assms(5) [of k] by auto
    with onward None Suc.prems(1,2) show ?thesis by (simp add: Let_def)
  next
    case (Some r)
    show ?thesis
    proof (cases "grErr r = OK")
      case True
      then have "call k leader = Some \<lparr>grErr = OK, grValue = grValue r\<rparr>" using Some by (cases r) simp
      with Some True Suc.prems(1,2) show ?thesis by (simp add: Let_def) blast
    next
      case False
      then have "leader \<noteq> s" using Some assms(5) [of k] by auto
      with onward Some False assms(6) [OF Some] Suc.prems(1,2) show ?thesis by (simp add: Let_def)
    qed
  qed
qed simp

section \<open>Properties\<close>

text \<open>
  C37. The client finds the leader: if one server answers \<^verbatim>\<open>OK\<close> and no server reports a
  timeout, a \<^verbatim>\<open>Get\<close> returns within as many calls as there are servers, whatever server the
  client took for the leader before, and the value returned is one that a server answered.
\<close>

theorem clerk_get_returns:
  assumes "0 \<le> ck_leader ck" "ck_leader ck < int (ck_servers ck)" "0 \<le> s" "s < int (ck_servers ck)"
    and "\<forall>j. \<exists>v. call \<lparr>gaKey = key\<rparr> j s = Some \<lparr>grErr = OK, grValue = v\<rparr>"
    and "\<forall>j s' r. call \<lparr>gaKey = key\<rparr> j s' = Some r \<longrightarrow> grErr r \<noteq> ErrTimeout"
    and "ck_servers ck \<le> fuel"
  shows "\<exists>ck' v j s'. clerkGet call fuel key ck = Inr (Some (ck', v)) \<and>
     call \<lparr>gaKey = key\<rparr> j s' = Some \<lparr>grErr = OK, grValue = v\<rparr>"
proof -
  have "hops (ck_servers ck) (ck_leader ck) s < fuel"
    using hops_less [of "ck_servers ck" "ck_leader ck" s] assms(3,4,7) by linarith
  then show ?thesis
    unfolding clerkGet_def using assms by (intro clerkGetLoop_finds) auto
qed

lemma clerk_get_returns_witness:
  "\<exists>ck'. clerkGet (\<lambda>a j s. if s = 2 then Some \<lparr>grErr = OK, grValue = ''x''\<rparr>
        else if s = 1 then Some \<lparr>grErr = ErrWrongLeader, grValue = ''''\<rparr> else None) 3 ''k'' (MakeClerk 3 9)
      = Inr (Some (ck', ''x''))"
  using clerk_get_returns [of "MakeClerk 3 9" 2 "\<lambda>a j s. if s = 2 then Some \<lparr>grErr = OK, grValue = ''x''\<rparr>
        else if s = 1 then Some \<lparr>grErr = ErrWrongLeader, grValue = ''''\<rparr> else None" "''k''" 3]
  by (fastforce simp: MakeClerk_def OK_def ErrWrongLeader_def ErrTimeout_def split: if_splits)

lemma clerkPutLoop_same_server:
  assumes "0 \<le> leader" "leader < int (ck_servers ck)"
    and "\<And>j. call j leader = Some \<lparr>parErr = ErrTimeout\<rparr>"
  shows "clerkPutLoop call fuel k leader ck = Inr None"
  using assms by (induction fuel arbitrary: k) (simp_all add: Let_def OK_def ErrTimeout_def)

text \<open>
  A timeout keeps the client where it is: while the server the client takes for the leader
  answers \<^verbatim>\<open>ErrTimeout\<close>, as a leader cut off from the majority does, the client calls that
  server again and again; no number of calls makes it try another server, also when another
  server would answer.
\<close>

lemma clerk_stays_on_timeout:
  assumes "0 \<le> ck_leader ck" "ck_leader ck < int (ck_servers ck)"
    and "\<forall>args j. call args j (ck_leader ck) = Some \<lparr>parErr = ErrTimeout\<rparr>"
  shows "clerkPutAppend call fuel rnd key value op ck = Inr None"
  using assms by (auto simp: clerkPutAppend_def clerkArgs_def Let_def intro: clerkPutLoop_same_server)

end
