(* ===== verification/Shard_Config.thy ===== *)
theory Shard_Config
  imports Go_Prelude "HOL-Library.While_Combinator" "HOL-Library.AList"
begin

text \<open>
  The configurations of the shard controller and their rebalancing: \<^verbatim>\<open>Config\<close> of
  \<^verbatim>\<open>db_files/shard-controller/common.go\<close>, \<^verbatim>\<open>conf\<close>, \<^verbatim>\<open>rebalance\<close> and \<^verbatim>\<open>maxmin\<close> of
  \<^verbatim>\<open>server.go\<close>. The map of groups is an association list in the order in which Go happens to
  iterate over the map; the map from a group to its shards is a function with value \<open>[]\<close> where
  the Go map has no entry. The loop of \<^verbatim>\<open>rebalance\<close> is a \<open>while_option\<close>: \<open>None\<close> is a loop that
  never ends.
\<close>

section \<open>Definitions\<close>

definition NShards :: nat where "NShards = 10"

record Config =
  cfNum :: int
  cfShards :: "int list"                       \<comment> \<open>\<^verbatim>\<open>[NShards]int\<close>\<close>
  cfGroups :: "(int \<times> string list) list"      \<comment> \<open>\<^verbatim>\<open>map[int][]string\<close>\<close>

definition putGroups ::
    "(int \<times> string list) list \<Rightarrow> (int \<times> string list) list \<Rightarrow> (int \<times> string list) list" where
  "putGroups servers groups = foldl (\<lambda>g (k, v). AList.update k v g) groups servers"

definition ConfigsTailL :: "Config list \<Rightarrow> Config res" where
  "ConfigsTailL configs = at configs (int (length configs) - 1)"

definition confNext :: "Config list \<Rightarrow> Config res" where
  "confNext configs =
     rbind (ConfigsTailL configs) (\<lambda>tail.
       Inr \<lparr>cfNum = cfNum tail + 1, cfShards = cfShards tail, cfGroups = putGroups (cfGroups tail) []\<rparr>)"

type_synonym assignment = "int \<Rightarrow> nat list"

definition countShards :: "int list \<Rightarrow> assignment" where
  "countShards shards =
     foldl (\<lambda>ct (i, gid). ct(gid := ct gid @ [i])) (\<lambda>_. []) (enumerate 0 shards)"

definition mathMaxInt :: int where "mathMaxInt = 2 ^ 63 - 1"

definition maxminLoop :: "assignment \<Rightarrow> int list \<Rightarrow> int \<times> int \<times> int \<times> int" where
  "maxminLoop ct gs =
     foldl (\<lambda>(max, maxi, min, mini) g.
        let l = int (length (ct g));
            (max', maxi') = (if l > max then (l, g) else (max, maxi));
            (min', mini') = (if l < min then (l, g) else (min, mini))
        in (max', maxi', min', mini')) (0, 0, mathMaxInt, 0) gs"

definition maxmin :: "assignment \<Rightarrow> int list \<Rightarrow> int \<times> int \<times> int \<times> int" where
  "maxmin ct gs =
     (let (max, maxi, min, mini) = maxminLoop ct gs
      in if length (ct 0) > 0 then
           if min = mathMaxInt then (0, 0, 0, 0)
           else (int (length (ct 0)) * 2, 0, 0, mini)
         else (max, maxi, min, mini))"

definition rebalanceCond :: "int list \<Rightarrow> assignment \<times> int list \<Rightarrow> bool" where
  "rebalanceCond gs s = (let (max, maxi, min, mini) = maxmin (fst s) gs in max - min > 1)"

definition rebalanceStep :: "int list \<Rightarrow> assignment \<times> int list \<Rightarrow> assignment \<times> int list" where
  "rebalanceStep gs s =
     (let (ct, shards) = s;
          (max, maxi, min, mini) = maxmin ct gs;
          c = (max - min) div 2;
          ts = take (nat c) (ct maxi);
          ct1 = ct(maxi := drop (nat c) (ct maxi));
          ct2 = ct1(mini := ct1 mini @ ts)
      in (ct2, foldl (\<lambda>sh t. sh[t := mini]) shards ts))"

definition rebalance :: "Config \<Rightarrow> Config option" where
  "rebalance conf =
     (let gs = sort (map fst (cfGroups conf))
      in map_option (\<lambda>(ct, shards). conf\<lparr>cfShards := shards\<rparr>)
           (while_option (rebalanceCond gs) (rebalanceStep gs)
              (countShards (cfShards conf), cfShards conf)))"

section \<open>The assignment matches the shards\<close>

definition matches :: "assignment \<Rightarrow> int list \<Rightarrow> bool" where
  "matches ct shards \<longleftrightarrow> (\<forall>g. distinct (ct g) \<and> set (ct g) = {i. i < length shards \<and> shards ! i = g})"

lemma foldl_count:
  "foldl (\<lambda>ct (i, gid). ct(gid := ct gid @ [i])) ct (enumerate k shards) g =
     ct g @ map fst (filter (\<lambda>(i, gid). gid = g) (enumerate k shards))"
  by (induction shards arbitrary: ct k) auto

lemma countShards_eq: "countShards shards g = filter (\<lambda>i. shards ! i = g) [0..<length shards]"
proof -
  have "map fst (filter (\<lambda>(i, gid). gid = g) (enumerate 0 shards)) =
      filter (\<lambda>i. shards ! i = g) [0..<length shards]"
  proof (induction shards rule: rev_induct)
    case (snoc x xs)
    have "filter (\<lambda>i. (xs @ [x]) ! i = g) [0..<length xs] = filter (\<lambda>i. xs ! i = g) [0..<length xs]"
      by (rule filter_cong) (auto simp: nth_append)
    with snoc show ?case by (simp add: enumerate_append_eq)
  qed simp
  then show ?thesis by (simp add: countShards_def foldl_count)
qed

lemma countShards_matches: "matches (countShards shards) shards"
  by (auto simp: matches_def countShards_eq)

lemma foldl_assign:
  "set ts \<subseteq> {..<length shards} \<Longrightarrow>
   length (foldl (\<lambda>sh t. sh[t := m]) shards ts) = length shards \<and>
   (\<forall>i < length shards. foldl (\<lambda>sh t. sh[t := m]) shards ts ! i = (if i \<in> set ts then m else shards ! i))"
  by (induction ts arbitrary: shards) (auto simp: nth_list_update)

text \<open>The loads the loop compares.\<close>

definition load :: "assignment \<Rightarrow> int \<Rightarrow> int" where
  "load ct g = int (length (ct g))"

lemma maxminLoop_snoc:
  "maxminLoop ct (gs @ [g]) =
     (let (max, maxi, min, mini) = maxminLoop ct gs; l = load ct g
      in (if l > max then l else max, if l > max then g else maxi,
          if l < min then l else min, if l < min then g else mini))"
  by (auto simp: maxminLoop_def load_def Let_def split: prod.split)

lemma maxminLoop_spec:
  assumes "\<And>g. load ct g < mathMaxInt" "maxminLoop ct gs = (mx, maxi, mn, mini)"
  shows "(\<forall>g \<in> set gs. load ct g \<le> mx \<and> mn \<le> load ct g) \<and> 0 \<le> mx \<and>
    (mx > 0 \<longrightarrow> maxi \<in> set gs \<and> load ct maxi = mx) \<and>
    (if gs = [] then mn = mathMaxInt else mini \<in> set gs \<and> load ct mini = mn)"
  using assms(2)
proof (induction gs arbitrary: mx maxi mn mini rule: rev_induct)
  case Nil
  then show ?case by (simp add: maxminLoop_def)
next
  case (snoc g gs)
  obtain mx' maxi' mn' mini' where m: "maxminLoop ct gs = (mx', maxi', mn', mini')"
    by (metis prod_cases4)
  note IH = snoc.IH [OF m]
  have "0 \<le> load ct g" by (simp add: load_def)
  with snoc.prems m IH assms(1) [of g] show ?case
    by (auto simp: maxminLoop_snoc Let_def split: if_splits)
qed

section \<open>One step of the loop\<close>

lemma matches_load: "matches ct shards \<Longrightarrow> load ct g \<le> int (length shards)"
proof -
  assume m: "matches ct shards"
  then have "length (ct g) = card {i. i < length shards \<and> shards ! i = g}"
    unfolding matches_def by (metis distinct_card)
  also have "\<dots> \<le> card {..<length shards}" by (rule card_mono) auto
  finally show ?thesis by (simp add: load_def)
qed

text \<open>
  A step moves \<open>c\<close> shards from \<open>a\<close> to \<open>b\<close>: all the unassigned ones to a least loaded group, or
  half the difference from a most loaded group to a least loaded one.
\<close>

lemma step_moves:
  assumes "matches ct sh" "int (length sh) < mathMaxInt" "0 \<notin> set gs" "rebalanceCond gs (ct, sh)"
  obtains a b c where "a \<noteq> b" "b \<in> set gs" "0 < c" "c \<le> length (ct a)"
    "rebalanceStep gs (ct, sh) = (ct(a := drop c (ct a), b := ct b @ take c (ct a)),
       foldl (\<lambda>sh t. sh[t := b]) sh (take c (ct a)))"
    "a = 0 \<and> c = length (ct 0) \<or>
     ct 0 = [] \<and> a \<in> set gs \<and> load ct a - load ct b > 1 \<and> int c = (load ct a - load ct b) div 2"
proof -
  obtain mx maxi mn mini where m: "maxminLoop ct gs = (mx, maxi, mn, mini)" by (metis prod_cases4)
  have bound: "load ct g < mathMaxInt" for g using matches_load [OF assms(1), of g] assms(2) by simp
  note spec = maxminLoop_spec [OF bound m]
  show thesis
  proof (cases "ct 0 = []")
    case False
    then have mn: "mn \<noteq> mathMaxInt" using assms(4) m by (auto simp: rebalanceCond_def maxmin_def)
    then have b: "mini \<in> set gs" using spec by (auto split: if_splits)
    have "rebalanceStep gs (ct, sh) = (ct(0 := drop (length (ct 0)) (ct 0), mini := ct mini @ take (length (ct 0)) (ct 0)),
       foldl (\<lambda>sh t. sh[t := mini]) sh (take (length (ct 0)) (ct 0)))"
      using False mn m b assms(3) by (auto simp: rebalanceStep_def maxmin_def Let_def)
    moreover have "(0::int) \<noteq> mini" using b assms(3) by auto
    ultimately show thesis using that [of 0 mini "length (ct 0)"] False b by simp
  next
    case True
    then have d: "mx - mn > 1" using assms(4) m by (simp add: rebalanceCond_def maxmin_def)
    have "gs \<noteq> []" using d spec m by (auto simp: maxminLoop_def mathMaxInt_def)
    then have b: "mini \<in> set gs" "load ct mini = mn" using spec by auto
    have "0 \<le> mn" using b(2) by (simp add: load_def)
    then have a: "maxi \<in> set gs" "load ct maxi = mx" using spec d by auto
    let ?c = "nat ((mx - mn) div 2)"
    have c: "int ?c = (mx - mn) div 2" "0 < ?c" using d by auto
    then have "int ?c \<le> load ct maxi" using a(2) \<open>0 \<le> mn\<close> d by linarith
    then have "?c \<le> length (ct maxi)" unfolding load_def by linarith
    moreover have "maxi \<noteq> mini" using a(2) b(2) d by auto
    moreover from this have "rebalanceStep gs (ct, sh) = (ct(maxi := drop ?c (ct maxi), mini := ct mini @ take ?c (ct maxi)),
       foldl (\<lambda>sh t. sh[t := mini]) sh (take ?c (ct maxi)))"
      using True m by (simp add: rebalanceStep_def maxmin_def Let_def)
    ultimately show thesis using that [of maxi mini ?c] a b c d True by simp
  qed
qed

lemma step_matches:
  assumes "matches ct sh" "a \<noteq> b" "c \<le> length (ct a)"
  shows "matches (ct(a := drop c (ct a), b := ct b @ take c (ct a)))
      (foldl (\<lambda>sh t. sh[t := b]) sh (take c (ct a)))" (is "matches ?ct ?sh")
    and "length (foldl (\<lambda>sh t. sh[t := b]) sh (take c (ct a))) = length sh"
    and "set (foldl (\<lambda>sh t. sh[t := b]) sh (take c (ct a))) \<subseteq> insert b (set sh)"
proof -
  let ?ts = "take c (ct a)"
  have ct: "distinct (ct g)" "set (ct g) = {i. i < length sh \<and> sh ! i = g}" for g
    using assms(1) by (auto simp: matches_def)
  have "set ?ts \<subseteq> set (ct a)" by (rule set_take_subset)
  then have ts: "set ?ts \<subseteq> {..<length sh}" using ct(2) by auto
  note sh = foldl_assign [OF ts, of b]
  show len: "length ?sh = length sh" using sh by simp
  have parts: "set ?ts \<inter> set (drop c (ct a)) = {}" "set ?ts \<union> set (drop c (ct a)) = set (ct a)"
    using ct(1) [of a] by (auto simp: set_take_disj_set_drop_if_distinct) (metis Un_iff append_take_drop_id set_append)+
  have "distinct (?ct g) \<and> set (?ct g) = {i. i < length ?sh \<and> ?sh ! i = g}" for g
  proof -
    have t: "i \<in> set ?ts \<Longrightarrow> sh ! i = a \<and> i < length sh" for i using parts(2) ct(2) [of a] by auto
    have d: "i \<in> set (drop c (ct a)) \<longleftrightarrow> i < length sh \<and> sh ! i = a \<and> i \<notin> set ?ts" for i
      using parts ct(2) [of a] by auto
    have eq: "{i. i < length ?sh \<and> ?sh ! i = g} =
        {i. i < length sh \<and> (if i \<in> set ?ts then b else sh ! i) = g}" using sh by auto
    show ?thesis
      unfolding eq using t d ct(1) [of g] ct(1) [of b] ct(1) [of a] ct(2) [of g] ct(2) [of b] assms(2)
      by (cases "g = a"; cases "g = b") auto
  qed
  then show "matches ?ct ?sh" by (simp add: matches_def)
  show "set ?sh \<subseteq> insert b (set sh)"
  proof
    fix g assume "g \<in> set ?sh"
    then obtain i where "i < length sh" "g = ?sh ! i" using len by (auto simp: in_set_conv_nth)
    then show "g \<in> insert b (set sh)" using sh by (cases "i \<in> set ?ts") auto
  qed
qed

text \<open>The sum of the squares of the loads falls when half a difference is moved.\<close>

definition squares :: "int list \<Rightarrow> assignment \<Rightarrow> nat" where
  "squares gs ct = (\<Sum>g \<in> set gs. (length (ct g))\<^sup>2)"

lemma squares_fall:
  fixes x y c :: nat
  assumes "y + 1 < x" "c = (x - y) div 2"
  shows "(x - c)\<^sup>2 + (y + c)\<^sup>2 < x\<^sup>2 + y\<^sup>2"
proof -
  have c: "0 < c" "2 * c \<le> x - y" using assms by auto
  define d where "d = x - y - 2 * c"
  have x: "x = y + 2 * c + d" using c assms(1) by (simp add: d_def)
  have e: "x - c = y + c + d" using x by simp
  have "(y + c + d)\<^sup>2 + (y + c)\<^sup>2 < (y + 2 * c + d)\<^sup>2 + y\<^sup>2"
    using c(1) by (simp add: power2_eq_square algebra_simps)
  then show ?thesis unfolding e unfolding x .
qed

lemma step_squares:
  assumes "a \<noteq> b" "a \<in> set gs" "b \<in> set gs" "load ct a - load ct b > 1"
    and "int c = (load ct a - load ct b) div 2"
  shows "squares gs (ct(a := drop c (ct a), b := ct b @ take c (ct a))) < squares gs ct"
proof -
  let ?ct = "ct(a := drop c (ct a), b := ct b @ take c (ct a))"
  let ?R = "set gs - {a, b}"
  have split: "squares gs f = (length (f a))\<^sup>2 + (length (f b))\<^sup>2 + (\<Sum>g \<in> ?R. (length (f g))\<^sup>2)" for f
  proof -
    have "set gs = insert a (insert b ?R)" using assms(2,3) by auto
    then have "squares gs f = (\<Sum>g \<in> insert a (insert b ?R). (length (f g))\<^sup>2)" by (simp add: squares_def)
    then show ?thesis using assms(1) by simp
  qed
  have ab: "length (ct b) + 1 < length (ct a)" using assms(4) by (simp add: load_def)
  have c: "c = (length (ct a) - length (ct b)) div 2" using assms(4,5) by (simp add: load_def)
  have "length (?ct a) = length (ct a) - c" "length (?ct b) = length (ct b) + c"
    using assms(1) c by auto
  moreover have "(\<Sum>g \<in> ?R. (length (?ct g))\<^sup>2) = (\<Sum>g \<in> ?R. (length (ct g))\<^sup>2)" by (rule sum.cong) auto
  ultimately show ?thesis using squares_fall [OF ab c] split by (metis add_less_cancel_right)
qed

section \<open>The loop ends, balanced\<close>

definition loopInv :: "int list \<Rightarrow> nat \<Rightarrow> int set \<Rightarrow> assignment \<times> int list \<Rightarrow> bool" where
  "loopInv gs n G s \<longleftrightarrow> matches (fst s) (snd s) \<and> length (snd s) = n \<and> set (snd s) \<subseteq> G \<union> set gs"

lemma loopInv_step:
  assumes "loopInv gs n G s" "int n < mathMaxInt" "0 \<notin> set gs" "rebalanceCond gs s"
  shows "loopInv gs n G (rebalanceStep gs s)"
    and "(rebalanceStep gs s, s) \<in> measures [\<lambda>(ct, sh). length (ct 0), \<lambda>(ct, sh). squares gs ct]"
proof -
  obtain ct sh where s: "s = (ct, sh)" by (cases s)
  have m: "matches ct sh" and n: "int (length sh) < mathMaxInt" using assms(1,2) by (auto simp: loopInv_def s)
  obtain a b c where abc: "a \<noteq> b" "b \<in> set gs" "0 < c" "c \<le> length (ct a)"
    "rebalanceStep gs s = (ct(a := drop c (ct a), b := ct b @ take c (ct a)),
       foldl (\<lambda>sh t. sh[t := b]) sh (take c (ct a)))"
    "a = 0 \<and> c = length (ct 0) \<or>
     ct 0 = [] \<and> a \<in> set gs \<and> load ct a - load ct b > 1 \<and> int c = (load ct a - load ct b) div 2"
    unfolding s by (rule step_moves [OF m n assms(3) assms(4) [unfolded s]])
  show "loopInv gs n G (rebalanceStep gs s)"
    using step_matches [OF m abc(1,4)] abc(2,5) assms(1) by (auto simp: loopInv_def s)
  from abc(6) show "(rebalanceStep gs s, s) \<in> measures [\<lambda>(ct, sh). length (ct 0), \<lambda>(ct, sh). squares gs ct]"
  proof
    assume "a = 0 \<and> c = length (ct 0)"
    then show ?thesis using abc(1,3,5) by (simp add: s)
  next
    assume x: "ct 0 = [] \<and> a \<in> set gs \<and> load ct a - load ct b > 1 \<and> int c = (load ct a - load ct b) div 2"
    then have "a \<noteq> 0" "b \<noteq> 0" using abc(2) assms(3) by auto
    then show ?thesis using step_squares [OF abc(1) _ abc(2)] x abc(5) by (simp add: s)
  qed
qed

lemma rebalance_loop:
  assumes "0 \<notin> set gs" "int (length shards) < mathMaxInt"
  obtains ct sh where
    "while_option (rebalanceCond gs) (rebalanceStep gs) (countShards shards, shards) = Some (ct, sh)"
    "matches ct sh" "length sh = length shards" "set sh \<subseteq> set shards \<union> set gs"
    "\<not> rebalanceCond gs (ct, sh)"
proof -
  let ?P = "loopInv gs (length shards) (set shards)"
  have init: "?P (countShards shards, shards)"
    by (simp add: loopInv_def countShards_matches)
  have "wf {(t, s). (?P s \<and> rebalanceCond gs s) \<and> t = rebalanceStep gs s}"
    by (rule wf_subset [OF wf_measures, of _ "[\<lambda>(ct, sh). length (ct 0), \<lambda>(ct, sh). squares gs ct]"])
      (use loopInv_step(2) [OF _ assms(2,1)] in blast)
  then obtain t where t: "while_option (rebalanceCond gs) (rebalanceStep gs) (countShards shards, shards) = Some t"
    using wf_while_option_Some [of ?P, OF _ _ init] loopInv_step(1) [OF _ assms(2,1)] by blast
  have "?P t" by (rule while_option_rule [where P = ?P, OF _ t init]) (rule loopInv_step(1) [OF _ assms(2,1)])
  with t while_option_stop [OF t] that show thesis by (cases t) (auto simp: loopInv_def)
qed

text \<open>The number of shards a group serves.\<close>

definition shardCount :: "int list \<Rightarrow> int \<Rightarrow> nat" where
  "shardCount shards g = length (filter (\<lambda>x. x = g) shards)"

lemma matches_count: "matches ct sh \<Longrightarrow> load ct g = int (shardCount sh g)"
proof -
  assume "matches ct sh"
  then have "length (ct g) = card {i. i < length sh \<and> sh ! i = g}"
    unfolding matches_def by (metis distinct_card)
  then show ?thesis by (simp add: load_def shardCount_def length_filter_conv_card)
qed

lemma exit_balanced:
  assumes "matches ct sh" "int (length sh) < mathMaxInt" "\<not> rebalanceCond gs (ct, sh)" "gs \<noteq> []"
  shows "0 \<notin> set sh" "g \<in> set gs \<Longrightarrow> h \<in> set gs \<Longrightarrow> shardCount sh g \<le> shardCount sh h + 1"
proof -
  obtain mx maxi mn mini where m: "maxminLoop ct gs = (mx, maxi, mn, mini)" by (metis prod_cases4)
  have bound: "load ct g < mathMaxInt" for g using matches_load [OF assms(1), of g] assms(2) by simp
  note spec = maxminLoop_spec [OF bound m]
  have "mn \<noteq> mathMaxInt" using spec assms(4) bound [of mini] by auto
  then have z: "ct 0 = []" using assms(3) m by (cases "ct 0") (auto simp: rebalanceCond_def maxmin_def)
  then have d: "mx - mn \<le> 1" using assms(3) m by (simp add: rebalanceCond_def maxmin_def)
  show "0 \<notin> set sh"
  proof
    assume "0 \<in> set sh"
    then obtain i where "i < length sh" "sh ! i = 0" by (auto simp: in_set_conv_nth)
    then have "i \<in> set (ct 0)" using assms(1) by (simp add: matches_def)
    with z show False by simp
  qed
  show "shardCount sh g \<le> shardCount sh h + 1" if "g \<in> set gs" "h \<in> set gs"
  proof -
    have "load ct g \<le> mx" "mn \<le> load ct h" using spec that by auto
    with d matches_count [OF assms(1)] show ?thesis by simp
  qed
qed

lemma rebalance_some:
  assumes "0 \<notin> fst ` set (cfGroups conf)" "int (length (cfShards conf)) < mathMaxInt"
  obtains sh where "rebalance conf = Some (conf\<lparr>cfShards := sh\<rparr>)" "length sh = length (cfShards conf)"
    "set sh \<subseteq> set (cfShards conf) \<union> fst ` set (cfGroups conf)"
    "cfGroups conf \<noteq> [] \<Longrightarrow> 0 \<notin> set sh"
    "\<And>g h. g \<in> fst ` set (cfGroups conf) \<Longrightarrow> h \<in> fst ` set (cfGroups conf) \<Longrightarrow>
       shardCount sh g \<le> shardCount sh h + 1"
proof -
  let ?gs = "sort (map fst (cfGroups conf))"
  have 0: "0 \<notin> set ?gs" using assms(1) by simp
  obtain ct sh where
    w: "while_option (rebalanceCond ?gs) (rebalanceStep ?gs) (countShards (cfShards conf), cfShards conf) = Some (ct, sh)"
    and sh: "matches ct sh" "length sh = length (cfShards conf)" "set sh \<subseteq> set (cfShards conf) \<union> set ?gs"
    "\<not> rebalanceCond ?gs (ct, sh)"
    using rebalance_loop [OF 0 assms(2)] by blast
  have n: "int (length sh) < mathMaxInt" using sh(2) assms(2) by simp
  note e = exit_balanced [OF sh(1) n sh(4)]
  show thesis
  proof (rule that [of sh])
    show "rebalance conf = Some (conf\<lparr>cfShards := sh\<rparr>)" using w by (simp add: rebalance_def Let_def)
    show "shardCount sh g \<le> shardCount sh h + 1"
      if "g \<in> fst ` set (cfGroups conf)" "h \<in> fst ` set (cfGroups conf)" for g h
    proof (rule e(2))
      show "g \<in> set ?gs" "h \<in> set ?gs" using that by simp_all
      then show "?gs \<noteq> []" by (metis empty_iff empty_set)
    qed
    show "0 \<notin> set sh" if "cfGroups conf \<noteq> []"
    proof (rule e(1))
      have "set ?gs \<noteq> {}" using that by simp
      then show "?gs \<noteq> []" by force
    qed
  qed (use sh in auto)
qed

section \<open>Properties\<close>

text \<open>
  C8. Rebalancing ends and balances: for a configuration with groups, none of them numbered 0,
  whose shards belong to groups or are unassigned, the loop always ends; then every shard belongs
  to a group, the numbers of shards of two groups differ by at most one, and the groups, their
  servers and the number of the configuration are unchanged.
\<close>

theorem rebalance_balances:
  assumes "cfGroups conf \<noteq> []" "0 \<notin> fst ` set (cfGroups conf)"
    and "set (cfShards conf) \<subseteq> insert 0 (fst ` set (cfGroups conf))" "length (cfShards conf) = NShards"
  shows "\<exists>conf'. rebalance conf = Some conf' \<and> cfNum conf' = cfNum conf \<and> cfGroups conf' = cfGroups conf \<and>
     length (cfShards conf') = NShards \<and> set (cfShards conf') \<subseteq> fst ` set (cfGroups conf) \<and>
     (\<forall>g \<in> fst ` set (cfGroups conf). \<forall>h \<in> fst ` set (cfGroups conf).
        shardCount (cfShards conf') g \<le> shardCount (cfShards conf') h + 1)"
proof -
  have "int (length (cfShards conf)) < mathMaxInt" using assms(4) by (simp add: NShards_def mathMaxInt_def)
  then obtain sh where sh: "rebalance conf = Some (conf\<lparr>cfShards := sh\<rparr>)" "length sh = length (cfShards conf)"
    "set sh \<subseteq> set (cfShards conf) \<union> fst ` set (cfGroups conf)" "cfGroups conf \<noteq> [] \<Longrightarrow> 0 \<notin> set sh"
    "\<And>g h. g \<in> fst ` set (cfGroups conf) \<Longrightarrow> h \<in> fst ` set (cfGroups conf) \<Longrightarrow>
       shardCount sh g \<le> shardCount sh h + 1"
    using rebalance_some [OF assms(2)] by blast
  have "set sh \<subseteq> fst ` set (cfGroups conf)" using sh(3,4) assms(1,3) by auto
  with sh assms(4) show ?thesis by auto
qed

lemma rebalance_balances_witness:
  "\<exists>conf'. rebalance \<lparr>cfNum = 3, cfShards = replicate 10 0, cfGroups = [(7, [''x'']), (3, [''y''])]\<rparr> = Some conf' \<and>
     set (cfShards conf') \<subseteq> {7, 3} \<and>
     shardCount (cfShards conf') 7 \<le> shardCount (cfShards conf') 3 + 1"
  using rebalance_balances [of "\<lparr>cfNum = 3, cfShards = replicate 10 0, cfGroups = [(7, [''x'']), (3, [''y''])]\<rparr>"]
  by (auto simp: NShards_def)

text \<open>
  C36. Replicas agree on the rebalancing: the result does not depend on the order in which Go
  iterates over the map of groups, so all servers compute the same assignment.
\<close>

theorem rebalance_order_independent:
  assumes "mset (cfGroups conf) = mset (cfGroups conf')" "cfShards conf = cfShards conf'"
  shows "map_option cfShards (rebalance conf) = map_option cfShards (rebalance conf')"
proof -
  have "mset (map fst (cfGroups conf)) = mset (map fst (cfGroups conf'))"
    using assms(1) by simp
  then have "sort (map fst (cfGroups conf)) = sort (map fst (cfGroups conf'))"
    by (metis sorted_list_of_multiset_mset)
  with assms(2) show ?thesis
    by (simp add: rebalance_def Let_def option.map_comp comp_def case_prod_beta)
qed

lemma rebalance_order_independent_witness:
  "map_option cfShards (rebalance \<lparr>cfNum = 3, cfShards = replicate 10 0, cfGroups = [(7, [''x'']), (3, [''y''])]\<rparr>) =
   map_option cfShards (rebalance \<lparr>cfNum = 3, cfShards = replicate 10 0, cfGroups = [(3, [''y'']), (7, [''x''])]\<rparr>)"
  by (rule rebalance_order_independent) simp_all

lemma while_option_forever:
  assumes "P s" "\<And>s. P s \<Longrightarrow> b s \<and> P (c s)"
  shows "while_option b c s = None"
proof (rule ccontr)
  assume "while_option b c s \<noteq> None"
  then obtain t where t: "while_option b c s = Some t" by auto
  have "P t" by (rule while_option_rule [where P = P, OF _ t assms(1)]) (use assms(2) in blast)
  with assms(2) while_option_stop [OF t] show False by blast
qed

text \<open>
  Group 0 hangs the controller: 0 stands for "no group" in the assignment, and nothing
  stops a client from joining a group numbered 0. When it is the only group, the loop moves its
  shards to itself forever and \<^verbatim>\<open>rebalance\<close> never returns.
\<close>

lemma rebalance_group_zero_hangs:
  assumes "map fst (cfGroups conf) = [0]" "0 \<in> set (cfShards conf)" "length (cfShards conf) = NShards"
  shows "rebalance conf = None"
proof -
  let ?P = "\<lambda>s :: assignment \<times> int list. 0 < length (fst s 0) \<and> length (fst s 0) \<le> NShards"
  have "?P (countShards (cfShards conf), cfShards conf)"
  proof -
    have m: "matches (countShards (cfShards conf)) (cfShards conf)" by (rule countShards_matches)
    obtain i where "i < length (cfShards conf)" "cfShards conf ! i = 0"
      using assms(2) by (auto simp: in_set_conv_nth)
    then have "i \<in> set (countShards (cfShards conf) 0)" using m by (simp add: matches_def)
    then have "0 < length (countShards (cfShards conf) 0)" by (auto intro: length_pos_if_in_set)
    moreover have "length (countShards (cfShards conf) 0) \<le> NShards"
      using matches_load [OF m, of 0] assms(3) by (simp add: load_def)
    ultimately show ?thesis by simp
  qed
  moreover have "rebalanceCond [0] s \<and> ?P (rebalanceStep [0] s)" if "?P s" for s
  proof -
    have "int (length (fst s 0)) < mathMaxInt" using that by (simp add: NShards_def mathMaxInt_def)
    then have mm: "maxmin (fst s) [0] = (int (length (fst s 0)) * 2, 0, 0, 0)"
      using that by (auto simp: maxmin_def maxminLoop_def Let_def)
    have "0 < int (length (fst s 0))" using that by simp
    then have "1 < int (length (fst s 0)) * 2" by linarith
    then have "rebalanceCond [0] s" by (simp only: rebalanceCond_def mm Let_def prod.case diff_0_right)
    then show ?thesis
      using that mm by (auto simp: rebalanceStep_def Let_def split: prod.split)
  qed
  ultimately have "while_option (rebalanceCond [0]) (rebalanceStep [0])
      (countShards (cfShards conf), cfShards conf) = None"
    by (rule while_option_forever)
  then show ?thesis using assms(1) by (simp add: rebalance_def Let_def)
qed

lemma rebalance_group_zero_hangs_witness:
  "rebalance \<lparr>cfNum = 1, cfShards = replicate 10 0, cfGroups = [(0, [''x''])]\<rparr> = None"
  by (rule rebalance_group_zero_hangs) (simp_all add: NShards_def)

text \<open>Shards of numbers that are no group and not 0 are never touched.\<close>

lemma step_keeps_unknown:
  assumes "matches ct sh" "int (length sh) < mathMaxInt" "0 \<notin> set gs" "rebalanceCond gs (ct, sh)"
    and "i < length sh" "sh ! i \<notin> insert 0 (set gs)"
  shows "snd (rebalanceStep gs (ct, sh)) ! i = sh ! i"
proof -
  obtain a b c where abc: "a \<noteq> b" "b \<in> set gs" "0 < c" "c \<le> length (ct a)"
    "rebalanceStep gs (ct, sh) = (ct(a := drop c (ct a), b := ct b @ take c (ct a)),
       foldl (\<lambda>sh t. sh[t := b]) sh (take c (ct a)))"
    "a = 0 \<and> c = length (ct 0) \<or>
     ct 0 = [] \<and> a \<in> set gs \<and> load ct a - load ct b > 1 \<and> int c = (load ct a - load ct b) div 2"
    by (rule step_moves [OF assms(1-4)])
  have ct: "set (take c (ct a)) \<subseteq> {i. i < length sh \<and> sh ! i = a}"
    using set_take_subset [of c "ct a"] assms(1) by (auto simp: matches_def)
  then have "i \<notin> set (take c (ct a))" using abc(6) assms(6) by auto
  moreover have "set (take c (ct a)) \<subseteq> {..<length sh}" using ct by auto
  ultimately show ?thesis using foldl_assign [of "take c (ct a)" sh b] abc(5) assms(5) by simp
qed

text \<open>
  A shard moved to a number that is no group stays there: \<^verbatim>\<open>Move\<close> accepts any group number,
  and rebalancing neither counts nor reassigns a shard whose number is neither a group nor 0,
  however many groups join or leave.
\<close>

lemma rebalance_keeps_unknown_group:
  assumes "0 \<notin> fst ` set (cfGroups conf)" "length (cfShards conf) = NShards"
    and "i < NShards" "cfShards conf ! i \<noteq> 0" "cfShards conf ! i \<notin> fst ` set (cfGroups conf)"
  shows "\<exists>conf'. rebalance conf = Some conf' \<and> cfShards conf' ! i = cfShards conf ! i"
proof -
  let ?gs = "sort (map fst (cfGroups conf))" and ?g = "cfShards conf ! i"
  have 0: "0 \<notin> set ?gs" and g: "?g \<notin> insert 0 (set ?gs)" using assms(1,4,5) by auto
  have n: "int NShards < mathMaxInt" by (simp add: NShards_def mathMaxInt_def)
  let ?P = "\<lambda>s. loopInv ?gs NShards UNIV s \<and> snd s ! i = ?g"
  obtain ct sh where w: "while_option (rebalanceCond ?gs) (rebalanceStep ?gs)
      (countShards (cfShards conf), cfShards conf) = Some (ct, sh)"
    using rebalance_loop [OF 0] assms(2) n by metis
  have "?P (ct, sh)"
  proof (rule while_option_rule [where P = ?P, OF _ w])
    show "?P (countShards (cfShards conf), cfShards conf)"
      using assms(2) by (simp add: loopInv_def countShards_matches)
    fix s assume s: "?P s" "rebalanceCond ?gs s"
    obtain ct sh where st: "s = (ct, sh)" by (cases s)
    have "snd (rebalanceStep ?gs s) ! i = sh ! i"
      unfolding st by (rule step_keeps_unknown) (use s g 0 n assms(3) in \<open>auto simp: st loopInv_def\<close>)
    with s loopInv_step(1) [OF _ n 0, of UNIV s] show "?P (rebalanceStep ?gs s)" by (simp add: st)
  qed
  with w show ?thesis by (simp add: rebalance_def Let_def)
qed

end
