(* ===== verification/Shard_Ctrler.thy ===== *)
theory Shard_Ctrler
  imports Shard_Config Service Raft_Apply
begin

text \<open>
  The shard controller, \<^verbatim>\<open>db_files/shard-controller/common.go\<close> and \<^verbatim>\<open>server.go\<close>: a service on
  Raft whose state is the list of all configurations. A command may panic (\<open>Inl\<close>) or, because of
  the loop of \<^verbatim>\<open>rebalance\<close>, never return (\<open>Inr None\<close>). As in \<open>KV_Server\<close>, one round of the loop of
  \<^verbatim>\<open>DoApply\<close> is one function and the handlers are split where they wait.
\<close>

section \<open>Data\<close>

definition scOK :: string where "scOK = ''OK''"
definition scErrTimeout :: string where "scErrTimeout = ''ErrTimeout''"

record JoinArgs =
  jaServers :: "(int \<times> string list) list"
  jaClientId :: "32 word"
  jaRequestId :: "64 word"

record LeaveArgs =
  laGIDs :: "int list"
  laClientId :: "32 word"
  laRequestId :: "64 word"

record MoveArgs =
  maShard :: int
  maGID :: int
  maClientId :: "32 word"
  maRequestId :: "64 word"

record QueryArgs =
  qaNum :: int

text \<open>The replies of \<^verbatim>\<open>Join\<close>, \<^verbatim>\<open>Leave\<close> and \<^verbatim>\<open>Move\<close> have the same fields.\<close>

record CommandReply =
  crWrongLeader :: bool
  crErr :: string

record QueryReply = CommandReply +
  qrConfig :: "Config option"                 \<comment> \<open>\<open>None\<close>: left as the zero \<^verbatim>\<open>Config\<close>\<close>

datatype sc_op = OpJoin JoinArgs | OpLeave LeaveArgs | OpMove MoveArgs | OpQuery QueryArgs

text \<open>An entry of \<^verbatim>\<open>dedup\<close> is the command as an \<^verbatim>\<open>interface{}\<close>.\<close>

type_synonym sc_dedup = "32 word \<rightharpoonup> sc_op option"

datatype sc_item = GScDedup sc_dedup | GConfigs "Config list"

fun asScDedup :: "sc_item \<Rightarrow> sc_dedup option" where
  "asScDedup (GScDedup d) = Some d"
| "asScDedup (GConfigs c) = None"

fun asConfigs :: "sc_item \<Rightarrow> Config list option" where
  "asConfigs (GConfigs c) = Some c"
| "asConfigs (GScDedup d) = None"

type_synonym sc_msg = "(sc_op, sc_item) ApplyMsg"

record ShardCtrler =
  sc_me :: int
  sc_rf :: "(sc_op, sc_item) Raft"
  sc_maxraftstate :: int
  sc_configs :: "Config list"
  sc_dedup :: sc_dedup
  sc_done :: "int \<rightharpoonup> nat"
  sc_lastApplied :: int
  sc_serversLen :: nat
  sc_chans :: nat
  sc_sent :: "(nat \<times> int) list"

section \<open>Commands\<close>

definition scReadSnapshot :: "sc_item gob \<Rightarrow> ShardCtrler \<Rightarrow> ShardCtrler" where
  "scReadSnapshot snapshot sc =
     (let (r1, d1) = Decode asScDedup snapshot;
          dedup = (case r1 of Inl e \<Rightarrow> Map.empty | Inr d \<Rightarrow> d);
          (r2, d2) = Decode asConfigs d1;
          configs = (case r2 of Inl e \<Rightarrow> [] | Inr c \<Rightarrow> c)
      in sc\<lparr>sc_dedup := dedup, sc_configs := configs\<rparr>)"

definition leaveGroup :: "Config \<Rightarrow> int \<Rightarrow> Config" where
  "leaveGroup conf k =
     conf\<lparr>cfShards := map (\<lambda>gid. if gid = k then 0 else gid) (cfShards conf),
          cfGroups := AList.delete k (cfGroups conf)\<rparr>"

definition appendConfig :: "Config list \<Rightarrow> Config option \<Rightarrow> Config list option" where
  "appendConfig configs conf = map_option (\<lambda>c. configs @ [c]) conf"

text \<open>What a command does to the configurations when it is no duplicate.\<close>

definition scExec :: "sc_op option \<Rightarrow> Config list \<Rightarrow> Config list option res" where
  "scExec command configs =
     (case command of
        Some (OpJoin cmd) \<Rightarrow>
          rbind (confNext configs) (\<lambda>conf.
            Inr (appendConfig configs
              (rebalance (conf\<lparr>cfGroups := putGroups (jaServers cmd) (cfGroups conf)\<rparr>))))
      | Some (OpLeave cmd) \<Rightarrow>
          rbind (confNext configs) (\<lambda>conf.
            Inr (appendConfig configs (rebalance (foldl leaveGroup conf (laGIDs cmd)))))
      | Some (OpMove cmd) \<Rightarrow>
          rbind (confNext configs) (\<lambda>conf.
          rbind (put (cfShards conf) (maShard cmd) (maGID cmd)) (\<lambda>sh.
            Inr (appendConfig configs (Some (conf\<lparr>cfShards := sh\<rparr>)))))
      | _ \<Rightarrow> Inr (Some configs))"

text \<open>The client a command is recorded under: the zero \<^verbatim>\<open>Args\<close> for a query.\<close>

definition scClientId :: "sc_op option \<Rightarrow> 32 word" where
  "scClientId command =
     (case command of
        Some (OpJoin cmd) \<Rightarrow> jaClientId cmd
      | Some (OpLeave cmd) \<Rightarrow> laClientId cmd
      | Some (OpMove cmd) \<Rightarrow> maClientId cmd
      | _ \<Rightarrow> 0)"

text \<open>A duplicate has the type and the request number of the recorded command.\<close>

definition sameScRequest :: "sc_op \<Rightarrow> sc_op \<Rightarrow> bool" where
  "sameScRequest p q =
     (case (p, q) of
        (OpJoin a, OpJoin b) \<Rightarrow> jaRequestId a = jaRequestId b
      | (OpLeave a, OpLeave b) \<Rightarrow> laRequestId a = laRequestId b
      | (OpMove a, OpMove b) \<Rightarrow> maRequestId a = maRequestId b
      | _ \<Rightarrow> False)"

definition scDuplicate :: "sc_dedup \<Rightarrow> sc_op option \<Rightarrow> bool" where
  "scDuplicate dedup command =
     (case (command, dedup (scClientId command)) of
        (Some cmd, Some (Some dup)) \<Rightarrow> sameScRequest dup cmd
      | _ \<Rightarrow> False)"

definition scApply ::
    "(sc_op raft_item gob \<Rightarrow> int) \<Rightarrow> sc_msg \<Rightarrow> ShardCtrler \<Rightarrow> ShardCtrler option res" where
  "scApply bytelen v sc =
     (if amCommandIndex v \<le> sc_lastApplied sc then Inr (Some sc)
      else if scDuplicate (sc_dedup sc) (amCommand v) then Inr (Some sc)
      else
        rbind (scExec (amCommand v) (sc_configs sc)) (\<lambda>r.
          case r of
            None \<Rightarrow> Inr None
          | Some configs \<Rightarrow>
              let sc1 = sc\<lparr>sc_configs := configs,
                           sc_dedup := (sc_dedup sc)(scClientId (amCommand v) \<mapsto> amCommand v),
                           sc_lastApplied := amCommandIndex v\<rparr>
              in if GetStateSize bytelen (sc_rf sc1) \<ge> sc_maxraftstate sc1 \<and> sc_maxraftstate sc1 \<noteq> -1 then
                   rbind (Snapshot (amCommandIndex v)
                     (Encode (Encode [] (GScDedup (sc_dedup sc1))) (GConfigs (sc_configs sc1))) (sc_rf sc1))
                     (\<lambda>rf'. Inr (Some (sc1\<lparr>sc_rf := rf'\<rparr>)))
                 else Inr (Some sc1)))"

definition scSend :: "nat option \<Rightarrow> int \<Rightarrow> ShardCtrler \<Rightarrow> ShardCtrler" where
  "scSend ch v sc = (case ch of None \<Rightarrow> sc | Some c \<Rightarrow> sc\<lparr>sc_sent := sc_sent sc @ [(c, v)]\<rparr>)"

text \<open>The number sent to the waiting handler: the index of the configuration a query asks for.\<close>

definition answerNum :: "sc_op option \<Rightarrow> Config list \<Rightarrow> int res" where
  "answerNum command configs =
     (case command of
        Some (OpQuery cmd) \<Rightarrow>
          if qaNum cmd < 0 then rbind (ConfigsTailL configs) (\<lambda>tail. Inr (cfNum tail))
          else rbind (ConfigsTailL configs) (\<lambda>tail.
                 Inr (if qaNum cmd > cfNum tail then cfNum tail else qaNum cmd))
      | _ \<Rightarrow> Inr (-1))"

definition scDoApply ::
    "(sc_op raft_item gob \<Rightarrow> int) \<Rightarrow> sc_msg \<Rightarrow> ShardCtrler \<Rightarrow> ShardCtrler option res" where
  "scDoApply bytelen v sc =
     (if amCommandValid v then
        rbind (scApply bytelen v sc) (\<lambda>r.
          case r of
            None \<Rightarrow> Inr None
          | Some sc1 \<Rightarrow>
              if \<not> snd (GetState (sc_rf sc1)) then Inr (Some sc1)
              else rbind (answerNum (amCommand v) (sc_configs sc1)) (\<lambda>num.
                     Inr (Some (scSend (sc_done sc1 (amCommandIndex v)) num sc1))))
      else
        rbind (CondInstallSnapshot (amSnapshotTerm v) (amSnapshotIndex v) (amSnapshot v) (sc_rf sc))
          (\<lambda>(rf', b).
            let sc1 = sc\<lparr>sc_rf := rf'\<rparr>
            in Inr (Some (if b then scReadSnapshot (amSnapshot v) (sc1\<lparr>sc_lastApplied := amSnapshotIndex v\<rparr>)
                          else sc1))))"

text \<open>The loop of \<^verbatim>\<open>DoApply\<close> over the messages that arrive.\<close>

fun scDoApplyLoop ::
    "(sc_op raft_item gob \<Rightarrow> int) \<Rightarrow> sc_msg list \<Rightarrow> ShardCtrler \<Rightarrow> ShardCtrler option res" where
  "scDoApplyLoop bytelen [] sc = Inr (Some sc)"
| "scDoApplyLoop bytelen (v # vs) sc =
     rbind (scDoApply bytelen v sc) (\<lambda>r.
       case r of None \<Rightarrow> Inr None | Some sc1 \<Rightarrow> scDoApplyLoop bytelen vs sc1)"

section \<open>Handlers\<close>

text \<open>
  \<^verbatim>\<open>Command\<close>: the role check and \<^verbatim>\<open>Start\<close>; the registration of the channel; the result. The
  debug line of the success case reads \<^verbatim>\<open>ConfigsTail\<close>, which panics on an empty list.
\<close>

definition scStart :: "sc_op \<Rightarrow> ShardCtrler \<Rightarrow> (ShardCtrler \<times> int option) res" where
  "scStart op sc =
     (if \<not> snd (GetState (sc_rf sc)) then Inr (sc, None)
      else rbind (Start op (sc_rf sc)) (\<lambda>(rf', r). Inr (sc\<lparr>sc_rf := rf'\<rparr>, r)))"

definition scStarted :: "int option \<Rightarrow> ShardCtrler \<Rightarrow> int option" where
  "scStarted r sc =
     (let (i, t, isLeader) = StartResult r (sc_rf sc) in if isLeader then Some i else None)"

definition registerDone :: "int \<Rightarrow> ShardCtrler \<Rightarrow> ShardCtrler \<times> nat" where
  "registerDone i sc =
     (sc\<lparr>sc_done := (sc_done sc)(i \<mapsto> sc_chans sc), sc_chans := sc_chans sc + 1\<rparr>, sc_chans sc)"

definition scReceived :: "nat \<Rightarrow> ShardCtrler \<Rightarrow> int option" where
  "scReceived ch sc = map_of (sc_sent sc) ch"

definition wrongLeaderResult :: "int \<times> bool \<times> string" where
  "wrongLeaderResult = (-1, True, scOK)"

definition commandResult :: "int option \<Rightarrow> ShardCtrler \<Rightarrow> (int \<times> bool \<times> string) res" where
  "commandResult r sc =
     (case r of
        Some v \<Rightarrow> rbind (ConfigsTailL (sc_configs sc)) (\<lambda>tail. Inr (v, False, scOK))
      | None \<Rightarrow> Inr (-1, False, scErrTimeout))"

text \<open>\<^verbatim>\<open>Join\<close>, \<^verbatim>\<open>Leave\<close>, \<^verbatim>\<open>Move\<close> and \<^verbatim>\<open>Query\<close> turn the result of \<^verbatim>\<open>Command\<close> into a reply.\<close>

definition commandReply :: "int \<times> bool \<times> string \<Rightarrow> CommandReply" where
  "commandReply r = (let (i, wl, err) = r in \<lparr>crWrongLeader = wl, crErr = err\<rparr>)"

definition queryReply :: "int \<times> bool \<times> string \<Rightarrow> ShardCtrler \<Rightarrow> QueryReply res" where
  "queryReply r sc =
     (let (i, wl, err) = r
      in if \<not> wl \<and> err = scOK then
           rbind (at (sc_configs sc) i) (\<lambda>c.
             Inr \<lparr>crWrongLeader = wl, crErr = err, qrConfig = Some c\<rparr>)
         else Inr \<lparr>crWrongLeader = wl, crErr = err, qrConfig = None\<rparr>)"

definition scKill :: "ShardCtrler \<Rightarrow> ShardCtrler" where
  "scKill sc = sc\<lparr>sc_rf := Kill (sc_rf sc)\<rparr>"

definition zeroConfig :: Config where
  "zeroConfig = \<lparr>cfNum = 0, cfShards = replicate NShards 0, cfGroups = []\<rparr>"

definition StartServer ::
    "nat \<Rightarrow> int \<Rightarrow> (sc_op raft_item, sc_item) Persister \<Rightarrow> nat \<Rightarrow> ShardCtrler res" where
  "StartServer servers m persister r =
     rbind (Make servers m persister r) (\<lambda>rf.
       Inr \<lparr>sc_me = m, sc_rf = rf, sc_maxraftstate = 1000, sc_configs = [zeroConfig],
            sc_dedup = Map.empty, sc_done = Map.empty, sc_lastApplied = 0, sc_serversLen = servers,
            sc_chans = 0, sc_sent = []\<rparr>)"

end
