(* ===== verification/Shard_Ctrler_Props.thy ===== *)
theory Shard_Ctrler_Props
  imports Shard_Ctrler
begin

text \<open>
  The shard controller is correct: the list of configurations stays well formed, every command
  has its documented effect on the new configuration, repeated commands take effect once, and
  queries are answered from the list.
\<close>

section \<open>Maps of groups\<close>

lemma map_of_putGroups: "map_of (putGroups servers groups) = map_of groups ++ map_of (rev servers)"
proof (induction servers arbitrary: groups)
  case (Cons s servers)
  obtain k v where s: "s = (k, v)" by (cases s)
  have "map_of (putGroups (s # servers) groups) = map_of (AList.update k v groups) ++ map_of (rev servers)"
    using Cons by (simp add: putGroups_def s)
  also have "\<dots> = (map_of groups)(k \<mapsto> v) ++ map_of (rev servers)" by (simp add: update_conv')
  also have "\<dots> = map_of groups ++ map_of (rev (s # servers))"
    by (rule ext) (simp add: s map_add_def split: option.split)
  finally show ?case .
qed (simp add: putGroups_def)

lemma distinct_putGroups: "distinct (map fst groups) \<Longrightarrow> distinct (map fst (putGroups servers groups))"
  by (induction servers arbitrary: groups) (auto simp: putGroups_def distinct_update)

lemma keys_putGroups: "fst ` set (putGroups servers groups) = fst ` set groups \<union> fst ` set servers"
proof (induction servers arbitrary: groups)
  case (Cons s servers)
  obtain k v where s: "s = (k, v)" by (cases s)
  have "putGroups (s # servers) groups = putGroups servers (AList.update k v groups)"
    by (simp add: putGroups_def s)
  then show ?case using Cons [of "AList.update k v groups"] dom_update [of k v groups]
    by (simp add: s dom_map_of_conv_image_fst)
qed (simp add: putGroups_def)

lemma putGroups_Nil_keys [simp]: "fst ` set (putGroups groups []) = fst ` set groups"
  by (simp add: keys_putGroups)

text \<open>Copying a map into an empty one, entry by entry, gives the same map.\<close>

lemma map_of_copy: "distinct (map fst groups) \<Longrightarrow> map_of (putGroups groups []) = map_of groups"
  by (simp add: map_of_putGroups, subst map_of_inject_set) (simp_all flip: rev_map)

section \<open>Well-formed configurations\<close>

definition config_ok :: "Config \<Rightarrow> bool" where
  "config_ok c \<longleftrightarrow> length (cfShards c) = NShards \<and> distinct (map fst (cfGroups c)) \<and>
     0 \<notin> fst ` set (cfGroups c) \<and> set (cfShards c) \<subseteq> insert 0 (fst ` set (cfGroups c))"

definition configs_ok :: "Config list \<Rightarrow> bool" where
  "configs_ok cs \<longleftrightarrow> cs \<noteq> [] \<and> (\<forall>k < length cs. cfNum (cs ! k) = int k \<and> config_ok (cs ! k))"

text \<open>No group is numbered 0; a moved shard and its group exist.\<close>

definition command_ok :: "Config list \<Rightarrow> sc_op \<Rightarrow> bool" where
  "command_ok cs op \<longleftrightarrow>
     (case op of
        OpJoin a \<Rightarrow> 0 \<notin> fst ` set (jaServers a)
      | OpLeave a \<Rightarrow> True
      | OpMove a \<Rightarrow> 0 \<le> maShard a \<and> maShard a < int NShards \<and> maGID a \<in> fst ` set (cfGroups (last cs))
      | OpQuery a \<Rightarrow> True)"

lemma configs_ok_last: "configs_ok cs \<Longrightarrow> cfNum (last cs) = int (length cs) - 1 \<and> config_ok (last cs)"
  by (simp add: configs_ok_def last_conv_nth of_nat_diff Suc_leI)

lemma ConfigsTailL_last [simp]: "cs \<noteq> [] \<Longrightarrow> ConfigsTailL cs = Inr (last cs)"
  by (simp add: ConfigsTailL_def at_def last_conv_nth Suc_leI nat_diff_distrib')

lemma confNext_eq: "cs \<noteq> [] \<Longrightarrow> confNext cs =
    Inr \<lparr>cfNum = cfNum (last cs) + 1, cfShards = cfShards (last cs), cfGroups = putGroups (cfGroups (last cs)) []\<rparr>"
  by (simp add: confNext_def)

lemma configs_ok_snoc: "configs_ok cs \<Longrightarrow> config_ok c \<Longrightarrow> cfNum c = int (length cs) \<Longrightarrow> configs_ok (cs @ [c])"
  by (auto simp: configs_ok_def nth_append less_Suc_eq)

lemma foldl_leaveGroup:
  "cfNum (foldl leaveGroup c ks) = cfNum c"
  "cfShards (foldl leaveGroup c ks) = map (\<lambda>g. if g \<in> set ks then 0 else g) (cfShards c)"
  "cfGroups (foldl leaveGroup c ks) = filter (\<lambda>(k, v). k \<notin> set ks) (cfGroups c)"
proof (induction ks arbitrary: c)
  case (Cons k ks)
  { case 1 show ?case using Cons(1) by (simp add: leaveGroup_def) }
  { case 2 show ?case using Cons(2) by (auto simp: leaveGroup_def) }
  { case 3 show ?case using Cons(3)
      by (auto simp: leaveGroup_def AList.delete_eq intro: filter_cong) }
qed auto

text \<open>
  Rebalancing a configuration whose shards are in order: balanced over its groups, or all
  unassigned when there is no group.
\<close>

lemma rebalance_nothing:
  assumes "cfGroups c = []"
  shows "rebalance c = Some c"
proof -
  have "\<not> rebalanceCond [] s" for s
    by (simp add: rebalanceCond_def maxmin_def maxminLoop_def mathMaxInt_def)
  then show ?thesis using assms by (simp add: rebalance_def while_option_unfold)
qed

definition balanced :: "Config \<Rightarrow> bool" where
  "balanced c \<longleftrightarrow> (if cfGroups c = [] then set (cfShards c) \<subseteq> {0} else 0 \<notin> set (cfShards c)) \<and>
     (\<forall>g \<in> fst ` set (cfGroups c). \<forall>h \<in> fst ` set (cfGroups c).
        shardCount (cfShards c) g \<le> shardCount (cfShards c) h + 1)"

lemma rebalance_config_ok:
  assumes "config_ok c"
  obtains sh where "rebalance c = Some (c\<lparr>cfShards := sh\<rparr>)" "config_ok (c\<lparr>cfShards := sh\<rparr>)"
    "balanced (c\<lparr>cfShards := sh\<rparr>)"
proof -
  have n: "length (cfShards c) = NShards" and d: "distinct (map fst (cfGroups c))"
    and 0: "0 \<notin> fst ` set (cfGroups c)" and sub: "set (cfShards c) \<subseteq> insert 0 (fst ` set (cfGroups c))"
    using assms by (auto simp: config_ok_def)
  show thesis
  proof (cases "cfGroups c = []")
    case True
    then show thesis
      using that [of "cfShards c"] rebalance_nothing [OF True] assms sub by (simp add: balanced_def)
  next
    case False
    have "int (length (cfShards c)) < mathMaxInt" using n by (simp add: NShards_def mathMaxInt_def)
    then obtain sh where sh: "rebalance c = Some (c\<lparr>cfShards := sh\<rparr>)" "length sh = length (cfShards c)"
      "set sh \<subseteq> set (cfShards c) \<union> fst ` set (cfGroups c)" "cfGroups c \<noteq> [] \<Longrightarrow> 0 \<notin> set sh"
      "\<And>g h. g \<in> fst ` set (cfGroups c) \<Longrightarrow> h \<in> fst ` set (cfGroups c) \<Longrightarrow>
         shardCount sh g \<le> shardCount sh h + 1"
      using rebalance_some [OF 0] by blast
    show thesis
      by (rule that [OF sh(1)])
        (use sh False n d 0 sub in \<open>auto simp: config_ok_def balanced_def\<close>)
  qed
qed

section \<open>Effect of the commands\<close>

lemma join_config:
  assumes "configs_ok cs" "0 \<notin> fst ` set (jaServers a)"
  obtains c where "scExec (Some (OpJoin a)) cs = Inr (Some (cs @ [c]))" "config_ok c" "balanced c"
    "cfNum c = int (length cs)" "map_of (cfGroups c) = map_of (cfGroups (last cs)) ++ map_of (rev (jaServers a))"
proof -
  note l = configs_ok_last [OF assms(1)]
  let ?c0 = "\<lparr>cfNum = cfNum (last cs) + 1, cfShards = cfShards (last cs),
     cfGroups = putGroups (jaServers a) (putGroups (cfGroups (last cs)) [])\<rparr>"
  have d: "distinct (map fst (cfGroups (last cs)))" using l by (simp add: config_ok_def)
  have "config_ok ?c0"
    using l assms(2) by (auto simp: config_ok_def keys_putGroups distinct_putGroups)
  then obtain sh where sh: "rebalance ?c0 = Some (?c0\<lparr>cfShards := sh\<rparr>)" "config_ok (?c0\<lparr>cfShards := sh\<rparr>)"
    "balanced (?c0\<lparr>cfShards := sh\<rparr>)" using rebalance_config_ok by blast
  show thesis
  proof (rule that [OF _ sh(2,3)])
    show "scExec (Some (OpJoin a)) cs = Inr (Some (cs @ [?c0\<lparr>cfShards := sh\<rparr>]))"
      using assms(1) sh(1) by (simp add: scExec_def confNext_eq configs_ok_def appendConfig_def)
    show "map_of (cfGroups (?c0\<lparr>cfShards := sh\<rparr>)) = map_of (cfGroups (last cs)) ++ map_of (rev (jaServers a))"
      using map_of_copy [OF d] by (simp add: map_of_putGroups)
  qed (use l in simp)
qed

lemma leave_config:
  assumes "configs_ok cs"
  obtains c where "scExec (Some (OpLeave a)) cs = Inr (Some (cs @ [c]))" "config_ok c" "balanced c"
    "cfNum c = int (length cs)" "map_of (cfGroups c) = map_of (cfGroups (last cs)) |` (- set (laGIDs a))"
proof -
  note l = configs_ok_last [OF assms]
  let ?g = "putGroups (cfGroups (last cs)) []"
  let ?c0 = "\<lparr>cfNum = cfNum (last cs) + 1,
     cfShards = map (\<lambda>g. if g \<in> set (laGIDs a) then 0 else g) (cfShards (last cs)),
     cfGroups = filter (\<lambda>(k, v). k \<notin> set (laGIDs a)) ?g\<rparr>"
  have d: "distinct (map fst (cfGroups (last cs)))" using l by (simp add: config_ok_def)
  have leave: "foldl leaveGroup \<lparr>cfNum = cfNum (last cs) + 1, cfShards = cfShards (last cs), cfGroups = ?g\<rparr>
      (laGIDs a) = ?c0"
    by (rule Config.equality) (simp_all add: foldl_leaveGroup)
  have keys: "fst ` set (filter (\<lambda>(k, v). k \<notin> set (laGIDs a)) xs) = fst ` set xs - set (laGIDs a)"
    for xs :: "(int \<times> string list) list" by (induction xs) auto
  have "distinct (map fst ?g)" using d by (simp add: distinct_putGroups)
  then have "distinct (map fst (filter (\<lambda>(k, v). k \<notin> set (laGIDs a)) ?g))" by (rule distinct_map_filter)
  moreover have k: "fst ` set (cfGroups ?c0) = fst ` set (cfGroups (last cs)) - set (laGIDs a)"
    using keys [of ?g] by simp
  moreover have "set (cfShards ?c0) \<subseteq> insert 0 (fst ` set (cfGroups (last cs)) - set (laGIDs a))"
    using l by (auto simp: config_ok_def)
  ultimately have "config_ok ?c0" unfolding config_ok_def k using l by (simp add: config_ok_def)
  then obtain sh where sh: "rebalance ?c0 = Some (?c0\<lparr>cfShards := sh\<rparr>)" "config_ok (?c0\<lparr>cfShards := sh\<rparr>)"
    "balanced (?c0\<lparr>cfShards := sh\<rparr>)" using rebalance_config_ok by blast
  have restr: "map_of (filter (\<lambda>(k, v). P k) xs) = map_of xs |` {k. P k}"
    for P and xs :: "(int \<times> string list) list"
    by (induction xs) (auto simp: restrict_map_def fun_eq_iff)
  show thesis
  proof (rule that [OF _ sh(2,3)])
    show "scExec (Some (OpLeave a)) cs = Inr (Some (cs @ [?c0\<lparr>cfShards := sh\<rparr>]))"
      using assms sh(1) leave by (simp add: scExec_def confNext_eq configs_ok_def appendConfig_def)
    show "map_of (cfGroups (?c0\<lparr>cfShards := sh\<rparr>)) = map_of (cfGroups (last cs)) |` (- set (laGIDs a))"
      using map_of_copy [OF d] by (simp add: restr Compl_eq)
  qed (use l in simp)
qed

lemma move_config:
  assumes "configs_ok cs" "0 \<le> maShard a" "maShard a < int NShards" "maGID a \<in> fst ` set (cfGroups (last cs))"
  obtains c where "scExec (Some (OpMove a)) cs = Inr (Some (cs @ [c]))" "config_ok c"
    "cfNum c = int (length cs)" "map_of (cfGroups c) = map_of (cfGroups (last cs))"
    "cfShards c = (cfShards (last cs))[nat (maShard a) := maGID a]"
proof -
  note l = configs_ok_last [OF assms(1)]
  let ?c = "\<lparr>cfNum = cfNum (last cs) + 1, cfShards = (cfShards (last cs))[nat (maShard a) := maGID a],
     cfGroups = putGroups (cfGroups (last cs)) []\<rparr>"
  have d: "distinct (map fst (cfGroups (last cs)))" using l by (simp add: config_ok_def)
  have "set (cfShards ?c) \<subseteq> insert (maGID a) (set (cfShards (last cs)))" by (simp add: set_update_subset_insert)
  then have "config_ok ?c"
    using l assms(4) distinct_putGroups [of "[]"] by (auto simp: config_ok_def keys_putGroups)
  moreover have "scExec (Some (OpMove a)) cs = Inr (Some (cs @ [?c]))"
    using assms(1-3) l by (simp add: scExec_def confNext_eq configs_ok_def appendConfig_def config_ok_def)
  ultimately show thesis using that [of ?c] l map_of_copy [OF d] by simp
qed

section \<open>Properties\<close>

text \<open>Two configurations for the concrete instances: the initial one and one with two groups.\<close>

definition sampleConfigs :: "Config list" where
  "sampleConfigs = [zeroConfig, \<lparr>cfNum = 1, cfShards = [7, 7, 7, 7, 7, 3, 3, 3, 3, 3],
     cfGroups = [(7, [''a'']), (3, [''b''])]\<rparr>]"

lemma sampleConfigs_ok: "configs_ok sampleConfigs"
  by (auto simp: configs_ok_def sampleConfigs_def config_ok_def zeroConfig_def NShards_def nth_Cons
      split: nat.splits)

text \<open>
  C32. The controller always answers: on a well-formed list of configurations, every command
  that names no group 0 and moves only existing shards to existing groups neither panics nor
  hangs; a query leaves the list, any other command appends one configuration, and the list
  stays well formed: configuration \<open>k\<close> has number \<open>k\<close>, ten shards, and every shard is
  unassigned or belongs to one of its groups.
\<close>

theorem ctrler_always_answers:
  assumes "configs_ok cs" "command_ok cs op"
  shows "\<exists>cs'. scExec (Some op) cs = Inr (Some cs') \<and> configs_ok cs' \<and>
     (case op of OpQuery a \<Rightarrow> cs' = cs | _ \<Rightarrow> length cs' = length cs + 1 \<and> take (length cs) cs' = cs)"
proof (cases op)
  case (OpJoin a)
  then have "0 \<notin> fst ` set (jaServers a)" using assms(2) by (simp add: command_ok_def)
  then obtain c where "scExec (Some (OpJoin a)) cs = Inr (Some (cs @ [c]))" "config_ok c"
    "cfNum c = int (length cs)" using join_config [OF assms(1)] by blast
  then show ?thesis using configs_ok_snoc [OF assms(1)] OpJoin by simp
next
  case (OpLeave a)
  obtain c where "scExec (Some (OpLeave a)) cs = Inr (Some (cs @ [c]))" "config_ok c"
    "cfNum c = int (length cs)" using leave_config [OF assms(1)] by blast
  then show ?thesis using configs_ok_snoc [OF assms(1)] OpLeave by simp
next
  case (OpMove a)
  then have "0 \<le> maShard a" "maShard a < int NShards" "maGID a \<in> fst ` set (cfGroups (last cs))"
    using assms(2) by (auto simp: command_ok_def)
  then obtain c where "scExec (Some (OpMove a)) cs = Inr (Some (cs @ [c]))" "config_ok c"
    "cfNum c = int (length cs)" using move_config [OF assms(1)] by blast
  then show ?thesis using configs_ok_snoc [OF assms(1)] OpMove by simp
next
  case (OpQuery a)
  then show ?thesis using assms(1) by (simp add: scExec_def)
qed

lemma ctrler_always_answers_witness:
  "\<exists>cs'. scExec (Some (OpJoin \<lparr>jaServers = [(5, [''c''])], jaClientId = 1, jaRequestId = 1\<rparr>)) sampleConfigs
     = Inr (Some cs') \<and> configs_ok cs' \<and> length cs' = 3"
  using ctrler_always_answers [OF sampleConfigs_ok,
      of "OpJoin \<lparr>jaServers = [(5, [''c''])], jaClientId = 1, jaRequestId = 1\<rparr>"]
  by (auto simp: command_ok_def sampleConfigs_def)

text \<open>
  C35. Joining: the new configuration has the old groups and the joined ones (with the joined
  servers where a group joins again), every shard is served, and the groups' loads differ by at
  most one.
\<close>

theorem join_effect:
  assumes "configs_ok cs" "0 \<notin> fst ` set (jaServers a)" "jaServers a \<noteq> []"
  shows "\<exists>c. scExec (Some (OpJoin a)) cs = Inr (Some (cs @ [c])) \<and> cfNum c = int (length cs) \<and>
     map_of (cfGroups c) = map_of (cfGroups (last cs)) ++ map_of (rev (jaServers a)) \<and>
     set (cfShards c) \<subseteq> fst ` set (cfGroups c) \<and>
     (\<forall>g \<in> fst ` set (cfGroups c). \<forall>h \<in> fst ` set (cfGroups c).
        shardCount (cfShards c) g \<le> shardCount (cfShards c) h + 1)"
proof -
  obtain c where c: "scExec (Some (OpJoin a)) cs = Inr (Some (cs @ [c]))" "config_ok c" "balanced c"
    "cfNum c = int (length cs)" "map_of (cfGroups c) = map_of (cfGroups (last cs)) ++ map_of (rev (jaServers a))"
    using join_config [OF assms(1,2)] by blast
  have "cfGroups c \<noteq> []"
  proof
    assume "cfGroups c = []"
    then have "map_of (rev (jaServers a)) = Map.empty" using c(5) by (metis map_add_None map_of.simps(1) ext)
    then show False using assms(3) by (metis map_of_eq_empty_iff rev_is_Nil_conv)
  qed
  then have "set (cfShards c) \<subseteq> fst ` set (cfGroups c)" using c(2,3) by (auto simp: config_ok_def balanced_def)
  with c show ?thesis by (auto simp: balanced_def)
qed

lemma join_effect_witness:
  "\<exists>c. scExec (Some (OpJoin \<lparr>jaServers = [(5, [''c''])], jaClientId = 1, jaRequestId = 1\<rparr>)) sampleConfigs
     = Inr (Some (sampleConfigs @ [c])) \<and> map_of (cfGroups c) 5 = Some [''c''] \<and> cfNum c = 2"
  using join_effect [OF sampleConfigs_ok, of "\<lparr>jaServers = [(5, [''c''])], jaClientId = 1, jaRequestId = 1\<rparr>"]
  by (auto simp: sampleConfigs_def)

text \<open>
  Leaving: the new configuration has the old groups without those that left, serves no
  shard from a group that left, leaves no shard unassigned while a group remains, and is
  balanced; when no group remains all shards are unassigned.
\<close>

lemma leave_effect:
  assumes "configs_ok cs"
  shows "\<exists>c. scExec (Some (OpLeave a)) cs = Inr (Some (cs @ [c])) \<and> cfNum c = int (length cs) \<and>
     map_of (cfGroups c) = map_of (cfGroups (last cs)) |` (- set (laGIDs a)) \<and>
     set (cfShards c) \<inter> (set (laGIDs a) - {0}) = {} \<and>
     (if cfGroups c = [] then set (cfShards c) \<subseteq> {0} else set (cfShards c) \<subseteq> fst ` set (cfGroups c)) \<and>
     (\<forall>g \<in> fst ` set (cfGroups c). \<forall>h \<in> fst ` set (cfGroups c).
        shardCount (cfShards c) g \<le> shardCount (cfShards c) h + 1)"
proof -
  obtain c where c: "scExec (Some (OpLeave a)) cs = Inr (Some (cs @ [c]))" "config_ok c" "balanced c"
    "cfNum c = int (length cs)" "map_of (cfGroups c) = map_of (cfGroups (last cs)) |` (- set (laGIDs a))"
    using leave_config [OF assms] by blast
  have "fst ` set (cfGroups c) \<inter> set (laGIDs a) = {}"
  proof -
    have "dom (map_of (cfGroups c)) \<inter> set (laGIDs a) = {}" using c(5) by auto
    then show ?thesis by (simp add: dom_map_of_conv_image_fst)
  qed
  moreover have "set (cfShards c) \<subseteq> insert 0 (fst ` set (cfGroups c))" using c(2) by (simp add: config_ok_def)
  ultimately have "set (cfShards c) \<inter> (set (laGIDs a) - {0}) = {}" by blast
  moreover have "if cfGroups c = [] then set (cfShards c) \<subseteq> {0} else set (cfShards c) \<subseteq> fst ` set (cfGroups c)"
    using c(2,3) by (auto simp: balanced_def config_ok_def)
  ultimately show ?thesis using c(1,3-5) unfolding balanced_def by blast
qed

lemma leave_effect_witness:
  "\<exists>c. scExec (Some (OpLeave \<lparr>laGIDs = [7], laClientId = 1, laRequestId = 1\<rparr>)) sampleConfigs
     = Inr (Some (sampleConfigs @ [c])) \<and> map_of (cfGroups c) 7 = None \<and> 7 \<notin> set (cfShards c)"
  using leave_effect [OF sampleConfigs_ok, of "\<lparr>laGIDs = [7], laClientId = 1, laRequestId = 1\<rparr>"]
  by (auto simp: sampleConfigs_def restrict_map_def)

section \<open>Exactly once\<close>

text \<open>The controller as a state machine with a table of last requests.\<close>

type_synonym sc_state = "(Config list \<times> sc_dedup) option res"

definition scStep :: "sc_op \<Rightarrow> sc_state \<Rightarrow> sc_state" where
  "scStep op st =
     (case st of
        Inr (Some (cs, d)) \<Rightarrow>
          if scDuplicate d (Some op) then st
          else (case scExec (Some op) cs of
                  Inl e \<Rightarrow> Inl e
                | Inr None \<Rightarrow> Inr None
                | Inr (Some cs') \<Rightarrow> Inr (Some (cs', d(scClientId (Some op) \<mapsto> Some op))))
      | _ \<Rightarrow> st)"

definition scConfigs :: "sc_state \<Rightarrow> Config list option res" where
  "scConfigs st = (case st of Inl e \<Rightarrow> Inl e | Inr r \<Rightarrow> Inr (map_option fst r))"

definition scLast :: "sc_state \<Rightarrow> 32 word \<Rightarrow> sc_op option" where
  "scLast st c = (case st of
     Inr (Some (cs, d)) \<Rightarrow> if c = 0 then None else Option.bind (d c) (\<lambda>x. x) | _ \<Rightarrow> None)"

definition scRun :: "sc_op \<Rightarrow> Config list option res \<Rightarrow> Config list option res" where
  "scRun op r = (case r of Inr (Some cs) \<Rightarrow> scExec (Some op) cs | _ \<Rightarrow> r)"

definition scClientOf :: "sc_op \<Rightarrow> 32 word option" where
  "scClientOf op = (case op of OpQuery a \<Rightarrow> None | _ \<Rightarrow> Some (scClientId (Some op)))"

definition scHalted :: "Config list option res \<Rightarrow> bool" where
  "scHalted r \<longleftrightarrow> (case r of Inr (Some cs) \<Rightarrow> False | _ \<Rightarrow> True)"

lemma scAlive: "\<not> scHalted (scConfigs st) \<longleftrightarrow> (\<exists>cs d. st = Inr (Some (cs, d)))"
  by (auto simp: scHalted_def scConfigs_def split: sum.splits option.splits)

lemma scDuplicate_iff:
  "scDuplicate d (Some op) \<longleftrightarrow> (\<exists>p. d (scClientId (Some op)) = Some (Some p) \<and> sameScRequest p op)"
  by (auto simp: scDuplicate_def split: option.splits)

lemma scQuery_step: "scClientOf op = None \<Longrightarrow>
    scExec (Some op) cs = Inr (Some cs) \<and> scClientId (Some op) = 0 \<and> \<not> scDuplicate d (Some op)"
  by (cases op) (auto simp: scClientOf_def scExec_def scClientId_def scDuplicate_iff sameScRequest_def
      split: sc_op.splits)

interpretation scd: dedup_service scStep scConfigs scLast scRun scClientOf sameScRequest scHalted
  "\<lambda>op. scClientOf op \<noteq> Some 0"
proof
  fix p q r op c st s
  show "scClientOf p \<noteq> None \<Longrightarrow> sameScRequest p p"
    by (cases p) (auto simp: scClientOf_def sameScRequest_def)
  show "sameScRequest p q \<Longrightarrow> sameScRequest q p"
    by (cases p; cases q) (auto simp: sameScRequest_def)
  show "sameScRequest p q \<Longrightarrow> sameScRequest q r \<Longrightarrow> sameScRequest p r"
    by (cases p; cases q; cases r) (auto simp: sameScRequest_def)
  show "scHalted (scConfigs st) \<Longrightarrow> scConfigs (scStep op st) = scConfigs st"
    by (auto simp: scHalted_def scConfigs_def scStep_def split: sum.splits option.splits)
  show "scHalted s \<Longrightarrow> scRun op s = s"
    by (auto simp: scHalted_def scRun_def split: sum.splits option.splits)
  show "scClientOf op = None \<Longrightarrow> scRun op s = s"
    using scQuery_step [of op] by (auto simp: scRun_def split: sum.splits option.splits)
  show "scConfigs (scStep op st) = scConfigs st \<and> scLast (scStep op st) = scLast st"
    if "scClientOf op = None" and alive: "\<not> scHalted (scConfigs st)"
  proof -
    obtain cs d where st: "st = Inr (Some (cs, d))" using alive by (auto simp: scAlive)
    then show ?thesis
      using scQuery_step [OF that(1)] by (auto simp: scStep_def scConfigs_def scLast_def fun_eq_iff)
  qed
  show "scConfigs (scStep op st) = scConfigs st \<and> scLast (scStep op st) = scLast st"
    if "scClientOf op = Some c" and alive: "\<not> scHalted (scConfigs st)"
      and "scLast st c = Some p" "sameScRequest p op"
  proof -
    obtain cs d where st: "st = Inr (Some (cs, d))" using alive by (auto simp: scAlive)
    have "scClientId (Some op) = c" using that(1) by (auto simp: scClientOf_def split: sc_op.splits)
    then have "scDuplicate d (Some op)"
      using that(3,4) by (auto simp: st scDuplicate_iff scLast_def Option.bind_eq_Some_conv split: if_splits)
    then show ?thesis by (simp add: st scStep_def)
  qed
  show "scConfigs (scStep op st) = scRun op (scConfigs st) \<and>
      (\<not> scHalted (scConfigs (scStep op st)) \<longrightarrow> scLast (scStep op st) = (scLast st)(c \<mapsto> op))"
    if "scClientOf op = Some c" "scClientOf op \<noteq> Some 0" and alive: "\<not> scHalted (scConfigs st)"
      and "\<And>p. scLast st c = Some p \<Longrightarrow> \<not> sameScRequest p op"
  proof -
    obtain cs d where st: "st = Inr (Some (cs, d))" using alive by (auto simp: scAlive)
    have c: "scClientId (Some op) = c" "c \<noteq> 0"
      using that(1,2) by (auto simp: scClientOf_def split: sc_op.splits)
    then have "\<not> scDuplicate d (Some op)" using that(4) by (auto simp: st scDuplicate_iff scLast_def)
    then show ?thesis using c
      by (auto simp: st scStep_def scConfigs_def scRun_def scLast_def scHalted_def
          split: sum.splits option.splits)
  qed
qed

definition scAbs :: "ShardCtrler \<Rightarrow> sc_state" where
  "scAbs sc = Inr (Some (sc_configs sc, sc_dedup sc))"

text \<open>The outcome of an application, seen through the abstract state.\<close>

definition scOutcome :: "ShardCtrler option res \<Rightarrow> sc_state" where
  "scOutcome r = (case r of Inl e \<Rightarrow> Inl e | Inr None \<Rightarrow> Inr None | Inr (Some sc) \<Rightarrow> scAbs sc)"

lemma scExec_nonempty: "scExec c cs = Inr (Some cs') \<Longrightarrow> cs \<noteq> [] \<Longrightarrow> cs' \<noteq> []"
  by (auto simp: scExec_def appendConfig_def elim!: rbind_InrE split: option.splits sc_op.splits)

lemma scApply_refines:
  assumes "wf_log (rf_log (sc_rf sc))" "sc_configs sc \<noteq> []" "amCommand v = Some op"
    and "sc_lastApplied sc < amCommandIndex v"
  shows "scOutcome (scApply bytelen v sc) = scStep op (scAbs sc) \<and>
    (\<forall>sc'. scApply bytelen v sc = Inr (Some sc') \<longrightarrow> wf_log (rf_log (sc_rf sc')) \<and> sc_configs sc' \<noteq> [] \<and>
       sc_lastApplied sc' \<le> amCommandIndex v)"
proof (cases "scDuplicate (sc_dedup sc) (Some op)")
  case True
  then show ?thesis using assms by (simp add: scApply_def scOutcome_def scStep_def scAbs_def)
next
  case False
  show ?thesis
  proof (cases "scExec (Some op) (sc_configs sc)")
    case (Inl e)
    then show ?thesis using assms False by (simp add: scApply_def scOutcome_def scStep_def scAbs_def)
  next
    case (Inr r)
    show ?thesis
    proof (cases r)
      case None
      then show ?thesis using assms False Inr by (simp add: scApply_def scOutcome_def scStep_def scAbs_def)
    next
      case (Some cs)
      let ?d = "(sc_dedup sc)(scClientId (Some op) \<mapsto> Some op)"
      obtain rf' where rf': "Snapshot (amCommandIndex v) (Encode (Encode [] (GScDedup ?d)) (GConfigs cs)) (sc_rf sc) = Inr rf'"
        "wf_log (rf_log rf')" using Snapshot_total [OF assms(1)] by blast
      have "cs \<noteq> []" using scExec_nonempty Inr Some assms(2) by blast
      then show ?thesis
        using assms False Inr Some rf'
        by (auto simp: scApply_def scOutcome_def scStep_def scAbs_def Let_def)
    qed
  qed
qed

lemma scSend_other [simp]:
  "scAbs (scSend ch x sc) = scAbs sc" "sc_rf (scSend ch x sc) = sc_rf sc"
  "sc_configs (scSend ch x sc) = sc_configs sc" "sc_lastApplied (scSend ch x sc) = sc_lastApplied sc"
  by (simp_all add: scSend_def scAbs_def split: option.split)

lemma answerNum_total: "cs \<noteq> [] \<Longrightarrow> \<exists>num. answerNum c cs = Inr num"
  by (auto simp: answerNum_def split: option.split sc_op.split)

lemma scDoApply_refines:
  assumes "wf_log (rf_log (sc_rf sc))" "sc_configs sc \<noteq> []" "amCommand v = Some op"
    and "sc_lastApplied sc < amCommandIndex v" "amCommandValid v"
  shows "scOutcome (scDoApply bytelen v sc) = scStep op (scAbs sc) \<and>
    (\<forall>sc'. scDoApply bytelen v sc = Inr (Some sc') \<longrightarrow> wf_log (rf_log (sc_rf sc')) \<and> sc_configs sc' \<noteq> [] \<and>
       sc_lastApplied sc' \<le> amCommandIndex v)"
proof -
  note a = scApply_refines [OF assms(1-4), of bytelen]
  show ?thesis
  proof (cases "\<exists>sc1. scApply bytelen v sc = Inr (Some sc1)")
    case False
    then have "scDoApply bytelen v sc = scApply bytelen v sc"
      using assms(5) by (cases "scApply bytelen v sc") (auto simp: scDoApply_def split: option.split)
    with a show ?thesis by simp
  next
    case True
    then obtain sc1 where sc1: "scApply bytelen v sc = Inr (Some sc1)" by blast
    then obtain num where "answerNum (amCommand v) (sc_configs sc1) = Inr num"
      using a answerNum_total by blast
    with a sc1 assms(5) show ?thesis by (auto simp: scDoApply_def scOutcome_def)
  qed
qed

lemma scStep_halted: "scHalted (scConfigs st) \<Longrightarrow> fold scStep ops st = st"
proof (induction ops)
  case (Cons op ops)
  then show ?case by (cases st) (auto simp: scStep_def scHalted_def scConfigs_def split: option.splits)
qed simp

lemma scDoApplyLoop_refines:
  assumes "wf_log (rf_log (sc_rf sc))" "sc_configs sc \<noteq> []" "sc_lastApplied sc < i"
  shows "scOutcome (scDoApplyLoop bytelen (commandMsgs ops i) sc) = fold scStep ops (scAbs sc)"
  using assms
proof (induction ops arbitrary: sc i)
  case Nil
  then show ?case by (simp add: scOutcome_def)
next
  case (Cons op ops)
  let ?v = "\<lparr>amCommandValid = True, amCommand = Some op, amCommandIndex = i,
     amSnapshotValid = False, amSnapshot = [], amSnapshotTerm = 0, amSnapshotIndex = 0\<rparr> :: sc_msg"
  note a = scDoApply_refines [of sc ?v op bytelen, OF Cons.prems(1,2)]
  show ?case
  proof (cases "\<exists>sc1. scDoApply bytelen ?v sc = Inr (Some sc1)")
    case True
    then obtain sc1 where sc1: "scDoApply bytelen ?v sc = Inr (Some sc1)" by blast
    then have "scAbs sc1 = scStep op (scAbs sc)" "wf_log (rf_log (sc_rf sc1))" "sc_configs sc1 \<noteq> []"
      "sc_lastApplied sc1 < i + 1"
      using a Cons.prems(3) by (auto simp: scOutcome_def)
    with Cons.IH [of sc1 "i + 1"] sc1 show ?thesis by (simp add: commandMsgs_Cons)
  next
    case False
    then consider (panic) e where "scDoApply bytelen ?v sc = Inl e" | (hang) "scDoApply bytelen ?v sc = Inr None"
      by (metis not_None_eq old.sum.exhaust)
    then have "scOutcome (scDoApplyLoop bytelen (commandMsgs (op # ops) i) sc) = scOutcome (scDoApply bytelen ?v sc)"
      "scHalted (scConfigs (scOutcome (scDoApply bytelen ?v sc)))"
      by (cases; simp add: commandMsgs_Cons scOutcome_def scHalted_def scConfigs_def)+
    moreover have "scOutcome (scDoApply bytelen ?v sc) = scStep op (scAbs sc)" using a Cons.prems(3) by simp
    ultimately have "scOutcome (scDoApplyLoop bytelen (commandMsgs (op # ops) i) sc) = scStep op (scAbs sc)"
      "scHalted (scConfigs (scStep op (scAbs sc)))" by simp_all
    then show ?thesis by (simp add: scStep_halted)
  qed
qed


definition freshSC :: ShardCtrler where
  "freshSC = projr (StartServer 3 0 MakePersister 0)"

lemma freshSC: "StartServer 3 0 MakePersister 0 = Inr freshSC" "wf_log (rf_log (sc_rf freshSC))"
  "sc_configs freshSC = [zeroConfig]" "sc_lastApplied freshSC = 0" "sc_dedup freshSC = Map.empty"
  by (simp_all add: freshSC_def StartServer_def Make_fresh)


section \<open>Queries\<close>

text \<open>
  Queries: a query for a number of the list is answered with the configuration of that
  number, any other query with the latest configuration at the time it was applied, also when
  more configurations were appended before the handler built its reply.
\<close>

lemma query_answers:
  assumes "configs_ok cs" "sc_configs sc = cs @ later"
  shows "\<exists>num r. answerNum (Some (OpQuery q)) cs = Inr num \<and> commandResult (Some num) sc = Inr r \<and>
     queryReply r sc = Inr \<lparr>crWrongLeader = False, crErr = scOK, qrConfig = Some (cs !
       (if 0 \<le> qaNum q \<and> qaNum q < int (length cs) then nat (qaNum q) else length cs - 1))\<rparr>"
proof -
  have ne: "cs \<noteq> []" using assms(1) by (simp add: configs_ok_def)
  note l = configs_ok_last [OF assms(1)]
  define k where "k = (if 0 \<le> qaNum q \<and> qaNum q < int (length cs) then nat (qaNum q) else length cs - 1)"
  have "answerNum (Some (OpQuery q)) cs = Inr (int k)"
    using ne l by (auto simp: answerNum_def of_nat_diff Suc_leI k_def)
  moreover have k: "k < length cs" using ne by (auto simp: nat_less_iff k_def)
  have "at (sc_configs sc) (int k) = Inr (cs ! k)" using k assms(2) by (simp add: at_def nth_append)
  moreover have "commandResult (Some (int k)) sc = Inr (int k, False, scOK)"
    using assms(2) ne by (simp add: commandResult_def)
  ultimately show ?thesis unfolding k_def [symmetric]
    by (intro exI [of _ "int k"] exI [of _ "(int k, False, scOK)"]) (simp add: queryReply_def)
qed

lemma query_answers_witness:
  "\<exists>num r. answerNum (Some (OpQuery \<lparr>qaNum = -1\<rparr>)) sampleConfigs = Inr num \<and>
     commandResult (Some num) (freshSC\<lparr>sc_configs := sampleConfigs @ [zeroConfig]\<rparr>) = Inr r \<and>
     queryReply r (freshSC\<lparr>sc_configs := sampleConfigs @ [zeroConfig]\<rparr>) =
       Inr \<lparr>crWrongLeader = False, crErr = scOK, qrConfig = Some (sampleConfigs ! 1)\<rparr>"
  using query_answers [OF sampleConfigs_ok, of "freshSC\<lparr>sc_configs := sampleConfigs @ [zeroConfig]\<rparr>"
      "[zeroConfig]" "\<lparr>qaNum = -1\<rparr>"]
  by (simp add: sampleConfigs_def)

text \<open>
  A query answered by another command crashes the server: replies are matched by log index
  alone, and a command other than a query sends -1; a handler of \<^verbatim>\<open>Query\<close> waiting at that index
  then reads configuration -1, an index out of range.
\<close>

lemma query_mismatch_panics:
  assumes "scApply bytelen v sc = Inr (Some sc1)" "amCommandValid v" "rf_state (sc_rf sc1) = Leader"
    and "amCommand v = Some op" "\<forall>q. op \<noteq> OpQuery q"
    and "sc_done sc1 (amCommandIndex v) = Some ch" "scReceived ch sc1 = None" "sc_configs sc1 \<noteq> []"
  shows "\<exists>sc' num r. scDoApply bytelen v sc = Inr (Some sc') \<and> scReceived ch sc' = Some num \<and>
     commandResult (Some num) sc' = Inr r \<and> queryReply r sc' = Inl IndexOutOfRange"
proof -
  have num: "answerNum (amCommand v) (sc_configs sc1) = Inr (-1)"
    using assms(4,5) by (cases op) (auto simp: answerNum_def)
  let ?sc = "scSend (Some ch) (-1) sc1"
  have "scDoApply bytelen v sc = Inr (Some ?sc)"
    using assms num by (simp add: scDoApply_def GetState_def)
  moreover have "scReceived ch ?sc = Some (-1)"
    using assms(7) by (simp add: scReceived_def scSend_def map_add_def split: option.split)
  ultimately show ?thesis using assms(8) by (auto simp: commandResult_def queryReply_def at_def)
qed

section \<open>Restart\<close>

lemma scReadSnapshot_encoded:
  "sc_configs (scReadSnapshot (Encode (Encode [] (GScDedup d)) (GConfigs cs)) sc) = cs"
  "sc_dedup (scReadSnapshot (Encode (Encode [] (GScDedup d)) (GConfigs cs)) sc) = d"
  by (simp_all add: scReadSnapshot_def Encode_def)

text \<open>
  C39. A restart after a snapshot loses the configurations: when applying a command makes the
  controller take a snapshot, the configurations are on stable storage and \<^verbatim>\<open>readSnapshot\<close> would
  restore them, but \<^verbatim>\<open>StartServer\<close> does not read the snapshot: the restarted server knows only
  the initial configuration, and its Raft never delivers the commands before the snapshot again.
\<close>

theorem restart_loses_configs:
  assumes "node_ok n i (sc_rf sc)" "wf_log (rf_log (sc_rf sc))" "amCommand v = Some op"
    and "sc_lastApplied sc < amCommandIndex v" "\<not> scDuplicate (sc_dedup sc) (Some op)"
    and "scExec (Some op) (sc_configs sc) = Inr (Some cs)"
    and "base (rf_log (sc_rf sc)) \<le> amCommandIndex v" "amCommandIndex v \<le> tailIndex (rf_log (sc_rf sc))"
    and "sc_maxraftstate sc \<noteq> -1" "sc_maxraftstate sc \<le> GetStateSize bytelen (sc_rf sc)"
  shows "\<exists>sc' sc''. scApply bytelen v sc = Inr (Some sc') \<and> sc_configs sc' = cs \<and>
     StartServer n i (Copy (rf_persister (sc_rf sc'))) r = Inr sc'' \<and> sc_configs sc'' = [zeroConfig] \<and>
     sc_configs (scReadSnapshot (ReadSnapshot (Copy (rf_persister (sc_rf sc')))) sc'') = cs \<and>
     rf_lastApplied (sc_rf sc'') = amCommandIndex v"
proof -
  let ?d = "(sc_dedup sc)(scClientId (Some op) \<mapsto> Some op)" and ?k = "amCommandIndex v" and ?rf = "sc_rf sc"
  let ?snap = "Encode (Encode [] (GScDedup ?d)) (GConfigs cs)"
  have "eIndex ((rf_log ?rf ! nat (?k - base (rf_log ?rf)))\<lparr>eCommand := None\<rparr>) = ?k"
    using wf_log_nth [OF assms(2), of "nat (?k - base (rf_log ?rf))"] assms(7,8) by (auto simp: tailIndex_def)
  note c = compacted(2) [OF assms(2,7,8) this]
  obtain rf' where rf': "Snapshot ?k ?snap ?rf = Inr rf'" "ReadSnapshot (rf_persister rf') = ?snap"
    "base (rf_log rf') = ?k"
    using Snapshot_inside [OF assms(2,7,8), of ?snap] c by (auto simp: Let_def ps.storage_simps)
  let ?sc = "sc\<lparr>sc_configs := cs, sc_dedup := ?d, sc_lastApplied := ?k, sc_rf := rf'\<rparr>"
  have "scApply bytelen v sc = Inr (Some ?sc)"
    using assms(3-6,9,10) rf'(1) by (simp add: scApply_def Let_def)
  moreover obtain rf'' where "Make n i (Copy (rf_persister rf')) r = Inr rf''" "rf_lastApplied rf'' = ?k"
    using Make_restart [OF Snapshot_node_ok [OF rf'(1) assms(1)], of r] rf'(3) by auto
  ultimately show ?thesis
    using rf'(2) by (auto simp: StartServer_def ps.storage_simps scReadSnapshot_encoded)
qed

definition busySC :: ShardCtrler where
  "busySC = freshSC\<lparr>sc_rf := persist ((sc_rf freshSC)\<lparr>
     rf_log := [sentinel, \<lparr>eTerm = 1, eIndex = 1, eCommand = None\<rparr>]\<rparr>)\<rparr>"

lemma restart_loses_configs_witness:
  "\<exists>sc' sc''. scApply (\<lambda>_. 2000)
       (hd (commandMsgs [OpMove \<lparr>maShard = 2, maGID = 7, maClientId = 4, maRequestId = 1\<rparr>] 1)) busySC = Inr (Some sc') \<and>
     length (sc_configs sc') = 2 \<and>
     StartServer 3 0 (Copy (rf_persister (sc_rf sc'))) 5 = Inr sc'' \<and> sc_configs sc'' = [zeroConfig] \<and>
     rf_lastApplied (sc_rf sc'') = 1"
proof -
  let ?op = "OpMove \<lparr>maShard = 2, maGID = 7, maClientId = 4, maRequestId = 1\<rparr>"
  let ?v = "hd (commandMsgs [?op] 1) :: sc_msg"
  have ok: "node_ok 3 0 (sc_rf busySC)"
    by (simp add: busySC_def node_ok_def)
      (simp add: persist_def freshSC_def StartServer_def Make_fresh)
  have wf: "wf_log (rf_log (sc_rf busySC))" "base (rf_log (sc_rf busySC)) = 0" "tailIndex (rf_log (sc_rf busySC)) = 1"
    by (simp_all add: busySC_def persist_def wf_log_def base_def tailIndex_def sentinel_def)
  obtain cs where cs: "scExec (Some ?op) (sc_configs busySC) = Inr (Some cs)" "length cs = 2"
    by (simp add: busySC_def freshSC(3) scExec_def confNext_def ConfigsTailL_def at_def zeroConfig_def put_def
        NShards_def appendConfig_def)
  have "sc_lastApplied busySC = 0" "sc_maxraftstate busySC = 1000" "GetStateSize (\<lambda>_. 2000) (sc_rf busySC) = 2000"
    "\<not> scDuplicate (sc_dedup busySC) (Some ?op)" "amCommand ?v = Some ?op" "amCommandIndex ?v = 1"
    by (simp_all add: busySC_def freshSC(4,5) scDuplicate_iff commandMsgs_Cons GetStateSize_def RaftStateSize_def)
      (simp add: freshSC_def StartServer_def Make_fresh)
  then show ?thesis
    using restart_loses_configs [OF ok wf(1), of ?v ?op cs "\<lambda>_. 2000" 5] cs wf(2,3) by auto
qed

end
