(* ===== verification/Shard_Clerk.thy ===== *)
theory Shard_Clerk
  imports Shard_Ctrler
begin

text \<open>
  The client of the shard controller, \<^verbatim>\<open>db_files/shard-controller/client.go\<close>. Each call goes
  round all servers, again and again, until one accepts it; the fuel is the number of rounds.
  \<open>call k s\<close> is the outcome of the call to server \<open>s\<close> in round \<open>k\<close>, \<open>None\<close> when it fails.
\<close>

record ScClerk =
  cc_servers :: nat
  cc_cid :: "32 word"
  cc_leader :: "32 word"

definition scNrand :: "nat \<Rightarrow> 64 word" where
  "scNrand x = of_nat (x mod 2 ^ 62)"

definition scMakeClerk :: "nat \<Rightarrow> 32 word \<Rightarrow> ScClerk" where
  "scMakeClerk servers rnd = \<lparr>cc_servers = servers, cc_cid = take_bit 31 rnd, cc_leader = 0\<rparr>"

definition scClerkArgs :: "ScClerk \<Rightarrow> nat \<Rightarrow> 32 word \<times> 64 word" where
  "scClerkArgs ck rnd = (cc_cid ck, scNrand rnd)"

definition accepted :: "'a CommandReply_scheme \<Rightarrow> bool" where
  "accepted reply \<longleftrightarrow> \<not> crWrongLeader reply \<and> crErr reply = scOK"

text \<open>The inner loop: the first server that accepts.\<close>

fun tryServers :: "(nat \<Rightarrow> 'a CommandReply_scheme option) \<Rightarrow> nat list \<Rightarrow> 'a CommandReply_scheme option" where
  "tryServers call [] = None"
| "tryServers call (s # ss) =
     (case call s of
        Some reply \<Rightarrow> if accepted reply then Some reply else tryServers call ss
      | None \<Rightarrow> tryServers call ss)"

fun scClerkLoop ::
    "(nat \<Rightarrow> nat \<Rightarrow> 'a CommandReply_scheme option) \<Rightarrow> nat \<Rightarrow> nat \<Rightarrow> nat \<Rightarrow> 'a CommandReply_scheme option" where
  "scClerkLoop call servers 0 k = None"
| "scClerkLoop call servers (Suc fuel) k =
     (case tryServers (call k) [0..<servers] of
        Some reply \<Rightarrow> Some reply
      | None \<Rightarrow> scClerkLoop call servers fuel (k + 1))"

definition scClerkQuery ::
    "(QueryArgs \<Rightarrow> nat \<Rightarrow> nat \<Rightarrow> QueryReply option) \<Rightarrow> nat \<Rightarrow> int \<Rightarrow> ScClerk \<Rightarrow> Config option option" where
  "scClerkQuery call fuel num ck =
     map_option qrConfig (scClerkLoop (call \<lparr>qaNum = num\<rparr>) (cc_servers ck) fuel 0)"

definition scClerkJoin ::
    "(JoinArgs \<Rightarrow> nat \<Rightarrow> nat \<Rightarrow> CommandReply option) \<Rightarrow> nat \<Rightarrow> nat \<Rightarrow> (int \<times> string list) list \<Rightarrow> ScClerk \<Rightarrow> unit option" where
  "scClerkJoin call fuel rnd servers ck =
     (let (cid, rid) = scClerkArgs ck rnd
      in map_option (\<lambda>_. ()) (scClerkLoop
           (call \<lparr>jaServers = servers, jaClientId = cid, jaRequestId = rid\<rparr>) (cc_servers ck) fuel 0))"

definition scClerkLeave ::
    "(LeaveArgs \<Rightarrow> nat \<Rightarrow> nat \<Rightarrow> CommandReply option) \<Rightarrow> nat \<Rightarrow> nat \<Rightarrow> int list \<Rightarrow> ScClerk \<Rightarrow> unit option" where
  "scClerkLeave call fuel rnd gids ck =
     (let (cid, rid) = scClerkArgs ck rnd
      in map_option (\<lambda>_. ()) (scClerkLoop
           (call \<lparr>laGIDs = gids, laClientId = cid, laRequestId = rid\<rparr>) (cc_servers ck) fuel 0))"

definition scClerkMove ::
    "(MoveArgs \<Rightarrow> nat \<Rightarrow> nat \<Rightarrow> CommandReply option) \<Rightarrow> nat \<Rightarrow> nat \<Rightarrow> int \<Rightarrow> int \<Rightarrow> ScClerk \<Rightarrow> unit option" where
  "scClerkMove call fuel rnd shard gid ck =
     (let (cid, rid) = scClerkArgs ck rnd
      in map_option (\<lambda>_. ()) (scClerkLoop
           (call \<lparr>maShard = shard, maGID = gid, maClientId = cid, maRequestId = rid\<rparr>) (cc_servers ck) fuel 0))"

section \<open>The loop returns when a server accepts\<close>

lemma tryServers_Some:
  "tryServers call ss = Some r \<Longrightarrow> accepted r \<and> (\<exists>s \<in> set ss. call s = Some r)"
  by (induction ss) (auto split: option.splits if_splits)

lemma tryServers_finds:
  "s \<in> set ss \<Longrightarrow> call s = Some r \<Longrightarrow> accepted r \<Longrightarrow> \<exists>r'. tryServers call ss = Some r'"
  by (induction ss) (auto split: option.splits)

lemma scClerkLoop_returns:
  assumes "s < servers" "call (k + j) s = Some r" "accepted r" "j < fuel"
  shows "\<exists>r' k' s'. scClerkLoop call servers fuel k = Some r' \<and> accepted r' \<and> call k' s' = Some r'"
  using assms
proof (induction fuel arbitrary: k j)
  case (Suc fuel)
  show ?case
  proof (cases "tryServers (call k) [0..<servers]")
    case (Some r')
    then have "scClerkLoop call servers (Suc fuel) k = Some r'" by simp
    then show ?thesis using tryServers_Some [OF Some] by blast
  next
    case None
    have "j \<noteq> 0"
    proof
      assume "j = 0"
      then have "\<exists>r'. tryServers (call k) [0..<servers] = Some r'"
        using Suc.prems by (intro tryServers_finds [of s _ _ r]) simp_all
      with None show False by simp
    qed
    then obtain i where i: "j = Suc i" using not0_implies_Suc by blast
    have "scClerkLoop call servers (Suc fuel) k = scClerkLoop call servers fuel (k + 1)" using None by simp
    moreover have "\<exists>r' k' s'. scClerkLoop call servers fuel (k + 1) = Some r' \<and> accepted r' \<and> call k' s' = Some r'"
      by (rule Suc.IH [of "k + 1" i]) (use Suc.prems i in simp_all)
    ultimately show ?thesis by simp
  qed
qed simp

lemma scClerkLoop_accepted:
  "scClerkLoop call servers fuel k = Some r \<Longrightarrow> accepted r \<and> (\<exists>k' s'. call k' s' = Some r)"
proof (induction fuel arbitrary: k)
  case (Suc fuel)
  then show ?case
    by (cases "tryServers (call k) [0..<servers]") (simp_all, use tryServers_Some in blast)
qed simp

end
