(* ===== verification/Sharded_KV.thy ===== *)
theory Sharded_KV
  imports Shard_Clerk
begin

text \<open>
  The sharded key/value store, \<^verbatim>\<open>db_files/raft-db-sharded\<close>. Its client finds the group of a key
  in the latest configuration of the shard controller and asks the servers of that group; the
  server's handlers have empty bodies. The client's loops take fuel, the number of rounds, and
  two arguments for the outside: \<open>call k srv\<close>, the outcome of the call to the server named \<open>srv\<close> in
  round \<open>k\<close>, and \<open>query k\<close>, what the controller's client returned at the end of round \<open>k\<close>.
\<close>

section \<open>Data\<close>

definition skOK :: string where "skOK = ''OK''"
definition skErrNoKey :: string where "skErrNoKey = ''ErrNoKey''"
definition skErrWrongGroup :: string where "skErrWrongGroup = ''ErrWrongGroup''"
definition skErrWrongLeader :: string where "skErrWrongLeader = ''ErrWrongLeader''"

record SkPutAppendArgs =
  spKey :: string
  spValue :: string
  spOp :: string

record SkPutAppendReply =
  sprErr :: string

record SkGetArgs =
  sgKey :: string

record SkGetReply =
  sgrErr :: string
  sgrValue :: string

section \<open>The client\<close>

definition key2shard :: "string \<Rightarrow> int" where
  "key2shard key =
     (let shard = (case key of [] \<Rightarrow> 0 | c # cs \<Rightarrow> of_char c) in shard mod int NShards)"

record SkClerk =
  sk_sm :: ScClerk
  sk_config :: Config

definition skMakeClerk :: "nat \<Rightarrow> 32 word \<Rightarrow> SkClerk" where
  "skMakeClerk ctrlers rnd = \<lparr>sk_sm = scMakeClerk ctrlers rnd, sk_config = zeroConfig\<rparr>"

text \<open>The loop over the servers of a group: it ends at an answer, at \<^verbatim>\<open>ErrWrongGroup\<close>, or after
  the last server.\<close>

fun skGetServers :: "(string \<Rightarrow> SkGetReply option) \<Rightarrow> string list \<Rightarrow> string option" where
  "skGetServers call [] = None"
| "skGetServers call (srv # srvs) =
     (case call srv of
        None \<Rightarrow> skGetServers call srvs
      | Some reply \<Rightarrow>
          if sgrErr reply = skOK \<or> sgrErr reply = skErrNoKey then Some (sgrValue reply)
          else if sgrErr reply = skErrWrongGroup then None
          else skGetServers call srvs)"

fun skGetLoop ::
    "(nat \<Rightarrow> string \<Rightarrow> SkGetReply option) \<Rightarrow> (nat \<Rightarrow> Config) \<Rightarrow> string \<Rightarrow> nat \<Rightarrow> nat \<Rightarrow> SkClerk \<Rightarrow>
     (SkClerk \<times> string) option res" where
  "skGetLoop call query key 0 k ck = Inr None"
| "skGetLoop call query key (Suc fuel) k ck =
     rbind (at (cfShards (sk_config ck)) (key2shard key)) (\<lambda>gid.
       let found = (case map_of (cfGroups (sk_config ck)) gid of
                      None \<Rightarrow> None | Some servers \<Rightarrow> skGetServers (call k) servers)
       in case found of
            Some value \<Rightarrow> Inr (Some (ck, value))
          | None \<Rightarrow> skGetLoop call query key fuel (k + 1) (ck\<lparr>sk_config := query k\<rparr>))"

definition skClerkGet where
  "skClerkGet call query fuel key ck = skGetLoop (call \<lparr>sgKey = key\<rparr>) query key fuel 0 ck"

fun skPutServers :: "(string \<Rightarrow> SkPutAppendReply option) \<Rightarrow> string list \<Rightarrow> bool" where
  "skPutServers call [] = False"
| "skPutServers call (srv # srvs) =
     (case call srv of
        None \<Rightarrow> skPutServers call srvs
      | Some reply \<Rightarrow>
          if sprErr reply = skOK then True
          else if sprErr reply = skErrWrongGroup then False
          else skPutServers call srvs)"

fun skPutLoop ::
    "(nat \<Rightarrow> string \<Rightarrow> SkPutAppendReply option) \<Rightarrow> (nat \<Rightarrow> Config) \<Rightarrow> string \<Rightarrow> nat \<Rightarrow> nat \<Rightarrow> SkClerk \<Rightarrow>
     SkClerk option res" where
  "skPutLoop call query key 0 k ck = Inr None"
| "skPutLoop call query key (Suc fuel) k ck =
     rbind (at (cfShards (sk_config ck)) (key2shard key)) (\<lambda>gid.
       let found = (case map_of (cfGroups (sk_config ck)) gid of
                      None \<Rightarrow> False | Some servers \<Rightarrow> skPutServers (call k) servers)
       in if found then Inr (Some ck)
          else skPutLoop call query key fuel (k + 1) (ck\<lparr>sk_config := query k\<rparr>))"

definition skClerkPutAppend where
  "skClerkPutAppend call query fuel key value op ck =
     skPutLoop (call \<lparr>spKey = key, spValue = value, spOp = op\<rparr>) query key fuel 0 ck"

definition skClerkPut where
  "skClerkPut call query fuel key value ck = skClerkPutAppend call query fuel key value ''Put'' ck"

definition skClerkAppend where
  "skClerkAppend call query fuel key value ck = skClerkPutAppend call query fuel key value ''Append'' ck"

section \<open>The server\<close>

datatype sk_op = SkOp                           \<comment> \<open>\<^verbatim>\<open>Op\<close> has no field\<close>

record ShardKV =
  skv_me :: int
  skv_rf :: "(sk_op, unit) Raft"
  skv_gid :: int
  skv_ctrlers :: nat
  skv_maxraftstate :: int

text \<open>The handlers leave the reply as the caller's zero value.\<close>

definition skGet :: "SkGetArgs \<Rightarrow> ShardKV \<Rightarrow> ShardKV \<times> SkGetReply" where
  "skGet args kv = (kv, \<lparr>sgrErr = '''', sgrValue = ''''\<rparr>)"

definition skPutAppend :: "SkPutAppendArgs \<Rightarrow> ShardKV \<Rightarrow> ShardKV \<times> SkPutAppendReply" where
  "skPutAppend args kv = (kv, \<lparr>sprErr = ''''\<rparr>)"

definition skKill :: "ShardKV \<Rightarrow> ShardKV" where
  "skKill kv = kv\<lparr>skv_rf := Kill (skv_rf kv)\<rparr>"

definition skStartServer ::
    "nat \<Rightarrow> int \<Rightarrow> (sk_op raft_item, unit) Persister \<Rightarrow> int \<Rightarrow> int \<Rightarrow> nat \<Rightarrow> nat \<Rightarrow> ShardKV res" where
  "skStartServer servers m persister maxraftstate gid ctrlers r =
     rbind (Make servers m persister r) (\<lambda>rf.
       Inr \<lparr>skv_me = m, skv_rf = rf, skv_gid = gid, skv_ctrlers = ctrlers, skv_maxraftstate = maxraftstate\<rparr>)"

section \<open>Properties\<close>

lemma key2shard_range: "0 \<le> key2shard key" "key2shard key < int NShards"
  by (auto simp: key2shard_def NShards_def Let_def)

lemma shard_lookup: "length shards = NShards \<Longrightarrow> at shards (key2shard key) = Inr (shards ! nat (key2shard key))"
  by (simp add: at_def key2shard_range)



lemma skGetServers_stub:
  assumes "\<And>s r. call s = Some r \<Longrightarrow> sgrErr r = ''''"
  shows "skGetServers call srvs = None"
  using assms by (induction srvs) (auto simp: skOK_def skErrNoKey_def skErrWrongGroup_def split: option.split)

lemma skGetLoop_stub:
  assumes "\<And>k s r. call k s = Some r \<Longrightarrow> sgrErr r = ''''" "\<And>k. length (cfShards (query k)) = NShards"
    and "length (cfShards (sk_config ck)) = NShards"
  shows "skGetLoop call query key fuel k ck = Inr None"
  using assms(3)
proof (induction fuel arbitrary: k ck)
  case (Suc fuel)
  have "skGetServers (call k) srvs = None" for srvs using assms(1) by (intro skGetServers_stub) blast
  then show ?case using Suc.IH [of "ck\<lparr>sk_config := query k\<rparr>" "k + 1"] Suc.prems assms(2) [of k]
    by (simp add: shard_lookup Let_def split: option.split)
qed simp

text \<open>
  The sharded store answers nothing: its servers' handlers are empty, so every reply they
  send has the error "", which the client takes for a wrong leader; whatever the configurations
  and however many rounds it makes, a \<^verbatim>\<open>Get\<close> never returns.
\<close>

lemma sharded_get_never_returns:
  assumes "\<forall>args k s. call args k s = None \<or> (\<exists>kv. call args k s = Some (snd (skGet args kv)))"
    and "\<forall>k. length (cfShards (query k)) = NShards" "length (cfShards (sk_config ck)) = NShards"
  shows "skClerkGet call query fuel key ck = Inr None"
proof -
  have "sgrErr r = ''''" if r: "call \<lparr>sgKey = key\<rparr> k s = Some r" for k s r
  proof -
    obtain kv where "call \<lparr>sgKey = key\<rparr> k s = Some (snd (skGet \<lparr>sgKey = key\<rparr> kv))"
      using r assms(1) by (metis option.distinct(1))
    with r show ?thesis by (auto simp: skGet_def)
  qed
  then show ?thesis unfolding skClerkGet_def using assms(2,3) by (intro skGetLoop_stub) auto
qed

end
