(* ===== verification/Bitset.thy ===== *)
theory Bitset
  imports Go_Prelude
begin

unbundle bit_operations_syntax

text \<open>
  The bit sets of the linearizability checker, \<^verbatim>\<open>test_files/porcupine/bitset.go\<close>: a slice of
  \<^verbatim>\<open>uint64\<close> words, bit \<open>k\<close> of the set in word \<open>k div 64\<close>. The methods that write through the
  slice return the new slice; a position beyond the last word panics. They implement a finite
  set of numbers (\<open>members\<close>), which is how the checker's proofs see them.
\<close>

section \<open>Operations\<close>

type_synonym bitset = "64 word list"

definition newBitset :: "nat \<Rightarrow> bitset" where
  "newBitset n = (let extra = (if n mod 64 \<noteq> 0 then 1 else 0) in replicate (n div 64 + extra) 0)"

definition bsClone :: "bitset \<Rightarrow> bitset" where
  "bsClone b = map (\<lambda>w. w) b"

definition bitsetIndex :: "nat \<Rightarrow> nat \<times> nat" where
  "bitsetIndex pos = (pos div 64, pos mod 64)"

definition bsSet :: "nat \<Rightarrow> bitset \<Rightarrow> bitset res" where
  "bsSet pos b =
     (let (major, minor) = bitsetIndex pos
      in rbind (at b (int major)) (\<lambda>w. put b (int major) (w OR push_bit minor 1)))"

definition bsClear :: "nat \<Rightarrow> bitset \<Rightarrow> bitset res" where
  "bsClear pos b =
     (let (major, minor) = bitsetIndex pos
      in rbind (at b (int major)) (\<lambda>w. put b (int major) (w AND NOT (push_bit minor 1))))"

definition bsGet :: "nat \<Rightarrow> bitset \<Rightarrow> bool res" where
  "bsGet pos b =
     (let (major, minor) = bitsetIndex pos
      in rbind (at b (int major)) (\<lambda>w. Inr (w AND push_bit minor 1 \<noteq> 0)))"

definition OnesCount64 :: "64 word \<Rightarrow> nat" where
  "OnesCount64 v = length (filter (bit v) [0..<64])"

definition popcnt :: "bitset \<Rightarrow> nat" where
  "popcnt b = foldl (\<lambda>total v. total + OnesCount64 v) 0 b"

definition bsHash :: "bitset \<Rightarrow> 64 word" where
  "bsHash b = foldl (\<lambda>hash v. hash XOR v) (of_nat (popcnt b)) b"

definition bsEquals :: "bitset \<Rightarrow> bitset \<Rightarrow> bool" where
  "bsEquals b b2 =
     (if length b \<noteq> length b2 then False else list_all (\<lambda>i. b ! i = b2 ! i) [0..<length b])"

section \<open>Bit sets as sets\<close>

definition members :: "bitset \<Rightarrow> nat set" where
  "members b = {k. k < 64 * length b \<and> bit (b ! (k div 64)) (k mod 64)}"

lemma major_in_range: "k < 64 * n \<longleftrightarrow> k div 64 < (n :: nat)"
  by (simp add: div_less_iff_less_mult mult.commute)

lemma members_newBitset [simp]: "members (newBitset n) = {}"
  by (auto simp: members_def newBitset_def Let_def major_in_range)

lemma length_newBitset: "n \<le> 64 * length (newBitset n)"
  by (simp add: newBitset_def Let_def) presburger

lemma bsClone_id [simp]: "bsClone b = b"
  by (simp add: bsClone_def)

lemma bit_word_OR: "m < 64 \<Longrightarrow> j < 64 \<Longrightarrow> bit (w OR 2 ^ m :: 64 word) j \<longleftrightarrow> bit w j \<or> j = m"
  by (auto simp: bit_or_iff bit_exp_iff)

lemma bit_word_ANDNOT: "m < 64 \<Longrightarrow> j < 64 \<Longrightarrow> bit (w AND NOT (2 ^ m) :: 64 word) j \<longleftrightarrow> bit w j \<and> j \<noteq> m"
  by (auto simp: bit_and_iff bit_not_iff bit_exp_iff)

lemma same_position: "k div 64 = p div 64 \<Longrightarrow> k mod 64 = p mod 64 \<longleftrightarrow> k = (p :: nat)"
  by (metis div_mult_mod_eq)

lemma bsSet_members:
  assumes "pos < 64 * length b"
  shows "\<exists>b'. bsSet pos b = Inr b' \<and> members b' = insert pos (members b) \<and> length b' = length b"
proof -
  let ?b = "b[pos div 64 := b ! (pos div 64) OR push_bit (pos mod 64) 1]"
  have r: "pos div 64 < length b" using assms by (simp add: major_in_range)
  then have "bsSet pos b = Inr ?b" by (simp add: bsSet_def bitsetIndex_def at_def)
  moreover have "members ?b = insert pos (members b)"
    using r same_position [of _ pos]
    by (auto simp: members_def major_in_range nth_list_update bit_word_OR split: if_splits)
  ultimately show ?thesis by simp
qed

lemma bsClear_members:
  assumes "pos < 64 * length b"
  shows "\<exists>b'. bsClear pos b = Inr b' \<and> members b' = members b - {pos} \<and> length b' = length b"
proof -
  let ?b = "b[pos div 64 := b ! (pos div 64) AND NOT (push_bit (pos mod 64) 1)]"
  have r: "pos div 64 < length b" using assms by (simp add: major_in_range)
  then have "bsClear pos b = Inr ?b" by (simp add: bsClear_def bitsetIndex_def at_def)
  moreover have "members ?b = members b - {pos}"
    using r same_position [of _ pos]
    by (auto simp: members_def major_in_range nth_list_update bit_word_ANDNOT split: if_splits)
  ultimately show ?thesis by simp
qed

lemma bsGet_members:
  assumes "pos < 64 * length b"
  shows "bsGet pos b = Inr (pos \<in> members b)"
proof -
  have "w AND push_bit m 1 \<noteq> 0 \<longleftrightarrow> bit w m" if "m < 64" for w :: "64 word" and m
  proof -
    have "w AND push_bit m 1 \<noteq> 0 \<longleftrightarrow> (\<exists>j. bit (w AND push_bit m 1) j)"
      using bit_eq_iff [of "w AND push_bit m 1" 0] by auto
    also have "\<dots> \<longleftrightarrow> bit w m" using that by (auto simp: bit_and_iff bit_exp_iff)
    finally show ?thesis .
  qed
  with assms show ?thesis by (simp add: bsGet_def bitsetIndex_def at_def members_def major_in_range)
qed

lemma nth_eq_of_members:
  assumes "length b = length b2" "members b = members b2" "i < length b"
  shows "b ! i = b2 ! i"
proof (rule bit_eqI)
  fix j
  assume "possible_bit TYPE(64 word) j"
  then have j: "j < 64" by simp
  with assms(3) have "64 * i + j < 64 * length b" by linarith
  then have "bit (b ! i) j \<longleftrightarrow> 64 * i + j \<in> members b" "bit (b2 ! i) j \<longleftrightarrow> 64 * i + j \<in> members b2"
    using j assms(1) by (simp_all add: members_def)
  with assms(2) show "bit (b ! i) j = bit (b2 ! i) j" by simp
qed

lemma bsEquals_eq: "bsEquals b b2 \<longleftrightarrow> b = b2"
  by (auto simp: bsEquals_def list_all_iff intro: nth_equalityI)

lemma bsEquals_members: "length b = length b2 \<Longrightarrow> bsEquals b b2 \<longleftrightarrow> members b = members b2"
  by (auto simp: bsEquals_eq intro: nth_equalityI nth_eq_of_members)

lemma popcnt_eq: "popcnt b = sum_list (map OnesCount64 b)"
proof -
  have "foldl (\<lambda>total v. total + OnesCount64 v) t b = t + sum_list (map OnesCount64 b)" for t
    by (induction b arbitrary: t) simp_all
  then show ?thesis by (simp add: popcnt_def)
qed

lemma members_snoc: "members (b @ [w]) = members b \<union> (\<lambda>j. 64 * length b + j) ` {j. j < 64 \<and> bit w j}"
proof (intro set_eqI iffI)
  fix k
  assume "k \<in> members (b @ [w])"
  then have k: "k < 64 * (length b + 1)" "bit ((b @ [w]) ! (k div 64)) (k mod 64)" by (auto simp: members_def)
  show "k \<in> members b \<union> (\<lambda>j. 64 * length b + j) ` {j. j < 64 \<and> bit w j}"
  proof (cases "k div 64 < length b")
    case True
    then show ?thesis using k by (simp add: members_def nth_append major_in_range)
  next
    case False
    with k(1) have "k div 64 = length b" by (simp add: major_in_range)
    moreover from this have "k = 64 * length b + k mod 64" by (metis mult_div_mod_eq)
    ultimately show ?thesis using k(2) by (auto simp: nth_append intro!: image_eqI [of _ _ "k mod 64"])
  qed
qed (auto simp: members_def nth_append major_in_range)

lemma popcnt_members: "popcnt b = card (members b)"
proof (induction b rule: rev_induct)
  case Nil
  then show ?case by (simp add: popcnt_def members_def)
next
  case (snoc w b)
  have "finite (members b)" by (rule finite_subset [of _ "{..<64 * length b}"]) (auto simp: members_def)
  moreover have "members b \<inter> (\<lambda>j. 64 * length b + j) ` {j. j < 64 \<and> bit w j} = {}" by (auto simp: members_def)
  ultimately have "card (members (b @ [w])) = card (members b) + card {j. j < 64 \<and> bit w j}"
    by (simp add: members_snoc card_Un_disjoint card_image inj_on_def)
  moreover have "OnesCount64 w = card {j. j < 64 \<and> bit w j}"
  proof -
    have "OnesCount64 w = card (set (filter (bit w) [0..<64]))"
      unfolding OnesCount64_def by (rule distinct_card [symmetric]) simp
    also have "set (filter (bit w) [0..<64]) = {j. j < 64 \<and> bit w j}" by auto
    finally show ?thesis .
  qed
  ultimately show ?case using snoc by (simp add: popcnt_eq)
qed

section \<open>The contract\<close>

text \<open>
  C13. A bit set is a set of numbers: inside its words, setting a bit inserts a number, clearing
  removes it and reading tests for it, keeping the number of words; two bit sets of the same
  length are equal exactly if they hold the same numbers, which the number of set bits counts.
  Outside its words every access panics, and a new bit set for \<open>n\<close> numbers is empty and large
  enough for them.
\<close>

theorem bitset_is_set:
  assumes "length b2 = length b"
  shows "(if pos < 64 * length b
      then \<exists>b1 b0. bsSet pos b = Inr b1 \<and> members b1 = insert pos (members b) \<and> length b1 = length b \<and>
        bsClear pos b = Inr b0 \<and> members b0 = members b - {pos} \<and> length b0 = length b \<and>
        bsGet pos b = Inr (pos \<in> members b)
      else bsSet pos b = Inl IndexOutOfRange \<and> bsClear pos b = Inl IndexOutOfRange \<and> bsGet pos b = Inl IndexOutOfRange) \<and>
    (bsEquals b b2 \<longleftrightarrow> members b = members b2) \<and> popcnt b = card (members b) \<and>
    members (newBitset n) = {} \<and> n \<le> 64 * length (newBitset n)"
proof -
  have "bsSet pos b = Inl IndexOutOfRange \<and> bsClear pos b = Inl IndexOutOfRange \<and> bsGet pos b = Inl IndexOutOfRange"
    if "\<not> pos < 64 * length b"
    using that by (simp add: major_in_range bsSet_def bsClear_def bsGet_def bitsetIndex_def at_def)
  moreover have "\<exists>b1 b0. bsSet pos b = Inr b1 \<and> members b1 = insert pos (members b) \<and> length b1 = length b \<and>
      bsClear pos b = Inr b0 \<and> members b0 = members b - {pos} \<and> length b0 = length b \<and> bsGet pos b = Inr (pos \<in> members b)"
    if "pos < 64 * length b"
    using bsSet_members [OF that] bsClear_members [OF that] bsGet_members [OF that] by blast
  ultimately show ?thesis
    using bsEquals_members [of b b2] popcnt_members length_newBitset assms by simp
qed

lemma bitset_is_set_witness:
  "\<exists>b1. bsSet 70 (newBitset 100) = Inr b1 \<and> members b1 = {70} \<and> bsGet 70 (newBitset 100) = Inr False"
  using bitset_is_set [of "newBitset 100" "newBitset 100" 70 100] by (auto simp: newBitset_def Let_def)

end
