(* ===== verification/Porcupine.thy ===== *)
theory Porcupine
  imports Bitset
begin

text \<open>
  The linearizability checker the tests of the database use, \<^verbatim>\<open>test_files/porcupine\<close>: the
  types of \<^verbatim>\<open>model.go\<close>, the search of \<^verbatim>\<open>checker.go\<close> and the entry points of \<^verbatim>\<open>porcupine.go\<close>.

  The search works on a doubly linked list of heap nodes that it takes apart and puts together
  again. The heap is a list of nodes, an address is an index of it, a nil pointer is \<open>None\<close>. An
  \<^verbatim>\<open>interface{}\<close> value is an option, \<open>None\<close> the nil interface. \<^verbatim>\<open>sort.Sort\<close> leaves the order of
  equal elements open, so the sorting function is an argument of the definitions that sort.
  Loops take fuel; \<open>Inr None\<close> means that the fuel ran out.
\<close>

section \<open>Histories and models (model.go)\<close>

type_synonym 'v iface = "'v option"

record 'v Operation =
  opClientId :: int
  opInput :: "'v iface"
  opCall :: int
  opOutput :: "'v iface"
  opReturn :: int

datatype EventKind = CallEvent | ReturnEvent

record 'v Event =
  evClientId :: int
  evKind :: EventKind
  evValue :: "'v iface"
  evId :: int

text \<open>The two functions of a model that describe operations and states for the visualization are
  added in \<open>Visualization\<close>. A function field that may be nil is an option.\<close>

record ('v, 's) Model =
  mPartition :: "('v Operation list \<Rightarrow> 'v Operation list list res) option"
  mPartitionEvent :: "('v Event list \<Rightarrow> 'v Event list list res) option"
  mInit :: 's
  mStep :: "'s \<Rightarrow> 'v iface \<Rightarrow> 'v iface \<Rightarrow> (bool \<times> 's) res"
  mEqual :: "('s \<Rightarrow> 's \<Rightarrow> bool) option"

definition NoPartition :: "'v Operation list \<Rightarrow> 'v Operation list list res" where
  "NoPartition history = Inr [history]"

definition NoPartitionEvent :: "'v Event list \<Rightarrow> 'v Event list list res" where
  "NoPartitionEvent history = Inr [history]"

definition ShallowEqual :: "'s \<Rightarrow> 's \<Rightarrow> bool" where
  "ShallowEqual state1 state2 \<longleftrightarrow> state1 = state2"

datatype CheckResult = Unknown | Ok | Illegal

definition fillDefault :: "('v, 's, 'z) Model_scheme \<Rightarrow> ('v, 's, 'z) Model_scheme" where
  "fillDefault model =
     (let m1 = (if mPartition model = None then model\<lparr>mPartition := Some NoPartition\<rparr> else model);
          m2 = (if mPartitionEvent m1 = None then m1\<lparr>mPartitionEvent := Some NoPartitionEvent\<rparr> else m1)
      in if mEqual m2 = None then m2\<lparr>mEqual := Some ShallowEqual\<rparr> else m2)"

section \<open>Entries\<close>

datatype entryKind = callEntry | returnEntry

record 'v entry =
  enKind :: entryKind
  enValue :: "'v iface"
  enId :: int
  enTime :: int
  enClientId :: int

text \<open>\<^verbatim>\<open>byTime.Less\<close>: at the same time calls go before returns.\<close>

definition byTimeLess :: "'v entry \<Rightarrow> 'v entry \<Rightarrow> bool" where
  "byTimeLess a b =
     (if enTime a \<noteq> enTime b then enTime a < enTime b
      else enKind a = callEntry \<and> enKind b = returnEntry)"

fun entriesFrom :: "int \<Rightarrow> 'v Operation list \<Rightarrow> 'v entry list" where
  "entriesFrom i [] = []"
| "entriesFrom i (elem # history) =
     \<lparr>enKind = callEntry, enValue = opInput elem, enId = i, enTime = opCall elem, enClientId = opClientId elem\<rparr> #
     \<lparr>enKind = returnEntry, enValue = opOutput elem, enId = i, enTime = opReturn elem, enClientId = opClientId elem\<rparr> #
     entriesFrom (i + 1) history"

type_synonym 'v sorter = "('v entry \<Rightarrow> 'v entry \<Rightarrow> bool) \<Rightarrow> 'v entry list \<Rightarrow> 'v entry list"

definition makeEntries :: "'v sorter \<Rightarrow> 'v Operation list \<Rightarrow> 'v entry list" where
  "makeEntries sortBy history = sortBy byTimeLess (entriesFrom 0 history)"

fun renumberFrom :: "(int \<rightharpoonup> int) \<Rightarrow> int \<Rightarrow> 'v Event list \<Rightarrow> 'v Event list" where
  "renumberFrom m i [] = []"
| "renumberFrom m i (v # events) =
     (case m (evId v) of
        Some r \<Rightarrow> v\<lparr>evId := r\<rparr> # renumberFrom m i events
      | None \<Rightarrow> v\<lparr>evId := i\<rparr> # renumberFrom (m(evId v \<mapsto> i)) (i + 1) events)"

definition renumber :: "'v Event list \<Rightarrow> 'v Event list" where
  "renumber events = renumberFrom Map.empty 0 events"

definition convertEntries :: "'v Event list \<Rightarrow> 'v entry list" where
  "convertEntries events =
     map (\<lambda>(i, elem).
        \<lparr>enKind = (if evKind elem = ReturnEvent then returnEntry else callEntry), enValue = evValue elem,
         enId = evId elem, enTime = int i, enClientId = evClientId elem\<rparr>) (enumerate 0 events)"

section \<open>The linked list\<close>

record 'v node =
  nd_value :: "'v iface"
  nd_match :: "nat option"
  nd_id :: int
  nd_next :: "nat option"
  nd_prev :: "nat option"

type_synonym 'v heap = "'v node list"

definition loadNode :: "'v heap \<Rightarrow> nat option \<Rightarrow> 'v node res" where
  "loadNode h p = (case p of None \<Rightarrow> Inl NilDereference | Some a \<Rightarrow> at h (int a))"

definition storeNode :: "'v heap \<Rightarrow> nat option \<Rightarrow> ('v node \<Rightarrow> 'v node) \<Rightarrow> 'v heap res" where
  "storeNode h p f =
     (case p of None \<Rightarrow> Inl NilDereference
      | Some a \<Rightarrow> rbind (at h (int a)) (\<lambda>nd. put h (int a) (f nd)))"

definition setNext :: "nat option \<Rightarrow> nat option \<Rightarrow> 'v heap \<Rightarrow> 'v heap res" where
  "setNext p q h = storeNode h p (\<lambda>nd. nd\<lparr>nd_next := q\<rparr>)"

definition setPrev :: "nat option \<Rightarrow> nat option \<Rightarrow> 'v heap \<Rightarrow> 'v heap res" where
  "setPrev p q h = storeNode h p (\<lambda>nd. nd\<lparr>nd_prev := q\<rparr>)"

text \<open>A new node, with the pointers its literal leaves out nil, and its address.\<close>

definition newNode :: "'v iface \<Rightarrow> nat option \<Rightarrow> int \<Rightarrow> 'v heap \<Rightarrow> 'v heap \<times> nat option" where
  "newNode value match i h =
     (h @ [\<lparr>nd_value = value, nd_match = match, nd_id = i, nd_next = None, nd_prev = None\<rparr>], Some (length h))"

definition insertBefore :: "nat option \<Rightarrow> nat option \<Rightarrow> 'v heap \<Rightarrow> 'v heap res" where
  "insertBefore n mark h =
     (if mark \<noteq> None then
        rbind (loadNode h mark) (\<lambda>mk.
          let beforeMark = nd_prev mk
          in rbind (setPrev mark n h) (\<lambda>h1.
             rbind (setNext n mark h1) (\<lambda>h2.
               if beforeMark \<noteq> None then rbind (setPrev n beforeMark h2) (setNext beforeMark n)
               else Inr h2)))
      else Inr h)"

fun nodeLength :: "'v heap \<Rightarrow> nat \<Rightarrow> nat option \<Rightarrow> nat option res" where
  "nodeLength h fuel None = Inr (Some 0)"
| "nodeLength h 0 (Some a) = Inr None"
| "nodeLength h (Suc fuel) (Some a) =
     rbind (loadNode h (Some a)) (\<lambda>nd. rbind (nodeLength h fuel (nd_next nd)) (\<lambda>l. Inr (map_option Suc l)))"

text \<open>The loop of \<^verbatim>\<open>makeLinkedEntries\<close>, from the last entry to the first.\<close>

fun linkEntries ::
    "'v entry list \<Rightarrow> 'v heap \<times> nat option \<times> (int \<rightharpoonup> nat) \<Rightarrow> ('v heap \<times> nat option \<times> (int \<rightharpoonup> nat)) res" where
  "linkEntries [] s = Inr s"
| "linkEntries (elem # rest) (h, root, match) =
     (if enKind elem = returnEntry then
        let (h1, entry) = newNode (enValue elem) None (enId elem) h
        in rbind (insertBefore entry root h1) (\<lambda>h2.
             linkEntries rest (h2, entry, match(enId elem := entry)))
      else
        let (h1, entry) = newNode (enValue elem) (match (enId elem)) (enId elem) h
        in rbind (insertBefore entry root h1) (\<lambda>h2. linkEntries rest (h2, entry, match)))"

definition makeLinkedEntries :: "'v entry list \<Rightarrow> ('v heap \<times> nat option) res" where
  "makeLinkedEntries entries =
     rbind (linkEntries (rev entries) ([], None, Map.empty)) (\<lambda>(h, root, match). Inr (h, root))"

text \<open>Every statement reads the pointers it needs from the heap as it is then.\<close>

definition lift :: "nat option \<Rightarrow> 'v heap \<Rightarrow> 'v heap res" where
  "lift entry h =
     rbind (loadNode h entry) (\<lambda>e.
     rbind (setNext (nd_prev e) (nd_next e) h) (\<lambda>h1.
     rbind (loadNode h1 entry) (\<lambda>e1.
     rbind (setPrev (nd_next e1) (nd_prev e1) h1) (\<lambda>h2.
     rbind (loadNode h2 entry) (\<lambda>e2. let match = nd_match e2 in
     rbind (loadNode h2 match) (\<lambda>mt.
     rbind (setNext (nd_prev mt) (nd_next mt) h2) (\<lambda>h3.
     rbind (loadNode h3 match) (\<lambda>mt1.
       if nd_next mt1 \<noteq> None then setPrev (nd_next mt1) (nd_prev mt1) h3 else Inr h3))))))))"

definition unlift :: "nat option \<Rightarrow> 'v heap \<Rightarrow> 'v heap res" where
  "unlift entry h =
     rbind (loadNode h entry) (\<lambda>e. let match = nd_match e in
     rbind (loadNode h match) (\<lambda>mt.
     rbind (setNext (nd_prev mt) match h) (\<lambda>h1.
     rbind (loadNode h1 match) (\<lambda>mt1.
     rbind (if nd_next mt1 \<noteq> None then setPrev (nd_next mt1) match h1 else Inr h1) (\<lambda>h2.
     rbind (loadNode h2 entry) (\<lambda>e2.
     rbind (setNext (nd_prev e2) entry h2) (\<lambda>h3.
     rbind (loadNode h3 entry) (\<lambda>e3.
       setPrev (nd_next e3) entry h3))))))))"

section \<open>The search\<close>

record 's cacheEntry =
  ceLinearized :: bitset
  ceState :: 's

definition cacheContains ::
    "('v, 's) Model \<Rightarrow> (64 word \<Rightarrow> 's cacheEntry list) \<Rightarrow> 's cacheEntry \<Rightarrow> bool" where
  "cacheContains model cache entry =
     list_ex (\<lambda>elem. bsEquals (ceLinearized entry) (ceLinearized elem) \<and>
                 the (mEqual model) (ceState entry) (ceState elem))
       (cache (bsHash (ceLinearized entry)))"

text \<open>
  The variables of \<^verbatim>\<open>checkSingle\<close>. An element of \<^verbatim>\<open>longest\<close> is a pointer to a sequence of
  identifiers; the number beside the sequence stands for the pointer.
\<close>

type_synonym linearized_prefix = "(nat \<times> int list) option"

record ('v, 's) search =
  s_heap :: "'v heap"
  s_entry :: "nat option"
  s_state :: 's
  s_linearized :: bitset
  s_cache :: "64 word \<Rightarrow> 's cacheEntry list"
  s_calls :: "(nat option \<times> 's) list"
  s_longest :: "linearized_prefix list"

text \<open>The identifiers of the nodes on the stack, in order.\<close>

definition callIds :: "('v, 's) search \<Rightarrow> int list res" where
  "callIds s = mapR (\<lambda>(e, st). rbind (loadNode (s_heap s) e) (\<lambda>nd. Inr (nd_id nd))) (s_calls s)"

definition recordLongest :: "nat \<Rightarrow> int list \<Rightarrow> linearized_prefix list \<Rightarrow> linearized_prefix list res" where
  "recordLongest ptr ids longest =
     foldl (\<lambda>r i. rbind r (\<lambda>ls. rbind (at ls i) (\<lambda>old.
        if (case old of None \<Rightarrow> True | Some (p, sq) \<Rightarrow> length sq < length ids)
        then put ls i (Some (ptr, ids)) else Inr ls)))
       (Inr longest) ids"

text \<open>A call entry: linearize it here, or go on to the next entry.\<close>

definition tryEntry ::
    "('v, 's) Model \<Rightarrow> nat option \<Rightarrow> 'v node \<Rightarrow> ('v, 's) search \<Rightarrow> ('v, 's) search res" where
  "tryEntry model headEntry e s =
     rbind (loadNode (s_heap s) (nd_match e)) (\<lambda>matching.
     rbind (mStep model (s_state s) (nd_value e) (nd_value matching)) (\<lambda>(ok, newState).
       if ok then
         rbind (bsSet (nat (nd_id e)) (bsClone (s_linearized s))) (\<lambda>newLinearized.
           let newCacheEntry = \<lparr>ceLinearized = newLinearized, ceState = newState\<rparr>
           in if \<not> cacheContains model (s_cache s) newCacheEntry then
                let hash = bsHash newLinearized
                in rbind (bsSet (nat (nd_id e)) (s_linearized s)) (\<lambda>lin.
                   rbind (lift (s_entry s) (s_heap s)) (\<lambda>h.
                   rbind (loadNode h headEntry) (\<lambda>hd.
                     Inr (s\<lparr>s_cache := (s_cache s)(hash := s_cache s hash @ [newCacheEntry]),
                            s_calls := s_calls s @ [(s_entry s, s_state s)],
                            s_state := newState, s_linearized := lin, s_heap := h,
                            s_entry := nd_next hd\<rparr>))))
              else Inr (s\<lparr>s_entry := nd_next e\<rparr>))
       else Inr (s\<lparr>s_entry := nd_next e\<rparr>)))"

text \<open>A return entry with calls on the stack: take the last one back.\<close>

definition backtrack ::
    "bool \<Rightarrow> nat \<Rightarrow> ('v, 's) search \<Rightarrow> ('v, 's) search res" where
  "backtrack computePartial k s =
     rbind (if computePartial then rbind (callIds s) (\<lambda>ids. recordLongest k ids (s_longest s))
            else Inr (s_longest s)) (\<lambda>longest.
     rbind (at (s_calls s) (int (length (s_calls s)) - 1)) (\<lambda>(entry, state).
     rbind (loadNode (s_heap s) entry) (\<lambda>e.
     rbind (bsClear (nat (nd_id e)) (s_linearized s)) (\<lambda>lin.
     rbind (unlift entry (s_heap s)) (\<lambda>h.
     rbind (loadNode h entry) (\<lambda>e'.
       Inr (s\<lparr>s_longest := longest, s_state := state, s_linearized := lin,
              s_calls := butlast (s_calls s), s_heap := h, s_entry := nd_next e'\<rparr>)))))))"

text \<open>The loop; \<open>kill k\<close> is what round \<open>k\<close> reads from the flag.\<close>

fun checkLoop ::
    "('v, 's) Model \<Rightarrow> bool \<Rightarrow> (nat \<Rightarrow> bool) \<Rightarrow> nat option \<Rightarrow> nat \<Rightarrow> nat \<Rightarrow> ('v, 's) search \<Rightarrow>
     (bool \<times> linearized_prefix list) option res" where
  "checkLoop model computePartial kill headEntry 0 k s = Inr None"
| "checkLoop model computePartial kill headEntry (Suc fuel) k s =
     rbind (loadNode (s_heap s) headEntry) (\<lambda>hd.
       if nd_next hd = None then
         rbind (callIds s) (\<lambda>sq. Inr (Some (True, replicate (length (s_longest s)) (Some (k, sq)))))
       else if kill k then Inr (Some (False, s_longest s))
       else rbind (loadNode (s_heap s) (s_entry s)) (\<lambda>e.
         if nd_match e \<noteq> None then
           rbind (tryEntry model headEntry e s)
             (checkLoop model computePartial kill headEntry fuel (k + 1))
         else if length (s_calls s) = 0 then Inr (Some (False, s_longest s))
         else rbind (backtrack computePartial k s)
             (checkLoop model computePartial kill headEntry fuel (k + 1))))"

definition checkSingle ::
    "nat \<Rightarrow> ('v, 's) Model \<Rightarrow> 'v entry list \<Rightarrow> bool \<Rightarrow> (nat \<Rightarrow> bool) \<Rightarrow>
     (bool \<times> linearized_prefix list) option res" where
  "checkSingle fuel model history computePartial kill =
     rbind (makeLinkedEntries history) (\<lambda>(h, entry).
     rbind (nodeLength h (length h) entry) (\<lambda>l.
       case l of None \<Rightarrow> Inr None
       | Some len \<Rightarrow>
           let n = len div 2;
               (h1, headNode) = newNode None None (-1) h
           in rbind (insertBefore headNode entry h1) (\<lambda>h2.
                checkLoop model computePartial kill headNode fuel 0
                  \<lparr>s_heap = h2, s_entry = entry, s_state = mInit model, s_linearized = newBitset n,
                   s_cache = (\<lambda>_. []), s_calls = [], s_longest = replicate n None\<rparr>)))"

section \<open>The partitions in parallel\<close>

text \<open>
  What the \<^verbatim>\<open>select\<close> of \<^verbatim>\<open>checkParallel\<close> receives: the result of the goroutine of a partition, or
  the timeout. The flag that stops the goroutines is set only when the loop is left, so the
  results it receives are those of undisturbed runs; \<open>stopped i\<close>, the rounds in which the run on
  partition \<open>i\<close> reads the flag as set, matters for the partial linearizations only.
\<close>

datatype par_event = Result nat | TimeoutFires

fun selectLoop :: "bool list \<Rightarrow> bool \<Rightarrow> bool \<Rightarrow> nat \<Rightarrow> par_event list \<Rightarrow> (bool \<times> bool) option" where
  "selectLoop results computeInfo ok cnt [] = None"
| "selectLoop results computeInfo ok cnt (TimeoutFires # evs) = Some (ok, True)"
| "selectLoop results computeInfo ok cnt (Result i # evs) =
     (let ok' = (ok \<and> results ! i)
      in if \<not> ok' \<and> \<not> computeInfo then Some (ok', False)
         else if cnt + 1 \<ge> length results then Some (ok', False)
         else selectLoop results computeInfo ok' (cnt + 1) evs)"

record 'v linearizationInfo =
  liHistory :: "'v entry list list"
  liPartial :: "int list list list"

text \<open>The different sequences among the elements of \<^verbatim>\<open>longest\<close>, one for each pointer. Go's
  iteration over the set of pointers may list them in any order.\<close>

definition uniqueLongest :: "linearized_prefix list \<Rightarrow> int list list" where
  "uniqueLongest longest = map snd (remdups (List.map_filter (\<lambda>p. p) longest))"

definition checkParallel ::
    "nat \<Rightarrow> ('v, 's) Model \<Rightarrow> 'v entry list list \<Rightarrow> bool \<Rightarrow> par_event list \<Rightarrow> (nat \<Rightarrow> nat \<Rightarrow> bool) \<Rightarrow>
     (CheckResult \<times> 'v linearizationInfo) option res" where
  "checkParallel fuel model history computeInfo evs stopped =
     rbind (mapR (\<lambda>sub. checkSingle fuel model sub computeInfo (\<lambda>_. False)) history) (\<lambda>runs.
     rbind (mapR (\<lambda>(i, sub). checkSingle fuel model sub computeInfo (stopped i)) (enumerate 0 history)) (\<lambda>stops.
       if None \<in> set runs \<or> None \<in> set stops then Inr None
       else
         case selectLoop (map (\<lambda>r. fst (the r)) runs) computeInfo True 0 evs of
           None \<Rightarrow> Inr None
         | Some (ok, timedOut) \<Rightarrow>
             let info = (if computeInfo
                         then \<lparr>liHistory = history, liPartial = map (\<lambda>r. uniqueLongest (snd (the r))) stops\<rparr>
                         else \<lparr>liHistory = [], liPartial = []\<rparr>);
                 result = (if \<not> ok then Illegal else if timedOut then Unknown else Ok)
             in Inr (Some (result, info))))"

definition checkEvents where
  "checkEvents fuel model0 history verbose evs stopped =
     (let model = fillDefault model0
      in rbind (the (mPartitionEvent model) history) (\<lambda>partitions.
           checkParallel fuel model (map (\<lambda>sub. convertEntries (renumber sub)) partitions) verbose evs stopped))"

definition checkOperations where
  "checkOperations sortBy fuel model0 history verbose evs stopped =
     (let model = fillDefault model0
      in rbind (the (mPartition model) history) (\<lambda>partitions.
           checkParallel fuel model (map (makeEntries sortBy) partitions) verbose evs stopped))"

section \<open>Entry points (porcupine.go)\<close>

definition CheckOperations where
  "CheckOperations sortBy fuel model history evs stopped =
     rbind (checkOperations sortBy fuel model history False evs stopped) (\<lambda>r. Inr (map_option (\<lambda>(res, _). res = Ok) r))"

definition CheckOperationsTimeout where
  "CheckOperationsTimeout sortBy fuel model history evs stopped =
     rbind (checkOperations sortBy fuel model history False evs stopped) (\<lambda>r. Inr (map_option fst r))"

definition CheckOperationsVerbose where
  "CheckOperationsVerbose sortBy fuel model history evs stopped = checkOperations sortBy fuel model history True evs stopped"

definition CheckEvents where
  "CheckEvents fuel model history evs stopped =
     rbind (checkEvents fuel model history False evs stopped) (\<lambda>r. Inr (map_option (\<lambda>(res, _). res = Ok) r))"

definition CheckEventsTimeout where
  "CheckEventsTimeout fuel model history evs stopped =
     rbind (checkEvents fuel model history False evs stopped) (\<lambda>r. Inr (map_option fst r))"

definition CheckEventsVerbose where
  "CheckEventsVerbose fuel model history evs stopped = checkEvents fuel model history True evs stopped"

end
