(* ===== verification/Porcupine_List.thy ===== *)
theory Porcupine_List
  imports Porcupine
begin

text \<open>
  The doubly linked list of the search. \<open>dll h L\<close> says that the addresses \<open>L\<close> are linked in this
  order in the heap \<open>h\<close>. Taking an entry and its match out of the list (\<^verbatim>\<open>lift\<close>) leaves the rest
  linked, and \<^verbatim>\<open>unlift\<close> then gives back exactly the heap there was before: the search may
  backtrack through any number of lifts.
\<close>

section \<open>Linked addresses\<close>

fun chain :: "'v heap \<Rightarrow> nat list \<Rightarrow> bool" where
  "chain h (a # b # xs) \<longleftrightarrow> nd_next (h ! a) = Some b \<and> nd_prev (h ! b) = Some a \<and> chain h (b # xs)"
| "chain h xs \<longleftrightarrow> True"

definition dll :: "'v heap \<Rightarrow> nat list \<Rightarrow> bool" where
  "dll h L \<longleftrightarrow> distinct L \<and> set L \<subseteq> {..<length h} \<and> chain h L \<and> (L \<noteq> [] \<longrightarrow> nd_next (h ! last L) = None)"

lemma chain_append:
  "chain h (xs @ ys) \<longleftrightarrow> chain h xs \<and> chain h ys \<and>
     (xs \<noteq> [] \<and> ys \<noteq> [] \<longrightarrow> nd_next (h ! last xs) = Some (hd ys) \<and> nd_prev (h ! hd ys) = Some (last xs))"
proof (induction xs rule: induct_list012)
  case (2 x)
  then show ?case by (cases ys) auto
qed auto

lemma chain_cong:
  assumes "\<And>a. a \<in> set (butlast L) \<Longrightarrow> nd_next (h ! a) = nd_next (h' ! a)"
    and "\<And>a. a \<in> set (tl L) \<Longrightarrow> nd_prev (h ! a) = nd_prev (h' ! a)"
  shows "chain h L = chain h' L"
  using assms by (induction L rule: induct_list012) auto

text \<open>The writes the code makes, on addresses of the heap.\<close>

definition upN :: "nat \<Rightarrow> nat option \<Rightarrow> 'v heap \<Rightarrow> 'v heap" where
  "upN a q h = h[a := (h ! a)\<lparr>nd_next := q\<rparr>]"

definition upP :: "nat \<Rightarrow> nat option \<Rightarrow> 'v heap \<Rightarrow> 'v heap" where
  "upP a q h = h[a := (h ! a)\<lparr>nd_prev := q\<rparr>]"

lemma heap_ops [simp]:
  "a < length h \<Longrightarrow> loadNode h (Some a) = Inr (h ! a)"
  "a < length h \<Longrightarrow> setNext (Some a) q h = Inr (upN a q h)"
  "a < length h \<Longrightarrow> setPrev (Some a) q h = Inr (upP a q h)"
  by (simp_all add: loadNode_def setNext_def setPrev_def storeNode_def at_def upN_def upP_def)

lemma up_length [simp]: "length (upN a q h) = length h" "length (upP a q h) = length h"
  by (simp_all add: upN_def upP_def)

lemma up_fields [simp]:
  "nd_next (upN a q h ! c) = (if c = a \<and> a < length h then q else nd_next (h ! c))"
  "nd_next (upP a q h ! c) = nd_next (h ! c)"
  "nd_prev (upP a q h ! c) = (if c = a \<and> a < length h then q else nd_prev (h ! c))"
  "nd_prev (upN a q h ! c) = nd_prev (h ! c)"
  "nd_match (upN a q h ! c) = nd_match (h ! c)" "nd_match (upP a q h ! c) = nd_match (h ! c)"
  "nd_id (upN a q h ! c) = nd_id (h ! c)" "nd_id (upP a q h ! c) = nd_id (h ! c)"
  "nd_value (upN a q h ! c) = nd_value (h ! c)" "nd_value (upP a q h ! c) = nd_value (h ! c)"
  by (cases "a < length h"; cases "c = a"; simp add: upN_def upP_def list_update_beyond)+

lemma upN_same: "nd_next (h ! a) = q \<Longrightarrow> upN a q h = h"
  by (cases "a < length h") (auto simp: upN_def list_update_beyond intro!: nth_equalityI simp: nth_list_update)

lemma upP_same: "nd_prev (h ! a) = q \<Longrightarrow> upP a q h = h"
  by (cases "a < length h") (auto simp: upP_def list_update_beyond intro!: nth_equalityI simp: nth_list_update)

lemma up_twice [simp]: "upN a q (upN a r h) = upN a q h" "upP a q (upP a r h) = upP a q h"
  by (cases "a < length h"; simp add: upN_def upP_def list_update_beyond)+

lemma up_swap: "upN a q (upP b r h) = upP b r (upN a q h)"
proof (cases "a = b")
  case True
  then show ?thesis by (cases "a < length h"; cases "h ! a") (simp_all add: upN_def upP_def list_update_beyond)
next
  case False
  then show ?thesis by (simp add: upN_def upP_def list_update_swap)
qed

section \<open>Taking one node out\<close>

text \<open>The two writes that take a node with the pointers \<open>pr\<close> and \<open>nx\<close> out, and put it back.\<close>

definition cut :: "nat \<Rightarrow> nat option \<Rightarrow> 'v heap \<Rightarrow> 'v heap" where
  "cut a nx h = (case nx of None \<Rightarrow> upN a None h | Some b \<Rightarrow> upP b (Some a) (upN a (Some b) h))"

definition uncut :: "nat \<Rightarrow> nat \<Rightarrow> nat option \<Rightarrow> 'v heap \<Rightarrow> 'v heap" where
  "uncut p a nx h = (case nx of None \<Rightarrow> upN a (Some p) h | Some b \<Rightarrow> upP b (Some p) (upN a (Some p) h))"

lemma cut_static [simp]:
  "length (cut a nx h) = length h" "nd_match (cut a nx h ! c) = nd_match (h ! c)"
  "nd_id (cut a nx h ! c) = nd_id (h ! c)" "nd_value (cut a nx h ! c) = nd_value (h ! c)"
  by (simp_all add: cut_def split: option.split)

lemma dll_cut:
  assumes "dll h (A @ a # p # B)"
  shows "nd_prev (h ! p) = Some a" "nd_next (h ! p) = (case B of [] \<Rightarrow> None | b # _ \<Rightarrow> Some b)"
    "dll (cut a (nd_next (h ! p)) h) (A @ a # B)"
    "uncut p a (nd_next (h ! p)) (cut a (nd_next (h ! p)) h) = h"
proof -
  note d = assms [unfolded dll_def chain_append]
  show pr: "nd_prev (h ! p) = Some a" using d by simp
  show nx: "nd_next (h ! p) = (case B of [] \<Rightarrow> None | b # _ \<Rightarrow> Some b)" using d by (cases B) auto
  let ?h = "cut a (nd_next (h ! p)) h"
  have A: "chain ?h (A @ [a])"
  proof -
    have "chain ?h (A @ [a]) = chain h (A @ [a])"
      using d by (intro chain_cong) (auto simp: cut_def nx butlast_append tl_append split: list.splits option.splits)
    with d show ?thesis by (simp add: chain_append)
  qed
  have B: "chain ?h B"
  proof -
    have "chain ?h B = chain h B"
      using d by (intro chain_cong) (auto simp: cut_def nx split: list.splits option.splits dest: in_set_butlastD list.set_sel(2))
    with d show ?thesis by (cases B) simp_all
  qed
  have "chain ?h ((A @ [a]) @ B)"
    using A B d by (subst chain_append) (auto simp: cut_def nx split: list.splits)
  moreover have "nd_next (?h ! last (A @ a # B)) = None"
    using d by (auto simp: cut_def nx split: list.splits)
  ultimately show "dll ?h (A @ a # B)" using d by (simp add: dll_def)
  show "uncut p a (nd_next (h ! p)) ?h = h"
    using d by (cases B) (simp_all add: cut_def uncut_def nx up_swap upN_same upP_same)
qed


section \<open>Taking an entry and its match out\<close>

lemma dll_lengths: "dll h L \<Longrightarrow> a \<in> set L \<Longrightarrow> a < length h"
  by (auto simp: dll_def)

lemma cut_keeps_node: "p \<noteq> a \<Longrightarrow> nx \<noteq> Some p \<Longrightarrow> cut a nx h ! p = h ! p"
  by (cases nx) (simp_all add: cut_def upN_def upP_def)

lemma cut_writes:
  assumes "a < length h" "p < length h" "a \<noteq> p" "nd_prev (h ! p) = Some a" "\<And>b. nd_next (h ! p) = Some b \<Longrightarrow> b < length h"
  shows "rbind (setNext (nd_prev (h ! p)) (nd_next (h ! p)) h) (\<lambda>h1. rbind (loadNode h1 (Some p)) (\<lambda>e1.
     if nd_next e1 \<noteq> None then setPrev (nd_next e1) (nd_prev e1) h1 else Inr h1)) = Inr (cut a (nd_next (h ! p)) h)"
  using assms by (auto simp: cut_def split: option.split)

lemma uncut_writes:
  assumes "a < length h" "p < length h" "a \<noteq> p" "nd_prev (h ! p) = Some a" "\<And>b. nd_next (h ! p) = Some b \<Longrightarrow> b < length h"
  shows "rbind (setNext (nd_prev (h ! p)) (Some p) h) (\<lambda>h1. rbind (loadNode h1 (Some p)) (\<lambda>e1.
     if nd_next e1 \<noteq> None then setPrev (nd_next e1) (Some p) h1 else Inr h1)) = Inr (uncut p a (nd_next (h ! p)) h)"
  using assms by (auto simp: uncut_def split: option.split)

lemma lift_unlift:
  assumes "dll h (A @ a # e # D @ m # C)" "nd_match (h ! e) = Some m"
  shows "\<exists>h'. lift (Some e) h = Inr h' \<and> dll h' (A @ a # D @ C) \<and> unlift (Some e) h' = Inr h \<and> length h' = length h \<and>
     (\<forall>c. nd_match (h' ! c) = nd_match (h ! c) \<and> nd_id (h' ! c) = nd_id (h ! c) \<and> nd_value (h' ! c) = nd_value (h ! c))"
proof -
  let ?n = "hd (D @ [m])"
  note c1 = dll_cut [OF assms(1)]
  have n: "nd_next (h ! e) = Some ?n" using c1(2) by (cases D) simp_all
  let ?h1 = "cut a (nd_next (h ! e)) h"
  obtain B b where B: "A @ a # D = B @ [b]" by (metis append_butlast_last_id append_is_Nil_conv list.distinct(1))
  then have d1: "dll ?h1 (B @ b # m # C)" using c1(3)
    by (metis append.assoc append_Cons append_Nil)
  note c2 = dll_cut [OF d1]
  let ?h2 = "cut b (nd_next (?h1 ! m)) ?h1"
  have d2: "dll ?h2 (A @ a # D @ C)" using c2(3) B by (metis append.assoc append_Cons append_Nil)
  have len: "a < length h" "e < length h" "m < length h" "?n < length h" "b < length h"
    using assms(1) d1 by (cases D; auto simp: dll_def)+
  have ne: "a \<noteq> e" "b \<noteq> m" "e \<noteq> m" "?n \<noteq> e"
    using assms(1) d1 by (cases D; auto simp: dll_def)+
  have nxl: "c < length h" if "nd_next (?h1 ! m) = Some c" for c
    using that c2(2) d1 by (auto simp: dll_def split: list.splits)
  have nm: "nd_next (?h1 ! m) \<noteq> Some m" using c2(2) d1 by (auto simp: dll_def split: list.splits)
  have em: "?h1 ! e = h ! e" using ne n by (intro cut_keeps_node) auto
  have mm: "?h2 ! m = ?h1 ! m" using ne nm by (intro cut_keeps_node) auto
  have w1: "rbind (setNext (nd_prev (h ! e)) (nd_next (h ! e)) h) (\<lambda>h1. rbind (loadNode h1 (Some e)) (\<lambda>e1.
     if nd_next e1 \<noteq> None then setPrev (nd_next e1) (nd_prev e1) h1 else Inr h1)) = Inr ?h1"
    using len ne n c1(1) by (intro cut_writes) auto
  have w2: "rbind (setNext (nd_prev (?h1 ! m)) (nd_next (?h1 ! m)) ?h1) (\<lambda>h1. rbind (loadNode h1 (Some m)) (\<lambda>e1.
     if nd_next e1 \<noteq> None then setPrev (nd_next e1) (nd_prev e1) h1 else Inr h1)) = Inr ?h2"
    using len ne nxl c2(1) by (intro cut_writes) auto
  have lift: "lift (Some e) h = Inr ?h2"
    using w1 w2 len ne n assms(2) c1(1) by (simp add: lift_def Let_def)
  have u2: "rbind (setNext (nd_prev (?h2 ! m)) (Some m) ?h2) (\<lambda>h1. rbind (loadNode h1 (Some m)) (\<lambda>e1.
     if nd_next e1 \<noteq> None then setPrev (nd_next e1) (Some m) h1 else Inr h1)) = Inr ?h1"
    using len ne nxl c2(1) mm by (subst uncut_writes [where a = b]) (auto simp: c2(4))
  have u1: "rbind (setNext (nd_prev (?h1 ! e)) (Some e) ?h1) (\<lambda>h1. rbind (loadNode h1 (Some e)) (\<lambda>e1.
     if nd_next e1 \<noteq> None then setPrev (nd_next e1) (Some e) h1 else Inr h1)) = Inr h"
    using len ne n c1(1) em by (subst uncut_writes [where a = a]) (auto simp: c1(4) [unfolded n])
  have "unlift (Some e) ?h2 = rbind (rbind (setNext (nd_prev (?h2 ! m)) (Some m) ?h2) (\<lambda>h1. rbind (loadNode h1 (Some m)) (\<lambda>e1.
      if nd_next e1 \<noteq> None then setPrev (nd_next e1) (Some m) h1 else Inr h1))) (\<lambda>h2. rbind (loadNode h2 (Some e)) (\<lambda>e2.
      rbind (setNext (nd_prev e2) (Some e) h2) (\<lambda>h3. rbind (loadNode h3 (Some e)) (\<lambda>e3. setPrev (nd_next e3) (Some e) h3))))"
    using len assms(2) by (simp add: unlift_def Let_def rbind_assoc cong: if_cong)
  also have "\<dots> = Inr h"
    unfolding u2 using u1 len ne n c1(1) em by simp
  finally have "unlift (Some e) ?h2 = Inr h" .
  with lift d2 show ?thesis by simp
qed

end
