(* ===== verification/Porcupine_Heap.thy ===== *)
theory Porcupine_Heap
  imports Porcupine_List
begin

text \<open>
  The heap the search starts from: \<^verbatim>\<open>makeLinkedEntries\<close> allocates one node per entry, from the
  last entry to the first, links them in the order of the entries, and points every call at the
  return with the same identifier. In the statements below \<open>rs\<close> is the history backwards, so
  that the node at address \<open>a\<close> is the one of the entry \<open>rs ! a\<close>.
\<close>

section \<open>Well-formed histories\<close>

definition isCall :: "'v entry list \<Rightarrow> nat \<Rightarrow> bool" where
  "isCall rs a \<longleftrightarrow> enKind (rs ! a) = callEntry"

text \<open>The return among the first entries of \<open>rs\<close> with a given identifier.\<close>

definition retAt :: "'v entry list \<Rightarrow> nat \<Rightarrow> int \<Rightarrow> nat option" where
  "retAt rs k i = find (\<lambda>b. enKind (rs ! b) = returnEntry \<and> enId (rs ! b) = i) [0..<k]"

definition mate :: "'v entry list \<Rightarrow> nat \<Rightarrow> nat option" where
  "mate rs a = retAt rs a (enId (rs ! a))"

text \<open>
  Every identifier is below half the number of entries and has at most one call and one return;
  a call has a return after it (at a smaller address), a return a call before it.
\<close>

definition wf_rev :: "'v entry list \<Rightarrow> bool" where
  "wf_rev rs \<longleftrightarrow>
     (\<forall>a < length rs. \<forall>b < length rs. enKind (rs ! a) = enKind (rs ! b) \<and> enId (rs ! a) = enId (rs ! b) \<longrightarrow> a = b) \<and>
     (\<forall>a < length rs. 0 \<le> enId (rs ! a) \<and> enId (rs ! a) < int (length rs div 2)) \<and>
     (\<forall>a < length rs. isCall rs a \<longrightarrow> (\<exists>b < a. \<not> isCall rs b \<and> enId (rs ! b) = enId (rs ! a))) \<and>
     (\<forall>b < length rs. \<not> isCall rs b \<longrightarrow> (\<exists>a < length rs. b < a \<and> isCall rs a \<and> enId (rs ! a) = enId (rs ! b)))"

lemma not_call_iff: "enKind e \<noteq> callEntry \<longleftrightarrow> enKind e = returnEntry"
  by (cases "enKind e") auto

lemma wf_rev_distinct: "wf_rev rs \<Longrightarrow> distinct (map (\<lambda>e. (enKind e, enId e)) rs)"
  by (auto simp: wf_rev_def distinct_conv_nth)

lemma find_Some_nth: "find P [0..<k] = Some b \<Longrightarrow> b < k \<and> P b"
  by (auto simp: find_Some_iff)

lemma retAt_Some: "retAt rs k i = Some b \<Longrightarrow> b < k \<and> \<not> isCall rs b \<and> enId (rs ! b) = i"
  unfolding retAt_def by (drule find_Some_nth) (auto simp: isCall_def)

lemma retAt_unique:
  assumes "wf_rev rs" "k \<le> length rs" "b < k" "\<not> isCall rs b" "enId (rs ! b) = i"
  shows "retAt rs k i = Some b"
proof -
  have "find (\<lambda>b. enKind (rs ! b) = returnEntry \<and> enId (rs ! b) = i) [0..<k] \<noteq> None"
    using assms by (auto simp: find_None_iff isCall_def not_call_iff)
  then obtain c where c: "retAt rs k i = Some c" by (auto simp: retAt_def)
  note r = retAt_Some [OF c]
  have "enKind (rs ! c) = enKind (rs ! b)" using r assms(4) by (simp add: isCall_def not_call_iff)
  then have "c = b" using assms r unfolding wf_rev_def by (metis order.strict_trans2)
  with c show ?thesis by simp
qed

lemma mate_exists:
  assumes "wf_rev rs" "a < length rs" "isCall rs a"
  obtains b where "mate rs a = Some b" "b < a" "\<not> isCall rs b" "enId (rs ! b) = enId (rs ! a)"
proof -
  obtain b where b: "b < a" "\<not> isCall rs b" "enId (rs ! b) = enId (rs ! a)"
    using assms unfolding wf_rev_def by blast
  have "mate rs a = Some b"
    unfolding mate_def using assms b by (intro retAt_unique) simp_all
  with b that show thesis by blast
qed

section \<open>The heap after linking\<close>

text \<open>What the loop over the entries keeps, after the entries \<open>ps\<close>.\<close>

definition linked :: "'v entry list \<Rightarrow> 'v heap \<times> nat option \<times> (int \<rightharpoonup> nat) \<Rightarrow> bool" where
  "linked ps s \<longleftrightarrow> (case s of (h, root, match) \<Rightarrow>
     length h = length ps \<and> dll h (rev [0..<length ps]) \<and>
     root = (if ps = [] then None else Some (length ps - 1)) \<and>
     (ps \<noteq> [] \<longrightarrow> nd_prev (h ! (length ps - 1)) = None) \<and>
     (\<forall>a < length ps. nd_value (h ! a) = enValue (ps ! a) \<and> nd_id (h ! a) = enId (ps ! a) \<and>
        nd_match (h ! a) = (if isCall ps a then mate ps a else None)) \<and>
     (\<forall>i. match i = retAt ps (length ps) i))"

lemma linkEntries_append: "linkEntries (xs @ ys) s = rbind (linkEntries xs s) (linkEntries ys)"
proof (induction xs arbitrary: s)
  case (Cons x xs)
  obtain h root match where s: "s = (h, root, match)" by (cases s)
  show ?case using Cons by (simp add: s Let_def rbind_assoc newNode_def)
qed simp

lemma dll_append_node: "dll h L \<Longrightarrow> dll (h @ [nd]) L"
proof -
  assume d: "dll h L"
  have "a < length h" if "a \<in> set (butlast L) \<or> a \<in> set (tl L)" for a
    using d that by (cases L) (auto simp: dll_def dest: in_set_butlastD split: if_splits)
  then have "chain (h @ [nd]) L = chain h L" by (intro chain_cong) (auto simp: nth_append)
  with d show ?thesis by (cases L rule: rev_cases) (auto simp: dll_def nth_append)
qed

text \<open>A fresh node before the first node of a list whose first node has no predecessor.\<close>

lemma insertBefore_front:
  assumes "dll h (rev [0..<k])" "length h = k" "0 < k" "nd_prev (h ! (k - 1)) = None"
  shows "\<exists>h'. insertBefore (Some k) (Some (k - 1)) (fst (newNode v mt i h)) = Inr h' \<and>
     dll h' (rev [0..<Suc k]) \<and> length h' = Suc k \<and> nd_prev (h' ! k) = None \<and>
     (\<forall>a < Suc k. nd_value (h' ! a) = (if a = k then v else nd_value (h ! a)) \<and>
        nd_id (h' ! a) = (if a = k then i else nd_id (h ! a)) \<and>
        nd_match (h' ! a) = (if a = k then mt else nd_match (h ! a)))"
proof -
  let ?new = "h @ [\<lparr>nd_value = v, nd_match = mt, nd_id = i, nd_next = None, nd_prev = None\<rparr>]"
  let ?h = "upN k (Some (k - 1)) (upP (k - 1) (Some k) ?new)"
  have k: "rev [0..<k] = (k - 1) # rev [0..<k - 1]" using assms(3) by (cases k) simp_all
  have d: "dll ?new (rev [0..<k])" using assms(1) by (rule dll_append_node)
  have "insertBefore (Some k) (Some (k - 1)) ?new = Inr ?h"
    using assms by (simp add: insertBefore_def nth_append Let_def)
  moreover have "chain ?h (rev [0..<k]) = chain ?new (rev [0..<k])"
    using assms(2) by (intro chain_cong) (auto simp: k dest: in_set_butlastD split: if_splits)
  moreover have "dll ?h (rev [0..<Suc k])"
    using d calculation(2) assms(2,3) by (auto simp: dll_def k nth_append last_rev)
  ultimately show ?thesis using assms(2,3) by (auto simp: newNode_def nth_append)
qed

lemma retAt_snoc_le: "k \<le> length ps \<Longrightarrow> retAt (ps @ [e]) k i = retAt ps k i"
  unfolding retAt_def by (rule find_cong) (auto simp: nth_append)

lemma retAt_snoc:
  "retAt (ps @ [e]) (Suc (length ps)) i =
     (case retAt ps (length ps) i of Some b \<Rightarrow> Some b
      | None \<Rightarrow> if enKind e = returnEntry \<and> enId e = i then Some (length ps) else None)"
proof -
  have "find P (xs @ [x]) = (case find P xs of Some b \<Rightarrow> Some b | None \<Rightarrow> if P x then Some x else None)"
    for P :: "nat \<Rightarrow> bool" and xs x by (induction xs) auto
  then show ?thesis
    using retAt_snoc_le [of "length ps" ps e i] by (simp add: retAt_def split: option.split)
qed

lemma linked_snoc:
  assumes "linked ps (h, root, match)"
    and "enKind e = returnEntry \<Longrightarrow> retAt ps (length ps) (enId e) = None"
  shows "\<exists>s. linkEntries [e] (h, root, match) = Inr s \<and> linked (ps @ [e]) s"
proof -
  let ?k = "length ps" and ?mt = "if enKind e = returnEntry then None else match (enId e)"
  note l = assms(1) [unfolded linked_def, simplified]
  obtain h' where h': "insertBefore (Some ?k) root (fst (newNode (enValue e) ?mt (enId e) h)) = Inr h'"
     "dll h' (rev [0..<Suc ?k])" "length h' = Suc ?k" "nd_prev (h' ! ?k) = None"
     "\<forall>a < Suc ?k. nd_value (h' ! a) = (if a = ?k then enValue e else nd_value (h ! a)) \<and>
        nd_id (h' ! a) = (if a = ?k then enId e else nd_id (h ! a)) \<and>
        nd_match (h' ! a) = (if a = ?k then ?mt else nd_match (h ! a))"
  proof (cases "ps = []")
    case True
    then show ?thesis using l that by (simp add: newNode_def insertBefore_def dll_def)
  next
    case False
    have "root = Some (?k - 1)" using l False by simp
    moreover from False have "0 < ?k" by simp
    ultimately show ?thesis
      using insertBefore_front [of h ?k "enValue e" ?mt "enId e"] l False that by auto
  qed
  define match' where "match' = (if enKind e = returnEntry then match(enId e \<mapsto> ?k) else match)"
  have "linkEntries [e] (h, root, match) = Inr (h', Some ?k, match')"
    using h'(1) conjunct1 [OF l] by (cases "enKind e") (simp_all add: newNode_def match'_def Let_def)
  moreover have "match' i = retAt (ps @ [e]) (Suc ?k) i" for i
    using l assms(2) by (auto simp: match'_def retAt_snoc split: option.split)
  moreover have "nd_match (h' ! a) = (if isCall (ps @ [e]) a then mate (ps @ [e]) a else None)" if "a < Suc ?k" for a
    using h'(5) that l retAt_snoc_le [of a ps e]
    by (cases "enKind e") (auto simp: isCall_def mate_def nth_append less_Suc_eq)
  ultimately show ?thesis using h' l by (auto simp: linked_def nth_append less_Suc_eq)
qed

lemma linkEntries_linked:
  assumes "distinct (map (\<lambda>e. (enKind e, enId e)) ps)"
  shows "\<exists>s. linkEntries ps ([], None, Map.empty) = Inr s \<and> linked ps s"
  using assms
proof (induction ps rule: rev_induct)
  case Nil
  then show ?case by (simp add: linked_def dll_def retAt_def)
next
  case (snoc e ps)
  then have "\<exists>s. linkEntries ps ([], None, Map.empty) = Inr s \<and> linked ps s" by simp
  then obtain h root match where IH: "linkEntries ps ([], None, Map.empty) = Inr (h, root, match)" "linked ps (h, root, match)"
    by (metis prod_cases3)
  have "retAt ps (length ps) (enId e) = None" if "enKind e = returnEntry"
  proof (rule ccontr)
    assume "retAt ps (length ps) (enId e) \<noteq> None"
    then obtain b where "retAt ps (length ps) (enId e) = Some b" by blast
    from retAt_Some [OF this] have "b < length ps" "(enKind (ps ! b), enId (ps ! b)) = (enKind e, enId e)"
      using that by (simp_all add: isCall_def not_call_iff)
    then have "(enKind e, enId e) \<in> (\<lambda>e. (enKind e, enId e)) ` set ps" by (auto intro!: image_eqI [of _ _ "ps ! b"])
    with snoc.prems show False by simp
  qed
  from linked_snoc [OF IH(2) this] obtain s where "linkEntries [e] (h, root, match) = Inr s" "linked (ps @ [e]) s"
    by blast
  with IH(1) show ?case unfolding linkEntries_append by (simp del: linkEntries.simps)
qed

section \<open>The state the search starts from\<close>

lemma nodeLength_dll:
  assumes "dll h L" "length L \<le> fuel"
  shows "nodeLength h fuel (case L of [] \<Rightarrow> None | a # _ \<Rightarrow> Some a) = Inr (Some (length L))"
  using assms
proof (induction L arbitrary: fuel)
  case (Cons a L)
  then obtain f where f: "fuel = Suc f" by (cases fuel) auto
  have d: "dll h L" using Cons.prems(1) by (cases L) (auto simp: dll_def)
  have "nd_next (h ! a) = (case L of [] \<Rightarrow> None | b # _ \<Rightarrow> Some b)" "a < length h"
    using Cons.prems(1) by (cases L; auto simp: dll_def)+
  with Cons.IH [OF d, of f] Cons.prems(2) f show ?case by simp
qed simp

text \<open>The fields of the nodes that the search never writes.\<close>

definition static :: "'v entry list \<Rightarrow> 'v heap \<Rightarrow> bool" where
  "static rs h \<longleftrightarrow> length h = Suc (length rs) \<and>
     (\<forall>a < length rs. nd_value (h ! a) = enValue (rs ! a) \<and> nd_id (h ! a) = enId (rs ! a) \<and>
        nd_match (h ! a) = (if isCall rs a then mate rs a else None))"

definition firstEntry :: "'v entry list \<Rightarrow> nat option" where
  "firstEntry rs = (if rs = [] then None else Some (length rs - 1))"

lemma head_inserted:
  assumes "linked rs (h, root, match)"
  shows "\<exists>h'. insertBefore (Some (length rs)) root (fst (newNode None None (-1) h)) = Inr h' \<and>
     dll h' (length rs # rev [0..<length rs]) \<and> static rs h'"
proof (cases "rs = []")
  case True
  then show ?thesis using assms by (simp add: linked_def newNode_def insertBefore_def dll_def static_def)
next
  case False
  note l = assms [unfolded linked_def, simplified]
  have "root = Some (length rs - 1)" using l False by simp
  moreover obtain h' where "insertBefore (Some (length rs)) (Some (length rs - 1)) (fst (newNode None None (-1) h)) = Inr h'"
    "dll h' (rev [0..<Suc (length rs)])" "length h' = Suc (length rs)"
    "\<forall>a < Suc (length rs). nd_value (h' ! a) = (if a = length rs then None else nd_value (h ! a)) \<and>
        nd_id (h' ! a) = (if a = length rs then -1 else nd_id (h ! a)) \<and>
        nd_match (h' ! a) = (if a = length rs then None else nd_match (h ! a))"
    using insertBefore_front [of h "length rs" None None "-1"] l False by auto
  ultimately show ?thesis using l by (auto simp: static_def)
qed

lemma checkSingle_starts:
  assumes "wf_rev (rev es)"
  shows "\<exists>h. dll h (length es # rev [0..<length es]) \<and> static (rev es) h \<and>
     checkSingle fuel model es computePartial kill =
     checkLoop model computePartial kill (Some (length es)) fuel 0
       \<lparr>s_heap = h, s_entry = firstEntry (rev es), s_state = mInit model,
        s_linearized = newBitset (length es div 2), s_cache = (\<lambda>_. []), s_calls = [],
        s_longest = replicate (length es div 2) None\<rparr>"
proof -
  from linkEntries_linked [OF wf_rev_distinct [OF assms]] obtain h root match where
    l: "linkEntries (rev es) ([], None, Map.empty) = Inr (h, root, match)" "linked (rev es) (h, root, match)"
    by (elim exE conjE) (metis prod_cases3)
  have len: "length h = length es" and root: "root = firstEntry (rev es)" and d: "dll h (rev [0..<length es])"
    using l(2) by (auto simp: linked_def firstEntry_def)
  have "root = (case rev [0..<length es] of [] \<Rightarrow> None | a # _ \<Rightarrow> Some a)"
    by (cases es) (simp_all add: root firstEntry_def)
  then have n: "nodeLength h (length h) root = Inr (Some (length es))"
    using nodeLength_dll [OF d, of "length h"] len by simp
  obtain h' where h': "insertBefore (Some (length es)) root (fst (newNode None None (-1) h)) = Inr h'"
    "dll h' (length es # rev [0..<length es])" "static (rev es) h'"
    using head_inserted [OF l(2)] by auto
  have "makeLinkedEntries es = Inr (h, root)" using l(1) by (simp add: makeLinkedEntries_def)
  with n h' len show ?thesis
    unfolding checkSingle_def by (intro exI [of _ h'] conjI) (simp_all add: newNode_def root Let_def del: checkLoop.simps)
qed

end
