(* ===== verification/Porcupine_Search.thy ===== *)
theory Porcupine_Search
  imports Porcupine_Heap
begin

text \<open>
  Correctness of the search of \<^verbatim>\<open>checkSingle\<close>. The reference is \<open>completable\<close>: from a set of
  linearized operations and a state of the model, the rest can be linearized if some operation
  whose call comes before every remaining return takes a step of the model, and the rest can be
  linearized after it. The search is a depth-first search for such a sequence that remembers the
  pairs of set and state it has tried. Its invariant says that every remembered pair is on the
  stack or cannot be completed, and that on every level all candidates to the left of the current
  one cannot be completed. A weight that grows with every round bounds the number of rounds.
\<close>

section \<open>The reference search\<close>

definition idOf :: "'v entry list \<Rightarrow> nat \<Rightarrow> nat" where
  "idOf rs a = nat (enId (rs ! a))"

definition live :: "'v entry list \<Rightarrow> nat set \<Rightarrow> nat list" where
  "live rs L = filter (\<lambda>a. idOf rs a \<notin> L) (rev [0..<length rs])"

definition stepAt :: "('v, 's) Model \<Rightarrow> 'v entry list \<Rightarrow> nat \<Rightarrow> 's \<Rightarrow> (bool \<times> 's) res" where
  "stepAt m rs a s = mStep m s (enValue (rs ! a)) (enValue (rs ! the (mate rs a)))"

inductive completable :: "('v, 's) Model \<Rightarrow> 'v entry list \<Rightarrow> nat set \<Rightarrow> 's \<Rightarrow> bool" for m rs where
  finished: "live rs L = [] \<Longrightarrow> completable m rs L s"
| linearize: "a \<in> set (takeWhile (isCall rs) (live rs L)) \<Longrightarrow> stepAt m rs a s = Inr (True, s') \<Longrightarrow>
    completable m rs (insert (idOf rs a) L) s' \<Longrightarrow> completable m rs L s"

text \<open>The model's equality relates only states that behave alike, and its steps do not panic.\<close>

definition equalOK :: "('v, 's) Model \<Rightarrow> bool" where
  "equalOK m \<longleftrightarrow> (\<forall>s t. the (mEqual m) s t \<longrightarrow>
     (\<forall>i out. rel_sum (=) (rel_prod (=) (the (mEqual m))) (mStep m s i out) (mStep m t i out)))"

definition stepOK :: "('v, 's) Model \<Rightarrow> 'v entry list \<Rightarrow> bool" where
  "stepOK m rs \<longleftrightarrow> (\<forall>a s. a < length rs \<and> isCall rs a \<longrightarrow> (\<exists>r. stepAt m rs a s = Inr r))"

lemma completable_equal:
  assumes "equalOK m" "completable m rs L s" "the (mEqual m) s t \<or> the (mEqual m) t s"
  shows "completable m rs L t"
  using assms(2,3)
proof (induction arbitrary: t)
  case (finished L s)
  then show ?case by (intro completable.finished)
next
  case (linearize a L s s')
  from linearize.prems have "rel_sum (=) (rel_prod (=) (the (mEqual m))) (stepAt m rs a s) (stepAt m rs a t) \<or>
     rel_sum (=) (rel_prod (=) (the (mEqual m))) (stepAt m rs a t) (stepAt m rs a s)"
    using assms(1) by (auto simp: equalOK_def stepAt_def)
  with linearize.hyps(2) obtain t' where "stepAt m rs a t = Inr (True, t')"
    "the (mEqual m) s' t' \<or> the (mEqual m) t' s'"
    by (cases "stepAt m rs a t") (auto simp: rel_prod_sel)
  with linearize.IH [of t'] linearize.hyps(1) show ?case by (blast intro: completable.linearize)
qed

section \<open>Live entries\<close>

lemma live_distinct [simp]: "distinct (live rs L)"
  by (simp add: live_def)

lemma live_iff: "a \<in> set (live rs L) \<longleftrightarrow> a < length rs \<and> idOf rs a \<notin> L"
  by (auto simp: live_def)

lemma live_sorted: "sorted_wrt (>) (live rs L)"
  by (simp add: live_def sorted_wrt_filter sorted_wrt_rev)

lemma live_split:
  assumes "wf_rev rs" "live rs L = ys @ a # zs" "isCall rs a" "mate rs a = Some b"
  obtains D C where "zs = D @ b # C" "live rs (insert (idOf rs a) L) = ys @ D @ C"
proof -
  have a: "a < length rs" "idOf rs a \<notin> L" using assms(2) live_iff [of a rs L] by auto
  obtain b' where b': "mate rs a = Some b'" "b' < a" "\<not> isCall rs b'" "enId (rs ! b') = enId (rs ! a)"
    using mate_exists [OF assms(1) a(1) assms(3)] by blast
  with assms(4) have b: "b < a" "\<not> isCall rs b" "enId (rs ! b) = enId (rs ! a)" by auto
  then have "b \<in> set (live rs L)" using a by (simp add: live_iff idOf_def)
  moreover have "b \<notin> set ys"
    using live_sorted [of rs L] assms(2) b(1) by (auto simp: sorted_wrt_append)
  ultimately have "b \<in> set zs" using assms(2) b(1) by auto
  then obtain D C where zs: "zs = D @ b # C" using split_list by metis
  have ids: "idOf rs c = idOf rs a \<longleftrightarrow> c = a \<or> c = b" if "c < length rs" for c
  proof -
    have nn: "0 \<le> enId (rs ! c)" "0 \<le> enId (rs ! a)" using assms(1) that a(1) by (simp_all add: wf_rev_def)
    have "enKind (rs ! c) = enKind (rs ! a) \<or> enKind (rs ! c) = enKind (rs ! b)"
      using assms(3) b(2) by (cases "enKind (rs ! c)") (auto simp: isCall_def not_call_iff)
    then show ?thesis
      using assms(1) that a(1) b nn unfolding wf_rev_def idOf_def by (metis eq_nat_nat_iff order.strict_trans)
  qed
  have l: "live rs (insert (idOf rs a) L) = filter (\<lambda>c. c \<noteq> a \<and> c \<noteq> b) (live rs L)"
    using ids by (auto simp: live_def intro!: filter_cong)
  have keep: "filter (\<lambda>c. c \<noteq> a \<and> c \<noteq> b) xs = xs" if "a \<notin> set xs" "b \<notin> set xs" for xs
    using that by (auto intro: filter_True)
  have "filter (\<lambda>c. c \<noteq> a \<and> c \<noteq> b) (live rs L) = ys @ D @ C"
    using live_distinct [of rs L] keep unfolding assms(2) zs by simp
  with l have "live rs (insert (idOf rs a) L) = ys @ D @ C" by simp
  with zs that show thesis by blast
qed

section \<open>The stack of the search\<close>

definition exhausted :: "('v, 's) Model \<Rightarrow> 'v entry list \<Rightarrow> nat set \<Rightarrow> 's \<Rightarrow> nat list \<Rightarrow> bool" where
  "exhausted m rs L s ys \<longleftrightarrow>
     (\<forall>a \<in> set ys. \<forall>s'. stepAt m rs a s = Inr (True, s') \<longrightarrow> \<not> completable m rs (insert (idOf rs a) L) s')"

text \<open>
  \<open>stack m rs h0 cs h L s P w\<close>: the calls \<open>cs\<close> were lifted one after the other, which turned the
  heap \<open>h0\<close> into \<open>h\<close>, linearized the operations \<open>L\<close> and brought the model to \<open>s\<close>; \<open>P\<close> are the
  pairs of set and state passed on the way, and \<open>w\<close> is the weight of the positions chosen.
\<close>

inductive stack :: "('v, 's) Model \<Rightarrow> 'v entry list \<Rightarrow> 'v heap \<Rightarrow> (nat option \<times> 's) list \<Rightarrow> 'v heap \<Rightarrow>
    nat set \<Rightarrow> 's \<Rightarrow> (nat set \<times> 's) set \<Rightarrow> nat \<Rightarrow> bool" for m rs h0 where
  empty: "stack m rs h0 [] h0 {} (mInit m) {({}, mInit m)} 0"
| push: "stack m rs h0 cs h L s P w \<Longrightarrow> live rs L = ys @ a # zs \<Longrightarrow> list_all (isCall rs) (ys @ [a]) \<Longrightarrow>
    exhausted m rs L s ys \<Longrightarrow> stepAt m rs a s = Inr (True, s') \<Longrightarrow> unlift (Some a) h' = Inr h \<Longrightarrow>
    dll h' (length rs # live rs (insert (idOf rs a) L)) \<Longrightarrow> static rs h' \<Longrightarrow>
    stack m rs h0 (cs @ [(Some a, s)]) h' (insert (idOf rs a) L) s' (insert (insert (idOf rs a) L, s') P)
      (w + length ys * (length rs + 2) ^ (length rs div 2 - length cs) + 1)"

lemma stack_heap:
  assumes "stack m rs h0 cs h L s P w" "dll h0 (length rs # live rs {})" "static rs h0"
  shows "dll h (length rs # live rs L) \<and> static rs h"
  using assms by (induction) auto

lemma stack_completable:
  assumes "stack m rs h0 cs h L s P w" "completable m rs L s"
  shows "completable m rs {} (mInit m)"
  using assms
proof (induction)
  case (push cs h L s P w ys a zs s' h')
  then have "a \<in> set (takeWhile (isCall rs) (live rs L))" by (auto simp: list_all_iff takeWhile_append)
  with push show ?case by (blast intro: completable.linearize)
qed simp

lemma id_below: "wf_rev rs \<Longrightarrow> a < length rs \<Longrightarrow> idOf rs a < length rs div 2"
  by (auto simp: wf_rev_def idOf_def nat_less_iff)

lemma length_live: "length (live rs L) \<le> length rs"
  unfolding live_def by (metis diff_zero length_filter_le length_rev length_upt)

lemma stack_shape:
  assumes "stack m rs h0 cs h L s P w" "wf_rev rs"
  shows "L \<subseteq> {..<length rs div 2} \<and> card L = length cs \<and> (\<forall>(L', s') \<in> P. L' \<subseteq> L) \<and>
     (\<forall>c \<in> set cs. \<exists>a < length rs. fst c = Some a)"
  using assms
proof (induction)
  case (push cs h L s P w ys a zs s' h')
  have a: "a < length rs" "idOf rs a \<notin> L" using push.hyps(2) live_iff [of a rs L] by auto
  have "finite L" using push finite_subset by blast
  with a push id_below [OF assms(2) a(1)] show ?case by auto
qed simp

lemma stack_depth:
  assumes "stack m rs h0 cs h L s P w" "wf_rev rs" "live rs L \<noteq> []"
  shows "length cs < length rs div 2"
proof -
  obtain a where a: "a < length rs" "idOf rs a \<notin> L" using assms(3) live_iff [of "hd (live rs L)" rs L] by auto
  note sh = stack_shape [OF assms(1,2)]
  have "insert (idOf rs a) L \<subseteq> {..<length rs div 2}" using sh id_below [OF assms(2) a(1)] by auto
  then have "card (insert (idOf rs a) L) \<le> length rs div 2" by (metis card_lessThan card_mono finite_lessThan)
  moreover have "finite L" using sh finite_subset by blast
  ultimately show ?thesis using sh a(2) by simp
qed

lemma stack_weight:
  assumes "stack m rs h0 cs h L s P w" "wf_rev rs"
  shows "w + (length rs + 2) ^ (length rs div 2 - length cs + 1) \<le> (length rs + 2) ^ (length rs div 2 + 1)"
  using assms
proof (induction)
  case (push cs h L s P w ys a zs s' h')
  let ?B = "length rs + 2" and ?n = "length rs div 2"
  have "live rs L \<noteq> []" using push.hyps(2) by simp
  then have d: "length cs < ?n" by (rule stack_depth [OF push.hyps(1) assms(2)])
  have y: "length ys + 2 \<le> ?B" using length_live [of rs L] push.hyps(2) by simp
  let ?p = "?B ^ (?n - length cs)"
  have "?n - length (cs @ [(Some a, s)]) + 1 = ?n - length cs" using d by simp
  then have "w + length ys * ?p + 1 + ?B ^ (?n - length (cs @ [(Some a, s)]) + 1) = w + length ys * ?p + 1 + ?p" by simp
  also have "\<dots> \<le> w + (length ys + 2) * ?p" using one_le_power [of ?B "?n - length cs"] by (simp add: algebra_simps)
  also have "\<dots> \<le> w + ?B * ?p" using mult_right_mono [OF y, of ?p] by simp
  also have "\<dots> = w + ?B ^ (?n - length cs + 1)" by simp
  also have "\<dots> \<le> ?B ^ (?n + 1)" using push.IH assms(2) by simp
  finally show ?case .
qed simp

section \<open>The invariant\<close>

lemma dll_next: "dll h (xs @ a # ys) \<Longrightarrow> nd_next (h ! a) = (case ys of [] \<Rightarrow> None | b # _ \<Rightarrow> Some b)"
  by (cases ys) (auto simp: dll_def chain_append)

lemma lift_live:
  assumes "wf_rev rs" "dll h (length rs # live rs L)" "static rs h" "live rs L = ys @ a # zs" "isCall rs a"
  shows "\<exists>h'. lift (Some a) h = Inr h' \<and> unlift (Some a) h' = Inr h \<and>
     dll h' (length rs # live rs (insert (idOf rs a) L)) \<and> static rs h'"
proof -
  have a: "a < length rs" using assms(4) live_iff [of a rs L] by auto
  obtain b where b: "mate rs a = Some b" using mate_exists [OF assms(1) a assms(5)] by blast
  obtain D C where DC: "zs = D @ b # C" "live rs (insert (idOf rs a) L) = ys @ D @ C"
    using live_split [OF assms(1,4,5) b] by blast
  obtain A p where A: "length rs # ys = A @ [p]" by (metis append_butlast_last_id list.distinct(1))
  have "length rs # live rs L = A @ p # a # D @ b # C" using A by (simp add: assms(4) DC(1))
  then have "dll h (A @ p # a # D @ b # C)" using assms(2) by simp
  moreover have "nd_match (h ! a) = Some b" using assms(3,5) a b by (simp add: static_def)
  ultimately obtain h' where h': "lift (Some a) h = Inr h'" "dll h' (A @ p # D @ C)" "unlift (Some a) h' = Inr h"
    "length h' = length h" "\<forall>c. nd_match (h' ! c) = nd_match (h ! c) \<and> nd_id (h' ! c) = nd_id (h ! c) \<and> nd_value (h' ! c) = nd_value (h ! c)"
    using lift_unlift by blast
  have "length rs # live rs (insert (idOf rs a) L) = A @ p # D @ C" using A by (simp add: DC(2))
  with h' assms(3) show ?thesis by (simp add: static_def)
qed

definition sinv :: "('v, 's) Model \<Rightarrow> 'v entry list \<Rightarrow> 'v heap \<Rightarrow> nat set \<Rightarrow> nat list \<Rightarrow> nat list \<Rightarrow>
    (nat set \<times> 's) set \<Rightarrow> nat \<Rightarrow> ('v, 's) search \<Rightarrow> bool" where
  "sinv m rs h0 L ys zs P w s \<longleftrightarrow>
     stack m rs h0 (s_calls s) (s_heap s) L (s_state s) P w \<and>
     live rs L = ys @ zs \<and> list_all (isCall rs) ys \<and> exhausted m rs L (s_state s) ys \<and>
     s_entry s = (case zs of [] \<Rightarrow> None | a # _ \<Rightarrow> Some a) \<and>
     members (s_linearized s) = L \<and> length (s_linearized s) = length (newBitset (length rs div 2)) \<and>
     (\<forall>hash. \<forall>c \<in> set (s_cache s hash). length (ceLinearized c) = length (newBitset (length rs div 2)) \<and>
        ((members (ceLinearized c), ceState c) \<in> P \<or> \<not> completable m rs (members (ceLinearized c)) (ceState c))) \<and>
     length (s_longest s) = length rs div 2"

definition weight :: "'v entry list \<Rightarrow> nat list \<Rightarrow> nat \<Rightarrow> ('v, 's) search \<Rightarrow> nat" where
  "weight rs ys w s = w + length ys * (length rs + 2) ^ (length rs div 2 - length (s_calls s))"

text \<open>The hypotheses that stay the same throughout a search.\<close>

definition setting :: "('v, 's) Model \<Rightarrow> 'v entry list \<Rightarrow> 'v heap \<Rightarrow> bool" where
  "setting m rs h0 \<longleftrightarrow> wf_rev rs \<and> equalOK m \<and> stepOK m rs \<and> dll h0 (length rs # live rs {}) \<and> static rs h0"

lemma sinv_heap:
  assumes "setting m rs h0" "sinv m rs h0 L ys zs P w s"
  shows "dll (s_heap s) (length rs # ys @ zs)" "static rs (s_heap s)"
  using assms stack_heap [of m rs h0 "s_calls s" "s_heap s" L "s_state s" P w]
  by (auto simp: setting_def sinv_def)

lemma sinv_weight:
  assumes "setting m rs h0" "sinv m rs h0 L ys zs P w s"
  shows "weight rs ys w s < (length rs + 2) ^ (length rs div 2 + 1)"
proof -
  let ?B = "length rs + 2" and ?n = "length rs div 2"
  have "length ys < ?B" using assms(2) length_live [of rs L] by (simp add: sinv_def)
  then have "w + length ys * ?B ^ (?n - length (s_calls s)) < w + ?B * ?B ^ (?n - length (s_calls s))"
    by (intro add_strict_left_mono mult_strict_right_mono) simp_all
  also have "\<dots> = w + ?B ^ (?n - length (s_calls s) + 1)" by simp
  also have "\<dots> \<le> ?B ^ (?n + 1)"
    using stack_weight [of m rs h0 "s_calls s" "s_heap s" L "s_state s" P w] assms by (simp add: sinv_def setting_def)
  finally show ?thesis by (simp add: weight_def)
qed

text \<open>A live call is followed by its live return, so the entry after it is not nil.\<close>

lemma call_has_rest:
  assumes "wf_rev rs" "live rs L = ys @ a # zs" "isCall rs a"
  shows "zs \<noteq> []"
proof -
  have "a < length rs" using assms(2) live_iff [of a rs L] by auto
  then obtain b where "mate rs a = Some b" using mate_exists [OF assms(1) _ assms(3)] by blast
  then show ?thesis using live_split [OF assms] by blast
qed

lemma at_end:
  assumes "setting m rs h0" "sinv m rs h0 L ys [] P w s"
  shows "ys = []"
proof (rule ccontr)
  assume "ys \<noteq> []"
  then obtain xs a where "ys = xs @ [a]" by (metis append_butlast_last_id)
  then show False using call_has_rest [of rs L xs a "[]"] assms by (simp add: sinv_def setting_def)
qed

lemma try_next:
  assumes "setting m rs h0" "sinv m rs h0 L ys (a # zs) P w s" "isCall rs a"
    and "\<And>s'. stepAt m rs a (s_state s) = Inr (True, s') \<Longrightarrow> \<not> completable m rs (insert (idOf rs a) L) s'"
  shows "sinv m rs h0 L (ys @ [a]) zs P w (s\<lparr>s_entry := nd_next (s_heap s ! a)\<rparr>) \<and>
     weight rs ys w s < weight rs (ys @ [a]) w (s\<lparr>s_entry := nd_next (s_heap s ! a)\<rparr>)"
proof -
  have "nd_next (s_heap s ! a) = (case zs of [] \<Rightarrow> None | b # _ \<Rightarrow> Some b)"
    using sinv_heap(1) [OF assms(1,2)] dll_next [of "s_heap s" "length rs # ys" a zs] by simp
  with assms show ?thesis by (auto simp: sinv_def exhausted_def weight_def)
qed

lemma cache_hit:
  assumes "equalOK m" "cacheContains m cache c"
    and "\<And>hash e. e \<in> set (cache hash) \<Longrightarrow> length (ceLinearized e) = length (ceLinearized c)"
    and "\<And>hash e. e \<in> set (cache hash) \<Longrightarrow> (members (ceLinearized e), ceState e) \<in> P \<or>
       \<not> completable m rs (members (ceLinearized e)) (ceState e)"
    and "\<And>t. (members (ceLinearized c), t) \<notin> P"
  shows "\<not> completable m rs (members (ceLinearized c)) (ceState c)"
proof -
  from assms(2) obtain e where e: "e \<in> set (cache (bsHash (ceLinearized c)))"
    "bsEquals (ceLinearized c) (ceLinearized e)" "the (mEqual m) (ceState c) (ceState e)"
    by (auto simp: cacheContains_def list_ex_iff)
  have "members (ceLinearized e) = members (ceLinearized c)" using e(2) by (simp add: bsEquals_eq)
  then have "\<not> completable m rs (members (ceLinearized c)) (ceState e)" using assms(4) [OF e(1)] assms(5) by auto
  with completable_equal [OF assms(1)] e(3) show ?thesis by blast
qed

text \<open>What \<^verbatim>\<open>tryEntry\<close> does at a live call, with the loads of the heap carried out.\<close>

lemma tryEntry_eq:
  assumes "setting m rs h0" "sinv m rs h0 L ys (a # zs) P w s" "isCall rs a" "stepAt m rs a (s_state s) = Inr (ok, t)"
  shows "tryEntry m (Some (length rs)) (s_heap s ! a) s =
     (if ok then rbind (bsSet (idOf rs a) (s_linearized s)) (\<lambda>lin.
        let c = \<lparr>ceLinearized = lin, ceState = t\<rparr> in
        if \<not> cacheContains m (s_cache s) c then
          rbind (bsSet (idOf rs a) (s_linearized s)) (\<lambda>lin. rbind (lift (Some a) (s_heap s)) (\<lambda>h.
            rbind (loadNode h (Some (length rs))) (\<lambda>hd.
            Inr (s\<lparr>s_cache := (s_cache s)(bsHash (ceLinearized c) := s_cache s (bsHash (ceLinearized c)) @ [c]),
               s_calls := s_calls s @ [(Some a, s_state s)], s_state := t, s_linearized := lin, s_heap := h,
               s_entry := nd_next hd\<rparr>))))
        else Inr (s\<lparr>s_entry := nd_next (s_heap s ! a)\<rparr>))
      else Inr (s\<lparr>s_entry := nd_next (s_heap s ! a)\<rparr>))"
proof -
  note i = assms(2) [unfolded sinv_def] and st = assms(1) [unfolded setting_def]
  have a: "a < length rs" using i live_iff [of a rs L] by auto
  obtain b where b: "mate rs a = Some b" "b < a" using mate_exists a assms(3) st by metis
  have e: "nd_match (s_heap s ! a) = Some b" "nd_value (s_heap s ! a) = enValue (rs ! a)" "nat (nd_id (s_heap s ! a)) = idOf rs a"
    "nd_value (s_heap s ! b) = enValue (rs ! b)" "length (s_heap s) = Suc (length rs)"
    using sinv_heap(2) [OF assms(1,2)] a b assms(3) by (auto simp: static_def idOf_def)
  then have "mStep m (s_state s) (nd_value (s_heap s ! a)) (nd_value (s_heap s ! b)) = Inr (ok, t)"
    using assms(4) b(1) by (simp add: stepAt_def)
  then show ?thesis using i e b a by (simp add: tryEntry_def Let_def cong: if_cong)
qed

text \<open>The call is linearized: the search goes down.\<close>

lemma try_push:
  assumes "setting m rs h0" "sinv m rs h0 L ys (a # zs) P w s" "isCall rs a" "stepAt m rs a (s_state s) = Inr (True, t)"
    and "lift (Some a) (s_heap s) = Inr h'" "members lin = insert (idOf rs a) L" "length lin = length (newBitset (length rs div 2))"
    and "s' = s\<lparr>s_cache := (s_cache s)(bsHash lin := s_cache s (bsHash lin) @ [\<lparr>ceLinearized = lin, ceState = t\<rparr>]),
      s_calls := s_calls s @ [(Some a, s_state s)], s_state := t, s_linearized := lin, s_heap := h', s_entry := nd_next (h' ! length rs)\<rparr>"
  shows "\<exists>L' ys' zs' P' w'. sinv m rs h0 L' ys' zs' P' w' s' \<and> weight rs ys w s < weight rs ys' w' s'"
proof -
  note i = assms(2) [unfolded sinv_def]
  let ?L = "insert (idOf rs a) L" and ?w = "w + length ys * (length rs + 2) ^ (length rs div 2 - length (s_calls s)) + 1"
  have lv: "live rs L = ys @ a # zs" using i by simp
  have h': "unlift (Some a) h' = Inr (s_heap s)" "dll h' (length rs # live rs ?L)" "static rs h'"
    using lift_live [of rs "s_heap s" L ys a zs] sinv_heap [OF assms(1,2)] assms(1,3,5) lv by (auto simp: setting_def)
  have "nd_next (h' ! length rs) = (case live rs ?L of [] \<Rightarrow> None | c # _ \<Rightarrow> Some c)"
    using dll_next [of h' "[]" "length rs"] h'(2) by simp
  moreover have "stack m rs h0 (s_calls s') h' ?L t (insert (?L, t) P) ?w"
    using stack.push [of m rs h0 "s_calls s" "s_heap s" L "s_state s" P w ys a zs t h'] i lv assms(3,4,8) h' by simp
  ultimately have "sinv m rs h0 ?L [] (live rs ?L) (insert (?L, t) P) ?w s'"
    using i assms(6-8) by (auto simp: sinv_def exhausted_def)
  moreover have "weight rs ys w s < weight rs [] ?w s'" using assms(8) by (simp add: weight_def)
  ultimately show ?thesis by blast
qed

text \<open>The operations linearized with the call are not on the stack.\<close>

lemma try_fresh:
  assumes "setting m rs h0" "sinv m rs h0 L ys (a # zs) P w s"
  shows "(insert (idOf rs a) L, u) \<notin> P"
proof
  assume "(insert (idOf rs a) L, u) \<in> P"
  then have "insert (idOf rs a) L \<subseteq> L"
    using stack_shape [of m rs h0 "s_calls s" "s_heap s" L "s_state s" P w] assms by (auto simp: sinv_def setting_def)
  moreover have "idOf rs a \<notin> L" using assms(2) live_iff [of a rs L] by (auto simp: sinv_def)
  ultimately show False by simp
qed

text \<open>A call entry: the search goes down or to the right.\<close>

lemma tryEntry_step:
  assumes "setting m rs h0" "sinv m rs h0 L ys (a # zs) P w s" "isCall rs a"
  shows "\<exists>s' L' ys' zs' P' w'. tryEntry m (Some (length rs)) (s_heap s ! a) s = Inr s' \<and>
     sinv m rs h0 L' ys' zs' P' w' s' \<and> weight rs ys w s < weight rs ys' w' s'"
proof -
  note i = assms(2) [unfolded sinv_def] and st = assms(1) [unfolded setting_def]
  have a: "a < length rs" using i live_iff [of a rs L] by auto
  obtain ok t where r: "stepAt m rs a (s_state s) = Inr (ok, t)"
    using st a assms(3) unfolding stepOK_def by (metis surj_pair)
  note pre = tryEntry_eq [OF assms r]
  show ?thesis
  proof (cases ok)
    case False
    then have "tryEntry m (Some (length rs)) (s_heap s ! a) s = Inr (s\<lparr>s_entry := nd_next (s_heap s ! a)\<rparr>)" using pre by simp
    then show ?thesis using try_next [OF assms] r False by (metis old.prod.inject sum.inject(2))
  next
    case True
    have "idOf rs a < 64 * length (s_linearized s)"
      using id_below [OF _ a] st i length_newBitset [of "length rs div 2"] by (metis order.strict_trans2)
    then obtain lin where lin: "bsSet (idOf rs a) (s_linearized s) = Inr lin" "members lin = insert (idOf rs a) L"
      "length lin = length (newBitset (length rs div 2))" using bsSet_members i by metis
    show ?thesis
    proof (cases "cacheContains m (s_cache s) \<lparr>ceLinearized = lin, ceState = t\<rparr>")
      case hit: True
      have "\<not> completable m rs (members lin) t"
        using cache_hit [OF _ hit, of P rs] i lin try_fresh [OF assms(1,2)] st by auto
      moreover have "tryEntry m (Some (length rs)) (s_heap s ! a) s = Inr (s\<lparr>s_entry := nd_next (s_heap s ! a)\<rparr>)"
        using pre True lin(1) hit by (simp add: Let_def)
      ultimately show ?thesis using try_next [OF assms] r lin(2) by (metis old.prod.inject sum.inject(2))
    next
      case miss: False
      obtain h' where h': "lift (Some a) (s_heap s) = Inr h'" "static rs h'"
        using lift_live [of rs "s_heap s" L ys a zs] st sinv_heap [OF assms(1,2)] i assms(3) by auto
      have "stepAt m rs a (s_state s) = Inr (True, t)" using r True by simp
      from try_push [OF assms this h'(1) lin(2,3) refl] show ?thesis using pre True lin(1) miss h' by (simp add: Let_def static_def)
    qed
  qed
qed

text \<open>The recording of partial linearizations does not panic.\<close>

lemma recordLongest_total:
  assumes "\<And>i. i \<in> set ids \<Longrightarrow> 0 \<le> i \<and> i < int (length longest)"
  shows "\<exists>l. recordLongest k ids longest = Inr l \<and> length l = length longest"
proof -
  have "\<exists>l. foldl (\<lambda>r i. rbind r (\<lambda>ls. rbind (at ls i) (\<lambda>old.
        if (case old of None \<Rightarrow> True | Some (p, sq) \<Rightarrow> length sq < length ids)
        then put ls i (Some (k, ids)) else Inr ls))) (Inr ls) js = Inr l \<and> length l = length ls"
    if "\<And>i. i \<in> set js \<Longrightarrow> 0 \<le> i \<and> i < int (length ls)" for js ls
    using that
  proof (induction js arbitrary: ls)
    case (Cons j js)
    have j: "0 \<le> j" "j < int (length ls)" using Cons.prems by auto
    define ls' where "ls' = (if (case ls ! nat j of None \<Rightarrow> True | Some (p, sq) \<Rightarrow> length sq < length ids)
        then ls[nat j := Some (k, ids)] else ls)"
    have "length ls' = length ls" by (simp add: ls'_def)
    with Cons.IH [of ls'] Cons.prems show ?case
      by (cases "case ls ! nat j of None \<Rightarrow> True | Some (p, sq) \<Rightarrow> length sq < length ids")
        (simp_all add: at_in_range [OF j] j ls'_def)
  qed simp
  from this [of ids longest] assms show ?thesis by (simp add: recordLongest_def)
qed

lemma callIds_total:
  assumes "setting m rs h0" "sinv m rs h0 L ys zs P w s"
  shows "\<exists>ids. callIds s = Inr ids \<and> (\<forall>i \<in> set ids. 0 \<le> i \<and> i < int (length rs div 2))"
proof -
  have wf: "wf_rev rs" using assms(1) by (simp add: setting_def)
  have c: "\<exists>a < length rs. fst c = Some a" if "c \<in> set (s_calls s)" for c
    using stack_shape [of m rs h0 "s_calls s" "s_heap s" L "s_state s" P w] assms(2) wf that by (auto simp: sinv_def)
  let ?f = "\<lambda>c. nd_id (s_heap s ! the (fst c))"
  have "callIds s = Inr (map ?f (s_calls s))"
    unfolding callIds_def
  proof (rule mapR_total)
    fix d assume "d \<in> set (s_calls s)"
    from c [OF this] obtain a t where "d = (Some a, t)" "a < length rs" by (cases d) auto
    then show "(case d of (e, st) \<Rightarrow> rbind (loadNode (s_heap s) e) (\<lambda>nd. Inr (nd_id nd))) = Inr (?f d)"
      using sinv_heap(2) [OF assms] by (simp add: static_def)
  qed
  moreover have "0 \<le> ?f c \<and> ?f c < int (length rs div 2)" if "c \<in> set (s_calls s)" for c
    using c [OF that] sinv_heap(2) [OF assms] wf by (auto simp: static_def wf_rev_def)
  ultimately show ?thesis by auto
qed

text \<open>At a return entry every candidate of the level has been tried.\<close>

lemma level_exhausted:
  assumes "live rs L = ys @ b # zs" "list_all (isCall rs) ys" "\<not> isCall rs b" "exhausted m rs L s ys"
  shows "\<not> completable m rs L s"
proof
  have t: "takeWhile (isCall rs) (live rs L) = ys" using assms(1-3) by (auto simp: list_all_iff takeWhile_append)
  assume "completable m rs L s"
  then show False
  proof (cases rule: completable.cases)
    case finished
    with assms(1) show False by simp
  next
    case (linearize a s')
    with t assms(4) show False by (auto simp: exhausted_def)
  qed
qed

lemma stack_lastE:
  assumes "stack m rs h0 cs h L s P w" "cs \<noteq> []"
  obtains cs' a s0 h' L0 P0 w0 ys zs where "cs = cs' @ [(Some a, s0)]" "stack m rs h0 cs' h' L0 s0 P0 w0"
    "live rs L0 = ys @ a # zs" "list_all (isCall rs) (ys @ [a])" "exhausted m rs L0 s0 ys"
    "stepAt m rs a s0 = Inr (True, s)" "unlift (Some a) h = Inr h'" "L = insert (idOf rs a) L0"
    "P = insert (L, s) P0" "w = w0 + length ys * (length rs + 2) ^ (length rs div 2 - length cs') + 1"
  using assms by (cases rule: stack.cases) auto

text \<open>A return entry: the last call is taken back and the search goes to the right of it.\<close>

lemma backtrack_step:
  assumes "setting m rs h0" "sinv m rs h0 L ys (b # zs) P w s" "\<not> isCall rs b" "s_calls s \<noteq> []"
  shows "\<exists>s' L' ys' zs' P' w'. backtrack computePartial k s = Inr s' \<and>
     sinv m rs h0 L' ys' zs' P' w' s' \<and> weight rs ys w s < weight rs ys' w' s'"
proof -
  note i = assms(2) [unfolded sinv_def] and st = assms(1) [unfolded setting_def]
  let ?B = "length rs + 2" and ?n = "length rs div 2"
  obtain cs a s0 h' L0 P0 w0 ys0 zs0 where c: "s_calls s = cs @ [(Some a, s0)]"
    "stack m rs h0 cs h' L0 s0 P0 w0" "live rs L0 = ys0 @ a # zs0" "list_all (isCall rs) (ys0 @ [a])"
    "exhausted m rs L0 s0 ys0" "stepAt m rs a s0 = Inr (True, s_state s)" "unlift (Some a) (s_heap s) = Inr h'"
    "L = insert (idOf rs a) L0" "P = insert (L, s_state s) P0"
    "w = w0 + length ys0 * ?B ^ (?n - length cs) + 1"
    using stack_lastE [OF conjunct1 [OF i] assms(4)] by metis
  have a: "a < length rs" "idOf rs a \<notin> L0" using c(3) live_iff [of a rs L0] by auto
  have dead: "\<not> completable m rs L (s_state s)" using i assms(3) by (intro level_exhausted [of rs L ys b zs]) auto
  obtain ids where ids: "callIds s = Inr ids" "\<forall>i \<in> set ids. 0 \<le> i \<and> i < int ?n"
    using callIds_total [OF assms(1,2)] by blast
  obtain longest where longest: "(if computePartial then rbind (callIds s) (\<lambda>ids. recordLongest k ids (s_longest s))
      else Inr (s_longest s)) = Inr longest" "length longest = ?n"
    using recordLongest_total [of ids "s_longest s" k] ids i by (cases computePartial) auto
  have hp: "dll h' (length rs # live rs L0)" "static rs h'" using stack_heap [OF c(2)] st by auto
  have e: "nat (nd_id (s_heap s ! a)) = idOf rs a" "a < length (s_heap s)" "a < length h'"
    using sinv_heap(2) [OF assms(1,2)] hp(2) a(1) by (auto simp: static_def idOf_def)
  have nx: "nd_next (h' ! a) = (case zs0 of [] \<Rightarrow> None | c # _ \<Rightarrow> Some c)"
    using dll_next [of h' "length rs # ys0" a zs0] hp(1) c(3) by simp
  have "idOf rs a < 64 * length (s_linearized s)"
    using id_below [OF _ a(1)] st i length_newBitset [of ?n] by (metis order.strict_trans2)
  then obtain lin where lin: "bsClear (idOf rs a) (s_linearized s) = Inr lin" "members lin = L0"
    "length lin = length (newBitset ?n)" using bsClear_members [of "idOf rs a" "s_linearized s"] i c(8) a(2) by auto
  let ?s = "s\<lparr>s_longest := longest, s_state := s0, s_linearized := lin, s_calls := cs, s_heap := h',
     s_entry := nd_next (h' ! a)\<rparr>"
  have "at (s_calls s) (int (length (s_calls s)) - 1) = Inr (Some a, s0)" by (simp add: c(1) at_def)
  then have "backtrack computePartial k s = Inr ?s"
    using longest(1) e lin(1) c(7) c(1) by (simp add: backtrack_def)
  moreover have "sinv m rs h0 L0 (ys0 @ [a]) zs0 P0 w0 ?s"
    using i c dead lin nx longest(2) by (fastforce simp: sinv_def exhausted_def)
  moreover have "weight rs ys w s < weight rs (ys0 @ [a]) w0 ?s"
  proof -
    have "length cs < ?n" using c(3) by (intro stack_depth [OF c(2)]) (use st in auto)
    then have p: "?B ^ (?n - length cs) = ?B * ?B ^ (?n - length (s_calls s))" by (simp add: c(1) Suc_diff_Suc flip: power_Suc)
    have "Suc (length ys) < ?B" using i length_live [of rs L] by simp
    then have "Suc (length ys) * ?B ^ (?n - length (s_calls s)) < ?B ^ (?n - length cs)"
      unfolding p by (intro mult_strict_right_mono) simp_all
    moreover have "length ys * ?B ^ (?n - length (s_calls s)) + 1 \<le> Suc (length ys) * ?B ^ (?n - length (s_calls s))"
      by simp
    ultimately have "length ys * ?B ^ (?n - length (s_calls s)) + 1 < ?B ^ (?n - length cs)" by (rule le_less_trans [rotated])
    then show ?thesis by (simp add: weight_def c(10))
  qed
  ultimately show ?thesis by blast
qed

section \<open>The search decides\<close>

definition searchBound :: "nat \<Rightarrow> nat" where
  "searchBound len = (len + 2) ^ (len div 2 + 1)"

text \<open>One round, by the entry the search is at.\<close>

lemma checkLoop_round:
  assumes "setting m rs h0" "sinv m rs h0 L ys zs P w s" "callIds s = Inr ids"
  shows "checkLoop m computePartial kill (Some (length rs)) (Suc fuel) k s =
    (case zs of
       [] \<Rightarrow> Inr (Some (True, replicate (length (s_longest s)) (Some (k, ids))))
     | a # _ \<Rightarrow>
         if kill k then Inr (Some (False, s_longest s))
         else if isCall rs a then rbind (tryEntry m (Some (length rs)) (s_heap s ! a) s)
           (checkLoop m computePartial kill (Some (length rs)) fuel (k + 1))
         else if s_calls s = [] then Inr (Some (False, s_longest s))
         else rbind (backtrack computePartial k s) (checkLoop m computePartial kill (Some (length rs)) fuel (k + 1)))"
proof -
  note i = assms(2) [unfolded sinv_def] and st = assms(1) [unfolded setting_def]
  note dl = sinv_heap(1) [OF assms(1,2)] and sta = sinv_heap(2) [OF assms(1,2)]
  have len: "length (s_heap s) = Suc (length rs)" using sta by (simp add: static_def)
  have hd: "nd_next (s_heap s ! length rs) = (case ys @ zs of [] \<Rightarrow> None | b # _ \<Rightarrow> Some b)"
    using dll_next [of "s_heap s" "[]"] dl by simp
  show ?thesis
  proof (cases zs)
    case Nil
    then have "ys = []" using at_end [OF assms(1)] assms(2) by blast
    then show ?thesis using hd Nil len assms(3) by simp
  next
    case (Cons a zs')
    obtain x where e: "s_entry s = Some a" "nd_next (s_heap s ! length rs) = Some x"
      using i Cons hd by (cases ys) auto
    have a: "a < length rs" using i Cons live_iff [of a rs L] by auto
    have "nd_match (s_heap s ! a) \<noteq> None \<longleftrightarrow> isCall rs a"
      using sta a mate_exists [OF conjunct1 [OF st] a] by (fastforce simp: static_def)
    then show ?thesis using e a len Cons by auto
  qed
qed

lemma checkLoop_decides:
  assumes "setting m rs h0" "sinv m rs h0 L ys zs P w s" "searchBound (length rs) \<le> fuel + weight rs ys w s"
  shows "\<exists>r. checkLoop m computePartial kill (Some (length rs)) fuel k s = Inr (Some r) \<and>
     (fst r \<longrightarrow> completable m rs {} (mInit m)) \<and>
     ((\<forall>j. \<not> kill j) \<and> completable m rs {} (mInit m) \<longrightarrow> fst r)"
  using assms(2,3)
proof (induction fuel arbitrary: k s L ys zs P w)
  case 0
  then show ?case using sinv_weight [OF assms(1) 0(1)] by (simp add: searchBound_def)
next
  case (Suc fuel)
  note i = Suc.prems(1) [unfolded sinv_def]
  obtain ids where "callIds s = Inr ids" using callIds_total [OF assms(1) Suc.prems(1)] by blast
  note round = checkLoop_round [OF assms(1) Suc.prems(1) this, of computePartial kill fuel k]
  show ?case
  proof (cases zs)
    case Nil
    then have "ys = []" using at_end [OF assms(1)] Suc.prems(1) by blast
    then have "completable m rs L (s_state s)" using i Nil by (intro completable.finished) simp
    then have "completable m rs {} (mInit m)" by (rule stack_completable [OF conjunct1 [OF i]])
    then show ?thesis using round Nil by simp
  next
    case (Cons a zs')
    consider (killed) "kill k" | (call) "\<not> kill k" "isCall rs a" | (root) "\<not> kill k" "\<not> isCall rs a" "s_calls s = []"
      | (return) "\<not> kill k" "\<not> isCall rs a" "s_calls s \<noteq> []" by blast
    then show ?thesis
    proof cases
      case killed
      then show ?thesis using round Cons by auto
    next
      case call
      then obtain s' L' ys' zs' P' w' where "tryEntry m (Some (length rs)) (s_heap s ! a) s = Inr s'"
        "sinv m rs h0 L' ys' zs' P' w' s'" "weight rs ys w s < weight rs ys' w' s'"
        using tryEntry_step [OF assms(1) Suc.prems(1) [unfolded Cons]] by blast
      then show ?thesis using Suc.IH [of L' ys' zs' P' w' s' "k + 1"] Suc.prems(2) round Cons call by simp
    next
      case root
      have "\<not> completable m rs L (s_state s)" using i Cons root by (intro level_exhausted [of rs L ys a zs']) auto
      moreover have "L = {}" "s_state s = mInit m" using i root(3) by (auto elim: stack.cases)
      ultimately show ?thesis using round Cons root by simp
    next
      case return
      then obtain s' L' ys' zs'' P' w' where "backtrack computePartial k s = Inr s'"
        "sinv m rs h0 L' ys' zs'' P' w' s'" "weight rs ys w s < weight rs ys' w' s'"
        using backtrack_step [OF assms(1) Suc.prems(1) [unfolded Cons]] by blast
      then show ?thesis using Suc.IH [of L' ys' zs'' P' w' s' "k + 1"] Suc.prems(2) round Cons return by simp
    qed
  qed
qed

lemma checkSingle_setup:
  assumes "wf_rev (rev es)" "equalOK m" "stepOK m (rev es)"
  obtains h s where "setting m (rev es) h" "sinv m (rev es) h {} [] (live (rev es) {}) {({}, mInit m)} 0 s"
    "s_longest s = replicate (length es div 2) None"
    "checkSingle fuel m es computePartial kill = checkLoop m computePartial kill (Some (length (rev es))) fuel 0 s"
proof -
  obtain h where h: "dll h (length es # rev [0..<length es])" "static (rev es) h"
    and c: "checkSingle fuel m es computePartial kill =
       checkLoop m computePartial kill (Some (length es)) fuel 0
       \<lparr>s_heap = h, s_entry = firstEntry (rev es), s_state = mInit m,
        s_linearized = newBitset (length es div 2), s_cache = (\<lambda>_. []), s_calls = [],
        s_longest = replicate (length es div 2) None\<rparr>" (is "_ = checkLoop _ _ _ _ _ _ ?s")
    using checkSingle_starts [OF assms(1)] by blast
  have l: "live (rev es) {} = rev [0..<length es]" by (simp add: live_def)
  have st: "setting m (rev es) h" using assms h by (simp add: setting_def l)
  have "firstEntry (rev es) = (case rev [0..<length es] of [] \<Rightarrow> None | a # _ \<Rightarrow> Some a)"
    by (cases es) (simp_all add: firstEntry_def)
  then have "sinv m (rev es) h {} [] (live (rev es) {}) {({}, mInit m)} 0 ?s"
    unfolding sinv_def l using stack.empty [of m "rev es" h] by (simp add: exhausted_def live_def)
  with st c show thesis by (intro that [of h ?s]) simp_all
qed

lemma checkSingle_decides:
  assumes "wf_rev (rev es)" "equalOK m" "stepOK m (rev es)" "searchBound (length es) \<le> fuel"
  shows "\<exists>r. checkSingle fuel m es computePartial kill = Inr (Some r) \<and>
     (fst r \<longrightarrow> completable m (rev es) {} (mInit m)) \<and>
     ((\<forall>j. \<not> kill j) \<and> completable m (rev es) {} (mInit m) \<longrightarrow> fst r)"
proof (rule checkSingle_setup [OF assms(1-3), of fuel computePartial kill])
  fix h s assume s: "setting m (rev es) h" "sinv m (rev es) h {} [] (live (rev es) {}) {({}, mInit m)} 0 s"
    "checkSingle fuel m es computePartial kill = checkLoop m computePartial kill (Some (length (rev es))) fuel 0 s"
  from checkLoop_decides [OF s(1,2), of fuel computePartial kill 0] assms(4) s(3) show ?thesis by simp
qed

section \<open>Backtracking through many lifts\<close>

fun liftAll :: "nat list \<Rightarrow> 'v heap \<Rightarrow> 'v heap res" where
  "liftAll [] h = Inr h"
| "liftAll (a # as) h = rbind (lift (Some a) h) (liftAll as)"

fun unliftAll :: "nat list \<Rightarrow> 'v heap \<Rightarrow> 'v heap res" where
  "unliftAll [] h = Inr h"
| "unliftAll (a # as) h = rbind (unlift (Some a) h) (unliftAll as)"

lemma unliftAll_append: "unliftAll (xs @ ys) h = rbind (unliftAll xs h) (unliftAll ys)"
proof (induction xs arbitrary: h)
  case (Cons a xs)
  then show ?case by (cases "unlift (Some a) h") simp_all
qed simp

text \<open>
  C12. Lifting and unlifting are inverse: starting from a list of entries with some operations
  taken out, the calls of any further operations can be lifted in any order; the entries of the
  remaining operations are then linked in their old order, and unlifting the same calls in the
  reverse order gives back exactly the heap there was before.
\<close>

theorem lifts_roundtrip:
  assumes "wf_rev rs" "dll h (length rs # live rs L)" "static rs h"
    and "distinct (map (idOf rs) as)" "\<forall>a \<in> set as. a < length rs \<and> isCall rs a \<and> idOf rs a \<notin> L"
  shows "\<exists>h'. liftAll as h = Inr h' \<and> dll h' (length rs # live rs (L \<union> idOf rs ` set as)) \<and>
     unliftAll (rev as) h' = Inr h"
  using assms(2-5)
proof (induction as arbitrary: h L)
  case (Cons a as)
  obtain ys zs where "live rs L = ys @ a # zs" using Cons.prems(4) live_iff split_list [of a "live rs L"] by fastforce
  then obtain h1 where h1: "lift (Some a) h = Inr h1" "unlift (Some a) h1 = Inr h"
    "dll h1 (length rs # live rs (insert (idOf rs a) L))" "static rs h1"
    using lift_live [OF assms(1) Cons.prems(1,2)] Cons.prems(4) by (metis list.set_intros(1))
  have "\<forall>c \<in> set as. c < length rs \<and> isCall rs c \<and> idOf rs c \<notin> insert (idOf rs a) L"
    using Cons.prems(3,4) by (simp add: image_iff) metis
  then obtain h' where "liftAll as h1 = Inr h'" "unliftAll (rev as) h' = Inr h1"
    "dll h' (length rs # live rs (insert (idOf rs a) L \<union> idOf rs ` set as))"
    using Cons.IH [OF h1(3,4)] Cons.prems(3) by auto
  with h1 show ?case by (auto simp: unliftAll_append)
qed simp

end
