(* ===== verification/Porcupine_Linear.thy ===== *)
theory Porcupine_Linear
  imports Porcupine_Search
begin

text \<open>
  What the checker decides. A history is linearizable for a model when its operations can be put
  in an order that the model can execute and in which no operation stands after one that was
  called only after it had returned. \<open>checkOperations_decides\<close> says that the checker, for any
  correct sorting function and any order in which the goroutines of the partitions finish, returns
  \<^verbatim>\<open>Ok\<close> exactly if every partition is linearizable, and \<^verbatim>\<open>Illegal\<close> otherwise.
\<close>

section \<open>Linearizability\<close>

fun legal :: "('v, 's) Model \<Rightarrow> 's \<Rightarrow> 'v Operation list \<Rightarrow> bool" where
  "legal m s [] \<longleftrightarrow> True"
| "legal m s (op # ops) \<longleftrightarrow>
     (case mStep m s (opInput op) (opOutput op) of Inr (True, s') \<Rightarrow> legal m s' ops | _ \<Rightarrow> False)"

definition linearizes :: "('v, 's) Model \<Rightarrow> 'v Operation list \<Rightarrow> 'v Operation list \<Rightarrow> bool" where
  "linearizes m history ops \<longleftrightarrow>
     mset ops = mset history \<and> sorted_wrt (\<lambda>a b. opCall a \<le> opReturn b) ops \<and> legal m (mInit m) ops"

definition linearizable :: "('v, 's) Model \<Rightarrow> 'v Operation list \<Rightarrow> bool" where
  "linearizable m history \<longleftrightarrow> (\<exists>ops. linearizes m history ops)"

text \<open>
  What \<^verbatim>\<open>sort.Sort\<close> promises for an order in which incomparability is transitive: a permutation in
  which no element is less than an earlier one. A sorting function that keeps the promise, for
  concrete inputs: insertion, which is also what Go's library does with a few elements.
\<close>

definition sorts :: "(('a \<Rightarrow> 'a \<Rightarrow> bool) \<Rightarrow> 'a list \<Rightarrow> 'a list) \<Rightarrow> bool" where
  "sorts sortBy \<longleftrightarrow> (\<forall>lt xs. asymp lt \<and> transp (\<lambda>x y. \<not> lt y x) \<longrightarrow>
     mset (sortBy lt xs) = mset xs \<and> sorted_wrt (\<lambda>x y. \<not> lt y x) (sortBy lt xs))"

fun insertBy :: "('a \<Rightarrow> 'a \<Rightarrow> bool) \<Rightarrow> 'a \<Rightarrow> 'a list \<Rightarrow> 'a list" where
  "insertBy lt x [] = [x]"
| "insertBy lt x (y # ys) = (if lt y x then y # insertBy lt x ys else x # y # ys)"

definition insertionSort :: "('a \<Rightarrow> 'a \<Rightarrow> bool) \<Rightarrow> 'a list \<Rightarrow> 'a list" where
  "insertionSort lt xs = foldr (insertBy lt) xs []"

lemma insertBy_mset [simp]: "mset (insertBy lt x ys) = add_mset x (mset ys)"
  by (induction ys) auto

lemma insertBy_sorted:
  assumes "asymp lt" "transp (\<lambda>x y. \<not> lt y x)" "sorted_wrt (\<lambda>x y. \<not> lt y x) ys"
  shows "sorted_wrt (\<lambda>x y. \<not> lt y x) (insertBy lt x ys)"
  using assms(3)
proof (induction ys)
  case (Cons y ys)
  have "set (insertBy lt x ys) = insert x (set ys)" by (metis insertBy_mset set_mset_add_mset_insert set_mset_mset)
  moreover have "\<not> lt x y" if "lt y x" using asympD [OF assms(1) that] .
  moreover have "\<not> lt z x" if "\<not> lt y x" "z \<in> set ys" for z
    using transpD [OF assms(2) that(1), of z] Cons.prems that(2) by simp
  ultimately show ?case using Cons by auto
qed simp

lemma insertionSort_mset: "mset (insertionSort lt xs) = mset xs"
  by (induction xs) (auto simp: insertionSort_def)

lemma insertionSort_sorted:
  assumes "asymp lt" "transp (\<lambda>x y. \<not> lt y x)"
  shows "sorted_wrt (\<lambda>x y. \<not> lt y x) (insertionSort lt xs)"
  by (induction xs) (auto simp: insertionSort_def intro: insertBy_sorted [OF assms])

lemma insertionSort_sorts: "sorts insertionSort"
  unfolding sorts_def using insertionSort_mset insertionSort_sorted by blast

section \<open>The entries of a history\<close>

definition callE :: "'v Operation list \<Rightarrow> nat \<Rightarrow> 'v entry" where
  "callE h i = \<lparr>enKind = callEntry, enValue = opInput (h ! i), enId = int i, enTime = opCall (h ! i), enClientId = opClientId (h ! i)\<rparr>"

definition retE :: "'v Operation list \<Rightarrow> nat \<Rightarrow> 'v entry" where
  "retE h i = \<lparr>enKind = returnEntry, enValue = opOutput (h ! i), enId = int i, enTime = opReturn (h ! i), enClientId = opClientId (h ! i)\<rparr>"

lemma entry_fields [simp]:
  "enKind (callE h i) = callEntry" "enValue (callE h i) = opInput (h ! i)" "enId (callE h i) = int i" "enTime (callE h i) = opCall (h ! i)"
  "enKind (retE h i) = returnEntry" "enValue (retE h i) = opOutput (h ! i)" "enId (retE h i) = int i" "enTime (retE h i) = opReturn (h ! i)"
  by (simp_all add: callE_def retE_def)

lemma entriesFrom_eq: "entriesFrom 0 h = concat (map (\<lambda>i. [callE h i, retE h i]) [0..<length h])"
proof -
  have "entriesFrom (int k) (drop k h) = concat (map (\<lambda>i. [callE h i, retE h i]) [k..<length h])" if "k \<le> length h" for k
    using that
  proof (induction "length h - k" arbitrary: k)
    case (Suc d)
    then have k: "k < length h" by simp
    have "drop k h = h ! k # drop (Suc k) h" using k by (simp add: Cons_nth_drop_Suc)
    moreover have "[k..<length h] = k # [Suc k..<length h]" using k by (rule upt_conv_Cons)
    moreover have "entriesFrom (int (Suc k)) (drop (Suc k) h) = concat (map (\<lambda>i. [callE h i, retE h i]) [Suc k..<length h])"
      using Suc by (intro Suc(1)) simp_all
    ultimately show ?case by (simp add: callE_def retE_def add.commute)
  qed simp
  from this [of 0] show ?thesis by simp
qed

text \<open>\<open>rs\<close> holds the entries of \<open>h\<close>, latest first.\<close>

definition describes :: "'v Operation list \<Rightarrow> 'v entry list \<Rightarrow> bool" where
  "describes h rs \<longleftrightarrow> mset rs = mset (entriesFrom 0 h) \<and> sorted_wrt (\<lambda>x y. \<not> byTimeLess x y) rs"

definition timely :: "'v Operation list \<Rightarrow> bool" where
  "timely h \<longleftrightarrow> list_all (\<lambda>op. opCall op \<le> opReturn op) h"

lemma byTime_order: "asymp byTimeLess" "transp (\<lambda>x y. \<not> byTimeLess y x)"
proof -
  show "asymp byTimeLess" by (rule asympI) (auto simp: byTimeLess_def split: if_splits)
  show "transp (\<lambda>x y. \<not> byTimeLess y x)"
    by (rule transpI) (auto simp: byTimeLess_def not_call_iff split: if_splits)
qed

lemma makeEntries_describes:
  assumes "sorts sortBy"
  shows "describes h (rev (makeEntries sortBy h))"
proof -
  have "mset (sortBy byTimeLess (entriesFrom 0 h)) = mset (entriesFrom 0 h) \<and>
     sorted_wrt (\<lambda>x y. \<not> byTimeLess y x) (sortBy byTimeLess (entriesFrom 0 h))"
    using assms byTime_order unfolding sorts_def by blast
  then show ?thesis by (simp add: describes_def makeEntries_def sorted_wrt_rev)
qed

lemma entriesFrom_set: "set (entriesFrom 0 h) = callE h ` {..<length h} \<union> retE h ` {..<length h}"
  by (auto simp: entriesFrom_eq)

lemma entriesFrom_length: "length (entriesFrom i h) = 2 * length h"
  by (induction h arbitrary: i) auto

lemma entriesFrom_distinct: "distinct (map (\<lambda>e. (enKind e, enId e)) (entriesFrom 0 h))"
proof -
  have "map (\<lambda>e. (enKind e, enId e)) (entriesFrom i h) =
      concat (map (\<lambda>k. [(callEntry, i + int k), (returnEntry, i + int k)]) [0..<length h])" for i
  proof (induction h arbitrary: i)
    case (Cons op h)
    have "[0..<length (op # h)] = 0 # map Suc [0..<length h]" by (simp add: upt_conv_Cons map_Suc_upt del: upt_Suc)
    with Cons [of "i + 1"] show ?case by (simp add: o_def algebra_simps)
  qed simp
  moreover have "distinct (concat (map (\<lambda>k. [(callEntry, int k), (returnEntry, int k)]) [0..<n]))" for n
    by (induction n) auto
  ultimately show ?thesis by simp
qed

lemma describes_set: "describes h rs \<Longrightarrow> set rs = callE h ` {..<length h} \<union> retE h ` {..<length h}"
  unfolding describes_def using entriesFrom_set [of h] mset_eq_setD by metis

lemma describes_length: "describes h rs \<Longrightarrow> length rs = 2 * length h"
  unfolding describes_def using entriesFrom_length [of 0 h] mset_eq_length by metis

text \<open>Entries that are ordered in time are in this order in the history.\<close>

lemma describes_order:
  assumes "describes h rs" "a < length rs" "b < length rs" "byTimeLess (rs ! b) (rs ! a)"
  shows "a < b"
proof (rule ccontr)
  assume "\<not> a < b"
  moreover have "a \<noteq> b" using assms(4) byTime_order(1) by (metis asympD)
  ultimately have "b < a" by simp
  then show False using assms by (auto simp: describes_def sorted_wrt_iff_nth_less)
qed

lemma describes_nth:
  assumes "describes h rs" "a < length rs"
  obtains i where "i < length h" "rs ! a = callE h i" | i where "i < length h" "rs ! a = retE h i"
  using describes_set [OF assms(1)] nth_mem [OF assms(2)] by auto

lemma describes_call:
  assumes "describes h rs" "i < length h"
  obtains a where "a < length rs" "rs ! a = callE h i"
  using describes_set [OF assms(1)] assms(2) by (metis UnCI image_eqI in_set_conv_nth lessThan_iff)

lemma describes_ret:
  assumes "describes h rs" "i < length h"
  obtains a where "a < length rs" "rs ! a = retE h i"
  using describes_set [OF assms(1)] assms(2) by (metis UnCI image_eqI in_set_conv_nth lessThan_iff)

lemma describes_pair:
  assumes "describes h rs" "timely h" "i < length h" "a < length rs" "rs ! a = callE h i" "b < length rs" "rs ! b = retE h i"
  shows "b < a"
proof -
  have "byTimeLess (callE h i) (retE h i)"
    using assms(2,3) by (auto simp: byTimeLess_def timely_def list_all_length)
  then show ?thesis using describes_order [OF assms(1,6,4)] assms(5,7) by simp
qed

lemma describes_distinct:
  assumes "describes h rs"
  shows "distinct (map (\<lambda>e. (enKind e, enId e)) rs)"
proof -
  have "mset (map (\<lambda>e. (enKind e, enId e)) rs) = mset (map (\<lambda>e. (enKind e, enId e)) (entriesFrom 0 h))"
    using assms by (simp add: describes_def)
  from mset_eq_imp_distinct_iff [OF this] show ?thesis using entriesFrom_distinct [of h] by simp
qed

lemma describes_wf:
  assumes "describes h rs" "timely h"
  shows "wf_rev rs"
  unfolding wf_rev_def
proof (intro conjI allI impI)
  fix a b
  assume "a < length rs" "b < length rs" "enKind (rs ! a) = enKind (rs ! b) \<and> enId (rs ! a) = enId (rs ! b)"
  with describes_distinct [OF assms(1)] show "a = b" by (auto simp: distinct_conv_nth)
next
  fix a
  assume a: "a < length rs"
  show "0 \<le> enId (rs ! a)" "enId (rs ! a) < int (length rs div 2)"
    using describes_length [OF assms(1)] by (cases rule: describes_nth [OF assms(1) a]; simp)+
next
  fix a
  assume a: "a < length rs" "isCall rs a"
  show "\<exists>b < a. \<not> isCall rs b \<and> enId (rs ! b) = enId (rs ! a)"
  proof (cases rule: describes_nth [OF assms(1) a(1)])
    case (1 i)
    obtain b where b: "b < length rs" "rs ! b = retE h i" using describes_ret [OF assms(1) 1(1)] .
    with describes_pair [OF assms 1(1) a(1) 1(2) b] 1(2) show ?thesis
      by (intro exI [of _ b]) (simp add: isCall_def)
  next
    case (2 i)
    with a(2) show ?thesis by (simp add: isCall_def)
  qed
next
  fix b
  assume b: "b < length rs" "\<not> isCall rs b"
  show "\<exists>a < length rs. b < a \<and> isCall rs a \<and> enId (rs ! a) = enId (rs ! b)"
  proof (cases rule: describes_nth [OF assms(1) b(1)])
    case (1 i)
    with b(2) show ?thesis by (simp add: isCall_def)
  next
    case (2 i)
    obtain a where a: "a < length rs" "rs ! a = callE h i" using describes_call [OF assms(1) 2(1)] .
    with describes_pair [OF assms 2(1) a b(1) 2(2)] 2(2) show ?thesis
      by (intro exI [of _ a]) (simp add: isCall_def)
  qed
qed

section \<open>The search finds the linearizations\<close>

text \<open>The operations with the identifiers \<open>xs\<close>, in this order, are a linearization from \<open>s\<close> on.\<close>

definition order_ok :: "('v, 's) Model \<Rightarrow> 'v Operation list \<Rightarrow> 's \<Rightarrow> nat list \<Rightarrow> bool" where
  "order_ok m h s xs \<longleftrightarrow> sorted_wrt (\<lambda>i j. opCall (h ! i) \<le> opReturn (h ! j)) xs \<and> legal m s (map (\<lambda>i. h ! i) xs)"

lemma takeWhile_before:
  assumes "sorted_wrt (>) (xs :: nat list)" "a \<in> set (takeWhile P xs)" "b \<in> set xs" "\<not> P b"
  shows "b < a"
proof -
  have "b \<in> set (dropWhile P xs)"
    using assms(3,4) set_takeWhileD by (metis Un_iff set_append takeWhile_dropWhile_id)
  moreover have "sorted_wrt (>) (takeWhile P xs @ dropWhile P xs)" using assms(1) by simp
  ultimately show ?thesis using assms(2) unfolding sorted_wrt_append by blast
qed

lemma stepAt_describes:
  assumes "describes h rs" "timely h" "a < length rs" "rs ! a = callE h i" "i < length h"
  shows "stepAt m rs a s = mStep m s (opInput (h ! i)) (opOutput (h ! i))" "idOf rs a = i" "isCall rs a"
proof -
  show "idOf rs a = i" "isCall rs a" using assms(4) by (simp_all add: idOf_def isCall_def)
  obtain b where b: "mate rs a = Some b" "b < a" "\<not> isCall rs b" "enId (rs ! b) = enId (rs ! a)"
    using mate_exists [OF describes_wf [OF assms(1,2)] assms(3)] \<open>isCall rs a\<close> by blast
  have bl: "b < length rs" using b(2) assms(3) by simp
  have "rs ! b = retE h i"
  proof (cases rule: describes_nth [OF assms(1) bl])
    case (1 k)
    with b(3) show ?thesis by (simp add: isCall_def)
  next
    case (2 k)
    with b(4) assms(4) show ?thesis by simp
  qed
  with b(1) assms(4) show "stepAt m rs a s = mStep m s (opInput (h ! i)) (opOutput (h ! i))" by (simp add: stepAt_def)
qed

lemma completable_order:
  assumes "describes h rs" "timely h" "completable m rs L s"
  shows "\<exists>xs. distinct xs \<and> set xs = {..<length h} - L \<and> order_ok m h s xs"
  using assms(3)
proof (induction rule: completable.induct)
  case (finished L s)
  have "{..<length h} - L = {}"
  proof (rule ccontr)
    assume "{..<length h} - L \<noteq> {}"
    then obtain i where i: "i < length h" "i \<notin> L" by auto
    obtain a where "a < length rs" "rs ! a = callE h i" using describes_call [OF assms(1) i(1)] .
    then have "a \<in> set (live rs L)" using i by (simp add: live_iff idOf_def)
    with finished show False by simp
  qed
  then show ?case by (intro exI [of _ "[]"]) (simp add: order_ok_def)
next
  case (linearize a L s s')
  then obtain xs where xs: "distinct xs" "set xs = {..<length h} - insert (idOf rs a) L" "order_ok m h s' xs" by blast
  have a: "a < length rs" "idOf rs a \<notin> L" "isCall rs a"
    using linearize.hyps(1) set_takeWhileD [OF linearize.hyps(1)] live_iff [of a rs L] by auto
  obtain i where i: "i < length h" "rs ! a = callE h i"
    by (cases rule: describes_nth [OF assms(1) a(1)]) (use a(3) in \<open>auto simp: isCall_def\<close>)
  note st = stepAt_describes(1) [OF assms(1,2) a(1) i(2,1), of m s] stepAt_describes(2,3) [OF assms(1,2) a(1) i(2,1)]
  have "opCall (h ! i) \<le> opReturn (h ! j)" if "j \<in> set xs" for j
  proof (rule ccontr)
    assume "\<not> opCall (h ! i) \<le> opReturn (h ! j)"
    then have less: "byTimeLess (retE h j) (callE h i)" by (auto simp: byTimeLess_def)
    have j: "j < length h" "j \<notin> L" using that xs(2) by auto
    obtain b where b: "b < length rs" "rs ! b = retE h j" using describes_ret [OF assms(1) j(1)] .
    have "a < b" using describes_order [OF assms(1) a(1) b(1)] less i(2) b(2) by simp
    moreover have "b \<in> set (live rs L)" "\<not> isCall rs b" using b j by (simp_all add: live_iff idOf_def isCall_def)
    ultimately show False using takeWhile_before [OF live_sorted linearize.hyps(1)] by fastforce
  qed
  then have "order_ok m h s (i # xs)" using xs(3) linearize.hyps(2) st(1) by (simp add: order_ok_def)
  moreover have "set (i # xs) = {..<length h} - L" "distinct (i # xs)" using xs i(1) a(2) st(2) by auto
  ultimately show ?case by blast
qed

lemma order_completable:
  assumes "describes h rs" "timely h" "distinct xs" "set xs = {..<length h} - L" "order_ok m h s xs"
  shows "completable m rs L s"
  using assms(3-5)
proof (induction xs arbitrary: L s)
  case Nil
  have "idOf rs a \<in> L" if "a < length rs" for a
    using id_below [OF describes_wf [OF assms(1,2)] that] describes_length [OF assms(1)] Nil.prems(2) by auto
  then have "live rs L = []" by (auto simp: live_def filter_empty_conv)
  then show ?case by (rule completable.finished)
next
  case (Cons i xs)
  have i: "i < length h" "i \<notin> L" using Cons.prems(2) by auto
  obtain a where a: "a < length rs" "rs ! a = callE h i" using describes_call [OF assms(1) i(1)] .
  note st = stepAt_describes(1) [OF assms(1,2) a i(1), of m s] stepAt_describes(2,3) [OF assms(1,2) a i(1)]
  obtain s' where s': "mStep m s (opInput (h ! i)) (opOutput (h ! i)) = Inr (True, s')" "legal m s' (map (\<lambda>i. h ! i) xs)"
    using Cons.prems(3) by (auto simp: order_ok_def split: sum.splits prod.splits bool.splits)
  have "a \<in> set (live rs L)" using a i st by (simp add: live_iff)
  then obtain ys zs where l: "live rs L = ys @ a # zs" using split_list by metis
  have "isCall rs b" if "b \<in> set ys" for b
  proof (rule ccontr)
    assume nc: "\<not> isCall rs b"
    have b: "b < length rs" "idOf rs b \<notin> L" "a < b"
      using that l live_iff [of b rs L] live_sorted [of rs L] by (auto simp: sorted_wrt_append)
    from b(1) obtain j where j: "j < length h" "rs ! b = retE h j"
      by (cases rule: describes_nth [OF assms(1)]) (use nc in \<open>auto simp: isCall_def\<close>)
    then have "j \<in> set (i # xs)" using b(2) Cons.prems(2) by (auto simp: idOf_def)
    moreover have "j \<noteq> i" using describes_pair [OF assms(1,2) i(1) a b(1)] j(2) b(3) by auto
    ultimately have "opCall (h ! i) \<le> opReturn (h ! j)" using Cons.prems(3) by (auto simp: order_ok_def)
    then have "byTimeLess (callE h i) (retE h j)" by (auto simp: byTimeLess_def)
    then have "b < a" using describes_order [OF assms(1) b(1) a(1)] a(2) j(2) by simp
    with b(3) show False by simp
  qed
  then have "a \<in> set (takeWhile (isCall rs) (live rs L))" using l st(3) by (auto simp: takeWhile_append)
  moreover have "completable m rs (insert (idOf rs a) L) s'"
    using Cons.prems s'(2) st(2) by (intro Cons.IH) (auto simp: order_ok_def)
  ultimately show ?case using st(1) s'(1) by (metis completable.linearize)
qed

text \<open>A list with the elements of \<open>h\<close> visits the indices of \<open>h\<close> in some order.\<close>

lemma mset_eq_indices:
  "mset ops = mset h \<Longrightarrow> \<exists>xs. distinct xs \<and> set xs = {..<length h} \<and> map (\<lambda>i. h ! i) xs = ops"
proof (induction ops arbitrary: h)
  case Nil
  then show ?case by (intro exI [of _ "[]"]) simp
next
  case (Cons op ops)
  then have "op \<in> set h" by (metis list.set_intros(1) mset_eq_setD)
  then obtain A B where h: "h = A @ op # B" using split_list by metis
  with Cons.prems have "mset ops = mset (A @ B)" by simp
  from Cons.IH [OF this] obtain xs where xs: "distinct xs" "set xs = {..<length (A @ B)}" "map (\<lambda>i. (A @ B) ! i) xs = ops"
    by blast
  define f where "f i = (if i < length A then i else Suc i)" for i
  have "inj_on f (set xs)" by (auto simp: inj_on_def f_def split: if_splits)
  then have "distinct (map f xs)" using xs(1) by (simp add: distinct_map)
  moreover have "f ` {..<length (A @ B)} = {..<length h} - {length A}"
  proof (intro set_eqI iffI)
    fix j
    assume "j \<in> {..<length h} - {length A}"
    then show "j \<in> f ` {..<length (A @ B)}"
      using h by (intro image_eqI [of _ _ "if j < length A then j else j - 1"]) (auto simp: f_def)
  qed (auto simp: f_def h split: if_splits)
  moreover have "map (\<lambda>i. h ! f i) xs = ops"
    unfolding xs(3) [symmetric] using xs(2) h by (auto simp: nth_append f_def)
  ultimately show ?case
    using h xs(2) by (intro exI [of _ "length A # map f xs"]) (auto simp: o_def)
qed

lemma order_linearizable:
  "linearizable m h \<longleftrightarrow> (\<exists>xs. distinct xs \<and> set xs = {..<length h} \<and> order_ok m h (mInit m) xs)"
proof
  assume "linearizable m h"
  then obtain ops where ops: "mset ops = mset h" "sorted_wrt (\<lambda>a b. opCall a \<le> opReturn b) ops" "legal m (mInit m) ops"
    by (auto simp: linearizable_def linearizes_def)
  from mset_eq_indices [OF ops(1)] obtain xs where xs: "distinct xs" "set xs = {..<length h}" "map (\<lambda>i. h ! i) xs = ops"
    by blast
  have "order_ok m h (mInit m) xs"
    using ops(2,3) unfolding xs(3) [symmetric] order_ok_def by (simp add: sorted_wrt_map)
  with xs(1,2) show "\<exists>xs. distinct xs \<and> set xs = {..<length h} \<and> order_ok m h (mInit m) xs" by blast
next
  assume "\<exists>xs. distinct xs \<and> set xs = {..<length h} \<and> order_ok m h (mInit m) xs"
  then obtain xs where xs: "distinct xs" "set xs = {..<length h}" "order_ok m h (mInit m) xs" by blast
  have "mset xs = mset [0..<length h]"
    using xs(1,2) set_eq_iff_mset_eq_distinct [of xs "[0..<length h]"] by (simp add: lessThan_atLeast0)
  then have "mset (map (\<lambda>i. h ! i) xs) = mset (map (\<lambda>i. h ! i) [0..<length h])" unfolding mset_map by (rule arg_cong)
  then have "mset (map (\<lambda>i. h ! i) xs) = mset h" unfolding map_nth .
  then have "linearizes m h (map (\<lambda>i. h ! i) xs)"
    using xs(3) by (simp add: linearizes_def order_ok_def sorted_wrt_map)
  then show "linearizable m h" unfolding linearizable_def by blast
qed

lemma completable_linearizable:
  assumes "describes h rs" "timely h"
  shows "completable m rs {} (mInit m) \<longleftrightarrow> linearizable m h"
  unfolding order_linearizable
  using completable_order [OF assms, of m "{}" "mInit m"] order_completable [OF assms, of _ "{}" m "mInit m"] by auto

section \<open>The checker\<close>

text \<open>The model's steps do not panic on the values of a history.\<close>

definition stepsTotal :: "('v, 's) Model \<Rightarrow> 'v Operation list \<Rightarrow> bool" where
  "stepsTotal m h \<longleftrightarrow> (\<forall>op \<in> set h. \<forall>s. \<exists>r. mStep m s (opInput op) (opOutput op) = Inr r)"

definition checkBound :: "'v Operation list \<Rightarrow> nat" where
  "checkBound h = searchBound (2 * length h)"

lemma stepsTotal_stepOK:
  assumes "describes h rs" "timely h" "stepsTotal m h"
  shows "stepOK m rs"
  unfolding stepOK_def
proof (intro allI impI)
  fix a s
  assume a: "a < length rs \<and> isCall rs a"
  then obtain i where i: "i < length h" "rs ! a = callE h i"
    using describes_nth [OF assms(1), of a] by (metis entry_fields(5) entryKind.distinct(1) isCall_def)
  show "\<exists>r. stepAt m rs a s = Inr r"
    using stepAt_describes(1) [OF assms(1,2) _ i(2,1), of m s] a assms(3) i(1) by (simp add: stepsTotal_def)
qed

lemma checkSingle_linearizable:
  assumes "sorts sortBy" "timely h" "equalOK m" "stepsTotal m h" "checkBound h \<le> fuel"
  shows "\<exists>r. checkSingle fuel m (makeEntries sortBy h) computePartial kill = Inr (Some r) \<and>
     (fst r \<longrightarrow> linearizable m h) \<and> ((\<forall>j. \<not> kill j) \<and> linearizable m h \<longrightarrow> fst r)"
proof -
  let ?es = "makeEntries sortBy h"
  note d = makeEntries_describes [OF assms(1), of h]
  have "length ?es = 2 * length h" using describes_length [OF d] by simp
  then show ?thesis
    using checkSingle_decides [OF describes_wf [OF d assms(2)] assms(3) stepsTotal_stepOK [OF d assms(2,4)], of fuel computePartial kill]
      completable_linearizable [OF d assms(2), of m] assms(5) by (simp add: checkBound_def)
qed

text \<open>The loop over the results of the goroutines, in any order, without a timeout.\<close>

lemma selectLoop_results:
  assumes "is \<noteq> []" "cnt + length is = length results"
  shows "selectLoop results computeInfo ok cnt (map Result is) = Some (ok \<and> (\<forall>i \<in> set is. results ! i), False)"
  using assms
proof (induction "is" arbitrary: ok cnt)
  case (Cons i "is")
  show ?case
  proof (cases "is = []")
    case True
    with Cons.prems show ?thesis by (simp add: Let_def)
  next
    case False
    with Cons.prems have "\<not> length results \<le> Suc cnt" by (cases "is") auto
    with Cons.IH [OF False, of "Suc cnt" "ok \<and> results ! i"] Cons.prems show ?thesis
      by (cases "ok \<and> results ! i"; cases computeInfo) (auto simp: Let_def)
  qed
qed simp

text \<open>Computations that all return give the list of their results.\<close>

lemma mapR_Some:
  assumes "\<And>x. x \<in> set xs \<Longrightarrow> \<exists>r. f x = Inr (Some r)"
  shows "\<exists>rs. mapR f xs = Inr (map Some rs) \<and> length rs = length xs \<and> (\<forall>k < length xs. f (xs ! k) = Inr (Some (rs ! k)))"
proof -
  have "\<forall>x \<in> set xs. \<exists>r. f x = Inr (Some r)" using assms by blast
  then obtain g where g: "\<And>x. x \<in> set xs \<Longrightarrow> f x = Inr (Some (g x))" by metis
  then have "mapR f xs = Inr (map (\<lambda>x. Some (g x)) xs)" by (rule mapR_total)
  with g show ?thesis by (intro exI [of _ "map g xs"]) (auto simp: o_def)
qed

lemma checkParallel_decides:
  assumes "sorts sortBy" "equalOK m" "hs \<noteq> []"
    and "\<And>h. h \<in> set hs \<Longrightarrow> timely h \<and> stepsTotal m h \<and> checkBound h \<le> fuel"
    and "mset is = mset [0..<length hs]"
  shows "\<exists>info. checkParallel fuel m (map (makeEntries sortBy) hs) computeInfo (map Result is) stopped =
     Inr (Some (if \<forall>h \<in> set hs. linearizable m h then Ok else Illegal, info))"
proof -
  let ?es = "map (makeEntries sortBy) hs"
  have run: "\<exists>r. checkSingle fuel m (makeEntries sortBy h) computeInfo kill = Inr (Some r) \<and>
     ((\<forall>j. \<not> kill j) \<longrightarrow> (fst r \<longleftrightarrow> linearizable m h))" if "h \<in> set hs" for h kill
    using checkSingle_linearizable [OF assms(1) _ assms(2), of h fuel computeInfo kill] assms(4) [OF that] by auto
  have "\<exists>r. checkSingle fuel m x computeInfo (\<lambda>_. False) = Inr (Some r)" if "x \<in> set ?es" for x
    using that run [of _ "\<lambda>_. False"] by fastforce
  from mapR_Some [of ?es "\<lambda>sub. checkSingle fuel m sub computeInfo (\<lambda>_. False)", OF this] obtain runs where runs: "mapR (\<lambda>sub. checkSingle fuel m sub computeInfo (\<lambda>_. False)) ?es = Inr (map Some runs)"
    "length runs = length hs"
    "\<And>k. k < length hs \<Longrightarrow> checkSingle fuel m (?es ! k) computeInfo (\<lambda>_. False) = Inr (Some (runs ! k))"
    by auto
  have res: "fst (runs ! k) \<longleftrightarrow> linearizable m (hs ! k)" if "k < length hs" for k
    using run [of "hs ! k" "\<lambda>_. False"] runs(3) [OF that] that by auto
  have "\<exists>r. (case x of (i, sub) \<Rightarrow> checkSingle fuel m sub computeInfo (stopped i)) = Inr (Some r)"
    if x: "x \<in> set (enumerate 0 ?es)" for x
  proof -
    have "fst x < length hs" "snd x = makeEntries sortBy (hs ! fst x)"
      using in_set_enumerate_eq [THEN iffD1, OF x] by auto
    with run [of "hs ! fst x" "stopped (fst x)"] show ?thesis by (auto simp: case_prod_unfold)
  qed
  from mapR_Some [of "enumerate 0 ?es" "\<lambda>(i, sub). checkSingle fuel m sub computeInfo (stopped i)", OF this]
  obtain stops where stops: "mapR (\<lambda>(i, sub). checkSingle fuel m sub computeInfo (stopped i)) (enumerate 0 ?es) = Inr (map Some stops)"
    by blast
  have l: "length is = length hs" "set is = {..<length hs}"
    using mset_eq_length [OF assms(5)] mset_eq_setD [OF assms(5)] by (simp_all add: lessThan_atLeast0)
  have "is \<noteq> []" using l(1) assms(3) by (cases hs) auto
  then have "selectLoop (map fst runs) computeInfo True 0 (map Result is) = Some (\<forall>i < length hs. linearizable m (hs ! i), False)"
    using selectLoop_results [of "is" 0 "map fst runs" computeInfo True] l runs(2) res by auto
  then have sel: "selectLoop (map (\<lambda>r. fst (the r)) (map Some runs)) computeInfo True 0 (map Result is) =
      Some (\<forall>h \<in> set hs. linearizable m h, False)"
    by (simp add: o_def all_set_conv_all_nth)
  show ?thesis
    unfolding checkParallel_def runs(1) stops rbind_simps sel by (simp add: Let_def)
qed

section \<open>The decision\<close>

lemma fillDefault_simps [simp]:
  "mInit (fillDefault m) = mInit m" "mStep (fillDefault m) = mStep m"
  "mEqual (fillDefault m) = Some (case mEqual m of None \<Rightarrow> ShallowEqual | Some e \<Rightarrow> e)"
  "mPartition (fillDefault m) = Some (case mPartition m of None \<Rightarrow> NoPartition | Some p \<Rightarrow> p)"
  by (simp_all add: fillDefault_def Let_def split: option.split)

lemma legal_fillDefault [simp]: "legal (fillDefault m) s ops = legal m s ops"
  by (induction ops arbitrary: s) (auto split: sum.split bool.splits)

lemma linearizable_fillDefault [simp]: "linearizable (fillDefault m) h = linearizable m h"
  by (simp add: linearizable_def linearizes_def)

lemma stepsTotal_fillDefault [simp]: "stepsTotal (fillDefault m) h = stepsTotal m h"
  by (simp add: stepsTotal_def)

lemma equalOK_default: "mEqual m = None \<Longrightarrow> equalOK (fillDefault m)"
  by (auto simp: equalOK_def ShallowEqual_def sum.rel_refl prod.rel_refl)

text \<open>
  C9. The checker decides linearizability: for every model whose steps do not panic on the
  history and whose equality relates only states that behave alike, every sorting function that
  sorts, and every order in which the goroutines of the partitions send their results, the check
  returns, without a panic and within the stated number of rounds, \<^verbatim>\<open>Ok\<close> if every partition is
  linearizable and \<^verbatim>\<open>Illegal\<close> otherwise; the cache, the bit sets and the taking apart of the
  linked list never change the answer.
\<close>

theorem check_operations_decides:
  assumes "sorts sortBy" "equalOK (fillDefault m)"
    and "the (mPartition (fillDefault m)) h = Inr hs" "hs \<noteq> []"
    and "\<forall>p \<in> set hs. timely p \<and> stepsTotal m p \<and> checkBound p \<le> fuel"
    and "mset is = mset [0..<length hs]"
  shows "\<exists>info. checkOperations sortBy fuel m h verbose (map Result is) stopped =
     Inr (Some (if \<forall>p \<in> set hs. linearizable m p then Ok else Illegal, info))"
  unfolding checkOperations_def Let_def assms(3) rbind_simps
  using checkParallel_decides [OF assms(1,2,4) _ assms(6), of fuel verbose stopped] assms(5) by simp

text \<open>The select loop waits for a first result also when there is nothing to check: an empty
  history of a model that partitions it into no parts is never answered.\<close>

lemma empty_history_hangs:
  assumes "the (mPartition (fillDefault m)) [] = Inr []"
  shows "checkOperations sortBy fuel m [] verbose [] stopped = Inr None"
  unfolding checkOperations_def Let_def assms rbind_simps by (simp add: checkParallel_def)

end
