(* ===== verification/KV_Model.thy ===== *)
theory KV_Model
  imports Porcupine_Linear "HOL-Library.AList" "HOL-Library.List_Lexorder" "HOL-Library.Char_ord"
begin

text \<open>
  The sequential specification of the key/value store that the tests give to the checker,
  \<^verbatim>\<open>test_files/models/kv.go\<close>. It describes one key; the checker partitions a history by key. The
  partitioning is justified here: a history is linearizable as a history of the whole store
  exactly if its part on every key is linearizable as a history of one value. With the theorem on
  the checker this says what a test that ends with \<^verbatim>\<open>Ok\<close> or \<^verbatim>\<open>Illegal\<close> has established.
\<close>

section \<open>The model\<close>

record KvInput =
  kiOp :: "8 word"
  kiKey :: string
  kiValue :: string

record KvOutput =
  koValue :: string

datatype kv_val = VIn KvInput | VOut KvOutput

text \<open>The type assertions \<^verbatim>\<open>v.(KvInput)\<close> and \<^verbatim>\<open>v.(KvOutput)\<close>.\<close>

definition asKvInput :: "kv_val iface \<Rightarrow> KvInput res" where
  "asKvInput v = (case v of Some (VIn i) \<Rightarrow> Inr i | _ \<Rightarrow> Inl (Panic ''interface conversion''))"

definition asKvOutput :: "kv_val iface \<Rightarrow> KvOutput res" where
  "asKvOutput v = (case v of Some (VOut r) \<Rightarrow> Inr r | _ \<Rightarrow> Inl (Panic ''interface conversion''))"

definition mget :: "(string \<times> 'a list) list \<Rightarrow> string \<Rightarrow> 'a list" where
  "mget m k = (case map_of m k of None \<Rightarrow> [] | Some l \<Rightarrow> l)"

fun groupByKey ::
    "(string \<times> kv_val Operation list) list \<Rightarrow> kv_val Operation list \<Rightarrow> (string \<times> kv_val Operation list) list res" where
  "groupByKey m [] = Inr m"
| "groupByKey m (v # history) =
     rbind (asKvInput (opInput v)) (\<lambda>inp. groupByKey (AList.update (kiKey inp) (mget m (kiKey inp) @ [v]) m) history)"

definition kvPartition :: "kv_val Operation list \<Rightarrow> kv_val Operation list list res" where
  "kvPartition history =
     rbind (groupByKey [] history) (\<lambda>m. let keys = sort (map fst m) in Inr (map (mget m) keys))"

definition kvStep :: "string \<Rightarrow> kv_val iface \<Rightarrow> kv_val iface \<Rightarrow> (bool \<times> string) res" where
  "kvStep st input output =
     rbind (asKvInput input) (\<lambda>inp. rbind (asKvOutput output) (\<lambda>out.
       Inr (if kiOp inp = 0 then (koValue out = st, st)
            else if kiOp inp = 1 then (True, kiValue inp)
            else (True, st @ kiValue inp))))"

definition KvModel :: "(kv_val, string) Model" where
  "KvModel = \<lparr>mPartition = Some kvPartition, mPartitionEvent = None, mInit = '''', mStep = kvStep, mEqual = None\<rparr>"

section \<open>The whole store\<close>

text \<open>The specification the partitioning stands for: every key has a value, at first the empty one.\<close>

definition storeStep :: "(string \<Rightarrow> string) \<Rightarrow> kv_val iface \<Rightarrow> kv_val iface \<Rightarrow> (bool \<times> (string \<Rightarrow> string)) res" where
  "storeStep st input output =
     rbind (asKvInput input) (\<lambda>inp. rbind (kvStep (st (kiKey inp)) input output) (\<lambda>(ok, v).
       Inr (ok, st(kiKey inp := v))))"

definition storeModel :: "(kv_val, string \<Rightarrow> string) Model" where
  "storeModel = \<lparr>mPartition = None, mPartitionEvent = None, mInit = (\<lambda>_. ''''), mStep = storeStep, mEqual = None\<rparr>"

lemma model_inits [simp]: "mInit KvModel = []" "mInit storeModel = (\<lambda>_. [])"
  by (simp_all add: KvModel_def storeModel_def)

definition keyOf :: "kv_val Operation \<Rightarrow> string" where
  "keyOf op = (case opInput op of Some (VIn i) \<Rightarrow> kiKey i | _ \<Rightarrow> '''')"

definition typed :: "kv_val Operation list \<Rightarrow> bool" where
  "typed h \<longleftrightarrow> list_all (\<lambda>op. (case opInput op of Some (VIn i) \<Rightarrow> True | _ \<Rightarrow> False) \<and>
     (case opOutput op of Some (VOut r) \<Rightarrow> True | _ \<Rightarrow> False)) h"

definition onKey :: "string \<Rightarrow> kv_val Operation list \<Rightarrow> kv_val Operation list" where
  "onKey k h = filter (\<lambda>op. keyOf op = k) h"

lemma typed_Cons [simp]:
  "typed (op # h) \<longleftrightarrow> (\<exists>i r. opInput op = Some (VIn i) \<and> opOutput op = Some (VOut r)) \<and> typed h"
  by (auto simp: typed_def split: option.splits kv_val.splits)

lemma typed_mset: "mset h = mset h' \<Longrightarrow> typed h \<Longrightarrow> typed h'"
  unfolding typed_def list_all_iff by (metis mset_eq_setD)

text \<open>A sequence is legal for the store exactly if it is legal on every key.\<close>

lemma legal_store:
  "typed ops \<Longrightarrow> legal storeModel st ops \<longleftrightarrow> (\<forall>k. legal KvModel (st k) (onKey k ops))"
proof (induction ops arbitrary: st)
  case Nil
  then show ?case by (simp add: onKey_def)
next
  case (Cons op ops)
  then obtain i r where io: "opInput op = Some (VIn i)" "opOutput op = Some (VOut r)" by auto
  then have key: "keyOf op = kiKey i" by (simp add: keyOf_def)
  have "\<exists>p. kvStep (st (kiKey i)) (opInput op) (opOutput op) = Inr p"
    by (simp add: kvStep_def io asKvInput_def asKvOutput_def)
  then obtain ok v where kv: "kvStep (st (kiKey i)) (opInput op) (opOutput op) = Inr (ok, v)" by auto
  have store: "legal storeModel st (op # ops) \<longleftrightarrow> ok \<and> legal storeModel (st(kiKey i := v)) ops"
    using kv by (cases ok) (simp_all add: storeModel_def storeStep_def io asKvInput_def)
  have one: "legal KvModel (st k) (onKey k (op # ops)) \<longleftrightarrow>
     (if k = kiKey i then ok \<and> legal KvModel v (onKey k ops) else legal KvModel (st k) (onKey k ops))" for k
    using kv key by (cases ok) (auto simp: onKey_def KvModel_def)
  have "typed ops" using Cons.prems by simp
  note IH = Cons.IH [OF this, of "st(kiKey i := v)"]
  show ?case unfolding store one IH by (auto simp: fun_upd_apply split: if_splits)
qed

section \<open>Locality\<close>

lemma linearizable_onKey:
  assumes "typed h" "linearizable storeModel h"
  shows "linearizable KvModel (onKey k h)"
proof -
  obtain ops where ops: "mset ops = mset h" "sorted_wrt (\<lambda>a b. opCall a \<le> opReturn b) ops"
    "legal storeModel (mInit storeModel) ops"
    using assms(2) by (auto simp: linearizable_def linearizes_def)
  have "typed ops" using typed_mset [OF ops(1) [symmetric] assms(1)] .
  then have "legal KvModel (mInit KvModel) (onKey k ops)"
    using ops(3) legal_store [of ops "mInit storeModel"] by simp
  moreover have "mset (onKey k ops) = mset (onKey k h)" using ops(1) by (simp add: onKey_def)
  moreover have "sorted_wrt (\<lambda>a b. opCall a \<le> opReturn b) (onKey k ops)"
    using ops(2) by (simp add: onKey_def sorted_wrt_filter)
  ultimately show ?thesis unfolding linearizable_def linearizes_def by blast
qed

text \<open>
  Conversely, each operation of a linearization gets a point in time: the latest call up to it.
  The points lie within the operations and grow along the linearization, so sorting the
  operations of all keys by their points merges the linearizations of the keys.
\<close>

fun stamp :: "int \<Rightarrow> kv_val Operation list \<Rightarrow> (int \<times> kv_val Operation) list" where
  "stamp c [] = []"
| "stamp c (op # ops) = (max c (opCall op), op) # stamp (max c (opCall op)) ops"

lemma stamp_ops [simp]: "map snd (stamp c ops) = ops"
  by (induction ops arbitrary: c) auto

lemma stamp_lower: "\<forall>p \<in> set (stamp c ops). c \<le> fst p \<and> opCall (snd p) \<le> fst p"
  by (induction ops arbitrary: c) fastforce+

lemma stamp_sorted: "sorted (map fst (stamp c ops))"
proof (induction ops arbitrary: c)
  case (Cons op ops)
  then show ?case using stamp_lower [of "max c (opCall op)" ops] by auto
qed simp

lemma stamp_upper:
  assumes "sorted_wrt (\<lambda>a b. opCall a \<le> opReturn b) ops" "timely ops" "\<forall>op \<in> set ops. c \<le> opReturn op"
  shows "\<forall>p \<in> set (stamp c ops). fst p \<le> opReturn (snd p)"
  using assms
proof (induction ops arbitrary: c)
  case (Cons op ops)
  then show ?case using Cons.IH [of "max c (opCall op)"] by (auto simp: timely_def)
qed simp

definition stamps :: "kv_val Operation list \<Rightarrow> (int \<times> kv_val Operation) list" where
  "stamps ops = stamp (opCall (hd ops)) ops"

lemma stamps_within:
  assumes "sorted_wrt (\<lambda>a b. opCall a \<le> opReturn b) ops" "timely ops" "p \<in> set (stamps ops)"
  shows "opCall (snd p) \<le> fst p" "fst p \<le> opReturn (snd p)"
proof -
  have "\<forall>op \<in> set ops. opCall (hd ops) \<le> opReturn op" using assms(1,2) by (cases ops) (auto simp: timely_def)
  then show "opCall (snd p) \<le> fst p" "fst p \<le> opReturn (snd p)"
    using stamp_lower stamp_upper [OF assms(1,2)] assms(3) unfolding stamps_def by blast+
qed

lemma onKey_concat:
  assumes "distinct ks" "\<And>k. k \<in> set ks \<Longrightarrow> \<forall>op \<in> set (ps k). keyOf (snd op) = k"
  shows "filter (\<lambda>p. keyOf (snd p) = k) (concat (map ps ks)) = (if k \<in> set ks then ps k else [])"
  using assms
proof (induction ks)
  case (Cons j ks)
  have "filter (\<lambda>p. keyOf (snd p) = k) (ps j) = (if k = j then ps j else [])"
    using Cons.prems(2) [of j] by (auto simp: filter_empty_conv intro: filter_True)
  with Cons show ?case by auto
qed simp

lemma mset_onKeys:
  assumes "distinct ks" "keyOf ` set h \<subseteq> set ks"
  shows "mset (concat (map (\<lambda>k. onKey k h) ks)) = mset h"
proof (rule multiset_eqI)
  fix op
  have "count (mset (concat (map (\<lambda>k. onKey k h) ks))) op = (\<Sum>k \<in> set ks. count (mset (onKey k h)) op)"
    using assms(1) by (induction ks) auto
  also have "\<dots> = (\<Sum>k \<in> set ks. if k = keyOf op then count (mset h) op else 0)"
    by (rule sum.cong) (auto simp: onKey_def)
  also have "\<dots> = (if keyOf op \<in> set ks then count (mset h) op else 0)" by simp
  also have "\<dots> = count (mset h) op" using assms(2) by (auto simp: count_mset_0_iff)
  finally show "count (mset (concat (map (\<lambda>k. onKey k h) ks))) op = count (mset h) op" .
qed

lemma onKey_merge:
  assumes "typed h" "timely h" "distinct ks" "set ks = keyOf ` set h"
    and "\<And>k. k \<in> set ks \<Longrightarrow> linearizes KvModel (onKey k h) (ops k)"
  shows "linearizes storeModel h (map snd (sort_key fst (concat (map (\<lambda>k. stamps (ops k)) ks))))"
proof -
  let ?L = "concat (map (\<lambda>k. stamps (ops k)) ks)"
  have ops: "mset (ops k) = mset (onKey k h)" "sorted_wrt (\<lambda>a b. opCall a \<le> opReturn b) (ops k)"
    "legal KvModel (mInit KvModel) (ops k)" "set (ops k) = set (onKey k h)" if "k \<in> set ks" for k
    using assms(5) [OF that] mset_eq_setD by (auto simp: linearizes_def)
  have snd: "map snd (stamps (ops k)) = ops k" for k by (simp add: stamps_def)
  have tm: "timely (ops k)" if "k \<in> set ks" for k
    using assms(2) ops(4) [OF that] by (auto simp: timely_def list_all_iff onKey_def)
  have "mset (map snd ?L) = mset (concat (map (\<lambda>k. onKey k h) ks))"
    using ops(1) snd by (induction ks) (auto simp del: mset_map simp: map_concat)
  then have ms: "mset (map snd (sort_key fst ?L)) = mset h" using mset_onKeys [OF assms(3)] assms(4) by simp
  have in_L: "opCall (snd p) \<le> fst p \<and> fst p \<le> opReturn (snd p)" if "p \<in> set ?L" for p
    using that stamps_within [OF ops(2) tm] by auto
  have "sorted_wrt (\<lambda>p q. fst p \<le> fst q) (sort_key fst ?L)"
    using sorted_sort_key [of fst ?L] by (simp add: sorted_wrt_map)
  then have "sorted_wrt (\<lambda>p q. opCall (snd p) \<le> opReturn (snd q)) (sort_key fst ?L)"
    by (rule sorted_wrt_mono_rel [rotated]) (use in_L in \<open>simp, meson order.trans\<close>)
  moreover have "legal storeModel (mInit storeModel) (map snd (sort_key fst ?L))"
  proof -
    have "onKey k (map snd (sort_key fst ?L)) = (if k \<in> set ks then ops k else [])" for k
    proof -
      have kk: "\<forall>op \<in> set (stamps (ops j)). keyOf (snd op) = j" if "j \<in> set ks" for j
      proof -
        have "snd ` set (stamps (ops j)) = set (onKey j h)" using ops(4) [OF that] snd [of j] by (metis list.set_map)
        then show ?thesis unfolding onKey_def by force
      qed
      have "onKey k (map snd (sort_key fst ?L)) = map snd (sort_key fst (filter (\<lambda>p. keyOf (snd p) = k) ?L))"
        by (simp add: onKey_def filter_map o_def filter_sort)
      also have "\<dots> = map snd (sort_key fst (if k \<in> set ks then stamps (ops k) else []))"
        by (subst onKey_concat [OF assms(3)]) (use kk in auto)
      also have "\<dots> = (if k \<in> set ks then ops k else [])"
        using stamp_sorted snd by (auto simp: sort_key_id_if_sorted stamps_def)
      finally show ?thesis .
    qed
    moreover have "typed (map snd (sort_key fst ?L))" using typed_mset [OF ms [symmetric] assms(1)] .
    ultimately show ?thesis using ops(3) by (simp add: legal_store)
  qed
  ultimately show ?thesis using ms by (simp add: linearizes_def sorted_wrt_map)
qed

section \<open>The partition\<close>

lemma groupByKey_typed:
  assumes "typed h" "distinct (map fst m)"
  shows "\<exists>m'. groupByKey m h = Inr m' \<and> distinct (map fst m') \<and> set (map fst m') = set (map fst m) \<union> keyOf ` set h \<and>
     (\<forall>k. mget m' k = mget m k @ onKey k h)"
  using assms
proof (induction h arbitrary: m)
  case Nil
  then show ?case by (simp add: onKey_def)
next
  case (Cons op h)
  then obtain i where i: "opInput op = Some (VIn i)" "typed h" by auto
  let ?m = "AList.update (kiKey i) (mget m (kiKey i) @ [op]) m"
  have "mget ?m k = (if k = kiKey i then mget m k @ [op] else mget m k)" for k
    by (simp add: mget_def update_conv)
  moreover have "distinct (map fst ?m)" using Cons.prems(2) by (rule distinct_update)
  moreover have "set (map fst ?m) = insert (kiKey i) (set (map fst m))" by (simp add: dom_update)
  ultimately show ?case
    using Cons.IH [OF i(2), of ?m] i(1) by (fastforce simp: asKvInput_def keyOf_def onKey_def)
qed

lemma kvPartition_typed:
  assumes "typed h"
  obtains ks where "kvPartition h = Inr (map (\<lambda>k. onKey k h) ks)" "distinct ks" "set ks = keyOf ` set h"
proof -
  obtain m where m: "groupByKey [] h = Inr m" "distinct (map fst m)" "set (map fst m) = keyOf ` set h" "\<forall>k. mget m k = onKey k h"
    using groupByKey_typed [OF assms, of "[]"] by (auto simp: mget_def)
  have "kvPartition h = Inr (map (\<lambda>k. onKey k h) (sort (map fst m)))"
    using m(1,4) by (simp add: kvPartition_def Let_def cong: map_cong)
  with m(2,3) that [of "sort (map fst m)"] show thesis by simp
qed

lemma kv_locality:
  assumes "typed h" "timely h"
  shows "\<exists>hs. kvPartition h = Inr hs \<and> (linearizable storeModel h \<longleftrightarrow> (\<forall>p \<in> set hs. linearizable KvModel p))"
proof -
  obtain ks where ks: "kvPartition h = Inr (map (\<lambda>k. onKey k h) ks)" "distinct ks" "set ks = keyOf ` set h"
    using kvPartition_typed [OF assms(1)] .
  have "linearizable storeModel h" if l: "\<forall>k \<in> set ks. linearizable KvModel (onKey k h)"
  proof -
    obtain ops where "\<And>k. k \<in> set ks \<Longrightarrow> linearizes KvModel (onKey k h) (ops k)"
      using bchoice [of "set ks" "\<lambda>k. linearizes KvModel (onKey k h)"] l unfolding linearizable_def by blast
    from onKey_merge [OF assms ks(2,3) this] show ?thesis unfolding linearizable_def by blast
  qed
  with ks(1) linearizable_onKey [OF assms(1)] show ?thesis by auto
qed

section \<open>What a test has checked\<close>

lemma kvStep_total: "typed h \<Longrightarrow> stepsTotal KvModel h"
  by (induction h) (auto simp: stepsTotal_def KvModel_def kvStep_def asKvInput_def asKvOutput_def)

lemma storeStep_total: "typed h \<Longrightarrow> stepsTotal storeModel h"
  by (induction h) (auto simp: stepsTotal_def storeModel_def storeStep_def kvStep_def asKvInput_def asKvOutput_def)

lemma typed_filter: "typed h \<Longrightarrow> typed (onKey k h)"
  by (auto simp: typed_def onKey_def list_all_iff)

lemma searchBound_mono: "m \<le> n \<Longrightarrow> searchBound m \<le> searchBound n"
proof -
  assume "m \<le> n"
  then have "(m + 2) ^ (m div 2 + 1) \<le> (n + 2) ^ (m div 2 + 1)" by (intro power_mono) simp_all
  also have "\<dots> \<le> (n + 2) ^ (n div 2 + 1)" using div_le_mono [OF \<open>m \<le> n\<close>, of 2] by (intro power_increasing) simp_all
  finally show ?thesis by (simp add: searchBound_def)
qed

lemma checkBound_onKey: "checkBound (onKey k h) \<le> checkBound h"
  by (auto simp: checkBound_def onKey_def intro: searchBound_mono)

text \<open>
  C10. What the tests of the store establish: on a history of \<^verbatim>\<open>Get\<close>, \<^verbatim>\<open>Put\<close> and \<^verbatim>\<open>Append\<close>
  operations, \<^verbatim>\<open>CheckOperations\<close> with the model of one key, checking the keys separately and in
  parallel, answers true exactly if the history of the whole store is linearizable.
\<close>

theorem kv_check_correct:
  assumes "sorts sortBy" "typed h" "timely h" "h \<noteq> []" "checkBound h \<le> fuel"
    and "mset is = mset [0..<card (keyOf ` set h)]"
  shows "CheckOperations sortBy fuel KvModel h (map Result is) stopped = Inr (Some (linearizable storeModel h))"
proof -
  obtain ks where ks: "kvPartition h = Inr (map (\<lambda>k. onKey k h) ks)" "distinct ks" "set ks = keyOf ` set h"
    using kvPartition_typed [OF assms(2)] .
  let ?hs = "map (\<lambda>k. onKey k h) ks"
  have part: "the (mPartition (fillDefault KvModel)) h = Inr ?hs" using ks(1) by (simp add: KvModel_def)
  have each: "timely p \<and> stepsTotal (fillDefault KvModel) p \<and> checkBound p \<le> fuel" if "p \<in> set ?hs" for p
    using that assms(2,3,5) typed_filter kvStep_total checkBound_onKey [of _ h] order.trans
    by (fastforce simp: timely_def list_all_iff onKey_def)
  have ne: "?hs \<noteq> []" using assms(4) ks(3) by auto
  have order: "mset is = mset [0..<length ?hs]" using assms(6) ks(2,3) by (metis distinct_card length_map)
  have eq: "equalOK (fillDefault KvModel)" by (rule equalOK_default) (simp add: KvModel_def)
  obtain info where "checkParallel fuel (fillDefault KvModel) (map (makeEntries sortBy) ?hs) False (map Result is) stopped =
     Inr (Some (if \<forall>p \<in> set ?hs. linearizable (fillDefault KvModel) p then Ok else Illegal, info))"
    using checkParallel_decides [OF assms(1) eq ne each order, of False stopped] by blast
  moreover have "linearizable storeModel h \<longleftrightarrow> (\<forall>p \<in> set ?hs. linearizable KvModel p)"
    using kv_locality [OF assms(2,3)] ks(1) by auto
  ultimately show ?thesis unfolding CheckOperations_def checkOperations_def Let_def part by simp
qed

definition opPut :: "string \<Rightarrow> string \<Rightarrow> int \<Rightarrow> int \<Rightarrow> kv_val Operation" where
  "opPut k v c r = \<lparr>opClientId = 0, opInput = Some (VIn \<lparr>kiOp = 1, kiKey = k, kiValue = v\<rparr>), opCall = c,
     opOutput = Some (VOut \<lparr>koValue = ''''\<rparr>), opReturn = r\<rparr>"

definition opGet :: "string \<Rightarrow> string \<Rightarrow> int \<Rightarrow> int \<Rightarrow> kv_val Operation" where
  "opGet k v c r = \<lparr>opClientId = 1, opInput = Some (VIn \<lparr>kiOp = 0, kiKey = k, kiValue = ''''\<rparr>), opCall = c,
     opOutput = Some (VOut \<lparr>koValue = v\<rparr>), opReturn = r\<rparr>"

text \<open>Two overlapping writes and a read of one of them; a read that misses a finished write.\<close>

definition goodHistory :: "kv_val Operation list" where
  "goodHistory = [opPut ''x'' ''1'' 0 5, opPut ''x'' ''2'' 1 2, opGet ''x'' ''1'' 6 7, opGet ''y'' '''' 3 4]"

definition staleHistory :: "kv_val Operation list" where
  "staleHistory = [opPut ''x'' ''1'' 0 1, opGet ''x'' '''' 2 3]"

lemma goodHistory_linearizable: "linearizable storeModel goodHistory"
  unfolding linearizable_def linearizes_def
  by (intro exI [of _ "[opPut ''x'' ''2'' 1 2, opGet ''y'' '''' 3 4, opPut ''x'' ''1'' 0 5, opGet ''x'' ''1'' 6 7]"])
    (simp add: goodHistory_def opPut_def opGet_def storeModel_def storeStep_def kvStep_def asKvInput_def asKvOutput_def)

lemma staleHistory_not_linearizable: "\<not> linearizable storeModel staleHistory"
proof
  assume "linearizable storeModel staleHistory"
  then obtain ops where ops: "mset ops = mset staleHistory" "sorted_wrt (\<lambda>a b. opCall a \<le> opReturn b) ops"
    "legal storeModel (\<lambda>_. []) ops" by (auto simp: linearizable_def linearizes_def)
  have "length ops = 2" using mset_eq_length [OF ops(1)] by (simp add: staleHistory_def)
  then obtain a b where ab: "ops = [a, b]" by (auto simp: length_Suc_conv numeral_2_eq_2)
  with ops(1) have "{#a, b#} = {#opPut ''x'' ''1'' 0 1, opGet ''x'' '''' 2 3#}" by (simp add: staleHistory_def)
  then have "ops = staleHistory \<or> ops = rev staleHistory" by (auto simp: ab staleHistory_def add_eq_conv_ex)
  then show False
    using ops(2,3) by (auto simp: staleHistory_def opPut_def opGet_def storeModel_def storeStep_def kvStep_def asKvInput_def asKvOutput_def)
qed

lemma histories_ok:
  "typed goodHistory" "timely goodHistory" "typed staleHistory" "timely staleHistory"
  "keyOf ` set goodHistory = {''x'', ''y''}" "keyOf ` set staleHistory = {''x''}"
  by (simp_all add: goodHistory_def staleHistory_def opPut_def opGet_def typed_def timely_def keyOf_def)

lemma kv_check_correct_witness:
  "CheckOperations insertionSort 100000 KvModel goodHistory (map Result [1, 0]) (\<lambda>_ _. False) = Inr (Some True) \<and>
   CheckOperations insertionSort 100000 KvModel staleHistory (map Result [0]) (\<lambda>_ _. False) = Inr (Some False)"
proof -
  have b: "checkBound goodHistory \<le> 100000" "checkBound staleHistory \<le> 100000"
    by (simp_all add: checkBound_def searchBound_def goodHistory_def staleHistory_def)
  have "CheckOperations insertionSort 100000 KvModel goodHistory (map Result [1, 0]) (\<lambda>_ _. False) = Inr (Some True)"
    using kv_check_correct [OF insertionSort_sorts histories_ok(1,2) _ b(1), of "[1, 0]"] goodHistory_linearizable
    by (simp add: histories_ok) (simp add: goodHistory_def upt_rec)
  moreover have "CheckOperations insertionSort 100000 KvModel staleHistory (map Result [0]) (\<lambda>_ _. False) = Inr (Some False)"
    using kv_check_correct [OF insertionSort_sorts histories_ok(3,4) _ b(2), of "[0]"] staleHistory_not_linearizable
    by (simp add: histories_ok) (simp add: staleHistory_def)
  ultimately show ?thesis by blast
qed

lemma check_operations_decides_witness:
  "\<exists>info. checkOperations insertionSort 100000 storeModel staleHistory True (map Result [0]) (\<lambda>_ _. True) = Inr (Some (Illegal, info))"
proof -
  have eq: "equalOK (fillDefault storeModel)" by (rule equalOK_default) (simp add: storeModel_def)
  have part: "the (mPartition (fillDefault storeModel)) staleHistory = Inr [staleHistory]"
    by (simp add: storeModel_def NoPartition_def)
  have each: "\<forall>p \<in> set [staleHistory]. timely p \<and> stepsTotal storeModel p \<and> checkBound p \<le> 100000"
    using histories_ok(3,4) storeStep_total by (auto simp: checkBound_def searchBound_def staleHistory_def)
  from check_operations_decides [OF insertionSort_sorts eq part _ each, of "[0]" True "\<lambda>_ _. True"]
    staleHistory_not_linearizable show ?thesis by simp
qed

definition staleEntries :: "kv_val entry list" where
  "staleEntries = [retE staleHistory 1, callE staleHistory 1, retE staleHistory 0, callE staleHistory 0]"

lemma lifts_roundtrip_witness:
  "\<exists>(h :: kv_val heap) h'. dll h [4, 3, 2, 1, 0] \<and> liftAll [1, 3] h = Inr h' \<and> dll h' [4] \<and> unliftAll [3, 1] h' = Inr h"
proof -
  have "describes staleHistory staleEntries"
    by (simp add: describes_def staleEntries_def callE_def retE_def byTimeLess_def staleHistory_def opPut_def opGet_def add_mset_commute)
  then have wf: "wf_rev (rev (rev staleEntries))" using describes_wf histories_ok(4) by simp
  from checkSingle_starts [OF wf, of 0 KvModel False "\<lambda>_. False"] obtain h where h: "dll h (length staleEntries # rev [0..<length staleEntries])"
    "static staleEntries h" by auto
  have l: "length staleEntries = 4" "rev [0..<4] = [3, 2, 1, 0 :: nat]" by (simp_all add: staleEntries_def upt_rec)
  have live: "live staleEntries {} = [3, 2, 1, 0]" "live staleEntries ({} \<union> idOf staleEntries ` set [1, 3]) = []"
    by (simp_all add: live_def l) (simp_all add: idOf_def staleEntries_def)
  have calls: "distinct (map (idOf staleEntries) [1, 3])"
    "\<forall>a \<in> set [1, 3]. a < length staleEntries \<and> isCall staleEntries a \<and> idOf staleEntries a \<notin> {}"
    by (simp_all add: idOf_def isCall_def staleEntries_def)
  have "dll h (length staleEntries # live staleEntries {})" using h(1) by (simp add: live l)
  from lifts_roundtrip [OF wf [unfolded rev_rev_ident] this h(2) calls] obtain h' where
    h': "liftAll [1, 3] h = Inr h'" "dll h' [4]" "unliftAll (rev [1, 3]) h' = Inr h" unfolding live(2) l(1) by blast
  moreover have "rev [1, 3] = [3, 1 :: nat]" by simp
  ultimately show ?thesis using h(1) unfolding l by metis
qed

end
