(* ===== verification/KV_Linear.thy ===== *)
theory KV_Linear
  imports KV_Model KV_Store
begin

text \<open>
  The store of \<^verbatim>\<open>raft-db/server.go\<close> against the specification the tests use. A replica executes
  the entries of the log one after the other (\<open>kvSpec\<close>, which \<open>kvApply\<close> implements); a client's
  operation takes effect when the first copy of its command is applied. \<open>served\<close> is the history
  the clients see.
\<close>

definition inputOf :: "kv_op \<Rightarrow> KvInput" where
  "inputOf op =
     (case op of
        OpGet a \<Rightarrow> \<lparr>kiOp = 0, kiKey = gaKey a, kiValue = ''''\<rparr>
      | OpPutAppend a \<Rightarrow> \<lparr>kiOp = (case paType a of PutOp \<Rightarrow> 1 | AppendOp \<Rightarrow> 2), kiKey = paKey a, kiValue = paValue a\<rparr>)"

definition kvAnswer :: "kv_op \<Rightarrow> store \<Rightarrow> string" where
  "kvAnswer op m = (case op of OpGet a \<Rightarrow> valueAt m (gaKey a) | OpPutAppend a \<Rightarrow> '''')"

definition isCopyOf :: "kv_op \<Rightarrow> (32 word \<rightharpoonup> kv_op) \<Rightarrow> bool" where
  "isCopyOf op d = (case op of OpGet a \<Rightarrow> False | OpPutAppend a \<Rightarrow> isDuplicate d a)"

text \<open>An entry of the log with the times at which its operation was called, applied and
  answered; a further copy of a request is no operation of its own.\<close>

type_synonym log_event = "kv_op \<times> int \<times> int \<times> int"

fun served :: "store \<times> (32 word \<rightharpoonup> kv_op) \<Rightarrow> log_event list \<Rightarrow> kv_val Operation list" where
  "served s [] = []"
| "served s ((op, called, applied, answered) # evs) =
     (if isCopyOf op (snd s) then []
      else [\<lparr>opClientId = 0, opInput = Some (VIn (inputOf op)), opCall = called,
             opOutput = Some (VOut \<lparr>koValue = kvAnswer op (fst s)\<rparr>), opReturn = answered\<rparr>]) @
     served (kvSpec op s) evs"

lemma served_legal: "legal storeModel (valueAt (fst s)) (served s evs)"
proof (induction s evs rule: served.induct)
  case (2 s op called applied answered evs)
  show ?case
  proof (cases op)
    case (OpGet a)
    with 2 show ?thesis
      by (simp add: isCopyOf_def kvSpec_def storeModel_def storeStep_def kvStep_def inputOf_def kvAnswer_def asKvInput_def asKvOutput_def)
  next
    case (OpPutAppend a)
    show ?thesis
    proof (cases "isDuplicate (snd s) a")
      case True
      with 2 OpPutAppend show ?thesis by (simp add: isCopyOf_def kvSpec_def)
    next
      case False
      let ?v = "case paType a of PutOp \<Rightarrow> paValue a | AppendOp \<Rightarrow> valueAt (fst s) (paKey a) @ paValue a"
      have "valueAt (fst (kvSpec op s)) = (valueAt (fst s))(paKey a := ?v)"
        using False OpPutAppend by (auto simp: kvSpec_def exec_def valueAt_def)
      with 2 False OpPutAppend show ?thesis
        by (cases "paType a") (simp_all add: isCopyOf_def storeModel_def storeStep_def kvStep_def inputOf_def asKvInput_def asKvOutput_def fun_upd_def cong: if_cong)
    qed
  qed
qed simp

text \<open>The operations keep the order of the log.\<close>

lemma served_times:
  assumes "list_all (\<lambda>(op, c, t, r). c \<le> t \<and> t \<le> r) evs" "sorted (map (\<lambda>(op, c, t, r). t) evs)"
  shows "sorted_wrt (\<lambda>a b. opCall a \<le> opReturn b) (served s evs) \<and>
     (\<forall>b \<in> set (served s evs). \<exists>(op, c, t, r) \<in> set evs. opReturn b = r)"
  using assms
proof (induction s evs rule: served.induct)
  case (2 s op c t r evs)
  then have IH: "sorted_wrt (\<lambda>a b. opCall a \<le> opReturn b) (served (kvSpec op s) evs)"
    "\<forall>b \<in> set (served (kvSpec op s) evs). \<exists>(op, c, t, r) \<in> set evs. opReturn b = r" by simp_all
  have "c \<le> opReturn b" if "b \<in> set (served (kvSpec op s) evs)" for b
    using IH(2) that 2(2,3) by (fastforce simp: list_all_iff)
  with IH show ?case by auto
qed simp


definition putX :: kv_op where
  "putX = OpPutAppend \<lparr>paType = AppendOp, paKey = ''x'', paValue = ''1'', paClientId = 7, paRequestId = 1\<rparr>"


end
