(* ===== verification/Labrpc.thy ===== *)
theory Labrpc
  imports Labgob
begin

text \<open>
  The network the servers and the tests talk over, \<^verbatim>\<open>util_files/labrpc/labrpc.go\<close>. Names of
  client ends and of servers are of a type \<open>'n\<close>; a nil name or a nil server is \<open>None\<close>. A server is
  known by a pointer, an index into the list of the servers made so far. What reflection finds
  out about a receiver is part of the model's data: its methods with their signatures and their
  functions, and for a type of arguments its zero value and its values.

  A call runs in several goroutines: the caller's, the one of \<^verbatim>\<open>processReq\<close>, the one that
  executes the handler and the timers. \<open>call\<close> is where they stand for one call, \<open>world\<close> holds the
  network with every call made so far, and a schedule, a list of \<open>act\<close>, says which goroutine runs
  next, which operation a test calls on the network, and which random numbers are drawn. \<open>stepWorld\<close>
  executes one act; an act whose goroutine cannot run changes nothing. A handler runs as one step
  of its server; between the steps its receiver may change on its own. Durations are left out: a
  timer may fire at any time.
\<close>

section \<open>Services\<close>

record ('t, 'o, 'v) Method =
  mt_name :: string
  mt_pkgPath :: string                              \<comment> \<open>empty for an exported method\<close>
  mt_numIn :: nat
  mt_in2Ptr :: bool                                 \<comment> \<open>\<^verbatim>\<open>In(2).Kind() == reflect.Ptr\<close>\<close>
  mt_numOut :: nat
  mt_accepts :: "'t \<Rightarrow> bool"                         \<comment> \<open>a value of the type can be passed as \<^verbatim>\<open>In(1)\<close>\<close>
  mt_func :: "'o \<Rightarrow> 'v \<Rightarrow> 'o \<times> 'v"                  \<comment> \<open>receiver and argument to receiver and reply\<close>

record ('n, 't, 'v) reqMsg =
  rq_endname :: 'n
  rq_svcMeth :: string
  rq_argsType :: 't
  rq_args :: "'v gob"

record 'v replyMsg =
  rp_ok :: bool
  rp_reply :: "'v gob"

definition failure :: "'v replyMsg" where
  "failure = \<lparr>rp_ok = False, rp_reply = []\<rparr>"

record ('t, 'o, 'v) Service =
  sv_name :: string
  sv_rcvr :: 'o
  sv_methods :: "string \<rightharpoonup> ('t, 'o, 'v) Method"

definition suitable :: "('t, 'o, 'v) Method \<Rightarrow> bool" where
  "suitable method \<longleftrightarrow> \<not> (mt_pkgPath method \<noteq> '''' \<or> mt_numIn method \<noteq> 3 \<or> \<not> mt_in2Ptr method \<or> mt_numOut method \<noteq> 0)"

definition MakeService :: "string \<Rightarrow> 'o \<Rightarrow> ('t, 'o, 'v) Method list \<Rightarrow> ('t, 'o, 'v) Service" where
  "MakeService typeName rcvr methods =
     \<lparr>sv_name = typeName, sv_rcvr = rcvr,
      sv_methods = foldl (\<lambda>ms method. if suitable method then ms(mt_name method \<mapsto> method) else ms) Map.empty methods\<rparr>"

text \<open>The types of arguments and replies, as reflection sees them, and the length of a byte slice.\<close>

record ('t, 'v) gotypes =
  gt_zero :: "'t \<Rightarrow> 'v"
  gt_has :: "'t \<Rightarrow> 'v \<Rightarrow> bool"
  gt_len :: "'v gob \<Rightarrow> nat"

definition asType :: "('t, 'v) gotypes \<Rightarrow> 't \<Rightarrow> 'v \<Rightarrow> 'v option" where
  "asType gt t v = (if gt_has gt t v then Some v else None)"

definition svcDispatch ::
    "('t, 'v) gotypes \<Rightarrow> string \<Rightarrow> ('n, 't, 'v) reqMsg \<Rightarrow> ('t, 'o, 'v) Service \<Rightarrow> (('t, 'o, 'v) Service \<times> 'v replyMsg) res" where
  "svcDispatch gt methname req svc =
     (case sv_methods svc methname of
        Some method \<Rightarrow>
          if \<not> mt_accepts method (rq_argsType req) then Inl (Panic ''reflect: Call using the wrong type'')
          else
          let decoded = fst (Decode (asType gt (rq_argsType req)) (rq_args req));
              args = (case decoded of Inl e \<Rightarrow> gt_zero gt (rq_argsType req) | Inr v \<Rightarrow> v);
              (rcvr, replyv) = mt_func method (sv_rcvr svc) args
          in Inr (svc\<lparr>sv_rcvr := rcvr\<rparr>, \<lparr>rp_ok = True, rp_reply = Encode [] replyv\<rparr>)
      | None \<Rightarrow> Inl (Panic ''labrpc.Service.dispatch(): unknown method''))"

section \<open>Servers\<close>

record ('t, 'o, 'v) Server =
  rs_services :: "string \<rightharpoonup> ('t, 'o, 'v) Service"
  rs_count :: int

definition MakeServer :: "('t, 'o, 'v) Server" where
  "MakeServer = \<lparr>rs_services = Map.empty, rs_count = 0\<rparr>"

definition AddService :: "('t, 'o, 'v) Service \<Rightarrow> ('t, 'o, 'v) Server \<Rightarrow> ('t, 'o, 'v) Server" where
  "AddService svc rs = rs\<lparr>rs_services := (rs_services rs)(sv_name svc \<mapsto> svc)\<rparr>"

text \<open>\<^verbatim>\<open>strings.LastIndex(s, ".")\<close>, -1 when there is no dot.\<close>

definition lastDot :: "string \<Rightarrow> int" where
  "lastDot s = int (length s) - 1 - int (length (takeWhile (\<lambda>c. c \<noteq> CHR ''.'') (rev s)))"

definition srvDispatch ::
    "('t, 'v) gotypes \<Rightarrow> ('n, 't, 'v) reqMsg \<Rightarrow> ('t, 'o, 'v) Server \<Rightarrow> (('t, 'o, 'v) Server \<times> 'v replyMsg) res" where
  "srvDispatch gt req rs =
     (let rs1 = rs\<lparr>rs_count := rs_count rs + 1\<rparr>;
          dot = lastDot (rq_svcMeth req)
      in rbind (slice_to (rq_svcMeth req) dot) (\<lambda>serviceName.
         rbind (slice_from (rq_svcMeth req) (dot + 1)) (\<lambda>methodName.
           case rs_services rs1 serviceName of
             Some service \<Rightarrow>
               rbind (svcDispatch gt methodName req service) (\<lambda>(service', r).
                 Inr (rs1\<lparr>rs_services := (rs_services rs1)(serviceName \<mapsto> service')\<rparr>, r))
           | None \<Rightarrow> Inl (Panic ''labrpc.Server.dispatch(): unknown service''))))"

section \<open>The network\<close>

record ('n, 't, 'o, 'v) Network =
  rn_reliable :: bool
  rn_longDelays :: bool
  rn_longReordering :: bool
  rn_ends :: "'n set"
  rn_enabled :: "'n \<Rightarrow> bool"
  rn_servers :: "'n \<Rightarrow> nat option"
  rn_connections :: "'n \<Rightarrow> 'n option"
  rn_done :: bool                                    \<comment> \<open>\<^verbatim>\<open>rn.done\<close> is closed\<close>
  rn_count :: "32 word"
  rn_bytes :: "64 word"
  rn_objs :: "('t, 'o, 'v) Server list"                  \<comment> \<open>the servers the pointers point to\<close>

definition MakeNetwork :: "('n, 't, 'o, 'v) Network" where
  "MakeNetwork = \<lparr>rn_reliable = True, rn_longDelays = False, rn_longReordering = False, rn_ends = {},
     rn_enabled = (\<lambda>_. False), rn_servers = (\<lambda>_. None), rn_connections = (\<lambda>_. None), rn_done = False,
     rn_count = 0, rn_bytes = 0, rn_objs = []\<rparr>"

definition Cleanup :: "('n, 't, 'o, 'v) Network \<Rightarrow> ('n, 't, 'o, 'v) Network res" where
  "Cleanup rn = (if rn_done rn then Inl (Panic ''close of closed channel'') else Inr (rn\<lparr>rn_done := True\<rparr>))"

definition Reliable :: "bool \<Rightarrow> ('n, 't, 'o, 'v) Network \<Rightarrow> ('n, 't, 'o, 'v) Network" where
  "Reliable yes rn = rn\<lparr>rn_reliable := yes\<rparr>"

definition LongReordering :: "bool \<Rightarrow> ('n, 't, 'o, 'v) Network \<Rightarrow> ('n, 't, 'o, 'v) Network" where
  "LongReordering yes rn = rn\<lparr>rn_longReordering := yes\<rparr>"

definition LongDelays :: "bool \<Rightarrow> ('n, 't, 'o, 'v) Network \<Rightarrow> ('n, 't, 'o, 'v) Network" where
  "LongDelays yes rn = rn\<lparr>rn_longDelays := yes\<rparr>"

definition readEndnameInfo :: "'n \<Rightarrow> ('n, 't, 'o, 'v) Network \<Rightarrow> bool \<times> 'n option \<times> nat option \<times> bool \<times> bool" where
  "readEndnameInfo endname rn =
     (let servername = rn_connections rn endname;
          server = (case servername of None \<Rightarrow> None | Some sn \<Rightarrow> rn_servers rn sn)
      in (rn_enabled rn endname, servername, server, rn_reliable rn, rn_longReordering rn))"

definition isServerDead :: "'n \<Rightarrow> 'n \<Rightarrow> nat \<Rightarrow> ('n, 't, 'o, 'v) Network \<Rightarrow> bool" where
  "isServerDead endname servername server rn \<longleftrightarrow>
     rn_enabled rn endname = False \<or> rn_servers rn servername \<noteq> Some server"

definition MakeEnd :: "'n \<Rightarrow> ('n, 't, 'o, 'v) Network \<Rightarrow> ('n, 't, 'o, 'v) Network res" where
  "MakeEnd endname rn =
     (if endname \<in> rn_ends rn then Inl (Panic ''MakeEnd: already exists'')
      else Inr (rn\<lparr>rn_ends := insert endname (rn_ends rn), rn_enabled := (rn_enabled rn)(endname := False),
                   rn_connections := (rn_connections rn)(endname := None)\<rparr>))"

text \<open>A server object is made and given to the network: it gets the next pointer.\<close>

definition AddServer :: "'n \<Rightarrow> ('t, 'o, 'v) Server \<Rightarrow> ('n, 't, 'o, 'v) Network \<Rightarrow> ('n, 't, 'o, 'v) Network" where
  "AddServer servername rs rn =
     rn\<lparr>rn_servers := (rn_servers rn)(servername := Some (length (rn_objs rn))), rn_objs := rn_objs rn @ [rs]\<rparr>"

definition DeleteServer :: "'n \<Rightarrow> ('n, 't, 'o, 'v) Network \<Rightarrow> ('n, 't, 'o, 'v) Network" where
  "DeleteServer servername rn = rn\<lparr>rn_servers := (rn_servers rn)(servername := None)\<rparr>"

definition Connect :: "'n \<Rightarrow> 'n \<Rightarrow> ('n, 't, 'o, 'v) Network \<Rightarrow> ('n, 't, 'o, 'v) Network" where
  "Connect endname servername rn = rn\<lparr>rn_connections := (rn_connections rn)(endname := Some servername)\<rparr>"

definition Enable :: "'n \<Rightarrow> bool \<Rightarrow> ('n, 't, 'o, 'v) Network \<Rightarrow> ('n, 't, 'o, 'v) Network" where
  "Enable endname enabled rn = rn\<lparr>rn_enabled := (rn_enabled rn)(endname := enabled)\<rparr>"

definition srvGetCount :: "('t, 'o, 'v) Server \<Rightarrow> int" where
  "srvGetCount rs = rs_count rs"

definition netGetCount :: "'n \<Rightarrow> ('n, 't, 'o, 'v) Network \<Rightarrow> int res" where
  "netGetCount servername rn =
     (case rn_servers rn servername of None \<Rightarrow> Inl NilDereference
      | Some p \<Rightarrow> rbind (at (rn_objs rn) (int p)) (\<lambda>rs. Inr (srvGetCount rs)))"

definition GetTotalCount :: "('n, 't, 'o, 'v) Network \<Rightarrow> int" where
  "GetTotalCount rn = sint (rn_count rn)"

definition GetTotalBytes :: "('n, 't, 'o, 'v) Network \<Rightarrow> 64 word" where
  "GetTotalBytes rn = rn_bytes rn"

section \<open>Calls\<close>

text \<open>
  Where the caller and \<^verbatim>\<open>processReq\<close> stand. \<open>Calling\<close>: the request is made, \<^verbatim>\<open>Call\<close> is at its
  \<^verbatim>\<open>select\<close>. \<open>Accepted\<close>: the network's goroutine took it. \<open>Chosen\<close>: \<^verbatim>\<open>processReq\<close> has read the
  server's name and pointer and the two flags. \<open>Waiting\<close>: in the loop that waits for the handler.
  \<open>Waited\<close>: after the loop, with the reply if \<^verbatim>\<open>replyOK\<close>. \<open>Delayed\<close> and \<open>TimingOut\<close>: a timer is set.
  \<open>Replying\<close>: a message is on \<^verbatim>\<open>replyCh\<close>. \<open>Returned\<close>: \<^verbatim>\<open>Call\<close> has returned, \<open>Some\<close> the decoded reply
  for true and \<open>None\<close> for false.
\<close>

datatype ('n, 'v) phase =
    Calling
  | Accepted
  | Chosen 'n nat bool bool
  | Waiting 'n nat bool bool
  | Waited 'n nat bool bool "'v replyMsg option"
  | Delayed "'v replyMsg"
  | TimingOut
  | Replying "'v replyMsg"
  | Returned "'v option"

text \<open>The goroutine that executes the handler: not there yet, about to run, or past \<^verbatim>\<open>dispatch\<close> with
  its result, which it offers on \<^verbatim>\<open>ech\<close>.\<close>

datatype 'v hrun = NoExec | Spawned nat | Executed nat "'v replyMsg"

record ('n, 't, 'v) call =
  cl_req :: "('n, 't, 'v) reqMsg"
  cl_replyType :: 't
  cl_phase :: "('n, 'v) phase"
  cl_exec :: "'v hrun"

definition newCall :: "'n \<Rightarrow> string \<Rightarrow> 't \<Rightarrow> 'v \<Rightarrow> 't \<Rightarrow> ('n, 't, 'v) call" where
  "newCall endname svcMeth argsType args replyType =
     \<lparr>cl_req = \<lparr>rq_endname = endname, rq_svcMeth = svcMeth, rq_argsType = argsType, rq_args = Encode [] args\<rparr>,
      cl_replyType = replyType, cl_phase = Calling, cl_exec = NoExec\<rparr>"

text \<open>The end of \<^verbatim>\<open>Call\<close>: the reply is decoded into the variable of the caller.\<close>

definition takeReply :: "('t, 'v) gotypes \<Rightarrow> 'v replyMsg \<Rightarrow> ('n, 't, 'v) call \<Rightarrow> ('n, 't, 'v) call res" where
  "takeReply gt rep c =
     (if rp_ok rep
      then (case fst (Decode (asType gt (cl_replyType c)) (rp_reply rep)) of
              Inl e \<Rightarrow> Inl (Panic ''ClientEnd.Call(): decode reply'')
            | Inr v \<Rightarrow> Inr (c\<lparr>cl_phase := Returned (Some v)\<rparr>))
      else Inr (c\<lparr>cl_phase := Returned None\<rparr>))"

definition addBytes :: "nat \<Rightarrow> ('n, 't, 'o, 'v) Network \<Rightarrow> ('n, 't, 'o, 'v) Network" where
  "addBytes k rn = rn\<lparr>rn_bytes := rn_bytes rn + of_nat k\<rparr>"

text \<open>What one goroutine of a call does next; the integers are the random numbers drawn.\<close>

datatype move =
    Accept            \<comment> \<open>the network's goroutine receives the request\<close>
  | Cancel            \<comment> \<open>\<^verbatim>\<open>Call\<close> sees the network closed\<close>
  | Choose            \<comment> \<open>\<^verbatim>\<open>readEndnameInfo\<close> and the test on its results\<close>
  | Dispatch int      \<comment> \<open>drop the request or start the handler\<close>
  | Execute           \<comment> \<open>the handler runs\<close>
  | Receive           \<comment> \<open>the loop receives the handler's reply\<close>
  | Tick              \<comment> \<open>100 ms have passed in the loop\<close>
  | Finish int int    \<comment> \<open>what follows the loop\<close>
  | Fire              \<comment> \<open>a timer fires\<close>
  | Return            \<comment> \<open>\<^verbatim>\<open>Call\<close> receives from \<^verbatim>\<open>replyCh\<close>\<close>

definition chooseServer :: "('n, 't, 'o, 'v) Network \<Rightarrow> ('n, 't, 'v) call \<Rightarrow> ('n, 't, 'v) call" where
  "chooseServer rn c =
     (case readEndnameInfo (rq_endname (cl_req c)) rn of
        (enabled, servername, server, reliable, longreordering) \<Rightarrow>
          (case (servername, server) of
             (Some sn, Some p) \<Rightarrow>
               c\<lparr>cl_phase := (if enabled then Chosen sn p reliable longreordering else TimingOut)\<rparr>
           | _ \<Rightarrow> c\<lparr>cl_phase := TimingOut\<rparr>))"

definition finishCall ::
    "('t, 'v) gotypes \<Rightarrow> int \<Rightarrow> int \<Rightarrow> 'n \<Rightarrow> nat \<Rightarrow> bool \<Rightarrow> bool \<Rightarrow> 'v replyMsg option \<Rightarrow>
     ('n, 't, 'o, 'v) Network \<Rightarrow> ('n, 't, 'v) call \<Rightarrow> ('n, 't, 'o, 'v) Network \<times> ('n, 't, 'v) call" where
  "finishCall gt r1 r2 sn p reliable longreordering replyOK rn c =
     (let serverDead = isServerDead (rq_endname (cl_req c)) sn p rn
      in case replyOK of
           None \<Rightarrow> (rn, c\<lparr>cl_phase := Replying failure\<rparr>)
         | Some reply \<Rightarrow>
             if serverDead then (rn, c\<lparr>cl_phase := Replying failure\<rparr>)
             else if reliable = False \<and> r1 mod 1000 < 100 then (rn, c\<lparr>cl_phase := Replying failure\<rparr>)
             else if longreordering \<and> r2 mod 900 < 600 then (rn, c\<lparr>cl_phase := Delayed reply\<rparr>)
             else (addBytes (gt_len gt (rp_reply reply)) rn, c\<lparr>cl_phase := Replying reply\<rparr>))"

definition executeHandler ::
    "('t, 'v) gotypes \<Rightarrow> nat \<Rightarrow> ('n, 't, 'o, 'v) Network \<Rightarrow> ('n, 't, 'v) call \<Rightarrow>
     (('n, 't, 'o, 'v) Network \<times> ('n, 't, 'v) call) res" where
  "executeHandler gt p rn c =
     rbind (at (rn_objs rn) (int p)) (\<lambda>server.
     rbind (srvDispatch gt (cl_req c) server) (\<lambda>(server', r).
       Inr (rn\<lparr>rn_objs := (rn_objs rn)[p := server']\<rparr>, c\<lparr>cl_exec := Executed p r\<rparr>)))"

text \<open>The goroutine of \<^verbatim>\<open>MakeNetwork\<close> accepts requests while it runs; \<open>listening\<close> is false after it has
  returned.\<close>

definition stepCall ::
    "('t, 'v) gotypes \<Rightarrow> bool \<Rightarrow> move \<Rightarrow> ('n, 't, 'o, 'v) Network \<Rightarrow> ('n, 't, 'v) call \<Rightarrow>
     (('n, 't, 'o, 'v) Network \<times> ('n, 't, 'v) call) res" where
  "stepCall gt listening m rn c =
     (case (m, cl_phase c) of
        (Accept, Calling) \<Rightarrow>
          (if listening
           then Inr (addBytes (gt_len gt (rq_args (cl_req c))) (rn\<lparr>rn_count := rn_count rn + 1\<rparr>), c\<lparr>cl_phase := Accepted\<rparr>)
           else Inr (rn, c))
      | (Cancel, Calling) \<Rightarrow> Inr (rn, if rn_done rn then c\<lparr>cl_phase := Returned None\<rparr> else c)
      | (Choose, Accepted) \<Rightarrow> Inr (rn, chooseServer rn c)
      | (Dispatch r, Chosen sn p reliable longreordering) \<Rightarrow>
          (if reliable = False \<and> r mod 1000 < 100 then Inr (rn, c\<lparr>cl_phase := Replying failure\<rparr>)
           else Inr (rn, c\<lparr>cl_phase := Waiting sn p reliable longreordering, cl_exec := Spawned p\<rparr>))
      | (Execute, _) \<Rightarrow>
          (case cl_exec c of Spawned p \<Rightarrow> executeHandler gt p rn c | _ \<Rightarrow> Inr (rn, c))
      | (Receive, Waiting sn p reliable longreordering) \<Rightarrow>
          (case cl_exec c of
             Executed q r \<Rightarrow> Inr (rn, c\<lparr>cl_phase := Waited sn p reliable longreordering (Some r)\<rparr>)
           | _ \<Rightarrow> Inr (rn, c))
      | (Tick, Waiting sn p reliable longreordering) \<Rightarrow>
          Inr (rn, if isServerDead (rq_endname (cl_req c)) sn p rn
                   then c\<lparr>cl_phase := Waited sn p reliable longreordering None\<rparr> else c)
      | (Finish r1 r2, Waited sn p reliable longreordering replyOK) \<Rightarrow>
          Inr (finishCall gt r1 r2 sn p reliable longreordering replyOK rn c)
      | (Fire, Delayed reply) \<Rightarrow>
          Inr (addBytes (gt_len gt (rp_reply reply)) rn, c\<lparr>cl_phase := Replying reply\<rparr>)
      | (Fire, TimingOut) \<Rightarrow> Inr (rn, c\<lparr>cl_phase := Replying failure\<rparr>)
      | (Return, Replying rep) \<Rightarrow> rbind (takeReply gt rep c) (\<lambda>c'. Inr (rn, c'))
      | _ \<Rightarrow> Inr (rn, c))"

record ('n, 't, 'o, 'v) world =
  wd_net :: "('n, 't, 'o, 'v) Network"
  wd_listening :: bool
  wd_calls :: "('n, 't, 'v) call list"

definition newWorld :: "('n, 't, 'o, 'v) world" where
  "newWorld = \<lparr>wd_net = MakeNetwork, wd_listening = True, wd_calls = []\<rparr>"

text \<open>The acts of a schedule. \<open>DoServer\<close> makes a server with its services and adds it, as the tests
  do; \<open>DoReceiver\<close> is a change the receiver of a service makes to itself.\<close>

datatype ('n, 't, 'o, 'v) act =
    DoEnd 'n
  | DoServer 'n "('t, 'o, 'v) Service list"
  | DoDelete 'n
  | DoConnect 'n 'n
  | DoEnable 'n bool
  | DoReliable bool
  | DoLongReordering bool
  | DoLongDelays bool
  | DoCleanup
  | DoStopListening
  | DoReceiver nat string 'o
  | DoCall 'n string 't 'v 't
  | DoMove nat move

definition setReceiver :: "string \<Rightarrow> 'o \<Rightarrow> ('t, 'o, 'v) Server \<Rightarrow> ('t, 'o, 'v) Server" where
  "setReceiver name x rs =
     rs\<lparr>rs_services := (rs_services rs)(name := map_option (sv_rcvr_update (\<lambda>_. x)) (rs_services rs name))\<rparr>"

definition onNet ::
    "('n, 't, 'o, 'v) world \<Rightarrow> ('n, 't, 'o, 'v) Network res \<Rightarrow> ('n, 't, 'o, 'v) world res" where
  "onNet w m = rbind m (\<lambda>rn. Inr (w\<lparr>wd_net := rn\<rparr>))"

fun stepWorld ::
    "('t, 'v) gotypes \<Rightarrow> ('n, 't, 'o, 'v) act \<Rightarrow> ('n, 't, 'o, 'v) world \<Rightarrow> ('n, 't, 'o, 'v) world res" where
  "stepWorld gt (DoEnd e) w = onNet w (MakeEnd e (wd_net w))"
| "stepWorld gt (DoServer sn svcs) w =
     onNet w (Inr (AddServer sn (fold AddService svcs MakeServer) (wd_net w)))"
| "stepWorld gt (DoDelete sn) w = onNet w (Inr (DeleteServer sn (wd_net w)))"
| "stepWorld gt (DoConnect e sn) w = onNet w (Inr (Connect e sn (wd_net w)))"
| "stepWorld gt (DoEnable e b) w = onNet w (Inr (Enable e b (wd_net w)))"
| "stepWorld gt (DoReliable b) w = onNet w (Inr (Reliable b (wd_net w)))"
| "stepWorld gt (DoLongReordering b) w = onNet w (Inr (LongReordering b (wd_net w)))"
| "stepWorld gt (DoLongDelays b) w = onNet w (Inr (LongDelays b (wd_net w)))"
| "stepWorld gt DoCleanup w = onNet w (Cleanup (wd_net w))"
| "stepWorld gt DoStopListening w = Inr (if rn_done (wd_net w) then w\<lparr>wd_listening := False\<rparr> else w)"
| "stepWorld gt (DoReceiver p name x) w =
     (if p < length (rn_objs (wd_net w))
      then onNet w (Inr ((wd_net w)\<lparr>rn_objs := (rn_objs (wd_net w))[p := setReceiver name x (rn_objs (wd_net w) ! p)]\<rparr>))
      else Inr w)"
| "stepWorld gt (DoCall e svcMeth argsType args replyType) w =
     Inr (w\<lparr>wd_calls := wd_calls w @ [newCall e svcMeth argsType args replyType]\<rparr>)"
| "stepWorld gt (DoMove i m) w =
     (if i < length (wd_calls w)
      then rbind (stepCall gt (wd_listening w) m (wd_net w) (wd_calls w ! i)) (\<lambda>(rn, c).
             Inr (w\<lparr>wd_net := rn, wd_calls := (wd_calls w)[i := c]\<rparr>))
      else Inr w)"

fun runWorld ::
    "('t, 'v) gotypes \<Rightarrow> ('n, 't, 'o, 'v) act list \<Rightarrow> ('n, 't, 'o, 'v) world \<Rightarrow> ('n, 't, 'o, 'v) world res" where
  "runWorld gt [] w = Inr w"
| "runWorld gt (a # as) w = rbind (stepWorld gt a w) (runWorld gt as)"

end
