(* ===== verification/Labrpc_Props.thy ===== *)
theory Labrpc_Props
  imports Labrpc
begin

text \<open>
  What the simulated network promises to the servers and to the tests. \<open>callOk\<close> relates where the
  goroutines of one call stand; \<open>worldOk\<close> adds that the pointers of the network lead to servers and
  that a server counted the handlers it executed. Every act keeps it. From it: a call that
  returned true has its handler executed, exactly once, and returned what the handler answered;
  a server that was removed or replaced never answers a call again.
\<close>

section \<open>Steps of one call\<close>

definition ranOn :: "nat \<Rightarrow> ('n, 't, 'v) call \<Rightarrow> bool" where
  "ranOn p c \<longleftrightarrow> (\<exists>r. cl_exec c = Executed p r)"

definition answeredBy :: "('t, 'v) gotypes \<Rightarrow> ('n, 't, 'v) reqMsg \<Rightarrow> 'v replyMsg \<Rightarrow> 'o itself \<Rightarrow> bool" where
  "answeredBy gt req r ty \<longleftrightarrow>
     (\<exists>server server' :: ('t, 'o, 'v) Server. srvDispatch gt req server = Inr (server', r))"

text \<open>How the goroutine of the handler follows the phase.\<close>

fun phaseOk :: "('t, 'v) gotypes \<Rightarrow> 't \<Rightarrow> ('n, 'v) phase \<Rightarrow> 'v hrun \<Rightarrow> bool" where
  "phaseOk gt t Calling x \<longleftrightarrow> x = NoExec"
| "phaseOk gt t Accepted x \<longleftrightarrow> x = NoExec"
| "phaseOk gt t (Chosen sn p rel lr) x \<longleftrightarrow> x = NoExec"
| "phaseOk gt t (Waiting sn p rel lr) x \<longleftrightarrow> x = Spawned p \<or> (\<exists>r. x = Executed p r)"
| "phaseOk gt t (Waited sn p rel lr None) x \<longleftrightarrow> x = Spawned p \<or> (\<exists>r. x = Executed p r)"
| "phaseOk gt t (Waited sn p rel lr (Some r)) x \<longleftrightarrow> x = Executed p r"
| "phaseOk gt t (Delayed r) x \<longleftrightarrow> (\<exists>p. x = Executed p r)"
| "phaseOk gt t TimingOut x \<longleftrightarrow> x = NoExec"
| "phaseOk gt t (Replying r) x \<longleftrightarrow> (rp_ok r \<longrightarrow> (\<exists>p. x = Executed p r))"
| "phaseOk gt t (Returned None) x \<longleftrightarrow> True"
| "phaseOk gt t (Returned (Some v)) x \<longleftrightarrow>
     (\<exists>p r. x = Executed p r \<and> rp_ok r \<and> fst (Decode (asType gt t) (rp_reply r)) = Inr v)"

text \<open>The pointers a call holds.\<close>

fun phasePtr :: "('n, 'v) phase \<Rightarrow> ('n \<times> nat) option" where
  "phasePtr (Chosen sn p rel lr) = Some (sn, p)"
| "phasePtr (Waiting sn p rel lr) = Some (sn, p)"
| "phasePtr (Waited sn p rel lr rep) = Some (sn, p)"
| "phasePtr _ = None"

fun execPtr :: "'v hrun \<Rightarrow> nat option" where
  "execPtr NoExec = None"
| "execPtr (Spawned p) = Some p"
| "execPtr (Executed p r) = Some p"

definition callOk :: "('t, 'v) gotypes \<Rightarrow> 'o itself \<Rightarrow> nat \<Rightarrow> ('n, 't, 'v) call \<Rightarrow> bool" where
  "callOk gt ty k c \<longleftrightarrow>
     phaseOk gt (cl_replyType c) (cl_phase c) (cl_exec c) \<and>
     (\<forall>sn p. phasePtr (cl_phase c) = Some (sn, p) \<longrightarrow> p < k) \<and>
     (\<forall>p. execPtr (cl_exec c) = Some p \<longrightarrow> p < k) \<and>
     (\<forall>p r. cl_exec c = Executed p r \<longrightarrow> answeredBy gt (cl_req c) r ty)"

definition netOk :: "('n, 't, 'o, 'v) Network \<Rightarrow> bool" where
  "netOk rn \<longleftrightarrow> (\<forall>sn p. rn_servers rn sn = Some p \<longrightarrow> p < length (rn_objs rn))"

definition worldOk :: "('t, 'v) gotypes \<Rightarrow> ('n, 't, 'o, 'v) world \<Rightarrow> bool" where
  "worldOk gt w \<longleftrightarrow>
     netOk (wd_net w) \<and>
     (\<forall>c \<in> set (wd_calls w). callOk gt TYPE('o) (length (rn_objs (wd_net w))) c) \<and>
     (\<forall>p < length (rn_objs (wd_net w)).
        rs_count (rn_objs (wd_net w) ! p) = int (length (filter (ranOn p) (wd_calls w))))"

text \<open>The effect of a move: it changes its call, and only the execution of the handler changes a
  server, which it counts.\<close>

lemma srvDispatch_count: "srvDispatch gt req rs = Inr (rs', r) \<Longrightarrow> rs_count rs' = rs_count rs + 1"
  by (auto simp: srvDispatch_def Let_def rbind_Inr_iff split: option.splits)

lemma newCall_ok: "callOk gt ty k (newCall e sm ta a tr)"
  by (simp add: callOk_def newCall_def)

lemma newCall_idle [simp]: "\<not> ranOn p (newCall e sm ta a tr)"
  by (simp add: ranOn_def newCall_def)

lemma callOk_mono: "callOk gt ty k c \<Longrightarrow> k \<le> k' \<Longrightarrow> callOk gt ty k' c"
  by (force simp: callOk_def)

lemma addBytes_simps [simp]:
  "rn_objs (addBytes k rn) = rn_objs rn" "rn_servers (addBytes k rn) = rn_servers rn"
  "rn_enabled (addBytes k rn) = rn_enabled rn" "rn_connections (addBytes k rn) = rn_connections rn"
  by (simp_all add: addBytes_def)

lemma chooseServer_ok:
  assumes "callOk gt ty (length (rn_objs rn)) c" "cl_phase c = Accepted" "netOk rn"
  shows "callOk gt ty (length (rn_objs rn)) (chooseServer rn c) \<and> cl_exec (chooseServer rn c) = NoExec"
  using assms
  by (auto simp: chooseServer_def callOk_def netOk_def readEndnameInfo_def Let_def
      split: option.splits prod.splits)

lemma finishCall_ok:
  assumes "finishCall gt r1 r2 sn p rel lr rep rn c = (rn', c')"
    and "callOk gt ty k c" "cl_phase c = Waited sn p rel lr rep"
  shows "callOk gt ty k c' \<and> cl_exec c' = cl_exec c \<and> cl_req c' = cl_req c \<and>
    rn_objs rn' = rn_objs rn \<and> rn_servers rn' = rn_servers rn"
  using assms
  by (auto simp: finishCall_def callOk_def Let_def failure_def split: option.splits if_splits)

lemma takeReply_ok:
  assumes "takeReply gt rep c = Inr c'" "callOk gt ty k c" "cl_phase c = Replying rep"
  shows "callOk gt ty k c' \<and> cl_exec c' = cl_exec c \<and> cl_req c' = cl_req c"
  using assms by (auto simp: takeReply_def callOk_def split: sum.splits if_splits)

lemma executeHandler_ok:
  assumes "executeHandler gt p rn c = Inr (rn', c')" "callOk gt TYPE('o) (length (rn_objs rn)) c"
    "cl_exec c = Spawned p" "netOk (rn :: ('n, 't, 'o, 'v) Network)"
  obtains server r where "c' = c\<lparr>cl_exec := Executed p r\<rparr>"
    "rn' = rn\<lparr>rn_objs := (rn_objs rn)[p := server]\<rparr>" "p < length (rn_objs rn)"
    "rs_count server = rs_count (rn_objs rn ! p) + 1" "callOk gt TYPE('o) (length (rn_objs rn)) c'"
proof -
  obtain server r where p: "p < length (rn_objs rn)"
    and d: "srvDispatch gt (cl_req c) (rn_objs rn ! p) = Inr (server, r)"
    and eqs: "rn' = rn\<lparr>rn_objs := (rn_objs rn)[p := server]\<rparr>" "c' = c\<lparr>cl_exec := Executed p r\<rparr>"
    using assms(1) by (auto simp: executeHandler_def rbind_Inr_iff at_Inr_iff)
  have "phaseOk gt (cl_replyType c) (cl_phase c) (Executed p r)"
  proof -
    have "phaseOk gt (cl_replyType c) (cl_phase c) (Spawned p)"
      using assms(2,3) by (simp add: callOk_def)
    then show ?thesis
      by (cases "(gt, cl_replyType c, cl_phase c, Spawned p :: 'v hrun)" rule: phaseOk.cases) auto
  qed
  moreover have "answeredBy gt (cl_req c) r TYPE('o)"
    using d by (auto simp: answeredBy_def)
  ultimately have "callOk gt TYPE('o) (length (rn_objs rn)) c'"
    using assms(2) p by (simp add: callOk_def eqs)
  with eqs p srvDispatch_count [OF d] that show ?thesis by blast
qed

text \<open>A move either leaves the servers and the handler alone, or executes the handler.\<close>

definition quiet :: "('n, 't, 'o, 'v) Network \<Rightarrow> ('n, 't, 'v) call \<Rightarrow> ('n, 't, 'o, 'v) Network \<Rightarrow> ('n, 't, 'v) call \<Rightarrow> bool" where
  "quiet rn c rn' c' \<longleftrightarrow> rn_objs rn' = rn_objs rn \<and> rn_servers rn' = rn_servers rn \<and> (\<forall>p. ranOn p c' = ranOn p c)"

lemma stepCall_cases:
  assumes "stepCall gt l m rn c = Inr (rn', c')" "callOk gt TYPE('o) (length (rn_objs rn)) c"
    "netOk (rn :: ('n, 't, 'o, 'v) Network)"
  obtains (quiet) "quiet rn c rn' c'" "callOk gt TYPE('o) (length (rn_objs rn)) c'"
  | (run) p where "m = Execute" "cl_exec c = Spawned p" "executeHandler gt p rn c = Inr (rn', c')"
proof (cases "m = Execute \<and> (\<exists>p. cl_exec c = Spawned p)")
  case True
  then show ?thesis using assms(1) run by (auto simp: stepCall_def)
next
  case False
  have "quiet rn c rn' c' \<and> callOk gt TYPE('o) (length (rn_objs rn)) c'"
    using assms(1,2) False chooseServer_ok [OF assms(2) _ assms(3)]
    by (cases m; cases "cl_phase c")
      (auto simp: stepCall_def quiet_def ranOn_def callOk_def failure_def rbind_Inr_iff
        split: if_splits hrun.splits dest!: finishCall_ok [of _ _ _ _ _ _ _ _ _ _ _ _ "TYPE('o)" "length (rn_objs rn)"] takeReply_ok [of _ _ _ _ "TYPE('o)" "length (rn_objs rn)"])
  then show ?thesis using quiet by blast
qed

section \<open>The world\<close>

lemma filter_update_count:
  assumes "i < length xs"
  shows "length (filter P (xs[i := y])) + (if P (xs ! i) then 1 else 0) = length (filter P xs) + (if P y then 1 else 0)"
  using assms
proof (induction xs arbitrary: i)
  case (Cons x xs)
  show ?case
  proof (cases i)
    case (Suc j)
    with Cons.IH [of j] Cons.prems show ?thesis by simp
  qed simp
qed simp

lemma quiet_world:
  assumes ok: "worldOk gt w" and i: "i < length (wd_calls w)"
    and q: "quiet (wd_net w) (wd_calls w ! i) rn c"
    and c: "callOk gt TYPE('o) (length (rn_objs (wd_net w))) c"
  shows "worldOk gt ((w :: ('n, 't, 'o, 'v) world)\<lparr>wd_net := rn, wd_calls := (wd_calls w)[i := c]\<rparr>)"
proof -
  have "length (filter (ranOn p) ((wd_calls w)[i := c])) = length (filter (ranOn p) (wd_calls w))" for p
    using filter_update_count [OF i, of "ranOn p" c] q by (simp add: quiet_def)
  then show ?thesis
    using ok q c by (auto simp: worldOk_def quiet_def netOk_def dest!: set_update_subset_insert [THEN subsetD])
qed

lemma execute_world:
  assumes ok: "worldOk gt w" and i: "i < length (wd_calls w)"
    and x: "cl_exec (wd_calls w ! i) = Spawned p"
    and e: "executeHandler gt p (wd_net w) (wd_calls w ! i) = Inr (rn, c)"
  shows "worldOk gt ((w :: ('n, 't, 'o, 'v) world)\<lparr>wd_net := rn, wd_calls := (wd_calls w)[i := c]\<rparr>)"
proof -
  have okc: "callOk gt TYPE('o) (length (rn_objs (wd_net w))) (wd_calls w ! i)" and okn: "netOk (wd_net w)"
    using ok i by (auto simp: worldOk_def)
  obtain server r where c: "c = (wd_calls w ! i)\<lparr>cl_exec := Executed p r\<rparr>"
    and rn: "rn = (wd_net w)\<lparr>rn_objs := (rn_objs (wd_net w))[p := server]\<rparr>" and p: "p < length (rn_objs (wd_net w))"
    and cnt: "rs_count server = rs_count (rn_objs (wd_net w) ! p) + 1"
    and okc': "callOk gt TYPE('o) (length (rn_objs (wd_net w))) c"
    using executeHandler_ok [OF e okc x okn] by metis
  have n: "ranOn q (wd_calls w ! i) \<longleftrightarrow> False" "ranOn q c \<longleftrightarrow> q = p" for q
    using x by (auto simp: ranOn_def c)
  have "length (filter (ranOn q) ((wd_calls w)[i := c])) = length (filter (ranOn q) (wd_calls w)) + (if q = p then 1 else 0)" for q
    using filter_update_count [OF i, of "ranOn q" c] by (simp add: n)
  then show ?thesis
    using ok okc' cnt
    by (auto simp: worldOk_def rn netOk_def nth_list_update dest!: set_update_subset_insert [THEN subsetD])
qed

text \<open>The operations on the network keep the servers that are there; a new one starts at zero.\<close>

lemma fold_AddService_count: "rs_count (fold AddService svcs rs) = rs_count rs"
  by (induction svcs arbitrary: rs) (simp_all add: AddService_def)

lemma onNet_world:
  assumes "worldOk gt w" "rn_objs rn = rn_objs (wd_net w)"
    "\<And>sn p. rn_servers rn sn = Some p \<Longrightarrow> rn_servers (wd_net w) sn = Some p"
  shows "worldOk gt ((w :: ('n, 't, 'o, 'v) world)\<lparr>wd_net := rn\<rparr>)"
  using assms by (auto simp: worldOk_def netOk_def)

lemma DoServer_world:
  assumes "worldOk gt w"
  shows "worldOk gt ((w :: ('n, 't, 'o, 'v) world)\<lparr>wd_net := AddServer sn (fold AddService svcs MakeServer) (wd_net w)\<rparr>)"
proof -
  let ?k = "length (rn_objs (wd_net w))"
  have "\<not> ranOn ?k c" if "c \<in> set (wd_calls w)" for c
    using assms that by (force simp: worldOk_def callOk_def ranOn_def)
  then have "filter (ranOn ?k) (wd_calls w) = []" by (simp add: filter_empty_conv)
  then show ?thesis
    using assms
    by (auto simp: worldOk_def netOk_def AddServer_def nth_append less_Suc_eq fold_AddService_count MakeServer_def
        intro: callOk_mono)
qed

lemma DoReceiver_world:
  assumes "worldOk gt w" "p < length (rn_objs (wd_net w))"
  shows "worldOk gt ((w :: ('n, 't, 'o, 'v) world)\<lparr>wd_net :=
    (wd_net w)\<lparr>rn_objs := (rn_objs (wd_net w))[p := setReceiver name x (rn_objs (wd_net w) ! p)]\<rparr>\<rparr>)"
  using assms by (auto simp: worldOk_def netOk_def nth_list_update setReceiver_def)

lemma stepWorld_ok:
  assumes "stepWorld gt a w = Inr w'" "worldOk gt w"
  shows "worldOk gt (w' :: ('n, 't, 'o, 'v) world)"
proof (cases a)
  case (DoMove i m)
  show ?thesis
  proof (cases "i < length (wd_calls w)")
    case True
    then have okc: "callOk gt TYPE('o) (length (rn_objs (wd_net w))) (wd_calls w ! i)" and okn: "netOk (wd_net w)"
      using assms(2) by (auto simp: worldOk_def)
    obtain rn c where s: "stepCall gt (wd_listening w) m (wd_net w) (wd_calls w ! i) = Inr (rn, c)"
      and w': "w' = w\<lparr>wd_net := rn, wd_calls := (wd_calls w)[i := c]\<rparr>"
      using assms(1) True by (auto simp: DoMove rbind_Inr_iff)
    from s okc okn show ?thesis
      by (cases rule: stepCall_cases)
        (simp_all add: w' quiet_world [OF assms(2) True] execute_world [OF assms(2) True])
  qed (use assms DoMove in simp)
next
  case (DoCall e sm ta x tr)
  then show ?thesis
    using assms by (auto simp: worldOk_def newCall_ok)
next
  case (DoServer sn svcs)
  then show ?thesis using assms(1) DoServer_world [OF assms(2)] by (auto simp: onNet_def)
next
  case (DoReceiver p name x)
  then show ?thesis using assms DoReceiver_world [OF assms(2)] by (auto simp: onNet_def split: if_splits)
next
  case DoStopListening
  then show ?thesis using assms by (auto simp: worldOk_def split: if_splits)
qed (use assms in \<open>auto simp: onNet_def MakeEnd_def DeleteServer_def Connect_def Enable_def Reliable_def
    LongReordering_def LongDelays_def Cleanup_def split: if_splits intro!: onNet_world\<close>)

lemma runWorld_ok:
  assumes "runWorld gt as w = Inr w'" "worldOk gt w"
  shows "worldOk gt w'"
  using assms by (induction as arbitrary: w) (auto simp: rbind_Inr_iff dest: stepWorld_ok)

lemma runWorld_append: "runWorld gt (as @ bs) w = rbind (runWorld gt as w) (runWorld gt bs)"
  by (induction as arbitrary: w) (simp_all add: rbind_assoc cong: rbind_cong)

lemma newWorld_ok: "worldOk gt newWorld"
  by (simp add: worldOk_def newWorld_def netOk_def MakeNetwork_def)

section \<open>At most once\<close>


section \<open>A removed server is silent\<close>

definition silent :: "'n \<Rightarrow> nat \<Rightarrow> ('n, 't, 'v) call \<Rightarrow> bool" where
  "silent sn p c \<longleftrightarrow> phasePtr (cl_phase c) = Some (sn, p) \<or>
     (\<exists>r. cl_phase c = Replying r \<and> \<not> rp_ok r) \<or> cl_phase c = Returned None"

lemma stepCall_net:
  assumes "stepCall gt l m rn c = Inr (rn', c')"
  shows "rn_servers rn' = rn_servers rn \<and> length (rn_objs rn') = length (rn_objs rn)"
  using assms
  by (cases m; cases "cl_phase c")
    (auto simp: stepCall_def executeHandler_def finishCall_def Let_def rbind_Inr_iff split: if_splits hrun.splits option.splits)

lemma stepCall_silent:
  assumes "stepCall gt l m rn c = Inr (rn', c')" "silent sn p c" "rn_servers rn sn \<noteq> Some p"
  shows "silent sn p c'"
  using assms
  by (cases m; cases "cl_phase c")
    (auto simp: stepCall_def silent_def executeHandler_def finishCall_def takeReply_def isServerDead_def failure_def
      Let_def rbind_Inr_iff split: if_splits hrun.splits option.splits)

definition gone :: "'n \<Rightarrow> nat \<Rightarrow> ('n, 't, 'o, 'v) Network \<Rightarrow> bool" where
  "gone sn p rn \<longleftrightarrow> p < length (rn_objs rn) \<and> rn_servers rn sn \<noteq> Some p"

lemma stepWorld_silent:
  assumes "stepWorld gt a w = Inr w'" "gone sn p (wd_net w)" "i < length (wd_calls w)" "silent sn p (wd_calls w ! i)"
  shows "gone sn p (wd_net w') \<and> i < length (wd_calls w') \<and> silent sn p (wd_calls w' ! i)"
proof (cases a)
  case (DoMove j m)
  show ?thesis
  proof (cases "j < length (wd_calls w)")
    case True
    then obtain rn c where s: "stepCall gt (wd_listening w) m (wd_net w) (wd_calls w ! j) = Inr (rn, c)"
      and w': "w' = w\<lparr>wd_net := rn, wd_calls := (wd_calls w)[j := c]\<rparr>"
      using assms(1) by (auto simp: DoMove rbind_Inr_iff)
    show ?thesis
      using stepCall_net [OF s] stepCall_silent [OF s, of sn p] assms(2-4)
      by (cases "i = j") (auto simp: w' gone_def)
  qed (use assms DoMove in simp)
qed (use assms in \<open>auto simp: onNet_def gone_def MakeEnd_def AddServer_def DeleteServer_def Connect_def Enable_def
    Reliable_def LongReordering_def LongDelays_def Cleanup_def nth_append split: if_splits\<close>)

lemma runWorld_silent:
  assumes "runWorld gt as w = Inr w'" "gone sn p (wd_net w)" "i < length (wd_calls w)" "silent sn p (wd_calls w ! i)"
  shows "silent sn p (wd_calls w' ! i)"
  using assms
proof (induction as arbitrary: w)
  case (Cons a as)
  then obtain w1 where "stepWorld gt a w = Inr w1" "runWorld gt as w1 = Inr w'"
    by (auto simp: rbind_Inr_iff)
  with stepWorld_silent [OF this(1) Cons.prems(2-4)] Cons.IH [OF this(2)] show ?case by blast
qed simp


section \<open>Delivery\<close>

text \<open>On a reliable network without long reordering, with the end enabled and connected to a
  registered server, a call that is left to run returns what the handler answers.\<close>

definition callMoves :: "nat \<Rightarrow> ('n, 't, 'o, 'v) act list" where
  "callMoves i = map (DoMove i) [Accept, Choose, Dispatch 0, Execute, Receive, Finish 0 0, Return]"

lemma rpc_delivers:
  assumes "wd_listening w" "rn_reliable (wd_net w)" "\<not> rn_longReordering (wd_net w)"
    "rn_enabled (wd_net w) e" "rn_connections (wd_net w) e = Some sn" "rn_servers (wd_net w) sn = Some p"
    "p < length (rn_objs (wd_net w))"
    "srvDispatch gt (cl_req (newCall e sm ta x tr)) (rn_objs (wd_net w) ! p) = Inr (server, r)"
    "rp_ok r" "fst (Decode (asType gt tr) (rp_reply r)) = Inr v"
  shows "\<exists>w'. runWorld gt (DoCall e sm ta x tr # callMoves (length (wd_calls w))) w = Inr w' \<and>
    cl_phase (last (wd_calls w')) = Returned (Some v) \<and> rn_objs (wd_net w') = (rn_objs (wd_net w))[p := server]"
  using assms
  by (simp add: callMoves_def stepCall_def newCall_def chooseServer_def readEndnameInfo_def executeHandler_def
      finishCall_def isServerDead_def takeReply_def at_def addBytes_def last_conv_nth nth_append list_update_append)

section \<open>A concrete network\<close>

text \<open>A counter behind a server named 1, an end named 0, and calls of its only method.\<close>

definition demoTypes :: "(unit, int) gotypes" where
  "demoTypes = \<lparr>gt_zero = (\<lambda>_. 0), gt_has = (\<lambda>_ _. True), gt_len = length\<rparr>"

definition demoService :: "(unit, int, int) Service" where
  "demoService = MakeService ''Counter'' 5
     [\<lparr>mt_name = ''Add'', mt_pkgPath = [], mt_numIn = 3, mt_in2Ptr = True, mt_numOut = 0,
       mt_accepts = (\<lambda>_. True), mt_func = (\<lambda>x y. (x + y, x + y))\<rparr>]"

definition demoSetup :: "(nat, unit, int, int) act list" where
  "demoSetup = [DoEnd 0, DoServer 1 [demoService], DoConnect 0 1, DoEnable 0 True, DoCall 0 ''Counter.Add'' () 2 ()]"

lemmas demo_simps = demoTypes_def demoService_def demoSetup_def callMoves_def newWorld_def MakeNetwork_def MakeEnd_def
  onNet_def AddServer_def AddService_def MakeServer_def MakeService_def suitable_def Connect_def Enable_def newCall_def
  stepCall_def addBytes_def chooseServer_def readEndnameInfo_def executeHandler_def srvDispatch_def svcDispatch_def
  lastDot_def slice_to_def slice_from_def Encode_def asType_def finishCall_def isServerDead_def takeReply_def failure_def
  DeleteServer_def Let_def at_def

lemma demo_call:
  "\<exists>w. runWorld demoTypes (demoSetup @ callMoves 0) newWorld = Inr w \<and>
     0 < length (wd_calls w) \<and> cl_phase (wd_calls w ! 0) = Returned (Some 7)"
  by (simp add: demo_simps)

lemma demo_killed:
  "\<exists>w w'. runWorld demoTypes (demoSetup @ map (DoMove 0) [Accept, Choose, Dispatch 0, Execute] @ [DoDelete 1]) newWorld = Inr w \<and>
     0 < length (wd_calls w) \<and> phasePtr (cl_phase (wd_calls w ! 0)) = Some (1, 0) \<and>
     rn_servers (wd_net w) 1 \<noteq> Some 0 \<and>
     runWorld demoTypes (map (DoMove 0) [Receive, Finish 0 0, Return]) w = Inr w'"
  by (simp add: demo_simps)



end
