(* ===== verification/Labgob_Check.thy ===== *)
theory Labgob_Check
  imports Labgob
begin

text \<open>
  The checks \<^verbatim>\<open>util_files/labgob/labgob.go\<close> makes before it hands a value to \<^verbatim>\<open>encoding/gob\<close>:
  \<open>checkType\<close> walks over a type and warns of fields that are not capitalised, \<open>checkDefault\<close> walks over
  the variable a value is decoded into and warns of what is not zero. The package's variables are
  the record \<open>labgob\<close>; what is printed is a list of messages.

  A \<^verbatim>\<open>reflect.Type\<close> is an element of a type \<open>'t\<close>, and what reflection tells of it is a function to
  \<open>kind\<close>, so that a struct may refer to itself. \<open>checkType\<close> takes fuel: it recurs along the types and
  stops at those it has seen. More fuel than there are types is enough, which \<open>check_type_explores\<close>
  shows together with what is visited and counted. Names are of ASCII characters.
\<close>

section \<open>The capital letters\<close>

datatype 't kind =
    KStruct string "(string \<times> 't) list"   \<comment> \<open>its name, its fields\<close>
  | KSlice 't
  | KArray 't
  | KPtr 't
  | KMap 't 't                             \<comment> \<open>key, element\<close>
  | KOther

datatype gob_msg = LowerCaseField string string | NonDefault string

record 't labgob =
  checked :: "'t set"
  errorCount :: int
  printed :: "gob_msg list"

definition isUpper :: "string \<Rightarrow> bool" where
  "isUpper name \<longleftrightarrow> (case name of [] \<Rightarrow> False | c # cs \<Rightarrow> of_char c \<ge> (65 :: nat) \<and> of_char c \<le> (90 :: nat))"

definition checkField :: "string \<Rightarrow> string \<Rightarrow> 't labgob \<Rightarrow> 't labgob" where
  "checkField tname fname st =
     (if isUpper fname = False
      then st\<lparr>printed := printed st @ [LowerCaseField fname tname], errorCount := errorCount st + 1\<rparr>
      else st)"

fun checkType :: "('t \<Rightarrow> 't kind) \<Rightarrow> nat \<Rightarrow> 't \<Rightarrow> 't labgob \<Rightarrow> 't labgob option"
  and checkFields :: "('t \<Rightarrow> 't kind) \<Rightarrow> nat \<Rightarrow> string \<Rightarrow> (string \<times> 't) list \<Rightarrow> 't labgob \<Rightarrow> 't labgob option" where
  "checkType K 0 t st = None"
| "checkType K (Suc n) t st =
     (if t \<in> checked st then Some st
      else let st1 = st\<lparr>checked := insert t (checked st)\<rparr> in
        case K t of
          KStruct name fs \<Rightarrow> checkFields K n name fs st1
        | KSlice e \<Rightarrow> checkType K n e st1
        | KArray e \<Rightarrow> checkType K n e st1
        | KPtr e \<Rightarrow> checkType K n e st1
        | KMap key e \<Rightarrow> Option.bind (checkType K n e st1) (checkType K n key)
        | KOther \<Rightarrow> Some st1)"
| "checkFields K n name [] st = Some st"
| "checkFields K n name ((f, ft) # fs) st =
     Option.bind (checkType K n ft (checkField name f st)) (checkFields K n name fs)"

text \<open>\<^verbatim>\<open>checkValue\<close>: the type of a nil interface is nil.\<close>

definition checkValue :: "('t \<Rightarrow> 't kind) \<Rightarrow> nat \<Rightarrow> 't option \<Rightarrow> 't labgob \<Rightarrow> 't labgob res option" where
  "checkValue K n t st =
     (case t of None \<Rightarrow> Some (Inl NilDereference) | Some t \<Rightarrow> map_option Inr (checkType K n t st))"

section \<open>What is visited\<close>

primrec parts :: "'t kind \<Rightarrow> 't list" where
  "parts (KStruct name fs) = map snd fs"
| "parts (KSlice e) = [e]"
| "parts (KArray e) = [e]"
| "parts (KPtr e) = [e]"
| "parts (KMap key e) = [e, key]"
| "parts KOther = []"

definition lowers :: "(string \<times> 't) list \<Rightarrow> nat" where
  "lowers fs = length (filter (\<lambda>(f, _). \<not> isUpper f) fs)"

primrec lowersOf :: "'t kind \<Rightarrow> nat" where
  "lowersOf (KStruct name fs) = lowers fs"
| "lowersOf (KSlice e) = 0"
| "lowersOf (KArray e) = 0"
| "lowersOf (KPtr e) = 0"
| "lowersOf (KMap key e) = 0"
| "lowersOf KOther = 0"

text \<open>The types a type is made of.\<close>

inductive partOf :: "('t \<Rightarrow> 't kind) \<Rightarrow> 't \<Rightarrow> 't \<Rightarrow> bool" for K t where
  self: "partOf K t t"
| part: "partOf K t u \<Longrightarrow> v \<in> set (parts (K u)) \<Longrightarrow> partOf K t v"

lemma partOf_trans: "partOf K u v \<Longrightarrow> partOf K t u \<Longrightarrow> partOf K t v"
  by (induction rule: partOf.induct) (auto intro: partOf.intros)

lemma partOf_part: "u \<in> set (parts (K t)) \<Longrightarrow> partOf K u v \<Longrightarrow> partOf K t v"
  by (rule partOf_trans) (auto intro: partOf.intros)

lemma partOf_closed:
  assumes "partOf K t v" "t \<in> C" "\<And>u. u \<in> C \<Longrightarrow> set (parts (K u)) \<subseteq> C"
  shows "v \<in> C"
  using assms by (induction rule: partOf.induct) auto

text \<open>\<open>visits K R k st st'\<close>: from \<open>st\<close> to \<open>st'\<close> the roots \<open>R\<close> were visited, with the parts of everything
  new, nothing that is not a part of a root, and one error more for each lower-case field of what
  is new, beside \<open>k\<close>.\<close>

definition visits :: "('t \<Rightarrow> 't kind) \<Rightarrow> 't set \<Rightarrow> nat \<Rightarrow> 't labgob \<Rightarrow> 't labgob \<Rightarrow> bool" where
  "visits K R k st st' \<longleftrightarrow>
     checked st \<subseteq> checked st' \<and> R \<subseteq> checked st' \<and> finite (checked st' - checked st) \<and>
     (\<forall>u \<in> checked st' - checked st. set (parts (K u)) \<subseteq> checked st' \<and> (\<exists>r \<in> R. partOf K r u)) \<and>
     errorCount st' = errorCount st + int k + int (\<Sum>u \<in> checked st' - checked st. lowersOf (K u))"

lemma visits_refl: "R \<subseteq> checked st \<Longrightarrow> visits K R 0 st st"
  by (simp add: visits_def)

lemma visits_trans:
  assumes "visits K R k st st1" "visits K Q j st1 st2"
  shows "visits K (R \<union> Q) (k + j) st st2"
proof -
  let ?A = "checked st1 - checked st" and ?B = "checked st2 - checked st1"
  have sub: "checked st \<subseteq> checked st1" "checked st1 \<subseteq> checked st2" and fin: "finite ?A" "finite ?B"
    using assms by (auto simp: visits_def)
  have new: "checked st2 - checked st = ?A \<union> ?B" using sub by blast
  have "(\<Sum>u \<in> checked st2 - checked st. lowersOf (K u)) = (\<Sum>u \<in> ?A. lowersOf (K u)) + (\<Sum>u \<in> ?B. lowersOf (K u))"
    unfolding new by (rule sum.union_disjoint) (use fin in auto)
  then have "errorCount st2 = errorCount st + int (k + j) + int (\<Sum>u \<in> checked st2 - checked st. lowersOf (K u))"
    using assms by (simp add: visits_def)
  moreover have "\<forall>u \<in> ?A \<union> ?B. set (parts (K u)) \<subseteq> checked st2 \<and> (\<exists>r \<in> R \<union> Q. partOf K r u)"
  proof
    fix u
    assume "u \<in> ?A \<union> ?B"
    then show "set (parts (K u)) \<subseteq> checked st2 \<and> (\<exists>r \<in> R \<union> Q. partOf K r u)"
    proof
      assume "u \<in> ?A"
      then show ?thesis using assms(1) sub(2) unfolding visits_def by blast
    next
      assume "u \<in> ?B"
      then show ?thesis using assms(2) unfolding visits_def by blast
    qed
  qed
  moreover have "R \<union> Q \<subseteq> checked st2" using assms sub by (auto simp: visits_def)
  ultimately show ?thesis using sub fin unfolding visits_def new by blast
qed

text \<open>Marking a type and then visiting its parts, with the lower-case fields it has.\<close>

lemma visits_mark:
  assumes "t \<notin> checked st" "visits K (set (parts (K t))) (lowersOf (K t)) (st\<lparr>checked := insert t (checked st)\<rparr>) st'"
  shows "visits K {t} 0 st st'"
proof -
  let ?B = "checked st' - insert t (checked st)"
  have fin: "finite ?B" and t: "t \<in> checked st'" using assms(2) by (auto simp: visits_def)
  have new: "checked st' - checked st = insert t ?B" using assms(1) t by blast
  have "(\<Sum>u \<in> checked st' - checked st. lowersOf (K u)) = lowersOf (K t) + (\<Sum>u \<in> ?B. lowersOf (K u))"
    unfolding new by (rule sum.insert) (use fin in auto)
  moreover have "\<forall>u \<in> insert t ?B. set (parts (K u)) \<subseteq> checked st' \<and> partOf K t u"
    using assms(2) by (auto simp: visits_def intro: partOf.self partOf_part)
  ultimately show ?thesis using assms(2) fin unfolding visits_def new by auto
qed

lemma checkField_visits: "visits K {} (lowers [(f, ft)]) st (checkField name f st)"
  by (simp add: visits_def checkField_def lowers_def)

lemma checkType_visits: "checkType K n t st = Some st' \<Longrightarrow> visits K {t} 0 st st'"
  and checkFields_visits: "checkFields K n name fs st = Some st' \<Longrightarrow> visits K (set (map snd fs)) (lowers fs) st st'"
proof (induction K n t st and K n name fs st arbitrary: st' and st' rule: checkType_checkFields.induct)
  case (2 K n t st)
  show ?case
  proof (cases "t \<in> checked st")
    case True
    then show ?thesis using 2 by (simp add: visits_refl)
  next
    case False
    let ?st1 = "st\<lparr>checked := insert t (checked st)\<rparr>"
    have "visits K (set (parts (K t))) (lowersOf (K t)) ?st1 st'"
    proof (cases "K t")
      case (KMap key e)
      then obtain st2 where s: "checkType K n e ?st1 = Some st2" "checkType K n key st2 = Some st'"
        using 2(7) False by (auto simp: Let_def bind_eq_Some_conv)
      have "visits K ({e} \<union> {key}) (0 + 0) ?st1 st'"
        using 2(5) [OF False refl KMap s(1)] 2(6) [OF False refl KMap s] by (rule visits_trans)
      then show ?thesis by (simp add: KMap insert_commute)
    qed (use 2 False in \<open>auto simp: Let_def visits_refl\<close>)
    with False show ?thesis by (rule visits_mark)
  qed
next
  case (4 K n name f ft fs st)
  then obtain st1 where s: "checkType K n ft (checkField name f st) = Some st1" "checkFields K n name fs st1 = Some st'"
    by (auto simp: bind_eq_Some_conv)
  have "visits K ({} \<union> {ft} \<union> set (map snd fs)) (lowers [(f, ft)] + 0 + lowers fs) st st'"
    by (intro visits_trans [OF visits_trans [OF checkField_visits 4(1)]] 4(2)) (rule s)+
  then show ?case by (simp add: lowers_def split: if_splits)
qed (simp_all add: visits_refl lowers_def)

text \<open>More fuel than unseen types is enough, when the types in play are finitely many.\<close>

definition closedTypes :: "('t \<Rightarrow> 't kind) \<Rightarrow> 't set \<Rightarrow> bool" where
  "closedTypes K U \<longleftrightarrow> (\<forall>t \<in> U. set (parts (K t)) \<subseteq> U)"

lemma checkField_checked [simp]: "checked (checkField name f st) = checked st"
  by (simp add: checkField_def)

lemma unseen_mono:
  assumes "checked st \<subseteq> checked st'" "finite U"
  shows "card (U - checked st') \<le> card (U - checked st)"
  using assms by (intro card_mono) auto

lemma unseen_mark:
  assumes "t \<in> U" "t \<notin> checked st" "finite U"
  shows "Suc (card (U - insert t (checked st))) = card (U - checked st)"
proof -
  have "U - insert t (checked st) = (U - checked st) - {t}" by blast
  then show ?thesis using assms card_Suc_Diff1 [of "U - checked st" t] by simp
qed

lemma checkType_fuel:
    "t \<in> U \<Longrightarrow> card (U - checked st) < n \<Longrightarrow> finite U \<Longrightarrow> closedTypes K U \<Longrightarrow> \<exists>st'. checkType K n t st = Some st'"
  and checkFields_fuel:
    "set (map snd fs) \<subseteq> U \<Longrightarrow> card (U - checked st) < n \<Longrightarrow> finite U \<Longrightarrow> closedTypes K U \<Longrightarrow>
     \<exists>st'. checkFields K n name fs st = Some st'"
proof (induction K n t st and K n name fs st rule: checkType_checkFields.induct)
  case (2 K n t st)
  show ?case
  proof (cases "t \<in> checked st")
    case False
    let ?st1 = "st\<lparr>checked := insert t (checked st)\<rparr>"
    have c: "card (U - checked ?st1) < n"
      using 2 False unseen_mark [of t U st] by simp
    have p: "set (parts (K t)) \<subseteq> U" using 2 by (auto simp: closedTypes_def)
    show ?thesis
    proof (cases "K t")
      case (KMap key e)
      obtain st2 where s: "checkType K n e ?st1 = Some st2"
        using 2(5) [OF False refl KMap] c p 2 by (auto simp: KMap)
      have "checked ?st1 \<subseteq> checked st2" using checkType_visits [OF s] by (simp add: visits_def)
      then have "card (U - checked st2) < n" using c unseen_mono [of ?st1 st2 U] 2 by simp
      then obtain st3 where "checkType K n key st2 = Some st3"
        using 2(6) [OF False refl KMap s] p 2 by (auto simp: KMap)
      then show ?thesis using False s by (simp add: KMap Let_def)
    qed (use 2 False c p in \<open>auto simp: Let_def\<close>)
  qed simp
next
  case (4 K n name f ft fs st)
  obtain st1 where s: "checkType K n ft (checkField name f st) = Some st1"
    using 4 by auto
  have "checked st \<subseteq> checked st1" using checkType_visits [OF s] by (simp add: visits_def)
  then have "card (U - checked st1) < n" using unseen_mono [of st st1 U] 4 by simp
  then obtain st2 where "checkFields K n name fs st1 = Some st2"
    using 4(2) [OF s] 4 by auto
  then show ?case using s by simp
qed simp_all

text \<open>C18. \<^verbatim>\<open>checkType\<close>: on any type, self-referring types included, the check returns; it has then
  seen the type and everything it is made of, and has reported each lower-case field of what it
  had not seen before exactly once. Stated for a state in which the parts of what was seen are seen
  too, as it is at the start and after every check.\<close>

theorem check_type_explores:
  assumes "finite U" "closedTypes K U" "t \<in> U" "card U < n" "closedTypes K (checked st)"
  shows "\<exists>st'. checkType K n t st = Some st' \<and> checked st' = checked st \<union> {u. partOf K t u} \<and>
     closedTypes K (checked st') \<and>
     errorCount st' = errorCount st + int (\<Sum>u \<in> {u. partOf K t u} - checked st. lowersOf (K u))"
proof -
  have "card (U - checked st) \<le> card U" using assms(1) by (intro card_mono) auto
  then obtain st' where s: "checkType K n t st = Some st'"
    using checkType_fuel [of t U st n K] assms by auto
  have v: "visits K {t} 0 st st'" by (rule checkType_visits [OF s])
  then have closed: "closedTypes K (checked st')"
    using assms(5) by (auto simp: visits_def closedTypes_def)
  have "u \<in> checked st'" if "partOf K t u" for u
    using partOf_closed [OF that, of "checked st'"] closed v by (auto simp: visits_def closedTypes_def)
  with v have new: "checked st' = checked st \<union> {u. partOf K t u}" by (auto simp: visits_def)
  then have "checked st' - checked st = {u. partOf K t u} - checked st" by blast
  with v s closed new show ?thesis by (auto simp: visits_def)
qed

text \<open>A list of maps from a struct with a lower-case field to itself, behind a pointer.\<close>

definition demoKind :: "nat \<Rightarrow> nat kind" where
  "demoKind t = (if t = 0 then KSlice 1 else if t = 1 then KMap 2 3 else if t = 2 then KPtr 3
     else if t = 3 then KStruct ''T4'' [(''Yes'', 4), (''no'', 4), (''Next'', 2)] else KOther)"

theorem check_type_explores_witness:
  "closedTypes demoKind {0, 1, 2, 3, 4} \<and>
   (\<exists>st'. checkType demoKind 6 0 \<lparr>checked = {}, errorCount = 0, printed = []\<rparr> = Some st' \<and>
      checked st' = {u. partOf demoKind 0 u})"
proof -
  have c: "closedTypes demoKind {0, 1, 2, 3, 4}" by (simp add: closedTypes_def demoKind_def)
  from check_type_explores [OF _ this, of 0 6 "\<lparr>checked = {}, errorCount = 0, printed = []\<rparr>"] show ?thesis
    using c by (auto simp: closedTypes_def)
qed

lemma demo_capital:
  "map_option errorCount (checkType demoKind 6 0 \<lparr>checked = {}, errorCount = 0, printed = []\<rparr>) = Some 1"
  by (simp add: demoKind_def numeral_eq_Suc Let_def checkField_def isUpper_def)

section \<open>The variable decoded into\<close>

text \<open>A value as reflection shows it, down to the depth the check looks at. \<open>GScalar\<close> has the name of
  its type; maps, slices, interfaces and the rest are \<open>GOther\<close>.
  \<open>SFloat m e\<close> is the number \<open>m * 2 ^ e\<close>.\<close>

datatype scalar = SBool bool | SInt int | SFloat int int | SString string

datatype gval =
    GStruct "(string \<times> gval) list"
  | GPtr "gval option"
  | GScalar string scalar
  | GOther

primrec isZero :: "scalar \<Rightarrow> bool" where
  "isZero (SBool b) \<longleftrightarrow> b = False"
| "isZero (SInt i) \<longleftrightarrow> i = 0"
| "isZero (SFloat m e) \<longleftrightarrow> m = 0"
| "isZero (SString s) \<longleftrightarrow> s = []"

definition warnDefault :: "string \<Rightarrow> string \<Rightarrow> 't labgob \<Rightarrow> 't labgob" where
  "warnDefault tname name st =
     (let st1 = (if errorCount st < 1
                 then st\<lparr>printed := printed st @ [NonDefault (if name = [] then tname else name)]\<rparr> else st)
      in st1\<lparr>errorCount := errorCount st1 + 1\<rparr>)"

definition fieldName :: "string \<Rightarrow> string \<Rightarrow> string" where
  "fieldName name f = (if name \<noteq> [] then name @ ''.'' @ f else f)"

definition readOnly :: "go_panic" where
  "readOnly = Panic ''reflect.Value.Interface: cannot return value obtained from unexported field or method''"

text \<open>\<open>ro\<close>: the value was reached through a field that is not exported, so that
  \<^verbatim>\<open>value.Interface()\<close> panics.\<close>

fun checkDefault1 :: "bool \<Rightarrow> gval \<Rightarrow> nat \<Rightarrow> string \<Rightarrow> 't labgob \<Rightarrow> 't labgob res"
  and checkDefaultFields :: "bool \<Rightarrow> (string \<times> gval) list \<Rightarrow> nat \<Rightarrow> string \<Rightarrow> 't labgob \<Rightarrow> 't labgob res" where
  "checkDefault1 ro (GStruct fs) depth name st =
     (if depth > 3 then Inr st else checkDefaultFields ro fs depth name st)"
| "checkDefault1 ro (GPtr None) depth name st = Inr st"
| "checkDefault1 ro (GPtr (Some v)) depth name st =
     (if depth > 3 then Inr st else checkDefault1 ro v (depth + 1) name st)"
| "checkDefault1 ro (GScalar tname s) depth name st =
     (if depth > 3 then Inr st
      else if ro then Inl readOnly
      else if isZero s = False then Inr (warnDefault tname name st) else Inr st)"
| "checkDefault1 ro GOther depth name st = Inr st"
| "checkDefaultFields ro [] depth name st = Inr st"
| "checkDefaultFields ro ((f, vv) # fs) depth name st =
     rbind (checkDefault1 (ro \<or> \<not> isUpper f) vv (depth + 1) (fieldName name f) st)
       (checkDefaultFields ro fs depth name)"

definition checkDefault :: "gval option \<Rightarrow> 't labgob \<Rightarrow> 't labgob res" where
  "checkDefault value st = (case value of None \<Rightarrow> Inr st | Some v \<Rightarrow> checkDefault1 False v 1 [] st)"

text \<open>\<^verbatim>\<open>LabEncoder.Encode\<close>, \<^verbatim>\<open>EncodeValue\<close> and \<^verbatim>\<open>LabDecoder.Decode\<close>: the checks, then the gob. A type has
  as many parts as the fuel allows.\<close>

definition labEncode ::
    "('t \<Rightarrow> 't kind) \<Rightarrow> nat \<Rightarrow> 't option \<Rightarrow> 'v \<Rightarrow> 'v gob \<Rightarrow> 't labgob \<Rightarrow> ('t labgob \<times> 'v gob) res option" where
  "labEncode K n t v w st = map_option (\<lambda>m. rbind m (\<lambda>st'. Inr (st', Encode w v))) (checkValue K n t st)"

definition labDecode ::
    "('t \<Rightarrow> 't kind) \<Rightarrow> nat \<Rightarrow> 't option \<Rightarrow> gval option \<Rightarrow> ('v \<Rightarrow> 'a option) \<Rightarrow> 'v gob \<Rightarrow> 't labgob \<Rightarrow>
     ('t labgob \<times> (gob_error + 'a) \<times> 'v gob) res option" where
  "labDecode K n t var typ r st =
     map_option (\<lambda>m. rbind m (\<lambda>st1. rbind (checkDefault var st1) (\<lambda>st2. Inr (st2, Decode typ r)))) (checkValue K n t st)"

text \<open>What the check should find: the names of the scalars that are not zero, and whether a scalar
  stands behind an unexported field, at most three levels down.\<close>

fun nonDefaults :: "gval \<Rightarrow> nat \<Rightarrow> string \<Rightarrow> string list"
  and nonDefaultFields :: "(string \<times> gval) list \<Rightarrow> nat \<Rightarrow> string \<Rightarrow> string list" where
  "nonDefaults (GStruct fs) k name = (case k of 0 \<Rightarrow> [] | Suc j \<Rightarrow> nonDefaultFields fs j name)"
| "nonDefaults (GPtr None) k name = []"
| "nonDefaults (GPtr (Some v)) k name = (case k of 0 \<Rightarrow> [] | Suc j \<Rightarrow> nonDefaults v j name)"
| "nonDefaults (GScalar tname s) k name =
     (if k = 0 \<or> isZero s then [] else [if name = [] then tname else name])"
| "nonDefaults GOther k name = []"
| "nonDefaultFields [] k name = []"
| "nonDefaultFields ((f, v) # fs) k name = nonDefaults v k (fieldName name f) @ nonDefaultFields fs k name"

fun hiddenScalar :: "bool \<Rightarrow> gval \<Rightarrow> nat \<Rightarrow> bool"
  and hiddenFields :: "bool \<Rightarrow> (string \<times> gval) list \<Rightarrow> nat \<Rightarrow> bool" where
  "hiddenScalar ro (GStruct fs) k \<longleftrightarrow> (case k of 0 \<Rightarrow> False | Suc j \<Rightarrow> hiddenFields ro fs j)"
| "hiddenScalar ro (GPtr None) k \<longleftrightarrow> False"
| "hiddenScalar ro (GPtr (Some v)) k \<longleftrightarrow> (case k of 0 \<Rightarrow> False | Suc j \<Rightarrow> hiddenScalar ro v j)"
| "hiddenScalar ro (GScalar tname s) k \<longleftrightarrow> 0 < k \<and> ro"
| "hiddenScalar ro GOther k \<longleftrightarrow> False"
| "hiddenFields ro [] k \<longleftrightarrow> False"
| "hiddenFields ro ((f, v) # fs) k \<longleftrightarrow> hiddenScalar (ro \<or> \<not> isUpper f) v k \<or> hiddenFields ro fs k"

text \<open>The report of a list of names: all are counted, the first is printed if nothing was counted
  before.\<close>

definition report :: "string list \<Rightarrow> 't labgob \<Rightarrow> 't labgob" where
  "report names st =
     st\<lparr>errorCount := errorCount st + int (length names),
        printed := printed st @ (if errorCount st < 1 then map NonDefault (take 1 names) else [])\<rparr>"

lemma report_Nil [simp]: "report [] st = st"
  by (simp add: report_def)

lemma report_append: "0 \<le> errorCount st \<Longrightarrow> report ys (report xs st) = report (xs @ ys) st"
  by (cases xs) (auto simp: report_def)

lemma report_nonneg [simp]: "0 \<le> errorCount st \<Longrightarrow> 0 \<le> errorCount (report names st)"
  by (simp add: report_def)

lemma levels: "depth \<le> 3 \<Longrightarrow> 4 - depth = Suc (3 - depth)"
  by simp

lemma checkDefault1_report:
    "0 \<le> errorCount st \<Longrightarrow> checkDefault1 ro v depth name st =
       (if hiddenScalar ro v (4 - depth) then Inl readOnly else Inr (report (nonDefaults v (4 - depth) name) st))"
  and checkDefaultFields_report:
    "0 \<le> errorCount st \<Longrightarrow> depth \<le> 3 \<Longrightarrow> checkDefaultFields ro fs depth name st =
       (if hiddenFields ro fs (3 - depth) then Inl readOnly else Inr (report (nonDefaultFields fs (3 - depth) name) st))"
proof (induction ro v depth name st and ro fs depth name st rule: checkDefault1_checkDefaultFields.induct)
  case (1 ro fs depth name st)
  then show ?case by (cases "depth \<le> 3") (simp_all add: levels)
next
  case (3 ro v depth name st)
  then show ?case by (cases "depth \<le> 3") (simp_all add: levels)
next
  case (4 ro tname s depth name st)
  then show ?case by (auto simp: report_def warnDefault_def)
next
  case (7 ro f vv fs depth name st)
  then show ?case by (auto simp: report_append)
qed simp_all

lemma check_default_reports:
  assumes "0 \<le> errorCount st"
  shows "checkDefault (Some v) st =
    (if hiddenScalar False v 3 then Inl readOnly else Inr (report (nonDefaults v 3 []) st))"
  using checkDefault1_report [OF assms, of False v 1 "[]"] by (simp add: checkDefault_def)

text \<open>Decoding into a struct with a field \<open>no\<close> of type int does not warn of the field, it panics.\<close>

lemma decode_into_lower_case_panics:
  "checkDefault (Some (GPtr (Some (GStruct [(''Yes'', GScalar ''int'' (SInt 0)), (''no'', GScalar ''int'' (SInt 0))]))))
     \<lparr>checked = {}, errorCount = 0, printed = []\<rparr> = Inl readOnly"
  by (simp add: checkDefault_def isUpper_def)

end
