(* ===== verification/Raft_Tester.thy ===== *)
theory Raft_Tester
  imports Labrpc Raft_Cluster Raft_Apply
begin

text \<open>
  The tester of Raft, \<^verbatim>\<open>db_files/raft/config.go\<close>: it starts the servers, connects and partitions
  them through the simulated network, crashes and restarts them from their stable storage, reads
  what they apply, and checks it. The record \<open>config\<close> is the struct of the source. Servers are
  objects shared with the network and the goroutines, so \<open>cf_procs\<close> lists every server ever made
  and \<open>cf_rafts\<close> holds positions in it; a server keeps its \<^verbatim>\<open>Persister\<close>, and \<open>cf_saved\<close> refers to it
  as \<open>InRaft\<close> while the two share it. In the network a server's name is a number and an end's name a
  string. The random names of ends and the random numbers given to \<^verbatim>\<open>Make\<close> are arguments, and so
  are the methods reflection finds of a \<^verbatim>\<open>Raft\<close>. What the tester prints is left out.
\<close>

section \<open>Data\<close>

datatype ('c, 's) saved = Held "('c raft_item, 's) Persister" | InRaft nat

record ('c, 's, 't, 'v) config =
  cf_net :: "(int + string, 't, nat, 'v) Network"
  cf_n :: nat
  cf_procs :: "('c, 's) Raft list"
  cf_rafts :: "nat option list"
  cf_applyErr :: "string list"
  cf_connected :: "bool list"
  cf_saved :: "('c, 's) saved option list"
  cf_endnames :: "string list option list"
  cf_logs :: "(int \<rightharpoonup> 'c option) list"
  cf_rpcs0 :: int
  cf_cmds0 :: int
  cf_bytes0 :: "64 word"
  cf_maxIndex :: int
  cf_maxIndex0 :: int

definition overNet ::
    "((int + string, 't, nat, 'v) Network \<Rightarrow> (int + string, 't, nat, 'v) Network) \<Rightarrow>
     ('c, 's, 't, 'v) config \<Rightarrow> ('c, 's, 't, 'v) config" where
  "overNet f cfg = cfg\<lparr>cf_net := f (cf_net cfg)\<rparr>"

section \<open>Connections\<close>

text \<open>The names of one server's ends; a nil slice has none.\<close>

definition names :: "string list option \<Rightarrow> string list" where
  "names es = (case es of None \<Rightarrow> [] | Some es \<Rightarrow> es)"

text \<open>A loop over all servers that switches on or off one end for each of them, if there is one to
  switch. \<open>connectedEnd\<close> and \<open>startedEnd\<close> are the guards of the loops with the end they lead to.\<close>

definition switchEnds ::
    "bool \<Rightarrow> (nat \<Rightarrow> ('c, 's, 't, 'v) config \<Rightarrow> string option res) \<Rightarrow> ('c, 's, 't, 'v) config \<Rightarrow>
     ('c, 's, 't, 'v) config res" where
  "switchEnds b endOf cfg =
     forR (\<lambda>j cfg. rbind (endOf j cfg) (\<lambda>e.
       case e of None \<Rightarrow> Inr cfg | Some endname \<Rightarrow> Inr (overNet (Enable (Inr endname) b) cfg))) [0..<cf_n cfg] cfg"

definition endAt :: "nat \<Rightarrow> nat \<Rightarrow> ('c, 's, 't, 'v) config \<Rightarrow> string option res" where
  "endAt i j cfg = rbind (at (cf_endnames cfg) (int i)) (\<lambda>es. rbind (at (names es) (int j)) (\<lambda>e. Inr (Some e)))"

definition connectedEnd :: "nat \<Rightarrow> nat \<Rightarrow> nat \<Rightarrow> ('c, 's, 't, 'v) config \<Rightarrow> string option res" where
  "connectedEnd k i j cfg = rbind (at (cf_connected cfg) (int k)) (\<lambda>c. if c then endAt i j cfg else Inr None)"

definition startedEnd :: "nat \<Rightarrow> nat \<Rightarrow> ('c, 's, 't, 'v) config \<Rightarrow> string option res" where
  "startedEnd i j cfg =
     rbind (at (cf_endnames cfg) (int i)) (\<lambda>es. if es \<noteq> None then endAt i j cfg else Inr None)"

definition connect :: "nat \<Rightarrow> ('c, 's, 't, 'v) config \<Rightarrow> ('c, 's, 't, 'v) config res" where
  "connect i cfg =
     rbind (put (cf_connected cfg) (int i) True) (\<lambda>conn.
     rbind (switchEnds True (\<lambda>j. connectedEnd j i j) (cfg\<lparr>cf_connected := conn\<rparr>))
           (switchEnds True (\<lambda>j. connectedEnd j j i)))"

definition disconnect :: "nat \<Rightarrow> ('c, 's, 't, 'v) config \<Rightarrow> ('c, 's, 't, 'v) config res" where
  "disconnect i cfg =
     rbind (put (cf_connected cfg) (int i) False) (\<lambda>conn.
     rbind (switchEnds False (\<lambda>j. startedEnd i j) (cfg\<lparr>cf_connected := conn\<rparr>))
           (switchEnds False (\<lambda>j. startedEnd j i)))"

section \<open>Crash and restart\<close>

text \<open>The object behind \<^verbatim>\<open>cfg.saved[i]\<close>.\<close>

definition savedPersister ::
    "('c, 's) saved \<Rightarrow> ('c, 's, 't, 'v) config \<Rightarrow> ('c raft_item, 's) Persister res" where
  "savedPersister s cfg =
     (case s of Held ps \<Rightarrow> Inr ps | InRaft q \<Rightarrow> rbind (at (cf_procs cfg) (int q)) (\<lambda>rf. Inr (rf_persister rf)))"

text \<open>\<^verbatim>\<open>cfg.saved[i] = f(cfg.saved[i])\<close> with a function that makes a new object.\<close>

definition renewSaved ::
    "(('c raft_item, 's) Persister \<Rightarrow> ('c raft_item, 's) Persister) \<Rightarrow> nat \<Rightarrow>
     ('c, 's, 't, 'v) config \<Rightarrow> ('c, 's, 't, 'v) config res" where
  "renewSaved f i cfg =
     rbind (at (cf_saved cfg) (int i)) (\<lambda>s.
       case s of None \<Rightarrow> Inr cfg
       | Some s \<Rightarrow> rbind (savedPersister s cfg) (\<lambda>ps. Inr (cfg\<lparr>cf_saved := (cf_saved cfg)[i := Some (Held (f ps))]\<rparr>)))"

definition resave :: "('c raft_item, 's) Persister \<Rightarrow> ('c raft_item, 's) Persister" where
  "resave ps = SaveStateAndSnapshot MakePersister (ReadRaftState ps) (ReadSnapshot ps)"

definition killRaft :: "nat \<Rightarrow> ('c, 's, 't, 'v) config \<Rightarrow> ('c, 's, 't, 'v) config res" where
  "killRaft i cfg =
     rbind (at (cf_rafts cfg) (int i)) (\<lambda>rf.
       case rf of None \<Rightarrow> Inr cfg
       | Some q \<Rightarrow> rbind (at (cf_procs cfg) (int q)) (\<lambda>r.
           Inr (cfg\<lparr>cf_procs := (cf_procs cfg)[q := Kill r], cf_rafts := (cf_rafts cfg)[i := None]\<rparr>)))"

definition crash1 :: "nat \<Rightarrow> ('c, 's, 't, 'v) config \<Rightarrow> ('c, 's, 't, 'v) config res" where
  "crash1 i cfg =
     rbind (disconnect i cfg) (\<lambda>cfg.
     rbind (renewSaved Copy i (overNet (DeleteServer (Inl (int i))) cfg)) (\<lambda>cfg.
     rbind (killRaft i cfg) (\<lambda>cfg.
       renewSaved resave i cfg)))"

text \<open>\<^verbatim>\<open>start1\<close>: \<open>es\<close> are the names \<^verbatim>\<open>randstring\<close> returns, \<open>methods\<close> those of a \<^verbatim>\<open>Raft\<close>, \<open>r\<close> the random number
  of the first election timeout.\<close>

definition makeEnds :: "string list \<Rightarrow> ('c, 's, 't, 'v) config \<Rightarrow> ('c, 's, 't, 'v) config res" where
  "makeEnds es =
     forR (\<lambda>j cfg.
       rbind (at es (int j)) (\<lambda>e.
       rbind (MakeEnd (Inr e) (cf_net cfg)) (\<lambda>net.
         Inr (cfg\<lparr>cf_net := Connect (Inr e) (Inl (int j)) net\<rparr>)))) [0..<length es]"

definition copySaved :: "nat \<Rightarrow> ('c, 's, 't, 'v) config \<Rightarrow> ('c raft_item, 's) Persister res" where
  "copySaved i cfg =
     rbind (at (cf_saved cfg) (int i)) (\<lambda>s.
       case s of Some s \<Rightarrow> rbind (savedPersister s cfg) (\<lambda>ps. Inr (Copy ps)) | None \<Rightarrow> Inr MakePersister)"


definition start1 ::
    "('t, nat, 'v) Method list \<Rightarrow> nat \<Rightarrow> (nat \<Rightarrow> string) \<Rightarrow> nat \<Rightarrow> ('c, 's, 't, 'v) config \<Rightarrow>
     ('c, 's, 't, 'v) config res" where
  "start1 methods i randstring r cfg =
     (let es = map randstring [0..<cf_n cfg] in
      rbind (crash1 i cfg) (\<lambda>cfg.
      rbind (put (cf_endnames cfg) (int i) (Some es)) (\<lambda>ens.
      rbind (makeEnds es (cfg\<lparr>cf_endnames := ens\<rparr>)) (\<lambda>cfg.
      rbind (copySaved i cfg) (\<lambda>ps.
      rbind (Make (cf_n cfg) (int i) ps r) (\<lambda>rf.
        let q = length (cf_procs cfg);
            srv = AddService (MakeService ''Raft'' q methods) MakeServer
        in Inr (overNet (AddServer (Inl (int i)) srv)
             (cfg\<lparr>cf_procs := cf_procs cfg @ [rf], cf_rafts := (cf_rafts cfg)[i := Some q],
                  cf_saved := (cf_saved cfg)[i := Some (InRaft q)]\<rparr>))))))))"

text \<open>\<^verbatim>\<open>make_config\<close>: the record before the servers are started, then all of them started and connected.\<close>

definition setunreliable :: "bool \<Rightarrow> ('c, 's, 't, 'v) config \<Rightarrow> ('c, 's, 't, 'v) config" where
  "setunreliable unrel = overNet (Reliable (\<not> unrel))"

definition setlongreordering :: "bool \<Rightarrow> ('c, 's, 't, 'v) config \<Rightarrow> ('c, 's, 't, 'v) config" where
  "setlongreordering longrel = overNet (LongReordering longrel)"

definition emptyConfig :: "nat \<Rightarrow> ('c, 's, 't, 'v) config" where
  "emptyConfig n = \<lparr>cf_net = MakeNetwork, cf_n = n, cf_procs = [], cf_rafts = replicate n None,
     cf_applyErr = replicate n [], cf_connected = replicate n False, cf_saved = replicate n None,
     cf_endnames = replicate n None, cf_logs = replicate n Map.empty, cf_rpcs0 = 0, cf_cmds0 = 0, cf_bytes0 = 0,
     cf_maxIndex = 0, cf_maxIndex0 = 0\<rparr>"

definition make_config ::
    "('t, nat, 'v) Method list \<Rightarrow> nat \<Rightarrow> bool \<Rightarrow> (nat \<Rightarrow> nat \<Rightarrow> string) \<Rightarrow> (nat \<Rightarrow> nat) \<Rightarrow> ('c, 's, 't, 'v) config res" where
  "make_config methods n unreliable randstring r =
     rbind (forR (\<lambda>i. start1 methods i (randstring i) (r i)) [0..<n]
              (overNet (LongDelays True) (setunreliable unreliable (emptyConfig n))))
           (forR connect [0..<n])"

text \<open>\<^verbatim>\<open>cleanup\<close> and the statistics of \<^verbatim>\<open>begin\<close> and \<^verbatim>\<open>end\<close>: what \<open>end\<close> returns is what it prints.\<close>

definition cleanup :: "('c, 's, 't, 'v) config \<Rightarrow> ('c, 's, 't, 'v) config res" where
  "cleanup cfg =
     rbind (forR (\<lambda>i cfg.
         rbind (at (cf_rafts cfg) (int i)) (\<lambda>rf.
           case rf of None \<Rightarrow> Inr cfg
           | Some q \<Rightarrow> rbind (at (cf_procs cfg) (int q)) (\<lambda>r. Inr (cfg\<lparr>cf_procs := (cf_procs cfg)[q := Kill r]\<rparr>))))
       [0..<length (cf_rafts cfg)] cfg) (\<lambda>cfg.
     rbind (Cleanup (cf_net cfg)) (\<lambda>net. Inr (cfg\<lparr>cf_net := net\<rparr>)))"

definition rpcCount :: "nat \<Rightarrow> ('c, 's, 't, 'v) config \<Rightarrow> int res" where
  "rpcCount server cfg = netGetCount (Inl (int server)) (cf_net cfg)"

definition rpcTotal :: "('c, 's, 't, 'v) config \<Rightarrow> int" where
  "rpcTotal cfg = GetTotalCount (cf_net cfg)"

definition bytesTotal :: "('c, 's, 't, 'v) config \<Rightarrow> 64 word" where
  "bytesTotal cfg = GetTotalBytes (cf_net cfg)"

definition beginTest :: "('c, 's, 't, 'v) config \<Rightarrow> ('c, 's, 't, 'v) config" where
  "beginTest cfg = cfg\<lparr>cf_rpcs0 := rpcTotal cfg, cf_bytes0 := bytesTotal cfg, cf_cmds0 := 0,
     cf_maxIndex0 := cf_maxIndex cfg\<rparr>"

definition endTest :: "('c, 's, 't, 'v) config \<Rightarrow> nat \<times> int \<times> 64 word \<times> int" where
  "endTest cfg = (cf_n cfg, rpcTotal cfg - cf_rpcs0 cfg, bytesTotal cfg - cf_bytes0 cfg,
     cf_maxIndex cfg - cf_maxIndex0 cfg)"

definition LogSize :: "('c raft_item gob \<Rightarrow> int) \<Rightarrow> ('c, 's, 't, 'v) config \<Rightarrow> int res" where
  "LogSize bytelen cfg =
     forR (\<lambda>i logsize.
       rbind (at (cf_saved cfg) (int i)) (\<lambda>s.
         case s of None \<Rightarrow> Inl NilDereference
         | Some s \<Rightarrow> rbind (savedPersister s cfg) (\<lambda>ps.
             Inr (let n = RaftStateSize bytelen ps in if n > logsize then n else logsize)))) [0..<cf_n cfg] 0"

section \<open>What the servers apply\<close>

text \<open>\<^verbatim>\<open>checkLogs\<close>: the message is \<open>None\<close> when it is empty; \<open>CommitMismatch\<close> has the server and the other.\<close>

datatype apply_err = CommitMismatch int nat nat | OutOfOrder nat int

definition mismatch :: "nat \<Rightarrow> int \<Rightarrow> 'c option \<Rightarrow> (int \<rightharpoonup> 'c option) list \<Rightarrow> apply_err option" where
  "mismatch i index v logs =
     foldl (\<lambda>err j. case (logs ! j) index of
              Some old \<Rightarrow> if old \<noteq> v then Some (CommitMismatch index i j) else err
            | None \<Rightarrow> err) None [0..<length logs]"

definition checkLogs ::
    "nat \<Rightarrow> ('c, 's) ApplyMsg \<Rightarrow> ('c, 's, 't, 'v) config \<Rightarrow> (('c, 's, 't, 'v) config \<times> apply_err option \<times> bool) res" where
  "checkLogs i m cfg =
     (let err_msg = mismatch i (amCommandIndex m) (amCommand m) (cf_logs cfg) in
      rbind (at (cf_logs cfg) (int i)) (\<lambda>log.
        let prevok = (log (amCommandIndex m - 1) \<noteq> None);
            cfg1 = cfg\<lparr>cf_logs := (cf_logs cfg)[i := log(amCommandIndex m \<mapsto> amCommand m)]\<rparr>;
            cfg2 = (if amCommandIndex m > cf_maxIndex cfg1 then cfg1\<lparr>cf_maxIndex := amCommandIndex m\<rparr> else cfg1)
        in Inr (cfg2, err_msg, prevok)))"

text \<open>The check both readers of the apply channel make; an error ends the tests.\<close>

definition applyChecked ::
    "nat \<Rightarrow> ('c, 's) ApplyMsg \<Rightarrow> ('c, 's, 't, 'v) config \<Rightarrow> (apply_err + ('c, 's, 't, 'v) config) res" where
  "applyChecked i m cfg =
     rbind (checkLogs i m cfg) (\<lambda>(cfg1, err_msg, prevok).
       let err = (if amCommandIndex m > 1 \<and> prevok = False then Some (OutOfOrder i (amCommandIndex m)) else err_msg)
       in case err of Some e \<Rightarrow> Inr (Inl e) | None \<Rightarrow> Inr (Inr cfg1))"

fun applier ::
    "nat \<Rightarrow> ('c, 's) ApplyMsg list \<Rightarrow> ('c, 's, 't, 'v) config \<Rightarrow> (apply_err + ('c, 's, 't, 'v) config) res" where
  "applier i [] cfg = Inr (Inr cfg)"
| "applier i (m # ms) cfg =
     (if amCommandValid m = False then applier i ms cfg
      else rbind (applyChecked i m cfg) (\<lambda>r. case r of Inl e \<Rightarrow> Inr (Inl e) | Inr cfg1 \<Rightarrow> applier i ms cfg1))"

definition SnapShotInterval :: int where "SnapShotInterval = 10"

text \<open>\<^verbatim>\<open>applierSnap\<close>, one message: the snapshot holds a command, which \<open>isInt\<close> says can be decoded into an
  \<^verbatim>\<open>int\<close>. Encoding a nil command panics in the check of its type.\<close>

definition raftOf :: "nat \<Rightarrow> ('c, 's, 't, 'v) config \<Rightarrow> (nat \<times> ('c, 's) Raft) res" where
  "raftOf i cfg =
     rbind (at (cf_rafts cfg) (int i)) (\<lambda>p. rbind (deref p) (\<lambda>q. rbind (at (cf_procs cfg) (int q)) (\<lambda>rf. Inr (q, rf))))"

definition setRaft :: "nat \<Rightarrow> ('c, 's) Raft \<Rightarrow> ('c, 's, 't, 'v) config \<Rightarrow> ('c, 's, 't, 'v) config" where
  "setRaft q rf cfg = cfg\<lparr>cf_procs := (cf_procs cfg)[q := rf]\<rparr>"

definition applySnapshot ::
    "('c \<Rightarrow> bool) \<Rightarrow> nat \<Rightarrow> ('c, 'c) ApplyMsg \<Rightarrow> int \<times> ('c, 'c, 't, 'v) config \<Rightarrow> (int \<times> ('c, 'c, 't, 'v) config) res" where
  "applySnapshot isInt i m s =
     (case s of (lastApplied, cfg) \<Rightarrow>
        rbind (raftOf i cfg) (\<lambda>(q, rf).
        rbind (CondInstallSnapshot (amSnapshotTerm m) (amSnapshotIndex m) (amSnapshot m) rf) (\<lambda>(rf', ok).
          let cfg1 = setRaft q rf' cfg in
          if ok
          then case fst (Decode (\<lambda>v. if isInt v then Some v else None) (amSnapshot m)) of
                 Inl e \<Rightarrow> Inl (Panic ''decode error'')
               | Inr v \<Rightarrow>
                   rbind (put (cf_logs cfg1) (int i) [amSnapshotIndex m \<mapsto> Some v]) (\<lambda>logs.
                     Inr (amSnapshotIndex m, cfg1\<lparr>cf_logs := logs\<rparr>))
          else Inr (lastApplied, cfg1))))"

definition takeSnapshot ::
    "nat \<Rightarrow> ('c, 'c) ApplyMsg \<Rightarrow> ('c, 'c, 't, 'v) config \<Rightarrow> ('c, 'c, 't, 'v) config res" where
  "takeSnapshot i m cfg =
     (if (amCommandIndex m + 1) mod SnapShotInterval = 0
      then rbind (deref (amCommand m)) (\<lambda>v.
           rbind (raftOf i cfg) (\<lambda>(q, rf).
           rbind (Snapshot (amCommandIndex m) (Encode [] v) rf) (\<lambda>rf'.
             Inr (setRaft q rf' cfg))))
      else Inr cfg)"

definition applierSnap1 ::
    "('c \<Rightarrow> bool) \<Rightarrow> nat \<Rightarrow> ('c, 'c) ApplyMsg \<Rightarrow> int \<times> ('c, 'c, 't, 'v) config \<Rightarrow>
     (apply_err + int \<times> ('c, 'c, 't, 'v) config) res" where
  "applierSnap1 isInt i m s =
     (case s of (lastApplied, cfg) \<Rightarrow>
        if amSnapshotValid m then rbind (applySnapshot isInt i m s) (\<lambda>s'. Inr (Inr s'))
        else if amCommandValid m \<and> amCommandIndex m > lastApplied
        then rbind (applyChecked i m cfg) (\<lambda>r.
               case r of
                 Inl e \<Rightarrow> Inr (Inl e)
               | Inr cfg1 \<Rightarrow> rbind (takeSnapshot i m cfg1) (\<lambda>cfg2. Inr (Inr (amCommandIndex m, cfg2))))
        else Inr (Inr s))"

section \<open>The checks\<close>

text \<open>The goroutines of the servers run while a check reads them one after the other: \<open>obs i\<close> is what
  \<^verbatim>\<open>cfg.rafts[i].GetState()\<close> returns when it is called, and a check that repeats takes one \<open>obs\<close> for each
  round. \<open>ks\<close> is the order in which Go ranges over the map.\<close>

type_synonym obs = "nat \<Rightarrow> int \<times> bool"

definition readState :: "obs \<Rightarrow> nat \<Rightarrow> ('c, 's, 't, 'v) config \<Rightarrow> (int \<times> bool) option res" where
  "readState ob i cfg =
     rbind (at (cf_connected cfg) (int i)) (\<lambda>c.
       if c then rbind (at (cf_rafts cfg) (int i)) (\<lambda>p. rbind (deref p) (\<lambda>q. Inr (Some (ob i)))) else Inr None)"

definition findLeaders :: "obs \<Rightarrow> ('c, 's, 't, 'v) config \<Rightarrow> (int \<Rightarrow> nat list) res" where
  "findLeaders ob cfg =
     forR (\<lambda>i leaders.
       rbind (readState ob i cfg) (\<lambda>st.
         case st of Some (t, True) \<Rightarrow> Inr (leaders(t := leaders t @ [i])) | _ \<Rightarrow> Inr leaders))
       [0..<cf_n cfg] (\<lambda>_. [])"

fun lastTerm :: "(int \<Rightarrow> nat list) \<Rightarrow> int list \<Rightarrow> int \<Rightarrow> int res" where
  "lastTerm leaders [] lastTermWithLeader = Inr lastTermWithLeader"
| "lastTerm leaders (t # ks) lastTermWithLeader =
     (if length (leaders t) > 1 then Inl (Panic ''term has more than one leader'')
      else lastTerm leaders ks (if t > lastTermWithLeader then t else lastTermWithLeader))"

fun checkOneLeader :: "(obs \<times> int list) list \<Rightarrow> ('c, 's, 't, 'v) config \<Rightarrow> nat res" where
  "checkOneLeader [] cfg = Inl (Panic ''expected one leader, got none'')"
| "checkOneLeader ((ob, ks) # rounds) cfg =
     rbind (findLeaders ob cfg) (\<lambda>leaders.
     rbind (lastTerm leaders ks (-1)) (\<lambda>t.
       if ks \<noteq> [] then at (leaders t) 0 else checkOneLeader rounds cfg))"

definition checkTerms :: "obs \<Rightarrow> ('c, 's, 't, 'v) config \<Rightarrow> int res" where
  "checkTerms ob cfg =
     forR (\<lambda>i t.
       rbind (readState ob i cfg) (\<lambda>st.
         case st of
           Some (xterm, _) \<Rightarrow>
             if t = -1 then Inr xterm
             else if t \<noteq> xterm then Inl (Panic ''servers disagree on term'') else Inr t
         | None \<Rightarrow> Inr t)) [0..<cf_n cfg] (-1)"

definition checkNoLeader :: "obs \<Rightarrow> ('c, 's, 't, 'v) config \<Rightarrow> unit res" where
  "checkNoLeader ob cfg =
     forR (\<lambda>i u.
       rbind (readState ob i cfg) (\<lambda>st.
         case st of Some (_, True) \<Rightarrow> Inl (Panic ''expected no leader'') | _ \<Rightarrow> Inr u)) [0..<cf_n cfg] ()"

definition nCommitted1 :: "int \<Rightarrow> ('c, 's, 't, 'v) config \<Rightarrow> nat \<Rightarrow> nat \<times> 'c option \<Rightarrow> (nat \<times> 'c option) res" where
  "nCommitted1 index cfg i s =
     (case s of (cnt, cmd) \<Rightarrow>
        rbind (at (cf_applyErr cfg) (int i)) (\<lambda>e.
          if e \<noteq> [] then Inl (Panic e)
          else rbind (at (cf_logs cfg) (int i)) (\<lambda>log.
            case log index of
              Some cmd1 \<Rightarrow>
                if cnt > 0 \<and> cmd \<noteq> cmd1 then Inl (Panic ''committed values do not match'')
                else Inr (cnt + 1, cmd1)
            | None \<Rightarrow> Inr s)))"

definition nCommitted :: "int \<Rightarrow> ('c, 's, 't, 'v) config \<Rightarrow> (nat \<times> 'c option) res" where
  "nCommitted index cfg = forR (nCommitted1 index cfg) [0..<length (cf_rafts cfg)] (0, None)"

text \<open>\<^verbatim>\<open>wait\<close> looks at most thirty times; \<open>None\<close> is the -1 it returns when a term has passed. Every round has
  the configuration as it then is and what the servers say of their terms after the sleep; the last
  look is at the configuration that comes next.\<close>

definition movedOn :: "obs \<Rightarrow> int \<Rightarrow> ('c, 's, 't, 'v) config \<Rightarrow> bool res" where
  "movedOn ob startTerm cfg =
     forR (\<lambda>i b. if b then Inr True
        else rbind (at (cf_rafts cfg) (int i)) (\<lambda>p. rbind (deref p) (\<lambda>q. Inr (fst (ob i) > startTerm))))
       [0..<length (cf_rafts cfg)] False"

definition decided :: "nat \<Rightarrow> int \<Rightarrow> ('c, 's, 't, 'v) config \<Rightarrow> 'c option option res" where
  "decided n index cfg =
     rbind (nCommitted index cfg) (\<lambda>(nd, cmd).
       if nd < n then Inl (Panic ''not enough servers decided'') else Inr (Some cmd))"

fun wait ::
    "(('c, 's, 't, 'v) config \<times> obs) list \<Rightarrow> ('c, 's, 't, 'v) config \<Rightarrow> int \<Rightarrow> nat \<Rightarrow> int \<Rightarrow> 'c option option res" where
  "wait [] final index n startTerm = decided n index final"
| "wait ((cfg, ob) # rounds) final index n startTerm =
     rbind (nCommitted index cfg) (\<lambda>(nd, _).
       if nd \<ge> n then decided n index (case rounds of [] \<Rightarrow> final | (cfg', _) # _ \<Rightarrow> cfg')
       else if startTerm > -1
       then rbind (movedOn ob startTerm cfg) (\<lambda>b.
              if b then Inr None else wait rounds final index n startTerm)
       else wait rounds final index n startTerm)"

text \<open>\<^verbatim>\<open>one\<close>. \<open>sweep\<close> offers the command to the servers in turn, starting after \<open>starts\<close>, until one of them
  takes it. \<open>poll\<close> looks for agreement. What happens between two looks is a function on the
  configuration, given for every look; a round of \<open>one\<close> has what happened before the sweep and what
  happens during the two seconds of looking.\<close>

fun sweep :: "'c \<Rightarrow> nat \<Rightarrow> nat \<Rightarrow> ('c, 's, 't, 'v) config \<Rightarrow> (('c, 's, 't, 'v) config \<times> nat \<times> int option) res" where
  "sweep cmd 0 starts cfg = Inr (cfg, starts, None)"
| "sweep cmd (Suc k) starts cfg =
     (let starts1 = (starts + 1) mod cf_n cfg in
      rbind (at (cf_connected cfg) (int starts1)) (\<lambda>c.
      rbind (if c then at (cf_rafts cfg) (int starts1) else Inr None) (\<lambda>rf.
        case rf of
          None \<Rightarrow> sweep cmd k starts1 cfg
        | Some q \<Rightarrow>
            rbind (at (cf_procs cfg) (int q)) (\<lambda>r.
            rbind (Start cmd r) (\<lambda>(r', res).
              let cfg1 = setRaft q r' cfg in
              case res of
                Some index1 \<Rightarrow> Inr (cfg1, starts1, Some index1)
              | None \<Rightarrow> sweep cmd k starts1 cfg1)))))"

fun poll ::
    "'c \<Rightarrow> nat \<Rightarrow> int \<Rightarrow> (('c, 's, 't, 'v) config \<Rightarrow> ('c, 's, 't, 'v) config) list \<Rightarrow> ('c, 's, 't, 'v) config \<Rightarrow>
     (('c, 's, 't, 'v) config \<times> bool) res" where
  "poll cmd expectedServers index [] cfg = Inr (cfg, False)"
| "poll cmd expectedServers index (env # envs) cfg =
     (let cfg1 = env cfg in
      rbind (nCommitted index cfg1) (\<lambda>(nd, cmd1).
        if nd > 0 \<and> nd \<ge> expectedServers \<and> cmd1 = Some cmd then Inr (cfg1, True)
        else poll cmd expectedServers index envs cfg1))"

fun one ::
    "'c \<Rightarrow> nat \<Rightarrow> bool \<Rightarrow>
     ((('c, 's, 't, 'v) config \<Rightarrow> ('c, 's, 't, 'v) config) \<times> (('c, 's, 't, 'v) config \<Rightarrow> ('c, 's, 't, 'v) config) list) list \<Rightarrow>
     nat \<Rightarrow> ('c, 's, 't, 'v) config \<Rightarrow> (('c, 's, 't, 'v) config \<times> int) res" where
  "one cmd expectedServers retry [] starts cfg = Inl (Panic ''failed to reach agreement'')"
| "one cmd expectedServers retry ((env, envs) # rounds) starts cfg =
     rbind (sweep cmd (cf_n (env cfg)) starts (env cfg)) (\<lambda>(cfg1, starts1, index).
       case index of
         None \<Rightarrow> one cmd expectedServers retry rounds starts1 cfg1
       | Some index \<Rightarrow>
           rbind (poll cmd expectedServers index envs cfg1) (\<lambda>(cfg2, ok).
             if ok then Inr (cfg2, index)
             else if retry = False then Inl (Panic ''failed to reach agreement'')
             else one cmd expectedServers retry rounds starts1 cfg2))"

end
