(* ===== verification/Raft_Tester_Props.thy ===== *)
theory Raft_Tester_Props
  imports Raft_Tester Raft_Cluster_Log Raft_Run
begin

text \<open>
  What the tester of Raft does to the network and what its checks mean. A link is enabled exactly
  when both of its servers are connected, however servers are connected, partitioned, crashed and
  restarted. A restarted server gets what its predecessor had stored. The check for one leader
  cannot fail on servers that behave as those of \<open>Raft_Cluster\<close>; an agreement it reports is one.
\<close>

section \<open>Links\<close>

definition setEnabled :: "bool \<Rightarrow> string set \<Rightarrow> (int + string, 't, 'o, 'v) Network \<Rightarrow> (int + string, 't, 'o, 'v) Network" where
  "setEnabled b E rn = rn\<lparr>rn_enabled := (\<lambda>x. if x \<in> Inr ` E then b else rn_enabled rn x)\<rparr>"

lemma setEnabled_simps [simp]:
  "rn_ends (setEnabled b E rn) = rn_ends rn" "rn_connections (setEnabled b E rn) = rn_connections rn"
  "rn_enabled (setEnabled b E rn) (Inr e) = (if e \<in> E then b else rn_enabled rn (Inr e))"
  by (auto simp: setEnabled_def)

lemma setEnabled_empty [simp]: "setEnabled b {} rn = rn"
  by (simp add: setEnabled_def)

lemma setEnabled_Enable: "setEnabled b E (Enable (Inr e) b rn) = setEnabled b (insert e E) rn"
  by (auto simp: setEnabled_def Enable_def fun_eq_iff)

lemma overNet_overNet [simp]: "overNet f (overNet g cfg) = overNet (\<lambda>rn. f (g rn)) cfg"
  by (simp add: overNet_def)

lemma overNet_simps [simp]:
  "cf_n (overNet f cfg) = cf_n cfg" "cf_connected (overNet f cfg) = cf_connected cfg"
  "cf_endnames (overNet f cfg) = cf_endnames cfg" "cf_net (overNet f cfg) = f (cf_net cfg)"
  "cf_rafts (overNet f cfg) = cf_rafts cfg" "cf_procs (overNet f cfg) = cf_procs cfg"
  "cf_saved (overNet f cfg) = cf_saved cfg" "cf_logs (overNet f cfg) = cf_logs cfg"
  by (simp_all add: overNet_def)

text \<open>A loop that switches some ends.\<close>

lemma switch_loop:
  assumes "forR (\<lambda>j cfg. rbind (endOf j cfg) (\<lambda>e.
       case e of None \<Rightarrow> Inr cfg | Some endname \<Rightarrow> Inr (overNet (Enable (Inr endname) b) cfg))) js cfg = Inr cfg'"
    and "\<And>j g. endOf j (overNet g cfg) = endOf j cfg"
  shows "(\<forall>j \<in> set js. \<exists>o'. endOf j cfg = Inr o') \<and>
     cfg' = overNet (setEnabled b {e. \<exists>j \<in> set js. endOf j cfg = Inr (Some e)}) cfg"
  using assms
proof (induction js arbitrary: cfg)
  case (Cons j js)
  let ?f = "\<lambda>j cfg. rbind (endOf j cfg) (\<lambda>e.
       case e of None \<Rightarrow> Inr cfg | Some endname \<Rightarrow> Inr (overNet (Enable (Inr endname) b) cfg))"
  obtain o' where o: "endOf j cfg = Inr o'"
    using Cons.prems(1) by (auto simp: rbind_Inr_iff)
  show ?case
  proof (cases o')
    case None
    then have "forR ?f js cfg = Inr cfg'" using Cons.prems(1) o by simp
    from Cons.IH [OF this Cons.prems(2)] o None show ?thesis by auto
  next
    case (Some e)
    let ?cfg = "overNet (Enable (Inr e) b) cfg"
    have "forR ?f js ?cfg = Inr cfg'" using Cons.prems(1) o Some by simp
    from Cons.IH [OF this] Cons.prems(2)
    have "(\<forall>j \<in> set js. \<exists>o'. endOf j cfg = Inr o') \<and>
       cfg' = overNet (setEnabled b {e. \<exists>j \<in> set js. endOf j cfg = Inr (Some e)}) ?cfg" by simp
    moreover have "{x. \<exists>i \<in> set (j # js). endOf i cfg = Inr (Some x)} =
        insert e {x. \<exists>i \<in> set js. endOf i cfg = Inr (Some x)}"
      using o Some by auto
    ultimately show ?thesis using o by (simp add: setEnabled_Enable)
  qed
qed (simp add: overNet_def)

lemma switchEnds_effect:
  assumes "switchEnds b endOf cfg = Inr cfg'" "\<And>j g. endOf j (overNet g cfg) = endOf j cfg"
  shows "(\<forall>j < cf_n cfg. \<exists>o'. endOf j cfg = Inr o') \<and>
     cfg' = overNet (setEnabled b {e. \<exists>j < cf_n cfg. endOf j cfg = Inr (Some e)}) cfg"
  using switch_loop [OF assms(1) [unfolded switchEnds_def] assms(2)] by (simp add: Bex_def)

lemma ends_overNet [simp]:
  "endAt i j (overNet g cfg) = endAt i j cfg"
  "connectedEnd k i j (overNet g cfg) = connectedEnd k i j cfg" "startedEnd i j (overNet g cfg) = startedEnd i j cfg"
  by (simp_all add: connectedEnd_def startedEnd_def endAt_def cong: if_cong)

definition endName :: "('c, 's, 't, 'v) config \<Rightarrow> nat \<Rightarrow> nat \<Rightarrow> string" where
  "endName cfg i j = names (cf_endnames cfg ! i) ! j"

definition started :: "('c, 's, 't, 'v) config \<Rightarrow> nat \<Rightarrow> bool" where
  "started cfg i \<longleftrightarrow> i < cf_n cfg \<and> cf_endnames cfg ! i \<noteq> None"

definition isConnected :: "('c, 's, 't, 'v) config \<Rightarrow> nat \<Rightarrow> bool" where
  "isConnected cfg i \<longleftrightarrow> i < cf_n cfg \<and> cf_connected cfg ! i"

definition links :: "('c, 's, 't, 'v) config \<Rightarrow> string set" where
  "links cfg = {e. \<exists>i j. isConnected cfg i \<and> isConnected cfg j \<and> e = endName cfg i j}"

lemma overNet_links [simp]:
  "endName (overNet f cfg) = endName cfg" "started (overNet f cfg) = started cfg"
  "isConnected (overNet f cfg) = isConnected cfg" "links (overNet f cfg) = links cfg"
  by (simp_all add: endName_def started_def isConnected_def links_def fun_eq_iff)

text \<open>Names are not shared, belong to made ends, and lead to the servers they should; the switched-on
  ends are the links.\<close>

definition distinctNames :: "('c, 's, 't, 'v) config \<Rightarrow> bool" where
  "distinctNames cfg \<longleftrightarrow>
     (\<forall>i j i' j'. started cfg i \<and> started cfg i' \<and> j < cf_n cfg \<and> j' < cf_n cfg \<and>
        endName cfg i j = endName cfg i' j' \<longrightarrow> i = i' \<and> j = j')"

definition namesOk :: "('c, 's, 't, 'v) config \<Rightarrow> bool" where
  "namesOk cfg \<longleftrightarrow>
     length (cf_connected cfg) = cf_n cfg \<and> length (cf_endnames cfg) = cf_n cfg \<and>
     (\<forall>i. started cfg i \<longrightarrow> length (names (cf_endnames cfg ! i)) = cf_n cfg) \<and>
     distinctNames cfg \<and>
     (\<forall>i. isConnected cfg i \<longrightarrow> started cfg i)"

definition netNames :: "('c, 's, 't, 'v) config \<Rightarrow> bool" where
  "netNames cfg \<longleftrightarrow>
     (\<forall>i j. started cfg i \<and> j < cf_n cfg \<longrightarrow>
        Inr (endName cfg i j) \<in> rn_ends (cf_net cfg) \<and>
        rn_connections (cf_net cfg) (Inr (endName cfg i j)) = Some (Inl (int j)))"

definition linksOk :: "('c, 's, 't, 'v) config \<Rightarrow> bool" where
  "linksOk cfg \<longleftrightarrow> namesOk cfg \<and> netNames cfg \<and> (\<forall>e. rn_enabled (cf_net cfg) (Inr e) \<longleftrightarrow> e \<in> links cfg)"

lemma distinctNames_frame [simp]:
  "distinctNames (overNet f cfg) = distinctNames cfg" "distinctNames (cfg\<lparr>cf_connected := conn\<rparr>) = distinctNames cfg"
  by (simp_all add: distinctNames_def started_def endName_def)

lemma names_connected [simp]:
  "started (cfg\<lparr>cf_connected := conn\<rparr>) = started cfg" "endName (cfg\<lparr>cf_connected := conn\<rparr>) = endName cfg"
  by (simp_all add: started_def endName_def fun_eq_iff)

lemma namesOk_connected:
  assumes "namesOk cfg" "length conn = cf_n cfg" "\<And>i. isConnected (cfg\<lparr>cf_connected := conn\<rparr>) i \<Longrightarrow> started cfg i"
  shows "namesOk (cfg\<lparr>cf_connected := conn\<rparr>)"
  using assms unfolding namesOk_def by simp

lemma endAt_Inr: "endAt i j cfg = Inr x \<longleftrightarrow>
    i < length (cf_endnames cfg) \<and> j < length (names (cf_endnames cfg ! i)) \<and> x = Some (endName cfg i j)"
  by (auto simp: endAt_def rbind_Inr_iff at_Inr_iff endName_def)

lemma connectedEnd_Inr: "connectedEnd k i j cfg = Inr x \<longleftrightarrow> k < length (cf_connected cfg) \<and>
    (if cf_connected cfg ! k then endAt i j cfg = Inr x else x = None)"
  by (auto simp: connectedEnd_def rbind_Inr_iff at_Inr_iff)

lemma connectedEnd_Some:
  assumes "length (cf_connected cfg) = cf_n cfg"
  shows "connectedEnd k i j cfg = Inr (Some e) \<longleftrightarrow> isConnected cfg k \<and> i < length (cf_endnames cfg) \<and>
    j < length (names (cf_endnames cfg ! i)) \<and> e = endName cfg i j"
  using assms by (auto simp: connectedEnd_Inr endAt_Inr isConnected_def)

lemma startedEnd_Inr: "startedEnd i j cfg = Inr x \<longleftrightarrow> i < length (cf_endnames cfg) \<and>
    (if cf_endnames cfg ! i \<noteq> None then endAt i j cfg = Inr x else x = None)"
  by (auto simp: startedEnd_def rbind_Inr_iff at_Inr_iff)

lemma connect_linksOk:
  assumes "connect i cfg = Inr cfg'" "linksOk cfg"
  shows "linksOk cfg'"
proof -
  define c1 where "c1 = cfg\<lparr>cf_connected := (cf_connected cfg)[i := True]\<rparr>"
  have len: "length (cf_connected cfg) = cf_n cfg" "length (cf_endnames cfg) = cf_n cfg"
    using assms(2) by (simp_all add: linksOk_def namesOk_def)
  obtain c2 where i: "i < cf_n cfg" and l1: "switchEnds True (\<lambda>j. connectedEnd j i j) c1 = Inr c2"
    and l2: "switchEnds True (\<lambda>j. connectedEnd j j i) c2 = Inr cfg'"
    using assms(1) len by (auto simp: connect_def rbind_Inr_iff put_Inr_iff c1_def)
  let ?E = "{e. \<exists>j < cf_n c1. connectedEnd j i j c1 = Inr (Some e)}" and ?F = "{e. \<exists>j < cf_n c1. connectedEnd j j i c1 = Inr (Some e)}"
  have c2: "\<forall>j < cf_n c1. \<exists>o'. connectedEnd j i j c1 = Inr o'" "c2 = overNet (setEnabled True ?E) c1"
    using switchEnds_effect [OF l1] by auto
  have c3: "cfg' = overNet (\<lambda>rn. setEnabled True ?F (setEnabled True ?E rn)) c1"
    using switchEnds_effect [OF l2] by (simp add: c2(2))
  have si: "started c1 i"
    using spec [OF c2(1), of i] i len
    by (auto simp: c1_def started_def connectedEnd_Inr endAt_Inr names_def split: option.splits)
  have conn: "isConnected c1 j \<longleftrightarrow> j = i \<or> isConnected cfg j" for j
    using i len by (auto simp: c1_def isConnected_def nth_list_update)
  have len1: "length (cf_connected c1) = cf_n c1" and bnd: "isConnected c1 j \<Longrightarrow> j < cf_n cfg" for j
    using len by (auto simp: c1_def isConnected_def)
  have same: "started c1 = started cfg" "endName c1 = endName cfg"
    by (simp_all add: c1_def started_def endName_def fun_eq_iff)
  have nm: "length (names (cf_endnames cfg ! j)) = cf_n cfg" if "isConnected c1 j" for j
    using that assms(2) si conn same by (auto simp: linksOk_def namesOk_def)
  have "?E = {e. \<exists>j. isConnected c1 j \<and> e = endName cfg i j}" "?F = {e. \<exists>j. isConnected c1 j \<and> e = endName cfg j i}"
    unfolding connectedEnd_Some [OF len1] same
    by (intro Collect_cong ex_cong1; use nm conn i len bnd in \<open>auto simp: c1_def\<close>)+
  then have "links c1 = links cfg \<union> ?E \<union> ?F"
    using conn by (auto simp: links_def same)
  moreover have "namesOk c1"
    unfolding c1_def using assms(2) si conn len
    by (intro namesOk_connected) (auto simp: linksOk_def namesOk_def same c1_def)
  moreover have "netNames cfg' \<longleftrightarrow> netNames cfg"
    by (simp add: c3 netNames_def same) (simp add: c1_def)
  ultimately show ?thesis
    using assms(2) by (auto simp: linksOk_def c3 namesOk_def c1_def)
qed

lemma disconnect_effect:
  assumes "disconnect i cfg = Inr cfg'" "namesOk cfg"
  shows "i < cf_n cfg \<and> cfg' = overNet (\<lambda>rn. setEnabled False {e. \<exists>j. started cfg j \<and> e = endName cfg j i}
      (setEnabled False {e. \<exists>j < cf_n cfg. started cfg i \<and> e = endName cfg i j} rn))
    (cfg\<lparr>cf_connected := (cf_connected cfg)[i := False]\<rparr>)"
proof -
  define c1 where "c1 = cfg\<lparr>cf_connected := (cf_connected cfg)[i := False]\<rparr>"
  have len: "length (cf_connected cfg) = cf_n cfg" "length (cf_endnames cfg) = cf_n cfg"
    and nm: "started cfg j \<Longrightarrow> length (names (cf_endnames cfg ! j)) = cf_n cfg" for j
    using assms(2) by (simp_all add: namesOk_def)
  obtain c2 where i: "i < cf_n cfg" and l1: "switchEnds False (\<lambda>j. startedEnd i j) c1 = Inr c2"
    and l2: "switchEnds False (\<lambda>j. startedEnd j i) c2 = Inr cfg'"
    using assms(1) len by (auto simp: disconnect_def rbind_Inr_iff put_Inr_iff c1_def)
  have same: "cf_n c1 = cf_n cfg" "cf_endnames c1 = cf_endnames cfg" "endName c1 = endName cfg"
    by (simp_all add: c1_def endName_def fun_eq_iff)
  have st: "startedEnd k j c1 = Inr (Some e) \<longleftrightarrow> started cfg k \<and> e = endName cfg k j"
    if "k < cf_n cfg" "j < cf_n cfg" for k j e
    using that len nm by (auto simp: startedEnd_Inr endAt_Inr started_def same)
  have E: "{e. \<exists>j < cf_n cfg. startedEnd i j c1 = Inr (Some e)} = {e. \<exists>j < cf_n cfg. started cfg i \<and> e = endName cfg i j}"
    "{e. \<exists>j < cf_n cfg. startedEnd j i c1 = Inr (Some e)} = {e. \<exists>j. started cfg j \<and> e = endName cfg j i}"
    by (intro Collect_cong ex_cong1; use st i in \<open>auto simp: started_def\<close>)+
  from switchEnds_effect [OF l1] have "c2 = overNet (setEnabled False {e. \<exists>j < cf_n cfg. startedEnd i j c1 = Inr (Some e)}) c1"
    by (simp add: same)
  with switchEnds_effect [OF l2] i show ?thesis by (simp add: same E flip: c1_def)
qed

lemma disconnect_linksOk:
  assumes "disconnect i cfg = Inr cfg'" "linksOk cfg"
  shows "linksOk cfg' \<and> \<not> isConnected cfg' i \<and> cf_n cfg' = cf_n cfg \<and> i < cf_n cfg"
proof -
  define c1 where "c1 = cfg\<lparr>cf_connected := (cf_connected cfg)[i := False]\<rparr>"
  have ok: "namesOk cfg" "netNames cfg" and en: "\<And>e. rn_enabled (cf_net cfg) (Inr e) \<longleftrightarrow> e \<in> links cfg"
    using assms(2) by (auto simp: linksOk_def)
  note eff = disconnect_effect [OF assms(1) ok(1), folded c1_def]
  have len: "length (cf_connected cfg) = cf_n cfg" "length (cf_endnames cfg) = cf_n cfg" "i < cf_n cfg"
    using ok(1) eff by (simp_all add: namesOk_def)
  have same: "started c1 = started cfg" "endName c1 = endName cfg" "cf_n c1 = cf_n cfg" "cf_net c1 = cf_net cfg"
    by (simp_all add: c1_def started_def endName_def fun_eq_iff)
  have conn: "isConnected c1 j \<longleftrightarrow> j \<noteq> i \<and> isConnected cfg j" for j
    using len by (auto simp: c1_def isConnected_def nth_list_update)
  have names1: "namesOk c1"
    unfolding c1_def using ok(1) conn len
    by (intro namesOk_connected) (auto simp: namesOk_def c1_def)
  have inj: "k = k' \<and> j = j'" if "endName cfg k j = endName cfg k' j'" "started cfg k" "started cfg k'" "j < cf_n cfg" "j' < cf_n cfg" for k k' j j'
    using ok(1) that unfolding namesOk_def distinctNames_def by blast
  have st: "isConnected cfg k \<Longrightarrow> started cfg k \<and> k < cf_n cfg" for k
    using ok(1) by (auto simp: namesOk_def isConnected_def)
  have links1: "e \<in> links c1 \<longleftrightarrow> e \<in> links cfg \<and> \<not> (\<exists>j. started cfg j \<and> e = endName cfg j i) \<and>
      \<not> (\<exists>j < cf_n cfg. started cfg i \<and> e = endName cfg i j)" (is "?l \<longleftrightarrow> ?r") for e
  proof
    assume ?l
    then obtain k j where e: "isConnected cfg k" "isConnected cfg j" "k \<noteq> i" "j \<noteq> i" "e = endName cfg k j"
      by (auto simp: links_def conn same)
    with inj [of k j] st len(3) show ?r by (auto simp: links_def)
  next
    assume ?r
    then obtain k j where e: "isConnected cfg k" "isConnected cfg j" "e = endName cfg k j" "\<not> (\<exists>j. started cfg j \<and> e = endName cfg j i)"
      "\<not> (\<exists>j < cf_n cfg. started cfg i \<and> e = endName cfg i j)"
      by (auto simp: links_def)
    then have "k \<noteq> i" "j \<noteq> i" using st by blast+
    with e show ?l by (auto simp: links_def conn same)
  qed
  have "netNames cfg'" using ok(2) eff by (auto simp: netNames_def same)
  moreover have "rn_enabled (cf_net cfg') (Inr e) \<longleftrightarrow> e \<in> links cfg'" for e
    using eff en links1 by (auto simp: same)
  moreover have "namesOk cfg'" using names1 eff by (simp add: namesOk_def)
  ultimately show ?thesis using eff conn len(3) by (simp add: linksOk_def same)
qed

text \<open>The part of the configuration that the links depend on.\<close>

definition linkView :: "('c, 's, 't, 'v) config \<Rightarrow> nat \<times> bool list \<times> string list option list \<times>
    (int + string) set \<times> (int + string \<Rightarrow> bool) \<times> (int + string \<Rightarrow> (int + string) option)" where
  "linkView cfg = (cf_n cfg, cf_connected cfg, cf_endnames cfg, rn_ends (cf_net cfg), rn_enabled (cf_net cfg),
     rn_connections (cf_net cfg))"

lemma linksOk_view:
  assumes "linkView cfg' = linkView cfg" "linksOk cfg"
  shows "linksOk cfg'"
proof -
  have "namesOk cfg' = namesOk cfg" "netNames cfg' = netNames cfg" "links cfg' = links cfg"
    "rn_enabled (cf_net cfg') = rn_enabled (cf_net cfg)"
    using assms(1)
    by (simp_all add: linkView_def namesOk_def netNames_def distinctNames_def started_def endName_def links_def isConnected_def)
  with assms(2) show ?thesis by (simp add: linksOk_def)
qed

lemma isConnected_view: "linkView cfg' = linkView cfg \<Longrightarrow> isConnected cfg' = isConnected cfg"
  by (simp add: linkView_def isConnected_def fun_eq_iff)

lemma renewSaved_view: "renewSaved f i cfg = Inr cfg' \<Longrightarrow> linkView cfg' = linkView cfg"
  by (auto simp: renewSaved_def rbind_Inr_iff linkView_def split: option.splits)

lemma killRaft_view: "killRaft i cfg = Inr cfg' \<Longrightarrow> linkView cfg' = linkView cfg"
  by (auto simp: killRaft_def rbind_Inr_iff linkView_def split: option.splits)

lemma crash1_linksOk:
  assumes "crash1 i cfg = Inr cfg'" "linksOk cfg"
  shows "linksOk cfg' \<and> \<not> isConnected cfg' i \<and> cf_n cfg' = cf_n cfg \<and> i < cf_n cfg"
proof -
  obtain c1 c2 c3 where s: "disconnect i cfg = Inr c1" "renewSaved Copy i (overNet (DeleteServer (Inl (int i))) c1) = Inr c2"
    "killRaft i c2 = Inr c3" "renewSaved resave i c3 = Inr cfg'"
    using assms(1) by (auto simp: crash1_def rbind_Inr_iff)
  have "linkView cfg' = linkView c1"
    using renewSaved_view [OF s(2)] killRaft_view [OF s(3)] renewSaved_view [OF s(4)]
    by (simp add: linkView_def DeleteServer_def)
  with disconnect_linksOk [OF s(1) assms(2)] linksOk_view [OF this] isConnected_view [OF this] show ?thesis
    by (simp add: linkView_def)
qed

text \<open>New ends have names that were not there before, and are switched off.\<close>

definition endsMade :: "string list \<Rightarrow> ('c, 's, 't, 'v) config \<Rightarrow> ('c, 's, 't, 'v) config \<Rightarrow> bool" where
  "endsMade es cfg cfg' \<longleftrightarrow>
     distinct es \<and> Inr ` set es \<inter> rn_ends (cf_net cfg) = {} \<and> cfg' = cfg\<lparr>cf_net := cf_net cfg'\<rparr> \<and>
     rn_ends (cf_net cfg') = rn_ends (cf_net cfg) \<union> Inr ` set es \<and>
     (\<forall>x. rn_enabled (cf_net cfg') x \<longleftrightarrow> x \<notin> Inr ` set es \<and> rn_enabled (cf_net cfg) x) \<and>
     (\<forall>j < length es. rn_connections (cf_net cfg') (Inr (es ! j)) = Some (Inl (int j))) \<and>
     (\<forall>x. x \<notin> Inr ` set es \<longrightarrow> rn_connections (cf_net cfg') x = rn_connections (cf_net cfg) x)"

lemma endsMade_snoc:
  assumes "endsMade us cfg c1" "MakeEnd (Inr e) (cf_net c1) = Inr net"
  shows "endsMade (us @ [e]) cfg (c1\<lparr>cf_net := Connect (Inr e) (Inl (int (length us))) net\<rparr>)"
proof -
  have fresh: "Inr e \<notin> rn_ends (cf_net c1)" and net: "net = (cf_net c1)\<lparr>rn_ends := insert (Inr e) (rn_ends (cf_net c1)),
      rn_enabled := (rn_enabled (cf_net c1))(Inr e := False), rn_connections := (rn_connections (cf_net c1))(Inr e := None)\<rparr>"
    using assms(2) by (auto simp: MakeEnd_def split: if_splits)
  have c1: "c1 = cfg\<lparr>cf_net := cf_net c1\<rparr>" using assms(1) by (simp add: endsMade_def)
  have new: "e \<notin> set us" "Inr e \<notin> rn_ends (cf_net cfg)"
    using fresh assms(1) by (auto simp: endsMade_def)
  have old: "us ! j \<noteq> e" if "j < length us" for j using new(1) that by (metis nth_mem)
  have "c1\<lparr>cf_net := rn\<rparr> = cfg\<lparr>cf_net := rn\<rparr>" for rn by (subst c1) simp
  then show ?thesis
    using assms(1) new old unfolding endsMade_def net by (auto simp: Connect_def nth_append less_Suc_eq)
qed

lemma makeEnds_effect: "makeEnds es cfg = Inr cfg' \<Longrightarrow> endsMade es cfg cfg'"
proof -
  assume made: "makeEnds es cfg = Inr cfg'"
  let ?f = "\<lambda>j cfg. rbind (at es (int j)) (\<lambda>e. rbind (MakeEnd (Inr e) (cf_net cfg)) (\<lambda>net.
         Inr (cfg\<lparr>cf_net := Connect (Inr e) (Inl (int j)) net\<rparr>)))"
  have "endsMade (take k es) cfg cfg'" if "forR ?f [0..<k] cfg = Inr cfg'" "k \<le> length es" for k cfg'
    using that
  proof (induction k arbitrary: cfg')
    case 0
    then show ?case by (simp add: endsMade_def)
  next
    case (Suc k)
    then obtain c1 net where c1: "forR ?f [0..<k] cfg = Inr c1" "MakeEnd (Inr (es ! k)) (cf_net c1) = Inr net"
      "cfg' = c1\<lparr>cf_net := Connect (Inr (es ! k)) (Inl (int k)) net\<rparr>"
      by (auto simp: forR_append rbind_Inr_iff at_Inr_iff)
    with endsMade_snoc [OF Suc.IH [OF c1(1)] c1(2)] Suc.prems(2) show ?case
      by (simp add: take_Suc_conv_app_nth)
  qed
  from this [of "length es" cfg'] made show ?thesis by (simp add: makeEnds_def)
qed

lemma newEnds_linksOk:
  assumes ok: "linksOk c1" and off: "\<not> isConnected c1 i" and i: "i < cf_n c1" and len: "length es = cf_n c1"
    and made: "endsMade es (c1\<lparr>cf_endnames := (cf_endnames c1)[i := Some es]\<rparr>) c2"
  shows "linksOk c2"
proof -
  have ok1: "namesOk c1" "netNames c1" "\<And>e. rn_enabled (cf_net c1) (Inr e) \<longleftrightarrow> e \<in> links c1"
    using ok by (auto simp: linksOk_def)
  have lens: "length (cf_endnames c1) = cf_n c1" "length (cf_connected c1) = cf_n c1"
    using ok1(1) by (simp_all add: namesOk_def)
  have fresh: "Inr e \<notin> rn_ends (cf_net c1)" if "e \<in> set es" for e
    using made that unfolding endsMade_def by auto
  have net2: "rn_ends (cf_net c2) = rn_ends (cf_net c1) \<union> Inr ` set es"
    "\<And>e. rn_enabled (cf_net c2) (Inr e) \<longleftrightarrow> e \<notin> set es \<and> e \<in> links c1"
    "\<And>j. j < cf_n c1 \<Longrightarrow> rn_connections (cf_net c2) (Inr (es ! j)) = Some (Inl (int j))"
    "\<And>e. e \<notin> set es \<Longrightarrow> rn_connections (cf_net c2) (Inr e) = rn_connections (cf_net c1) (Inr e)"
    using made len ok1(3) unfolding endsMade_def by (simp_all add: inj_image_mem_iff)
  have dist: "distinct es" and c2: "c2 = c1\<lparr>cf_endnames := (cf_endnames c1)[i := Some es], cf_net := cf_net c2\<rparr>"
    using made unfolding endsMade_def by auto
  have flds: "cf_n c2 = cf_n c1" "cf_connected c2 = cf_connected c1" "cf_endnames c2 = (cf_endnames c1)[i := Some es]"
    by (subst c2, simp)+
  have conn: "isConnected c2 = isConnected c1" by (simp add: isConnected_def flds fun_eq_iff)
  have st: "started c2 k \<longleftrightarrow> k = i \<or> started c1 k" for k
    using lens i by (auto simp: started_def flds nth_list_update)
  have nm: "endName c2 k j = (if k = i then es ! j else endName c1 k j)" for k j
    using lens i by (auto simp: endName_def flds nth_list_update names_def)
  have nms: "names (cf_endnames c2 ! k) = (if k = i then es else names (cf_endnames c1 ! k))" for k
    using lens i by (auto simp: flds nth_list_update names_def)
  have old: "endName c1 k l \<notin> set es" if "started c1 k" "l < cf_n c1" for k l
    using fresh ok1(2) that by (auto simp: netNames_def)
  have neq: "es ! j \<noteq> endName c1 k l" if "started c1 k" "l < cf_n c1" "j < cf_n c1" for j k l
    using old [OF that(1,2)] that(3) len nth_mem [of j es] by metis
  have d1: "distinctNames c1" and cs: "\<And>k. isConnected c1 k \<Longrightarrow> started c1 k \<and> k < cf_n c1 \<and> k \<noteq> i"
    using ok1(1) off by (auto simp: namesOk_def isConnected_def)
  have "distinctNames c2"
    unfolding distinctNames_def
  proof (intro allI impI)
    fix k j k' j'
    assume "started c2 k \<and> started c2 k' \<and> j < cf_n c2 \<and> j' < cf_n c2 \<and> endName c2 k j = endName c2 k' j'"
    then show "k = k' \<and> j = j'"
      using d1 [unfolded distinctNames_def] neq [of k' j' j] neq [of k j j'] nth_eq_iff_index_eq [OF dist, of j j'] len
      by (cases "k = i"; cases "k' = i") (auto simp: st nm flds)
  qed
  then have "namesOk c2"
    using ok1(1) lens len unfolding namesOk_def conn st nms by (auto simp: flds)
  moreover have "netNames c2"
    using ok1(2) net2 old len unfolding netNames_def st by (auto simp: nm flds)
  moreover have "links c2 = links c1"
    using cs by (auto simp: links_def conn nm)
  moreover have "e \<notin> set es" if "e \<in> links c1" for e
    using that cs old by (auto simp: links_def)
  ultimately show ?thesis using net2(2) by (auto simp: linksOk_def)
qed

lemma start1_linksOk:
  assumes "start1 methods i randstring r cfg = Inr cfg'" "linksOk cfg"
  shows "linksOk cfg'"
proof -
  let ?es = "map randstring [0..<cf_n cfg]"
  obtain c1 c2 where crash: "crash1 i cfg = Inr c1" and mk: "makeEnds ?es (c1\<lparr>cf_endnames := (cf_endnames c1)[i := Some ?es]\<rparr>) = Inr c2"
    and view: "linkView cfg' = linkView c2"
    using assms(1) by (auto simp: start1_def rbind_Inr_iff put_Inr_iff Let_def linkView_def overNet_def AddServer_def)
  from crash1_linksOk [OF crash assms(2)] makeEnds_effect [OF mk] have "linksOk c2"
    by (intro newEnds_linksOk [of c1 i ?es c2]) auto
  then show ?thesis by (rule linksOk_view [OF view])
qed

section \<open>Partitions\<close>

text \<open>What a test does to the servers, and what a server does by itself.\<close>

datatype ('c, 's) testOp =
    TConnect nat
  | TDisconnect nat
  | TCrash nat
  | TStart nat "nat \<Rightarrow> string" nat
  | TServer nat "('c, 's) Raft"

fun doTest :: "('t, nat, 'v) Method list \<Rightarrow> ('c, 's) testOp \<Rightarrow> ('c, 's, 't, 'v) config \<Rightarrow> ('c, 's, 't, 'v) config res" where
  "doTest methods (TConnect i) cfg = connect i cfg"
| "doTest methods (TDisconnect i) cfg = disconnect i cfg"
| "doTest methods (TCrash i) cfg = crash1 i cfg"
| "doTest methods (TStart i randstring r) cfg = start1 methods i randstring r cfg"
| "doTest methods (TServer q rf) cfg = Inr (setRaft q rf cfg)"

lemma emptyConfig_linksOk: "linksOk (overNet (LongDelays b) (setunreliable u (emptyConfig n)))"
  by (auto simp: linksOk_def namesOk_def netNames_def distinctNames_def started_def isConnected_def links_def
      emptyConfig_def setunreliable_def overNet_def LongDelays_def Reliable_def MakeNetwork_def)

lemma doTest_linksOk: "doTest methods a cfg = Inr cfg' \<Longrightarrow> linksOk cfg \<Longrightarrow> linksOk cfg'"
  by (cases a) (auto intro: connect_linksOk start1_linksOk linksOk_view [of _ cfg] simp: setRaft_def linkView_def
      dest: disconnect_linksOk crash1_linksOk)

lemma make_config_linksOk:
  assumes "make_config methods n unreliable randstring r = Inr cfg"
  shows "linksOk cfg"
proof -
  obtain c1 where s: "forR (\<lambda>i. start1 methods i (randstring i) (r i)) [0..<n]
      (overNet (LongDelays True) (setunreliable unreliable (emptyConfig n))) = Inr c1" "forR connect [0..<n] c1 = Inr cfg"
    using assms by (auto simp: make_config_def rbind_Inr_iff)
  from s(1) emptyConfig_linksOk have "linksOk c1" by (rule forR_invariant) (rule start1_linksOk)
  with s(2) show ?thesis by (rule forR_invariant) (rule connect_linksOk)
qed

text \<open>C17. \<^verbatim>\<open>make_config\<close>, \<^verbatim>\<open>connect\<close>, \<^verbatim>\<open>disconnect\<close>, \<^verbatim>\<open>crash1\<close>, \<^verbatim>\<open>start1\<close>: after any sequence of these a client end is
  enabled exactly when it is the current end of a connected server towards a connected server, and
  then it leads to that server. So a partition is what the tests take it for, and the ends of a
  crashed instance of a server stay cut off.\<close>

theorem tester_partitions:
  assumes "make_config methods n unreliable randstring r = Inr cfg0" "forR (doTest methods) ops cfg0 = Inr cfg"
  shows "(rn_enabled (cf_net cfg) (Inr e) \<longleftrightarrow>
            (\<exists>i j es. i < cf_n cfg \<and> j < cf_n cfg \<and> cf_connected cfg ! i \<and> cf_connected cfg ! j \<and>
               cf_endnames cfg ! i = Some es \<and> j < length es \<and> e = es ! j)) \<and>
         (\<forall>i j es. i < cf_n cfg \<and> j < cf_n cfg \<and> cf_endnames cfg ! i = Some es \<longrightarrow>
            rn_connections (cf_net cfg) (Inr (es ! j)) = Some (Inl (int j)))"
proof -
  from assms(2) make_config_linksOk [OF assms(1)] have ok: "linksOk cfg"
    by (rule forR_invariant) (rule doTest_linksOk)
  have "rn_connections (cf_net cfg) (Inr (es ! j)) = Some (Inl (int j))"
    if "i < cf_n cfg \<and> j < cf_n cfg \<and> cf_endnames cfg ! i = Some es" for i j es
  proof -
    have "netNames cfg" "started cfg i" "endName cfg i j = es ! j"
      using ok that by (simp_all add: linksOk_def started_def endName_def names_def)
    then show ?thesis using that unfolding netNames_def by metis
  qed
  moreover have "cf_endnames cfg ! i = Some es \<Longrightarrow> length es = cf_n cfg" if "i < cf_n cfg" for i es
    using ok that by (auto simp: linksOk_def namesOk_def started_def names_def)
  moreover have "\<exists>es. cf_endnames cfg ! i = Some es" if "i < cf_n cfg" "cf_connected cfg ! i" for i
    using ok that by (auto simp: linksOk_def namesOk_def started_def isConnected_def)
  ultimately show ?thesis
    using ok by (fastforce simp: linksOk_def links_def isConnected_def endName_def names_def)
qed

text \<open>Two servers, the second crashed and started again but not connected.\<close>

definition demoNames :: "nat \<Rightarrow> nat \<Rightarrow> string" where
  "demoNames i j = [if i = 0 then CHR ''a'' else if i = 1 then CHR ''b'' else CHR ''c'', if j = 0 then CHR ''0'' else CHR ''1'']"

definition demoConfig :: "(int, int, unit, unit) config res" where
  "demoConfig = rbind (make_config [] 2 False demoNames (\<lambda>_. 0)) (forR (doTest []) [TDisconnect 0, TStart 1 (demoNames 2) 3, TConnect 0])"

lemmas demo_tester_simps = make_config_def start1_def crash1_def connect_def disconnect_def switchEnds_def
  connectedEnd_def startedEnd_def endAt_def names_def renewSaved_def savedPersister_def resave_def killRaft_def makeEnds_def
  copySaved_def emptyConfig_def setunreliable_def overNet_def LongDelays_def Reliable_def MakeNetwork_def MakeEnd_def
  Connect_def Enable_def DeleteServer_def AddServer_def put_def at_def upt_conv_Cons numeral_eq_Suc Make_def readPersist_def
  ReadRaftState_def MakePersister_def Copy_def SaveStateAndSnapshot_def ReadSnapshot_def demoNames_def

lemma demo_enabled:
  "(case demoConfig of Inl _ \<Rightarrow> None
    | Inr cfg \<Rightarrow> Some (map (\<lambda>e. rn_enabled (cf_net cfg) (Inr e)) [''a0'', ''a1'', ''b0'', ''c1''])) =
   Some [True, False, False, False]"
  by (simp add: demoConfig_def demo_tester_simps)

theorem tester_partitions_witness:
  "\<exists>cfg0 cfg. make_config [] 2 False demoNames (\<lambda>_. 0) = Inr cfg0 \<and>
     forR (doTest []) [TDisconnect 0, TStart 1 (demoNames 2) 3, TConnect 0] cfg0 = Inr (cfg :: (int, int, unit, unit) config) \<and>
     (\<exists>i j es. cf_connected cfg ! i \<and> cf_connected cfg ! j \<and> cf_endnames cfg ! i = Some es \<and> ''a0'' = es ! j)"
proof -
  obtain cfg0 cfg where run: "make_config [] 2 False demoNames (\<lambda>_. 0) = Inr cfg0"
    "forR (doTest []) [TDisconnect 0, TStart 1 (demoNames 2) 3, TConnect 0] cfg0 = Inr (cfg :: (int, int, unit, unit) config)"
    and e: "rn_enabled (cf_net cfg) (Inr ''a0'')"
    using demo_enabled by (auto simp: demoConfig_def rbind_def split: sum.splits)
  from tester_partitions [OF run, of "''a0''"] e have
    "\<exists>i j es. cf_connected cfg ! i \<and> cf_connected cfg ! j \<and> cf_endnames cfg ! i = Some es \<and> ''a0'' = es ! j" by blast
  with run show ?thesis by blast
qed

section \<open>One leader\<close>

lemma findLeaders_eq:
  assumes "findLeaders ob cfg = Inr leaders"
  shows "leaders = (\<lambda>t. filter (\<lambda>i. cf_connected cfg ! i \<and> ob i = (t, True)) [0..<cf_n cfg])"
proof -
  let ?f = "\<lambda>i leaders. rbind (readState ob i cfg) (\<lambda>st.
         case st of Some (t, True) \<Rightarrow> Inr (leaders(t := leaders t @ [i])) | _ \<Rightarrow> Inr leaders)"
  have "leaders = (\<lambda>t. filter (\<lambda>i. cf_connected cfg ! i \<and> ob i = (t, True)) [0..<k])"
    if "forR ?f [0..<k] (\<lambda>_. []) = Inr leaders" for k leaders
    using that
  proof (induction k arbitrary: leaders)
    case (Suc k)
    then obtain l1 where l1: "forR ?f [0..<k] (\<lambda>_. []) = Inr l1" "?f k l1 = Inr leaders"
      by (auto simp: forR_append rbind_Inr_iff)
    from l1(2) show ?case
      unfolding Suc.IH [OF l1(1)]
      by (cases "ob k") (fastforce simp: readState_def rbind_Inr_iff at_Inr_iff split: if_splits bool.splits)
  qed simp
  with assms show ?thesis unfolding findLeaders_def by blast
qed

text \<open>Every connected server has an instance running.\<close>

definition ready :: "('c, 's, 't, 'v) config \<Rightarrow> bool" where
  "ready cfg \<longleftrightarrow> length (cf_connected cfg) = cf_n cfg \<and> length (cf_rafts cfg) = cf_n cfg \<and>
     (\<forall>i < cf_n cfg. cf_connected cfg ! i \<longrightarrow> cf_rafts cfg ! i \<noteq> None)"

lemma readState_ready:
  "ready cfg \<Longrightarrow> i < cf_n cfg \<Longrightarrow> readState ob i cfg = Inr (if cf_connected cfg ! i then Some (ob i) else None)"
  by (auto simp: ready_def readState_def at_def deref_def)

lemma findLeaders_total: "ready cfg \<Longrightarrow> \<exists>leaders. findLeaders ob cfg = Inr leaders"
  unfolding findLeaders_def by (rule forR_total) (auto simp: readState_ready split: prod.split bool.split)

lemma lastTerm_Max:
  "lastTerm leaders ks a = Inr t \<Longrightarrow> (\<forall>k \<in> set ks. length (leaders k) \<le> 1 \<and> k \<le> t) \<and> a \<le> t"
  by (induction ks arbitrary: a) (force split: if_splits)+

lemma lastTerm_in: "lastTerm leaders ks a = Inr t \<Longrightarrow> t \<in> set ks \<or> t = a"
  by (induction ks arbitrary: a) (force split: if_splits)+

lemma lastTerm_total:
  assumes "\<And>k. k \<in> set ks \<Longrightarrow> length (leaders k) \<le> 1"
  shows "\<exists>t. lastTerm leaders ks a = Inr t"
  using assms by (induction ks arbitrary: a) (simp_all add: not_less)

text \<open>A round in which every state read is one of the cluster's, read at any time of a run \<open>tr\<close>, and the
  map is ranged over completely.\<close>

definition readFrom :: "nat \<Rightarrow> (nat \<Rightarrow> ('c, 's) cluster) \<Rightarrow> obs \<Rightarrow> bool" where
  "readFrom n tr ob \<longleftrightarrow> (\<forall>i < n. \<exists>k. ob i = GetState (cl_node (tr k) (int i)))"

definition rangesOver :: "int list \<Rightarrow> obs \<Rightarrow> ('c, 's, 't, 'v) config \<Rightarrow> bool" where
  "rangesOver ks ob cfg \<longleftrightarrow> set ks = {t. \<exists>i < cf_n cfg. cf_connected cfg ! i \<and> ob i = (t, True)}"

definition runOf :: "nat \<Rightarrow> (nat \<Rightarrow> ('c, 's) cluster) \<Rightarrow> bool" where
  "runOf n tr \<longleftrightarrow> reachable n (tr 0) \<and> (\<forall>k. (cstep n)\<^sup>*\<^sup>* (tr k) (tr (Suc k)))"

lemma run_mono:
  assumes "runOf n tr"
  shows "(cstep n)\<^sup>*\<^sup>* (tr k) (tr (k + d))"
proof (induction d)
  case (Suc d)
  have "(cstep n)\<^sup>*\<^sup>* (tr (k + d)) (tr (Suc (k + d)))" using assms by (simp add: runOf_def)
  with Suc show ?case by simp
qed simp

lemma run_reachable:
  assumes "runOf n tr"
  shows "reachable n (tr k)"
proof -
  have "(cstep n)\<^sup>*\<^sup>* (tr 0) (tr k)" using run_mono [OF assms, of 0 k] by simp
  moreover have "reachable n (tr 0)" using assms by (simp add: runOf_def)
  ultimately show ?thesis by (induction rule: rtranclp_induct) (auto intro: reachable.step)
qed

lemma one_leader_per_term:
  assumes "runOf n tr" "readFrom n tr ob" "i < n" "j < n" "ob i = (t, True)" "ob j = (t, True)"
  shows "i = j"
proof -
  obtain a b where a: "GetState (cl_node (tr a) (int i)) = (t, True)" and b: "GetState (cl_node (tr b) (int j)) = (t, True)"
    using assms(2-6) unfolding readFrom_def by metis
  have *: "i = j" if "GetState (cl_node (tr a) (int i)) = (t, True)" "GetState (cl_node (tr b) (int j)) = (t, True)"
    "a \<le> b" "i < n" "j < n" for a b i j
  proof -
    have "(cstep n)\<^sup>*\<^sup>* (tr a) (tr b)" using run_mono [OF assms(1), of a "b - a"] that(3) by simp
    from reachable_election_safety [OF run_reachable [OF assms(1)] this, of "int i" "int j"] that
    show ?thesis by (simp add: GetState_def servers_def)
  qed
  show ?thesis
    using * [OF a b _ assms(3,4)] * [OF b a _ assms(4,3)] by (cases "a \<le> b") auto
qed

lemma read_terms:
  assumes "runOf n tr" "readFrom n tr ob" "i < n"
  shows "0 \<le> fst (ob i)"
proof -
  obtain k where "ob i = GetState (cl_node (tr k) (int i))" using assms(2,3) by (auto simp: readFrom_def)
  then show ?thesis
    using reachable_terms [OF run_reachable [OF assms(1)], of "int i" k] assms(3) by (simp add: GetState_def servers_def)
qed

lemma short_list:
  assumes "distinct xs" "\<And>x y. x \<in> set xs \<Longrightarrow> y \<in> set xs \<Longrightarrow> x = y"
  shows "length xs \<le> 1"
  using assms card_le_Suc0_iff_eq [of "set xs"] by (simp add: distinct_card)

text \<open>One round.\<close>

lemma round_leader:
  assumes "runOf (cf_n cfg) tr" "readFrom (cf_n cfg) tr ob" "rangesOver ks ob cfg" "findLeaders ob cfg = Inr leaders"
  shows "\<exists>t. lastTerm leaders ks (-1) = Inr t \<and>
    (\<forall>j t'. j < cf_n cfg \<and> cf_connected cfg ! j \<and> ob j = (t', True) \<longrightarrow> t' \<le> t) \<and>
    (ks \<noteq> [] \<longrightarrow> (\<exists>l < cf_n cfg. cf_connected cfg ! l \<and> ob l = (t, True) \<and> leaders t = [l]))"
proof -
  note eq = findLeaders_eq [OF assms(4)]
  have short: "length (leaders t) \<le> 1" for t
    unfolding eq by (rule short_list) (use one_leader_per_term [OF assms(1,2)] in auto)
  obtain t where t: "lastTerm leaders ks (-1) = Inr t" using lastTerm_total short by blast
  have top: "k \<le> t" if "k \<in> set ks" for k using lastTerm_Max [OF t] that by blast
  have seen: "t \<in> set ks \<or> t = -1" by (rule lastTerm_in [OF t])
  have pos: "0 \<le> k" if k: "k \<in> set ks" for k
  proof -
    obtain i where "i < cf_n cfg" "ob i = (k, True)" using k assms(3) by (auto simp: rangesOver_def)
    then show ?thesis using read_terms [OF assms(1,2), of i] by simp
  qed
  have "\<exists>l < cf_n cfg. cf_connected cfg ! l \<and> ob l = (t, True) \<and> leaders t = [l]" if ks: "ks \<noteq> []"
  proof -
    obtain k where "k \<in> set ks" using ks by (cases ks) auto
    then have "0 \<le> t" using top [of k] pos [of k] by simp
    then have "t \<in> set ks" using seen by simp
    then obtain l where l: "l < cf_n cfg" "cf_connected cfg ! l" "ob l = (t, True)"
      using assms(3) by (auto simp: rangesOver_def)
    then have "l \<in> set (leaders t)" by (simp add: eq)
    with short [of t] l show ?thesis by (cases "leaders t") auto
  qed
  moreover have "t' \<le> t" if "j < cf_n cfg" "cf_connected cfg ! j" "ob j = (t', True)" for j t'
    using top that assms(3) by (auto simp: rangesOver_def)
  ultimately show ?thesis using t by blast
qed

definition verdict :: "(obs \<times> int list) list \<Rightarrow> ('c, 's, 't, 'v) config \<Rightarrow> nat res \<Rightarrow> bool" where
  "verdict rounds cfg r \<longleftrightarrow> (case r of
      Inl e \<Rightarrow> e = Panic ''expected one leader, got none'' \<and>
        (\<forall>(ob, ks) \<in> set rounds. \<forall>i < cf_n cfg. cf_connected cfg ! i \<longrightarrow> \<not> snd (ob i))
    | Inr l \<Rightarrow> \<exists>ob ks t. (ob, ks) \<in> set rounds \<and> l < cf_n cfg \<and> cf_connected cfg ! l \<and> ob l = (t, True) \<and>
        (\<forall>j t'. j < cf_n cfg \<and> cf_connected cfg ! j \<and> ob j = (t', True) \<longrightarrow> t' < t \<or> j = l))"

lemma verdict_later: "verdict rounds cfg r \<Longrightarrow> (\<And>i. i < cf_n cfg \<Longrightarrow> cf_connected cfg ! i \<Longrightarrow> \<not> snd (ob i)) \<Longrightarrow>
    verdict ((ob, ks) # rounds) cfg r"
  unfolding verdict_def by (cases r) (simp, simp, blast)

lemma checkOneLeader_verdict:
  assumes "runOf (cf_n cfg) tr" "ready cfg"
    and "\<And>ob ks. (ob, ks) \<in> set rounds \<Longrightarrow> readFrom (cf_n cfg) tr ob \<and> rangesOver ks ob cfg"
  shows "verdict rounds cfg (checkOneLeader rounds cfg)"
  using assms(3)
proof (induction rounds)
  case (Cons round rounds)
  obtain ob ks where round: "round = (ob, ks)" by fastforce
  have rd: "readFrom (cf_n cfg) tr ob" "rangesOver ks ob cfg" using Cons.prems [of ob ks] by (auto simp: round)
  have IH: "verdict rounds cfg (checkOneLeader rounds cfg)"
    by (rule Cons.IH) (rule Cons.prems [OF list.set_intros(2)])
  obtain leaders where ld: "findLeaders ob cfg = Inr leaders" using findLeaders_total [OF assms(2)] by blast
  obtain t where t: "lastTerm leaders ks (-1) = Inr t"
    and top: "\<And>j t'. j < cf_n cfg \<Longrightarrow> cf_connected cfg ! j \<Longrightarrow> ob j = (t', True) \<Longrightarrow> t' \<le> t"
    and seen: "ks \<noteq> [] \<Longrightarrow> \<exists>l < cf_n cfg. cf_connected cfg ! l \<and> ob l = (t, True) \<and> leaders t = [l]"
    using round_leader [OF assms(1) rd ld] by blast
  show ?case
  proof (cases "ks = []")
    case True
    have "\<not> snd (ob i)" if "i < cf_n cfg" "cf_connected cfg ! i" for i
      using rd(2) that True by (cases "ob i") (auto simp: rangesOver_def)
    then show ?thesis using verdict_later [OF IH] t ld True by (simp add: round)
  next
    case False
    then obtain l where l: "l < cf_n cfg" "cf_connected cfg ! l" "ob l = (t, True)" "leaders t = [l]" using seen by blast
    have "t' < t \<or> j = l" if "j < cf_n cfg" "cf_connected cfg ! j" "ob j = (t', True)" for j t'
    proof (cases "t' = t")
      case True
      with one_leader_per_term [OF assms(1) rd(1) that(1) l(1)] that l show ?thesis by simp
    qed (use top [OF that] in simp)
    with l have "verdict (round # rounds) cfg (Inr l)" unfolding verdict_def round by auto
    then show ?thesis using t ld False l by (simp add: round)
  qed
qed (simp add: verdict_def)

text \<open>C16. \<^verbatim>\<open>checkOneLeader\<close> on servers that run Raft, read one after the other while they go on running: the
  check fails only when no connected server was seen as a leader in any round; otherwise it returns
  a server that was connected and seen as a leader, of a term above that of every other leader seen
  in that round.\<close>

theorem check_one_leader:
  assumes "runOf (cf_n cfg) tr" "ready cfg"
    and "\<And>ob ks. (ob, ks) \<in> set rounds \<Longrightarrow> readFrom (cf_n cfg) tr ob \<and> rangesOver ks ob cfg"
  shows "(case checkOneLeader rounds cfg of
      Inl e \<Rightarrow> e = Panic ''expected one leader, got none'' \<and>
        (\<forall>(ob, ks) \<in> set rounds. \<forall>i < cf_n cfg. cf_connected cfg ! i \<longrightarrow> \<not> snd (ob i))
    | Inr l \<Rightarrow> \<exists>ob ks t. (ob, ks) \<in> set rounds \<and> l < cf_n cfg \<and> cf_connected cfg ! l \<and> ob l = (t, True) \<and>
        (\<forall>j t'. j < cf_n cfg \<and> cf_connected cfg ! j \<and> ob j = (t', True) \<longrightarrow> t' < t \<or> j = l))"
  using checkOneLeader_verdict [OF assms] unfolding verdict_def .

text \<open>Three servers read while the first of them wins the election: the first after it, the others before.\<close>

definition demoRun :: "nat \<Rightarrow> (string, nat) cluster" where
  "demoRun k = (if k = 0 then demo2 else demo3)"

definition demoObs :: obs where
  "demoObs i = GetState (cl_node (if i = 0 then demo3 else demo2) (int i))"

definition demoServers :: "(int, int, unit, unit) config" where
  "demoServers = (emptyConfig 3)\<lparr>cf_connected := [True, True, True], cf_rafts := [Some 0, Some 1, Some 2]\<rparr>"

lemma demo_obs: "demoObs 0 = (1, True)" "\<not> snd (demoObs 1)" "\<not> snd (demoObs 2)"
  by (simp_all add: demoObs_def GetState_def run0_def run1_def run2_def run3_def run_nodes setNode_def setNet_def)

theorem check_one_leader_witness:
  "\<exists>l t. checkOneLeader [(demoObs, [1])] demoServers = Inr l \<and> l < 3 \<and> demoObs l = (t, True)"
proof -
  have n: "cf_n demoServers = 3" by (simp add: demoServers_def emptyConfig_def)
  have three: "i < 3 \<longleftrightarrow> i = 0 \<or> i = 1 \<or> i = 2" for i :: nat by auto
  have a: "runOf (cf_n demoServers) demoRun"
    using demo_reachable(2) demo_reachable(3) by (auto simp: n runOf_def demoRun_def)
  have b: "ready demoServers" by (auto simp: ready_def demoServers_def emptyConfig_def three)
  have c: "readFrom (cf_n demoServers) demoRun ob \<and> rangesOver ks ob demoServers"
    if "(ob, ks) \<in> set [(demoObs, [1])]" for ob ks
  proof
    have "\<exists>k. demoObs i = GetState (cl_node (demoRun k) (int i))" for i
      by (rule exI [where x = "if i = 0 then 1 else 0"]) (simp add: demoObs_def demoRun_def)
    then show "readFrom (cf_n demoServers) demoRun ob" using that by (simp add: readFrom_def)
    show "rangesOver ks ob demoServers"
    proof -
      have conn: "cf_connected demoServers = [True, True, True]" by (simp add: demoServers_def)
      have "(\<exists>i < 3. cf_connected demoServers ! i \<and> demoObs i = (t, True)) \<longleftrightarrow> t = 1" for t
        unfolding three using demo_obs by (auto simp: conn ex_disj_distrib conj_disj_distribR)
      then show ?thesis using that by (simp add: rangesOver_def n)
    qed
  qed
  have conn: "cf_connected demoServers ! 0" by (simp add: demoServers_def)
  show ?thesis
    using check_one_leader [OF a b, of "[(demoObs, [1])]", OF c] demo_obs(1) conn
    by (cases "checkOneLeader [(demoObs, [1])] demoServers")
      (auto simp: n simp del: checkOneLeader.simps dest!: spec [where x = "0 :: nat"])
qed

section \<open>Agreement\<close>

definition committedOn :: "int \<Rightarrow> ('c, 's, 't, 'v) config \<Rightarrow> nat list" where
  "committedOn index cfg = filter (\<lambda>i. (cf_logs cfg ! i) index \<noteq> None) [0..<length (cf_rafts cfg)]"

text \<open>\<^verbatim>\<open>nCommitted\<close> counts the servers that applied something at the index, and it is the same everywhere.\<close>

lemma nCommitted1_None:
  "nCommitted1 index cfg i (k1, cmd1) = Inr (k, cmd) \<Longrightarrow> (cf_logs cfg ! i) index = None \<Longrightarrow> k = k1 \<and> cmd = cmd1"
  by (simp add: nCommitted1_def at_def split: if_splits)

lemma nCommitted1_Some:
  "nCommitted1 index cfg i (k1, cmd1) = Inr (k, cmd) \<Longrightarrow> (cf_logs cfg ! i) index = Some c \<Longrightarrow>
     k = k1 + 1 \<and> cmd = c \<and> (0 < k1 \<longrightarrow> cmd1 = c)"
  by (auto simp: nCommitted1_def at_def split: if_splits)

lemma nCommitted_prefix:
  "forR (nCommitted1 index cfg) [0..<m] (0, None) = Inr (k, cmd) \<Longrightarrow>
     k = length (filter (\<lambda>i. (cf_logs cfg ! i) index \<noteq> None) [0..<m]) \<and>
     (\<forall>i < m. (cf_logs cfg ! i) index \<noteq> None \<longrightarrow> (cf_logs cfg ! i) index = Some cmd)"
proof (induction m arbitrary: k cmd)
  case (Suc m)
  then obtain s1 where s1: "forR (nCommitted1 index cfg) [0..<m] (0, None) = Inr s1" "nCommitted1 index cfg m s1 = Inr (k, cmd)"
    by (auto simp: forR_append elim!: rbind_InrE)
  obtain k1 cmd1 where s: "s1 = (k1, cmd1)" by fastforce
  note IH = Suc.IH [OF s1(1) [unfolded s]]
  show ?case
  proof (cases "(cf_logs cfg ! m) index")
    case None
    with nCommitted1_None [OF s1(2) [unfolded s]] IH show ?thesis by (simp add: All_less_Suc)
  next
    case (Some c)
    have "\<forall>i < m. (cf_logs cfg ! i) index \<noteq> None \<longrightarrow> (cf_logs cfg ! i) index = Some cmd"
    proof (cases "k1 = 0")
      case True
      then have "filter (\<lambda>i. (cf_logs cfg ! i) index \<noteq> None) [0..<m] = []" using IH by simp
      then show ?thesis by (simp add: filter_empty_conv)
    qed (use IH nCommitted1_Some [OF s1(2) [unfolded s] Some] in simp)
    with nCommitted1_Some [OF s1(2) [unfolded s] Some] IH Some show ?thesis by (simp add: All_less_Suc)
  qed
qed simp

lemma nCommitted_counts:
  assumes "nCommitted index cfg = Inr (k, cmd)"
  shows "k = length (committedOn index cfg) \<and> (\<forall>i \<in> set (committedOn index cfg). (cf_logs cfg ! i) index = Some cmd)"
  using nCommitted_prefix [OF assms [unfolded nCommitted_def]] by (simp add: committedOn_def)

lemma poll_agrees:
  "poll cmd k index envs cfg = Inr (cfg', True) \<Longrightarrow>
     0 < length (committedOn index cfg') \<and> k \<le> length (committedOn index cfg') \<and>
     (\<forall>i \<in> set (committedOn index cfg'). (cf_logs cfg' ! i) index = Some (Some cmd))"
  by (induction envs arbitrary: cfg)
    (auto simp: Let_def rbind_Inr_iff dest!: nCommitted_counts split: if_splits)

text \<open>\<^verbatim>\<open>one\<close> returns an index only if enough servers have applied the command there and none another.\<close>

lemma one_agrees:
  "one cmd k retry rounds starts cfg = Inr (cfg', index) \<Longrightarrow>
     0 < length (committedOn index cfg') \<and> k \<le> length (committedOn index cfg') \<and>
     (\<forall>i \<in> set (committedOn index cfg'). (cf_logs cfg' ! i) index = Some (Some cmd))"
proof (induction cmd k retry rounds starts cfg rule: one.induct)
  case (2 cmd k retry env envs rounds starts cfg)
  then obtain c1 starts1 ix where s: "sweep cmd (cf_n (env cfg)) starts (env cfg) = Inr (c1, starts1, ix)"
    by (auto simp: rbind_Inr_iff)
  show ?case
  proof (cases ix)
    case None
    then show ?thesis using 2 s by simp
  next
    case (Some i)
    then obtain c2 ok where p: "poll cmd k i envs c1 = Inr (c2, ok)"
      using 2(3) s by (auto simp: rbind_Inr_iff)
    show ?thesis
    proof (cases ok)
      case True
      then show ?thesis using 2(3) s Some p poll_agrees by fastforce
    next
      case False
      then show ?thesis using 2(2) [OF s refl refl Some p refl] 2(3) s Some p by (auto split: if_splits)
    qed
  qed
qed simp

section \<open>The reader of the apply channel\<close>

text \<open>Commands that come in order and agree with what the other servers applied pass the checks.\<close>

definition agrees :: "int \<Rightarrow> 'c option \<Rightarrow> (int \<rightharpoonup> 'c option) list \<Rightarrow> bool" where
  "agrees index v logs \<longleftrightarrow> (\<forall>log \<in> set logs. log index = None \<or> log index = Some v)"

lemma mismatch_None: "agrees index v logs \<Longrightarrow> mismatch i index v logs = None"
proof -
  assume ok: "agrees index v logs"
  have "foldl (\<lambda>err j. case (logs ! j) index of
      Some old \<Rightarrow> if old \<noteq> v then Some (CommitMismatch index i j) else err | None \<Rightarrow> err) None js = None"
    if "set js \<subseteq> {..<length logs}" for js
    using that
  proof (induction js)
    case (Cons j js)
    then have "logs ! j \<in> set logs" by simp
    then have "(logs ! j) index = None \<or> (logs ! j) index = Some v" using ok by (auto simp: agrees_def)
    with Cons show ?case by auto
  qed simp
  then show ?thesis unfolding mismatch_def by force
qed

definition logged :: "('c, 's) ApplyMsg list \<Rightarrow> int \<rightharpoonup> 'c option" where
  "logged ms = map_of (map (\<lambda>m. (amCommandIndex m, amCommand m)) ms)"

lemma applyChecked_accepts:
  assumes "i < length (cf_logs cfg)" "amCommandIndex m > 1 \<Longrightarrow> (cf_logs cfg ! i) (amCommandIndex m - 1) \<noteq> None"
    and "agrees (amCommandIndex m) (amCommand m) (cf_logs cfg)"
  shows "\<exists>cfg1. applyChecked i m cfg = Inr (Inr cfg1) \<and>
    cf_logs cfg1 = (cf_logs cfg)[i := (cf_logs cfg ! i)(amCommandIndex m \<mapsto> amCommand m)]"
  using assms by (cases "amCommandIndex m > 1") (auto simp: applyChecked_def checkLogs_def Let_def at_def mismatch_None)

lemma applier_accepts:
  assumes "i < length (cf_logs cfg)" "map amCommandIndex ms = [a + 1..b]" "0 \<le> a"
    and "0 < a \<Longrightarrow> (cf_logs cfg ! i) a \<noteq> None" "\<And>m. m \<in> set ms \<Longrightarrow> amCommandValid m"
    and "\<And>m. m \<in> set ms \<Longrightarrow> agrees (amCommandIndex m) (amCommand m) (cf_logs cfg)"
  shows "\<exists>cfg'. applier i ms cfg = Inr (Inr cfg') \<and> cf_logs cfg' = (cf_logs cfg)[i := cf_logs cfg ! i ++ logged ms]"
  using assms
proof (induction ms arbitrary: a cfg)
  case Nil
  then show ?case by (simp add: logged_def)
next
  case (Cons m ms)
  have m: "amCommandIndex m = a + 1" "map amCommandIndex ms = [a + 1 + 1..b]"
    using Cons.prems(2) by (auto simp: upto.simps [of "a + 1"] split: if_splits)
  have later: "a + 1 < amCommandIndex m'" if "m' \<in> set ms" for m'
  proof -
    have "amCommandIndex m' \<in> set (map amCommandIndex ms)" using that by simp
    then show ?thesis unfolding m(2) by simp
  qed
  obtain cfg1 where c1: "applyChecked i m cfg = Inr (Inr cfg1)"
    "cf_logs cfg1 = (cf_logs cfg)[i := (cf_logs cfg ! i)(a + 1 \<mapsto> amCommand m)]"
    using applyChecked_accepts [of i cfg m] Cons.prems(1,3,4) Cons.prems(6) [of m] m(1) by auto
  have "agrees (amCommandIndex m') (amCommand m') (cf_logs cfg1)" if "m' \<in> set ms" for m'
    using Cons.prems(1) Cons.prems(6) [of m'] later [OF that] that c1(2)
    by (auto simp: agrees_def dest!: set_update_subset_insert [THEN subsetD])
  then have "\<exists>cfg'. applier i ms cfg1 = Inr (Inr cfg') \<and> cf_logs cfg' = (cf_logs cfg1)[i := cf_logs cfg1 ! i ++ logged ms]"
    by (intro Cons.IH [of cfg1 "a + 1"]) (use Cons.prems(1,3,5) m(2) c1(2) in auto)
  then obtain cfg' where c': "applier i ms cfg1 = Inr (Inr cfg')" "cf_logs cfg' = (cf_logs cfg1)[i := cf_logs cfg1 ! i ++ logged ms]"
    by blast
  have "a + 1 \<noteq> amCommandIndex m'" if "m' \<in> set ms" for m' using later [OF that] by simp
  then have "a + 1 \<notin> dom (logged ms)" by (auto simp: logged_def dom_map_of_conv_image_fst image_comp)
  then have "(cf_logs cfg ! i)(a + 1 \<mapsto> amCommand m) ++ logged ms = cf_logs cfg ! i ++ logged (m # ms)"
    using m(1) by (simp add: logged_def map_add_upd_left)
  then show ?case using Cons.prems(1,5) c1 c' by simp
qed

text \<open>So the reader never stops at what a server applies, as long as the servers agree: a server sends
  its commands in order (\<open>DoApplyLoop_eq\<close>).\<close>

lemma tester_accepts_applied:
  assumes "wf_log (rf_log rf)" "base (rf_log rf) \<le> rf_lastApplied rf" "rf_lastApplied rf \<le> rf_commitIndex rf"
    and "rf_commitIndex rf \<le> tailIndex (rf_log rf)" "nat (rf_commitIndex rf - rf_lastApplied rf) \<le> k"
    and "i < length (cf_logs cfg)" "0 \<le> rf_lastApplied rf" "0 < rf_lastApplied rf \<Longrightarrow> (cf_logs cfg ! i) (rf_lastApplied rf) \<noteq> None"
    and "\<And>e. e \<in> set (rf_log rf) \<Longrightarrow> agrees (eIndex e) (eCommand e) (cf_logs cfg)"
  shows "\<exists>rf' ms cfg'. DoApplyLoop k rf = Inr (rf', ms) \<and> applier i ms cfg = Inr (Inr cfg')"
proof -
  let ?es = "entriesBetween (rf_log rf) (rf_lastApplied rf) (rf_commitIndex rf)"
  have ix: "map amCommandIndex (map commandMsg ?es) = [rf_lastApplied rf + 1..rf_commitIndex rf]"
    using entriesBetween_index [OF assms(1,2,4)] by (simp add: commandMsg_def comp_def)
  have "set ?es \<subseteq> set (rf_log rf)"
    using assms(2,4) by (auto simp: entriesBetween_def tailIndex_def intro!: nth_mem)
  then have "\<exists>cfg'. applier i (map commandMsg ?es) cfg = Inr (Inr cfg')"
    using applier_accepts [OF assms(6) ix assms(7,8)] assms(9) by (fastforce simp: commandMsg_def)
  then show ?thesis using DoApplyLoop_eq [OF assms(1-5)] by blast
qed

section \<open>Restart\<close>

text \<open>A server that is started again is made from what the instance before it had stored; that
  instance is told to stop, and its server is no longer registered.\<close>

lemma resave_Copy: "resave (Copy ps) = Copy ps"
  by (simp add: resave_def persister_defs)

lemma crash1_effect:
  assumes "crash1 i cfg = Inr cfg'" "linksOk cfg" "i < length (cf_saved cfg)" "i < length (cf_rafts cfg)"
    and "cf_rafts cfg ! i = Some q" "cf_saved cfg ! i = Some (InRaft q)" "q < length (cf_procs cfg)"
  shows "cf_procs cfg' = (cf_procs cfg)[q := Kill (cf_procs cfg ! q)] \<and> cf_rafts cfg' = (cf_rafts cfg)[i := None] \<and>
    cf_saved cfg' = (cf_saved cfg)[i := Some (Held (Copy (rf_persister (cf_procs cfg ! q))))] \<and>
    rn_servers (cf_net cfg') (Inl (int i)) = None"
proof -
  obtain c1 where d: "disconnect i cfg = Inr c1" and rest: "rbind (renewSaved Copy i (overNet (DeleteServer (Inl (int i))) c1)) (\<lambda>cfg.
     rbind (killRaft i cfg) (\<lambda>cfg. renewSaved resave i cfg)) = Inr cfg'"
    using assms(1) by (auto simp: crash1_def rbind_Inr_iff)
  have ok: "namesOk cfg" using assms(2) by (simp add: linksOk_def)
  have c1: "cf_procs c1 = cf_procs cfg" "cf_rafts c1 = cf_rafts cfg" "cf_saved c1 = cf_saved cfg"
    using disconnect_effect [OF d ok] by simp_all
  show ?thesis
    using rest assms(3-7) c1
    by (simp add: renewSaved_def savedPersister_def killRaft_def at_def overNet_def DeleteServer_def resave_Copy Let_def)
      (auto simp: resave_Copy)
qed

lemma tester_restart:
  assumes "start1 methods i randstring r cfg = Inr cfg'" "linksOk cfg" "i < length (cf_saved cfg)" "i < length (cf_rafts cfg)"
    and "cf_rafts cfg ! i = Some q" "cf_saved cfg ! i = Some (InRaft q)" "q < length (cf_procs cfg)"
  shows "\<exists>rf. Make (cf_n cfg) (int i) (Copy (rf_persister (cf_procs cfg ! q))) r = Inr rf \<and>
    cf_procs cfg' = (cf_procs cfg)[q := Kill (cf_procs cfg ! q)] @ [rf] \<and>
    cf_rafts cfg' ! i = Some (length (cf_procs cfg)) \<and> cf_saved cfg' ! i = Some (InRaft (length (cf_procs cfg)))"
proof -
  let ?es = "map randstring [0..<cf_n cfg]"
  obtain c1 c2 ps rf where crash: "crash1 i cfg = Inr c1"
    and mk: "makeEnds ?es (c1\<lparr>cf_endnames := (cf_endnames c1)[i := Some ?es]\<rparr>) = Inr c2"
    and ps: "copySaved i c2 = Inr ps" and rf: "Make (cf_n c2) (int i) ps r = Inr rf"
    and c': "cf_procs cfg' = cf_procs c2 @ [rf]" "cf_rafts cfg' = (cf_rafts c2)[i := Some (length (cf_procs c2))]"
      "cf_saved cfg' = (cf_saved c2)[i := Some (InRaft (length (cf_procs c2)))]"
    using assms(1) by (auto simp: start1_def rbind_Inr_iff put_Inr_iff Let_def)
  have eq: "c2 = c1\<lparr>cf_endnames := (cf_endnames c1)[i := Some ?es], cf_net := cf_net c2\<rparr>"
    using makeEnds_effect [OF mk] unfolding endsMade_def by simp
  have c2: "cf_n c2 = cf_n c1" "cf_procs c2 = cf_procs c1" "cf_rafts c2 = cf_rafts c1" "cf_saved c2 = cf_saved c1"
    by (subst eq, simp)+
  note c1 = crash1_effect [OF crash assms(2-7)] crash1_linksOk [OF crash assms(2)]
  have "ps = Copy (rf_persister (cf_procs cfg ! q))"
    using ps c1 c2 assms(3) by (simp add: copySaved_def at_def savedPersister_def persister_defs)
  then show ?thesis using rf c' c1 c2 assms(3,4) by simp
qed

end
