(* ===== verification/Service_Tester.thy ===== *)
theory Service_Tester
  imports Raft_Tester
begin

text \<open>
  What the testers of the two replicated services, \<^verbatim>\<open>raft-db/config.go\<close> and
  \<^verbatim>\<open>shard-controller/config.go\<close>, have in common: the code of the two files is the same up to the type of
  the servers, which is a type parameter here. Servers are shared with the network, so \<open>tc_procs\<close> lists every server ever made
  and \<open>tc_servers\<close>, which is \<^verbatim>\<open>cfg.kvservers\<close> or \<^verbatim>\<open>cfg.servers\<close>, holds positions in it; likewise
  \<open>tc_clerkObjs\<close> lists the clients made, each with the names of its ends in the order it got them, and a
  position in it stands for the pointer. The Raft server of a server keeps the \<^verbatim>\<open>Persister\<close>, and
  \<open>tc_saved\<close> refers to it as \<open>InRaft\<close>. The argument \<open>raft\<close> selects the Raft server of a server.
  Random strings and numbers are arguments.
\<close>

section \<open>Data\<close>

text \<open>The receivers of the services a server registers: the server, and its Raft server.\<close>

datatype receiver = AServer nat | ItsRaft nat

record ('sv, 'c, 's, 'ck, 't, 'v) svcConfig =
  tc_net :: "(int + string, 't, receiver, 'v) Network"
  tc_n :: nat
  tc_procs :: "'sv list"
  tc_servers :: "nat option list"
  tc_saved :: "('c, 's) saved option list"
  tc_endnames :: "string list option list"
  tc_clerkObjs :: "('ck \<times> string list) list"
  tc_clerks :: "nat \<rightharpoonup> string list"
  tc_nextClientId :: int

type_synonym ('sv, 'c, 's, 'ck, 't, 'v, 'z) tester = "('sv, 'c, 's, 'ck, 't, 'v, 'z) svcConfig_scheme"

definition switch :: "string \<Rightarrow> bool \<Rightarrow> ('sv, 'c, 's, 'ck, 't, 'v, 'z) tester \<Rightarrow> ('sv, 'c, 's, 'ck, 't, 'v, 'z) tester" where
  "switch endname b cfg = cfg\<lparr>tc_net := Enable (Inr endname) b (tc_net cfg)\<rparr>"

text \<open>\<^verbatim>\<open>random_handles\<close>: \<open>r i\<close> is what \<^verbatim>\<open>rand.Intn\<close> is made from in round \<open>i\<close>.\<close>

fun shuffleFrom :: "nat list \<Rightarrow> (nat \<Rightarrow> nat) \<Rightarrow> 'a list \<Rightarrow> 'a list" where
  "shuffleFrom [] r sa = sa"
| "shuffleFrom (i # is) r sa = (let j = r i mod (i + 1) in shuffleFrom is r (sa[i := sa ! j, j := sa ! i]))"

definition random_handles :: "(nat \<Rightarrow> nat) \<Rightarrow> 'a list \<Rightarrow> 'a list" where
  "random_handles r kvh = shuffleFrom [0..<length kvh] r kvh"

section \<open>Links between servers\<close>

definition svcEnd :: "nat \<Rightarrow> nat \<Rightarrow> ('sv, 'c, 's, 'ck, 't, 'v, 'z) tester \<Rightarrow> string res" where
  "svcEnd i j cfg = rbind (at (tc_endnames cfg) (int i)) (\<lambda>es. at (names es) (int j))"

definition connectUnlocked ::
    "nat \<Rightarrow> nat list \<Rightarrow> ('sv, 'c, 's, 'ck, 't, 'v, 'z) tester \<Rightarrow> ('sv, 'c, 's, 'ck, 't, 'v, 'z) tester res" where
  "connectUnlocked i to cfg =
     rbind (forR (\<lambda>j cfg. rbind (svcEnd i (to ! j) cfg) (\<lambda>endname. Inr (switch endname True cfg))) [0..<length to] cfg)
           (forR (\<lambda>j cfg. rbind (svcEnd (to ! j) i cfg) (\<lambda>endname. Inr (switch endname True cfg))) [0..<length to])"

text \<open>The second loop tests the entry at the position \<open>j\<close> of the list, not that of the server \<open>from ! j\<close>.\<close>

definition disconnectUnlocked ::
    "nat \<Rightarrow> nat list \<Rightarrow> ('sv, 'c, 's, 'ck, 't, 'v, 'z) tester \<Rightarrow> ('sv, 'c, 's, 'ck, 't, 'v, 'z) tester res" where
  "disconnectUnlocked i from cfg =
     rbind (forR (\<lambda>j cfg. rbind (at (tc_endnames cfg) (int i)) (\<lambda>es.
              if es \<noteq> None then rbind (svcEnd i (from ! j) cfg) (\<lambda>endname. Inr (switch endname False cfg))
              else Inr cfg)) [0..<length from] cfg)
           (forR (\<lambda>j cfg. rbind (at (tc_endnames cfg) (int j)) (\<lambda>es.
              if es \<noteq> None then rbind (svcEnd (from ! j) i cfg) (\<lambda>endname. Inr (switch endname False cfg))
              else Inr cfg)) [0..<length from])"

definition AllServers :: "('sv, 'c, 's, 'ck, 't, 'v, 'z) tester \<Rightarrow> nat list" where
  "AllServers cfg = [0..<tc_n cfg]"

definition ConnectAll :: "('sv, 'c, 's, 'ck, 't, 'v, 'z) tester \<Rightarrow> ('sv, 'c, 's, 'ck, 't, 'v, 'z) tester res" where
  "ConnectAll cfg = forR (\<lambda>i cfg. connectUnlocked i (AllServers cfg) cfg) [0..<tc_n cfg] cfg"

definition partitionServers ::
    "nat list \<Rightarrow> nat list \<Rightarrow> ('sv, 'c, 's, 'ck, 't, 'v, 'z) tester \<Rightarrow> ('sv, 'c, 's, 'ck, 't, 'v, 'z) tester res" where
  "partitionServers p1 p2 cfg =
     rbind (forR (\<lambda>i cfg. rbind (disconnectUnlocked (p1 ! i) p2 cfg) (connectUnlocked (p1 ! i) p1)) [0..<length p1] cfg)
           (forR (\<lambda>i cfg. rbind (disconnectUnlocked (p2 ! i) p1 cfg) (connectUnlocked (p2 ! i) p2)) [0..<length p2])"

section \<open>Clients\<close>

definition clientEnds :: "string list \<Rightarrow> ('sv, 'c, 's, 'ck, 't, 'v, 'z) tester \<Rightarrow> ('sv, 'c, 's, 'ck, 't, 'v, 'z) tester res" where
  "clientEnds es =
     forR (\<lambda>j cfg. rbind (MakeEnd (Inr (es ! j)) (tc_net cfg)) (\<lambda>net.
       Inr (cfg\<lparr>tc_net := Connect (Inr (es ! j)) (Inl (int j)) net\<rparr>))) [0..<length es]"

text \<open>The entry of the map, an empty slice when there is none.\<close>

definition clerkNames :: "nat \<Rightarrow> ('sv, 'c, 's, 'ck, 't, 'v, 'z) tester \<Rightarrow> string list" where
  "clerkNames ck cfg = (case tc_clerks cfg ck of None \<Rightarrow> [] | Some es \<Rightarrow> es)"

definition ConnectClientUnlocked ::
    "nat \<Rightarrow> nat list \<Rightarrow> ('sv, 'c, 's, 'ck, 't, 'v, 'z) tester \<Rightarrow> ('sv, 'c, 's, 'ck, 't, 'v, 'z) tester res" where
  "ConnectClientUnlocked ck to cfg =
     forR (\<lambda>j cfg'. rbind (at (clerkNames ck cfg) (int (to ! j))) (\<lambda>s. Inr (switch s True cfg'))) [0..<length to] cfg"

definition DisconnectClientUnlocked ::
    "nat \<Rightarrow> nat list \<Rightarrow> ('sv, 'c, 's, 'ck, 't, 'v, 'z) tester \<Rightarrow> ('sv, 'c, 's, 'ck, 't, 'v, 'z) tester res" where
  "DisconnectClientUnlocked ck from cfg =
     forR (\<lambda>j cfg'. rbind (at (clerkNames ck cfg) (int (from ! j))) (\<lambda>s. Inr (switch s False cfg'))) [0..<length from] cfg"

text \<open>\<open>mk\<close> is \<^verbatim>\<open>MakeClerk\<close>, which is given the number of ends. The result has the pointer of the client.\<close>

definition makeClient ::
    "(nat \<Rightarrow> 'ck) \<Rightarrow> (nat \<Rightarrow> string) \<Rightarrow> (nat \<Rightarrow> nat) \<Rightarrow> nat list \<Rightarrow> ('sv, 'c, 's, 'ck, 't, 'v, 'z) tester \<Rightarrow>
     (('sv, 'c, 's, 'ck, 't, 'v, 'z) tester \<times> nat) res" where
  "makeClient mk randstring r to cfg =
     (let endnames = map randstring [0..<tc_n cfg] in
      rbind (clientEnds endnames cfg) (\<lambda>cfg.
        let ends = random_handles r endnames;
            ck = length (tc_clerkObjs cfg);
            cfg1 = cfg\<lparr>tc_clerkObjs := tc_clerkObjs cfg @ [(mk (length ends), ends)],
                       tc_clerks := (tc_clerks cfg)(ck \<mapsto> endnames), tc_nextClientId := tc_nextClientId cfg + 1\<rparr>
        in rbind (ConnectClientUnlocked ck to cfg1) (\<lambda>cfg2. Inr (cfg2, ck))))"

text \<open>\<^verbatim>\<open>os.Remove\<close> removes files of the names of the ends, of which there are none.\<close>

definition deleteClient :: "nat \<Rightarrow> ('sv, 'c, 's, 'ck, 't, 'v, 'z) tester \<Rightarrow> ('sv, 'c, 's, 'ck, 't, 'v, 'z) tester" where
  "deleteClient ck cfg = cfg\<lparr>tc_clerks := (tc_clerks cfg)(ck := None)\<rparr>"

section \<open>Shutdown and start\<close>

definition savedAt ::
    "('sv \<Rightarrow> ('c, 's) Raft) \<Rightarrow> nat \<Rightarrow> ('sv, 'c, 's, 'ck, 't, 'v, 'z) tester \<Rightarrow> ('c raft_item, 's) Persister option res" where
  "savedAt raft i cfg =
     rbind (at (tc_saved cfg) (int i)) (\<lambda>s.
       case s of None \<Rightarrow> Inr None
       | Some (Held ps) \<Rightarrow> Inr (Some ps)
       | Some (InRaft q) \<Rightarrow> rbind (at (tc_procs cfg) (int q)) (\<lambda>sv. Inr (Some (rf_persister (raft sv)))))"

definition killServer ::
    "('sv \<Rightarrow> 'sv) \<Rightarrow> nat \<Rightarrow> ('sv, 'c, 's, 'ck, 't, 'v, 'z) tester \<Rightarrow> ('sv, 'c, 's, 'ck, 't, 'v, 'z) tester res" where
  "killServer kill i cfg =
     rbind (at (tc_servers cfg) (int i)) (\<lambda>kv.
       case kv of None \<Rightarrow> Inr cfg
       | Some q \<Rightarrow> rbind (at (tc_procs cfg) (int q)) (\<lambda>sv. Inr (cfg\<lparr>tc_procs := (tc_procs cfg)[q := kill sv]\<rparr>)))"

definition ShutdownServer ::
    "('sv \<Rightarrow> ('c, 's) Raft) \<Rightarrow> ('sv \<Rightarrow> 'sv) \<Rightarrow> nat \<Rightarrow> ('sv, 'c, 's, 'ck, 't, 'v, 'z) tester \<Rightarrow>
     ('sv, 'c, 's, 'ck, 't, 'v, 'z) tester res" where
  "ShutdownServer raft kill i cfg =
     rbind (disconnectUnlocked i (AllServers cfg) cfg) (\<lambda>cfg.
     let cfg = cfg\<lparr>tc_net := DeleteServer (Inl (int i)) (tc_net cfg)\<rparr> in
     rbind (savedAt raft i cfg) (\<lambda>ps.
     let cfg = (case ps of None \<Rightarrow> cfg | Some ps \<Rightarrow> cfg\<lparr>tc_saved := (tc_saved cfg)[i := Some (Held (Copy ps))]\<rparr>) in
     rbind (killServer kill i cfg) (\<lambda>cfg. Inr (cfg\<lparr>tc_servers := (tc_servers cfg)[i := None]\<rparr>))))"

text \<open>\<open>start\<close> starts a server with the given number of ends, its number and its storage; \<open>svc\<close> is the name of its type,
  \<open>svcMethods\<close> and \<open>rfMethods\<close> are the methods reflection finds.\<close>

definition launch ::
    "(nat \<Rightarrow> int \<Rightarrow> ('c raft_item, 's) Persister \<Rightarrow> 'sv res) \<Rightarrow> ('sv \<Rightarrow> ('c, 's) Raft) \<Rightarrow> string \<Rightarrow>
     ('t, receiver, 'v) Method list \<Rightarrow> ('t, receiver, 'v) Method list \<Rightarrow> nat \<Rightarrow> (nat \<Rightarrow> string) \<Rightarrow>
     ('sv, 'c, 's, 'ck, 't, 'v, 'z) tester \<Rightarrow> ('sv, 'c, 's, 'ck, 't, 'v, 'z) tester res" where
  "launch start raft svc svcMethods rfMethods i randstring cfg =
     (let es = map randstring [0..<tc_n cfg] in
      rbind (put (tc_endnames cfg) (int i) (Some es)) (\<lambda>ens.
      rbind (clientEnds es (cfg\<lparr>tc_endnames := ens\<rparr>)) (\<lambda>cfg.
      rbind (savedAt raft i cfg) (\<lambda>saved.
      rbind (start (tc_n cfg) (int i) (case saved of Some ps \<Rightarrow> Copy ps | None \<Rightarrow> MakePersister)) (\<lambda>sv.
        let q = length (tc_procs cfg);
            srv = AddService (MakeService ''Raft'' (ItsRaft q) rfMethods)
                    (AddService (MakeService svc (AServer q) svcMethods) MakeServer)
        in Inr (cfg\<lparr>tc_procs := tc_procs cfg @ [sv], tc_servers := (tc_servers cfg)[i := Some q],
                    tc_saved := (tc_saved cfg)[i := Some (InRaft q)],
                    tc_net := AddServer (Inl (int i)) srv (tc_net cfg)\<rparr>))))))"

text \<open>\<^verbatim>\<open>cleanup\<close>.\<close>

definition cleanupServers ::
    "('sv \<Rightarrow> 'sv) \<Rightarrow> ('sv, 'c, 's, 'ck, 't, 'v, 'z) tester \<Rightarrow> ('sv, 'c, 's, 'ck, 't, 'v, 'z) tester res" where
  "cleanupServers kill cfg =
     rbind (forR (killServer kill) [0..<length (tc_servers cfg)] cfg) (\<lambda>cfg.
     rbind (Cleanup (tc_net cfg)) (\<lambda>net. Inr (cfg\<lparr>tc_net := net\<rparr>)))"

text \<open>\<^verbatim>\<open>LogSize\<close> and \<^verbatim>\<open>SnapshotSize\<close>: the largest of the sizes, at least 0.\<close>

definition largest ::
    "('sv \<Rightarrow> ('c, 's) Raft) \<Rightarrow> (('c raft_item, 's) Persister \<Rightarrow> int) \<Rightarrow> ('sv, 'c, 's, 'ck, 't, 'v, 'z) tester \<Rightarrow> int res" where
  "largest raft sizeOf cfg =
     forR (\<lambda>i best. rbind (savedAt raft i cfg) (\<lambda>s. rbind (deref s) (\<lambda>ps.
       Inr (let n = sizeOf ps in if n > best then n else best)))) [0..<tc_n cfg] 0"

section \<open>Leaders and partitions\<close>

text \<open>\<^verbatim>\<open>make_partition\<close>, given the leader \<open>l\<close>: the loop over the servers, with \<open>j\<close> the number of servers placed.\<close>

definition place :: "nat \<Rightarrow> nat \<Rightarrow> int \<times> nat list \<times> nat list \<Rightarrow> (int \<times> nat list \<times> nat list) res" where
  "place l i s =
     (case s of (j, p1, p2) \<Rightarrow>
        if i \<noteq> l
        then if j < int (length p1) then rbind (put p1 j i) (\<lambda>p1. Inr (j + 1, p1, p2))
             else rbind (put p2 (j - int (length p1)) i) (\<lambda>p2. Inr (j + 1, p1, p2))
        else Inr (j, p1, p2))"

definition splitAround :: "nat \<Rightarrow> nat \<Rightarrow> (nat list \<times> nat list) res" where
  "splitAround n l =
     rbind (forR (place l) [0..<n] (0, replicate (n div 2 + 1) 0, replicate (n div 2) 0)) (\<lambda>(j, p1, p2).
     rbind (put p2 (int (length p2) - 1) l) (\<lambda>p2. Inr (p1, p2)))"

end
