(* ===== verification/KV_Tester.thy ===== *)
theory KV_Tester
  imports Service_Tester KV_Clerk KV_Server
begin

text \<open>
  The tester of the key/value service, \<^verbatim>\<open>raft-db/config.go\<close>: the operations of \<open>Service_Tester\<close> for
  servers of type \<open>KVServer\<close> and clients of type \<open>Clerk\<close>, and what this file has besides.
  \<open>ob i\<close> is what \<^verbatim>\<open>GetState\<close> of server \<open>i\<close> returns when it is called: the servers run on meanwhile.
\<close>

record ('t, 'v) kvConfig = "(KVServer, kv_op, kv_item, Clerk, 't, 'v) svcConfig" +
  kc_maxraftstate :: int
  kc_rpcs0 :: int
  kc_ops :: "32 word"

definition kvtMakeClient ::
    "32 word \<Rightarrow> (nat \<Rightarrow> string) \<Rightarrow> (nat \<Rightarrow> nat) \<Rightarrow> nat list \<Rightarrow> ('t, 'v) kvConfig \<Rightarrow> (('t, 'v) kvConfig \<times> nat) res" where
  "kvtMakeClient rnd = makeClient (\<lambda>servers. MakeClerk servers rnd)"

definition kvtShutdownServer :: "nat \<Rightarrow> ('t, 'v) kvConfig \<Rightarrow> ('t, 'v) kvConfig res" where
  "kvtShutdownServer = ShutdownServer kv_rf kvKill"

definition kvtStartServer ::
    "('t, receiver, 'v) Method list \<Rightarrow> ('t, receiver, 'v) Method list \<Rightarrow> nat \<Rightarrow> (nat \<Rightarrow> string) \<Rightarrow> nat \<Rightarrow>
     ('t, 'v) kvConfig \<Rightarrow> ('t, 'v) kvConfig res" where
  "kvtStartServer kvMethods rfMethods i randstring r cfg =
     launch (\<lambda>servers m ps. StartKVServer servers m ps (kc_maxraftstate cfg) r) kv_rf ''KVServer''
       kvMethods rfMethods i randstring cfg"

definition kvtCleanup :: "('t, 'v) kvConfig \<Rightarrow> ('t, 'v) kvConfig res" where
  "kvtCleanup = cleanupServers kvKill"

definition kvtLogSize :: "(kv_op raft_item gob \<Rightarrow> int) \<Rightarrow> ('t, 'v) kvConfig \<Rightarrow> int res" where
  "kvtLogSize bytelen = largest kv_rf (RaftStateSize bytelen)"

definition kvtSnapshotSize :: "(kv_item gob \<Rightarrow> int) \<Rightarrow> ('t, 'v) kvConfig \<Rightarrow> int res" where
  "kvtSnapshotSize bytelen = largest kv_rf (SnapshotSize bytelen)"

text \<open>\<^verbatim>\<open>Leader\<close> reads every server up to the first leader, and does not test whether the server is there.\<close>

fun kvtLeaderFrom :: "obs \<Rightarrow> nat list \<Rightarrow> ('t, 'v) kvConfig \<Rightarrow> (bool \<times> nat) res" where
  "kvtLeaderFrom ob [] cfg = Inr (False, 0)"
| "kvtLeaderFrom ob (i # is) cfg =
     rbind (at (tc_servers cfg) (int i)) (\<lambda>kv. rbind (deref kv) (\<lambda>_.
       if snd (ob i) then Inr (True, i) else kvtLeaderFrom ob is cfg))"

definition kvtLeader :: "obs \<Rightarrow> ('t, 'v) kvConfig \<Rightarrow> (bool \<times> nat) res" where
  "kvtLeader ob cfg = kvtLeaderFrom ob [0..<tc_n cfg] cfg"

definition kvtMakePartition :: "obs \<Rightarrow> ('t, 'v) kvConfig \<Rightarrow> (nat list \<times> nat list) res" where
  "kvtMakePartition ob cfg = rbind (kvtLeader ob cfg) (\<lambda>(_, l). splitAround (tc_n cfg) l)"

definition kvtEmpty :: "nat \<Rightarrow> int \<Rightarrow> ('t, 'v) kvConfig" where
  "kvtEmpty n maxraftstate =
     \<lparr>tc_net = MakeNetwork, tc_n = n, tc_procs = [], tc_servers = replicate n None, tc_saved = replicate n None,
      tc_endnames = replicate n None, tc_clerkObjs = [], tc_clerks = Map.empty, tc_nextClientId = int n + 1000,
      kc_maxraftstate = maxraftstate, kc_rpcs0 = 0, kc_ops = 0\<rparr>"

definition kvtMakeConfig ::
    "('t, receiver, 'v) Method list \<Rightarrow> ('t, receiver, 'v) Method list \<Rightarrow> nat \<Rightarrow> bool \<Rightarrow> int \<Rightarrow> (nat \<Rightarrow> nat \<Rightarrow> string) \<Rightarrow>
     (nat \<Rightarrow> nat) \<Rightarrow> ('t, 'v) kvConfig res" where
  "kvtMakeConfig kvMethods rfMethods n unreliable maxraftstate randstring r =
     rbind (forR (\<lambda>i. kvtStartServer kvMethods rfMethods i (randstring i) (r i)) [0..<n] (kvtEmpty n maxraftstate)) (\<lambda>cfg.
     rbind (ConnectAll cfg) (\<lambda>cfg.
       Inr (cfg\<lparr>tc_net := Reliable (\<not> unreliable) (tc_net cfg)\<rparr>)))"

text \<open>The statistics; \<^verbatim>\<open>end\<close> prints what is returned here.\<close>

definition kvtRpcTotal :: "('t, 'v) kvConfig \<Rightarrow> int" where
  "kvtRpcTotal cfg = GetTotalCount (tc_net cfg)"

definition kvtBegin :: "('t, 'v) kvConfig \<Rightarrow> ('t, 'v) kvConfig" where
  "kvtBegin cfg = cfg\<lparr>kc_rpcs0 := kvtRpcTotal cfg, kc_ops := 0\<rparr>"

definition kvtOp :: "('t, 'v) kvConfig \<Rightarrow> ('t, 'v) kvConfig" where
  "kvtOp cfg = cfg\<lparr>kc_ops := kc_ops cfg + 1\<rparr>"

definition kvtEnd :: "('t, 'v) kvConfig \<Rightarrow> nat \<times> int \<times> int" where
  "kvtEnd cfg = (tc_n cfg, kvtRpcTotal cfg - kc_rpcs0 cfg, sint (kc_ops cfg))"

end
