(* ===== verification/Service_Tester_Props.thy ===== *)
theory Service_Tester_Props
  imports Service_Tester Raft_Tester_Props
begin

text \<open>
  What the testers of the services do to the network. Every end leads to the server it is for and
  names are never shared (\<open>wired\<close>), whatever is connected, partitioned, shut down or started; then
  connecting, disconnecting and partitioning switch exactly the links they name and never panic.
\<close>

section \<open>Handles\<close>

lemma shuffleFrom_mset: "\<forall>i \<in> set is. i < length sa \<Longrightarrow> mset (shuffleFrom is r sa) = mset sa"
proof (induction "is" arbitrary: sa)
  case (Cons i "is")
  define j where "j = r i mod (i + 1)"
  have j: "j < length sa" 
  proof -
    have "j < i + 1" unfolding j_def by (rule mod_less_divisor) simp
    then show ?thesis using Cons.prems by simp
  qed
  have "mset (sa[i := sa ! j, j := sa ! i]) = mset sa"
    using Cons.prems j by (intro mset_swap) simp_all
  moreover have "mset (shuffleFrom is r (sa[i := sa ! j, j := sa ! i])) = mset (sa[i := sa ! j, j := sa ! i])"
    using Cons.prems by (intro Cons.IH) simp
  ultimately show ?case by (simp add: j_def Let_def)
qed simp

lemma random_handles_mset: "mset (random_handles r kvh) = mset kvh"
  unfolding random_handles_def by (rule shuffleFrom_mset) simp

section \<open>Switching ends\<close>

definition enabling ::
    "bool \<Rightarrow> string set \<Rightarrow> ('sv, 'c, 's, 'ck, 't, 'v, 'z) tester \<Rightarrow> ('sv, 'c, 's, 'ck, 't, 'v, 'z) tester" where
  "enabling b E cfg = cfg\<lparr>tc_net := setEnabled b E (tc_net cfg)\<rparr>"

lemma enabling_simps [simp]:
  "tc_n (enabling b E cfg) = tc_n cfg" "tc_endnames (enabling b E cfg) = tc_endnames cfg"
  "tc_net (enabling b E cfg) = setEnabled b E (tc_net cfg)" "tc_clerks (enabling b E cfg) = tc_clerks cfg"
  "tc_procs (enabling b E cfg) = tc_procs cfg" "tc_servers (enabling b E cfg) = tc_servers cfg"
  "tc_saved (enabling b E cfg) = tc_saved cfg" "svcConfig.more (enabling b E cfg) = svcConfig.more cfg"
  by (simp_all add: enabling_def)

lemma enabling_empty [simp]: "enabling b {} cfg = cfg"
  by (simp add: enabling_def)

lemma enabling_switch: "enabling b E (switch e b cfg) = enabling b (insert e E) cfg"
  by (simp add: enabling_def switch_def setEnabled_Enable)

lemma switch_simps [simp]:
  "tc_n (switch e b cfg) = tc_n cfg" "tc_endnames (switch e b cfg) = tc_endnames cfg"
  "tc_clerks (switch e b cfg) = tc_clerks cfg"
  by (simp_all add: switch_def)

definition svcName :: "('sv, 'c, 's, 'ck, 't, 'v, 'z) tester \<Rightarrow> nat \<Rightarrow> nat \<Rightarrow> string" where
  "svcName cfg i j = names (tc_endnames cfg ! i) ! j"

definition hasEnds :: "('sv, 'c, 's, 'ck, 't, 'v, 'z) tester \<Rightarrow> nat \<Rightarrow> bool" where
  "hasEnds cfg i \<longleftrightarrow> i < tc_n cfg \<and> i < length (tc_endnames cfg) \<and>
     (\<exists>es. tc_endnames cfg ! i = Some es \<and> length es = tc_n cfg)"

lemma svcName_frame [simp]:
  "svcName (enabling b E cfg) = svcName cfg" "hasEnds (enabling b E cfg) = hasEnds cfg"
  "svcName (switch e b cfg) = svcName cfg" "hasEnds (switch e b cfg) = hasEnds cfg"
  by (simp_all add: svcName_def hasEnds_def fun_eq_iff)

lemma hasEndsD: "hasEnds cfg i \<Longrightarrow> i < tc_n cfg \<and> i < length (tc_endnames cfg) \<and> tc_endnames cfg ! i \<noteq> None"
  by (auto simp: hasEnds_def)

lemma svcEnd_has: "hasEnds cfg i \<Longrightarrow> j < tc_n cfg \<Longrightarrow> svcEnd i j cfg = Inr (svcName cfg i j)"
  by (auto simp: svcEnd_def svcName_def hasEnds_def at_def names_def)

lemma switch_ends:
  assumes "\<And>x. x \<in> set xs \<Longrightarrow> hasEnds cfg (a x) \<and> b x < tc_n cfg"
  shows "forR (\<lambda>x cfg. rbind (svcEnd (a x) (b x) cfg) (\<lambda>e. Inr (switch e y cfg))) xs cfg =
     Inr (enabling y ((\<lambda>x. svcName cfg (a x) (b x)) ` set xs) cfg)"
  using assms
proof (induction xs arbitrary: cfg)
  case (Cons x xs)
  have "forR (\<lambda>x cfg. rbind (svcEnd (a x) (b x) cfg) (\<lambda>e. Inr (switch e y cfg))) xs (switch (svcName cfg (a x) (b x)) y cfg) =
      Inr (enabling y ((\<lambda>x. svcName cfg (a x) (b x)) ` set xs) (switch (svcName cfg (a x) (b x)) y cfg))"
    using Cons.IH [of "switch (svcName cfg (a x) (b x)) y cfg"] Cons.prems by simp
  then show ?case using svcEnd_has [of cfg "a x" "b x"] Cons.prems by (simp add: enabling_switch)
qed simp

text \<open>The guard of the second loop of \<^verbatim>\<open>disconnectUnlocked\<close> holds when every server was started once.\<close>

lemma guarded_ends:
  assumes "\<And>x. x \<in> set xs \<Longrightarrow> hasEnds cfg (a x) \<and> b x < tc_n cfg \<and> hasEnds cfg (g x)"
  shows "forR (\<lambda>x cfg. rbind (at (tc_endnames cfg) (int (g x))) (\<lambda>es.
       if es \<noteq> None then rbind (svcEnd (a x) (b x) cfg) (\<lambda>e. Inr (switch e y cfg)) else Inr cfg)) xs cfg =
     Inr (enabling y ((\<lambda>x. svcName cfg (a x) (b x)) ` set xs) cfg)"
  using assms
proof (induction xs arbitrary: cfg)
  case (Cons x xs)
  let ?f = "\<lambda>x cfg. rbind (at (tc_endnames cfg) (int (g x))) (\<lambda>es.
       if es \<noteq> None then rbind (svcEnd (a x) (b x) cfg) (\<lambda>e. Inr (switch e y cfg)) else Inr cfg)"
  have x: "hasEnds cfg (a x)" "b x < tc_n cfg" "hasEnds cfg (g x)" using Cons.prems by auto
  have "?f x cfg = Inr (switch (svcName cfg (a x) (b x)) y cfg)"
    using hasEndsD [OF x(3)] svcEnd_has [OF x(1,2)] by (simp add: at_def)
  then show ?case using Cons.IH [of "switch (svcName cfg (a x) (b x)) y cfg"] Cons.prems by (simp add: enabling_switch)
qed simp

definition allStarted :: "('sv, 'c, 's, 'ck, 't, 'v, 'z) tester \<Rightarrow> bool" where
  "allStarted cfg \<longleftrightarrow> (\<forall>i < tc_n cfg. hasEnds cfg i)"

lemma setEnabled_setEnabled: "setEnabled b E (setEnabled b F rn) = setEnabled b (F \<union> E) rn"
  unfolding setEnabled_def by (cases rn) (auto simp: fun_eq_iff)

lemma enabling_enabling: "enabling b E (enabling b F cfg) = enabling b (F \<union> E) cfg"
  by (simp add: enabling_def setEnabled_setEnabled)

lemma connectUnlocked_eq:
  assumes "allStarted cfg" "i < tc_n cfg" "set to \<subseteq> {..<tc_n cfg}"
  shows "connectUnlocked i to cfg = Inr (enabling True (svcName cfg i ` set to \<union> (\<lambda>t. svcName cfg t i) ` set to) cfg)"
proof -
  have ok: "hasEnds cfg i" "\<And>t. t \<in> set to \<Longrightarrow> hasEnds cfg t \<and> t < tc_n cfg" using assms by (auto simp: allStarted_def)
  have 1: "forR (\<lambda>j cfg. rbind (svcEnd i (to ! j) cfg) (\<lambda>e. Inr (switch e True cfg))) [0..<length to] s =
      forR (\<lambda>t cfg. rbind (svcEnd i t cfg) (\<lambda>e. Inr (switch e True cfg))) to s" for s
    by (rule forR_nth)
  have 2: "forR (\<lambda>j cfg. rbind (svcEnd (to ! j) i cfg) (\<lambda>e. Inr (switch e True cfg))) [0..<length to] s =
      forR (\<lambda>t cfg. rbind (svcEnd t i cfg) (\<lambda>e. Inr (switch e True cfg))) to s" for s
    by (rule forR_nth)
  show ?thesis
    unfolding connectUnlocked_def 1 2
    using switch_ends [of to cfg "\<lambda>_. i" "\<lambda>t. t" True] ok assms(2)
      switch_ends [of to "enabling True (svcName cfg i ` set to) cfg" "\<lambda>t. t" "\<lambda>_. i" True]
    by (simp add: enabling_enabling)
qed

lemma image_nth: "(\<lambda>j. f (xs ! j)) ` {0..<length xs} = f ` set xs"
  by (force simp: in_set_conv_nth image_iff)

lemma disconnectUnlocked_eq:
  assumes "allStarted cfg" "i < tc_n cfg" "set from \<subseteq> {..<tc_n cfg}" "length from \<le> tc_n cfg"
  shows "disconnectUnlocked i from cfg = Inr (enabling False (svcName cfg i ` set from \<union> (\<lambda>t. svcName cfg t i) ` set from) cfg)"
proof -
  have ok: "hasEnds cfg i" "\<And>j. j < length from \<Longrightarrow> hasEnds cfg (from ! j) \<and> from ! j < tc_n cfg \<and> hasEnds cfg j"
    using assms by (auto simp: allStarted_def subset_iff)
  show ?thesis
    unfolding disconnectUnlocked_def
    using guarded_ends [of "[0..<length from]" cfg "\<lambda>_. i" "\<lambda>j. from ! j" "\<lambda>_. i" False] ok assms(2)
      guarded_ends [of "[0..<length from]" "enabling False (svcName cfg i ` set from) cfg" "\<lambda>j. from ! j" "\<lambda>_. i" "\<lambda>j. j" False]
    by (simp add: enabling_enabling image_nth image_nth [of "\<lambda>t. svcName cfg t i"])
qed

section \<open>Wiring\<close>

text \<open>Names are not shared and belong to ends that lead to the right servers, those of clients too.\<close>

definition endFor :: "('sv, 'c, 's, 'ck, 't, 'v, 'z) tester \<Rightarrow> string \<Rightarrow> nat \<Rightarrow> bool" where
  "endFor cfg e j \<longleftrightarrow> Inr e \<in> rn_ends (tc_net cfg) \<and> rn_connections (tc_net cfg) (Inr e) = Some (Inl (int j))"

definition distinctEnds :: "('sv, 'c, 's, 'ck, 't, 'v, 'z) tester \<Rightarrow> bool" where
  "distinctEnds cfg \<longleftrightarrow> (\<forall>i j i' j'. hasEnds cfg i \<and> hasEnds cfg i' \<and> j < tc_n cfg \<and> j' < tc_n cfg \<and>
     svcName cfg i j = svcName cfg i' j' \<longrightarrow> i = i' \<and> j = j')"

definition wired :: "('sv, 'c, 's, 'ck, 't, 'v, 'z) tester \<Rightarrow> bool" where
  "wired cfg \<longleftrightarrow> length (tc_endnames cfg) = tc_n cfg \<and> distinctEnds cfg \<and>
     (\<forall>i j. hasEnds cfg i \<longrightarrow> j < tc_n cfg \<longrightarrow> endFor cfg (svcName cfg i j) j) \<and>
     (\<forall>ck es. tc_clerks cfg ck = Some es \<longrightarrow> length es = tc_n cfg \<and>
        (\<forall>j < tc_n cfg. endFor cfg (es ! j) j \<and> (\<forall>i k. hasEnds cfg i \<longrightarrow> k < tc_n cfg \<longrightarrow> es ! j \<noteq> svcName cfg i k)))"

lemma wired_distinct:
  "wired cfg \<Longrightarrow> hasEnds cfg i \<Longrightarrow> hasEnds cfg i' \<Longrightarrow> j < tc_n cfg \<Longrightarrow> j' < tc_n cfg \<Longrightarrow>
     svcName cfg i j = svcName cfg i' j' \<longleftrightarrow> i = i' \<and> j = j'"
  unfolding wired_def distinctEnds_def by blast

lemma wiredD:
  assumes "wired cfg"
  shows "hasEnds cfg i \<Longrightarrow> j < tc_n cfg \<Longrightarrow> endFor cfg (svcName cfg i j) j" "length (tc_endnames cfg) = tc_n cfg"
    "tc_clerks cfg ck = Some es \<Longrightarrow> length es = tc_n cfg"
    "tc_clerks cfg ck = Some es \<Longrightarrow> j < tc_n cfg \<Longrightarrow> endFor cfg (es ! j) j"
    "tc_clerks cfg ck = Some es \<Longrightarrow> j < tc_n cfg \<Longrightarrow> hasEnds cfg i \<Longrightarrow> k < tc_n cfg \<Longrightarrow> es ! j \<noteq> svcName cfg i k"
  using assms by (auto simp: wired_def)

text \<open>The part of the configuration the wiring depends on.\<close>

definition wireView where
  "wireView cfg = (tc_n cfg, tc_endnames cfg, tc_clerks cfg, rn_ends (tc_net cfg), rn_connections (tc_net cfg))"

lemma wired_view: "wireView cfg' = wireView cfg \<Longrightarrow> wired cfg' = wired cfg \<and> allStarted cfg' = allStarted cfg"
  by (simp add: wireView_def wired_def distinctEnds_def endFor_def hasEnds_def svcName_def allStarted_def)

lemma enabling_view [simp]: "wireView (enabling b E cfg) = wireView cfg"
  by (simp add: wireView_def)

lemma enabling_wired [simp]: "wired (enabling b E cfg) = wired cfg" "allStarted (enabling b E cfg) = allStarted cfg"
  using wired_view [OF enabling_view] by auto

definition linkedUp :: "('sv, 'c, 's, 'ck, 't, 'v, 'z) tester \<Rightarrow> nat \<Rightarrow> nat \<Rightarrow> bool" where
  "linkedUp cfg a b \<longleftrightarrow> rn_enabled (tc_net cfg) (Inr (svcName cfg a b))"

text \<open>One switch of all links between \<open>i\<close> and some servers.\<close>

lemma linked_enabling:
  assumes "wired cfg" "allStarted cfg" "i < tc_n cfg" "set xs \<subseteq> {..<tc_n cfg}" "a < tc_n cfg" "b < tc_n cfg"
  shows "linkedUp (enabling y (svcName cfg i ` set xs \<union> (\<lambda>t. svcName cfg t i) ` set xs) cfg) a b \<longleftrightarrow>
    (if a = i \<and> b \<in> set xs \<or> a \<in> set xs \<and> b = i then y else linkedUp cfg a b)"
proof -
  have r: "hasEnds cfg t" if "t < tc_n cfg" for t using assms(2) that by (simp add: allStarted_def)
  have "svcName cfg a b \<in> svcName cfg i ` set xs \<longleftrightarrow> a = i \<and> b \<in> set xs"
    using wired_distinct [OF assms(1) r r, of a i b] assms(3-6) by (auto simp: image_iff subset_iff)
  moreover have "svcName cfg a b \<in> (\<lambda>t. svcName cfg t i) ` set xs \<longleftrightarrow> a \<in> set xs \<and> b = i"
    using wired_distinct [OF assms(1) r r, of a _ b i] assms(3-6) by (auto simp: image_iff subset_iff)
  ultimately show ?thesis by (auto simp: linkedUp_def)
qed

section \<open>Partitions\<close>

definition sideStep ::
    "nat list \<Rightarrow> nat list \<Rightarrow> nat \<Rightarrow> ('sv, 'c, 's, 'ck, 't, 'v, 'z) tester \<Rightarrow> ('sv, 'c, 's, 'ck, 't, 'v, 'z) tester res" where
  "sideStep own other i cfg = rbind (disconnectUnlocked i other cfg) (connectUnlocked i own)"

text \<open>The links after some servers of one side were treated.\<close>

lemma sideStep_links:
  assumes "wired cfg" "allStarted cfg" "set own \<union> set other \<subseteq> {..<tc_n cfg}" "set own \<inter> set other = {}"
    "length other \<le> tc_n cfg" "set xs \<subseteq> set own"
  shows "\<exists>net. let cfg' = cfg\<lparr>tc_net := net\<rparr> in forR (sideStep own other) xs cfg = Inr cfg' \<and> wireView cfg' = wireView cfg \<and>
    (\<forall>a < tc_n cfg. \<forall>b < tc_n cfg. linkedUp cfg' a b \<longleftrightarrow>
      (if a \<in> set xs \<and> b \<in> set other \<or> a \<in> set other \<and> b \<in> set xs then False
       else a \<in> set xs \<and> b \<in> set own \<or> a \<in> set own \<and> b \<in> set xs \<or> linkedUp cfg a b))"
  using assms
proof (induction xs arbitrary: cfg)
  case Nil
  show ?case by (rule exI [of _ "tc_net cfg"]) simp
next
  case (Cons x xs)
  define c1 where "c1 = enabling False (svcName cfg x ` set other \<union> (\<lambda>t. svcName cfg t x) ` set other) cfg"
  define c2 where "c2 = enabling True (svcName c1 x ` set own \<union> (\<lambda>t. svcName c1 t x) ` set own) c1"
  have x: "x < tc_n cfg" "x \<in> set own" "x \<notin> set other" and sub: "set own \<subseteq> {..<tc_n cfg}" "set other \<subseteq> {..<tc_n cfg}"
    using Cons.prems by auto
  have disj: "y \<notin> set other" if "y \<in> set own" for y using Cons.prems(4) that by auto
  have ok1: "wired c1" "allStarted c1" "tc_n c1 = tc_n cfg" using Cons.prems by (simp_all add: c1_def)
  have step: "sideStep own other x cfg = Inr c2"
    using disconnectUnlocked_eq [OF Cons.prems(2) x(1) sub(2) Cons.prems(5)] connectUnlocked_eq [OF ok1(2), of x own] ok1(3) x(1) sub(1)
    by (simp add: sideStep_def c1_def c2_def)
  have ok2: "wired c2" "allStarted c2" "tc_n c2 = tc_n cfg" "wireView c2 = wireView cfg" using ok1 by (simp_all add: c2_def c1_def)
  have l2: "linkedUp c2 a b \<longleftrightarrow> (if a = x \<and> b \<in> set own \<or> a \<in> set own \<and> b = x then True
      else if a = x \<and> b \<in> set other \<or> a \<in> set other \<and> b = x then False else linkedUp cfg a b)"
    if "a < tc_n cfg" "b < tc_n cfg" for a b
    using linked_enabling [OF ok1(1,2), of x own a b True, folded c2_def]
      linked_enabling [OF Cons.prems(1,2) x(1) sub(2), of a b False, folded c1_def] that ok1(3) x(1) sub(1)
    by (auto split: if_splits)
  obtain net where net: "forR (sideStep own other) xs c2 = Inr (c2\<lparr>tc_net := net\<rparr>)" "wireView (c2\<lparr>tc_net := net\<rparr>) = wireView c2"
    "\<forall>a < tc_n cfg. \<forall>b < tc_n cfg. linkedUp (c2\<lparr>tc_net := net\<rparr>) a b \<longleftrightarrow>
      (if a \<in> set xs \<and> b \<in> set other \<or> a \<in> set other \<and> b \<in> set xs then False
       else a \<in> set xs \<and> b \<in> set own \<or> a \<in> set own \<and> b \<in> set xs \<or> linkedUp c2 a b)"
    using Cons.IH [OF ok2(1,2)] Cons.prems(3-6) ok2(3) by (auto simp: Let_def)
  have same: "c2\<lparr>tc_net := net\<rparr> = cfg\<lparr>tc_net := net\<rparr>" by (simp add: c2_def c1_def enabling_def)
  have "linkedUp (cfg\<lparr>tc_net := net\<rparr>) a b \<longleftrightarrow>
      (if a \<in> set (x # xs) \<and> b \<in> set other \<or> a \<in> set other \<and> b \<in> set (x # xs) then False
       else a \<in> set (x # xs) \<and> b \<in> set own \<or> a \<in> set own \<and> b \<in> set (x # xs) \<or> linkedUp cfg a b)"
    if "a < tc_n cfg" "b < tc_n cfg" for a b
    using net(3) [rule_format, OF that] l2 [OF that] disj Cons.prems(6) x unfolding same by (auto split: if_splits)
  then show ?case using net(1,2) step ok2(4) same by (intro exI [of _ net]) (simp add: Let_def)
qed

lemma partitionServers_sides:
  "partitionServers p1 p2 cfg = rbind (forR (sideStep p1 p2) p1 cfg) (forR (sideStep p2 p1) p2)"
proof -
  have "(\<lambda>i cfg. rbind (disconnectUnlocked (p ! i) q cfg) (connectUnlocked (p ! i) p)) =
      (\<lambda>i. sideStep p q (p ! i) :: ('a, 'b, 'c, 'd, 'e, 'f, 'g) tester \<Rightarrow> _)" for p q
    by (simp add: sideStep_def fun_eq_iff)
  then show ?thesis by (simp add: partitionServers_def forR_nth cong: rbind_cong)
qed

lemma partition_links:
  assumes "wired cfg" "allStarted cfg" "set p1 \<union> set p2 \<subseteq> {..<tc_n cfg}" "set p1 \<inter> set p2 = {}"
    "length p1 \<le> tc_n cfg" "length p2 \<le> tc_n cfg"
  obtains net where "partitionServers p1 p2 cfg = Inr (cfg\<lparr>tc_net := net\<rparr>)" "wireView (cfg\<lparr>tc_net := net\<rparr>) = wireView cfg"
    "\<And>a b. a < tc_n cfg \<Longrightarrow> b < tc_n cfg \<Longrightarrow> linkedUp (cfg\<lparr>tc_net := net\<rparr>) a b \<longleftrightarrow>
      (if a \<in> set p1 \<and> b \<in> set p2 \<or> a \<in> set p2 \<and> b \<in> set p1 then False
       else a \<in> set p1 \<and> b \<in> set p1 \<or> a \<in> set p2 \<and> b \<in> set p2 \<or> linkedUp cfg a b)"
proof -
  obtain net where c1: "forR (sideStep p1 p2) p1 cfg = Inr (cfg\<lparr>tc_net := net\<rparr>)" "wireView (cfg\<lparr>tc_net := net\<rparr>) = wireView cfg"
    "\<forall>a < tc_n cfg. \<forall>b < tc_n cfg. linkedUp (cfg\<lparr>tc_net := net\<rparr>) a b \<longleftrightarrow>
      (if a \<in> set p1 \<and> b \<in> set p2 \<or> a \<in> set p2 \<and> b \<in> set p1 then False
       else a \<in> set p1 \<and> b \<in> set p1 \<or> a \<in> set p1 \<and> b \<in> set p1 \<or> linkedUp cfg a b)"
    using sideStep_links [OF assms(1-4,6) order_refl] by (auto simp: Let_def)
  have ok: "wired (cfg\<lparr>tc_net := net\<rparr>)" "allStarted (cfg\<lparr>tc_net := net\<rparr>)" using wired_view [OF c1(2)] assms(1,2) by auto
  obtain net' where c2: "forR (sideStep p2 p1) p2 (cfg\<lparr>tc_net := net\<rparr>) = Inr (cfg\<lparr>tc_net := net'\<rparr>)"
    "wireView (cfg\<lparr>tc_net := net'\<rparr>) = wireView (cfg\<lparr>tc_net := net\<rparr>)"
    "\<forall>a < tc_n cfg. \<forall>b < tc_n cfg. linkedUp (cfg\<lparr>tc_net := net'\<rparr>) a b \<longleftrightarrow>
      (if a \<in> set p2 \<and> b \<in> set p1 \<or> a \<in> set p1 \<and> b \<in> set p2 then False
       else a \<in> set p2 \<and> b \<in> set p2 \<or> a \<in> set p2 \<and> b \<in> set p2 \<or> linkedUp (cfg\<lparr>tc_net := net\<rparr>) a b)"
    using sideStep_links [OF ok, of p2 p1 p2] assms(3-5) by (auto simp: Let_def Un_commute Int_commute)
  have "linkedUp (cfg\<lparr>tc_net := net'\<rparr>) a b \<longleftrightarrow>
      (if a \<in> set p1 \<and> b \<in> set p2 \<or> a \<in> set p2 \<and> b \<in> set p1 then False
       else a \<in> set p1 \<and> b \<in> set p1 \<or> a \<in> set p2 \<and> b \<in> set p2 \<or> linkedUp cfg a b)"
    if "a < tc_n cfg" "b < tc_n cfg" for a b
    using c1(3) [rule_format, OF that] c2(3) [rule_format, OF that] by auto
  then show thesis using that [of net'] c1(1,2) c2(1,2) by (simp add: partitionServers_sides)
qed

section \<open>Splitting the servers\<close>

text \<open>Where the servers other than \<open>l\<close> go.\<close>

definition placed :: "nat \<Rightarrow> nat list \<Rightarrow> int \<times> nat list \<times> nat list" where
  "placed n os = (let m = n div 2 + 1 in (int (length os), take m os @ replicate (m - length os) 0,
     drop m os @ replicate (n div 2 - (length os - m)) 0))"

lemma put_append_replicate: "0 < k \<Longrightarrow> put (xs @ replicate k 0) (int (length xs)) v = Inr (xs @ v # replicate (k - 1) 0)"
  by (cases k) (auto simp: put_def list_update_append)

lemma place_next:
  assumes "i \<noteq> l" "length os < n div 2 + 1 + n div 2"
  shows "place l i (placed n os) = Inr (placed n (os @ [i]))"
proof (cases "length os < n div 2 + 1")
  case True
  then show ?thesis
    using put_append_replicate [of "n div 2 + 1 - length os" os i] assms(1)
    by (simp add: place_def placed_def Let_def replicate_append_same Suc_diff_Suc)
next
  case False
  let ?m = "n div 2 + 1"
  have "put (drop ?m os @ replicate (n div 2 - (length os - ?m)) 0) (int (length (drop ?m os))) i =
      Inr (drop ?m os @ i # replicate (n div 2 - (length os - ?m) - 1) 0)"
    using assms(2) False by (intro put_append_replicate) simp
  moreover have "int (length (drop ?m os)) = int (length os) - int ?m" using False by simp
  ultimately show ?thesis
    using False assms by (simp add: place_def placed_def Let_def Suc_diff_Suc)
qed

lemma place_all:
  assumes "length (filter (\<lambda>i. i \<noteq> l) (os @ is)) \<le> n div 2 + 1 + n div 2" "filter (\<lambda>i. i \<noteq> l) os = os"
  shows "forR (place l) is (placed n os) = Inr (placed n (os @ filter (\<lambda>i. i \<noteq> l) is))"
  using assms
proof (induction "is" arbitrary: os)
  case (Cons i "is")
  show ?case
  proof (cases "i = l")
    case True
    have "place l l (placed n os) = Inr (placed n os)" by (simp add: place_def placed_def Let_def)
    then show ?thesis using Cons.IH [of os] Cons.prems True by simp
  next
    case False
    then have "place l i (placed n os) = Inr (placed n (os @ [i]))"
      using Cons.prems by (intro place_next) auto
    then show ?thesis using Cons.IH [of "os @ [i]"] Cons.prems False by simp
  qed
qed simp

lemma others_split: "l < n \<Longrightarrow> [0..<n] = [0..<l] @ l # [Suc l..<n] \<and> filter (\<lambda>i. i \<noteq> l) [0..<n] = [0..<l] @ [Suc l..<n]"
proof
  assume l: "l < n"
  then show e: "[0..<n] = [0..<l] @ l # [Suc l..<n]" by (metis le0 le_add_diff_inverse less_imp_le upt_add_eq_append upt_conv_Cons)
  show "filter (\<lambda>i. i \<noteq> l) [0..<n] = [0..<l] @ [Suc l..<n]" by (subst e) (auto simp: filter_id_conv)
qed

lemma others_length: "l < n \<Longrightarrow> length (filter (\<lambda>i. i \<noteq> l) [0..<n]) = n - 1"
  using others_split [of l n] by simp

lemma others_mset: "l < n \<Longrightarrow> mset [0..<n] = add_mset l (mset (filter (\<lambda>i. i \<noteq> l) [0..<n]))"
  using others_split [of l n] by (metis mset.simps(2) mset_append union_mset_add_mset_right)

lemma splitAround_eq:
  assumes "l < n" "2 \<le> n"
  defines "os \<equiv> filter (\<lambda>i. i \<noteq> l) [0..<n]" and "m \<equiv> n div 2 + 1"
  shows "splitAround n l = Inr (take m os @ replicate (m - length os) 0,
    (drop m os @ replicate (n div 2 - (length os - m)) 0)[n div 2 - 1 := l])"
proof -
  have len: "length os = n - 1" using others_length [OF assms(1)] by (simp add: os_def)
  define p1 p2 where "p1 = take m os @ replicate (m - length os) 0"
    and "p2 = drop m os @ replicate (n div 2 - (length os - m)) 0"
  have start: "(0, replicate (n div 2 + 1) 0, replicate (n div 2) 0) = placed n []" by (simp add: placed_def Let_def)
  have "forR (place l) [0..<n] (placed n []) = Inr (placed n os)"
    using place_all [of l "[]" "[0..<n]" n] len by (simp add: os_def)
  also have "placed n os = (int (length os), p1, p2)" by (simp add: placed_def Let_def p1_def p2_def m_def)
  finally have loop: "forR (place l) [0..<n] (placed n []) = Inr (int (length os), p1, p2)" .
  have "length p2 = n div 2" using len by (auto simp: p2_def m_def)
  then have "put p2 (int (length p2) - 1) l = Inr (p2[n div 2 - 1 := l])"
    using assms(2) by (auto simp: put_def nat_diff_distrib)
  with loop show ?thesis unfolding splitAround_def start p1_def [symmetric] p2_def [symmetric] by simp
qed

text \<open>With an odd number of servers, the two parts share them, the first has a majority, and the leader
  is in the second.\<close>

lemma splitAround_odd:
  assumes "odd n" "3 \<le> n" "l < n"
  obtains p1 p2 where "splitAround n l = Inr (p1, p2)" "mset (p1 @ p2) = mset [0..<n]" "length p1 = n div 2 + 1"
    "length p2 = n div 2" "l \<in> set p2"
proof -
  define os m where "os = filter (\<lambda>i. i \<noteq> l) [0..<n]" and "m = n div 2 + 1"
  have len: "length os = n - 1" using others_length [OF assms(3)] by (simp add: os_def)
  obtain k where k: "n = 2 * k + 1" using assms(1) by (auto elim: oddE)
  have d: "n div 2 = k" "m = k + 1" "1 \<le> k" using k assms(2) by (auto simp: m_def)
  have r: "n div 2 - (length os - m) = 1" "m - length os = 0" using len d k by auto
  have ld: "length (drop m os) = k - 1" using len d k by simp
  have "splitAround n l = Inr (take m os, (drop m os @ [0])[k - 1 := l])"
    using splitAround_eq [OF assms(3), folded os_def m_def] assms(2) r d(1) by simp
  also have "(drop m os @ [0])[k - 1 := l] = drop m os @ [l]" using ld by (simp add: list_update_append)
  finally have "splitAround n l = Inr (take m os, drop m os @ [l])" .
  moreover have "mset (take m os @ drop m os @ [l]) = mset [0..<n]"
  proof -
    have "mset (take m os) + mset (drop m os) = mset os" by (metis append_take_drop_id mset_append)
    then show ?thesis using others_mset [OF assms(3), folded os_def] by simp
  qed
  ultimately show thesis using that [of "take m os" "drop m os @ [l]"] len d k by simp
qed
section \<open>Operations keep the wiring\<close>

text \<open>Switching ends changes nothing the wiring depends on.\<close>

lemma switch_view [simp]: "wireView (switch e b cfg) = wireView cfg"
  by (simp add: wireView_def switch_def Enable_def)

lemma connectUnlocked_view: "connectUnlocked i to cfg = Inr cfg' \<Longrightarrow> wireView cfg' = wireView cfg"
  unfolding connectUnlocked_def
  by (elim rbind_InrE) (auto dest!: forR_invariant [where P = "\<lambda>c. wireView c = wireView cfg"] elim!: rbind_InrE)

lemma disconnectUnlocked_view: "disconnectUnlocked i from cfg = Inr cfg' \<Longrightarrow> wireView cfg' = wireView cfg"
  unfolding disconnectUnlocked_def
  by (elim rbind_InrE) (auto dest!: forR_invariant [where P = "\<lambda>c. wireView c = wireView cfg"] elim!: rbind_InrE split: if_splits)

lemma ConnectAll_view: "ConnectAll cfg = Inr cfg' \<Longrightarrow> wireView cfg' = wireView cfg"
  unfolding ConnectAll_def
  by (erule forR_invariant [where P = "\<lambda>c. wireView c = wireView cfg"]) (auto dest: connectUnlocked_view)

lemma sideStep_view: "sideStep own other i cfg = Inr cfg' \<Longrightarrow> wireView cfg' = wireView cfg"
  unfolding sideStep_def by (elim rbind_InrE) (metis connectUnlocked_view disconnectUnlocked_view)

lemma partitionServers_view: "partitionServers p1 p2 cfg = Inr cfg' \<Longrightarrow> wireView cfg' = wireView cfg"
  unfolding partitionServers_sides
  by (elim rbind_InrE) (auto dest!: forR_invariant [where P = "\<lambda>c. wireView c = wireView cfg"] dest: sideStep_view)

lemma clients_view:
  "ConnectClientUnlocked ck to cfg = Inr cfg' \<Longrightarrow> wireView cfg' = wireView cfg"
  "DisconnectClientUnlocked ck to cfg = Inr cfg' \<Longrightarrow> wireView cfg' = wireView cfg"
  unfolding ConnectClientUnlocked_def DisconnectClientUnlocked_def
  by (erule forR_invariant [where P = "\<lambda>c. wireView c = wireView cfg"]; auto elim!: rbind_InrE)+

lemma killServer_view: "killServer kill i cfg = Inr cfg' \<Longrightarrow> wireView cfg' = wireView cfg"
  by (auto simp: killServer_def wireView_def elim!: rbind_InrE split: option.splits)

lemma ShutdownServer_view:
  assumes "ShutdownServer raft kill i cfg = Inr cfg'"
  shows "wireView cfg' = wireView cfg"
proof -
  let ?del = "\<lambda>c :: ('a, 'b, 'c, 'd, 'e, 'f, 'g) tester. c\<lparr>tc_net := DeleteServer (Inl (int i)) (tc_net c)\<rparr>"
  let ?keep = "\<lambda>ps c :: ('a, 'b, 'c, 'd, 'e, 'f, 'g) tester. case ps of None \<Rightarrow> c
    | Some ps \<Rightarrow> c\<lparr>tc_saved := (tc_saved c)[i := Some (Held (Copy ps))]\<rparr>"
  obtain c1 ps c2 where c: "disconnectUnlocked i (AllServers cfg) cfg = Inr c1"
    "killServer kill i (?keep ps (?del c1)) = Inr c2" "cfg' = c2\<lparr>tc_servers := (tc_servers c2)[i := None]\<rparr>"
    using assms unfolding ShutdownServer_def Let_def by (elim rbind_InrE) (drule Inr_inject, blast)
  have "wireView (?keep ps (?del c1)) = wireView c1"
    by (simp add: wireView_def DeleteServer_def split: option.splits)
  then show ?thesis
    using disconnectUnlocked_view [OF c(1)] killServer_view [OF c(2)] c(3) by (simp add: wireView_def)
qed

text \<open>New ends have names that were not there before, lead to their servers, and are switched off.\<close>

definition madeEnds ::
    "string list \<Rightarrow> ('sv, 'c, 's, 'ck, 't, 'v, 'z) tester \<Rightarrow> ('sv, 'c, 's, 'ck, 't, 'v, 'z) tester \<Rightarrow> bool" where
  "madeEnds es cfg cfg' \<longleftrightarrow> distinct es \<and> (\<forall>e \<in> set es. Inr e \<notin> rn_ends (tc_net cfg)) \<and> cfg' = cfg\<lparr>tc_net := tc_net cfg'\<rparr> \<and>
     rn_ends (tc_net cfg') = rn_ends (tc_net cfg) \<union> Inr ` set es \<and>
     (\<forall>j < length es. endFor cfg' (es ! j) j) \<and> (\<forall>e j. e \<notin> set es \<longrightarrow> endFor cfg' e j = endFor cfg e j)"

lemma madeEnds_snoc:
  assumes "madeEnds us cfg c1" "MakeEnd (Inr e) (tc_net c1) = Inr net"
  shows "madeEnds (us @ [e]) cfg (c1\<lparr>tc_net := Connect (Inr e) (Inl (int (length us))) net\<rparr>)"
proof -
  let ?c = "c1\<lparr>tc_net := Connect (Inr e) (Inl (int (length us))) net\<rparr>"
  have fresh: "Inr e \<notin> rn_ends (tc_net c1)" and net: "rn_ends net = insert (Inr e) (rn_ends (tc_net c1))"
    "rn_connections net = (rn_connections (tc_net c1))(Inr e := None)"
    using assms(2) by (auto simp: MakeEnd_def split: if_splits)
  have new: "e \<notin> set us" "Inr e \<notin> rn_ends (tc_net cfg)" using fresh assms(1) by (auto simp: madeEnds_def)
  have old: "us ! j \<noteq> e" if "j < length us" for j using new(1) that by (metis nth_mem)
  have "c1\<lparr>tc_net := rn\<rparr> = cfg\<lparr>tc_net := rn\<rparr>" for rn
  proof -
    have c1: "c1 = cfg\<lparr>tc_net := tc_net c1\<rparr>" using assms(1) by (simp add: madeEnds_def)
    show ?thesis by (subst c1) simp
  qed
  moreover have "endFor ?c x j \<longleftrightarrow> (if x = e then j = length us else endFor c1 x j)" for x j
    by (auto simp: endFor_def Connect_def net)
  ultimately show ?thesis
    using assms(1) new old unfolding madeEnds_def by (auto simp: Connect_def net nth_append less_Suc_eq)
qed

lemma clientEnds_made: "clientEnds es cfg = Inr cfg' \<Longrightarrow> madeEnds es cfg cfg'"
proof -
  assume made: "clientEnds es cfg = Inr cfg'"
  let ?f = "\<lambda>j cfg. rbind (MakeEnd (Inr (es ! j)) (tc_net cfg)) (\<lambda>net. Inr (cfg\<lparr>tc_net := Connect (Inr (es ! j)) (Inl (int j)) net\<rparr>))"
  have "madeEnds (take k es) cfg cfg'" if "forR ?f [0..<k] cfg = Inr cfg'" "k \<le> length es" for k cfg'
    using that
  proof (induction k arbitrary: cfg')
    case 0
    then show ?case by (simp add: madeEnds_def)
  next
    case (Suc k)
    then obtain c1 net where c1: "forR ?f [0..<k] cfg = Inr c1" "MakeEnd (Inr (es ! k)) (tc_net c1) = Inr net"
      "cfg' = c1\<lparr>tc_net := Connect (Inr (es ! k)) (Inl (int k)) net\<rparr>"
      by (auto simp: forR_append rbind_Inr_iff)
    with madeEnds_snoc [OF Suc.IH [OF c1(1)] c1(2)] Suc.prems(2) show ?case by (simp add: take_Suc_conv_app_nth)
  qed
  from this [of "length es" cfg'] made show ?thesis by (simp add: clientEnds_def)
qed

lemma wired_old: "wired cfg \<Longrightarrow> madeEnds es cfg' c \<Longrightarrow> tc_net cfg' = tc_net cfg \<Longrightarrow> hasEnds cfg i \<Longrightarrow> j < tc_n cfg \<Longrightarrow> svcName cfg i j \<notin> set es"
  using wiredD(1) unfolding madeEnds_def endFor_def by metis

lemma wired_old_clerk:
  "wired cfg \<Longrightarrow> madeEnds es cfg' c \<Longrightarrow> tc_net cfg' = tc_net cfg \<Longrightarrow> tc_clerks cfg ck = Some xs \<Longrightarrow> j < tc_n cfg \<Longrightarrow> xs ! j \<notin> set es"
  using wiredD(4) unfolding madeEnds_def endFor_def by metis

lemma madeEnds_old: "madeEnds es cfg c \<Longrightarrow> e \<notin> set es \<Longrightarrow> endFor c e j = endFor cfg e j"
  by (simp add: madeEnds_def)

lemma endFor_frame:
  "tc_net c = tc_net c' \<Longrightarrow> endFor c = endFor c'" "endFor (cfg\<lparr>tc_endnames := x\<rparr>) = endFor cfg"
  by (simp_all add: endFor_def fun_eq_iff)

lemma makeClient_wired:
  assumes "makeClient mk randstring r to cfg = Inr (cfg', ck)" "wired cfg"
  shows "wired cfg' \<and> tc_n cfg' = tc_n cfg \<and> tc_endnames cfg' = tc_endnames cfg"
proof -
  let ?es = "map randstring [0..<tc_n cfg]"
  obtain c1 c2 where m: "madeEnds ?es cfg c1" and conn: "ConnectClientUnlocked ck to c2 = Inr cfg'"
    and c2: "tc_n c2 = tc_n c1" "tc_net c2 = tc_net c1" "tc_endnames c2 = tc_endnames c1" "tc_clerks c2 = (tc_clerks c1)(ck \<mapsto> ?es)"
    using assms(1) by (auto simp: makeClient_def Let_def dest!: clientEnds_made elim!: rbind_InrE)
  have c1: "c1 = cfg\<lparr>tc_net := tc_net c1\<rparr>" using m by (simp add: madeEnds_def)
  have same: "tc_n c1 = tc_n cfg" "tc_endnames c1 = tc_endnames cfg" "tc_clerks c1 = tc_clerks cfg" by (subst c1, simp)+
  have nm: "svcName c2 = svcName cfg" "hasEnds c2 = hasEnds cfg" "tc_n c2 = tc_n cfg"
    using c2 same by (simp_all add: svcName_def hasEnds_def fun_eq_iff)
  have new: "endFor c2 (?es ! j) j" if "j < tc_n cfg" for j
    using m that c2(2) unfolding madeEnds_def by (simp add: endFor_def)
  have old: "endFor c2 e j \<longleftrightarrow> endFor cfg e j" if "e \<notin> set ?es" for e j
    using madeEnds_old [OF m that] endFor_frame(1) [OF c2(2)] by simp
  have svc: "svcName cfg i k \<notin> set ?es" if "hasEnds cfg i" "k < tc_n cfg" for i k
    using wired_old [OF assms(2) m refl that] .
  have neq: "?es ! j \<noteq> svcName cfg i k" if "j < tc_n cfg" "hasEnds cfg i" "k < tc_n cfg" for i j k
    using svc [OF that(2,3)] nth_mem [of j ?es] that(1) by (metis length_map length_upt minus_nat.diff_0)
  have clerk: "endFor c2 (xs ! j) j" if "tc_clerks cfg x = Some xs" "j < tc_n cfg" for x xs j
    using old wired_old_clerk [OF assms(2) m refl that] wiredD(4) [OF assms(2) that] by blast
  have "wired c2"
    unfolding wired_def distinctEnds_def nm c2(3,4) same
    using assms(2) new old svc neq clerk by (auto simp: wired_def distinctEnds_def)
  then show ?thesis
    using wired_view [OF clients_view(1) [OF conn]] clients_view(1) [OF conn] c2 same by (simp add: wireView_def)
qed

lemma newNames_wired:
  assumes "madeEnds es (cfg\<lparr>tc_endnames := (tc_endnames cfg)[i := Some es]\<rparr>) c" "wired cfg" "i < tc_n cfg" "length es = tc_n cfg"
  shows "wired c \<and> (\<forall>k. hasEnds c k \<longleftrightarrow> k = i \<or> hasEnds cfg k)"
proof -
  note m = assms(1)
  have c: "c = cfg\<lparr>tc_endnames := (tc_endnames cfg)[i := Some es], tc_net := tc_net c\<rparr>" using m by (simp add: madeEnds_def)
  have flds: "tc_n c = tc_n cfg" "tc_endnames c = (tc_endnames cfg)[i := Some es]" "tc_clerks c = tc_clerks cfg" by (subst c, simp)+
  have len: "length (tc_endnames cfg) = tc_n cfg" using wiredD(2) [OF assms(2)] .
  have nm: "svcName c k j = (if k = i then es ! j else svcName cfg k j)" for k j
    using len assms(3) by (auto simp: svcName_def flds nth_list_update names_def)
  have rd: "hasEnds c k \<longleftrightarrow> k = i \<or> hasEnds cfg k" for k
    using len assms(3,4) by (auto simp: hasEnds_def flds nth_list_update)
  have new: "endFor c (es ! j) j" if "j < tc_n cfg" for j using m that assms(4) unfolding madeEnds_def by simp
  have old: "endFor c e j \<longleftrightarrow> endFor cfg e j" if "e \<notin> set es" for e j
    using madeEnds_old [OF m that] by (simp add: endFor_frame(2))
  have svc: "svcName cfg k j \<notin> set es" if "hasEnds cfg k" "j < tc_n cfg" for k j
    by (rule wired_old [OF assms(2) m _ that]) simp
  have clerk: "xs ! j \<notin> set es" if "tc_clerks cfg x = Some xs" "j < tc_n cfg" for x xs j
    by (rule wired_old_clerk [OF assms(2) m _ that]) simp
  have es: "es ! j \<in> set es" if "j < tc_n cfg" for j using that assms(4) by simp
  have dist: "distinct es" using m by (simp add: madeEnds_def)
  have "distinctEnds c"
    unfolding distinctEnds_def
  proof (intro allI impI)
    fix k j k' j'
    assume a: "hasEnds c k \<and> hasEnds c k' \<and> j < tc_n c \<and> j' < tc_n c \<and> svcName c k j = svcName c k' j'"
    then show "k = k' \<and> j = j'"
      using svc [of k j] svc [of k' j'] es [of j] es [of j'] nth_eq_iff_index_eq [OF dist, of j j'] assms(4)
        wired_distinct [OF assms(2), of k k' j j']
      by (cases "k = i"; cases "k' = i") (auto simp: rd nm flds)
  qed
  moreover have "endFor c (svcName c k j) j" if "hasEnds c k" "j < tc_n c" for k j
    using that new old [OF svc] wiredD(1) [OF assms(2)] by (auto simp: rd nm flds)
  moreover have "endFor c (xs ! j) j \<and> (\<forall>k l. hasEnds c k \<longrightarrow> l < tc_n c \<longrightarrow> xs ! j \<noteq> svcName c k l)"
    if "tc_clerks cfg x = Some xs" "j < tc_n cfg" for x xs j
    using clerk [OF that] old wiredD(4,5) [OF assms(2) that] es by (auto simp: rd nm flds)
  ultimately show ?thesis
    using rd len wiredD(3) [OF assms(2)] unfolding wired_def by (auto simp: flds)
qed

lemma launch_wired:
  assumes "launch start raft svc m1 m2 i randstring cfg = Inr cfg'" "wired cfg"
  shows "wired cfg' \<and> tc_n cfg' = tc_n cfg \<and> (\<forall>k. hasEnds cfg' k \<longleftrightarrow> k = i \<or> hasEnds cfg k)"
proof -
  let ?es = "map randstring [0..<tc_n cfg]"
  obtain c where i: "i < tc_n cfg" and m: "madeEnds ?es (cfg\<lparr>tc_endnames := (tc_endnames cfg)[i := Some ?es]\<rparr>) c"
    and view: "wireView cfg' = wireView c"
    using assms(1) wiredD(2) [OF assms(2)]
    by (auto simp: launch_def Let_def put_Inr_iff wireView_def AddServer_def dest!: clientEnds_made elim!: rbind_InrE)
  have "c = cfg\<lparr>tc_endnames := (tc_endnames cfg)[i := Some ?es], tc_net := tc_net c\<rparr>" using m by (simp add: madeEnds_def)
  then have "tc_n c = tc_n cfg" by (metis svcConfig.select_convs(2) svcConfig.surjective svcConfig.update_convs(1,6))
  moreover have "hasEnds cfg' = hasEnds c" using view by (simp add: wireView_def hasEnds_def fun_eq_iff)
  ultimately show ?thesis
    using newNames_wired [OF m assms(2) i] wired_view [OF view] view by (auto simp: wireView_def)
qed
section \<open>Restarting a server\<close>

lemma Copy_same: "Copy p = (p :: ('b, 's) Persister)"
  by (simp add: Copy_def MakePersister_def)

lemma switch_frame [simp]: "(switch e b cfg)\<lparr>tc_net := x\<rparr> = cfg\<lparr>tc_net := x\<rparr>"
  by (simp add: switch_def)

lemma disconnectUnlocked_frame: "disconnectUnlocked i from cfg = Inr c \<Longrightarrow> c\<lparr>tc_net := x\<rparr> = cfg\<lparr>tc_net := x\<rparr>"
  unfolding disconnectUnlocked_def
  by (elim rbind_InrE)
    (auto dest!: forR_invariant [where P = "\<lambda>c. c\<lparr>tc_net := x\<rparr> = cfg\<lparr>tc_net := x\<rparr>"] elim!: rbind_InrE split: if_splits)

lemma ShutdownServer_effect:
  assumes "ShutdownServer raft kill i cfg = Inr cfg'" "tc_servers cfg ! i = Some q" "tc_saved cfg ! i = Some (InRaft q)"
  shows "i < length (tc_saved cfg)" "q < length (tc_procs cfg)" "tc_servers cfg' = (tc_servers cfg)[i := None]"
    "tc_procs cfg' = (tc_procs cfg)[q := kill (tc_procs cfg ! q)]" "i < length (tc_servers cfg)"
    "tc_saved cfg' = (tc_saved cfg)[i := Some (Held (rf_persister (raft (tc_procs cfg ! q))))]"
    "tc_n cfg' = tc_n cfg" "svcConfig.more cfg' = svcConfig.more cfg"
proof -
  obtain c1 where c1: "disconnectUnlocked i (AllServers cfg) cfg = Inr c1" using assms(1) by (auto simp: ShutdownServer_def elim!: rbind_InrE)
  have "c1 = c1\<lparr>tc_net := tc_net c1\<rparr>" by simp
  then have c1': "c1 = cfg\<lparr>tc_net := tc_net c1\<rparr>" using disconnectUnlocked_frame [OF c1] by simp
  have same: "tc_n c1 = tc_n cfg" "tc_servers c1 = tc_servers cfg" "tc_saved c1 = tc_saved cfg" "tc_procs c1 = tc_procs cfg"
    "svcConfig.more c1 = svcConfig.more cfg" by (subst c1', simp)+
  from assms c1 same show "i < length (tc_saved cfg)" "q < length (tc_procs cfg)" "tc_servers cfg' = (tc_servers cfg)[i := None]"
    "tc_procs cfg' = (tc_procs cfg)[q := kill (tc_procs cfg ! q)]" "i < length (tc_servers cfg)"
    "tc_saved cfg' = (tc_saved cfg)[i := Some (Held (rf_persister (raft (tc_procs cfg ! q))))]"
    "tc_n cfg' = tc_n cfg" "svcConfig.more cfg' = svcConfig.more cfg"
    by (auto simp: ShutdownServer_def Let_def savedAt_def killServer_def at_Inr_iff Copy_same elim!: rbind_InrE)
qed

lemma launch_effect:
  assumes "launch start raft svc m1 m2 i randstring cfg = Inr cfg'" "tc_saved cfg ! i = Some (Held ps)" "i < length (tc_servers cfg)"
  obtains sv where "start (tc_n cfg) (int i) ps = Inr sv" "tc_procs cfg' = tc_procs cfg @ [sv]"
    "tc_servers cfg' ! i = Some (length (tc_procs cfg))" "tc_saved cfg' ! i = Some (InRaft (length (tc_procs cfg)))"
proof -
  let ?es = "map randstring [0..<tc_n cfg]"
  obtain c where m: "madeEnds ?es (cfg\<lparr>tc_endnames := (tc_endnames cfg)[i := Some ?es]\<rparr>) c"
    and rest: "rbind (savedAt raft i c) (\<lambda>saved.
      rbind (start (tc_n c) (int i) (case saved of Some ps \<Rightarrow> Copy ps | None \<Rightarrow> MakePersister)) (\<lambda>sv.
        let q = length (tc_procs c);
            srv = AddService (MakeService ''Raft'' (ItsRaft q) m2) (AddService (MakeService svc (AServer q) m1) MakeServer)
        in Inr (c\<lparr>tc_procs := tc_procs c @ [sv], tc_servers := (tc_servers c)[i := Some q],
              tc_saved := (tc_saved c)[i := Some (InRaft q)], tc_net := AddServer (Inl (int i)) srv (tc_net c)\<rparr>))) = Inr cfg'"
    using assms(1) unfolding launch_def Let_def by (auto simp: put_Inr_iff dest!: clientEnds_made elim!: rbind_InrE)
  have c: "c = cfg\<lparr>tc_endnames := (tc_endnames cfg)[i := Some ?es], tc_net := tc_net c\<rparr>" using m by (simp add: madeEnds_def)
  have "tc_n c = tc_n cfg" "tc_procs c = tc_procs cfg" "tc_servers c = tc_servers cfg" "tc_saved c = tc_saved cfg" by (subst c, simp)+
  with rest assms(2,3) that show thesis
    by (auto simp: savedAt_def at_Inr_iff Copy_same Let_def elim!: rbind_InrE)
qed

text \<open>What the tester relies on: starting a server makes its Raft server from the storage, and killing
  it leaves the storage alone.\<close>

locale tested_service =
  fixes start :: "'p \<Rightarrow> nat \<Rightarrow> int \<Rightarrow> ('c raft_item, 's) Persister \<Rightarrow> 'sv res"
    and raft :: "'sv \<Rightarrow> ('c, 's) Raft" and kill :: "'sv \<Rightarrow> 'sv"
  assumes start_makes: "start p n i ps = Inr sv \<Longrightarrow> \<exists>r. Make n i ps r = Inr (raft sv)"
    and kill_stops: "raft (kill sv) = Kill (raft sv)"
begin

lemma restart:
  assumes "ShutdownServer raft kill i cfg = Inr c1" "launch (start p) raft svc m1 m2 i randstring c1 = Inr c2"
    and "tc_servers cfg ! i = Some q" "tc_saved cfg ! i = Some (InRaft q)" "node_ok (tc_n cfg) (int i) (raft (tc_procs cfg ! q))"
  obtains sv where "tc_servers c2 ! i = Some (length (tc_procs cfg))" "tc_procs c2 = (tc_procs cfg)[q := kill (tc_procs cfg ! q)] @ [sv]"
    "start p (tc_n cfg) (int i) (rf_persister (raft (tc_procs cfg ! q))) = Inr sv" "node_ok (tc_n cfg) (int i) (raft sv)"
    "rf_state (raft sv) = Follower" "rf_term (raft sv) = rf_term (raft (tc_procs cfg ! q))"
    "rf_votedFor (raft sv) = rf_votedFor (raft (tc_procs cfg ! q))" "rf_log (raft sv) = rf_log (raft (tc_procs cfg ! q))"
    "killed (raft (tc_procs c2 ! q))"
proof -
  note e = ShutdownServer_effect [OF assms(1,3,4)]
  have "tc_saved c1 ! i = Some (Held (rf_persister (raft (tc_procs cfg ! q))))" "i < length (tc_servers c1)" using e by simp_all
  from launch_effect [OF assms(2) this] e obtain sv where
    sv: "start p (tc_n cfg) (int i) (rf_persister (raft (tc_procs cfg ! q))) = Inr sv"
      "tc_procs c2 = (tc_procs cfg)[q := kill (tc_procs cfg ! q)] @ [sv]" "tc_servers c2 ! i = Some (length (tc_procs cfg))"
    by auto
  obtain r where "Make (tc_n cfg) (int i) (rf_persister (raft (tc_procs cfg ! q))) r = Inr (raft sv)" using start_makes [OF sv(1)] by blast
  with Make_restart [OF assms(5), of r] have "node_ok (tc_n cfg) (int i) (raft sv)" "rf_state (raft sv) = Follower"
    "rf_term (raft sv) = rf_term (raft (tc_procs cfg ! q))" "rf_votedFor (raft sv) = rf_votedFor (raft (tc_procs cfg ! q))"
    "rf_log (raft sv) = rf_log (raft (tc_procs cfg ! q))"
    by (auto simp: Copy_same)
  moreover have "killed (raft (tc_procs c2 ! q))" using e(2) kill_stops by (simp add: sv(2) nth_append killed_def Kill_def)
  ultimately show thesis using that sv by blast
qed

end
end
