(* ===== verification/KV_Tester_Props.thy ===== *)
theory KV_Tester_Props
  imports KV_Tester Service_Tester_Props KV_Store
begin

text \<open>
  The tester of the key/value service: after any use of it the network is wired as it should be, the
  partition it makes cuts the leader off with a minority, and a restarted server has what its
  predecessor had stored.
\<close>

interpretation kvtest: tested_service "\<lambda>(maxraftstate, r) servers m ps. StartKVServer servers m ps maxraftstate r" kv_rf kvKill
proof
  fix p n i ps sv
  assume "(case p of (maxraftstate, r) \<Rightarrow> \<lambda>servers m ps. StartKVServer servers m ps maxraftstate r) n i ps = Inr sv"
  then show "\<exists>r. Make n i ps r = Inr (kv_rf sv)"
    by (cases p) (auto simp: StartKVServer_def readSnapshot_def Let_def split: prod.splits elim!: rbind_InrE)
qed (simp add: kvKill_def)

section \<open>What a test does\<close>

datatype kvTest =
    KConnect nat "nat list"
  | KDisconnect nat "nat list"
  | KConnectAll
  | KPartition "nat list" "nat list"
  | KMakeClient "32 word" "nat \<Rightarrow> string" "nat \<Rightarrow> nat" "nat list"
  | KConnectClient nat "nat list"
  | KDisconnectClient nat "nat list"
  | KDeleteClient nat
  | KShutdown nat
  | KStart nat "nat \<Rightarrow> string" nat
  | KBegin
  | KOp
  | KServer nat KVServer                    \<comment> \<open>what a server does by itself\<close>

fun doKvTest ::
    "('t, receiver, 'v) Method list \<Rightarrow> ('t, receiver, 'v) Method list \<Rightarrow> kvTest \<Rightarrow> ('t, 'v) kvConfig \<Rightarrow> ('t, 'v) kvConfig res" where
  "doKvTest m1 m2 (KConnect i to) cfg = connectUnlocked i to cfg"
| "doKvTest m1 m2 (KDisconnect i from) cfg = disconnectUnlocked i from cfg"
| "doKvTest m1 m2 KConnectAll cfg = ConnectAll cfg"
| "doKvTest m1 m2 (KPartition p1 p2) cfg = partitionServers p1 p2 cfg"
| "doKvTest m1 m2 (KMakeClient rnd randstring r to) cfg = rbind (kvtMakeClient rnd randstring r to cfg) (\<lambda>(cfg, ck). Inr cfg)"
| "doKvTest m1 m2 (KConnectClient ck to) cfg = ConnectClientUnlocked ck to cfg"
| "doKvTest m1 m2 (KDisconnectClient ck from) cfg = DisconnectClientUnlocked ck from cfg"
| "doKvTest m1 m2 (KDeleteClient ck) cfg = Inr (deleteClient ck cfg)"
| "doKvTest m1 m2 (KShutdown i) cfg = kvtShutdownServer i cfg"
| "doKvTest m1 m2 (KStart i randstring r) cfg = kvtStartServer m1 m2 i randstring r cfg"
| "doKvTest m1 m2 KBegin cfg = Inr (kvtBegin cfg)"
| "doKvTest m1 m2 KOp cfg = Inr (kvtOp cfg)"
| "doKvTest m1 m2 (KServer q kv) cfg = Inr (cfg\<lparr>tc_procs := (tc_procs cfg)[q := kv]\<rparr>)"

definition tended :: "nat \<Rightarrow> ('t, 'v) kvConfig \<Rightarrow> bool" where
  "tended n cfg \<longleftrightarrow> wired cfg \<and> allStarted cfg \<and> tc_n cfg = n"

lemma tended_view: "tended n cfg \<Longrightarrow> wireView cfg' = wireView cfg \<Longrightarrow> tended n cfg'"
  using wired_view [of cfg' cfg] by (auto simp: tended_def wireView_def)

lemma deleteClient_simps:
  "hasEnds (deleteClient ck cfg) = hasEnds cfg" "svcName (deleteClient ck cfg) = svcName cfg" "endFor (deleteClient ck cfg) = endFor cfg"
  "tc_n (deleteClient ck cfg) = tc_n cfg" "tc_endnames (deleteClient ck cfg) = tc_endnames cfg"
  "tc_clerks (deleteClient ck cfg) x = Some es \<longleftrightarrow> x \<noteq> ck \<and> tc_clerks cfg x = Some es"
  by (simp_all add: deleteClient_def hasEnds_def svcName_def endFor_def fun_eq_iff)

lemma deleteClient_tended: "tended n cfg \<Longrightarrow> tended n (deleteClient ck cfg)"
  unfolding tended_def wired_def distinctEnds_def allStarted_def deleteClient_simps by blast

lemma doKvTest_tended:
  assumes "tended n cfg" "doKvTest m1 m2 a cfg = Inr cfg'"
  shows "tended n cfg'"
proof (cases a)
  case (KMakeClient rnd randstring r to)
  then obtain ck where "makeClient (\<lambda>servers. MakeClerk servers rnd) randstring r to cfg = Inr (cfg', ck)"
    using assms(2) by (auto simp: kvtMakeClient_def elim!: rbind_InrE)
  from makeClient_wired [OF this] assms(1) show ?thesis by (auto simp: tended_def allStarted_def hasEnds_def)
next
  case (KStart i randstring r)
  then show ?thesis
    using assms launch_wired [of _ kv_rf "''KVServer''" m1 m2 i randstring cfg cfg'] by (auto simp: tended_def allStarted_def kvtStartServer_def)
next
  case (KDeleteClient ck)
  then show ?thesis using assms deleteClient_tended by auto
next
  case (KShutdown i)
  then show ?thesis using assms ShutdownServer_view tended_view by (fastforce simp: kvtShutdownServer_def)
next
  case (KServer q kv)
  then show ?thesis using assms tended_view [of n cfg cfg'] by (auto simp: wireView_def)
qed (use assms tended_view [of n cfg cfg'] in \<open>auto dest: connectUnlocked_view disconnectUnlocked_view ConnectAll_view
    partitionServers_view clients_view simp: kvtBegin_def kvtOp_def wireView_def\<close>)

lemma kvtMakeConfig_tended:
  assumes "kvtMakeConfig m1 m2 n unreliable maxraftstate randstring r = Inr cfg"
  shows "tended n cfg"
proof -
  let ?start = "\<lambda>i. kvtStartServer m1 m2 i (randstring i) (r i)"
  obtain c1 c2 where c: "forR ?start [0..<n] (kvtEmpty n maxraftstate) = Inr c1" "ConnectAll c1 = Inr c2"
    "cfg = c2\<lparr>tc_net := Reliable (\<not> unreliable) (tc_net c2)\<rparr>"
    using assms by (auto simp: kvtMakeConfig_def elim!: rbind_InrE)
  have "wired c \<and> tc_n c = n \<and> (\<forall>k < m. hasEnds c k)" if "forR ?start [0..<m] (kvtEmpty n maxraftstate) = Inr c" "m \<le> n" for m c
    using that
  proof (induction m arbitrary: c)
    case 0
    then show ?case by (auto simp: kvtEmpty_def wired_def distinctEnds_def endFor_def hasEnds_def)
  next
    case (Suc m)
    then obtain c0 where c0: "forR ?start [0..<m] (kvtEmpty n maxraftstate) = Inr c0" "?start m c0 = Inr c"
      by (auto simp: forR_append elim!: rbind_InrE)
    from Suc.IH [OF c0(1)] Suc.prems(2) launch_wired [OF c0(2) [unfolded kvtStartServer_def]] show ?case by (auto simp: less_Suc_eq)
  qed
  from this [OF c(1) order_refl] have "tended n c1" by (auto simp: tended_def allStarted_def)
  moreover have "wireView cfg = wireView c1" using ConnectAll_view [OF c(2)] by (simp add: c(3) wireView_def Reliable_def)
  ultimately show ?thesis by (rule tended_view)
qed

section \<open>The leader and the partition\<close>

lemma kvtLeaderFrom_total:
  assumes "\<And>i. i \<in> set is \<Longrightarrow> i < length (tc_servers cfg) \<and> tc_servers cfg ! i \<noteq> None"
  shows "\<exists>b l. kvtLeaderFrom ob is cfg = Inr (b, l) \<and> (b \<longrightarrow> l \<in> set is) \<and> (\<not> b \<longrightarrow> l = 0)"
  using assms by (induction "is") (fastforce simp: at_def deref_def)+

text \<open>
  C19. \<^verbatim>\<open>make_config\<close>, \<^verbatim>\<open>make_partition\<close>, \<^verbatim>\<open>partition\<close> of \<^verbatim>\<open>raft-db/config.go\<close>: with an odd number of at
  least three servers, all of them running, \<^verbatim>\<open>make_partition\<close> splits the servers into a majority and a
  minority, with the leader it sees in the minority, and after \<^verbatim>\<open>partition\<close>, whatever was connected,
  partitioned, shut down or started before, the end from a server to another is enabled exactly if the
  two are on the same side, and leads to that server.
\<close>

theorem kv_partition_isolates:
  assumes "kvtMakeConfig m1 m2 n unreliable maxraftstate randstring r = Inr cfg0" "forR (doKvTest m1 m2) ops cfg0 = Inr cfg"
    and "odd n" "3 \<le> n" "length (tc_servers cfg) = n" "\<forall>i < n. tc_servers cfg ! i \<noteq> None"
  shows "\<exists>p1 p2 cfg'. kvtMakePartition ob cfg = Inr (p1, p2) \<and> mset (p1 @ p2) = mset [0..<n] \<and> n < 2 * length p1 \<and>
     (\<forall>l. kvtLeader ob cfg = Inr (True, l) \<longrightarrow> l \<in> set p2) \<and> partitionServers p1 p2 cfg = Inr cfg' \<and>
     (\<forall>a < n. \<forall>b < n. \<exists>es. tc_endnames cfg' ! a = Some es \<and>
        (rn_enabled (tc_net cfg') (Inr (es ! b)) \<longleftrightarrow> (a \<in> set p1 \<longleftrightarrow> b \<in> set p1)) \<and>
        rn_connections (tc_net cfg') (Inr (es ! b)) = Some (Inl (int b)))"
proof -
  have "tended n cfg"
    using assms(2) kvtMakeConfig_tended [OF assms(1)] by (rule forR_invariant) (rule doKvTest_tended)
  then have t: "wired cfg" "allStarted cfg" "tc_n cfg = n" by (auto simp: tended_def)
  obtain b l where l: "kvtLeader ob cfg = Inr (b, l)" "l < n"
  proof -
    have "i < length (tc_servers cfg) \<and> tc_servers cfg ! i \<noteq> None" if "i \<in> set [0..<n]" for i using assms(5,6) that by simp
    then obtain b l where "kvtLeaderFrom ob [0..<n] cfg = Inr (b, l)" "b \<longrightarrow> l \<in> set [0..<n]" "\<not> b \<longrightarrow> l = 0"
      using kvtLeaderFrom_total [of "[0..<n]" cfg ob] by blast
    then show thesis using that [of b l] t(3) assms(4) by (cases b) (auto simp: kvtLeader_def)
  qed
  obtain p1 p2 where p: "splitAround n l = Inr (p1, p2)" "mset (p1 @ p2) = mset [0..<n]" "length p1 = n div 2 + 1"
    "length p2 = n div 2" "l \<in> set p2"
    using splitAround_odd [OF assms(3,4) l(2)] by blast
  have st: "set p1 \<union> set p2 = {..<n}" "distinct (p1 @ p2)"
    using mset_eq_setD [OF p(2)] mset_eq_imp_distinct_iff [OF p(2)] by auto
  then have side: "x \<in> set p2 \<longleftrightarrow> x \<notin> set p1" if "x < n" for x using that by auto
  obtain net where net: "partitionServers p1 p2 cfg = Inr (cfg\<lparr>tc_net := net\<rparr>)" "wireView (cfg\<lparr>tc_net := net\<rparr>) = wireView cfg"
    and lk: "\<And>a b. a < n \<Longrightarrow> b < n \<Longrightarrow> linkedUp (cfg\<lparr>tc_net := net\<rparr>) a b \<longleftrightarrow>
      (if a \<in> set p1 \<and> b \<in> set p2 \<or> a \<in> set p2 \<and> b \<in> set p1 then False
       else a \<in> set p1 \<and> b \<in> set p1 \<or> a \<in> set p2 \<and> b \<in> set p2 \<or> linkedUp cfg a b)"
  proof (rule partition_links [OF t(1,2), of p1 p2])
    show "length p1 \<le> tc_n cfg" "length p2 \<le> tc_n cfg" using p(3,4) t(3) assms(4) by auto
  qed (use st t(3) in auto)
  have ok: "wired (cfg\<lparr>tc_net := net\<rparr>)" "allStarted (cfg\<lparr>tc_net := net\<rparr>)" using wired_view [OF net(2)] t by auto
  have "\<exists>es. tc_endnames cfg ! a = Some es \<and> (rn_enabled net (Inr (es ! b)) \<longleftrightarrow> (a \<in> set p1 \<longleftrightarrow> b \<in> set p1)) \<and>
      rn_connections net (Inr (es ! b)) = Some (Inl (int b))" if ab: "a < n" "b < n" for a b
  proof -
    have "hasEnds (cfg\<lparr>tc_net := net\<rparr>) a" using ok(2) ab(1) t(3) by (simp add: allStarted_def)
    then obtain es where es: "tc_endnames cfg ! a = Some es" by (auto simp: hasEnds_def)
    then have "svcName (cfg\<lparr>tc_net := net\<rparr>) a b = es ! b" by (simp add: svcName_def names_def)
    then show ?thesis
      using es lk [OF ab] side [OF ab(1)] side [OF ab(2)] wiredD(1) [OF ok(1) \<open>hasEnds _ a\<close>, of b] t(3) ab(2)
      by (auto simp: linkedUp_def endFor_def)
  qed
  then show ?thesis
    using l p net(1) t(3) by (intro exI [of _ p1] exI [of _ p2] exI [of _ "cfg\<lparr>tc_net := net\<rparr>"]) (auto simp: kvtMakePartition_def)
qed

text \<open>Three servers, of which the second is the leader.\<close>

definition kvDemoNames :: "nat \<Rightarrow> nat \<Rightarrow> string" where
  "kvDemoNames i j = [if i = 0 then CHR ''a'' else if i = 1 then CHR ''b'' else CHR ''c'',
     if j = 0 then CHR ''0'' else if j = 1 then CHR ''1'' else CHR ''2'']"

lemmas kv_demo_simps = kvtMakeConfig_def kvtStartServer_def launch_def clientEnds_def savedAt_def StartKVServer_def
  ConnectAll_def connectUnlocked_def AllServers_def svcEnd_def names_def switch_def kvtEmpty_def Reliable_def MakeNetwork_def
  MakeEnd_def Connect_def Enable_def AddServer_def put_def at_def upt_conv_Cons numeral_eq_Suc Make_def readPersist_def
  ReadRaftState_def MakePersister_def Copy_def ReadSnapshot_def kvDemoNames_def Let_def readSnapshot_def

lemma kv_demo:
  "\<exists>cfg. kvtMakeConfig [] [] 3 False (-1) kvDemoNames (\<lambda>_. 0) = Inr (cfg :: (unit, unit) kvConfig) \<and>
     tc_servers cfg = [Some 0, Some 1, Some 2]"
  by (simp add: kv_demo_simps split: prod.splits)

theorem kv_partition_isolates_witness:
  "\<exists>cfg p1 p2. kvtMakeConfig [] [] 3 False (-1) kvDemoNames (\<lambda>_. 0) = Inr (cfg :: (unit, unit) kvConfig) \<and>
     kvtMakePartition (\<lambda>i. (1, i = 1)) cfg = Inr (p1, p2) \<and> 1 \<in> set p2"
proof -
  obtain cfg :: "(unit, unit) kvConfig" where cfg: "kvtMakeConfig [] [] 3 False (-1) kvDemoNames (\<lambda>_. 0) = Inr cfg"
    and sv: "tc_servers cfg = [Some 0, Some 1, Some 2]" using kv_demo by blast
  have "tc_n cfg = 3" using kvtMakeConfig_tended [OF cfg] by (simp add: tended_def)
  then have "kvtLeader (\<lambda>i. (1, i = 1)) cfg = Inr (True, 1)"
    using sv by (simp add: kvtLeader_def upt_conv_Cons at_def deref_def)
  moreover have "\<forall>i < 3. tc_servers cfg ! i \<noteq> None" using sv by (auto simp: less_Suc_eq numeral_eq_Suc)
  ultimately show ?thesis
    using kv_partition_isolates [OF cfg, of "[]" cfg "\<lambda>i. (1, i = 1)"] cfg sv by auto
qed

section \<open>Restarting a server\<close>

text \<open>A server that is shut down and started again gets the storage of its predecessor, so it has its term, its vote and its
  log, and the store of its snapshot; the predecessor is stopped.\<close>

lemma kv_tester_restart:
  assumes "kvtShutdownServer i cfg = Inr c1" "kvtStartServer m1 m2 i randstring r c1 = Inr c2"
    and "tc_servers cfg ! i = Some q" "tc_saved cfg ! i = Some (InRaft q)" "node_ok (tc_n cfg) (int i) (kv_rf (tc_procs cfg ! q))"
  obtains kv where "tc_servers c2 ! i = Some (length (tc_procs cfg))" "tc_procs c2 ! length (tc_procs cfg) = kv"
    "rf_term (kv_rf kv) = rf_term (kv_rf (tc_procs cfg ! q))" "rf_votedFor (kv_rf kv) = rf_votedFor (kv_rf (tc_procs cfg ! q))"
    "rf_log (kv_rf kv) = rf_log (kv_rf (tc_procs cfg ! q))" "killed (kv_rf (tc_procs c2 ! q))"
    "StartKVServer (tc_n cfg) (int i) (rf_persister (kv_rf (tc_procs cfg ! q))) (kc_maxraftstate c1) r = Inr kv"
proof (rule kvtest.restart [where p = "(kc_maxraftstate c1, r)", unfolded prod.case,
      OF assms(1) [unfolded kvtShutdownServer_def] assms(2) [unfolded kvtStartServer_def] assms(3-5)])
  fix kv assume kv: "tc_servers c2 ! i = Some (length (tc_procs cfg))" "tc_procs c2 = (tc_procs cfg)[q := kvKill (tc_procs cfg ! q)] @ [kv]"
    "StartKVServer (tc_n cfg) (int i) (rf_persister (kv_rf (tc_procs cfg ! q))) (kc_maxraftstate c1) r = Inr kv"
    "rf_term (kv_rf kv) = rf_term (kv_rf (tc_procs cfg ! q))" "rf_votedFor (kv_rf kv) = rf_votedFor (kv_rf (tc_procs cfg ! q))"
    "rf_log (kv_rf kv) = rf_log (kv_rf (tc_procs cfg ! q))" "killed (kv_rf (tc_procs c2 ! q))"
  have "tc_procs c2 ! length (tc_procs cfg) = kv" using kv(2) by (simp add: nth_append)
  with kv show thesis using that by blast
qed

section \<open>Limits of the tester\<close>

text \<open>With four servers the padding of \<^verbatim>\<open>p2\<close> stays: server 0 is on both sides.\<close>

lemma even_partition_overlaps: "splitAround 4 1 = Inr ([0, 2, 3], [0, 1])"
  by code_simp

text \<open>While a server is shut down \<^verbatim>\<open>Leader\<close> panics, unless it finds a leader before it gets there.\<close>

lemma leader_shut_down_panics:
  assumes "i < tc_n cfg" "length (tc_servers cfg) = tc_n cfg" "tc_servers cfg ! i = None" "\<And>j. j < i \<Longrightarrow> \<not> snd (ob j)"
  shows "kvtLeader ob cfg = Inl NilDereference"
proof -
  have "kvtLeaderFrom ob [k..<tc_n cfg] cfg = Inl NilDereference" if "k \<le> i" for k
    using that
  proof (induction "i - k" arbitrary: k)
    case 0
    then show ?case using assms(1-3) by (simp add: upt_conv_Cons at_def deref_def)
  next
    case (Suc d)
    then have "kvtLeaderFrom ob [Suc k..<tc_n cfg] cfg = Inl NilDereference" by (intro Suc.hyps(1)) auto
    then show ?case using Suc.hyps(2) assms by (cases "tc_servers cfg ! k") (simp_all add: upt_conv_Cons at_def deref_def)
  qed
  then show ?thesis by (simp add: kvtLeader_def)
qed

text \<open>The guard of the second loop of \<^verbatim>\<open>disconnectUnlocked\<close> is that of another server: here the second server was never
  started, and its nil slice is indexed.\<close>

lemma disconnect_wrong_guard:
  "tc_endnames cfg = [Some [a, b], None] \<Longrightarrow> disconnectUnlocked 0 [1] cfg = Inl IndexOutOfRange"
  by (simp add: disconnectUnlocked_def svcEnd_def at_def names_def switch_def)

end
