(* ===== verification/Ctrler_Tester.thy ===== *)
theory Ctrler_Tester
  imports Service_Tester Shard_Clerk
begin

text \<open>
  The tester of the shard controller, \<^verbatim>\<open>shard-controller/config.go\<close>: the operations of
  \<open>Service_Tester\<close>, whose text this file repeats, for servers of type \<open>ShardCtrler\<close>, and its own
  \<^verbatim>\<open>Leader\<close>, which passes over servers that are shut down.
\<close>

type_synonym ('t, 'v) scConfig = "(ShardCtrler, sc_op, sc_item, ScClerk, 't, 'v) svcConfig"

definition ctConnect :: "nat \<Rightarrow> nat list \<Rightarrow> ('t, 'v) scConfig \<Rightarrow> ('t, 'v) scConfig res" where
  "ctConnect = connectUnlocked"

definition ctDisconnect :: "nat \<Rightarrow> nat list \<Rightarrow> ('t, 'v) scConfig \<Rightarrow> ('t, 'v) scConfig res" where
  "ctDisconnect = disconnectUnlocked"

definition ctAll :: "('t, 'v) scConfig \<Rightarrow> nat list" where
  "ctAll = AllServers"

definition ctConnectAll :: "('t, 'v) scConfig \<Rightarrow> ('t, 'v) scConfig res" where
  "ctConnectAll = ConnectAll"

definition ctPartition :: "nat list \<Rightarrow> nat list \<Rightarrow> ('t, 'v) scConfig \<Rightarrow> ('t, 'v) scConfig res" where
  "ctPartition = partitionServers"

definition ctMakeClient ::
    "32 word \<Rightarrow> (nat \<Rightarrow> string) \<Rightarrow> (nat \<Rightarrow> nat) \<Rightarrow> nat list \<Rightarrow> ('t, 'v) scConfig \<Rightarrow> (('t, 'v) scConfig \<times> nat) res" where
  "ctMakeClient rnd = makeClient (\<lambda>servers. scMakeClerk servers rnd)"

definition ctDeleteClient :: "nat \<Rightarrow> ('t, 'v) scConfig \<Rightarrow> ('t, 'v) scConfig" where
  "ctDeleteClient = deleteClient"

definition ctConnectClient :: "nat \<Rightarrow> nat list \<Rightarrow> ('t, 'v) scConfig \<Rightarrow> ('t, 'v) scConfig res" where
  "ctConnectClient = ConnectClientUnlocked"

definition ctDisconnectClient :: "nat \<Rightarrow> nat list \<Rightarrow> ('t, 'v) scConfig \<Rightarrow> ('t, 'v) scConfig res" where
  "ctDisconnectClient = DisconnectClientUnlocked"

definition ctShutdownServer :: "nat \<Rightarrow> ('t, 'v) scConfig \<Rightarrow> ('t, 'v) scConfig res" where
  "ctShutdownServer = ShutdownServer sc_rf scKill"

definition ctStartServer ::
    "('t, receiver, 'v) Method list \<Rightarrow> ('t, receiver, 'v) Method list \<Rightarrow> nat \<Rightarrow> (nat \<Rightarrow> string) \<Rightarrow> nat \<Rightarrow>
     ('t, 'v) scConfig \<Rightarrow> ('t, 'v) scConfig res" where
  "ctStartServer scMethods rfMethods i randstring r =
     launch (\<lambda>servers m ps. StartServer servers m ps r) sc_rf ''ShardCtrler'' scMethods rfMethods i randstring"

definition ctCleanup :: "('t, 'v) scConfig \<Rightarrow> ('t, 'v) scConfig res" where
  "ctCleanup = cleanupServers scKill"

definition ctLogSize :: "(sc_op raft_item gob \<Rightarrow> int) \<Rightarrow> ('t, 'v) scConfig \<Rightarrow> int res" where
  "ctLogSize bytelen = largest sc_rf (RaftStateSize bytelen)"

fun ctLeaderFrom :: "obs \<Rightarrow> nat list \<Rightarrow> ('t, 'v) scConfig \<Rightarrow> (bool \<times> nat) res" where
  "ctLeaderFrom ob [] cfg = Inr (False, 0)"
| "ctLeaderFrom ob (i # is) cfg =
     rbind (at (tc_servers cfg) (int i)) (\<lambda>sc.
       if sc \<noteq> None \<and> snd (ob i) then Inr (True, i) else ctLeaderFrom ob is cfg)"

definition ctLeader :: "obs \<Rightarrow> ('t, 'v) scConfig \<Rightarrow> (bool \<times> nat) res" where
  "ctLeader ob cfg = ctLeaderFrom ob [0..<tc_n cfg] cfg"

definition ctMakePartition :: "obs \<Rightarrow> ('t, 'v) scConfig \<Rightarrow> (nat list \<times> nat list) res" where
  "ctMakePartition ob cfg = rbind (ctLeader ob cfg) (\<lambda>(_, l). splitAround (tc_n cfg) l)"

definition ctEmpty :: "nat \<Rightarrow> ('t, 'v) scConfig" where
  "ctEmpty n =
     \<lparr>tc_net = MakeNetwork, tc_n = n, tc_procs = [], tc_servers = replicate n None, tc_saved = replicate n None,
      tc_endnames = replicate n None, tc_clerkObjs = [], tc_clerks = Map.empty, tc_nextClientId = int n + 1000\<rparr>"

definition ctMakeConfig ::
    "('t, receiver, 'v) Method list \<Rightarrow> ('t, receiver, 'v) Method list \<Rightarrow> nat \<Rightarrow> bool \<Rightarrow> (nat \<Rightarrow> nat \<Rightarrow> string) \<Rightarrow>
     (nat \<Rightarrow> nat) \<Rightarrow> ('t, 'v) scConfig res" where
  "ctMakeConfig scMethods rfMethods n unreliable randstring r =
     rbind (forR (\<lambda>i. ctStartServer scMethods rfMethods i (randstring i) (r i)) [0..<n] (ctEmpty n)) (\<lambda>cfg.
     rbind (ctConnectAll cfg) (\<lambda>cfg.
       Inr (cfg\<lparr>tc_net := Reliable (\<not> unreliable) (tc_net cfg)\<rparr>)))"

end
