(* ===== verification/Ctrler_Tester_Props.thy ===== *)
theory Ctrler_Tester_Props
  imports Ctrler_Tester Service_Tester_Props
begin

text \<open>
  The tester of the shard controller: it starts and stops controllers as the one of the key/value
  service does its servers, and its \<^verbatim>\<open>Leader\<close> and \<^verbatim>\<open>make_partition\<close> work while servers are shut down.
\<close>

interpretation sctest: tested_service "\<lambda>r servers m ps. StartServer servers m ps r" sc_rf scKill
  by unfold_locales (auto simp: StartServer_def scKill_def elim!: rbind_InrE)

lemma ctLeaderFrom_total:
  assumes "\<And>i. i \<in> set is \<Longrightarrow> i < length (tc_servers cfg)"
  shows "\<exists>b l. ctLeaderFrom ob is cfg = Inr (b, l) \<and> (b \<longrightarrow> l \<in> set is \<and> tc_servers cfg ! l \<noteq> None) \<and> (\<not> b \<longrightarrow> l = 0)"
  using assms
proof (induction "is")
  case (Cons i "is")
  then have i: "i < length (tc_servers cfg)" by simp
  show ?case
  proof (cases "tc_servers cfg ! i \<noteq> None \<and> snd (ob i)")
    case True
    then show ?thesis using i by (intro exI [of _ True] exI [of _ i]) (auto simp: at_def)
  next
    case False
    then have "ctLeaderFrom ob (i # is) cfg = ctLeaderFrom ob is cfg" using i by (auto simp: at_def)
    moreover have "\<exists>b l. ctLeaderFrom ob is cfg = Inr (b, l) \<and> (b \<longrightarrow> l \<in> set is \<and> tc_servers cfg ! l \<noteq> None) \<and> (\<not> b \<longrightarrow> l = 0)"
      by (rule Cons.IH, rule Cons.prems) simp
    ultimately show ?thesis by (metis list.set_intros(2))
  qed
qed auto

lemma ctMakePartition_splits:
  assumes "odd (tc_n cfg)" "3 \<le> tc_n cfg" "length (tc_servers cfg) = tc_n cfg"
  obtains p1 p2 where "ctMakePartition ob cfg = Inr (p1, p2)" "mset (p1 @ p2) = mset [0..<tc_n cfg]" "tc_n cfg < 2 * length p1"
    "\<And>l. ctLeader ob cfg = Inr (True, l) \<Longrightarrow> l \<in> set p2"
proof -
  have "i < length (tc_servers cfg)" if "i \<in> set [0..<tc_n cfg]" for i using assms(3) that by simp
  then obtain b l where l: "ctLeaderFrom ob [0..<tc_n cfg] cfg = Inr (b, l)" "b \<longrightarrow> l \<in> set [0..<tc_n cfg]" "\<not> b \<longrightarrow> l = 0"
    using ctLeaderFrom_total [of "[0..<tc_n cfg]" cfg ob] by blast
  then have ln: "l < tc_n cfg" using assms(2) by (cases b) auto
  obtain p1 p2 where "splitAround (tc_n cfg) l = Inr (p1, p2)" "mset (p1 @ p2) = mset [0..<tc_n cfg]" "length p1 = tc_n cfg div 2 + 1" "l \<in> set p2"
    using splitAround_odd [OF assms(1,2) ln] by blast
  then show thesis using that [of p1 p2] l(1) by (simp add: ctMakePartition_def ctLeader_def)
qed

text \<open>A controller that is restarted by the tester has its Raft log again.\<close>

lemma ct_tester_restart:
  assumes "ctShutdownServer i cfg = Inr c1" "ctStartServer m1 m2 i randstring r c1 = Inr c2"
    and "tc_servers cfg ! i = Some q" "tc_saved cfg ! i = Some (InRaft q)" "node_ok (tc_n cfg) (int i) (sc_rf (tc_procs cfg ! q))"
  obtains sc where "tc_servers c2 ! i = Some (length (tc_procs cfg))" "tc_procs c2 ! length (tc_procs cfg) = sc"
    "rf_log (sc_rf sc) = rf_log (sc_rf (tc_procs cfg ! q))" "rf_term (sc_rf sc) = rf_term (sc_rf (tc_procs cfg ! q))"
    "sc_configs sc = [zeroConfig]" "killed (sc_rf (tc_procs c2 ! q))"
proof (rule sctest.restart [where p = r, OF assms(1) [unfolded ctShutdownServer_def] assms(2) [unfolded ctStartServer_def] assms(3-5)])
  fix sc assume sc: "tc_servers c2 ! i = Some (length (tc_procs cfg))" "tc_procs c2 = (tc_procs cfg)[q := scKill (tc_procs cfg ! q)] @ [sc]"
    "StartServer (tc_n cfg) (int i) (rf_persister (sc_rf (tc_procs cfg ! q))) r = Inr sc"
    "rf_log (sc_rf sc) = rf_log (sc_rf (tc_procs cfg ! q))" "rf_term (sc_rf sc) = rf_term (sc_rf (tc_procs cfg ! q))"
    "killed (sc_rf (tc_procs c2 ! q))"
  have "tc_procs c2 ! length (tc_procs cfg) = sc" using sc(2) by (simp add: nth_append)
  moreover have "sc_configs sc = [zeroConfig]" using sc(3) by (auto simp: StartServer_def elim!: rbind_InrE)
  ultimately show thesis using that sc(1,4-6) by blast
qed

end
