(* ===== verification/Go_Text.thy ===== *)
theory Go_Text
  imports Go_Prelude
begin

text \<open>Numbers as text, the way \<^verbatim>\<open>strconv.Itoa\<close> writes them.\<close>

definition digit :: "nat \<Rightarrow> char" where
  "digit d = char_of (48 + d)"

fun digits :: "nat \<Rightarrow> string" where
  "digits k = (if k < 10 then [digit k] else digits (k div 10) @ [digit (k mod 10)])"

declare digits.simps [simp del]

definition Itoa :: "int \<Rightarrow> string" where
  "Itoa k = (if k < 0 then ''-'' @ digits (nat (- k)) else digits (nat k))"

definition digitsValue :: "string \<Rightarrow> nat" where
  "digitsValue s = foldl (\<lambda>a c. a * 10 + (of_char c - 48)) 0 s"

lemma digit_char: "d < 10 \<Longrightarrow> of_char (digit d) = 48 + d"
  by (simp add: digit_def)

lemma digitsValue_digits: "digitsValue (digits k) = k"
proof (induction k rule: digits.induct)
  case (1 k)
  then show ?case by (subst digits.simps) (auto simp: digitsValue_def digit_char)
qed

lemma digits_no_dash: "c \<in> set (digits k) \<Longrightarrow> c \<noteq> CHR ''-''"
proof (induction k rule: digits.induct)
  case (1 k)
  have "digit d \<noteq> CHR ''-''" if "d < 10" for d
    using digit_char [OF that] by (auto dest: arg_cong [of _ _ "of_char :: char \<Rightarrow> nat"])
  then have d: "digit k \<noteq> CHR ''-''" if "k < 10" for k using that .
  have "c = digit (k mod 10) \<or> k < 10 \<and> c = digit k \<or> \<not> k < 10 \<and> c \<in> set (digits (k div 10))"
    using 1(2) by (subst (asm) digits.simps) (auto split: if_splits)
  then show ?case using d [of "k mod 10"] d [of k] 1(1) by auto
qed

lemma digits_eq_iff: "digits k = digits k' \<longleftrightarrow> k = k'"
  using digitsValue_digits by metis

end
