(* ===== verification/Sharded_Tester.thy ===== *)
theory Sharded_Tester
  imports Raft_Tester Sharded_KV Go_Text
begin

text \<open>
  The tester of the sharded store, \<^verbatim>\<open>raft-db-sharded/config.go\<close>: three controllers, three groups of
  servers, clients, all on one network, where the names of servers and of ends are strings. As in the
  other testers the servers ever made are listed (\<open>sh_procs\<close>, \<open>sh_cprocs\<close>) and a pointer is a position in
  the list. Random strings and numbers are arguments: \<open>rs j\<close> is what \<^verbatim>\<open>randstring\<close> returns at its \<open>j\<close>-th call.
\<close>

section \<open>Data\<close>

datatype object = AShardKV nat | ItsShardRaft nat | ACtrler nat | ItsCtrlerRaft nat

record group =
  gg_gid :: int
  gg_servers :: "nat option list"
  gg_saved :: "(sk_op, unit) saved option list"
  gg_endnames :: "string list option list"
  gg_mendnames :: "string list option list"

record ('t, 'v) shConfig =
  sh_net :: "(string, 't, object, 'v) Network"
  sh_nctrlers :: nat
  sh_cprocs :: "ShardCtrler list"
  sh_ctrlerservers :: "nat option list"
  sh_mck :: "ScClerk option"
  sh_ngroups :: nat
  sh_n :: nat
  sh_procs :: "ShardKV list"
  sh_groups :: "group option list"
  sh_clerkObjs :: "SkClerk list"
  sh_clerks :: "nat \<rightharpoonup> string list"
  sh_nextClientId :: int
  sh_maxraftstate :: int

text \<open>What reflection finds: the methods of a \<^verbatim>\<open>ShardKV\<close>, a \<^verbatim>\<open>ShardCtrler\<close> and a \<^verbatim>\<open>Raft\<close>.\<close>

record ('t, 'v) methods =
  ms_kv :: "('t, object, 'v) Method list"
  ms_ctrler :: "('t, object, 'v) Method list"
  ms_raft :: "('t, object, 'v) Method list"

section \<open>Names\<close>

definition ctrlername :: "nat \<Rightarrow> string" where
  "ctrlername i = ''ctrler'' @ Itoa (int i)"

definition servername :: "int \<Rightarrow> nat \<Rightarrow> string" where
  "servername gid i = ''server-'' @ Itoa gid @ ''-'' @ Itoa (int i)"

section \<open>Ends and clients\<close>

text \<open>An end that is made, connected and enabled, as every loop of this file and the function given to \<^verbatim>\<open>MakeClerk\<close> do.\<close>

definition openEnd :: "string \<Rightarrow> string \<Rightarrow> ('t, 'v) shConfig \<Rightarrow> ('t, 'v) shConfig res" where
  "openEnd name srv cfg =
     rbind (MakeEnd name (sh_net cfg)) (\<lambda>net. Inr (cfg\<lparr>sh_net := Enable name True (Connect name srv net)\<rparr>))"

definition ctrlerEnds :: "(nat \<Rightarrow> string) \<Rightarrow> ('t, 'v) shConfig \<Rightarrow> ('t, 'v) shConfig res" where
  "ctrlerEnds rs cfg = forR (\<lambda>j. openEnd (rs j) (ctrlername j)) [0..<sh_nctrlers cfg] cfg"

text \<open>\<^verbatim>\<open>endnames\<close> has room for \<open>n\<close> names, and is given one for each controller.\<close>

definition shMakeClient ::
    "32 word \<Rightarrow> (nat \<Rightarrow> string) \<Rightarrow> ('t, 'v) shConfig \<Rightarrow> (('t, 'v) shConfig \<times> nat) res" where
  "shMakeClient rnd rs cfg =
     rbind (forR (\<lambda>j (endnames, cfg).
              rbind (put endnames (int j) (rs j)) (\<lambda>endnames.
              rbind (openEnd (rs j) (ctrlername j) cfg) (\<lambda>cfg. Inr (endnames, cfg))))
            [0..<sh_nctrlers cfg] (replicate (sh_n cfg) '''', cfg)) (\<lambda>(endnames, cfg).
     let ck = length (sh_clerkObjs cfg) in
     Inr (cfg\<lparr>sh_clerkObjs := sh_clerkObjs cfg @ [skMakeClerk (sh_nctrlers cfg) rnd],
              sh_clerks := (sh_clerks cfg)(ck \<mapsto> endnames), sh_nextClientId := sh_nextClientId cfg + 1\<rparr>, ck))"

definition shDeleteClient :: "nat \<Rightarrow> ('t, 'v) shConfig \<Rightarrow> ('t, 'v) shConfig" where
  "shDeleteClient ck cfg = cfg\<lparr>sh_clerks := (sh_clerks cfg)(ck := None)\<rparr>"

section \<open>Shutdown and start\<close>

text \<open>\<^verbatim>\<open>cfg.groups[gi]\<close>, and a change of what it points to.\<close>

definition groupAt :: "nat \<Rightarrow> ('t, 'v) shConfig \<Rightarrow> group res" where
  "groupAt gi cfg = rbind (at (sh_groups cfg) (int gi)) deref"

definition setGroup :: "nat \<Rightarrow> group \<Rightarrow> ('t, 'v) shConfig \<Rightarrow> ('t, 'v) shConfig" where
  "setGroup gi gg cfg = cfg\<lparr>sh_groups := (sh_groups cfg)[gi := Some gg]\<rparr>"

definition groupSaved :: "group \<Rightarrow> nat \<Rightarrow> ('t, 'v) shConfig \<Rightarrow> (sk_op raft_item, unit) Persister option res" where
  "groupSaved gg i cfg =
     rbind (at (gg_saved gg) (int i)) (\<lambda>s.
       case s of None \<Rightarrow> Inr None
       | Some (Held ps) \<Rightarrow> Inr (Some ps)
       | Some (InRaft q) \<Rightarrow> rbind (at (sh_procs cfg) (int q)) (\<lambda>kv. Inr (Some (rf_persister (skv_rf kv)))))"

definition switchOff :: "string list \<Rightarrow> nat \<Rightarrow> ('t, 'v) shConfig \<Rightarrow> ('t, 'v) shConfig res" where
  "switchOff es len =
     forR (\<lambda>j cfg. rbind (at es (int j)) (\<lambda>name. Inr (cfg\<lparr>sh_net := Enable name False (sh_net cfg)\<rparr>))) [0..<len]"

definition shShutdownServer :: "nat \<Rightarrow> nat \<Rightarrow> ('t, 'v) shConfig \<Rightarrow> ('t, 'v) shConfig res" where
  "shShutdownServer gi i cfg =
     rbind (groupAt gi cfg) (\<lambda>gg.
     rbind (if gg_servers gg = [] then Inr cfg
            else rbind (at (gg_endnames gg) (int i)) (\<lambda>es. switchOff (names es) (length (gg_servers gg)) cfg)) (\<lambda>cfg.
     rbind (at (gg_mendnames gg) (int i)) (\<lambda>mes.
     rbind (switchOff (names mes) (length (names mes)) cfg) (\<lambda>cfg.
     let cfg = cfg\<lparr>sh_net := DeleteServer (servername (gg_gid gg) i) (sh_net cfg)\<rparr> in
     rbind (groupSaved gg i cfg) (\<lambda>ps.
     let gg = (case ps of None \<Rightarrow> gg | Some ps \<Rightarrow> gg\<lparr>gg_saved := (gg_saved gg)[i := Some (Held (Copy ps))]\<rparr>) in
     rbind (at (gg_servers gg) (int i)) (\<lambda>kv.
       case kv of None \<Rightarrow> Inr (setGroup gi gg cfg)
       | Some q \<Rightarrow> rbind (at (sh_procs cfg) (int q)) (\<lambda>sv.
           Inr (setGroup gi (gg\<lparr>gg_servers := (gg_servers gg)[i := None]\<rparr>)
                 (cfg\<lparr>sh_procs := (sh_procs cfg)[q := skKill sv]\<rparr>)))))))))"

definition shShutdownGroup :: "nat \<Rightarrow> ('t, 'v) shConfig \<Rightarrow> ('t, 'v) shConfig res" where
  "shShutdownGroup gi cfg = forR (shShutdownServer gi) [0..<sh_n cfg] cfg"

text \<open>\<open>rs\<close> gives the names of the ends to the servers of the group, \<open>mrs\<close> those of the ends to the controllers.\<close>

definition shStartServer ::
    "('t, 'v) methods \<Rightarrow> nat \<Rightarrow> nat \<Rightarrow> (nat \<Rightarrow> string) \<Rightarrow> (nat \<Rightarrow> string) \<Rightarrow> nat \<Rightarrow> ('t, 'v) shConfig \<Rightarrow> ('t, 'v) shConfig res" where
  "shStartServer ms gi i rs mrs r cfg =
     rbind (groupAt gi cfg) (\<lambda>gg.
     rbind (put (gg_endnames gg) (int i) (Some (map rs [0..<sh_n cfg]))) (\<lambda>ens.
     rbind (forR (\<lambda>j. openEnd (rs j) (servername (gg_gid gg) j)) [0..<sh_n cfg] cfg) (\<lambda>cfg.
     rbind (put (gg_mendnames gg) (int i) (Some (map mrs [0..<sh_nctrlers cfg]))) (\<lambda>mens.
     rbind (ctrlerEnds mrs cfg) (\<lambda>cfg.
     rbind (groupSaved gg i cfg) (\<lambda>saved.
     rbind (skStartServer (sh_n cfg) (int i) (case saved of Some ps \<Rightarrow> Copy ps | None \<Rightarrow> MakePersister)
              (sh_maxraftstate cfg) (gg_gid gg) (sh_nctrlers cfg) r) (\<lambda>kv.
       let q = length (sh_procs cfg);
           srv = AddService (MakeService ''Raft'' (ItsShardRaft q) (ms_raft ms))
                   (AddService (MakeService ''ShardKV'' (AShardKV q) (ms_kv ms)) MakeServer);
           gg = gg\<lparr>gg_endnames := ens, gg_mendnames := mens, gg_saved := (gg_saved gg)[i := Some (InRaft q)],
                   gg_servers := (gg_servers gg)[i := Some q]\<rparr>
       in Inr (setGroup gi gg (cfg\<lparr>sh_procs := sh_procs cfg @ [kv],
             sh_net := AddServer (servername (gg_gid gg) i) srv (sh_net cfg)\<rparr>)))))))))"

definition shStartGroup ::
    "('t, 'v) methods \<Rightarrow> nat \<Rightarrow> (nat \<Rightarrow> nat \<Rightarrow> string) \<Rightarrow> (nat \<Rightarrow> nat \<Rightarrow> string) \<Rightarrow> (nat \<Rightarrow> nat) \<Rightarrow> ('t, 'v) shConfig \<Rightarrow>
     ('t, 'v) shConfig res" where
  "shStartGroup ms gi rs mrs r cfg = forR (\<lambda>i. shStartServer ms gi i (rs i) (mrs i) (r i)) [0..<sh_n cfg] cfg"

section \<open>The controllers\<close>

definition StartCtrlerserver ::
    "('t, 'v) methods \<Rightarrow> nat \<Rightarrow> (nat \<Rightarrow> string) \<Rightarrow> nat \<Rightarrow> ('t, 'v) shConfig \<Rightarrow> ('t, 'v) shConfig res" where
  "StartCtrlerserver ms i rs r cfg =
     rbind (ctrlerEnds rs cfg) (\<lambda>cfg.
     rbind (StartServer (sh_nctrlers cfg) (int i) MakePersister r) (\<lambda>sc.
     let q = length (sh_cprocs cfg);
         srv = AddService (MakeService ''Raft'' (ItsCtrlerRaft q) (ms_raft ms))
                 (AddService (MakeService ''ShardCtrler'' (ACtrler q) (ms_ctrler ms)) MakeServer)
     in rbind (put (sh_ctrlerservers cfg) (int i) (Some q)) (\<lambda>cs.
          Inr (cfg\<lparr>sh_cprocs := sh_cprocs cfg @ [sc], sh_ctrlerservers := cs,
                   sh_net := AddServer (ctrlername i) srv (sh_net cfg)\<rparr>))))"

definition shardclerk :: "32 word \<Rightarrow> (nat \<Rightarrow> string) \<Rightarrow> ('t, 'v) shConfig \<Rightarrow> (('t, 'v) shConfig \<times> ScClerk) res" where
  "shardclerk rnd rs cfg = rbind (ctrlerEnds rs cfg) (\<lambda>cfg. Inr (cfg, scMakeClerk (sh_nctrlers cfg) rnd))"

text \<open>The argument \<^verbatim>\<open>joinm\<close> builds, as the list of its entries, and the one of \<^verbatim>\<open>leavem\<close>; \<open>call\<close>, \<open>fuel\<close> and \<open>rnd\<close> are those of the
  controllers' client.\<close>

definition joinGroups :: "nat list \<Rightarrow> ('t, 'v) shConfig \<Rightarrow> (int \<times> string list) list res" where
  "joinGroups gis cfg =
     forR (\<lambda>g m. rbind (groupAt g cfg) (\<lambda>gg.
       Inr (AList.update (gg_gid gg) (map (servername (gg_gid gg)) [0..<sh_n cfg]) m))) gis []"

definition joinm where
  "joinm call fuel rnd gis cfg =
     rbind (joinGroups gis cfg) (\<lambda>m. rbind (deref (sh_mck cfg)) (\<lambda>mck. Inr (scClerkJoin call fuel rnd m mck)))"

definition leavem where
  "leavem call fuel rnd gis cfg =
     rbind (mapR (\<lambda>g. rbind (groupAt g cfg) (\<lambda>gg. Inr (gg_gid gg))) gis) (\<lambda>gids.
     rbind (deref (sh_mck cfg)) (\<lambda>mck. Inr (scClerkLeave call fuel rnd gids mck)))"

section \<open>The whole\<close>

definition emptyGroup :: "nat \<Rightarrow> nat \<Rightarrow> nat \<Rightarrow> group" where
  "emptyGroup gi n nctrlers =
     \<lparr>gg_gid = 100 + int gi, gg_servers = replicate n None, gg_saved = replicate n None,
      gg_endnames = replicate n None, gg_mendnames = replicate nctrlers None\<rparr>"

definition shEmpty :: "nat \<Rightarrow> int \<Rightarrow> ('t, 'v) shConfig" where
  "shEmpty n maxraftstate =
     \<lparr>sh_net = MakeNetwork, sh_nctrlers = 3, sh_cprocs = [], sh_ctrlerservers = replicate 3 None, sh_mck = None,
      sh_ngroups = 3, sh_n = n, sh_procs = [], sh_groups = replicate 3 None, sh_clerkObjs = [], sh_clerks = Map.empty,
      sh_nextClientId = int n + 1000, sh_maxraftstate = maxraftstate\<rparr>"

text \<open>The random strings: of controller \<open>i\<close>, of the controllers' client, and of server \<open>i\<close> of group \<open>gi\<close>.\<close>

record randoms =
  rd_ctrler :: "nat \<Rightarrow> nat \<Rightarrow> string"
  rd_clerk :: "nat \<Rightarrow> string"
  rd_group :: "nat \<Rightarrow> nat \<Rightarrow> nat \<Rightarrow> string"
  rd_mgroup :: "nat \<Rightarrow> nat \<Rightarrow> nat \<Rightarrow> string"
  rd_timeout :: "nat \<Rightarrow> nat"
  rd_cid :: "32 word"

definition makeGroup :: "('t, 'v) methods \<Rightarrow> randoms \<Rightarrow> nat \<Rightarrow> ('t, 'v) shConfig \<Rightarrow> ('t, 'v) shConfig res" where
  "makeGroup ms rd gi cfg =
     shStartGroup ms gi (rd_group rd gi) (rd_mgroup rd gi) (rd_timeout rd) (setGroup gi (emptyGroup gi (sh_n cfg) (sh_nctrlers cfg)) cfg)"

definition shMakeConfig ::
    "('t, 'v) methods \<Rightarrow> nat \<Rightarrow> bool \<Rightarrow> int \<Rightarrow> randoms \<Rightarrow> ('t, 'v) shConfig res" where
  "shMakeConfig ms n unreliable maxraftstate rd =
     (let cfg = shEmpty n maxraftstate in
      rbind (forR (\<lambda>i. StartCtrlerserver ms i (rd_ctrler rd i) (rd_timeout rd i)) [0..<sh_nctrlers cfg] cfg) (\<lambda>cfg.
      rbind (shardclerk (rd_cid rd) (rd_clerk rd) cfg) (\<lambda>(cfg, mck).
      rbind (forR (makeGroup ms rd) [0..<sh_ngroups cfg] (cfg\<lparr>sh_mck := Some mck\<rparr>)) (\<lambda>cfg.
        Inr (cfg\<lparr>sh_net := Reliable (\<not> unreliable) (sh_net cfg)\<rparr>)))))"

definition shCleanup :: "('t, 'v) shConfig \<Rightarrow> ('t, 'v) shConfig res" where
  "shCleanup cfg =
     rbind (forR shShutdownGroup [0..<sh_ngroups cfg] cfg) (\<lambda>cfg.
     rbind (forR (\<lambda>i cfg. rbind (at (sh_ctrlerservers cfg) (int i)) (\<lambda>p. rbind (deref p) (\<lambda>q.
              rbind (at (sh_cprocs cfg) (int q)) (\<lambda>sc. Inr (cfg\<lparr>sh_cprocs := (sh_cprocs cfg)[q := scKill sc]\<rparr>)))))
            [0..<sh_nctrlers cfg] cfg) (\<lambda>cfg.
     rbind (Cleanup (sh_net cfg)) (\<lambda>net. Inr (cfg\<lparr>sh_net := net\<rparr>))))"

text \<open>\<^verbatim>\<open>checklogs\<close>: the test fails, or goes on. \<open>size\<close> is the number of bytes of a stream.\<close>

definition checkStorage ::
    "(sk_op raft_item gob \<Rightarrow> int) \<Rightarrow> (unit gob \<Rightarrow> int) \<Rightarrow> int \<Rightarrow> (sk_op raft_item, unit) Persister \<Rightarrow> unit res" where
  "checkStorage rsize ssize maxraftstate ps =
     (let raft = RaftStateSize rsize ps; snap = ssize (ReadSnapshot ps) in
      if maxraftstate \<ge> 0 \<and> raft > 8 * maxraftstate then Inl (Panic ''persister.RaftStateSize()'')
      else if maxraftstate < 0 \<and> snap > 0 then Inl (Panic ''maxraftstate is -1, but snapshot is non-empty!'')
      else Inr ())"

definition checklogs ::
    "(sk_op raft_item gob \<Rightarrow> int) \<Rightarrow> (unit gob \<Rightarrow> int) \<Rightarrow> ('t, 'v) shConfig \<Rightarrow> unit res" where
  "checklogs rsize ssize cfg =
     forR (\<lambda>gi _. forR (\<lambda>i _.
       rbind (groupAt gi cfg) (\<lambda>gg. rbind (groupSaved gg i cfg) (\<lambda>s. rbind (deref s)
         (checkStorage rsize ssize (sh_maxraftstate cfg))))) [0..<sh_n cfg] ()) [0..<sh_ngroups cfg] ()"

end
