(* ===== verification/Sharded_Tester_Props.thy ===== *)
theory Sharded_Tester_Props
  imports Sharded_Tester Raft_Tester_Props
begin

text \<open>
  What the tester of the sharded store sets up: every server of every group is found in the network under
  the name that \<^verbatim>\<open>join\<close> tells the controllers, so a client that follows the configuration reaches it. The
  sizes of two slices are mixed up, so the tester works only with groups of three.
\<close>

section \<open>Names are not shared\<close>

lemma servername_eq_iff: "0 \<le> g \<Longrightarrow> 0 \<le> g' \<Longrightarrow> servername g i = servername g' i' \<longleftrightarrow> g = g' \<and> i = i'"
proof -
  assume g: "0 \<le> g" "0 \<le> g'"
  let ?f = "takeWhile (\<lambda>c. c \<noteq> CHR ''-'')" and ?t = "\<lambda>g i. digits (nat g) @ CHR ''-'' # digits i"
  have f: "?f (?t g i) = digits (nat g)" for g i by (subst takeWhile_append2) (auto simp: digits_no_dash)
  have "nat g = nat g' \<and> i = i'" if e: "?t g i = ?t g' i'"
  proof -
    have "digits (nat g) = digits (nat g')" using arg_cong [OF e, of ?f] by (simp only: f)
    with e show ?thesis by (simp add: digits_eq_iff)
  qed
  then show ?thesis using g by (auto simp: servername_def Itoa_def)
qed

section \<open>Servers in the network\<close>

text \<open>Under the name of server \<open>i\<close> of group \<open>gid\<close> the network has a server with the service of the \<open>q\<close>-th \<^verbatim>\<open>ShardKV\<close>.\<close>

definition servedAt :: "('t, 'v) shConfig \<Rightarrow> int \<Rightarrow> nat \<Rightarrow> nat \<Rightarrow> bool" where
  "servedAt cfg gid i q \<longleftrightarrow> (\<exists>p svc. rn_servers (sh_net cfg) (servername gid i) = Some p \<and> p < length (rn_objs (sh_net cfg)) \<and>
     rs_services (rn_objs (sh_net cfg) ! p) ''ShardKV'' = Some svc \<and> sv_rcvr svc = AShardKV q)"

text \<open>Opening ends changes neither servers nor anything but the network.\<close>

definition endsOnly :: "('t, 'v) shConfig \<Rightarrow> ('t, 'v) shConfig \<Rightarrow> bool" where
  "endsOnly cfg cfg' \<longleftrightarrow> cfg' = cfg\<lparr>sh_net := sh_net cfg'\<rparr> \<and> rn_servers (sh_net cfg') = rn_servers (sh_net cfg) \<and>
     rn_objs (sh_net cfg') = rn_objs (sh_net cfg)"

lemma endsOnly_refl: "endsOnly cfg cfg"
  by (simp add: endsOnly_def)

lemma endsOnly_trans: "endsOnly a b \<Longrightarrow> endsOnly b c \<Longrightarrow> endsOnly a c"
proof -
  assume ab: "endsOnly a b" and bc: "endsOnly b c"
  have "b = a\<lparr>sh_net := sh_net b\<rparr>" "c = b\<lparr>sh_net := sh_net c\<rparr>" using ab bc by (simp_all add: endsOnly_def)
  then have "c = a\<lparr>sh_net := sh_net c\<rparr>" by (metis shConfig.surjective shConfig.update_convs(1))
  then show ?thesis using ab bc by (simp add: endsOnly_def)
qed

lemma openEnd_endsOnly: "openEnd name srv cfg = Inr cfg' \<Longrightarrow> endsOnly cfg cfg'"
  by (auto simp: openEnd_def endsOnly_def MakeEnd_def Enable_def Connect_def elim!: rbind_InrE split: if_splits)

lemma openEnds_endsOnly: "forR (\<lambda>j. openEnd (a j) (b j)) js cfg = Inr cfg' \<Longrightarrow> endsOnly cfg cfg'"
  by (erule forR_invariant [where P = "endsOnly cfg"]) (auto intro: endsOnly_refl endsOnly_trans openEnd_endsOnly)

lemma ctrlerEnds_endsOnly: "ctrlerEnds rs cfg = Inr cfg' \<Longrightarrow> endsOnly cfg cfg'"
  unfolding ctrlerEnds_def by (rule openEnds_endsOnly)

lemma endsOnlyD:
  assumes "endsOnly cfg cfg'"
  shows "sh_n cfg' = sh_n cfg" "sh_nctrlers cfg' = sh_nctrlers cfg" "sh_ngroups cfg' = sh_ngroups cfg" "sh_groups cfg' = sh_groups cfg"
    "sh_procs cfg' = sh_procs cfg" "servedAt cfg' = servedAt cfg" "sh_mck cfg' = sh_mck cfg"
proof -
  have c: "cfg' = cfg\<lparr>sh_net := sh_net cfg'\<rparr>" using assms by (simp add: endsOnly_def)
  show "sh_n cfg' = sh_n cfg" "sh_nctrlers cfg' = sh_nctrlers cfg" "sh_ngroups cfg' = sh_ngroups cfg" "sh_groups cfg' = sh_groups cfg"
    "sh_procs cfg' = sh_procs cfg" "sh_mck cfg' = sh_mck cfg" by (subst c, simp)+
  show "servedAt cfg' = servedAt cfg" using assms by (simp add: endsOnly_def servedAt_def fun_eq_iff)
qed

section \<open>Groups\<close>

text \<open>The first \<open>m\<close> servers of a group are started.\<close>

definition groupUp :: "nat \<Rightarrow> ('t, 'v) shConfig \<Rightarrow> nat \<Rightarrow> bool" where
  "groupUp m cfg gi \<longleftrightarrow> (\<exists>gg. gi < length (sh_groups cfg) \<and> sh_groups cfg ! gi = Some gg \<and> gg_gid gg = 100 + int gi \<and>
     length (gg_servers gg) = sh_n cfg \<and> length (gg_mendnames gg) = sh_nctrlers cfg \<and>
     (\<forall>i < m. \<exists>q. gg_servers gg ! i = Some q \<and> servedAt cfg (100 + int gi) i q))"

lemma shStartServer_effect:
  assumes "shStartServer ms gi i rs mrs r cfg = Inr cfg'" "groupAt gi cfg = Inr gg"
  obtains gg' q where "sh_groups cfg' = (sh_groups cfg)[gi := Some gg']" "gg_gid gg' = gg_gid gg"
    "gg_servers gg' = (gg_servers gg)[i := Some q]" "length (gg_mendnames gg') = length (gg_mendnames gg)"
    "i < length (gg_mendnames gg)" "servedAt cfg' (gg_gid gg) i q"
    "\<And>x j p. servedAt cfg x j p \<Longrightarrow> servername x j \<noteq> servername (gg_gid gg) i \<Longrightarrow> servedAt cfg' x j p"
    "sh_n cfg' = sh_n cfg" "sh_nctrlers cfg' = sh_nctrlers cfg" "sh_ngroups cfg' = sh_ngroups cfg"
proof -
  obtain c1 c2 ens mens kv where c: "forR (\<lambda>j. openEnd (rs j) (servername (gg_gid gg) j)) [0..<sh_n cfg] cfg = Inr c1"
    "put (gg_mendnames gg) (int i) (Some (map mrs [0..<sh_nctrlers c1])) = Inr mens" "ctrlerEnds mrs c1 = Inr c2"
    and cfg': "cfg' = (let q = length (sh_procs c2);
           srv = AddService (MakeService ''Raft'' (ItsShardRaft q) (ms_raft ms))
                   (AddService (MakeService ''ShardKV'' (AShardKV q) (ms_kv ms)) MakeServer);
           gg = gg\<lparr>gg_endnames := ens, gg_mendnames := mens, gg_saved := (gg_saved gg)[i := Some (InRaft q)],
                   gg_servers := (gg_servers gg)[i := Some q]\<rparr>
       in setGroup gi gg (c2\<lparr>sh_procs := sh_procs c2 @ [kv], sh_net := AddServer (servername (gg_gid gg) i) srv (sh_net c2)\<rparr>))"
    using assms unfolding shStartServer_def by (auto simp: Let_def elim!: rbind_InrE)
  have e: "endsOnly cfg c2" using endsOnly_trans openEnds_endsOnly [OF c(1)] ctrlerEnds_endsOnly [OF c(3)] .
  note d = endsOnlyD [OF e]
  define q srv where "q = length (sh_procs c2)" and "srv = AddService (MakeService ''Raft'' (ItsShardRaft q) (ms_raft ms))
                   (AddService (MakeService ''ShardKV'' (AShardKV q) (ms_kv ms)) MakeServer)"
  have net: "sh_net cfg' = AddServer (servername (gg_gid gg) i) srv (sh_net c2)"
    unfolding cfg' Let_def setGroup_def by (simp add: q_def srv_def)
  have srv: "\<exists>svc. rs_services srv ''ShardKV'' = Some svc \<and> sv_rcvr svc = AShardKV q"
    by (simp add: srv_def AddService_def MakeService_def MakeServer_def)
  have "servedAt cfg' (gg_gid gg) i q" using srv by (simp add: servedAt_def net AddServer_def)
  moreover have "servedAt cfg' x j p" if "servedAt cfg x j p" "servername x j \<noteq> servername (gg_gid gg) i" for x j p
  proof -
    have "servedAt c2 x j p" using that(1) d(6) by simp
    then show ?thesis using that(2) by (fastforce simp: servedAt_def net AddServer_def nth_append)
  qed
  ultimately show thesis
    using that c(2) d by (auto simp: cfg' Let_def setGroup_def q_def put_Inr_iff)
qed

lemma groupUp_other:
  assumes "groupUp m cfg g" "g < length (sh_groups cfg)" "sh_groups cfg' ! g = sh_groups cfg ! g" "length (sh_groups cfg') = length (sh_groups cfg)"
    "sh_n cfg' = sh_n cfg" "sh_nctrlers cfg' = sh_nctrlers cfg" "\<And>i q. servedAt cfg (100 + int g) i q \<Longrightarrow> servedAt cfg' (100 + int g) i q"
  shows "groupUp m cfg' g"
  using assms unfolding groupUp_def by metis

lemma groupUp_groupAt: "groupUp m cfg gi \<Longrightarrow> \<exists>gg. groupAt gi cfg = Inr gg \<and> sh_groups cfg ! gi = Some gg"
  by (auto simp: groupUp_def groupAt_def at_def deref_def)

lemma shStartServer_groupUp:
  assumes st: "shStartServer ms gi i rs mrs r cfg = Inr cfg'" and up: "groupUp i cfg gi" "i < sh_n cfg"
  shows "groupUp (Suc i) cfg' gi" "i < sh_nctrlers cfg" "g \<noteq> gi \<Longrightarrow> groupUp m cfg g \<Longrightarrow> groupUp m cfg' g"
    "sh_n cfg' = sh_n cfg" "sh_nctrlers cfg' = sh_nctrlers cfg" "sh_ngroups cfg' = sh_ngroups cfg" "length (sh_groups cfg') = length (sh_groups cfg)"
proof -
  obtain gg where gg: "groupAt gi cfg = Inr gg" "sh_groups cfg ! gi = Some gg" using groupUp_groupAt [OF up(1)] by blast
  have g: "gi < length (sh_groups cfg)" "gg_gid gg = 100 + int gi" "length (gg_servers gg) = sh_n cfg" "length (gg_mendnames gg) = sh_nctrlers cfg"
    "\<And>k. k < i \<Longrightarrow> \<exists>q. gg_servers gg ! k = Some q \<and> servedAt cfg (100 + int gi) k q"
    using up(1) gg(2) by (auto simp: groupUp_def)
  obtain gg' q where e: "sh_groups cfg' = (sh_groups cfg)[gi := Some gg']" "gg_gid gg' = gg_gid gg"
    "gg_servers gg' = (gg_servers gg)[i := Some q]" "length (gg_mendnames gg') = length (gg_mendnames gg)"
    "i < length (gg_mendnames gg)" "servedAt cfg' (gg_gid gg) i q"
    "\<And>x j p. servedAt cfg x j p \<Longrightarrow> servername x j \<noteq> servername (gg_gid gg) i \<Longrightarrow> servedAt cfg' x j p"
    "sh_n cfg' = sh_n cfg" "sh_nctrlers cfg' = sh_nctrlers cfg" "sh_ngroups cfg' = sh_ngroups cfg"
    using shStartServer_effect [OF st gg(1)] by blast
  have keep: "servedAt cfg' (100 + int x) j p" if "servedAt cfg (100 + int x) j p" "x \<noteq> gi \<or> j \<noteq> i" for x j p
    using e(7) [OF that(1)] that(2) g(2) by (simp add: servername_eq_iff)
  show "i < sh_nctrlers cfg" "sh_n cfg' = sh_n cfg" "sh_nctrlers cfg' = sh_nctrlers cfg" "sh_ngroups cfg' = sh_ngroups cfg"
    "length (sh_groups cfg') = length (sh_groups cfg)" using e g(4) by auto
  have "\<exists>q. gg_servers gg' ! k = Some q \<and> servedAt cfg' (100 + int gi) k q" if "k < Suc i" for k
    using that g(2,3,5) e(3,6) up(2) keep [of gi k] by (cases "k = i") (fastforce simp: less_Suc_eq)+
  then show "groupUp (Suc i) cfg' gi" unfolding groupUp_def using e g by simp
  show "groupUp m cfg' g" if "g \<noteq> gi" "groupUp m cfg g"
  proof (rule groupUp_other [OF that(2)])
    show "g < length (sh_groups cfg)" using that(2) by (auto simp: groupUp_def)
  qed (use e that(1) keep [of g] in auto)
qed

lemma makeGroup_up:
  assumes mk: "makeGroup ms rd gi cfg = Inr cfg'" and gi: "gi < length (sh_groups cfg)" and old: "\<And>g. g < gi \<Longrightarrow> groupUp (sh_n cfg) cfg g"
  shows "\<forall>g \<le> gi. groupUp (sh_n cfg) cfg' g" "sh_n cfg \<le> sh_nctrlers cfg" "sh_n cfg' = sh_n cfg" "sh_nctrlers cfg' = sh_nctrlers cfg"
    "sh_ngroups cfg' = sh_ngroups cfg" "length (sh_groups cfg') = length (sh_groups cfg)"
proof -
  let ?c = "setGroup gi (emptyGroup gi (sh_n cfg) (sh_nctrlers cfg)) cfg"
  let ?f = "\<lambda>i. shStartServer ms gi i (rd_group rd gi i) (rd_mgroup rd gi i) (rd_timeout rd i)"
  have run: "forR ?f [0..<sh_n cfg] ?c = Inr cfg'" using mk by (simp add: makeGroup_def shStartGroup_def setGroup_def)
  have up0: "groupUp 0 ?c gi" using gi by (simp add: groupUp_def setGroup_def emptyGroup_def)
  have old0: "groupUp (sh_n cfg) ?c g" if "g < gi" for g
  proof (rule groupUp_other [OF old [OF that]])
    show "g < length (sh_groups cfg)" using that gi by simp
  qed (use that in \<open>simp_all add: setGroup_def servedAt_def\<close>)
  have "groupUp k c gi \<and> (\<forall>g < gi. groupUp (sh_n cfg) c g) \<and> k \<le> sh_nctrlers cfg \<and> sh_n c = sh_n cfg \<and> sh_nctrlers c = sh_nctrlers cfg \<and>
      sh_ngroups c = sh_ngroups cfg \<and> length (sh_groups c) = length (sh_groups cfg)"
    if "forR ?f [0..<k] ?c = Inr c" "k \<le> sh_n cfg" for k c
    using that
  proof (induction k arbitrary: c)
    case 0
    then have "c = ?c" by simp
    moreover have "sh_n ?c = sh_n cfg" "sh_nctrlers ?c = sh_nctrlers cfg" "sh_ngroups ?c = sh_ngroups cfg"
      "length (sh_groups ?c) = length (sh_groups cfg)" by (simp_all add: setGroup_def)
    ultimately show ?case using up0 old0 by blast
  next
    case (Suc k)
    obtain c1 where c1: "forR ?f [0..<k] ?c = Inr c1" "?f k c1 = Inr c"
      using Suc.prems(1) by (auto simp: forR_append elim!: rbind_InrE)
    have ih: "groupUp k c1 gi" "\<forall>g < gi. groupUp (sh_n cfg) c1 g" "sh_n c1 = sh_n cfg" "sh_nctrlers c1 = sh_nctrlers cfg"
      "sh_ngroups c1 = sh_ngroups cfg" "length (sh_groups c1) = length (sh_groups cfg)"
      using Suc.IH [OF c1(1)] Suc.prems(2) by simp_all
    have "k < sh_n c1" using Suc.prems(2) ih(3) by simp
    note f = shStartServer_groupUp [OF c1(2) ih(1) this]
    have "groupUp (sh_n cfg) c g" if "g < gi" for g using f(3) [of g] ih(2) that by blast
    with f(1,2,4-7) ih(3-6) show ?case by simp
  qed
  note res = this [OF run order_refl]
  then show "\<forall>g \<le> gi. groupUp (sh_n cfg) cfg' g" by (simp add: le_less)
  show "sh_n cfg \<le> sh_nctrlers cfg" "sh_n cfg' = sh_n cfg" "sh_nctrlers cfg' = sh_nctrlers cfg" "sh_ngroups cfg' = sh_ngroups cfg"
    "length (sh_groups cfg') = length (sh_groups cfg)" using res by simp_all
qed

lemma StartCtrlerserver_frame:
  assumes "StartCtrlerserver ms i rs r cfg = Inr cfg'"
  shows "sh_n cfg' = sh_n cfg \<and> sh_nctrlers cfg' = sh_nctrlers cfg \<and> sh_ngroups cfg' = sh_ngroups cfg \<and> sh_groups cfg' = sh_groups cfg"
proof -
  obtain c1 where c1: "ctrlerEnds rs cfg = Inr c1" using assms by (auto simp: StartCtrlerserver_def elim!: rbind_InrE)
  have "sh_n cfg' = sh_n c1 \<and> sh_nctrlers cfg' = sh_nctrlers c1 \<and> sh_ngroups cfg' = sh_ngroups c1 \<and> sh_groups cfg' = sh_groups c1"
    using assms c1 by (auto simp: StartCtrlerserver_def Let_def elim!: rbind_InrE)
  then show ?thesis using endsOnlyD(1-4) [OF ctrlerEnds_endsOnly [OF c1]] by simp
qed

lemma shMakeConfig_up:
  assumes "shMakeConfig ms n unreliable maxraftstate rd = Inr cfg"
  shows "\<forall>gi < 3. groupUp n cfg gi" "n \<le> 3" "sh_n cfg = n" "sh_nctrlers cfg = 3"
proof -
  let ?P = "\<lambda>c. sh_n c = n \<and> sh_nctrlers c = 3 \<and> sh_ngroups c = 3 \<and> length (sh_groups c) = 3"
  obtain c1 c2 mck c3 where c: "forR (\<lambda>i. StartCtrlerserver ms i (rd_ctrler rd i) (rd_timeout rd i)) [0..<3] (shEmpty n maxraftstate) = Inr c1"
    "shardclerk (rd_cid rd) (rd_clerk rd) c1 = Inr (c2, mck)" "forR (makeGroup ms rd) [0..<sh_ngroups c2] (c2\<lparr>sh_mck := Some mck\<rparr>) = Inr c3"
    "cfg = c3\<lparr>sh_net := Reliable (\<not> unreliable) (sh_net c3)\<rparr>"
    using assms unfolding shMakeConfig_def Let_def by (auto simp: shEmpty_def elim!: rbind_InrE)
  have "?P c1"
    by (rule forR_invariant [OF c(1)]) (auto simp: shEmpty_def dest!: StartCtrlerserver_frame)
  moreover have "ctrlerEnds (rd_clerk rd) c1 = Inr c2" using c(2) by (auto simp: shardclerk_def elim!: rbind_InrE)
  note e = endsOnlyD(1-4) [OF ctrlerEnds_endsOnly [OF this]]
  ultimately have p2: "?P (c2\<lparr>sh_mck := Some mck\<rparr>)" using e by simp
  have run: "forR (makeGroup ms rd) [0..<3] (c2\<lparr>sh_mck := Some mck\<rparr>) = Inr c3" using c(3) p2 by simp
  have "?P c \<and> (\<forall>g < k. groupUp n c g) \<and> (0 < k \<longrightarrow> n \<le> 3)"
    if "forR (makeGroup ms rd) [0..<k] (c2\<lparr>sh_mck := Some mck\<rparr>) = Inr c" "k \<le> 3" for k c
    using that
  proof (induction k arbitrary: c)
    case (Suc k)
    obtain c1 where c1: "forR (makeGroup ms rd) [0..<k] (c2\<lparr>sh_mck := Some mck\<rparr>) = Inr c1" "makeGroup ms rd k c1 = Inr c"
      using Suc.prems(1) by (auto simp: forR_append elim!: rbind_InrE)
    have ih: "?P c1" "\<forall>g < k. groupUp n c1 g" using Suc.IH [OF c1(1)] Suc.prems(2) by simp_all
    have k: "k < length (sh_groups c1)" using ih(1) Suc.prems(2) by simp
    note f = makeGroup_up [OF c1(2) k]
    have "\<And>g. g < k \<Longrightarrow> groupUp (sh_n c1) c1 g" using ih by simp
    note f = f [OF this]
    show ?case using f ih(1) by (simp add: less_Suc_eq_le)
  qed (use p2 in simp)
  from this [OF run order_refl] have c3: "?P c3" "\<forall>g < 3. groupUp n c3 g" "n \<le> 3" by auto
  then show "n \<le> 3" "sh_n cfg = n" "sh_nctrlers cfg = 3" by (auto simp: c(4))
  have "servedAt cfg = servedAt c3" by (simp add: c(4) servedAt_def Reliable_def fun_eq_iff)
  then show "\<forall>gi < 3. groupUp n cfg gi" using c3 unfolding groupUp_def by (simp add: c(4))
qed

lemma joinGroups_names:
  assumes "\<And>g. g \<in> set gis \<Longrightarrow> \<exists>gg. groupAt g cfg = Inr gg \<and> gg_gid gg = 100 + int g"
  shows "\<exists>m'. forR (\<lambda>g m. rbind (groupAt g cfg) (\<lambda>gg. Inr (AList.update (gg_gid gg) (map (servername (gg_gid gg)) [0..<sh_n cfg]) m))) gis m = Inr m' \<and>
    (\<forall>k. map_of m' k = (if k \<in> (\<lambda>g. 100 + int g) ` set gis then Some (map (servername k) [0..<sh_n cfg]) else map_of m k))"
  using assms
proof (induction gis arbitrary: m)
  case (Cons g gis)
  obtain gg where gg: "groupAt g cfg = Inr gg" "gg_gid gg = 100 + int g" using Cons.prems by auto
  let ?m = "AList.update (100 + int g) (map (servername (100 + int g)) [0..<sh_n cfg]) m"
  obtain m' where m': "forR (\<lambda>g m. rbind (groupAt g cfg) (\<lambda>gg. Inr (AList.update (gg_gid gg) (map (servername (gg_gid gg)) [0..<sh_n cfg]) m))) gis ?m = Inr m'"
    "\<forall>k. map_of m' k = (if k \<in> (\<lambda>g. 100 + int g) ` set gis then Some (map (servername k) [0..<sh_n cfg]) else map_of ?m k)"
    using Cons.IH [of ?m] Cons.prems by auto
  show ?case using gg m' by (intro exI [of _ m']) (auto simp: update_conv)
qed simp

section \<open>The tester starts\<close>

text \<open>The names a configuration draws, in the order it draws them.\<close>

definition drawnNames :: "randoms \<Rightarrow> nat \<Rightarrow> string list" where
  "drawnNames rd n = concat (map (\<lambda>i. map (rd_ctrler rd i) [0..<3]) [0..<3]) @ map (rd_clerk rd) [0..<3] @
     concat (map (\<lambda>gi. concat (map (\<lambda>i. map (rd_group rd gi i) [0..<n] @ map (rd_mgroup rd gi i) [0..<3]) [0..<n])) [0..<3])"

text \<open>A step that draws the names \<open>ns\<close>, all of them new.\<close>

definition draws :: "string list \<Rightarrow> ('t, 'v) shConfig \<Rightarrow> ('t, 'v) shConfig \<Rightarrow> bool" where
  "draws ns cfg cfg' \<longleftrightarrow> rn_ends (sh_net cfg') = rn_ends (sh_net cfg) \<union> set ns"

definition unused :: "string list \<Rightarrow> ('t, 'v) shConfig \<Rightarrow> bool" where
  "unused ns cfg \<longleftrightarrow> distinct ns \<and> set ns \<inter> rn_ends (sh_net cfg) = {}"

lemma unused_front: "unused (xs @ ys) cfg \<Longrightarrow> unused xs cfg"
  by (auto simp: unused_def)

lemma unused_append: "unused (xs @ ys) cfg \<Longrightarrow> draws xs cfg cfg' \<Longrightarrow> unused xs cfg \<and> unused ys cfg'"
  by (auto simp: unused_def draws_def)

lemma draws_append: "draws xs a b \<Longrightarrow> draws ys b c \<Longrightarrow> draws (xs @ ys) a c"
  by (auto simp: draws_def)

lemma forR_draws:
  assumes "\<And>k c. k < m \<Longrightarrow> P k c \<Longrightarrow> unused (N k) c \<Longrightarrow> \<exists>c'. f k c = Inr c' \<and> P (Suc k) c' \<and> draws (N k) c c'"
    and "P 0 cfg" "unused (concat (map N [0..<m])) cfg"
  shows "\<exists>cfg'. forR f [0..<m] cfg = Inr cfg' \<and> P m cfg' \<and> draws (concat (map N [0..<m])) cfg cfg'"
  using assms
proof (induction m)
  case 0
  then show ?case by (simp add: draws_def)
next
  case (Suc m)
  have "unused (concat (map N [0..<m]) @ N m) cfg" using Suc.prems(3) by simp
  note un = unused_front [OF this]
  obtain c1 where c1: "forR f [0..<m] cfg = Inr c1" "P m c1" "draws (concat (map N [0..<m])) cfg c1"
    using Suc.IH [OF _ Suc.prems(2) un] Suc.prems(1) less_SucI by metis
  have "unused (N m) c1" using unused_append [OF _ c1(3), of "N m"] Suc.prems(3) by simp
  with Suc.prems(1) [of m c1] c1(2) obtain c2 where "f m c1 = Inr c2" "P (Suc m) c2" "draws (N m) c1 c2" by auto
  with c1 draws_append [OF c1(3), of "N m" c2] show ?case by (auto simp: forR_append)
qed

lemma openEnds_draws:
  assumes "unused (map a [0..<m]) cfg"
  shows "\<exists>cfg'. forR (\<lambda>j. openEnd (a j) (b j)) [0..<m] cfg = Inr cfg' \<and> endsOnly cfg cfg' \<and> draws (map a [0..<m]) cfg cfg'"
proof -
  have e: "concat (map (\<lambda>j. [a j]) [0..<m]) = map a [0..<m]" by (induction m) auto
  have "\<exists>c'. openEnd (a k) (b k) c = Inr c' \<and> draws [a k] c c'" if "unused [a k] c" for k and c :: "('a, 'b) shConfig"
    using that by (auto simp: openEnd_def MakeEnd_def unused_def draws_def Enable_def Connect_def)
  then obtain cfg' where "forR (\<lambda>j. openEnd (a j) (b j)) [0..<m] cfg = Inr cfg'" "draws (map a [0..<m]) cfg cfg'"
    using forR_draws [where P = "\<lambda>_ _. True" and N = "\<lambda>j. [a j]" and f = "\<lambda>j. openEnd (a j) (b j)" and cfg = cfg and m = m] assms
    unfolding e by blast
  then show ?thesis using openEnds_endsOnly by blast
qed

lemma ctrlerEnds_draws:
  "unused (map rs [0..<sh_nctrlers cfg]) cfg \<Longrightarrow> \<exists>cfg'. ctrlerEnds rs cfg = Inr cfg' \<and> endsOnly cfg cfg' \<and> draws (map rs [0..<sh_nctrlers cfg]) cfg cfg'"
  unfolding ctrlerEnds_def by (rule openEnds_draws)

definition sizesOk :: "nat \<Rightarrow> ('t, 'v) shConfig \<Rightarrow> bool" where
  "sizesOk n cfg \<longleftrightarrow> sh_n cfg = n \<and> sh_nctrlers cfg = 3 \<and> sh_ngroups cfg = 3 \<and> length (sh_groups cfg) = 3 \<and> length (sh_ctrlerservers cfg) = 3"

lemma sizesOk_ends: "sizesOk n cfg \<Longrightarrow> endsOnly cfg cfg' \<Longrightarrow> sizesOk n cfg'"
  unfolding endsOnly_def sizesOk_def by (metis shConfig.select_convs shConfig.surjective shConfig.update_convs(1))

lemma StartCtrlerserver_draws:
  assumes "sizesOk n cfg" "i < 3" "unused (map rs [0..<3]) cfg"
  shows "\<exists>cfg'. StartCtrlerserver ms i rs r cfg = Inr cfg' \<and> sizesOk n cfg' \<and> draws (map rs [0..<3]) cfg cfg'"
proof -
  obtain c1 where c1: "ctrlerEnds rs cfg = Inr c1" "endsOnly cfg c1" "draws (map rs [0..<3]) cfg c1"
    using ctrlerEnds_draws [of rs cfg] assms by (auto simp: sizesOk_def)
  note ok = sizesOk_ends [OF assms(1) c1(2)]
  then show ?thesis
    using c1(1,3) assms(2) by (auto simp: StartCtrlerserver_def StartServer_def Make_fresh Let_def sizesOk_def draws_def AddServer_def put_def)
qed

text \<open>A group of which the first \<open>k\<close> servers are started.\<close>

definition groupFrom :: "nat \<Rightarrow> nat \<Rightarrow> nat \<Rightarrow> ('t, 'v) shConfig \<Rightarrow> bool" where
  "groupFrom n gi k cfg \<longleftrightarrow> sizesOk n cfg \<and> (\<exists>gg. groupAt gi cfg = Inr gg \<and> length (gg_endnames gg) = n \<and> length (gg_mendnames gg) = 3 \<and>
     length (gg_saved gg) = n \<and> (\<forall>i. k \<le> i \<longrightarrow> i < n \<longrightarrow> gg_saved gg ! i = None))"

lemma shStartServer_draws:
  assumes g: "groupFrom n gi i cfg" and i: "i < n" "n \<le> 3" and un: "unused (map rs [0..<n] @ map mrs [0..<3]) cfg"
  shows "\<exists>cfg'. shStartServer ms gi i rs mrs r cfg = Inr cfg' \<and> groupFrom n gi (Suc i) cfg' \<and> draws (map rs [0..<n] @ map mrs [0..<3]) cfg cfg'"
proof -
  obtain gg where gg: "groupAt gi cfg = Inr gg" "length (gg_endnames gg) = n" "length (gg_mendnames gg) = 3" "length (gg_saved gg) = n"
    "\<forall>k. i \<le> k \<longrightarrow> k < n \<longrightarrow> gg_saved gg ! k = None" and ok: "sizesOk n cfg"
    using g by (auto simp: groupFrom_def)
  have gi: "gi < 3" using gg(1) ok by (auto simp: groupAt_def sizesOk_def at_Inr_iff elim!: rbind_InrE)
  obtain c1 where c1: "forR (\<lambda>j. openEnd (rs j) (servername (gg_gid gg) j)) [0..<n] cfg = Inr c1" "endsOnly cfg c1" "draws (map rs [0..<n]) cfg c1"
    using openEnds_draws [OF unused_front [OF un]] by blast
  note ok1 = sizesOk_ends [OF ok c1(2)]
  have n3: "sh_nctrlers c1 = 3" using ok1 by (simp add: sizesOk_def)
  obtain c2 where c2: "ctrlerEnds mrs c1 = Inr c2" "endsOnly c1 c2" "draws (map mrs [0..<3]) c1 c2"
    using ctrlerEnds_draws [of mrs c1] unused_append [OF un c1(3)] n3 by auto
  note ok2 = sizesOk_ends [OF ok1 c2(2)]
  have fl: "sh_n cfg = n" "sh_n c2 = n" "sh_nctrlers c2 = 3" "length (sh_groups c2) = 3" using ok ok2 by (auto simp: sizesOk_def)
  have saved: "groupSaved gg i c2 = Inr None" using gg(4,5) i by (simp add: groupSaved_def at_def)
  obtain gg' kv net where run: "shStartServer ms gi i rs mrs r cfg = Inr (setGroup gi gg' (c2\<lparr>sh_procs := sh_procs c2 @ [kv], sh_net := net\<rparr>))"
    and gg': "length (gg_endnames gg') = n" "length (gg_mendnames gg') = 3" "gg_saved gg' = (gg_saved gg)[i := Some (InRaft (length (sh_procs c2)))]"
    and net: "rn_ends net = rn_ends (sh_net c2)"
    using gg i c1(1) c2(1) n3 fl saved
    by (simp add: shStartServer_def skStartServer_def Make_fresh Let_def AddServer_def)
  let ?c = "setGroup gi gg' (c2\<lparr>sh_procs := sh_procs c2 @ [kv], sh_net := net\<rparr>)"
  have "groupAt gi ?c = Inr gg'" using gi fl(4) by (simp add: groupAt_def setGroup_def at_def deref_def)
  moreover have "sizesOk n ?c" using ok2 by (simp add: sizesOk_def setGroup_def)
  ultimately have "groupFrom n gi (Suc i) ?c" using gg' gg(4,5) by (auto simp: groupFrom_def nth_list_update)
  moreover have "draws (map rs [0..<n] @ map mrs [0..<3]) cfg ?c" using draws_append [OF c1(3) c2(3)] net by (simp add: draws_def setGroup_def)
  ultimately show ?thesis using run by blast
qed

lemma makeGroup_draws:
  assumes "sizesOk n cfg" "gi < 3" "n \<le> 3"
    "unused (concat (map (\<lambda>i. map (rd_group rd gi i) [0..<n] @ map (rd_mgroup rd gi i) [0..<3]) [0..<n])) cfg"
  shows "\<exists>cfg'. makeGroup ms rd gi cfg = Inr cfg' \<and> sizesOk n cfg' \<and>
    draws (concat (map (\<lambda>i. map (rd_group rd gi i) [0..<n] @ map (rd_mgroup rd gi i) [0..<3]) [0..<n])) cfg cfg'"
proof -
  let ?N = "\<lambda>i. map (rd_group rd gi i) [0..<n] @ map (rd_mgroup rd gi i) [0..<3]"
  let ?c = "setGroup gi (emptyGroup gi n 3) cfg" and ?f = "\<lambda>i. shStartServer ms gi i (rd_group rd gi i) (rd_mgroup rd gi i) (rd_timeout rd i)"
  have "groupFrom n gi 0 ?c" using assms(1,2) by (simp add: groupFrom_def sizesOk_def setGroup_def emptyGroup_def groupAt_def at_def deref_def)
  moreover have "unused (concat (map ?N [0..<n])) ?c" using assms(4) by (simp add: unused_def setGroup_def)
  ultimately obtain c' where c': "forR ?f [0..<n] ?c = Inr c'" "groupFrom n gi n c'" "draws (concat (map ?N [0..<n])) ?c c'"
    using forR_draws [where P = "groupFrom n gi" and N = ?N and f = ?f and m = n and cfg = ?c] shStartServer_draws assms(3) by blast
  moreover have "makeGroup ms rd gi cfg = forR ?f [0..<n] ?c"
    using assms(1) by (simp add: makeGroup_def shStartGroup_def sizesOk_def setGroup_def)
  ultimately show ?thesis by (auto simp: groupFrom_def draws_def setGroup_def)
qed

lemma shMakeConfig_starts:
  assumes "n \<le> 3" "distinct (drawnNames rd n)"
  shows "\<exists>cfg. shMakeConfig ms n unreliable maxraftstate rd = Inr cfg"
proof -
  let ?A = "\<lambda>i. map (rd_ctrler rd i) [0..<3]" and ?B = "map (rd_clerk rd) [0..<3]"
  let ?C = "\<lambda>gi. concat (map (\<lambda>i. map (rd_group rd gi i) [0..<n] @ map (rd_mgroup rd gi i) [0..<3]) [0..<n])"
  let ?f = "\<lambda>i. StartCtrlerserver ms i (rd_ctrler rd i) (rd_timeout rd i)"
  define c0 where "c0 = (shEmpty n maxraftstate :: ('a, 'b) shConfig)"
  have un0: "unused (concat (map ?A [0..<3]) @ ?B @ concat (map ?C [0..<3])) c0" using assms(2) by (simp only: drawnNames_def unused_def c0_def) (simp add: shEmpty_def MakeNetwork_def)
  have ok0: "sizesOk n c0" by (simp add: c0_def sizesOk_def shEmpty_def)
  obtain c1 where c1: "forR ?f [0..<3] c0 = Inr c1" "sizesOk n c1" "draws (concat (map ?A [0..<3])) c0 c1"
    using forR_draws [where P = "\<lambda>_. sizesOk n" and N = ?A and f = ?f and m = 3, OF StartCtrlerserver_draws ok0 unused_front [OF un0]] by blast
  have un1: "unused (?B @ concat (map ?C [0..<3])) c1" using unused_append [OF un0 c1(3)] by simp
  have n1: "sh_nctrlers c1 = 3" using c1(2) by (simp add: sizesOk_def)
  obtain c2 where c2: "ctrlerEnds (rd_clerk rd) c1 = Inr c2" "endsOnly c1 c2" "draws ?B c1 c2" 
    using ctrlerEnds_draws [of "rd_clerk rd" c1] unused_front [OF un1] n1 by auto
  define c3 where "c3 = c2\<lparr>sh_mck := Some (scMakeClerk 3 (rd_cid rd))\<rparr>"
  have ok3: "sizesOk n c3" using sizesOk_ends [OF c1(2) c2(2)] by (simp add: c3_def sizesOk_def)
  have "unused (concat (map ?C [0..<3])) c3" using unused_append [OF un1 c2(3)] by (simp add: c3_def unused_def)
  then obtain c4 where c4: "forR (makeGroup ms rd) [0..<3] c3 = Inr c4"
    using forR_draws [where P = "\<lambda>_. sizesOk n" and N = ?C and f = "makeGroup ms rd" and m = 3, OF makeGroup_draws ok3] assms(1) by blast
  have "sh_nctrlers c0 = 3" "sh_ngroups c2 = 3" "sh_nctrlers c2 = 3" using ok0 ok3 by (auto simp: sizesOk_def c3_def)
  then show ?thesis using c1(1) c2(1) c4 by (simp add: shMakeConfig_def Let_def shardclerk_def flip: c0_def c3_def)
qed
text \<open>
  C20. \<^verbatim>\<open>make_config\<close> and \<^verbatim>\<open>joinm\<close> of \<^verbatim>\<open>raft-db-sharded/config.go\<close>: with groups of at most three servers and random
  names that do not repeat, \<^verbatim>\<open>make_config\<close> returns; whatever groups are then joined, the configuration
  that is sent to the controllers gives each of them one name for each of its servers, and under this name
  the network has the service of exactly that server of that group; names of different servers differ.
\<close>

theorem sharded_join_names:
  assumes "n \<le> 3" "distinct (drawnNames rd n)" "set gis \<subseteq> {..<3}"
  shows "\<exists>cfg m. shMakeConfig ms n unreliable maxraftstate rd = Inr cfg \<and> joinGroups gis cfg = Inr m \<and>
    map_of m = (\<lambda>k. if k \<in> (\<lambda>g. 100 + int g) ` set gis then Some (map (servername k) [0..<n]) else None) \<and>
    (\<forall>g \<in> set gis. \<exists>gg. sh_groups cfg ! g = Some gg \<and> (\<forall>i < n. \<exists>q p svc. gg_servers gg ! i = Some q \<and>
       rn_servers (sh_net cfg) (servername (100 + int g) i) = Some p \<and>
       rs_services (rn_objs (sh_net cfg) ! p) ''ShardKV'' = Some svc \<and> sv_rcvr svc = AShardKV q)) \<and>
    (\<forall>g g' i i'. servername (100 + int g) i = servername (100 + int g') i' \<longrightarrow> g = g' \<and> i = i')"
proof -
  obtain cfg where cfg: "shMakeConfig ms n unreliable maxraftstate rd = Inr cfg" using shMakeConfig_starts [OF assms(1,2)] by blast
  note up = shMakeConfig_up [OF cfg]
  have g: "\<exists>gg. groupAt g cfg = Inr gg \<and> sh_groups cfg ! g = Some gg \<and> gg_gid gg = 100 + int g \<and>
      (\<forall>i < n. \<exists>q. gg_servers gg ! i = Some q \<and> servedAt cfg (100 + int g) i q)" if "g \<in> set gis" for g
  proof -
    have u: "groupUp n cfg g" using up(1) assms(3) that by auto
    from groupUp_groupAt [OF u] u show ?thesis by (auto simp: groupUp_def)
  qed
  have "\<And>g. g \<in> set gis \<Longrightarrow> \<exists>gg. groupAt g cfg = Inr gg \<and> gg_gid gg = 100 + int g" using g by blast
  from joinGroups_names [OF this, of gis "[]"] obtain m where "joinGroups gis cfg = Inr m"
    "map_of m = (\<lambda>k. if k \<in> (\<lambda>g. 100 + int g) ` set gis then Some (map (servername k) [0..<n]) else None)"
    unfolding joinGroups_def up(3) by fastforce
  moreover have "\<exists>gg. sh_groups cfg ! g = Some gg \<and> (\<forall>i < n. \<exists>q p svc. gg_servers gg ! i = Some q \<and>
       rn_servers (sh_net cfg) (servername (100 + int g) i) = Some p \<and>
       rs_services (rn_objs (sh_net cfg) ! p) ''ShardKV'' = Some svc \<and> sv_rcvr svc = AShardKV q)" if "g \<in> set gis" for g
    using g [OF that] unfolding servedAt_def by blast
  ultimately show ?thesis using cfg by (auto simp: servername_eq_iff)
qed

text \<open>Groups of one server.\<close>

definition pick :: "nat \<Rightarrow> char" where
  "pick k = (if k = 0 then CHR ''0'' else if k = 1 then CHR ''1'' else CHR ''2'')"

definition demoRandoms :: randoms where
  "demoRandoms = \<lparr>rd_ctrler = (\<lambda>i j. [CHR ''a'', pick i, pick j]), rd_clerk = (\<lambda>j. [CHR ''b'', pick j]),
     rd_group = (\<lambda>gi i j. [CHR ''c'', pick gi, pick i, pick j]), rd_mgroup = (\<lambda>gi i j. [CHR ''d'', pick gi, pick i, pick j]),
     rd_timeout = (\<lambda>_. 0), rd_cid = 7\<rparr>"

lemma demo_distinct: "distinct (drawnNames demoRandoms 1)"
  by (simp add: drawnNames_def demoRandoms_def pick_def upt_conv_Cons numeral_eq_Suc)

theorem sharded_join_names_witness:
  "\<exists>cfg m. shMakeConfig \<lparr>ms_kv = [], ms_ctrler = [], ms_raft = []\<rparr> 1 False (-1) demoRandoms = Inr (cfg :: (unit, unit) shConfig) \<and>
     joinGroups [0, 2] cfg = Inr m \<and> map_of m 102 = Some [''server-102-0''] \<and> map_of m 101 = None"
proof -
  have "servername 102 0 = ''server-102-0''" by code_simp
  with sharded_join_names [OF _ demo_distinct, of "[0, 2]" "\<lparr>ms_kv = [], ms_ctrler = [], ms_raft = []\<rparr> :: (unit, unit) methods" False "-1"]
  show ?thesis by auto
qed

section \<open>Groups of three\<close>

lemma shMakeClient_small:
  assumes "sh_n cfg < sh_nctrlers cfg"
  shows "\<exists>e. shMakeClient rnd rs cfg = Inl e"
proof -
  let ?f = "\<lambda>j (endnames, cfg). rbind (put endnames (int j) (rs j)) (\<lambda>endnames.
              rbind (openEnd (rs j) (ctrlername j) cfg) (\<lambda>cfg. Inr (endnames, cfg)))"
  have "length es = sh_n cfg \<and> k \<le> sh_n cfg" if "forR ?f [0..<k] (replicate (sh_n cfg) '''', cfg) = Inr (es, c)" for k es c
    using that
  proof (induction k arbitrary: es c)
    case (Suc k)
    obtain es1 c1 where c1: "forR ?f [0..<k] (replicate (sh_n cfg) '''', cfg) = Inr (es1, c1)" "?f k (es1, c1) = Inr (es, c)"
      using Suc.prems by (auto simp: forR_append elim!: rbind_InrE)
    from Suc.IH [OF c1(1)] c1(2) show ?case by (auto simp: put_Inr_iff elim!: rbind_InrE)
  qed simp
  then have "\<nexists>s. forR ?f [0..<sh_nctrlers cfg] (replicate (sh_n cfg) '''', cfg) = Inr s" using assms by fastforce
  then show ?thesis by (cases "forR ?f [0..<sh_nctrlers cfg] (replicate (sh_n cfg) '''', cfg)") (auto simp: shMakeClient_def)
qed

text \<open>
  C21. The tester mixes up the number of servers of a group and the number of controllers: \<^verbatim>\<open>mendnames\<close> has
  one entry for each controller and is indexed by server, \<^verbatim>\<open>endnames\<close> of a client has one entry for each
  server and is indexed by controller. So with groups of any size but three, either \<^verbatim>\<open>make_config\<close> or
  every \<^verbatim>\<open>makeClient\<close> panics.
\<close>

theorem sharded_tester_three:
  assumes "n \<noteq> 3"
  shows "(\<exists>e. shMakeConfig ms n unreliable maxraftstate rd = Inl e) \<or>
    (\<exists>cfg. shMakeConfig ms n unreliable maxraftstate rd = Inr cfg \<and> (\<forall>rnd rs. \<exists>e. shMakeClient rnd rs cfg = Inl e))"
proof (cases "shMakeConfig ms n unreliable maxraftstate rd")
  case (Inr cfg)
  with shMakeConfig_up [OF Inr] assms shMakeClient_small [of cfg] show ?thesis by auto
qed auto

theorem sharded_tester_three_witness:
  "\<exists>cfg e. shMakeConfig \<lparr>ms_kv = [], ms_ctrler = [], ms_raft = []\<rparr> 1 False (-1) demoRandoms = Inr (cfg :: (unit, unit) shConfig) \<and>
     shMakeClient 0 (\<lambda>j. [CHR ''e'', pick j]) cfg = Inl e"
proof -
  let ?ms = "\<lparr>ms_kv = [], ms_ctrler = [], ms_raft = []\<rparr> :: (unit, unit) methods"
  obtain cfg where c: "shMakeConfig ?ms 1 False (-1) demoRandoms = Inr cfg" 
    using shMakeConfig_starts [OF _ demo_distinct, of ?ms] by auto
  then show ?thesis using sharded_tester_three [of 1 ?ms False "-1" demoRandoms] by auto
qed

end
