(* ===== verification/Visualization.thy ===== *)
theory Visualization
  imports Porcupine Go_Text "HOL-Library.AList" "HOL-Library.List_Lexorder" "HOL-Library.Char_ord"
begin

text \<open>
  The Go part of \<^verbatim>\<open>porcupine/visualization.go\<close>: what a check found, the history and the partial
  linearizations of every partition, as data for the page a person looks at, its JSON text, and the
  writing of the page. The page itself, a constant text with a hole for the data, is an argument
  (\<open>html\<close>), and so are the file system and the writer. How \<^verbatim>\<open>%v\<close> prints a value of the model is an argument too
  (\<open>fmtV\<close>, \<open>fmtS\<close>). \<^verbatim>\<open>sort.Slice\<close> sorts the sequences in place, which nobody reads afterwards; its order of
  equal elements is open, so the sorting function is an argument.
\<close>

section \<open>Descriptions (model.go, checker.go)\<close>

record ('v, 's) VisualModel = "('v, 's) Model" +
  mDescribeOperation :: "('v iface \<Rightarrow> 'v iface \<Rightarrow> string res) option"
  mDescribeState :: "('s \<Rightarrow> string) option"

definition DefaultDescribeOperation :: "('v iface \<Rightarrow> string) \<Rightarrow> 'v iface \<Rightarrow> 'v iface \<Rightarrow> string res" where
  "DefaultDescribeOperation fmtV input output = Inr (fmtV input @ '' -> '' @ fmtV output)"

definition DefaultDescribeState :: "('s \<Rightarrow> string) \<Rightarrow> 's \<Rightarrow> string" where
  "DefaultDescribeState fmtS state = fmtS state"

text \<open>\<^verbatim>\<open>fillDefault\<close> with the descriptions.\<close>

definition fillDescribed ::
    "('v iface \<Rightarrow> string) \<Rightarrow> ('s \<Rightarrow> string) \<Rightarrow> ('v, 's) VisualModel \<Rightarrow> ('v, 's) VisualModel" where
  "fillDescribed fmtV fmtS model0 =
     (let m = fillDefault model0;
          m1 = (if mDescribeOperation m = None then m\<lparr>mDescribeOperation := Some (DefaultDescribeOperation fmtV)\<rparr> else m)
      in if mDescribeState m1 = None then m1\<lparr>mDescribeState := Some (DefaultDescribeState fmtS)\<rparr> else m1)"

section \<open>The data\<close>

record historyElement =
  heClientId :: int
  heStart :: int
  heEnd :: int
  heDescription :: string

record linearizationStep =
  lsIndex :: int
  lsStateDescription :: string

record partitionVisualizationData =
  pvHistory :: "historyElement list"
  pvPartialLinearizations :: "linearizationStep list list"
  pvLargest :: "(int \<times> int) list"

text \<open>A map that Go reads with a default is a function; an entry of \<^verbatim>\<open>callValue\<close> that is missing reads as nil.\<close>

type_synonym 'v elements = "historyElement list \<times> (int \<Rightarrow> 'v iface) \<times> (int \<Rightarrow> 'v iface)"

definition recordEntry :: "('v, 's) VisualModel \<Rightarrow> 'v entry \<Rightarrow> 'v elements \<Rightarrow> 'v elements res" where
  "recordEntry model elem s =
     (case s of (history, callValue, returnValue) \<Rightarrow>
        rbind (at history (enId elem)) (\<lambda>he.
          case enKind elem of
            callEntry \<Rightarrow>
              rbind (put history (enId elem) (he\<lparr>heClientId := enClientId elem, heStart := enTime elem\<rparr>)) (\<lambda>history.
                Inr (history, callValue(enId elem := enValue elem), returnValue))
          | returnEntry \<Rightarrow>
              rbind (the (mDescribeOperation model) (callValue (enId elem)) (enValue elem)) (\<lambda>text.
              rbind (put history (enId elem) (he\<lparr>heEnd := enTime elem, heDescription := text\<rparr>)) (\<lambda>history.
                Inr (history, callValue, returnValue(enId elem := enValue elem))))))"

definition noElement :: historyElement where
  "noElement = \<lparr>heClientId = 0, heStart = 0, heEnd = 0, heDescription = ''''\<rparr>"

definition historyElements :: "('v, 's) VisualModel \<Rightarrow> 'v entry list \<Rightarrow> 'v elements res" where
  "historyElements model entries =
     forR (recordEntry model) entries (replicate (length entries div 2) noElement, \<lambda>_. None, \<lambda>_. None)"

text \<open>The maps \<^verbatim>\<open>largestIndex\<close> and \<^verbatim>\<open>largestSize\<close>, the second read with the default 0.\<close>

type_synonym largest_maps = "(int \<times> int) list \<times> (int \<Rightarrow> nat)"

definition replayStep ::
    "('v, 's) VisualModel \<Rightarrow> (int \<Rightarrow> 'v iface) \<Rightarrow> (int \<Rightarrow> 'v iface) \<Rightarrow> int \<Rightarrow> nat \<Rightarrow> int \<Rightarrow>
     's \<times> linearizationStep list \<times> largest_maps \<Rightarrow> ('s \<times> linearizationStep list \<times> largest_maps) res" where
  "replayStep model callValue returnValue i len histId s =
     (case s of (state, linearization, largestIndex, largestSize) \<Rightarrow>
        rbind (mStep model state (callValue histId) (returnValue histId)) (\<lambda>(ok, state).
          if \<not> ok then Inl (Panic ''valid partial linearization returned non-ok result from model step'')
          else
            let step = \<lparr>lsIndex = histId, lsStateDescription = the (mDescribeState model) state\<rparr>
            in if largestSize histId < len
               then Inr (state, linearization @ [step], AList.update histId i largestIndex, largestSize(histId := len))
               else Inr (state, linearization @ [step], largestIndex, largestSize)))"

definition replayPartial ::
    "('v, 's) VisualModel \<Rightarrow> (int \<Rightarrow> 'v iface) \<Rightarrow> (int \<Rightarrow> 'v iface) \<Rightarrow> int \<times> int list \<Rightarrow>
     linearizationStep list list \<times> largest_maps \<Rightarrow> (linearizationStep list list \<times> largest_maps) res" where
  "replayPartial model callValue returnValue ip s =
     (case ip of (i, partial) \<Rightarrow> case s of (linearizations, largest) \<Rightarrow>
        rbind (forR (replayStep model callValue returnValue i (length partial)) partial (mInit model, [], largest))
          (\<lambda>(state, linearization, largest). Inr (linearizations @ [linearization], largest)))"

type_synonym partial_sorter = "(int list \<Rightarrow> int list \<Rightarrow> bool) \<Rightarrow> int list list \<Rightarrow> int list list"

definition longerFirst :: "int list \<Rightarrow> int list \<Rightarrow> bool" where
  "longerFirst a b \<longleftrightarrow> length a > length b"

definition partitionData ::
    "partial_sorter \<Rightarrow> ('v, 's) VisualModel \<Rightarrow> 'v entry list \<Rightarrow> int list list \<Rightarrow> partitionVisualizationData res" where
  "partitionData sortBy model entries partials0 =
     rbind (historyElements model entries) (\<lambda>(history, callValue, returnValue).
     let partials = sortBy longerFirst partials0 in
     rbind (forR (replayPartial model callValue returnValue) (zip (map int [0..<length partials]) partials) ([], [], \<lambda>_. 0))
       (\<lambda>(linearizations, largestIndex, largestSize).
         Inr \<lparr>pvHistory = history, pvPartialLinearizations = linearizations, pvLargest = largestIndex\<rparr>))"

definition computeVisualizationData ::
    "('v iface \<Rightarrow> string) \<Rightarrow> ('s \<Rightarrow> string) \<Rightarrow> partial_sorter \<Rightarrow> ('v, 's) VisualModel \<Rightarrow> 'v linearizationInfo \<Rightarrow>
     partitionVisualizationData list res" where
  "computeVisualizationData fmtV fmtS sortBy model0 info =
     (let model = fillDescribed fmtV fmtS model0 in
      mapR (\<lambda>p. rbind (at (liHistory info) (int p)) (\<lambda>entries.
                rbind (at (liPartial info) (int p)) (partitionData sortBy model entries))) [0..<length (liHistory info)])"

section \<open>JSON\<close>

text \<open>
  The text \<^verbatim>\<open>json.Marshal\<close> makes of the data; it cannot fail on these types. Quotes, backslashes and
  control characters of a string are escaped, and so are the three characters that HTML reads. Characters
  beyond ASCII stay as they are. The keys of a map are sorted as strings.
\<close>

definition hexDigit :: "nat \<Rightarrow> char" where
  "hexDigit d = (if d < 10 then digit d else char_of (87 + d))"

definition jsonEscape :: "nat \<Rightarrow> string" where
  "jsonEscape b = CHR 0x5C # ''u00'' @ [hexDigit (b div 16), hexDigit (b mod 16)]"

definition jsonChar :: "char \<Rightarrow> string" where
  "jsonChar c =
     (let b = of_char c :: nat in
      if b = 34 \<or> b = 92 then [CHR 0x5C, c]
      else if b = 10 then [CHR 0x5C, CHR ''n'']
      else if b = 13 then [CHR 0x5C, CHR ''r'']
      else if b = 9 then [CHR 0x5C, CHR ''t'']
      else if b < 32 \<or> b = 60 \<or> b = 62 \<or> b = 38 then jsonEscape b
      else [c])"

definition jsonString :: "string \<Rightarrow> string" where
  "jsonString s = CHR 34 # concat (map jsonChar s) @ [CHR 34]"

fun commas :: "string list \<Rightarrow> string" where
  "commas [] = ''''"
| "commas [x] = x"
| "commas (x # xs) = x @ '','' @ commas xs"

definition jsonArray :: "('a \<Rightarrow> string) \<Rightarrow> 'a list \<Rightarrow> string" where
  "jsonArray f xs = ''['' @ commas (map f xs) @ '']''"

definition jsonObject :: "(string \<times> string) list \<Rightarrow> string" where
  "jsonObject kvs = CHR 0x7B # commas (map (\<lambda>(k, v). jsonString k @ '':'' @ v) kvs) @ [CHR 0x7D]"

definition jsonElement :: "historyElement \<Rightarrow> string" where
  "jsonElement he =
     jsonObject [(''ClientId'', Itoa (heClientId he)), (''Start'', Itoa (heStart he)), (''End'', Itoa (heEnd he)),
                 (''Description'', jsonString (heDescription he))]"

definition jsonStep :: "linearizationStep \<Rightarrow> string" where
  "jsonStep ls = jsonObject [(''Index'', Itoa (lsIndex ls)), (''StateDescription'', jsonString (lsStateDescription ls))]"

definition jsonPartition :: "partitionVisualizationData \<Rightarrow> string" where
  "jsonPartition pv =
     jsonObject [(''History'', jsonArray jsonElement (pvHistory pv)),
                 (''PartialLinearizations'', jsonArray (jsonArray jsonStep) (pvPartialLinearizations pv)),
                 (''Largest'', jsonObject (sort_key fst (map (\<lambda>(k, v). (Itoa k, Itoa v)) (pvLargest pv))))]"

definition Marshal :: "partitionVisualizationData list \<Rightarrow> string" where
  "Marshal data = jsonArray jsonPartition data"

section \<open>The page\<close>

text \<open>
  The page is the text before and after the hole. \<open>write\<close> is what \<^verbatim>\<open>Fprintf\<close> does to the writer, with the
  error it reports; \<open>create\<close> is \<^verbatim>\<open>os.Create\<close>, the file it opens or an error.
\<close>

definition Visualize ::
    "('v iface \<Rightarrow> string) \<Rightarrow> ('s \<Rightarrow> string) \<Rightarrow> partial_sorter \<Rightarrow> string \<times> string \<Rightarrow> (string \<Rightarrow> 'w \<Rightarrow> 'w \<times> 'e option) \<Rightarrow>
     ('v, 's) VisualModel \<Rightarrow> 'v linearizationInfo \<Rightarrow> 'w \<Rightarrow> ('w \<times> 'e option) res" where
  "Visualize fmtV fmtS sortBy html write model info output =
     rbind (computeVisualizationData fmtV fmtS sortBy model info) (\<lambda>data.
       Inr (write (fst html @ Marshal data @ snd html) output))"

definition VisualizePath ::
    "('v iface \<Rightarrow> string) \<Rightarrow> ('s \<Rightarrow> string) \<Rightarrow> partial_sorter \<Rightarrow> string \<times> string \<Rightarrow> (string \<Rightarrow> 'w \<Rightarrow> 'w \<times> 'e option) \<Rightarrow>
     (string \<Rightarrow> 'e + 'w) \<Rightarrow> ('v, 's) VisualModel \<Rightarrow> 'v linearizationInfo \<Rightarrow> string \<Rightarrow> ('w option \<times> 'e option) res" where
  "VisualizePath fmtV fmtS sortBy html write create model info path =
     (case create path of
        Inl err \<Rightarrow> Inr (None, Some err)
      | Inr f \<Rightarrow> rbind (Visualize fmtV fmtS sortBy html write model info f) (\<lambda>(f, err). Inr (Some f, err)))"

end
