(* ===== verification/KV_Visual.thy ===== *)
theory KV_Visual
  imports KV_Model Visualization
begin

text \<open>How \<^verbatim>\<open>models/kv.go\<close> describes an operation of the key/value store for the visualization.\<close>

definition quoted :: "string \<Rightarrow> string" where
  "quoted s = CHR 0x27 # s @ [CHR 0x27]"

definition kvDescribeOperation :: "kv_val iface \<Rightarrow> kv_val iface \<Rightarrow> string res" where
  "kvDescribeOperation input output =
     rbind (asKvInput input) (\<lambda>inp. rbind (asKvOutput output) (\<lambda>out.
       Inr (if kiOp inp = 0 then ''get('' @ quoted (kiKey inp) @ '') -> '' @ quoted (koValue out)
            else if kiOp inp = 1 then ''put('' @ quoted (kiKey inp) @ '', '' @ quoted (kiValue inp) @ '')''
            else if kiOp inp = 2 then ''append('' @ quoted (kiKey inp) @ '', '' @ quoted (kiValue inp) @ '')''
            else ''<invalid>'')))"

definition KvVisualModel :: "(kv_val, string) VisualModel" where
  "KvVisualModel = Model.extend KvModel (VisualModel.fields (Some kvDescribeOperation) None)"

lemma KvVisualModel_truncate [simp]: "Model.truncate KvVisualModel = KvModel"
  by (simp add: KvVisualModel_def KvModel_def Model.defs)

lemma KvVisualModel_describe [simp]: "mDescribeOperation KvVisualModel = Some kvDescribeOperation"
  by (simp add: KvVisualModel_def Model.defs VisualModel.defs)

end
