(* ===== verification/Porcupine_Partial.thy ===== *)
theory Porcupine_Partial
  imports Porcupine_Linear
begin

text \<open>
  What the search records for a person to look at: the longest sequences of operations it could
  linearize. Every sequence it ever records is a partial linearization: a sequence of different
  operations, legal from the initial state, in which every operation was called before any of the
  operations still missing at that point returned.
\<close>

section \<open>Partial linearizations\<close>

text \<open>\<open>admissible h L xs\<close>: after the operations \<open>L\<close> the operations \<open>xs\<close> may come next, in this order.\<close>

fun admissible :: "'v Operation list \<Rightarrow> nat set \<Rightarrow> nat list \<Rightarrow> bool" where
  "admissible h L [] \<longleftrightarrow> True"
| "admissible h L (i # xs) \<longleftrightarrow> i < length h \<and> i \<notin> L \<and> (\<forall>j < length h. j \<notin> L \<longrightarrow> opCall (h ! i) \<le> opReturn (h ! j)) \<and>
     admissible h (insert i L) xs"

fun legalTo :: "('v, 's) Model \<Rightarrow> 's \<Rightarrow> 'v Operation list \<Rightarrow> 's \<Rightarrow> bool" where
  "legalTo m s [] t \<longleftrightarrow> s = t"
| "legalTo m s (op # ops) t \<longleftrightarrow> (\<exists>s'. mStep m s (opInput op) (opOutput op) = Inr (True, s') \<and> legalTo m s' ops t)"

definition partial_linearization :: "('v, 's) Model \<Rightarrow> 'v Operation list \<Rightarrow> int list \<Rightarrow> bool" where
  "partial_linearization m h ids \<longleftrightarrow> (\<forall>i \<in> set ids. 0 \<le> i) \<and> admissible h {} (map nat ids) \<and>
     legal m (mInit m) (map (\<lambda>i. h ! nat i) ids)"

lemma admissible_append: "admissible h L (xs @ ys) \<longleftrightarrow> admissible h L xs \<and> admissible h (L \<union> set xs) ys"
  by (induction xs arbitrary: L) auto

lemma admissible_distinct: "admissible h L xs \<Longrightarrow> distinct xs \<and> set xs \<inter> L = {} \<and> set xs \<subseteq> {..<length h}"
  by (induction xs arbitrary: L) auto

lemma legalTo_append: "legalTo m s (xs @ ys) t \<longleftrightarrow> (\<exists>u. legalTo m s xs u \<and> legalTo m u ys t)"
  by (induction xs arbitrary: s) auto

lemma legal_legalTo: "legal m s ops \<longleftrightarrow> (\<exists>t. legalTo m s ops t)"
  by (induction ops arbitrary: s) (auto split: sum.splits prod.splits bool.splits)

text \<open>A partial linearization of all operations is a linearization.\<close>

lemma admissible_sorted: "admissible h L xs \<Longrightarrow> sorted_wrt (\<lambda>i j. opCall (h ! i) \<le> opReturn (h ! j)) xs"
proof (induction xs arbitrary: L)
  case (Cons i xs)
  have "j < length h \<and> j \<notin> L" if "j \<in> set xs" for j
    using admissible_distinct [of h "insert i L" xs] Cons.prems that by auto
  with Cons show ?case by auto
qed simp

lemma partial_linearization_complete:
  assumes "partial_linearization m h ids" "length ids = length h"
  shows "linearizes m h (map (\<lambda>i. h ! nat i) ids)"
proof -
  let ?xs = "map nat ids"
  note a = assms(1) [unfolded partial_linearization_def]
  note d = admissible_distinct [OF conjunct1 [OF conjunct2 [OF a]]]
  have "card (set ?xs) = length h" using d assms(2) by (simp only: distinct_card length_map)
  then have "set ?xs = {..<length h}" using d by (intro card_subset_eq) auto
  then have "mset ?xs = mset [0..<length h]"
    using d set_eq_iff_mset_eq_distinct [of ?xs "[0..<length h]"] by (simp only: set_upt distinct_upt lessThan_atLeast0 simp_thms)
  then have "mset (map (\<lambda>i. h ! i) ?xs) = mset (map (\<lambda>i. h ! i) [0..<length h])" by (simp only: mset_map)
  then have "mset (map (\<lambda>i. h ! nat i) ids) = mset h" by (simp add: map_nth o_def)
  moreover have "sorted_wrt (\<lambda>a b. opCall a \<le> opReturn b) (map (\<lambda>i. h ! i) ?xs)"
    using admissible_sorted [OF conjunct1 [OF conjunct2 [OF a]]] by (simp only: sorted_wrt_map)
  ultimately show ?thesis using a by (simp add: linearizes_def o_def)
qed

section \<open>The stack of the search\<close>

lemma live_call_first:
  assumes "describes h rs" "live rs L = ys @ a # zs" "list_all (isCall rs) ys" "rs ! a = callE h i" "j < length h" "j \<notin> L"
  shows "opCall (h ! i) \<le> opReturn (h ! j)"
proof (rule ccontr)
  assume "\<not> opCall (h ! i) \<le> opReturn (h ! j)"
  then have less: "byTimeLess (retE h j) (callE h i)" by (auto simp: byTimeLess_def)
  obtain b where b: "b < length rs" "rs ! b = retE h j" using describes_ret [OF assms(1,5)] .
  have a: "a < length rs" using assms(2) live_iff [of a rs L] by auto
  have "a < b" using describes_order [OF assms(1) a b(1)] less assms(4) b(2) by simp
  moreover have "b \<in> set (live rs L)" using b assms(6) by (simp add: live_iff idOf_def)
  ultimately have "b \<in> set ys" using live_sorted [of rs L] assms(2) by (auto simp: sorted_wrt_append)
  then show False using assms(3) b(2) by (auto simp: list_all_iff isCall_def)
qed

definition stackIds :: "'v entry list \<Rightarrow> (nat option \<times> 's) list \<Rightarrow> nat list" where
  "stackIds rs cs = map (\<lambda>c. idOf rs (the (fst c))) cs"

lemma stack_partial:
  assumes "describes h rs" "timely h" "stack m rs h0 cs hp L s P w"
  shows "set (stackIds rs cs) = L \<and> admissible h {} (stackIds rs cs) \<and> legalTo m (mInit m) (map (\<lambda>i. h ! i) (stackIds rs cs)) s"
  using assms(3)
proof (induction)
  case (push cs hp L s P w ys a zs s' h')
  have a: "a < length rs" "isCall rs a" "idOf rs a \<notin> L" using push.hyps(2,3) live_iff [of a rs L] by auto
  obtain i where i: "i < length h" "rs ! a = callE h i"
    by (cases rule: describes_nth [OF assms(1) a(1)]) (use a(2) in \<open>auto simp: isCall_def\<close>)
  note st = stepAt_describes(1) [OF assms(1,2) a(1) i(2,1), of m s] stepAt_describes(2) [OF assms(1,2) a(1) i(2,1)]
  have "opCall (h ! i) \<le> opReturn (h ! j)" if "j < length h" "j \<notin> L" for j
    using live_call_first [OF assms(1) push.hyps(2) _ i(2) that] push.hyps(3) by simp
  then show ?case using push.IH i(1) a(3) st push.hyps(5)
    by (simp add: stackIds_def admissible_append legalTo_append) blast
qed (simp add: stackIds_def)

lemma callIds_stack:
  assumes "setting m rs h0" "sinv m rs h0 L ys zs P w s"
  shows "callIds s = Inr (map int (stackIds rs (s_calls s)))"
proof -
  have wf: "wf_rev rs" using assms(1) by (simp add: setting_def)
  have c: "\<exists>a < length rs. fst c = Some a" if "c \<in> set (s_calls s)" for c
    using stack_shape [of m rs h0 "s_calls s" "s_heap s" L "s_state s" P w] assms(2) wf that by (auto simp: sinv_def)
  have "callIds s = Inr (map (\<lambda>c. int (idOf rs (the (fst c)))) (s_calls s))"
    unfolding callIds_def
  proof (rule mapR_total)
    fix d assume "d \<in> set (s_calls s)"
    from c [OF this] obtain a t where d: "d = (Some a, t)" "a < length rs" by (cases d) auto
    have "0 \<le> enId (rs ! a)" using wf d(2) by (simp add: wf_rev_def)
    with d show "(case d of (e, st) \<Rightarrow> rbind (loadNode (s_heap s) e) (\<lambda>nd. Inr (nd_id nd))) = Inr (int (idOf rs (the (fst d))))"
      using sinv_heap(2) [OF assms] by (simp add: static_def idOf_def)
  qed
  then show ?thesis by (simp add: stackIds_def)
qed

lemma callIds_partial:
  assumes "describes h rs" "timely h" "setting m rs h0" "sinv m rs h0 L ys zs P w s" "callIds s = Inr ids"
  shows "partial_linearization m h ids"
proof -
  have "ids = map int (stackIds rs (s_calls s))" using callIds_stack [OF assms(3,4)] assms(5) by simp
  moreover have "stack m rs h0 (s_calls s) (s_heap s) L (s_state s) P w" using assms(4) by (simp add: sinv_def)
  ultimately show ?thesis
    using stack_partial [OF assms(1,2)] by (force simp: partial_linearization_def legal_legalTo o_def)
qed

section \<open>What is recorded\<close>

definition recordsPartial :: "('v, 's) Model \<Rightarrow> 'v Operation list \<Rightarrow> linearized_prefix list \<Rightarrow> bool" where
  "recordsPartial m h longest \<longleftrightarrow> (\<forall>p ids. Some (p, ids) \<in> set longest \<longrightarrow> partial_linearization m h ids)"

lemma recordLongest_partial:
  assumes "recordLongest k ids longest = Inr l" "recordsPartial m h longest" "partial_linearization m h ids"
  shows "recordsPartial m h l"
proof -
  let ?f = "\<lambda>r i. rbind r (\<lambda>ls. rbind (at ls i) (\<lambda>old.
        if (case old of None \<Rightarrow> True | Some (p, sq) \<Rightarrow> length sq < length ids) then put ls i (Some (k, ids)) else Inr ls))"
  have inl: "foldl ?f (Inl e) js = Inl e" for e js by (induction js) auto
  have "recordsPartial m h l'" if "foldl ?f (Inr ls) js = Inr l'" "recordsPartial m h ls" for js ls l'
    using that
  proof (induction js arbitrary: ls)
    case (Cons j js)
    show ?case
    proof (cases "?f (Inr ls) j")
      case (Inl e)
      then show ?thesis using Cons.prems(1) inl by (simp del: rbind_simps)
    next
      case (Inr ls')
      then have "ls' = ls \<or> ls' = ls[nat j := Some (k, ids)]" by (auto simp: rbind_Inr_iff put_Inr_iff split: if_splits)
      then have "recordsPartial m h ls'"
        using Cons.prems(2) assms(3) set_update_subset_insert [of ls "nat j" "Some (k, ids)"] by (auto simp: recordsPartial_def)
      then show ?thesis using Cons.IH [of ls'] Cons.prems(1) Inr by (simp del: rbind_simps)
    qed
  qed simp
  with assms show ?thesis unfolding recordLongest_def by blast
qed

lemma tryEntry_longest: "tryEntry m p e s = Inr s' \<Longrightarrow> s_longest s' = s_longest s"
  by (auto simp: tryEntry_def Let_def rbind_Inr_iff split: if_splits prod.splits)

lemma backtrack_longest:
  assumes "backtrack computePartial k s = Inr s'"
  shows "s_longest s' = s_longest s \<or> (\<exists>ids. callIds s = Inr ids \<and> recordLongest k ids (s_longest s) = Inr (s_longest s'))"
  using assms by (auto simp: backtrack_def rbind_Inr_iff split: if_splits prod.splits)

text \<open>The rounds of the search keep the invariant, so nothing else is ever recorded.\<close>

lemma checkLoop_partial:
  assumes "describes h rs" "timely h" "setting m rs h0" "sinv m rs h0 L ys zs P w s" "recordsPartial m h (s_longest s)"
    and "checkLoop m computePartial kill (Some (length rs)) fuel k s = Inr (Some (b, longest))"
  shows "recordsPartial m h longest"
  using assms(4-6)
proof (induction fuel arbitrary: k s L ys zs P w)
  case (Suc fuel)
  note inv = Suc.prems(1)
  obtain ids where ids: "callIds s = Inr ids" using callIds_stack [OF assms(3) inv] by blast
  note part = callIds_partial [OF assms(1-3) inv ids]
  note round = Suc.prems(3) [unfolded checkLoop_round [OF assms(3) inv ids]]
  show ?case
  proof (cases zs)
    case Nil
    then show ?thesis using round part by (auto simp: recordsPartial_def)
  next
    case (Cons a zs')
    consider (stop) "longest = s_longest s" | (call) "\<not> kill k" "isCall rs a" | (return) "\<not> kill k" "\<not> isCall rs a" "s_calls s \<noteq> []"
      using round Cons by (auto split: if_splits)
    then show ?thesis
    proof cases
      case stop
      then show ?thesis using Suc.prems(2) by simp
    next
      case call
      then obtain s' where s': "tryEntry m (Some (length rs)) (s_heap s ! a) s = Inr s'"
        "checkLoop m computePartial kill (Some (length rs)) fuel (k + 1) s' = Inr (Some (b, longest))"
        using round Cons by (auto simp: rbind_Inr_iff)
      obtain L' ys' zs'' P' w' where "sinv m rs h0 L' ys' zs'' P' w' s'"
        using tryEntry_step [OF assms(3) inv [unfolded Cons] call(2)] s'(1) by auto
      then show ?thesis using Suc.IH [OF _ _ s'(2)] tryEntry_longest [OF s'(1)] Suc.prems(2) by simp
    next
      case return
      then obtain s' where s': "backtrack computePartial k s = Inr s'"
        "checkLoop m computePartial kill (Some (length rs)) fuel (k + 1) s' = Inr (Some (b, longest))"
        using round Cons by (auto simp: rbind_Inr_iff)
      obtain L' ys' zs'' P' w' where inv': "sinv m rs h0 L' ys' zs'' P' w' s'"
        using backtrack_step [OF assms(3) inv [unfolded Cons] return(2,3), of computePartial k] s'(1) by auto
      have "recordsPartial m h (s_longest s')"
        using backtrack_longest [OF s'(1)] recordLongest_partial [OF _ Suc.prems(2) part] ids Suc.prems(2) by auto
      then show ?thesis by (rule Suc.IH [OF inv' _ s'(2)])
    qed
  qed
qed simp

lemma checkSingle_partial:
  assumes "sorts sortBy" "timely h" "equalOK m" "stepsTotal m h"
    and "checkSingle fuel m (makeEntries sortBy h) computePartial kill = Inr (Some (b, longest))"
  shows "recordsPartial m h longest"
proof -
  note d = makeEntries_describes [OF assms(1), of h]
  show ?thesis
  proof (rule checkSingle_setup [OF describes_wf [OF d assms(2)] assms(3) stepsTotal_stepOK [OF d assms(2,4)], of fuel computePartial kill])
    fix h0 s assume s: "setting m (rev (makeEntries sortBy h)) h0"
      "sinv m (rev (makeEntries sortBy h)) h0 {} [] (live (rev (makeEntries sortBy h)) {}) {({}, mInit m)} 0 s"
      "s_longest s = replicate (length (makeEntries sortBy h) div 2) None"
      "checkSingle fuel m (makeEntries sortBy h) computePartial kill =
         checkLoop m computePartial kill (Some (length (rev (makeEntries sortBy h)))) fuel 0 s"
    have "recordsPartial m h (s_longest s)" using s(3) by (simp add: recordsPartial_def)
    then show ?thesis by (rule checkLoop_partial [OF d assms(2) s(1,2)]) (rule trans [OF s(4) [symmetric] assms(5)])
  qed
qed

lemma uniqueLongest_partial:
  assumes "recordsPartial m h longest" "ids \<in> set (uniqueLongest longest)"
  shows "partial_linearization m h ids"
proof -
  obtain p where "Some (p, ids) \<in> set longest"
    using assms(2) by (auto simp: uniqueLongest_def List.map_filter_def)
  with assms(1) show ?thesis by (auto simp: recordsPartial_def)
qed

section \<open>What a verbose check reports\<close>

lemma checkParallel_info:
  assumes "checkParallel fuel m history True evs stopped = Inr (Some (result, info))"
  shows "liHistory info = history" "length (liPartial info) = length history"
    "k < length history \<Longrightarrow> \<exists>b l. checkSingle fuel m (history ! k) True (stopped k) = Inr (Some (b, l)) \<and> liPartial info ! k = uniqueLongest l"
proof -
  obtain stops where st: "mapR (\<lambda>(i, sub). checkSingle fuel m sub True (stopped i)) (enumerate 0 history) = Inr stops" "None \<notin> set stops"
    and info: "info = \<lparr>liHistory = history, liPartial = map (\<lambda>r. uniqueLongest (snd (the r))) stops\<rparr>"
    using assms by (auto simp: checkParallel_def rbind_Inr_iff Let_def split: if_splits option.splits prod.splits)
  have len: "length stops = length history" using mapR_length [OF st(1)] by simp
  then show "liHistory info = history" "length (liPartial info) = length history" using info by simp_all
  assume k: "k < length history"
  have "checkSingle fuel m (history ! k) True (stopped k) = Inr (stops ! k)"
    using mapR_nth [OF st(1), of k] k by (simp add: nth_enumerate_eq)
  moreover obtain b l where "stops ! k = Some (b, l)" using st(2) k len by (metis nth_mem not_None_eq surj_pair)
  ultimately show "\<exists>b l. checkSingle fuel m (history ! k) True (stopped k) = Inr (Some (b, l)) \<and> liPartial info ! k = uniqueLongest l"
    using info k len by simp
qed

lemma checkParallel_partial:
  assumes "sorts sortBy" "equalOK m" "checkParallel fuel m (map (makeEntries sortBy) hs) True evs stopped = Inr (Some (result, info))"
    and "k < length hs" "timely (hs ! k)" "stepsTotal m (hs ! k)" "ids \<in> set (liPartial info ! k)"
  shows "partial_linearization m (hs ! k) ids"
proof -
  obtain b l where "checkSingle fuel m (makeEntries sortBy (hs ! k)) True (stopped k) = Inr (Some (b, l))" "liPartial info ! k = uniqueLongest l"
    using checkParallel_info(3) [OF assms(3), of k] assms(4) by auto
  with checkSingle_partial [OF assms(1,5,2,6)] uniqueLongest_partial assms(7) show ?thesis by metis
qed

end
