(* ===== verification/Visualization_Props.thy ===== *)
theory Visualization_Props
  imports KV_Visual Porcupine_Partial
begin

text \<open>
  The data for the page are right: for every check the panic on an illegal partial linearization
  is unreachable, the history is shown with its times, clients and descriptions, what is shown as
  a partial linearization is one, and for every operation the page finds a longest one that has it. Nothing
  in the data can end the script they are put into.
\<close>

section \<open>The history\<close>

definition elementOf :: "('v, 's) VisualModel \<Rightarrow> 'v Operation \<Rightarrow> historyElement" where
  "elementOf m op =
     \<lparr>heClientId = opClientId op, heStart = opCall op, heEnd = opReturn op,
      heDescription = projr (the (mDescribeOperation m) (opInput op) (opOutput op))\<rparr>"

definition describesAll :: "('v, 's) VisualModel \<Rightarrow> 'v Operation list \<Rightarrow> bool" where
  "describesAll m h \<longleftrightarrow> (\<forall>op \<in> set h. \<exists>t. the (mDescribeOperation m) (opInput op) (opOutput op) = Inr t)"

text \<open>What the loop has made of the entries \<open>E\<close> seen so far.\<close>

definition shownElement :: "('v, 's) VisualModel \<Rightarrow> 'v Operation list \<Rightarrow> 'v entry set \<Rightarrow> nat \<Rightarrow> historyElement" where
  "shownElement m h E i =
     (let el = elementOf m (h ! i);
          el1 = (if callE h i \<in> E then noElement\<lparr>heClientId := heClientId el, heStart := heStart el\<rparr> else noElement)
      in if retE h i \<in> E then el1\<lparr>heEnd := heEnd el, heDescription := heDescription el\<rparr> else el1)"

definition shownSoFar :: "('v, 's) VisualModel \<Rightarrow> 'v Operation list \<Rightarrow> 'v entry set \<Rightarrow> 'v elements \<Rightarrow> bool" where
  "shownSoFar m h E s \<longleftrightarrow> (case s of (history, callValue, returnValue) \<Rightarrow>
     history = map (shownElement m h E) [0..<length h] \<and>
     (\<forall>i < length h. callValue (int i) = (if callE h i \<in> E then opInput (h ! i) else None) \<and>
        returnValue (int i) = (if retE h i \<in> E then opOutput (h ! i) else None)))"

lemma entries_differ [simp]:
  "callE h i \<noteq> retE h j" "retE h i \<noteq> callE h j" "callE h i = callE h j \<longleftrightarrow> i = j" "retE h i = retE h j \<longleftrightarrow> i = j"
  "enClientId (callE h i) = opClientId (h ! i)"
  by (auto simp: callE_def retE_def)

lemma update_shown:
  assumes "i < length h" "\<And>j. j \<noteq> i \<Longrightarrow> shownElement m h E' j = shownElement m h E j"
  shows "(map (shownElement m h E) [0..<length h])[i := shownElement m h E' i] = map (shownElement m h E') [0..<length h]"
  using assms by (intro nth_equalityI) (auto simp: nth_list_update)

lemma recordEntry_call:
  assumes "shownSoFar m h E s" "i < length h"
  shows "\<exists>s'. recordEntry m (callE h i) s = Inr s' \<and> shownSoFar m h (insert (callE h i) E) s'"
proof -
  let ?E = "insert (callE h i) E"
  obtain callValue returnValue where s: "s = (map (shownElement m h E) [0..<length h], callValue, returnValue)"
    using assms(1) by (auto simp: shownSoFar_def)
  have "(shownElement m h E i)\<lparr>heClientId := opClientId (h ! i), heStart := opCall (h ! i)\<rparr> = shownElement m h ?E i"
    by (simp add: shownElement_def Let_def elementOf_def noElement_def)
  moreover have "shownElement m h ?E j = shownElement m h E j" if "j \<noteq> i" for j
    using that by (simp add: shownElement_def)
  ultimately have "recordEntry m (callE h i) s = Inr (map (shownElement m h ?E) [0..<length h], callValue(int i := opInput (h ! i)), returnValue)"
    using update_shown [of i h m ?E E] assms(2) by (simp add: recordEntry_def s at_def)
  moreover have "shownSoFar m h ?E (map (shownElement m h ?E) [0..<length h], callValue(int i := opInput (h ! i)), returnValue)"
    using assms(1) by (simp add: shownSoFar_def s)
  ultimately show ?thesis by blast
qed

lemma recordEntry_return:
  assumes "shownSoFar m h E s" "i < length h" "callE h i \<in> E" "describesAll m h"
  shows "\<exists>s'. recordEntry m (retE h i) s = Inr s' \<and> shownSoFar m h (insert (retE h i) E) s'"
proof -
  let ?E = "insert (retE h i) E"
  obtain t where t: "the (mDescribeOperation m) (opInput (h ! i)) (opOutput (h ! i)) = Inr t"
    using assms(2,4) nth_mem unfolding describesAll_def by blast
  obtain callValue returnValue where s: "s = (map (shownElement m h E) [0..<length h], callValue, returnValue)"
    and c: "callValue (int i) = opInput (h ! i)"
    using assms(1-3) by (auto simp: shownSoFar_def)
  have "(shownElement m h E i)\<lparr>heEnd := opReturn (h ! i), heDescription := t\<rparr> = shownElement m h ?E i"
    using t by (simp add: shownElement_def Let_def elementOf_def noElement_def)
  moreover have "shownElement m h ?E j = shownElement m h E j" if "j \<noteq> i" for j
    using that by (simp add: shownElement_def)
  ultimately have "recordEntry m (retE h i) s = Inr (map (shownElement m h ?E) [0..<length h], callValue, returnValue(int i := opOutput (h ! i)))"
    using update_shown [of i h m ?E E] assms(2) t c by (simp add: recordEntry_def s at_def)
  moreover have "shownSoFar m h ?E (map (shownElement m h ?E) [0..<length h], callValue, returnValue(int i := opOutput (h ! i)))"
    using assms(1) by (simp add: shownSoFar_def s)
  ultimately show ?thesis by blast
qed

text \<open>In a history in order of time an operation's call stands before its return.\<close>

lemma call_before_return:
  assumes "describes h (rev es)" "timely h" "i < length h" "es = ps @ retE h i # qs"
  shows "callE h i \<in> set ps"
proof -
  have q: "retE h i = rev es ! length qs" "length qs < length (rev es)" using assms(4) by (simp_all add: nth_append)
  obtain a where a: "a < length (rev es)" "rev es ! a = callE h i" using describes_call [OF assms(1,3)] .
  have "length qs < a" using describes_pair [OF assms(1-3) a q(2)] q(1) by simp
  moreover have "rev es = rev qs @ retE h i # rev ps" using assms(4) by simp
  ultimately have "rev es ! a = rev ps ! (a - length qs - 1)" by (simp add: nth_append)
  moreover have "a - length qs - 1 < length (rev ps)" using a(1) assms(4) \<open>length qs < a\<close> by simp
  ultimately show ?thesis using a(2) nth_mem by (metis set_rev)
qed

lemma historyElements_shown:
  assumes "describes h (rev es)" "timely h" "describesAll m h"
  shows "\<exists>callValue returnValue. historyElements m es = Inr (map (elementOf m) h, callValue, returnValue) \<and>
    (\<forall>i < length h. callValue (int i) = opInput (h ! i) \<and> returnValue (int i) = opOutput (h ! i))"
proof -
  note set = describes_set [OF assms(1)]
  have prefix: "\<exists>s'. forR (recordEntry m) ps (replicate (length h) noElement, \<lambda>_. None, \<lambda>_. None) = Inr s' \<and> shownSoFar m h (set ps) s'"
    if "es = ps @ qs" for ps qs
    using that
  proof (induction ps arbitrary: qs rule: rev_induct)
    case Nil
    have "shownElement m h {} = (\<lambda>_. noElement)" by (simp add: fun_eq_iff shownElement_def)
    then show ?case by (simp add: shownSoFar_def map_replicate_const)
  next
    case (snoc e ps)
    obtain s where s: "forR (recordEntry m) ps (replicate (length h) noElement, \<lambda>_. None, \<lambda>_. None) = Inr s" "shownSoFar m h (set ps) s"
      using snoc.IH [of "e # qs"] snoc.prems by auto
    have "e \<in> set es" using snoc.prems by simp
    then consider (call) i where "i < length h" "e = callE h i" | (return) i where "i < length h" "e = retE h i" using set by auto
    then have "\<exists>s'. recordEntry m e s = Inr s' \<and> shownSoFar m h (insert e (set ps)) s'"
    proof cases
      case call
      then show ?thesis using recordEntry_call [OF s(2)] by simp
    next
      case return
      have "callE h i \<in> set ps" using call_before_return [OF assms(1,2) return(1)] snoc.prems return(2) by auto
      then show ?thesis using recordEntry_return [OF s(2) return(1) _ assms(3)] return(2) by simp
    qed
    then show ?case using s(1) by (auto simp: forR_append)
  qed
  obtain callValue returnValue where "forR (recordEntry m) es (replicate (length h) noElement, \<lambda>_. None, \<lambda>_. None) =
      Inr (map (shownElement m h (set es)) [0..<length h], callValue, returnValue)"
    "\<forall>i < length h. callValue (int i) = opInput (h ! i) \<and> returnValue (int i) = opOutput (h ! i)"
    using prefix [of es "[]"] set by (auto simp: shownSoFar_def)
  moreover have "map (shownElement m h (set es)) [0..<length h] = map (elementOf m) h"
    using set by (intro nth_equalityI) (auto simp: shownElement_def Let_def elementOf_def noElement_def)
  moreover have "length es div 2 = length h" using describes_length [OF assms(1)] by simp
  ultimately show ?thesis by (simp add: historyElements_def)
qed

section \<open>The partial linearizations\<close>

lemma truncate_simps [simp]: "mStep (Model.truncate m) = mStep m" "mInit (Model.truncate m) = mInit m"
  by (simp_all add: Model.truncate_def)

text \<open>The steps shown for the operations \<open>ids\<close>, from the state \<open>s\<close> on.\<close>

fun replayed :: "('v, 's) VisualModel \<Rightarrow> 'v Operation list \<Rightarrow> 's \<Rightarrow> int list \<Rightarrow> linearizationStep list" where
  "replayed m h s [] = []"
| "replayed m h s (i # ids) =
     (let s' = snd (projr (mStep m s (opInput (h ! nat i)) (opOutput (h ! nat i))))
      in \<lparr>lsIndex = i, lsStateDescription = the (mDescribeState m) s'\<rparr> # replayed m h s' ids)"

lemma replayed_ids [simp]: "map lsIndex (replayed m h s ids) = ids"
  by (induction ids arbitrary: s) (simp_all add: Let_def)

lemma replay_steps:
  assumes "\<And>i. i \<in> set ids \<Longrightarrow> callValue i = opInput (h ! nat i) \<and> returnValue i = opOutput (h ! nat i)"
    and "legalTo (Model.truncate m) s (map (\<lambda>i. h ! nat i) ids) t"
  shows "\<exists>li lz. forR (replayStep m callValue returnValue n len) ids (s, lin, li0, lz0) = Inr (t, lin @ replayed m h s ids, li, lz) \<and>
    (\<forall>x. map_of li x = (if x \<in> set ids \<and> lz0 x < len then Some n else map_of li0 x) \<and>
         lz x = (if x \<in> set ids \<and> lz0 x < len then len else lz0 x))"
  using assms
proof (induction ids arbitrary: s lin li0 lz0)
  case (Cons i ids)
  obtain s' where s': "mStep m s (opInput (h ! nat i)) (opOutput (h ! nat i)) = Inr (True, s')"
    "legalTo (Model.truncate m) s' (map (\<lambda>i. h ! nat i) ids) t" using Cons.prems(2) by auto
  define upd where "upd = (lz0 i < len)"
  define li1 where "li1 = (if upd then AList.update i n li0 else li0)"
  define lz1 where "lz1 = (if upd then lz0(i := len) else lz0)"
  let ?step = "\<lparr>lsIndex = i, lsStateDescription = the (mDescribeState m) s'\<rparr>"
  have "replayStep m callValue returnValue n len i (s, lin, li0, lz0) = Inr (s', lin @ [?step], li1, lz1)"
    using Cons.prems(1) [of i] s'(1) by (simp add: replayStep_def li1_def lz1_def upd_def)
  moreover obtain li lz where "forR (replayStep m callValue returnValue n len) ids (s', lin @ [?step], li1, lz1) =
      Inr (t, (lin @ [?step]) @ replayed m h s' ids, li, lz)"
    and "\<forall>x. map_of li x = (if x \<in> set ids \<and> lz1 x < len then Some n else map_of li1 x) \<and>
         lz x = (if x \<in> set ids \<and> lz1 x < len then len else lz1 x)"
    using Cons.IH [OF _ s'(2), of "lin @ [?step]" li1 lz1] Cons.prems(1) by auto
  ultimately show ?case using s'(1) by (auto simp: li1_def lz1_def upd_def update_conv')
qed simp

text \<open>After the first \<open>n\<close> sequences, longest first: every operation they have is entered with the first that has it.\<close>

definition largestOk :: "int list list \<Rightarrow> nat \<Rightarrow> largest_maps \<Rightarrow> bool" where
  "largestOk ps n mz \<longleftrightarrow> (case mz of (li, lz) \<Rightarrow> \<forall>x.
     (\<forall>k < n. x \<notin> set (ps ! k)) \<and> map_of li x = None \<and> lz x = 0 \<or>
     (\<exists>k < n. x \<in> set (ps ! k) \<and> (\<forall>j < k. x \<notin> set (ps ! j)) \<and> map_of li x = Some (int k) \<and> lz x = length (ps ! k)))"

lemma largestOk_next:
  assumes "largestOk ps n (li0, lz0)" "n < length ps" "sorted_wrt (\<lambda>a b. length b \<le> length a) ps"
    and "\<forall>x. map_of li x = (if x \<in> set (ps ! n) \<and> lz0 x < length (ps ! n) then Some (int n) else map_of li0 x) \<and>
         lz x = (if x \<in> set (ps ! n) \<and> lz0 x < length (ps ! n) then length (ps ! n) else lz0 x)"
  shows "largestOk ps (Suc n) (li, lz)"
  unfolding largestOk_def prod.case
proof
  fix x
  have m: "map_of li x = (if x \<in> set (ps ! n) \<and> lz0 x < length (ps ! n) then Some (int n) else map_of li0 x)"
    "lz x = (if x \<in> set (ps ! n) \<and> lz0 x < length (ps ! n) then length (ps ! n) else lz0 x)" using assms(4) by auto
  consider (new) "\<forall>k < n. x \<notin> set (ps ! k)" "map_of li0 x = None" "lz0 x = 0"
    | (old) k where "k < n" "x \<in> set (ps ! k)" "\<forall>j < k. x \<notin> set (ps ! j)" "map_of li0 x = Some (int k)" "lz0 x = length (ps ! k)"
    using spec [OF assms(1) [unfolded largestOk_def prod.case], of x] by (elim disjE exE conjE) metis+
  then show "(\<forall>k < Suc n. x \<notin> set (ps ! k)) \<and> map_of li x = None \<and> lz x = 0 \<or>
     (\<exists>k < Suc n. x \<in> set (ps ! k) \<and> (\<forall>j < k. x \<notin> set (ps ! j)) \<and> map_of li x = Some (int k) \<and> lz x = length (ps ! k))"
  proof cases
    case new
    then show ?thesis
    proof (cases "x \<in> set (ps ! n)")
      case True
      then have "0 < length (ps ! n)" by (cases "ps ! n") auto
      with True new m show ?thesis by (intro disjI2 exI [of _ n]) simp
    qed (auto simp: m less_Suc_eq)
  next
    case old
    have "length (ps ! n) \<le> length (ps ! k)" using assms(2,3) old(1) by (simp add: sorted_wrt_iff_nth_less)
    with old m show ?thesis by (intro disjI2 exI [of _ k]) simp
  qed
qed

lemma replay_all:
  assumes "\<And>i. i < length h \<Longrightarrow> callValue (int i) = opInput (h ! i) \<and> returnValue (int i) = opOutput (h ! i)"
    and "\<And>p. p \<in> set ps \<Longrightarrow> partial_linearization (Model.truncate m) h p"
    and "sorted_wrt (\<lambda>a b. length b \<le> length a) ps"
  shows "\<exists>mz. forR (replayPartial m callValue returnValue) (zip (map int [0..<length ps]) ps) ([], [], \<lambda>_. 0) =
     Inr (map (replayed m h (mInit m)) ps, mz) \<and> largestOk ps (length ps) mz"
proof -
  have "\<exists>mz. forR (replayPartial m callValue returnValue) (zip (map int [0..<n]) (take n ps)) ([], [], \<lambda>_. 0) =
     Inr (map (replayed m h (mInit m)) (take n ps), mz) \<and> largestOk ps n mz" if "n \<le> length ps" for n
    using that
  proof (induction n)
    case 0
    show ?case by (simp add: largestOk_def)
  next
    case (Suc n)
    obtain li0 lz0 where prev: "forR (replayPartial m callValue returnValue) (zip (map int [0..<n]) (take n ps)) ([], [], \<lambda>_. 0) =
       Inr (map (replayed m h (mInit m)) (take n ps), li0, lz0)" "largestOk ps n (li0, lz0)" using Suc by fastforce
    have n: "n < length ps" using Suc.prems by simp
    note p = assms(2) [OF nth_mem [OF n], unfolded partial_linearization_def]
    obtain t where t: "legalTo (Model.truncate m) (mInit m) (map (\<lambda>i. h ! nat i) (ps ! n)) t" using p by (auto simp: legal_legalTo)
    have v: "callValue i = opInput (h ! nat i) \<and> returnValue i = opOutput (h ! nat i)" if i: "i \<in> set (ps ! n)" for i
    proof -
      have "0 \<le> i" "nat i < length h" using p i admissible_distinct [of h "{}" "map nat (ps ! n)"] by auto
      then show ?thesis using assms(1) [of "nat i"] by simp
    qed
    obtain li lz where step: "forR (replayStep m callValue returnValue (int n) (length (ps ! n))) (ps ! n) (mInit m, [], li0, lz0) =
        Inr (t, replayed m h (mInit m) (ps ! n), li, lz)" "largestOk ps (Suc n) (li, lz)"
      using replay_steps [OF v t, of "int n" "length (ps ! n)" "[]" li0 lz0] largestOk_next [OF prev(2) n assms(3)] by auto
    have "replayPartial m callValue returnValue (int n, ps ! n) (map (replayed m h (mInit m)) (take n ps), li0, lz0) =
        Inr (map (replayed m h (mInit m)) (take (Suc n) ps), li, lz)"
      using step(1) n by (simp add: replayPartial_def take_Suc_conv_app_nth)
    moreover have "zip (map int [0..<Suc n]) (take (Suc n) ps) = zip (map int [0..<n]) (take n ps) @ [(int n, ps ! n)]"
      using n by (simp add: take_Suc_conv_app_nth)
    ultimately show ?case using prev(1) step(2) by (auto simp: forR_append)
  qed
  from this [of "length ps"] show ?thesis by simp
qed

text \<open>For every operation of some partial linearization, the entry of \<^verbatim>\<open>Largest\<close> is a longest one that has it.\<close>

definition showsLargest :: "partitionVisualizationData \<Rightarrow> bool" where
  "showsLargest d \<longleftrightarrow> (\<forall>x. case map_of (pvLargest d) x of
     None \<Rightarrow> \<forall>lin \<in> set (pvPartialLinearizations d). x \<notin> lsIndex ` set lin
   | Some i \<Rightarrow> 0 \<le> i \<and> i < int (length (pvPartialLinearizations d)) \<and> x \<in> lsIndex ` set (pvPartialLinearizations d ! nat i) \<and>
       (\<forall>lin \<in> set (pvPartialLinearizations d). x \<in> lsIndex ` set lin \<longrightarrow> length lin \<le> length (pvPartialLinearizations d ! nat i)))"

lemma longer_sorts:
  assumes "sorts sortBy"
  shows "mset (sortBy longerFirst ps) = mset ps" "sorted_wrt (\<lambda>a b. length b \<le> length a) (sortBy longerFirst ps)"
proof -
  have "asymp longerFirst" by (rule asympI) (simp add: longerFirst_def)
  moreover have "transp (\<lambda>a b. \<not> longerFirst b a)" by (rule transpI) (simp add: longerFirst_def)
  ultimately have "mset (sortBy longerFirst ps) = mset ps \<and> sorted_wrt (\<lambda>a b. \<not> longerFirst b a) (sortBy longerFirst ps)"
    using assms unfolding sorts_def by blast
  then show "mset (sortBy longerFirst ps) = mset ps" "sorted_wrt (\<lambda>a b. length b \<le> length a) (sortBy longerFirst ps)"
    by (simp_all add: longerFirst_def not_less)
qed

lemma replayed_members: "lsIndex ` set (replayed m h s ids) = set ids"
  by (metis replayed_ids set_map)

lemma replayed_length: "length (replayed m h s ids) = length ids"
  by (metis length_map replayed_ids)

lemma largestOk_shows:
  assumes "largestOk ps (length ps) (li, lz)" "sorted_wrt (\<lambda>a b. length b \<le> length a) ps"
  shows "showsLargest \<lparr>pvHistory = hist, pvPartialLinearizations = map (replayed m h s) ps, pvLargest = li\<rparr>"
  unfolding showsLargest_def
proof
  fix x
  let ?d = "\<lparr>pvHistory = hist, pvPartialLinearizations = map (replayed m h s) ps, pvLargest = li\<rparr>"
  show "case map_of (pvLargest ?d) x of None \<Rightarrow> \<forall>lin \<in> set (pvPartialLinearizations ?d). x \<notin> lsIndex ` set lin
   | Some i \<Rightarrow> 0 \<le> i \<and> i < int (length (pvPartialLinearizations ?d)) \<and> x \<in> lsIndex ` set (pvPartialLinearizations ?d ! nat i) \<and>
       (\<forall>lin \<in> set (pvPartialLinearizations ?d). x \<in> lsIndex ` set lin \<longrightarrow> length lin \<le> length (pvPartialLinearizations ?d ! nat i))"
  proof -
    consider (none) "\<forall>k < length ps. x \<notin> set (ps ! k)" "map_of li x = None"
      | (first) k where "k < length ps" "x \<in> set (ps ! k)" "\<forall>j < k. x \<notin> set (ps ! j)" "map_of li x = Some (int k)"
      using spec [OF assms(1) [unfolded largestOk_def prod.case], of x] by (elim disjE exE conjE) metis+
    then show ?thesis
    proof cases
      case none
      have "x \<notin> set p" if "p \<in> set ps" for p using none(1) that by (metis in_set_conv_nth)
      with none(2) show ?thesis by (simp add: replayed_members)
    next
      case first
      have "length (ps ! j) \<le> length (ps ! k)" if "j < length ps" "x \<in> set (ps ! j)" for j
      proof (cases "j = k")
        case False
        with that first(3) have "k < j" by (meson linorder_neqE_nat)
        then show ?thesis using assms(2) that(1) by (simp add: sorted_wrt_iff_nth_less)
      qed simp
      then have "length p \<le> length (ps ! k)" if "p \<in> set ps" "x \<in> set p" for p using that by (metis in_set_conv_nth)
      with first show ?thesis by (simp add: replayed_members replayed_length)
    qed
  qed
qed

lemma partitionData_right:
  assumes "sorts sortBy" "describes h (rev es)" "timely h" "describesAll m h"
    and "\<And>p. p \<in> set partials \<Longrightarrow> partial_linearization (Model.truncate m) h p"
  shows "\<exists>d. partitionData sortBy m es partials = Inr d \<and> pvHistory d = map (elementOf m) h \<and>
    pvPartialLinearizations d = map (replayed m h (mInit m)) (sortBy longerFirst partials) \<and> showsLargest d"
proof -
  let ?ps = "sortBy longerFirst partials"
  obtain callValue returnValue where h: "historyElements m es = Inr (map (elementOf m) h, callValue, returnValue)"
    "\<And>i. i < length h \<Longrightarrow> callValue (int i) = opInput (h ! i) \<and> returnValue (int i) = opOutput (h ! i)"
    using historyElements_shown [OF assms(2-4)] by blast
  have "partial_linearization (Model.truncate m) h p" if "p \<in> set ?ps" for p
    using assms(5) that mset_eq_setD [OF longer_sorts(1) [OF assms(1)]] by blast
  from replay_all [OF h(2) this longer_sorts(2) [OF assms(1)]] obtain li lz where
    r: "forR (replayPartial m callValue returnValue) (zip (map int [0..<length ?ps]) ?ps) ([], [], \<lambda>_. 0) =
      Inr (map (replayed m h (mInit m)) ?ps, li, lz)" "largestOk ?ps (length ?ps) (li, lz)" by (metis surj_pair)
  from largestOk_shows [OF r(2) longer_sorts(2) [OF assms(1)], of "map (elementOf m) h" m h "mInit m"] h(1) r(1)
  show ?thesis by (simp add: partitionData_def)
qed

section \<open>From the check to the page\<close>

lemma fillDescribed_simps [simp]:
  "mStep (fillDescribed fmtV fmtS m) = mStep m" "mInit (fillDescribed fmtV fmtS m) = mInit m"
  "mDescribeOperation (fillDescribed fmtV fmtS m) =
     Some (case mDescribeOperation m of None \<Rightarrow> DefaultDescribeOperation fmtV | Some f \<Rightarrow> f)"
  by (simp_all add: fillDescribed_def fillDefault_def Let_def split: option.split)

lemma partial_linearization_cong:
  assumes "mStep m = mStep m'" "mInit m = mInit m'"
  shows "partial_linearization m h ids \<longleftrightarrow> partial_linearization m' h ids"
proof -
  have "legal m s ops \<longleftrightarrow> legal m' s ops" for s ops
    using assms(1) by (induction ops arbitrary: s) (auto split: sum.split bool.splits)
  with assms(2) show ?thesis by (simp add: partial_linearization_def)
qed

text \<open>What is right about the data \<open>d\<close> shown for the history \<open>h\<close> and its recorded sequences.\<close>

definition showsPartition :: "('v, 's) VisualModel \<Rightarrow> 'v Operation list \<Rightarrow> int list list \<Rightarrow> partitionVisualizationData \<Rightarrow> bool" where
  "showsPartition m h partials d \<longleftrightarrow>
     pvHistory d = map (elementOf m) h \<and>
     mset (map (map lsIndex) (pvPartialLinearizations d)) = mset partials \<and>
     (\<forall>lin \<in> set (pvPartialLinearizations d). partial_linearization (Model.truncate m) h (map lsIndex lin)) \<and>
     showsLargest d"

lemma partition_shown:
  assumes "sorts sortBy" "describes h (rev es)" "timely h" "describesAll m h"
    and "\<And>p. p \<in> set partials \<Longrightarrow> partial_linearization (Model.truncate m) h p"
  shows "\<exists>d. partitionData sortBy m es partials = Inr d \<and> showsPartition m h partials d"
proof -
  obtain d where d: "partitionData sortBy m es partials = Inr d" "pvHistory d = map (elementOf m) h"
    "pvPartialLinearizations d = map (replayed m h (mInit m)) (sortBy longerFirst partials)" "showsLargest d"
    using partitionData_right [OF assms] by blast
  have "map (map lsIndex) (pvPartialLinearizations d) = sortBy longerFirst partials" using d(3) by (simp add: o_def)
  then have ids: "mset (map (map lsIndex) (pvPartialLinearizations d)) = mset partials" using longer_sorts(1) [OF assms(1)] by simp
  then have "map lsIndex lin \<in> set partials" if "lin \<in> set (pvPartialLinearizations d)" for lin
    using that mset_eq_setD [OF ids] by auto
  with d(1,2,4) ids assms(5) show ?thesis unfolding showsPartition_def by blast
qed

text \<open>
  C22. The visualization of a check: after a verbose check of a history, for every order in which its
  goroutines finish and however they are stopped, \<^verbatim>\<open>computeVisualizationData\<close> returns, so its panic on an
  illegal partial linearization is unreachable. For every partition it shows each operation with its
  client, its times and its description; the sequences shown are those the check recorded, and each is a
  partial linearization of the partition (different operations, legal from the initial state, none called
  after a missing one returned); and for every operation in one of them, \<^verbatim>\<open>Largest\<close> names a longest that has it.
\<close>

theorem visualization_right:
  assumes "sorts sortBy" "sorts sortPartials" "equalOK (fillDefault (Model.truncate m))"
    and "the (mPartition (fillDefault (Model.truncate m))) h = Inr hs" "hs \<noteq> []"
    and "\<forall>p \<in> set hs. timely p \<and> stepsTotal (Model.truncate m) p \<and> checkBound p \<le> fuel \<and> describesAll (fillDescribed fmtV fmtS m) p"
    and "mset is = mset [0..<length hs]"
  shows "\<exists>result info data. CheckOperationsVerbose sortBy fuel (Model.truncate m) h (map Result is) stopped = Inr (Some (result, info)) \<and>
    computeVisualizationData fmtV fmtS sortPartials m info = Inr data \<and> length data = length hs \<and>
    (\<forall>k < length hs. showsPartition (fillDescribed fmtV fmtS m) (hs ! k) (liPartial info ! k) (data ! k))"
proof -
  let ?m = "fillDefault (Model.truncate m)" and ?v = "fillDescribed fmtV fmtS m"
  obtain info where info: "checkParallel fuel ?m (map (makeEntries sortBy) hs) True (map Result is) stopped =
      Inr (Some (if \<forall>p \<in> set hs. linearizable ?m p then Ok else Illegal, info))"
    using checkParallel_decides [OF assms(1,3,5) _ assms(7), of fuel True stopped] assms(6) by auto
  note i = checkParallel_info(1,2) [OF info]
  let ?part = "\<lambda>p. rbind (at (liHistory info) (int p)) (\<lambda>entries. rbind (at (liPartial info) (int p)) (partitionData sortPartials ?v entries))"
  have "\<exists>d. ?part k = Inr d \<and> showsPartition ?v (hs ! k) (liPartial info ! k) d" if k: "k < length hs" for k
  proof -
    have hk: "timely (hs ! k)" "stepsTotal ?m (hs ! k)" "describesAll ?v (hs ! k)" using assms(6) k by simp_all
    have "partial_linearization (Model.truncate ?v) (hs ! k) ids" if "ids \<in> set (liPartial info ! k)" for ids
      using checkParallel_partial [OF assms(1,3) info k hk(1,2) that] partial_linearization_cong [of "Model.truncate ?v" ?m] by simp
    from partition_shown [OF assms(2) makeEntries_describes [OF assms(1)] hk(1,3) this] show ?thesis using i k by (simp add: at_def)
  qed
  then obtain f where f: "\<And>k. k < length hs \<Longrightarrow> ?part k = Inr (f k) \<and> showsPartition ?v (hs ! k) (liPartial info ! k) (f k)" by metis
  then have "mapR ?part [0..<length hs] = Inr (map f [0..<length hs])" by (intro mapR_total) simp
  then have "computeVisualizationData fmtV fmtS sortPartials m info = Inr (map f [0..<length hs])"
    using i(1) by (simp add: computeVisualizationData_def)
  moreover have "CheckOperationsVerbose sortBy fuel (Model.truncate m) h (map Result is) stopped =
      Inr (Some (if \<forall>p \<in> set hs. linearizable ?m p then Ok else Illegal, info))"
    using info assms(4) by (simp add: CheckOperationsVerbose_def checkOperations_def)
  ultimately show ?thesis using f by (intro exI [of _ info] exI [of _ "map f [0..<length hs]"] exI) auto
qed

theorem visualization_right_witness:
  "\<exists>result info data. CheckOperationsVerbose insertionSort 100000 KvModel staleHistory (map Result [0]) (\<lambda>_ _. False) = Inr (Some (result, info)) \<and>
     computeVisualizationData (\<lambda>_. ''?'') (\<lambda>s. s) insertionSort KvVisualModel info = Inr data \<and>
     map heDescription (pvHistory (data ! 0)) = [''put('' @ quoted ''x'' @ '', '' @ quoted ''1'' @ '')'', ''get('' @ quoted ''x'' @ '') -> '' @ quoted '''']"
proof -
  have eq: "equalOK (fillDefault KvModel)" by (rule equalOK_default) (simp add: KvModel_def)
  have part: "the (mPartition (fillDefault KvModel)) staleHistory = Inr [staleHistory]"
    by (simp add: KvModel_def kvPartition_def staleHistory_def opPut_def opGet_def asKvInput_def mget_def)
  have d: "describesAll (fillDescribed (\<lambda>_. ''?'') (\<lambda>s. s) KvVisualModel) staleHistory"
    by (simp add: describesAll_def staleHistory_def opPut_def opGet_def kvDescribeOperation_def asKvInput_def asKvOutput_def)
  have each: "\<forall>p \<in> set [staleHistory]. timely p \<and> stepsTotal (Model.truncate KvVisualModel) p \<and> checkBound p \<le> 100000 \<and>
      describesAll (fillDescribed (\<lambda>_. ''?'') (\<lambda>s. s) KvVisualModel) p"
    using histories_ok(3,4) kvStep_total d by (auto simp: checkBound_def searchBound_def staleHistory_def)
  have texts: "map heDescription (map (elementOf (fillDescribed (\<lambda>_. ''?'') (\<lambda>s. s) KvVisualModel)) staleHistory) =
      [''put('' @ quoted ''x'' @ '', '' @ quoted ''1'' @ '')'', ''get('' @ quoted ''x'' @ '') -> '' @ quoted '''']"
    by (simp add: elementOf_def staleHistory_def opPut_def opGet_def kvDescribeOperation_def asKvInput_def asKvOutput_def)
  obtain result info data where r: "CheckOperationsVerbose insertionSort 100000 KvModel staleHistory (map Result [0]) (\<lambda>_ _. False) = Inr (Some (result, info))"
    "computeVisualizationData (\<lambda>_. ''?'') (\<lambda>s. s) insertionSort KvVisualModel info = Inr data"
    "showsPartition (fillDescribed (\<lambda>_. ''?'') (\<lambda>s. s) KvVisualModel) staleHistory (liPartial info ! 0) (data ! 0)"
    using visualization_right [OF insertionSort_sorts insertionSort_sorts _ _ _ each, of staleHistory "[0]" "\<lambda>_ _. False"] eq part by auto
  show ?thesis using r(1,2) texts r(3) [unfolded showsPartition_def] by metis
qed

section \<open>The page\<close>

text \<open>Characters that are no markup: neither \<^verbatim>\<open>&\<close> nor angle brackets.\<close>

definition plain :: "string \<Rightarrow> bool" where
  "plain s \<longleftrightarrow> (\<forall>c \<in> set s. of_char c \<notin> {38, 60, 62 :: nat})"

lemma plain_simps [simp]:
  "plain []" "plain (c # s) \<longleftrightarrow> of_char c \<notin> {38, 60, 62 :: nat} \<and> plain s" "plain (s @ t) \<longleftrightarrow> plain s \<and> plain t"
  by (auto simp: plain_def)

lemma plain_Itoa: "plain (Itoa k)"
proof -
  have "plain (digits k)" for k
  proof (induction k rule: digits.induct)
    case (1 k)
    then show ?case by (subst digits.simps) (auto simp: digit_char)
  qed
  then show ?thesis by (simp add: Itoa_def)
qed

lemma plain_jsonChar: "plain (jsonChar c)"
proof -
  have "plain [hexDigit d]" if "d < 16" for d
  proof (cases "d < 10")
    case True
    then show ?thesis by (simp add: hexDigit_def digit_char)
  next
    case False
    then show ?thesis using that by (simp add: hexDigit_def)
  qed
  moreover have "(of_char c :: nat) div 16 < 16" "(of_char c :: nat) mod 16 < 16" by (auto simp: less_mult_imp_div_less)
  ultimately show ?thesis by (auto simp: jsonChar_def jsonEscape_def Let_def)
qed

lemma plain_jsonString: "plain (jsonString s)"
  using plain_jsonChar by (induction s) (simp_all add: jsonString_def)

lemma plain_commas: "(\<And>x. x \<in> set xs \<Longrightarrow> plain x) \<Longrightarrow> plain (commas xs)"
  by (induction xs rule: commas.induct) simp_all

lemma plain_jsonArray: "(\<And>x. x \<in> set xs \<Longrightarrow> plain (f x)) \<Longrightarrow> plain (jsonArray f xs)"
  by (auto simp: jsonArray_def intro!: plain_commas)

lemma plain_jsonObject: "(\<And>k v. (k, v) \<in> set kvs \<Longrightarrow> plain v) \<Longrightarrow> plain (jsonObject kvs)"
  by (auto simp: jsonObject_def plain_jsonString intro!: plain_commas)

text \<open>Whatever keys, values and states are called, the data put into the page contain no markup, so they
  cannot end the script.\<close>

lemma marshal_plain: "plain (Marshal data)"
proof -
  have "plain (jsonElement he)" for he by (auto simp: jsonElement_def plain_Itoa plain_jsonString intro!: plain_jsonObject)
  moreover have "plain (jsonStep ls)" for ls by (auto simp: jsonStep_def plain_Itoa plain_jsonString intro!: plain_jsonObject)
  ultimately have "plain (jsonPartition pv)" for pv
    by (auto simp: jsonPartition_def plain_Itoa intro!: plain_jsonObject plain_jsonArray)
  then show ?thesis by (simp add: Marshal_def plain_jsonArray)
qed

end
