(* ===== verification/Logging.thy ===== *)
theory Logging
  imports KV_Server Shard_Ctrler Go_Text
begin

text \<open>
  The debug output: \<^verbatim>\<open>raft/util.go\<close>, and the \<^verbatim>\<open>Debug\<close> and \<^verbatim>\<open>init\<close> of the two services. A line of the log starts with a prefix
  that puts the output of server \<open>i\<close> into column \<open>i\<close>. How \<^verbatim>\<open>%v\<close> prints a command is an argument (\<open>fmtC\<close>), the value
  of an environment variable is one, empty when it is not set, and so is \<open>sprintf\<close>, which fills the arguments of the caller
  into a format. A clock reading is the time since the start in microseconds. A log that is printed to is a list of lines.
\<close>

section \<open>Text of numbers and states\<close>

text \<open>\<^verbatim>\<open>strconv.Atoi\<close>: a sign and decimal digits, a number of 64 bits. The second result says that there is no error;
  a number that does not fit gives the nearest that does.\<close>

definition isDigit :: "char \<Rightarrow> bool" where
  "isDigit c \<longleftrightarrow> 48 \<le> (of_char c :: nat) \<and> (of_char c :: nat) \<le> 57"

definition unsign :: "string \<Rightarrow> bool \<times> string" where
  "unsign s =
     (case s of [] \<Rightarrow> (False, s)
      | c # ds \<Rightarrow> if c = CHR ''-'' then (True, ds) else if c = CHR ''+'' then (False, ds) else (False, s))"

definition Atoi :: "string \<Rightarrow> int \<times> bool" where
  "Atoi s =
     (case unsign s of (neg, ds) \<Rightarrow>
        if ds = [] \<or> \<not> list_all isDigit ds then (0, False)
        else let k = (if neg then - int (digitsValue ds) else int (digitsValue ds))
             in if k < - (2 ^ 63) then (- (2 ^ 63), False) else if 2 ^ 63 \<le> k then (2 ^ 63 - 1, False) else (k, True))"

definition Repeat :: "string \<Rightarrow> int \<Rightarrow> string res" where
  "Repeat s n = (if n < 0 then Inl (Panic ''strings: negative Repeat count'') else Inr (concat (replicate (nat n) s)))"

text \<open>\<^verbatim>\<open>%-5s\<close> and \<^verbatim>\<open>%0wd\<close>; the sign counts in the width.\<close>

definition padRight :: "nat \<Rightarrow> string \<Rightarrow> string" where
  "padRight w s = s @ replicate (w - length s) (CHR '' '')"

definition zeroPad :: "nat \<Rightarrow> int \<Rightarrow> string" where
  "zeroPad w k =
     (let ds = digits (nat \<bar>k\<bar>); z = replicate (w - length ds - (if k < 0 then 1 else 0)) (CHR ''0'')
      in (if k < 0 then ''-'' else '''') @ z @ ds)"

fun StateString :: "State \<Rightarrow> string" where
  "StateString Follower = ''F''"
| "StateString Candidate = ''C''"
| "StateString Leader = ''L''"

definition LogEntryString :: "('c option \<Rightarrow> string) \<Rightarrow> 'c LogEntry \<Rightarrow> string" where
  "LogEntryString fmtC e = CHR 0x7B # Itoa (eIndex e) @ '' t'' @ Itoa (eTerm e) @ '' '' @ fmtC (eCommand e) @ [CHR 0x7D]"

text \<open>\<^verbatim>\<open>%v\<close> of a slice.\<close>

definition fmtSlice :: "('a \<Rightarrow> string) \<Rightarrow> 'a list \<Rightarrow> string" where
  "fmtSlice f xs = ''['' @ concat (map (\<lambda>(i, x). if i = 0 then f x else '' '' @ f x) (enumerate 0 xs)) @ '']''"

section \<open>raft/util.go\<close>

datatype logTopic = dLog | dVote | dElection | dHeartbeat | dClient | dCommit | dLeader | dPersist | dSnapshot
  | dTrace | dInfo | dWarn | dError | dFatal

fun topicString :: "logTopic \<Rightarrow> string" where
  "topicString dLog = ''LOG''"
| "topicString dVote = ''VOTE''"
| "topicString dElection = ''ELCT''"
| "topicString dHeartbeat = ''HRBT''"
| "topicString dClient = ''CLNT''"
| "topicString dCommit = ''CMIT''"
| "topicString dLeader = ''LEAD''"
| "topicString dPersist = ''PERS''"
| "topicString dSnapshot = ''SNAP''"
| "topicString dTrace = ''TRACE''"
| "topicString dInfo = ''INFO''"
| "topicString dWarn = ''WARN''"
| "topicString dError = ''ERROR''"
| "topicString dFatal = ''FATAL''"

definition getVerbosity :: "string \<Rightarrow> int res" where
  "getVerbosity v =
     (if v \<noteq> '''' then (case Atoi v of (level, ok) \<Rightarrow> if ok then Inr level else Inl (Panic (''Invalid verbosity '' @ v)))
      else Inr 0)"

definition FormatLog :: "int \<Rightarrow> ('c option \<Rightarrow> string) \<Rightarrow> ('c, 's) Raft \<Rightarrow> string" where
  "FormatLog verbosity fmtC rf =
     (if verbosity > 1 then concat (map (\<lambda>e. LogEntryString fmtC e @ '' '') (drop 1 (rf_log rf)))
      else ''require getVerbosity() > 1'')"

definition FormatFullLog :: "int \<Rightarrow> ('c option \<Rightarrow> string) \<Rightarrow> ('c, 's) Raft \<Rightarrow> string res" where
  "FormatFullLog verbosity fmtC rf =
     (if verbosity > 1
      then rbind (at (rf_log rf) 0) (\<lambda>e. Inr (LogEntryString fmtC e @ '' '' @ FormatLog verbosity fmtC rf))
      else Inr ''require getVerbosity() > 1'')"

definition FormatStateOnly :: "('c, 's) Raft \<Rightarrow> string" where
  "FormatStateOnly rf =
     ''commitIndex='' @ Itoa (rf_commitIndex rf) @ '' lastApplied='' @ Itoa (rf_lastApplied rf) @
     '' nextIndex='' @ fmtSlice Itoa (rf_nextIndex rf) @ '' matchIndex='' @ fmtSlice Itoa (rf_matchIndex rf)"

definition FormatState :: "('c option \<Rightarrow> string) \<Rightarrow> ('c, 's) Raft \<Rightarrow> string" where
  "FormatState fmtC rf = FormatStateOnly rf @ ''  full log: '' @ fmtSlice (LogEntryString fmtC) (rf_log rf)"

definition Padding :: string where
  "Padding = ''    ''"

definition Microseconds :: "int \<Rightarrow> string" where
  "Microseconds t = zeroPad 6 (t div 100)"

definition debugPrefix :: "int \<Rightarrow> logTopic \<Rightarrow> ('c, 's) Raft \<Rightarrow> string res" where
  "debugPrefix now topic rf =
     rbind (Repeat Padding (rf_me rf)) (\<lambda>preamble.
     rbind (Repeat Padding (int (rf_peers rf) - rf_me rf - 1)) (\<lambda>epilogue.
       Inr (preamble @ Microseconds now @ '' '' @ padRight 5 (topicString topic) @ '' ['' @ StateString (rf_state rf) @
            '' t'' @ zeroPad 2 (rf_term rf) @ '' S'' @ Itoa (rf_me rf) @ ''] '' @ epilogue)))"

definition Sdebug :: "(string \<Rightarrow> string) \<Rightarrow> int \<Rightarrow> logTopic \<Rightarrow> string \<Rightarrow> ('c, 's) Raft \<Rightarrow> string res" where
  "Sdebug sprintf now topic format rf = rbind (debugPrefix now topic rf) (\<lambda>prefix. Inr (sprintf (prefix @ format)))"

definition Debug :: "int \<Rightarrow> (string \<Rightarrow> string) \<Rightarrow> int \<Rightarrow> logTopic \<Rightarrow> string \<Rightarrow> ('c, 's) Raft \<Rightarrow> string list \<Rightarrow> string list res" where
  "Debug verbosity sprintf now topic format rf out =
     (if verbosity > 0 then rbind (Sdebug sprintf now topic format rf) (\<lambda>line. Inr (out @ [line])) else Inr out)"

section \<open>The services\<close>

definition servicePrefix :: "int \<Rightarrow> int \<Rightarrow> int \<Rightarrow> string res" where
  "servicePrefix now me serversLen =
     rbind (Repeat Padding me) (\<lambda>preamble.
     rbind (Repeat Padding (serversLen - me - 1)) (\<lambda>epilogue.
       Inr (preamble @ Microseconds now @ '' S'' @ Itoa me @ '' '' @ epilogue @ ''[SERVER] '')))"

text \<open>What \<^verbatim>\<open>init\<close> finds in the environment: whether the log is thrown away, and whether the controller is quiet.\<close>

definition kvInit :: "string \<Rightarrow> bool" where
  "kvInit v = ((if v \<noteq> '''' then fst (Atoi v) else 0) < 1)"

definition kvDebug :: "bool \<Rightarrow> (string \<Rightarrow> string) \<Rightarrow> int \<Rightarrow> string \<Rightarrow> KVServer \<Rightarrow> string list \<Rightarrow> string list res" where
  "kvDebug discard sprintf now format kv out =
     rbind (servicePrefix now (kv_me kv) (int (kv_serversLen kv))) (\<lambda>prefix.
       Inr (if discard then out else out @ [sprintf (prefix @ format)]))"

definition scInit :: "string \<Rightarrow> string option \<Rightarrow> bool \<times> bool" where
  "scInit v quietVar = ((if v \<noteq> '''' then fst (Atoi v) else 0) < 1, quietVar \<noteq> None)"

definition scDebug :: "bool \<times> bool \<Rightarrow> (string \<Rightarrow> string) \<Rightarrow> int \<Rightarrow> string \<Rightarrow> ShardCtrler \<Rightarrow> string list \<Rightarrow> string list res" where
  "scDebug env sprintf now format sc out =
     (case env of (discard, quiet) \<Rightarrow>
        if quiet then Inr out
        else rbind (servicePrefix now (sc_me sc) (int (sc_serversLen sc))) (\<lambda>prefix.
               Inr (if discard then out else out @ [sprintf (prefix @ format)])))"

definition LeaderDebug :: "bool \<times> bool \<Rightarrow> (string \<Rightarrow> string) \<Rightarrow> int \<Rightarrow> string \<Rightarrow> ShardCtrler \<Rightarrow> string list \<Rightarrow> string list res" where
  "LeaderDebug env sprintf now format sc out =
     (if snd (GetState (sc_rf sc)) then scDebug env sprintf now format sc out else Inr out)"

section \<open>What a line looks like\<close>

lemma isDigit_digits: "list_all isDigit (digits k)"
proof (induction k rule: digits.induct)
  case (1 k)
  have "isDigit (digit d)" if "d < 10" for d using digit_char [OF that] that by (simp add: isDigit_def)
  with 1 show ?case by (subst digits.simps) auto
qed

lemma digits_nonempty [simp]: "digits k \<noteq> []"
  by (subst digits.simps) simp

text \<open>Reading a number that was written gives the number back, over the whole range of \<^verbatim>\<open>int\<close>.\<close>

lemma Atoi_Itoa:
  assumes "- (2 ^ 63) \<le> k" "k < 2 ^ 63"
  shows "Atoi (Itoa k) = (k, True)"
proof (cases "k < 0")
  case True
  then have "unsign (Itoa k) = (True, digits (nat (- k)))" by (simp add: Itoa_def unsign_def)
  with True assms show ?thesis by (simp add: Atoi_def isDigit_digits digitsValue_digits)
next
  case False
  obtain c ds where c: "digits (nat k) = c # ds" using digits_nonempty by (cases "digits (nat k)") auto
  then have "isDigit c" using isDigit_digits [of "nat k"] by simp
  then have "c \<noteq> CHR ''-''" "c \<noteq> CHR ''+''" by (auto simp: isDigit_def)
  then have "unsign (Itoa k) = (False, digits (nat k))" using False c by (simp add: Itoa_def unsign_def)
  with False assms show ?thesis by (simp add: Atoi_def isDigit_digits digitsValue_digits)
qed

lemma verbosity_written: "0 \<le> k \<Longrightarrow> k < 2 ^ 63 \<Longrightarrow> getVerbosity (Itoa k) = Inr k"
  using Atoi_Itoa [of k] by (simp add: getVerbosity_def Itoa_def)

lemma no_percent:
  "CHR 0x25 \<notin> set (digits k)" "CHR 0x25 \<notin> set (Itoa i)" "CHR 0x25 \<notin> set (zeroPad w i)" "CHR 0x25 \<notin> set (padRight w (topicString t))"
  "CHR 0x25 \<notin> set (StateString s)"
proof -
  show d: "CHR 0x25 \<notin> set (digits k)" for k using isDigit_digits [of k] by (auto simp: list_all_iff isDigit_def)
  then show "CHR 0x25 \<notin> set (Itoa i)" "CHR 0x25 \<notin> set (zeroPad w i)" by (auto simp: Itoa_def zeroPad_def Let_def)
  show "CHR 0x25 \<notin> set (padRight w (topicString t))" by (cases t) (auto simp: padRight_def)
  show "CHR 0x25 \<notin> set (StateString s)" by (cases s) auto
qed

text \<open>The output of server \<open>i\<close> starts in column \<open>4 * i\<close>, the text of all servers starts in the same column, and the prefix has no
  percent sign that would take an argument meant for the text.\<close>

lemma debugPrefix_columns:
  assumes "0 \<le> rf_me rf" "rf_me rf < int (rf_peers rf)"
  obtains pre mid post where "debugPrefix now topic rf = Inr (pre @ mid @ post)" "length pre = 4 * nat (rf_me rf)"
    "length pre + length post = 4 * (rf_peers rf - 1)" "CHR 0x25 \<notin> set (pre @ mid @ post)"
proof -
  let ?pre = "concat (replicate (nat (rf_me rf)) Padding)" and ?post = "concat (replicate (nat (int (rf_peers rf) - rf_me rf - 1)) Padding)"
  let ?mid = "Microseconds now @ '' '' @ padRight 5 (topicString topic) @ '' ['' @ StateString (rf_state rf) @
     '' t'' @ zeroPad 2 (rf_term rf) @ '' S'' @ Itoa (rf_me rf) @ ''] ''"
  have len: "length (concat (replicate n Padding)) = 4 * n" for n by (induction n) (simp_all add: Padding_def)
  have "debugPrefix now topic rf = Inr (?pre @ ?mid @ ?post)" using assms by (simp add: debugPrefix_def Repeat_def)
  moreover have "length ?pre = 4 * nat (rf_me rf)" by (rule len)
  moreover have "length ?pre + length ?post = 4 * (rf_peers rf - 1)" using assms by (simp add: len)
  moreover have "CHR 0x25 \<notin> set (?pre @ ?mid @ ?post)" by (auto simp: no_percent Microseconds_def Padding_def)
  ultimately show thesis by (rule that)
qed

end
