(* ===== verification/Raft_Loops.thy ===== *)
theory Raft_Loops
  imports Raft_Leader
begin

text \<open>
  When a Raft server sends: \<^verbatim>\<open>BroadcastHeartbeat\<close> and the loop \<^verbatim>\<open>DoHeartbeat\<close> of \<^verbatim>\<open>raft/raft.go\<close>, which start
  \<^verbatim>\<open>Replicate\<close> for the peers. A heartbeat is an \<^verbatim>\<open>AppendEntries\<close> with whatever the peer is still missing, so replication
  goes on with every round; the loop \<^verbatim>\<open>DoReplicate\<close> never gets to send the last entry.
\<close>

text \<open>The peers for which a goroutine runs \<^verbatim>\<open>Replicate\<close>.\<close>

definition BroadcastHeartbeat :: "('c, 's) Raft \<Rightarrow> int list" where
  "BroadcastHeartbeat rf = filter (\<lambda>i. i \<noteq> rf_me rf) (map int [0..<rf_peers rf])"

text \<open>The rounds of \<^verbatim>\<open>DoHeartbeat\<close>, each with what it reads: whether the server is killed, and the server after the sleep.\<close>

fun DoHeartbeat :: "(bool \<times> ('c, 's) Raft) list \<Rightarrow> int list list" where
  "DoHeartbeat [] = []"
| "DoHeartbeat ((dead, rf) # rounds) =
     (if dead then [] else (if needHeartbeat rf then BroadcastHeartbeat rf else []) # DoHeartbeat rounds)"

lemma broadcast_peers: "set (BroadcastHeartbeat rf) = {0..<int (rf_peers rf)} - {rf_me rf}" "distinct (BroadcastHeartbeat rf)"
proof -
  have "int ` {0..<n} = {0..<int n}" for n by (simp add: image_int_atLeastLessThan)
  then show "set (BroadcastHeartbeat rf) = {0..<int (rf_peers rf)} - {rf_me rf}" by (auto simp: BroadcastHeartbeat_def)
  show "distinct (BroadcastHeartbeat rf)" by (simp add: BroadcastHeartbeat_def distinct_map)
qed

lemma DoHeartbeat_round:
  assumes "k < length rounds" "\<And>j. j \<le> k \<Longrightarrow> \<not> fst (rounds ! j)" "needHeartbeat (snd (rounds ! k))"
  shows "DoHeartbeat rounds ! k = BroadcastHeartbeat (snd (rounds ! k))"
  using assms
proof (induction rounds arbitrary: k)
  case (Cons r rounds)
  obtain dead rf where r: "r = (dead, rf)" by (cases r)
  have alive: "\<not> dead" using Cons.prems(2) [of 0] r by simp
  show ?case
  proof (cases k)
    case 0
    then show ?thesis using alive r Cons.prems(3) by simp
  next
    case (Suc j)
    have "DoHeartbeat rounds ! j = BroadcastHeartbeat (snd (rounds ! j))"
      using Cons.prems Suc by (intro Cons.IH) force+
    then show ?thesis using alive r Suc by simp
  qed
qed simp

text \<open>In every round of a leader each peer it has not compacted away is sent all entries it may be missing.\<close>

lemma heartbeat_replicates:
  assumes "wf_log (rf_log rf)" "rf_state rf = Leader" "length (rf_nextIndex rf) = rf_peers rf" "p \<in> set (BroadcastHeartbeat rf)"
    and "base (rf_log rf) < rf_nextIndex rf ! nat p" "rf_nextIndex rf ! nat p \<le> tailIndex (rf_log rf) + 1"
  obtains args where "Replicate p rf = Inr (Some (CallAppendEntries args))"
    "aeEntries args = drop (nat (rf_nextIndex rf ! nat p - base (rf_log rf))) (rf_log rf)" "aeTerm args = rf_term rf"
    "aePrevLogIndex args = rf_nextIndex rf ! nat p - 1"
proof -
  have "0 \<le> p" "p < int (length (rf_nextIndex rf))" using assms(3,4) broadcast_peers(1) [of rf] by auto
  from Replicate_append [OF assms(1,2) this refl assms(5,6)] show thesis by (auto intro: that)
qed

text \<open>With one entry to send, \<^verbatim>\<open>needReplicate\<close> says that there is nothing to do.\<close>

lemma needReplicate_misses_last:
  assumes "wf_log (rf_log rf)" "0 \<le> p" "p < int (length (rf_nextIndex rf))" "rf_nextIndex rf ! nat p = tailIndex (rf_log rf)"
  shows "needReplicate p rf = Inr False"
proof -
  have ne: "rf_log rf \<noteq> []" using assms(1) by auto
  obtain e where "GetLogAtIndex (rf_log rf) (tailIndex (rf_log rf)) = Inr (Some e)"
    using GetLogAtIndex_wf [OF assms(1) base_le_tailIndex [OF ne]] by blast
  then show ?thesis using assms(2-4) ne by (simp add: needReplicate_def at_in_range wf_log_last [OF assms(1)])
qed

end
