(* ===== verification/Spec2Isabelle.thy ===== *)
theory Spec2Isabelle
  imports Raft_Safety KV_Replicas KV_Clerk Shard_Ctrler_Props Sharded_KV KV_Linear
    Labrpc_Props Labgob_Check Raft_Tester_Props KV_Tester_Props Ctrler_Tester_Props Sharded_Tester_Props
    Visualization_Props Logging Raft_Loops
begin

text \<open>
  A verification library for the distributed database of this repository: a Raft consensus
  module, a replicated key/value store on it, a replicated shard controller, a sharded store, the
  simulated network they run over, and the testers and the linearizability checker of its tests.
  Definitions are translations of the Go sources under \<^verbatim>\<open>src/src\<close>; theorems state what makes each part
  correct, and, where the code has a flaw, exactly what it does instead.

  \<^bold>\<open>Conventions.\<close> A struct is a record, a method is a function on it, one definition per critical
  section (what runs while the mutex is held). A run-time panic is \<open>Inl\<close> of \<open>go_panic\<close>, a value
  \<open>Inr\<close>; \<open>rbind\<close> sequences. Loops that may not end are \<open>while_option\<close> or take fuel, and \<open>None\<close>
  means that they did not return. Go's \<^verbatim>\<open>int\<close> is \<^typ>\<open>int\<close> (terms, indices and lengths stay far
  below \<open>2 ^ 63\<close>); \<^verbatim>\<open>uint32\<close>, \<^verbatim>\<open>uint64\<close>, \<^verbatim>\<open>int32\<close> identifiers and counters are words. Time,
  random numbers, the outcome of remote calls and Go's map iteration order are arguments.

  \<^bold>\<open>Parts and theories.\<close>
  \<^item> \<open>Go_Prelude\<close>: panics, slices with bounds checks, loops that may panic, majorities (locale
    \<open>quorum_system\<close>). \<open>Go_Text\<close>: numbers as text.
  \<^item> \<open>Labgob\<close>, \<open>Persister\<close>: encoded streams (\<^verbatim>\<open>util_files/labgob\<close>) and the stable storage of
    \<^verbatim>\<open>raft/persister.go\<close>.
  \<^item> \<open>Raft\<close>, \<open>Raft_Handlers\<close>: the record and the operations of \<^verbatim>\<open>raft/raft.go\<close>: \<^verbatim>\<open>RequestVote\<close>,
    \<^verbatim>\<open>AppendEntries\<close>, \<^verbatim>\<open>InstallSnapshot\<close>, \<^verbatim>\<open>DoElection\<close> with the handling of the replies, \<^verbatim>\<open>Replicate\<close>
    and \<^verbatim>\<open>Sync\<close>, \<^verbatim>\<open>DoApply\<close>, \<^verbatim>\<open>Snapshot\<close>, \<^verbatim>\<open>CondInstallSnapshot\<close>, \<^verbatim>\<open>Start\<close>, \<^verbatim>\<open>Make\<close>, \<^verbatim>\<open>Kill\<close>.
  \<^item> \<open>Raft_Log\<close>, \<open>Raft_Replication\<close>, \<open>Raft_Leader\<close>, \<open>Raft_Apply\<close>: well-formed logs, and the
    behaviour of each operation on every branch: the merge of received entries against a
    reference merge, refusals, the commit rule, the search for the point of agreement, in-order
    application, compaction, granting of votes. \<open>Raft_Loops\<close>: the heartbeats, which drive replication.
  \<^item> \<open>Election\<close>: the abstract election protocol, a guarded event system over a quorum system, with
    election safety. \<open>Raft_Node\<close>: the condition that relates a server's memory and its storage, and
    that every operation keeps it. \<open>Raft_Cluster\<close>: a cluster of servers and a network that loses,
    delays and reorders messages, with crashes and restarts, as the step relation
    \<open>cstep\<close>; every step refines steps of \<open>Election\<close>. \<open>Raft_Cluster_Log\<close>: the invariant on logs and
    messages of reachable clusters. \<open>Raft_Run\<close>, \<open>Raft_Run_Commit\<close>: a concrete run of three servers that
    elect a leader, replicate a command and apply it, for the witnesses.
  \<^item> \<open>Agreement\<close>: the abstract protocol of log replication, with the history of leaders, votes and
    acknowledgements in its state, and why committed entries are never lost (locale
    \<open>replication\<close>, over a quorum system). \<open>Agreement_Steps\<close>: its invariant is inductive.
    \<open>Raft_Agreement\<close>: the relation between a server or a message and the protocol, and what each
    handler is in the protocol. \<open>Raft_Safety\<close>: every step of a cluster refines steps of \<open>Agreement\<close>;
    hence servers never apply different commands at an index, a leader has all that was applied
    before, and no message makes a server panic. \<open>Raft_Service\<close>: the steps of a cluster as the services on
    it see them.
  \<^item> \<open>Service\<close>: what the replicated services share, as locales: \<open>snapshot_service\<close> (a snapshot
    read back gives the state) and \<open>dedup_service\<close> (with a table of last requests, every request
    takes effect once). Both services interpret them.
  \<^item> \<open>KV_Server\<close>, \<open>KV_Store\<close>, \<open>KV_Clerk\<close>: \<^verbatim>\<open>raft-db\<close>. \<open>KV_Cluster\<close>, \<open>KV_Replicas\<close>: key/value servers on a
    cluster of Raft servers, with their channels, snapshots and restarts; every replica's store is
    what a prefix of one common log of commands produces. \<open>Shard_Config\<close>, \<open>Shard_Ctrler\<close>,
    \<open>Shard_Ctrler_Props\<close>, \<open>Shard_Clerk\<close>: \<^verbatim>\<open>shard-controller\<close>. \<open>Sharded_KV\<close>: \<^verbatim>\<open>raft-db-sharded\<close>.
  \<^item> \<open>Bitset\<close>, \<open>Porcupine\<close>: \<^verbatim>\<open>test_files/porcupine\<close>, with the doubly linked list of the search
    kept in an explicit heap. \<open>Porcupine_List\<close>: taking an entry out of the list and putting it back
    restores the heap. \<open>Porcupine_Heap\<close>: the heap the search starts from. \<open>Porcupine_Search\<close>: the
    backtracking search ends and finds a completion exactly if there is one. \<open>Porcupine_Linear\<close>: a
    completion is a linearization, so the checker decides linearizability. \<open>KV_Model\<close>:
    \<^verbatim>\<open>models/kv.go\<close>, and that checking key by key decides the whole store. \<open>KV_Linear\<close>: the histories of
    the key/value service are linearizable. \<open>Porcupine_Partial\<close>: every sequence the search records is a
    partial linearization. \<open>Visualization\<close>, \<open>KV_Visual\<close>, \<open>Visualization_Props\<close>: the data
    \<^verbatim>\<open>visualization.go\<close> shows of a check, their JSON text, and that they are right.
  \<^item> \<open>Labgob_Check\<close>: the checks of types and variables that \<^verbatim>\<open>util_files/labgob\<close> makes before it
    encodes and decodes. \<open>Labrpc\<close>: the simulated network of \<^verbatim>\<open>util_files/labrpc\<close>, its servers and
    services, and the goroutines of its calls as steps a schedule orders. \<open>Labrpc_Props\<close>: handlers are
    executed at most once, a positive answer is the handler's, a removed server never answers.
  \<^item> \<open>Raft_Tester\<close>: \<^verbatim>\<open>raft/config.go\<close>, which puts servers, storage and network together.
    \<open>Raft_Tester_Props\<close>: partitions are what the tests take them for, restarts keep the storage, the
    check for one leader cannot fail on a cluster of \<open>Raft_Cluster\<close>, agreements reported are agreements.
  \<^item> \<open>Service_Tester\<close>: what \<^verbatim>\<open>raft-db/config.go\<close> and \<^verbatim>\<open>shard-controller/config.go\<close> share, for any kind
    of server; \<open>KV_Tester\<close>, \<open>Ctrler_Tester\<close>: the two testers. \<open>Service_Tester_Props\<close>: every end leads to
    the server it is for, partitions switch exactly the links they name, and a restarted server has its
    log (locale \<open>tested_service\<close>, interpreted on both servers in \<open>KV_Tester_Props\<close> and
    \<open>Ctrler_Tester_Props\<close>). \<open>Sharded_Tester\<close>, \<open>Sharded_Tester_Props\<close>: \<^verbatim>\<open>raft-db-sharded/config.go\<close>, the names
    groups are joined with, and the sizes that are mixed up.
  \<^item> \<open>Logging\<close>: \<^verbatim>\<open>raft/util.go\<close> and the debug output of the services.

  \<^bold>\<open>How the parts interact.\<close> A service's handler calls \<open>Start\<close> on its Raft server; replication
  brings the entry to the other servers; \<open>DoApply\<close> hands committed entries to the service's own
  apply loop (\<open>kvDoApplyLoop\<close>, \<open>scDoApplyLoop\<close>), which updates the service's state, wakes the
  handler that waits at the index, and from time to time hands a snapshot back to Raft. The
  clients retry until a server answers. The sharded client asks the controller's client which
  group serves a key. A tester starts servers on the simulated network, cuts and restores their
  links, reads their state and what they apply; the testers of the services make clients too, and the one of
  the sharded store joins its groups at the controllers it started. \<open>Raft_Cluster\<close> has a network of its own, which may do
  to a message whatever the simulated one may do, and more.

  \<^bold>\<open>Bounds and fuel.\<close> The clients' loops end only when a server answers; their fuel is the number
  of calls or rounds, and the theorems say how many are enough. \<open>DoApplyLoop\<close> takes the number of
  rounds; as many as there are entries to apply are enough. \<open>rebalance\<close> is a \<open>while_option\<close> with
  a proof that it ends. The search of the checker takes at most \<open>searchBound\<close> rounds,
  \<open>(len + 2) ^ (len div 2 + 1)\<close> for a list of \<open>len\<close> entries. \<open>checkType\<close> needs more fuel than there
  are types. The tester's repeated checks take the list of what they read in each round.

  \<^bold>\<open>Not modelled.\<close> The page of \<^verbatim>\<open>visualization.go\<close>, a constant text of HTML, CSS and JavaScript (an
  argument of \<open>Visualize\<close>). The calls of \<^verbatim>\<open>Debug\<close> inside the handlers: they only print. The goroutines of
  \<^verbatim>\<open>DoReplicate\<close>: nothing signals the condition they wait for. The wall clock: sleeps and timeouts appear as
  the choice of which step happens when, and the time limits of the testers are left out, as are the
  seeding of the random numbers and printed statistics.
\<close>

section \<open>Elections\<close>

text \<open>
  C1. Election safety: whatever the network of a cluster of \<open>n\<close> servers loses, delays or reorders
  and whichever servers crash and restart, at most one server is ever the leader of a term: two
  servers that are leaders in the same term, at the same time or one of them at any later time,
  are the same server.
\<close>

theorem election_safety:
  assumes "reachable n cl" "(cstep n)\<^sup>*\<^sup>* cl cl'" "i \<in> servers n" "j \<in> servers n"
    and "rf_state (cl_node cl i) = Leader" "rf_state (cl_node cl' j) = Leader"
    and "rf_term (cl_node cl i) = rf_term (cl_node cl' j)"
  shows "i = j"
  using assms by (rule reachable_election_safety)

lemma election_safety_witness:
  "{i \<in> servers 3. rf_state (cl_node demo4 i) = Leader \<and> rf_term (cl_node demo4 i) = 1} = {0}"
proof -
  have l: "0 \<in> servers 3" "rf_state (cl_node demo4 0) = Leader" "rf_term (cl_node demo4 0) = 1"
    using demo_log(2) demo_leader(4) by (auto simp: servers3)
  have "i = 0" if "i \<in> servers 3" "rf_state (cl_node demo4 i) = Leader"
    "rf_term (cl_node demo4 i) = 1" for i
    using election_safety [OF demo_reachable(4) rtranclp.rtrancl_refl that(1) l(1) that(2) l(2)] that(3) l(3) by simp
  with l show ?thesis by auto
qed

text \<open>
  C25. Crash recovery: a server of a reachable cluster that crashes and is started again from
  its stable storage always starts, as a follower, with the term, the vote and the log it had
  at the crash, and with everything up to its snapshot counted as applied.
\<close>

theorem crash_recovery:
  assumes "reachable n cl" "i \<in> servers n"
  shows "\<exists>rf'. Make n i (Copy (rf_persister (cl_node cl i))) r = Inr rf' \<and>
     rf_state rf' = Follower \<and> rf_term rf' = rf_term (cl_node cl i) \<and>
     rf_votedFor rf' = rf_votedFor (cl_node cl i) \<and> rf_log rf' = rf_log (cl_node cl i) \<and>
     rf_commitIndex rf' = base (rf_log (cl_node cl i)) \<and>
     rf_lastApplied rf' = base (rf_log (cl_node cl i))"
  using Make_restart [OF reachable_node_ok [OF assms], of r] by auto

lemma crash_recovery_witness:
  "\<exists>rf'. Make 3 0 (Copy (rf_persister (cl_node demo4 0))) 7 = Inr rf' \<and>
     rf_state rf' = Follower \<and> rf_term rf' = 1 \<and> rf_votedFor rf' = 0 \<and>
     rf_log rf' = [sentinel, \<lparr>eTerm = 1, eIndex = 1, eCommand = Some ''x''\<rparr>]"
  using crash_recovery [OF demo_reachable(4), of 0 7] by (auto simp: servers3 demo_log)

text \<open>
  C23. Refinement: every step of the cluster, seen through its roles, terms, votes and the vote
  traffic, is a sequence of steps of the abstract election protocol of \<open>Election\<close> that cast only
  votes the servers then remember, and keeps the condition under which the correspondence holds.
\<close>

theorem cluster_refines_election:
  assumes "cstep n cl cl'" "cluster_ok n A cl"
  shows "\<exists>A'. cluster_ok n A' cl' \<and>
     (estep (servers n) (int n div 2 + 1) (votesOf n cl'))\<^sup>*\<^sup>* (elect_of cl A) (elect_of cl' A')"
  using cstep_simulates [OF assms order_refl] by (auto simp: simulated_def)

lemma cluster_refines_election_witness:
  "\<exists>A A'. (estep (servers 3) 2 (votesOf 3 demo3))\<^sup>*\<^sup>* (elect_of demo2 A) (elect_of demo3 A') \<and>
     role (elect_of demo2 A) 0 = Candidate \<and> role (elect_of demo3 A') 0 = Leader"
proof -
  obtain A where "cluster_ok 3 A demo2" using reachable_inv [OF demo_reachable(2)] unfolding cinv_def by blast
  from cluster_refines_election [OF demo_reachable(3) this] show ?thesis
    by (auto simp: demo_leader)
qed

end
